(* ===== verification/Prelude.thy ===== *)
theory Prelude
  imports Main "HOL-Library.Word" "HOL-Library.Multiset"
begin

text \<open>
  Shared vocabulary of the development.

  \<^item> Errors: the C++ code reports failure by throwing; a function that can throw returns
    a value of \<open>exn + 'a\<close>, with \<open>Inl\<close> the exception (its class and message, as in the
    source) and \<open>Inr\<close> the result. \<open>UB\<close> marks a read or write the source performs outside the
    live part of a buffer, where the language gives no meaning.
  \<^item> Sizes: \<open>size_t\<close> and \<open>idx_type\<close> are 64-bit unsigned. Sizes and indices are natural
    numbers; where the source subtracts or multiplies them and the result can leave the
    range, the wrap-around is written out (\<open>size_sub\<close>, \<open>size_mul\<close>), and
    \<open>size_sub_word\<close>, \<open>size_mul_word\<close> tie the two to machine words.
  \<^item> Generic facts on lists that the components share: adjacent order (\<open>successively\<close>)
    under append, update and map; loops over an index range as folds.
\<close>

section \<open>Exceptions as values\<close>

datatype exn =
    OutOfRange string
  | RangeError string
  | InvalidArgument string
  | LogicError string
  | DomainError string
  | EvalException string
  | BadAlloc
  | UB

type_synonym 'a res = "exn + 'a"

named_theorems res_simps \<open>evaluation of code that may throw\<close>

fun bindR :: "'a res \<Rightarrow> ('a \<Rightarrow> 'b res) \<Rightarrow> 'b res" where
  "bindR (Inl e) f = Inl e"
| "bindR (Inr x) f = f x"

lemma bindR_eq_Inr [res_simps]:
  "bindR m f = Inr y \<longleftrightarrow> (\<exists>x. m = Inr x \<and> f x = Inr y)"
  by (cases m) auto

lemma bindR_eq_Inl:
  "bindR m f = Inl e \<longleftrightarrow> m = Inl e \<or> (\<exists>x. m = Inr x \<and> f x = Inl e)"
  by (cases m) auto

lemma bindR_cong [fundef_cong]:
  "m = m' \<Longrightarrow> (\<And>x. m' = Inr x \<Longrightarrow> f x = f' x) \<Longrightarrow> bindR m f = bindR m' f'"
  by (cases m') auto

lemma bindR_assoc: "bindR (bindR m f) g = bindR m (\<lambda>x. bindR (f x) g)"
  by (cases m) auto

text \<open>A range-based \<open>for\<close> loop whose body may throw: the state is threaded through, and the
  first exception ends the loop.\<close>

fun foldR :: "('b \<Rightarrow> 'a \<Rightarrow> 'a res) \<Rightarrow> 'b list \<Rightarrow> 'a \<Rightarrow> 'a res" where
  "foldR f [] s = Inr s"
| "foldR f (x # xs) s = bindR (f x s) (foldR f xs)"

lemma foldR_cong [fundef_cong]:
  "xs = ys \<Longrightarrow> s = t \<Longrightarrow> (\<And>x u. x \<in> set ys \<Longrightarrow> f x u = g x u) \<Longrightarrow> foldR f xs s = foldR g ys t"
proof (induction xs arbitrary: ys s t)
  case (Cons x xs)
  then show ?case by (cases "g x t") auto
qed simp

lemma foldR_append: "foldR f (xs @ ys) s = bindR (foldR f xs s) (foldR f ys)"
proof (induction xs arbitrary: s)
  case Nil
  show ?case by simp
next
  case (Cons x xs)
  show ?case by (cases "f x s") (simp_all add: Cons.IH)
qed

lemma foldR_invariant:
  assumes "foldR f xs s = Inr s'" and "P s"
    and "\<And>x s s'. x \<in> set xs \<Longrightarrow> P s \<Longrightarrow> f x s = Inr s' \<Longrightarrow> P s'"
  shows "P s'"
  using assms
proof (induction xs arbitrary: s)
  case Nil
  then show ?case by simp
next
  case (Cons x xs)
  from Cons.prems(1) obtain t where t: "f x s = Inr t" and rest: "foldR f xs t = Inr s'"
    by (auto simp: res_simps)
  have "P t" by (rule Cons.prems(3) [OF _ Cons.prems(2) t]) simp
  then show ?case by (rule Cons.IH [OF rest]) (rule Cons.prems(3), auto)
qed

lemma foldR_total:
  assumes "P s"
    and "\<And>x s. x \<in> set xs \<Longrightarrow> P s \<Longrightarrow> \<exists>s'. f x s = Inr s' \<and> P s'"
  shows "\<exists>s'. foldR f xs s = Inr s' \<and> P s'"
  using assms
proof (induction xs arbitrary: s)
  case Nil
  then show ?case by simp
next
  case (Cons x xs)
  then obtain t where "f x s = Inr t" "P t" by fastforce
  with Cons show ?case by fastforce
qed

section \<open>Unsigned 64-bit sizes\<close>

definition SIZE_MAX :: nat where
  "SIZE_MAX = 2 ^ 64 - 1"

definition size_sub :: "nat \<Rightarrow> nat \<Rightarrow> nat" where
  "size_sub a b = (if b \<le> a then a - b else a + 2 ^ 64 - b)"

definition size_mul :: "nat \<Rightarrow> nat \<Rightarrow> nat" where
  "size_mul a b = (a * b) mod 2 ^ 64"

lemma size_sub_le [simp]: "b \<le> a \<Longrightarrow> size_sub a b = a - b"
  by (simp add: size_sub_def)

lemma size_sub_0_1: "size_sub 0 1 = SIZE_MAX"
  by (simp add: size_sub_def SIZE_MAX_def)

lemma size_sub_word: "size_sub (unat a) (unat b) = unat (a - b)" for a b :: "64 word"
proof (cases "unat b \<le> unat a")
  case True
  then show ?thesis by (simp add: size_sub_def unat_sub word_le_nat_alt)
next
  case False
  then have "a < b" by (simp add: word_less_nat_alt)
  then have "unat (a - b) = 2 ^ 64 + unat a - unat b"
    using unat_sub_if' [of a b] False by simp
  with False show ?thesis by (simp add: size_sub_def)
qed

lemma size_mul_word: "size_mul (unat a) (unat b) = unat (a * b)" for a b :: "64 word"
  by (simp add: size_mul_def unat_word_ariths)

lemma size_mul_small [simp]: "a * b \<le> SIZE_MAX \<Longrightarrow> size_mul a b = a * b"
  by (simp add: size_mul_def SIZE_MAX_def)

section \<open>Adjacent order\<close>

named_theorems ordered_simps \<open>the order of adjacent elements under list operations\<close>

lemma successively_nth:
  "successively P xs \<longleftrightarrow> (\<forall>i. Suc i < length xs \<longrightarrow> P (xs ! i) (xs ! Suc i))"
proof (induction xs rule: induct_list012)
  case (3 x y zs)
  have "(\<forall>i. Suc i < length (x # y # zs) \<longrightarrow> P ((x # y # zs) ! i) ((x # y # zs) ! Suc i))
        \<longleftrightarrow> P x y \<and> (\<forall>i. Suc i < length (y # zs) \<longrightarrow> P ((y # zs) ! i) ((y # zs) ! Suc i))"
    by (rule iffI) (fastforce, metis (no_types, lifting) Suc_less_eq length_Cons not0_implies_Suc
          nth_Cons_0 nth_Cons_Suc)
  with 3 show ?case by simp
qed auto

lemma successively_short: "length xs \<le> 1 \<Longrightarrow> successively P xs"
  by (simp add: successively_nth)

lemma successively_snoc [ordered_simps]:
  "successively P (xs @ [x]) \<longleftrightarrow> successively P xs \<and> (xs = [] \<or> P (last xs) x)"
  by (auto simp: successively_append_iff)

lemma successively_take: "successively P xs \<Longrightarrow> successively P (take n xs)"
  by (simp add: successively_nth)

lemma successively_drop: "successively P xs \<Longrightarrow> successively P (drop n xs)"
  by (simp add: successively_nth add.commute)

lemma successively_replicate [ordered_simps]:
  "successively P (replicate n x) \<longleftrightarrow> n \<le> 1 \<or> P x x"
  by (induction n rule: induct_nat_012) auto

lemma in_set_drop_iff: "x \<in> set (drop i xs) \<longleftrightarrow> (\<exists>k. i \<le> k \<and> k < length xs \<and> x = xs ! k)"
proof
  assume "x \<in> set (drop i xs)"
  then obtain j where "j < length xs - i" "x = xs ! (i + j)" by (auto simp: in_set_conv_nth)
  then show "\<exists>k. i \<le> k \<and> k < length xs \<and> x = xs ! k" by (intro exI [of _ "i + j"]) simp
next
  assume "\<exists>k. i \<le> k \<and> k < length xs \<and> x = xs ! k"
  then obtain k where "i \<le> k" "k < length xs" "x = xs ! k" by blast
  then have "k - i < length (drop i xs)" "x = drop i xs ! (k - i)" by simp_all
  then show "x \<in> set (drop i xs)" by (metis nth_mem)
qed

lemma in_set_take_iff: "x \<in> set (take i xs) \<longleftrightarrow> (\<exists>k. k < i \<and> k < length xs \<and> x = xs ! k)"
  by (auto simp: in_set_conv_nth)

lemma take_Suc_update:
  "i < length xs \<Longrightarrow> take (Suc i) (xs[i := x]) = take i xs @ [x]"
  by (simp add: take_Suc_conv_app_nth)

section \<open>Positions that satisfy a predicate, in order\<close>

lemma filter_upt_sorted: "sorted_wrt (<) (filter P [0..<n])"
  by (rule sorted_wrt_filter) simp

lemma filter_upt_nth_less: "i < j \<Longrightarrow> j < length (filter P [0..<n]) \<Longrightarrow> filter P [0..<n] ! i < filter P [0..<n] ! j"
  by (rule sorted_wrt_nth_less [OF filter_upt_sorted])

lemma filter_upt_nth: "k < length (filter P [0..<n]) \<Longrightarrow> filter P [0..<n] ! k < n \<and> P (filter P [0..<n] ! k)"
  using nth_mem [of k "filter P [0..<n]"] by simp

lemma filter_upt_obtain:
  assumes "q < n" "P q"
  obtains m where "m < length (filter P [0..<n])" "filter P [0..<n] ! m = q"
proof -
  from assms have "q \<in> set (filter P [0..<n])" by simp
  then show thesis unfolding in_set_conv_nth using that by blast
qed

lemma filter_upt_next:
  assumes "k < length (filter P [0..<n])" "filter P [0..<n] ! k < q" "q < n" "P q"
    and "\<And>r. filter P [0..<n] ! k < r \<Longrightarrow> r < q \<Longrightarrow> \<not> P r"
  shows "Suc k < length (filter P [0..<n]) \<and> filter P [0..<n] ! Suc k = q"
proof -
  let ?s = "filter P [0..<n]"
  from assms(3,4) obtain m where m: "m < length ?s" "?s ! m = q" by (rule filter_upt_obtain)
  have "k < m"
  proof (rule ccontr)
    assume "\<not> k < m"
    then have "m = k \<or> m < k" by linarith
    with assms(1,2) m filter_upt_nth_less [of m k P n] show False by auto
  qed
  moreover have "\<not> Suc k < m"
  proof
    assume "Suc k < m"
    with m filter_upt_nth_less [of "Suc k" m P n] filter_upt_nth_less [of k "Suc k" P n] filter_upt_nth [of "Suc k" P n]
      assms(5) [of "?s ! Suc k"] show False by auto
  qed
  ultimately have "m = Suc k" by simp
  with m show ?thesis by simp
qed

lemma filter_upt_last:
  assumes "k < length (filter P [0..<n])" "\<And>r. filter P [0..<n] ! k < r \<Longrightarrow> r < n \<Longrightarrow> \<not> P r"
  shows "Suc k = length (filter P [0..<n])"
proof (rule ccontr)
  assume "Suc k \<noteq> length (filter P [0..<n])"
  with assms(1) have l: "Suc k < length (filter P [0..<n])" by linarith
  note n = filter_upt_nth [OF l]
  from assms(2) [OF filter_upt_nth_less [OF lessI l] conjunct1 [OF n]] conjunct2 [OF n] show False by (rule notE)
qed

lemma filter_upt_first:
  assumes "q < n" "P q" "\<And>r. r < q \<Longrightarrow> \<not> P r"
  shows "filter P [0..<n] \<noteq> [] \<and> filter P [0..<n] ! 0 = q"
proof -
  from assms(1,2) obtain m where m: "m < length (filter P [0..<n])" "filter P [0..<n] ! m = q" by (rule filter_upt_obtain)
  have "m = 0"
  proof (rule ccontr)
    assume "m \<noteq> 0"
    then have z: "0 < m" by simp
    have l: "0 < length (filter P [0..<n])" using m(1) by linarith
    from assms(3) [OF filter_upt_nth_less [OF z m(1), unfolded m(2)]] conjunct2 [OF filter_upt_nth [OF l]]
    show False by (rule notE)
  qed
  with m show ?thesis by auto
qed

end
