(* ===== verification/Vectors.thy ===== *)
theory Vectors
  imports Prelude
begin

text \<open>
  \<open>src/src/vector_base.hpp\<close>: the growable, memory-mappable \<open>Vector<T,O>\<close> every column,
  dimension and name vector of the database is made of.

  A vector is a record: the live elements \<open>c->v[0 .. c->n)\<close>, the \<open>c->ordered\<close> flag, the
  reserved capacity, the type number of the mapped header and the kind of allocator. The
  comparator \<open>O\<close> is an argument of the operations that use it, as it is a template parameter in
  the source. Memory the source leaves uninitialised (\<open>noinit\<close>, a growing \<open>resize\<close>) is given
  by an argument \<open>junk\<close>, from index to value, about which nothing is assumed. Not represented: the
  moved-from state (\<open>c == nullptr\<close>) and the failure of \<open>malloc\<close>/\<open>mremap\<close>.

  The flag is what the rest of the system relies on (set operations and binary searches skip
  sorting when it is set). Its meaning is \<open>vec_inv\<close>: when set, no element is smaller than the one
  before it. It is not the stronger "strictly increasing" that \<open>push_back\<close> checks, because
  \<open>sort\<close> sets it on vectors with repeated elements.
\<close>

section \<open>Capacity and size computations\<close>

definition VECTOR_INITIAL_ALLOC :: nat where
  "VECTOR_INITIAL_ALLOC = 1024"

definition sizeof_RawVector :: nat where
  "sizeof_RawVector = 24"

definition growCapacity :: "nat \<Rightarrow> nat" where
  "growCapacity n =
     (if n > 0 \<and> n > SIZE_MAX div 4 then SIZE_MAX
      else if n < VECTOR_INITIAL_ALLOC div 2 then VECTOR_INITIAL_ALLOC
      else size_mul n 4 div 3)"

definition getTotalSize :: "nat \<Rightarrow> nat \<Rightarrow> nat" where
  "getTotalSize sizeofT n =
     (if n > 0 \<and> n > size_sub (SIZE_MAX div sizeofT) sizeof_RawVector then SIZE_MAX
      else (size_mul n sizeofT + sizeof_RawVector) mod 2 ^ 64)"

definition memsize :: "nat \<Rightarrow> nat \<Rightarrow> nat" where
  "memsize sizeofT n = (size_mul n sizeofT + sizeof_RawVector) mod 2 ^ 64"

section \<open>The vector and its constructors\<close>

datatype allocator = MemAlloc | FlexAlloc | MmapAlloc | NullAlloc

record 'a vec =
  typenumber :: nat
  elems :: "'a list"
  ordered :: bool
  capacity :: nat
  alloc :: allocator

abbreviation vsize :: "'a vec \<Rightarrow> nat" where
  "vsize v \<equiv> length (elems v)"

definition vec_fill :: "('a \<Rightarrow> 'a \<Rightarrow> bool) \<Rightarrow> nat \<Rightarrow> nat \<Rightarrow> 'a \<Rightarrow> allocator \<Rightarrow> 'a vec res" where
  "vec_fill cmp tn n value a =
     (if a = NullAlloc then Inl (InvalidArgument ''Vector<T>: null allocator'')
      else Inr \<lparr>typenumber = tn, elems = replicate n value,
                ordered = (if n > 1 then cmp value value else True),
                capacity = growCapacity n, alloc = a\<rparr>)"

definition vec_rsv :: "nat \<Rightarrow> nat \<Rightarrow> allocator \<Rightarrow> 'a vec res" where
  "vec_rsv tn n a =
     (if a = NullAlloc then Inl (InvalidArgument ''Vector<T,O>: null allocator'')
      else Inr \<lparr>typenumber = tn, elems = [], ordered = True,
                capacity = growCapacity n, alloc = a\<rparr>)"

definition vec_noinit :: "(nat \<Rightarrow> 'a) \<Rightarrow> nat \<Rightarrow> nat \<Rightarrow> allocator \<Rightarrow> 'a vec res" where
  "vec_noinit junk tn n a =
     (if a = NullAlloc then Inl (InvalidArgument ''Vector<T,O>: null allocator'')
      else Inr \<lparr>typenumber = tn, elems = map junk [0..<n], ordered = True,
                capacity = growCapacity n, alloc = a\<rparr>)"

text \<open>The loop of the iterator and initializer-list constructors: the flag is cleared at the
  first element that is not above its predecessor.\<close>

fun scan_ordered :: "('a \<Rightarrow> 'a \<Rightarrow> bool) \<Rightarrow> 'a \<Rightarrow> 'a list \<Rightarrow> bool \<Rightarrow> bool" where
  "scan_ordered cmp p [] b = b"
| "scan_ordered cmp p (x # xs) b = scan_ordered cmp x xs (if \<not> cmp p x then False else b)"

definition vec_of_list :: "('a \<Rightarrow> 'a \<Rightarrow> bool) \<Rightarrow> nat \<Rightarrow> 'a list \<Rightarrow> allocator \<Rightarrow> 'a vec res" where
  "vec_of_list cmp tn xs a =
     (if a = NullAlloc then Inl (InvalidArgument ''Vector<T,O>: null allocator'')
      else Inr \<lparr>typenumber = tn, elems = xs,
                ordered = (case xs of [] \<Rightarrow> True | y # ys \<Rightarrow> scan_ordered cmp y ys True),
                capacity = growCapacity (length xs), alloc = a\<rparr>)"

definition vec_copy :: "'a vec \<Rightarrow> allocator \<Rightarrow> 'a vec res" where
  "vec_copy v a =
     (if a = NullAlloc then Inl (InvalidArgument ''Vector<T>: null allocator'')
      else Inr (v\<lparr>alloc := a\<rparr>))"

section \<open>Element access\<close>

definition vec_at :: "'a vec \<Rightarrow> nat \<Rightarrow> 'a res" where
  "vec_at v i =
     (if i > size_sub (vsize v) 1 then Inl (OutOfRange ''subscript out of bounds'')
      else if i < vsize v then Inr (elems v ! i) else Inl UB)"

definition vec_front :: "'a vec \<Rightarrow> 'a res" where
  "vec_front v = (if vsize v = 0 then Inl (RangeError ''front on empty Vector'')
                  else Inr (elems v ! 0))"

definition vec_back :: "'a vec \<Rightarrow> 'a res" where
  "vec_back v = (if vsize v = 0 then Inl (RangeError ''front on empty Vector'')
                 else Inr (elems v ! (vsize v - 1)))"

definition setv :: "('a \<Rightarrow> 'a \<Rightarrow> bool) \<Rightarrow> nat \<Rightarrow> 'a \<Rightarrow> 'a vec \<Rightarrow> 'a vec res" where
  "setv cmp i t v =
     (if i \<ge> vsize v then Inl (RangeError ''subscript out of bounds'')
      else
        let o0 = ordered v;
            o1 = (if o0 \<and> i > 0 then cmp (elems v ! (i - 1)) t else o0);
            o2 = (if o0 \<and> i < vsize v - 1 then o1 \<and> cmp t (elems v ! (i + 1)) else o1)
        in Inr (v\<lparr>elems := (elems v)[i := t], ordered := o2\<rparr>))"

definition setv_checkbefore :: "('a \<Rightarrow> 'a \<Rightarrow> bool) \<Rightarrow> nat \<Rightarrow> 'a \<Rightarrow> 'a vec \<Rightarrow> 'a vec res" where
  "setv_checkbefore cmp i t v =
     (if i \<ge> vsize v then Inl (RangeError ''subscript out of bounds'')
      else
        let es = (elems v)[i := t];
            o1 = (if ordered v \<and> i > 0 then cmp (es ! (i - 1)) t else ordered v)
        in Inr (v\<lparr>elems := es, ordered := o1\<rparr>))"

definition setv_nocheck :: "nat \<Rightarrow> 'a \<Rightarrow> 'a vec \<Rightarrow> 'a vec res" where
  "setv_nocheck i t v =
     (if i < vsize v then Inr (v\<lparr>elems := (elems v)[i := t]\<rparr>) else Inl UB)"

section \<open>Growing and shrinking\<close>

definition push_back :: "('a \<Rightarrow> 'a \<Rightarrow> bool) \<Rightarrow> 'a \<Rightarrow> 'a vec \<Rightarrow> 'a vec res" where
  "push_back cmp value v =
     (let n = vsize v in
      if n + 1 > capacity v \<and> alloc v = NullAlloc
      then Inl (RangeError ''vector::push_back: cannot reallocate with null allocator'')
      else Inr (v\<lparr>capacity := (if n + 1 > capacity v then growCapacity n else capacity v),
                  elems := elems v @ [value],
                  ordered := (if n > 0 then ordered v \<and> cmp (elems v ! (n - 1)) value else True)\<rparr>))"

definition resize :: "(nat \<Rightarrow> 'a) \<Rightarrow> nat \<Rightarrow> nat \<Rightarrow> 'a vec \<Rightarrow> 'a vec res" where
  "resize junk n from v =
     (if from > vsize v then Inl (OutOfRange ''resize from out of bounds'')
      else if from \<noteq> 0 \<or> n \<noteq> vsize v then
        (if alloc v = NullAlloc
         then Inl (RangeError ''vector::resize: cannot reallocate with null allocator'')
         else if from \<noteq> 0 \<and> alloc v = MemAlloc
         then Inl (OutOfRange ''memallocator can't reallocate at an offset'')
         else if from \<noteq> 0 \<and> alloc v = MmapAlloc
         then Inl (OutOfRange ''mmapallocator can't reallocate at an offset'')
         else Inr (v\<lparr>capacity := growCapacity n,
                     elems := map (\<lambda>i. if i < vsize v - from then elems v ! (from + i) else junk i)
                                [0..<n]\<rparr>))
      else Inr v)"

definition resize_fill :: "(nat \<Rightarrow> 'a) \<Rightarrow> nat \<Rightarrow> nat \<Rightarrow> 'a \<Rightarrow> 'a vec \<Rightarrow> 'a vec res" where
  "resize_fill junk n from x v =
     (if from \<ge> vsize v then Inl (OutOfRange ''resize from out of bounds'')
      else
        let start_fill = vsize v - from
        in bindR (resize junk n from v)
             (\<lambda>v1. Inr (v1\<lparr>elems := map (\<lambda>i. if i \<ge> start_fill then x else elems v1 ! i) [0..<n]\<rparr>)))"

definition vec_init :: "('a \<Rightarrow> 'a \<Rightarrow> bool) \<Rightarrow> (nat \<Rightarrow> 'a) \<Rightarrow> nat \<Rightarrow> 'a \<Rightarrow> 'a vec \<Rightarrow> 'a vec res" where
  "vec_init cmp junk cnt value v =
     bindR (resize junk cnt 0 v)
       (\<lambda>v1. Inr (v1\<lparr>elems := map (\<lambda>_. value) [0..<cnt],
                     ordered := (if cnt > 1 then cmp value value else True)\<rparr>))"

text \<open>Writing through a mutable iterator clears \<open>c->ordered\<close> (\<open>vector_iterator::operator*\<close>).\<close>

definition iter_write :: "nat \<Rightarrow> 'a \<Rightarrow> 'a list \<times> bool \<Rightarrow> 'a list \<times> bool" where
  "iter_write pos x st = ((fst st)[pos := x], False)"

text \<open>The shift of \<open>insert\<close>: \<open>iter\<close> runs from \<open>end()\<close> down to just above \<open>position\<close>. Its first
  write is one past the live elements, in the reserved capacity, and the reads below the start
  (\<open>iter - diff\<close> with \<open>iter < diff\<close>) are of cells that the insertion overwrites afterwards.\<close>

function insert_shift :: "(nat \<Rightarrow> 'a) \<Rightarrow> nat \<Rightarrow> nat \<Rightarrow> nat \<Rightarrow> 'a list \<Rightarrow> 'a list" where
  "insert_shift junk diff position k es =
     (if k > position
      then insert_shift junk diff position (k - 1)
             (es[k := (if diff \<le> k \<and> k - diff < length es then es ! (k - diff) else junk k)])
      else es)"
  by pat_completeness auto
termination
  by (relation "measure (\<lambda>(junk, diff, position, k, es). k)") auto

fun insert_elems :: "('a \<Rightarrow> 'a \<Rightarrow> bool) \<Rightarrow> 'a list \<Rightarrow> nat \<Rightarrow> 'a list \<times> bool \<Rightarrow> bool
    \<Rightarrow> nat \<times> ('a list \<times> bool) \<times> bool" where
  "insert_elems cmp [] position st ord = (position, st, ord)"
| "insert_elems cmp (x # xs) position st ord =
     (let st' = iter_write position x st;
          ord' = (if snd st' \<and> \<not> cmp (fst st' ! (position - 1)) (fst st' ! position)
                  then False else ord)
      in insert_elems cmp xs (position + 1) st' ord')"

definition vec_insert ::
  "('a \<Rightarrow> 'a \<Rightarrow> bool) \<Rightarrow> (nat \<Rightarrow> 'a) \<Rightarrow> nat \<Rightarrow> 'a list \<Rightarrow> 'a vec \<Rightarrow> ('a vec \<times> nat) res" where
  "vec_insert cmp junk position xs v =
     (if position > vsize v then Inl UB
      else if xs = [] then Inr (v, position)
      else
        let ord0 = ordered v; diff = length xs; n = vsize v in
        bindR (resize junk (n + diff) 0 v) (\<lambda>v1.
          let es1 = (if n \<noteq> 0 \<and> int n - 1 - int position > 0
                     then insert_shift junk diff position (n + diff) (elems v1) else elems v1);
              st2 = iter_write position (hd xs) (es1, ordered v1);
              ord1 = (if position \<noteq> 0
                      then ord0 \<and> cmp (fst st2 ! (position - 1)) (fst st2 ! position) else ord0);
              (pos3, st3, ord2) = insert_elems cmp (tl xs) (position + 1) st2 ord1;
              ord3 = (if pos3 \<noteq> n + diff
                      then ord2 \<and> cmp (fst st3 ! (pos3 - 1)) (fst st3 ! pos3) else ord2)
          in Inr (v1\<lparr>elems := fst st3, ordered := ord3\<rparr>, pos3)))"

text \<open>The loop of both \<open>erase\<close> members (the single-element one has \<open>diff = 1\<close>).\<close>

function erase_shift :: "nat \<Rightarrow> nat \<Rightarrow> 'a list \<times> bool \<Rightarrow> 'a list \<times> bool" where
  "erase_shift diff i st =
     (if i + diff < length (fst st)
      then erase_shift diff (i + 1) (iter_write i (fst st ! (i + diff)) st)
      else st)"
  by pat_completeness auto
termination
  by (relation "measure (\<lambda>(diff, i, st). length (fst st) - i)") (auto simp: iter_write_def)

definition erase :: "(nat \<Rightarrow> 'a) \<Rightarrow> nat \<Rightarrow> nat \<Rightarrow> 'a vec \<Rightarrow> 'a vec res" where
  "erase junk first lst v =
     (if first > lst \<or> lst > vsize v then Inl UB
      else
        let diff = lst - first;
            st = erase_shift diff first (elems v, ordered v)
        in resize junk (vsize v - diff) 0 (v\<lparr>elems := fst st, ordered := snd st\<rparr>))"

definition erase_one :: "(nat \<Rightarrow> 'a) \<Rightarrow> nat \<Rightarrow> 'a vec \<Rightarrow> 'a vec res" where
  "erase_one junk position v =
     (if position \<ge> vsize v then Inl UB
      else
        let st = erase_shift 1 position (elems v, ordered v)
        in resize junk (vsize v - 1) 0 (v\<lparr>elems := fst st, ordered := snd st\<rparr>))"

section \<open>The flag, sorting, element-wise functions\<close>

definition forceOrdered :: "'a vec \<Rightarrow> 'a vec" where
  "forceOrdered v = v\<lparr>ordered := True\<rparr>"

definition forceUnOrdered :: "'a vec \<Rightarrow> 'a vec" where
  "forceUnOrdered v = v\<lparr>ordered := False\<rparr>"

definition setOrdered :: "bool \<Rightarrow> 'a vec \<Rightarrow> 'a vec" where
  "setOrdered val v = v\<lparr>ordered := val\<rparr>"

function check_ordered_from :: "('a \<Rightarrow> 'a \<Rightarrow> bool) \<Rightarrow> 'a list \<Rightarrow> nat \<Rightarrow> bool" where
  "check_ordered_from cmp es j =
     (if j < length es
      then if \<not> cmp (es ! (j - 1)) (es ! j) then False else check_ordered_from cmp es (j + 1)
      else True)"
  by pat_completeness auto
termination
  by (relation "measure (\<lambda>(cmp, es, j). length es - j)") auto

definition checkAndSetOrdered :: "('a \<Rightarrow> 'a \<Rightarrow> bool) \<Rightarrow> 'a vec \<Rightarrow> bool \<times> 'a vec" where
  "checkAndSetOrdered cmp v =
     (let b = check_ordered_from cmp (elems v) 1 in (b, v\<lparr>ordered := b\<rparr>))"

text \<open>\<open>sort\<close> with the comparator of the vector (\<open>AO = O = std::less\<close>), on a type whose \<open><\<close> is
  linear: \<open>std::sort\<close> then has one possible result.\<close>

definition vec_sort :: "'a::linorder vec \<Rightarrow> 'a vec" where
  "vec_sort v = (if ordered v then v else v\<lparr>elems := sort (elems v), ordered := True\<rparr>)"

text \<open>\<open>sort_idx\<close>: \<open>std::sort\<close> leaves the order of equal elements open; the model keeps their
  original order, which is one of the allowed results.\<close>

definition sort_idx :: "nat \<Rightarrow> 'a::linorder vec \<Rightarrow> nat list" where
  "sort_idx base v = sort_key (\<lambda>a. elems v ! (a - base)) [base..<base + vsize v]"

definition apply_scalar_post :: "('a \<Rightarrow> 'a \<Rightarrow> bool) \<Rightarrow> ('a \<Rightarrow> 'u \<Rightarrow> 'a) \<Rightarrow> 'u \<Rightarrow> 'a vec \<Rightarrow> 'a vec res" where
  "apply_scalar_post cmp F u v =
     foldR (\<lambda>i w. bindR (vec_at w i) (\<lambda>x. setv_checkbefore cmp i (F x u) w))
       [0..<vsize v] (v\<lparr>ordered := True\<rparr>)"

definition apply_vec :: "('a \<Rightarrow> 'a \<Rightarrow> bool) \<Rightarrow> ('a \<Rightarrow> 'u \<Rightarrow> 'a) \<Rightarrow> 'u vec \<Rightarrow> 'a vec \<Rightarrow> 'a vec res" where
  "apply_vec cmp F u v =
     foldR (\<lambda>i w. bindR (vec_at w i) (\<lambda>x. bindR (vec_at u i) (\<lambda>y. setv_checkbefore cmp i (F x y) w)))
       [0..<vsize v] (v\<lparr>ordered := True\<rparr>)"

definition vec_eq :: "'a vec \<Rightarrow> 'a vec \<Rightarrow> bool" where
  "vec_eq v1 v2 =
     (if vsize v1 \<noteq> vsize v2 then False
      else list_all (\<lambda>i. elems v1 ! i = elems v2 ! i) [0..<vsize v1])"


section \<open>Capacity lemmas\<close>

lemma growCapacity_no_wrap:
  "n \<le> SIZE_MAX div 4 \<Longrightarrow> size_mul n 4 = n * 4"
  by (rule size_mul_small) (simp add: SIZE_MAX_def)

lemma growCapacity_small: "n < 512 \<Longrightarrow> growCapacity n = 1024"
  by (simp add: growCapacity_def VECTOR_INITIAL_ALLOC_def SIZE_MAX_def)

lemma growCapacity_ge: "n \<le> SIZE_MAX \<Longrightarrow> n \<le> growCapacity n"
  by (auto simp: growCapacity_def growCapacity_no_wrap VECTOR_INITIAL_ALLOC_def)

lemma growCapacity_gt: "n < SIZE_MAX \<Longrightarrow> n < growCapacity n"
  by (auto simp: growCapacity_def growCapacity_no_wrap VECTOR_INITIAL_ALLOC_def)

lemma growCapacity_le_max: "growCapacity n \<le> SIZE_MAX"
  by (auto simp: growCapacity_def growCapacity_no_wrap VECTOR_INITIAL_ALLOC_def SIZE_MAX_def)

lemma getTotalSize_exact:
  assumes "0 < sizeofT" "sizeofT \<le> 1024" "getTotalSize sizeofT n \<noteq> SIZE_MAX"
  shows "getTotalSize sizeofT n = n * sizeofT + sizeof_RawVector"
proof (cases "n = 0")
  case True
  then show ?thesis by (simp add: getTotalSize_def size_mul_def sizeof_RawVector_def)
next
  case False
  have big: "sizeof_RawVector \<le> SIZE_MAX div sizeofT"
  proof -
    have "SIZE_MAX div 1024 \<le> SIZE_MAX div sizeofT"
      using assms(1,2) by (intro div_le_mono2) auto
    then show ?thesis by (simp add: SIZE_MAX_def sizeof_RawVector_def)
  qed
  from False assms(3) big have "n \<le> SIZE_MAX div sizeofT - sizeof_RawVector"
    by (auto simp: getTotalSize_def split: if_splits)
  then have "n + sizeof_RawVector \<le> SIZE_MAX div sizeofT" using big by linarith
  then have "(n + sizeof_RawVector) * sizeofT \<le> SIZE_MAX div sizeofT * sizeofT"
    by (rule mult_right_mono) simp
  also have "\<dots> \<le> SIZE_MAX" by simp
  finally have "n * sizeofT + sizeof_RawVector * sizeofT \<le> SIZE_MAX"
    by (simp add: algebra_simps)
  moreover have "sizeof_RawVector \<le> sizeof_RawVector * sizeofT" using assms(1) by simp
  ultimately have "n * sizeofT + sizeof_RawVector \<le> SIZE_MAX" by linarith
  with assms(3) show ?thesis
    by (auto simp: getTotalSize_def SIZE_MAX_def split: if_splits)
qed

section \<open>What the flag promises\<close>

text \<open>The contract of a comparator (a C++ strict weak order): the part the flag needs is
  asymmetry; that "not smaller" is transitive makes adjacent order global order.\<close>

locale comparator =
  fixes lt :: "'a \<Rightarrow> 'a \<Rightarrow> bool"
  assumes lt_asym: "lt x y \<Longrightarrow> \<not> lt y x"
    and not_lt_trans: "\<not> lt y x \<Longrightarrow> \<not> lt z y \<Longrightarrow> \<not> lt z x"
begin

definition nondecr :: "'a list \<Rightarrow> bool" where
  "nondecr xs \<longleftrightarrow> successively (\<lambda>x y. \<not> lt y x) xs"

lemma nondecr_sorted_wrt: "nondecr xs \<longleftrightarrow> sorted_wrt (\<lambda>x y. \<not> lt y x) xs"
  unfolding nondecr_def
  by (rule successively_conv_sorted_wrt) (use not_lt_trans in \<open>auto simp: transp_def\<close>)

lemma increasing_nondecr: "successively lt xs \<Longrightarrow> nondecr xs"
  unfolding nondecr_def by (erule successively_mono) (rule lt_asym)

lemma nondecr_Nil [simp]: "nondecr []" and nondecr_single [simp]: "nondecr [x]"
  by (simp_all add: nondecr_def)

lemma nondecr_snoc:
  "nondecr (xs @ [x]) \<longleftrightarrow> nondecr xs \<and> (xs = [] \<or> \<not> lt x (last xs))"
  by (simp add: nondecr_def successively_snoc)

lemma nondecr_update:
  assumes "nondecr xs" "i < length xs"
    and "0 < i \<Longrightarrow> lt (xs ! (i - 1)) t"
    and "i < length xs - 1 \<Longrightarrow> lt t (xs ! (i + 1))"
  shows "nondecr (xs[i := t])"
  unfolding nondecr_def successively_nth
proof (intro allI impI)
  fix k assume k: "Suc k < length (xs[i := t])"
  from assms(1) k have old: "\<not> lt (xs ! Suc k) (xs ! k)"
    by (simp add: nondecr_def successively_nth)
  show "\<not> lt (xs[i := t] ! Suc k) (xs[i := t] ! k)"
  proof (cases "i = Suc k")
    case True
    with assms(2,3) k show ?thesis by (auto dest: lt_asym)
  next
    case False
    have "\<not> lt (xs ! Suc k) t" if "i = k"
      using assms(4) k that by (intro lt_asym) simp
    with False old k show ?thesis by (cases "i = k") simp_all
  qed
qed

end

definition vec_inv :: "('a \<Rightarrow> 'a \<Rightarrow> bool) \<Rightarrow> 'a vec \<Rightarrow> bool" where
  "vec_inv cmp v \<longleftrightarrow> (ordered v \<longrightarrow> successively (\<lambda>x y. \<not> cmp y x) (elems v))"

definition vec_fits :: "'a vec \<Rightarrow> bool" where
  "vec_fits v \<longleftrightarrow> vsize v \<le> capacity v"

interpretation less_cmp: comparator "(<) :: 'a::linorder \<Rightarrow> 'a \<Rightarrow> bool"
  by unfold_locales auto

lemma less_nondecr: "less_cmp.nondecr xs \<longleftrightarrow> sorted xs"
  by (simp add: less_cmp.nondecr_sorted_wrt not_less)

lemma vec_inv_sorted: "vec_inv (<) v \<Longrightarrow> ordered v \<Longrightarrow> sorted (elems v)"
  by (simp add: vec_inv_def flip: less_nondecr less_cmp.nondecr_def)

lemma sorted_vec_inv: "sorted (elems v) \<Longrightarrow> vec_inv (<) v"
  by (simp add: vec_inv_def flip: less_nondecr less_cmp.nondecr_def)


section \<open>Behaviour of the operations\<close>

lemma vec_at_ok [simp]: "i < vsize v \<Longrightarrow> vec_at v i = Inr (elems v ! i)"
  by (auto simp: vec_at_def size_sub_def)

lemma vec_at_beyond: "0 < vsize v \<Longrightarrow> vsize v \<le> i \<Longrightarrow> vec_at v i = Inl (OutOfRange ''subscript out of bounds'')"
  by (cases "elems v") (simp_all add: vec_at_def)

lemma scan_ordered_iff: "scan_ordered cmp p xs b \<longleftrightarrow> b \<and> successively cmp (p # xs)"
  by (induction xs arbitrary: p b) auto

lemma vec_of_list_ordered:
  "vec_of_list cmp tn xs a = Inr v \<Longrightarrow> elems v = xs \<and> (ordered v \<longleftrightarrow> successively cmp xs)"
  by (auto simp: vec_of_list_def scan_ordered_iff split: if_splits list.splits)

lemma push_back_elems: "push_back cmp x v = Inr w \<Longrightarrow> elems w = elems v @ [x]"
  by (auto simp: push_back_def Let_def split: if_splits)

lemma push_back_ordered:
  "push_back cmp x v = Inr w \<Longrightarrow>
     ordered w \<longleftrightarrow> (elems v = [] \<or> ordered v \<and> cmp (last (elems v)) x)"
  by (auto simp: push_back_def Let_def last_conv_nth split: if_splits)

lemma push_back_total: "alloc v \<noteq> NullAlloc \<Longrightarrow> \<exists>w. push_back cmp x v = Inr w \<and> alloc w = alloc v"
  by (simp add: push_back_def Let_def)

lemma push_back_fits: "push_back cmp x v = Inr w \<Longrightarrow> vsize v < SIZE_MAX \<Longrightarrow> vec_fits w"
  using growCapacity_gt [of "vsize v"]
  by (auto simp: push_back_def Let_def vec_fits_def split: if_splits)

lemma resize_0_elems:
  "resize junk n 0 v = Inr w \<Longrightarrow>
     elems w = take n (elems v) @ map junk [vsize v..<n] \<and> ordered w = ordered v"
  by (auto simp: resize_def intro!: nth_equalityI simp: nth_append split: if_splits)

lemma resize_from_elems:
  "resize junk n from v = Inr w \<Longrightarrow> n + from \<le> vsize v \<Longrightarrow>
     elems w = take n (drop from (elems v)) \<and> ordered w = ordered v"
  by (auto simp: resize_def intro!: nth_equalityI split: if_splits)

lemma resize_fits: "resize junk n from v = Inr w \<Longrightarrow> vec_fits v \<Longrightarrow> n \<le> SIZE_MAX \<Longrightarrow> vec_fits w"
  using growCapacity_ge [of n] by (auto simp: resize_def vec_fits_def split: if_splits)

lemma resize_total: "alloc v \<noteq> NullAlloc \<Longrightarrow> \<exists>w. resize junk n 0 v = Inr w"
  by (auto simp: resize_def)

declare erase_shift.simps [simp del] insert_shift.simps [simp del] check_ordered_from.simps [simp del]

lemma erase_shift_elems:
  "i + diff \<le> length (fst st) \<Longrightarrow>
     length (fst (erase_shift diff i st)) = length (fst st) \<and>
     take (length (fst st) - diff) (fst (erase_shift diff i st)) = take i (fst st) @ drop (i + diff) (fst st)"
proof (induction diff i st rule: erase_shift.induct)
  case (1 diff i st)
  obtain es b where st: "st = (es, b)" by (cases st)
  show ?case
  proof (cases "i + diff < length es")
    case True
    have "take (Suc i) (es[i := es ! (i + diff)]) @ drop (Suc i + diff) (es[i := es ! (i + diff)])
          = take i es @ drop (i + diff) es"
      using True by (cases "diff = 0") (auto simp: take_Suc_update Cons_nth_drop_Suc list_update_id
          take_Suc_conv_app_nth)
    with 1 True st show ?thesis
      by (simp add: erase_shift.simps [of diff i] iter_write_def)
  next
    case False
    with 1(2) st have "length es - diff = i" "length es = i + diff" by auto
    with st show ?thesis by (simp add: erase_shift.simps [of diff i])
  qed
qed

lemma erase_shift_flag:
  "snd (erase_shift diff i st) \<longleftrightarrow> snd st \<and> \<not> i + diff < length (fst st)"
proof (induction diff i st rule: erase_shift.induct)
  case (1 diff i st)
  then show ?case
    by (cases "i + diff < length (fst st)")
       (simp_all add: erase_shift.simps [of diff i st] iter_write_def)
qed

lemma erase_elems:
  assumes "erase junk first lst v = Inr w"
  shows "elems w = take first (elems v) @ drop lst (elems v)"
    and "ordered w \<longleftrightarrow> ordered v \<and> lst = vsize v"
proof -
  let ?st = "erase_shift (lst - first) first (elems v, ordered v)"
  from assms have le: "first \<le> lst" "lst \<le> vsize v"
    and r: "resize junk (vsize v - (lst - first)) 0 (v\<lparr>elems := fst ?st, ordered := snd ?st\<rparr>) = Inr w"
    by (auto simp: erase_def Let_def split: if_splits)
  have "elems w = take (vsize v - (lst - first)) (fst ?st)" "ordered w = snd ?st"
    using resize_0_elems [OF r] erase_shift_elems [of first "lst - first" "(elems v, ordered v)"] le
    by auto
  with le show "elems w = take first (elems v) @ drop lst (elems v)"
    and "ordered w \<longleftrightarrow> ordered v \<and> lst = vsize v"
    using erase_shift_elems [of first "lst - first" "(elems v, ordered v)"]
    by (auto simp: erase_shift_flag)
qed

lemma check_ordered_from_iff:
  "0 < j \<Longrightarrow> check_ordered_from cmp es j \<longleftrightarrow> successively cmp (drop (j - 1) es)"
proof (induction cmp es j rule: check_ordered_from.induct)
  case (1 cmp es j)
  show ?case
  proof (cases "j < length es")
    case True
    then have "drop (j - 1) es = es ! (j - 1) # es ! j # drop (Suc j) es"
      using 1(2) by (metis Cons_nth_drop_Suc Suc_diff_1 less_imp_diff_less)
    moreover have "drop j es = es ! j # drop (Suc j) es"
      using True by (simp add: Cons_nth_drop_Suc)
    ultimately show ?thesis
      using 1 True by (simp add: check_ordered_from.simps [of cmp es j])
  next
    case False
    then have "successively cmp (drop (j - 1) es)" by (intro successively_short) simp
    with False show ?thesis by (simp add: check_ordered_from.simps [of cmp es j])
  qed
qed

lemma checkAndSetOrdered_iff:
  "checkAndSetOrdered cmp v = (b, w) \<Longrightarrow>
     elems w = elems v \<and> ordered w = b \<and> (b \<longleftrightarrow> successively cmp (elems v))"
  by (auto simp: checkAndSetOrdered_def Let_def check_ordered_from_iff)


section \<open>Element-wise functions write a fresh flag\<close>

text \<open>One step of the \<open>apply\<close> loops. Between iterations the flag says whether the part already
  written is increasing; cells still to be written keep their old contents.\<close>

lemma setv_checkbefore_ok [simp]:
  "i < vsize v \<Longrightarrow> setv_checkbefore cmp i t v =
     Inr (v\<lparr>elems := (elems v)[i := t],
            ordered := (ordered v \<and> (0 < i \<longrightarrow> cmp (elems v ! (i - 1)) t))\<rparr>)"
  by (cases "0 < i") (auto simp: setv_checkbefore_def Let_def)

lemma apply_loop_prefix:
  assumes "k \<le> vsize v" "ordered v"
    and step: "\<And>i w. i < vsize v \<Longrightarrow> vsize w = vsize v \<Longrightarrow> elems w ! i = elems v ! i \<Longrightarrow>
                 body i w = setv_checkbefore cmp i (g i) w"
  shows "foldR body [0..<k] v =
           Inr (v\<lparr>elems := map g [0..<k] @ drop k (elems v),
                  ordered := successively cmp (map g [0..<k])\<rparr>)"
  using assms(1)
proof (induction k)
  case 0
  with assms(2) show ?case by simp
next
  case (Suc k)
  let ?w = "v\<lparr>elems := map g [0..<k] @ drop k (elems v), ordered := successively cmp (map g [0..<k])\<rparr>"
  have "body k ?w = setv_checkbefore cmp k (g k) ?w"
    using Suc.prems by (intro step) (simp_all add: nth_append)
  moreover have "k = 0 \<or> last (map g [0..<k]) = g (k - 1)"
    by (cases k) simp_all
  ultimately show ?case using Suc
    by (auto simp: foldR_append successively_snoc nth_append list_update_append
          upd_conv_take_nth_drop Cons_nth_drop_Suc intro!: arg_cong2 [where f = "\<lambda>x y. v\<lparr>elems := x, ordered := y\<rparr>"])
qed

lemma apply_scalar_post_eq:
  "apply_scalar_post cmp F u v =
     Inr (v\<lparr>elems := map (\<lambda>x. F x u) (elems v),
            ordered := successively cmp (map (\<lambda>x. F x u) (elems v))\<rparr>)"
proof -
  have "map (\<lambda>i. F (elems v ! i) u) [0..<vsize v] = map (\<lambda>x. F x u) (elems v)"
    by (auto intro: nth_equalityI)
  moreover have "foldR (\<lambda>i w. bindR (vec_at w i) (\<lambda>x. setv_checkbefore cmp i (F x u) w))
       [0..<vsize v] (v\<lparr>ordered := True\<rparr>) =
     Inr (v\<lparr>ordered := True,
            elems := map (\<lambda>i. F (elems v ! i) u) [0..<vsize v] @ drop (vsize v) (elems v),
            ordered := successively cmp (map (\<lambda>i. F (elems v ! i) u) [0..<vsize v])\<rparr>)"
    by (subst apply_loop_prefix) simp_all
  ultimately show ?thesis by (simp add: apply_scalar_post_def)
qed

lemma apply_vec_eq:
  assumes "vsize v \<le> vsize u"
  shows "apply_vec cmp F u v =
     Inr (v\<lparr>elems := map2 F (elems v) (elems u),
            ordered := successively cmp (map2 F (elems v) (elems u))\<rparr>)"
proof -
  let ?g = "\<lambda>i. F (elems v ! i) (elems u ! i)"
  have "map ?g [0..<vsize v] = map2 F (elems v) (elems u)"
    using assms by (auto intro: nth_equalityI)
  moreover have "foldR (\<lambda>i w. bindR (vec_at w i) (\<lambda>x. bindR (vec_at u i) (\<lambda>y. setv_checkbefore cmp i (F x y) w)))
       [0..<vsize v] (v\<lparr>ordered := True\<rparr>) =
     Inr (v\<lparr>ordered := True, elems := map ?g [0..<vsize v] @ drop (vsize v) (elems v),
            ordered := successively cmp (map ?g [0..<vsize v])\<rparr>)"
    using assms by (subst apply_loop_prefix) simp_all
  ultimately show ?thesis by (simp add: apply_vec_def)
qed

section \<open>Insertion\<close>

lemma insert_shift_length [simp]: "length (insert_shift junk diff position k es) = length es"
  by (induction junk diff position k es rule: insert_shift.induct) (subst insert_shift.simps, simp)

lemma insert_shift_nth:
  assumes "0 < diff" "j < length es" "k \<le> length es"
  shows "insert_shift junk diff position k es ! j =
           (if position < j \<and> j \<le> k then (if diff \<le> j then es ! (j - diff) else junk j) else es ! j)"
  using assms
proof (induction junk diff position k es rule: insert_shift.induct)
  case (1 junk diff position k es)
  show ?case
  proof (cases "position < k")
    case True
    let ?es = "es[k := (if diff \<le> k \<and> k - diff < length es then es ! (k - diff) else junk k)]"
    have "insert_shift junk diff position k es ! j = insert_shift junk diff position (k - 1) ?es ! j"
      using True by (simp add: insert_shift.simps [of junk diff position k])
    also have "\<dots> = (if position < j \<and> j \<le> k - 1
                     then (if diff \<le> j then ?es ! (j - diff) else junk j) else ?es ! j)"
      using 1 True by simp
    also have "\<dots> = (if position < j \<and> j \<le> k then (if diff \<le> j then es ! (j - diff) else junk j)
                     else es ! j)"
      using 1(2,3,4) True by (auto simp: nth_list_update)
    finally show ?thesis .
  next
    case False
    then show ?thesis by (auto simp: insert_shift.simps [of junk diff position k])
  qed
qed

lemma insert_elems_eq:
  "position + length xs \<le> length es \<Longrightarrow>
     insert_elems cmp xs position (es, False) ord =
       (position + length xs, (take position es @ xs @ drop (position + length xs) es, False), ord)"
proof (induction xs arbitrary: position es)
  case Nil
  then show ?case by simp
next
  case (Cons x xs)
  then have "insert_elems cmp xs (position + 1) (es[position := x], False) ord =
     (position + 1 + length xs,
      (take (position + 1) (es[position := x]) @ xs @ drop (position + 1 + length xs) (es[position := x]), False), ord)"
    by simp
  with Cons.prems show ?case
    by (simp add: iter_write_def take_Suc_update)
qed

text \<open>The result of \<open>insert\<close>, in terms of the contents after the shift.\<close>

lemma vec_insert_elems:
  assumes ins: "vec_insert cmp junk position xs v = Inr (w, p)" and "xs \<noteq> []"
  defines "n \<equiv> vsize v"
  defines "es0 \<equiv> elems v @ map junk [n..<n + length xs]"
  defines "es1 \<equiv> (if n \<noteq> 0 \<and> position + 1 < n
                    then insert_shift junk (length xs) position (n + length xs) es0 else es0)"
  shows "elems w = take position es1 @ xs @ drop (position + length xs) es1"
    and "p = position + length xs"
    and "ordered w \<longleftrightarrow> ordered v \<and> (position \<noteq> 0 \<longrightarrow> cmp (es1 ! (position - 1)) (hd xs)) \<and>
           (position \<noteq> n \<longrightarrow> cmp (last xs) (es1 ! (position + length xs)))"
proof -
  have pos: "position \<le> n" using ins by (auto simp: vec_insert_def n_def split: if_splits)
  obtain v1 where r: "resize junk (n + length xs) 0 v = Inr v1"
    using ins assms(2) pos by (auto simp: vec_insert_def n_def Let_def res_simps split: if_splits)
  have v1: "elems v1 = es0" "ordered v1 = ordered v"
    using resize_0_elems [OF r] by (auto simp: es0_def n_def)
  have len: "length es1 = n + length xs"
    by (simp add: es1_def es0_def n_def)
  have es1: "(if n \<noteq> 0 \<and> int n - 1 - int position > 0
     then insert_shift junk (length xs) position (n + length xs) (elems v1) else elems v1) = es1"
    by (auto simp: es1_def v1)
  have tl: "Suc (length (tl xs)) = length xs" "hd xs # tl xs = xs" using assms(2) by simp_all
  have pos_lt: "position < length es1" using pos len assms(2) by (cases xs) auto
  define st2 where "st2 = (es1[position := hd xs], False)"
  then have fst_st2: "fst st2 = es1[position := hd xs]" by simp
  let ?es3 = "take position es1 @ xs @ drop (position + length xs) es1"
  have loop: "insert_elems cmp (tl xs) (position + 1) st2 ord = (position + length xs, (?es3, False), ord)" for ord
  proof -
    have "insert_elems cmp (tl xs) (position + 1) st2 ord = (position + 1 + length (tl xs),
       (take (position + 1) (es1[position := hd xs]) @ tl xs @
        drop (position + 1 + length (tl xs)) (es1[position := hd xs]), False), ord)"
      unfolding st2_def using pos len tl by (intro insert_elems_eq) simp
    moreover have "take (position + 1) (es1[position := hd xs]) @ tl xs = take position es1 @ xs"
      using pos len tl by (simp add: take_Suc_update)
    ultimately show ?thesis using tl(1)
      by (metis (no_types, lifting) Suc_eq_plus1 add_Suc add_Suc_right append_assoc drop_update_cancel
          less_add_Suc1)
  qed
  let ?ord1 = "if position \<noteq> 0 then ordered v \<and> cmp (fst st2 ! (position - 1)) (fst st2 ! position) else ordered v"
  have "vec_insert cmp junk position xs v = Inr (v1\<lparr>elems := ?es3, ordered :=
     (if position + length xs \<noteq> n + length xs
      then ?ord1 \<and> cmp (?es3 ! (position + length xs - 1)) (?es3 ! (position + length xs)) else ?ord1)\<rparr>,
      position + length xs)"
    unfolding vec_insert_def Let_def n_def [symmetric] r bindR.simps es1 iter_write_def fst_conv
      st2_def [symmetric] loop prod.case
    using pos assms(2) by (simp only: not_less [symmetric] if_False simp_thms fst_st2)
  then have w: "w = v1\<lparr>elems := ?es3, ordered := (if position + length xs \<noteq> n + length xs
             then ?ord1 \<and> cmp (?es3 ! (position + length xs - 1)) (?es3 ! (position + length xs)) else ?ord1)\<rparr>"
    and p: "p = position + length xs"
    using ins by simp_all
  show "elems w = ?es3" "p = position + length xs" using w p by simp_all
  have "?es3 ! (position + length xs - 1) = last xs"
    using len pos assms(2) by (cases xs rule: rev_cases) (auto simp: nth_append)
  moreover have "position < n \<Longrightarrow> ?es3 ! (position + length xs) = es1 ! (position + length xs)"
    using len pos by (auto simp: nth_append)
  moreover have "fst st2 ! position = hd xs" "position \<noteq> 0 \<Longrightarrow> fst st2 ! (position - 1) = es1 ! (position - 1)"
    using pos_lt by (simp_all add: fst_st2)
  ultimately show "ordered w \<longleftrightarrow> ordered v \<and> (position \<noteq> 0 \<longrightarrow> cmp (es1 ! (position - 1)) (hd xs)) \<and>
           (position \<noteq> n \<longrightarrow> cmp (last xs) (es1 ! (position + length xs)))"
    using w pos by auto
qed


lemma vec_insert_end_elems:
  assumes "vec_insert cmp junk (vsize v) xs v = Inr (w, p)"
  shows "elems w = elems v @ xs"
proof (cases "xs = []")
  case True
  with assms show ?thesis by (simp add: vec_insert_def)
next
  case False
  from vec_insert_elems(1) [OF assms False] show ?thesis by simp
qed

lemma vec_insert_middle_elems:
  assumes "vec_insert cmp junk position xs v = Inr (w, p)" "position + 1 < vsize v"
  shows "elems w = take position (elems v) @ xs @ drop position (elems v)"
proof (cases "xs = []")
  case True
  with assms show ?thesis by (simp add: vec_insert_def)
next
  case False
  let ?es0 = "elems v @ map junk [vsize v..<vsize v + length xs]"
  let ?es1 = "insert_shift junk (length xs) position (vsize v + length xs) ?es0"
  have nth: "?es1 ! j = (if position < j then (if length xs \<le> j then ?es0 ! (j - length xs) else junk j)
                         else ?es0 ! j)" if "j < vsize v + length xs" for j
    using that False insert_shift_nth [of "length xs" j ?es0 "vsize v + length xs" junk position] by auto
  have "take position ?es1 = take position (elems v)"
    using assms(2) nth by (auto intro!: nth_equalityI simp: nth_append)
  moreover have "drop (position + length xs) ?es1 = drop position (elems v)"
    using assms(2) False nth by (auto intro!: nth_equalityI simp: nth_append)
  moreover have "elems v \<noteq> []" using assms(2) by auto
  ultimately show ?thesis
    using vec_insert_elems(1) [OF assms(1) False] assms(2) by simp
qed

lemma vec_insert_total: "alloc v \<noteq> NullAlloc \<Longrightarrow> position \<le> vsize v \<Longrightarrow>
    \<exists>w p. vec_insert cmp junk position xs v = Inr (w, p)"
proof -
  assume a: "alloc v \<noteq> NullAlloc" "position \<le> vsize v"
  obtain v1 where "resize junk (vsize v + length xs) 0 v = Inr v1"
    using resize_total [OF a(1)] by blast
  with a(2) show ?thesis by (auto simp: vec_insert_def Let_def split: prod.splits)
qed

section \<open>The invariant of the flag\<close>

context comparator
begin

lemma inv_iff: "vec_inv lt v \<longleftrightarrow> (ordered v \<longrightarrow> nondecr (elems v))"
  by (simp add: vec_inv_def nondecr_def)

lemma inv_increasing: "(ordered v \<longrightarrow> successively lt (elems v)) \<Longrightarrow> vec_inv lt v"
  by (auto simp: inv_iff intro: increasing_nondecr)

lemma inv_vec_fill: "vec_fill lt tn n x a = Inr v \<Longrightarrow> vec_inv lt v"
  by (rule inv_increasing) (auto simp: vec_fill_def ordered_simps split: if_splits)

lemma inv_vec_rsv: "vec_rsv tn n a = Inr v \<Longrightarrow> vec_inv lt v"
  by (auto simp: vec_rsv_def vec_inv_def split: if_splits)

lemma inv_vec_of_list: "vec_of_list lt tn xs a = Inr v \<Longrightarrow> vec_inv lt v"
  by (rule inv_increasing) (auto dest: vec_of_list_ordered)

lemma inv_push_back: "vec_inv lt v \<Longrightarrow> push_back lt x v = Inr w \<Longrightarrow> vec_inv lt w"
  by (auto simp: inv_iff nondecr_snoc push_back_elems dest: push_back_ordered lt_asym)

lemma inv_setv:
  assumes "vec_inv lt v" "setv lt i t v = Inr w"
  shows "vec_inv lt w"
  unfolding inv_iff
proof
  assume "ordered w"
  with assms(2) have w: "elems w = (elems v)[i := t]" "i < vsize v" "ordered v"
    "0 < i \<Longrightarrow> lt (elems v ! (i - 1)) t" "i < vsize v - 1 \<Longrightarrow> lt t (elems v ! (i + 1))"
    by (auto simp: setv_def Let_def split: if_splits)
  with assms(1) show "nondecr (elems w)"
    by (auto simp: inv_iff intro: nondecr_update)
qed

lemma inv_vec_init: "vec_init lt junk n x v = Inr w \<Longrightarrow> vec_inv lt w"
  by (rule inv_increasing)
     (auto simp: vec_init_def res_simps map_replicate_const ordered_simps split: if_splits)

lemma inv_erase: "vec_inv lt v \<Longrightarrow> erase junk first lst v = Inr w \<Longrightarrow> vec_inv lt w"
  by (auto simp: vec_inv_def erase_elems successively_take)

lemma inv_checkAndSetOrdered: "checkAndSetOrdered lt v = (b, w) \<Longrightarrow> vec_inv lt w"
  by (rule inv_increasing) (auto dest: checkAndSetOrdered_iff)

lemma inv_apply_scalar_post: "apply_scalar_post lt F u v = Inr w \<Longrightarrow> vec_inv lt w"
  by (rule inv_increasing) (auto simp: apply_scalar_post_eq)

lemma inv_apply_vec: "vsize v \<le> vsize u \<Longrightarrow> apply_vec lt F u v = Inr w \<Longrightarrow> vec_inv lt w"
  by (rule inv_increasing) (auto simp: apply_vec_eq)

lemma inv_shrink: "vec_inv lt v \<Longrightarrow> n \<le> vsize v \<Longrightarrow> resize junk n 0 v = Inr w \<Longrightarrow> vec_inv lt w"
  by (auto simp: vec_inv_def successively_take dest!: resize_0_elems)

lemma inv_insert_one:
  assumes "vec_inv lt v" "vec_insert lt junk (vsize v) [x] v = Inr (w, p)"
  shows "vec_inv lt w"
  using assms(1) vec_insert_elems(3) [OF assms(2)] vec_insert_end_elems [OF assms(2)]
  by (cases "elems v = []")
     (auto simp: inv_iff nondecr_snoc last_conv_nth nth_append dest: lt_asym)

lemmas inv_ops = inv_vec_fill inv_vec_rsv inv_vec_of_list inv_push_back inv_setv inv_vec_init
  inv_erase inv_checkAndSetOrdered inv_apply_scalar_post inv_apply_vec inv_shrink

end

lemma inv_vec_sort: "vec_inv (<) v \<Longrightarrow> vec_inv (<) (vec_sort v)"
  by (cases "ordered v") (auto simp: vec_sort_def intro: sorted_vec_inv)

text \<open>The vectors a program can build with the operations that maintain the flag.\<close>

inductive built_vec :: "'a::linorder vec \<Rightarrow> bool" where
  fill: "vec_fill (<) tn n x a = Inr v \<Longrightarrow> n \<le> SIZE_MAX \<Longrightarrow> built_vec v"
| rsv: "vec_rsv tn n a = Inr v \<Longrightarrow> built_vec v"
| of_list: "vec_of_list (<) tn xs a = Inr v \<Longrightarrow> length xs \<le> SIZE_MAX \<Longrightarrow> built_vec v"
| copy: "built_vec v \<Longrightarrow> vec_copy v a = Inr w \<Longrightarrow> built_vec w"
| push: "built_vec v \<Longrightarrow> push_back (<) x v = Inr w \<Longrightarrow> vsize v < SIZE_MAX \<Longrightarrow> built_vec w"
| set: "built_vec v \<Longrightarrow> setv (<) i x v = Inr w \<Longrightarrow> built_vec w"
| init: "built_vec v \<Longrightarrow> vec_init (<) junk n x v = Inr w \<Longrightarrow> n \<le> SIZE_MAX \<Longrightarrow> built_vec w"
| shrink: "built_vec v \<Longrightarrow> resize junk n 0 v = Inr w \<Longrightarrow> n \<le> vsize v \<Longrightarrow> built_vec w"
| erase: "built_vec v \<Longrightarrow> erase junk i j v = Inr w \<Longrightarrow> built_vec w"
| check: "built_vec v \<Longrightarrow> checkAndSetOrdered (<) v = (b, w) \<Longrightarrow> built_vec w"
| sort: "built_vec v \<Longrightarrow> built_vec (vec_sort v)"
| apply_scalar: "built_vec v \<Longrightarrow> apply_scalar_post (<) (\<lambda>y (_::unit). f y) () v = Inr w \<Longrightarrow> built_vec w"
| unorder: "built_vec v \<Longrightarrow> built_vec (forceUnOrdered v)"

lemma built_vec_inv: "built_vec v \<Longrightarrow> vec_inv (<) v"
proof (induction rule: built_vec.induct)
  case (copy v a w)
  then show ?case by (auto simp: vec_copy_def vec_inv_def split: if_splits)
next
  case (unorder v)
  then show ?case by (simp add: forceUnOrdered_def vec_inv_def)
qed (blast intro: less_cmp.inv_ops inv_vec_sort)+

lemma fits_le_max: "vec_fits v \<Longrightarrow> capacity v \<le> SIZE_MAX \<Longrightarrow> vsize v \<le> SIZE_MAX"
  by (simp add: vec_fits_def)

lemma built_vec_fits: "built_vec v \<Longrightarrow> vec_fits v \<and> capacity v \<le> SIZE_MAX"
proof (induction rule: built_vec.induct)
  case (erase v junk i j w)
  then show ?case
    by (auto simp: erase_def vec_fits_def Let_def resize_def growCapacity_le_max
          erase_shift_elems growCapacity_ge split: if_splits)
qed (auto simp: vec_fill_def vec_rsv_def vec_of_list_def vec_copy_def push_back_def setv_def
       vec_init_def resize_def checkAndSetOrdered_def vec_sort_def apply_scalar_post_eq
       forceUnOrdered_def vec_fits_def growCapacity_ge growCapacity_le_max growCapacity_gt
       Suc_le_eq Let_def res_simps split: if_splits)


section \<open>Properties\<close>

text \<open>C10. The \<open>ordered\<close> flag is sound: whatever sequence of constructors, copies,
  \<open>push_back\<close>, \<open>setv\<close>, \<open>init\<close>, shrinking \<open>resize\<close>, \<open>erase\<close>, \<open>checkAndSetOrdered\<close>,
  \<open>sort\<close> and element-wise \<open>apply\<close> built a vector, if its flag is set then its elements are in
  non-decreasing order; and the live elements always fit the reserved capacity, which never exceeds
  the range of \<open>size_t\<close>.\<close>

theorem vector_flag_sound:
  assumes "built_vec v"
  shows "(ordered v \<longrightarrow> sorted (elems v)) \<and> vsize v \<le> capacity v \<and> capacity v \<le> SIZE_MAX"
  using vec_inv_sorted [OF built_vec_inv [OF assms]] built_vec_fits [OF assms]
  by (auto simp: vec_fits_def)

definition vector_example :: "int vec" where
  "vector_example = \<lparr>typenumber = 0, elems = [1, 3], ordered = True, capacity = 1024, alloc = MemAlloc\<rparr>"

lemma vector_example_of_list: "vec_of_list (<) 0 [1, 3] MemAlloc = Inr vector_example"
  by (simp add: vec_of_list_def vector_example_def growCapacity_small)

lemma built_vector_example: "built_vec vector_example"
  by (rule built_vec.of_list [OF vector_example_of_list]) (simp add: SIZE_MAX_def)

theorem vector_flag_sound_witness:
  "built_vec (vector_example\<lparr>elems := [1, 3, 4]\<rparr>) \<and>
   ordered (vector_example\<lparr>elems := [1, 3, 4]\<rparr>) \<and> sorted (elems (vector_example\<lparr>elems := [1, 3, 4]\<rparr>)) \<and> (3::nat) \<le> 1024"
proof -
  have "push_back (<) 4 vector_example = Inr (vector_example\<lparr>elems := [1, 3, 4]\<rparr>)"
    by (simp add: push_back_def vector_example_def)
  then have b: "built_vec (vector_example\<lparr>elems := [1, 3, 4]\<rparr>)"
    by (rule built_vec.push [OF built_vector_example]) (simp add: vector_example_def SIZE_MAX_def)
  show ?thesis using b vector_flag_sound [OF b] by (simp add: vector_example_def)
qed

text \<open>\<open>insert\<close> of a range into a vector with an allocator, at the end or at any position
  except immediately before the last element, does not throw, keeps the elements before the position, puts
  the range at the position and the remaining elements after it, and returns the position just
  behind the range.\<close>

theorem vector_insert_correct:
  assumes "alloc v \<noteq> NullAlloc" and "position = vsize v \<or> position + 1 < vsize v"
  shows "\<exists>w. vec_insert cmp junk position xs v = Inr (w, position + length xs) \<and>
             elems w = take position (elems v) @ xs @ drop position (elems v)"
proof -
  obtain w p where w: "vec_insert cmp junk position xs v = Inr (w, p)"
    using vec_insert_total [OF assms(1)] assms(2) by (metis add_leE less_imp_le order_refl)
  then have "p = position + length xs"
    by (cases "xs = []") (auto simp: vec_insert_def vec_insert_elems(2) split: if_splits)
  moreover have "elems w = take position (elems v) @ xs @ drop position (elems v)"
    using assms(2) w vec_insert_end_elems vec_insert_middle_elems by fastforce
  ultimately show ?thesis using w by blast
qed

theorem vector_insert_correct_witness:
  "\<exists>w. vec_insert (<) (\<lambda>_. 0) 0 [7, 8] vector_example = Inr (w, 2) \<and> elems w = [7, 8, 1, 3]"
  using vector_insert_correct [of vector_example 0 "(<)" "\<lambda>_. 0" "[7, 8]"]
  by (simp add: vector_example_def numeral_2_eq_2)

text \<open>Immediately before the last element the shift is skipped (\<open>oldend - 1 - position > 0\<close>), the last
  element is overwritten, and the vector ends in uninitialised memory. Not a property the code
  intends; recorded because callers that insert at the front of one-element vectors hit it.\<close>

lemma insert_before_last_loses_element:
  "vec_insert (<) junk 1 [2] vector_example =
     Inr (vector_example\<lparr>elems := [1, 2, junk 2]\<rparr>\<lparr>ordered := (2 < junk 2)\<rparr>, 2)"
  by (simp add: vec_insert_def vector_example_def resize_def iter_write_def upt_rec
      growCapacity_small numeral_2_eq_2)

text \<open>The comparison inside the loop of \<open>insert\<close> is guarded by \<open>c->ordered\<close>, which the iterator
  writes have just cleared: an unsorted range appended behind smaller elements leaves the flag
  set.\<close>

lemma insert_unsorted_range_keeps_flag:
  "\<exists>w. vec_insert (<) (\<lambda>_. 0) 2 [9, 5] vector_example = Inr (w, 4) \<and>
       elems w = [1, 3, 9, 5] \<and> ordered w"
  by (simp add: vec_insert_def vector_example_def resize_def iter_write_def upt_rec
      growCapacity_small numeral_2_eq_2)

text \<open>\<open>growCapacity\<close> always makes room for one more element and never leaves the range of
  \<open>size_t\<close>, with no wrap-around in its multiplication; \<open>getTotalSize\<close> either reports the exact byte
  count of the header and elements, or saturates at the maximum so that the allocation fails.\<close>

theorem vector_capacity_no_overflow:
  assumes "n < SIZE_MAX" and "0 < sizeofT" and "sizeofT \<le> 1024"
  shows "n < growCapacity n \<and> growCapacity n \<le> SIZE_MAX \<and>
         (getTotalSize sizeofT n = SIZE_MAX \<or>
          getTotalSize sizeofT n = n * sizeofT + sizeof_RawVector)"
  using growCapacity_gt [OF assms(1)] growCapacity_le_max getTotalSize_exact [OF assms(2,3), of n]
  by blast

theorem vector_capacity_no_overflow_witness:
  "(600::nat) < SIZE_MAX \<and> 600 < growCapacity 600 \<and> growCapacity 600 = 800 \<and>
   (getTotalSize 8 600 = SIZE_MAX \<or> getTotalSize 8 600 = 4824)"
proof -
  have h: "(600::nat) < SIZE_MAX" by (simp add: SIZE_MAX_def)
  show ?thesis
    using h vector_capacity_no_overflow [OF h, of 8]
    by (simp add: growCapacity_def SIZE_MAX_def VECTOR_INITIAL_ALLOC_def size_mul_def sizeof_RawVector_def)
qed

text \<open>\<open>resize\<close> computes its byte count with \<open>memsize\<close>, which has no such check: at the saturated
  capacity it wraps around to 16 bytes.\<close>

lemma memsize_wraps: "SIZE_MAX div 4 < n \<Longrightarrow> memsize 8 (growCapacity n) = 16"
  by (simp add: growCapacity_def memsize_def size_mul_def SIZE_MAX_def sizeof_RawVector_def)

text \<open>The in-place element-wise functions apply \<open>F\<close> to every element (and the element of the
  other vector at the same place, when that vector is long enough), never throw, and leave the
  flag set exactly when the new contents are strictly increasing, whatever the flag was before.\<close>

theorem vector_apply_correct:
  assumes "vsize v \<le> vsize u"
  shows "\<exists>w w'. apply_vec cmp F u v = Inr w \<and> elems w = map2 F (elems v) (elems u) \<and>
           (ordered w \<longleftrightarrow> successively cmp (elems w)) \<and>
           apply_scalar_post cmp G s v = Inr w' \<and> elems w' = map (\<lambda>x. G x s) (elems v) \<and>
           (ordered w' \<longleftrightarrow> successively cmp (elems w'))"
  using apply_vec_eq [OF assms] apply_scalar_post_eq by fastforce

theorem vector_apply_correct_witness:
  "\<exists>w w'. apply_vec (<) (+) vector_example vector_example = Inr w \<and> elems w = [2, 6] \<and> ordered w \<and>
          apply_scalar_post (<) (*) (-1) vector_example = Inr w' \<and> elems w' = [-1, -3] \<and> \<not> ordered w'"
  using vector_apply_correct [of vector_example vector_example "(<)" "(+)" "(*)" "-1"]
  by (auto simp: vector_example_def)

text \<open>\<open>erase\<close> of a range removes exactly that range; the flag survives only when the range
  reaches the end (no element moved), and is otherwise cleared.\<close>

theorem vector_erase_correct:
  assumes "alloc v \<noteq> NullAlloc" and "first \<le> lst" and "lst \<le> vsize v"
  shows "\<exists>w. erase junk first lst v = Inr w \<and>
             elems w = take first (elems v) @ drop lst (elems v) \<and>
             (ordered w \<longleftrightarrow> ordered v \<and> lst = vsize v)"
proof -
  obtain w where "erase junk first lst v = Inr w"
    using assms resize_total [of "v\<lparr>elems := es, ordered := b\<rparr>" for es b]
    unfolding erase_def Let_def by fastforce
  with erase_elems [OF this] show ?thesis by blast
qed

theorem vector_erase_correct_witness:
  "\<exists>w. erase (\<lambda>_. 0) 0 1 vector_example = Inr w \<and> elems w = [3] \<and> \<not> ordered w"
  using vector_erase_correct [of vector_example 0 1 "\<lambda>_. 0"]
  by (auto simp: vector_example_def)

text \<open>Bounds check of \<open>operator[]\<close>: on a non-empty vector every index inside it returns that
  element and every other index throws \<open>out_of_range\<close>. (On an empty vector \<open>size() - 1\<close> wraps
  around to the largest \<open>size_t\<close>: the check never fires and the access is undefined.)\<close>

theorem vector_subscript_checked:
  "(0 < vsize v \<longrightarrow>
      vec_at v i = (if i < vsize v then Inr (elems v ! i)
                    else Inl (OutOfRange ''subscript out of bounds''))) \<and>
   (vsize v = 0 \<and> i \<le> SIZE_MAX \<longrightarrow> vec_at v i = Inl UB)"
  by (auto simp: vec_at_beyond) (simp add: vec_at_def size_sub_0_1 [simplified] SIZE_MAX_def)

theorem vector_subscript_checked_witness:
  "vec_at vector_example 1 = Inr 3 \<and> vec_at vector_example 2 = Inl (OutOfRange ''subscript out of bounds'') \<and>
   vec_at (vector_example\<lparr>elems := []\<rparr>) 0 = Inl UB"
  using vector_subscript_checked [of vector_example 1] vector_subscript_checked [of vector_example 2]
    vector_subscript_checked [of "vector_example\<lparr>elems := []\<rparr>" 0]
  by (simp add: vector_example_def)

end
