(* ===== verification/Vector_Set.thy ===== *)
theory Vector_Set
  imports Vectors
begin

text \<open>
  \<open>src/src/vector_set.hpp\<close>: intersection, union and difference of vectors, by a simultaneous scan
  of two sorted vectors, with the variants that return 1-based indices instead of values.

  The helpers are templates over two element types; what they use of these types is \<open>v1[i] < v2[j]\<close>,
  \<open>v1[i] > v2[j]\<close> and, for elements of the first vector, \<open>!=\<close>. The two comparisons are arguments
  (\<open>lt\<close>, \<open>gt\<close>) of the model; the loops keep the source's two counters. The contract of
  the comparisons is the locale \<open>scan_order\<close>, and the correctness of the scans is proved in it once;
  it is interpreted for two vectors of one linearly ordered type here, and for times against
  intervals in \<open>Intervals\<close>.
\<close>

section \<open>The scans\<close>

text \<open>\<open>push_back\<close> of a value unless it repeats the last one of the result.\<close>

definition push_new :: "'a list \<Rightarrow> 'a \<Rightarrow> 'a list" where
  "push_new res x = (if res = [] \<or> x \<noteq> last res then res @ [x] else res)"

function intersect_helper ::
  "('a \<Rightarrow> 'b \<Rightarrow> bool) \<Rightarrow> ('a \<Rightarrow> 'b \<Rightarrow> bool) \<Rightarrow> 'a list \<Rightarrow> 'b list \<Rightarrow> nat \<Rightarrow> nat \<Rightarrow> 'a list \<Rightarrow> 'a list" where
  "intersect_helper lt gt v1 v2 i1 i2 res =
     (if i1 < length v1 \<and> i2 < length v2 then
        if lt (v1 ! i1) (v2 ! i2) then intersect_helper lt gt v1 v2 (i1 + 1) i2 res
        else if gt (v1 ! i1) (v2 ! i2) then intersect_helper lt gt v1 v2 i1 (i2 + 1) res
        else intersect_helper lt gt v1 v2 (i1 + 1) i2 (push_new res (v1 ! i1))
      else res)"
  by pat_completeness auto
termination
  by (relation "measure (\<lambda>(lt, gt, v1, v2, i1, i2, res). (length v1 - i1) + (length v2 - i2))") auto

function union_scan ::
  "('a \<Rightarrow> 'a \<Rightarrow> bool) \<Rightarrow> ('a \<Rightarrow> 'a \<Rightarrow> bool) \<Rightarrow> 'a list \<Rightarrow> 'a list \<Rightarrow> nat \<Rightarrow> nat \<Rightarrow> 'a list
    \<Rightarrow> nat \<times> nat \<times> 'a list" where
  "union_scan lt gt v1 v2 i1 i2 res =
     (if i1 < length v1 \<and> i2 < length v2 then
        if lt (v1 ! i1) (v2 ! i2) then union_scan lt gt v1 v2 (i1 + 1) i2 (push_new res (v1 ! i1))
        else if gt (v1 ! i1) (v2 ! i2) then union_scan lt gt v1 v2 i1 (i2 + 1) (push_new res (v2 ! i2))
        else union_scan lt gt v1 v2 (i1 + 1) (i2 + 1) (push_new res (v1 ! i1))
      else (i1, i2, res))"
  by pat_completeness auto
termination
  by (relation "measure (\<lambda>(lt, gt, v1, v2, i1, i2, res). (length v1 - i1) + (length v2 - i2))") auto

text \<open>The two closing loops of \<open>union_helper\<close>: an element is taken if it is the first of its vector
  or differs from the element before it in its own vector.\<close>

function union_rest :: "'a list \<Rightarrow> nat \<Rightarrow> 'a list \<Rightarrow> 'a list" where
  "union_rest v i res =
     (if i < length v then
        union_rest v (i + 1) (if i = 0 \<or> v ! i \<noteq> v ! (i - 1) then res @ [v ! i] else res)
      else res)"
  by pat_completeness auto
termination
  by (relation "measure (\<lambda>(v, i, res). length v - i)") auto

definition union_helper :: "('a \<Rightarrow> 'a \<Rightarrow> bool) \<Rightarrow> ('a \<Rightarrow> 'a \<Rightarrow> bool) \<Rightarrow> 'a list \<Rightarrow> 'a list \<Rightarrow> 'a list" where
  "union_helper lt gt v1 v2 =
     (let (i1, i2, res) = union_scan lt gt v1 v2 0 0 []
      in union_rest v2 i2 (union_rest v1 i1 res))"

function setdiff_helper ::
  "('a \<Rightarrow> 'b \<Rightarrow> bool) \<Rightarrow> ('a \<Rightarrow> 'b \<Rightarrow> bool) \<Rightarrow> 'a list \<Rightarrow> 'b list \<Rightarrow> nat \<Rightarrow> nat \<Rightarrow> 'a list \<Rightarrow> 'a list" where
  "setdiff_helper lt gt v1 v2 i1 i2 res =
     (if i1 < length v1 \<and> i2 < length v2 then
        if lt (v1 ! i1) (v2 ! i2) then setdiff_helper lt gt v1 v2 (i1 + 1) i2 (res @ [v1 ! i1])
        else if gt (v1 ! i1) (v2 ! i2) then setdiff_helper lt gt v1 v2 i1 (i2 + 1) res
        else setdiff_helper lt gt v1 v2 (i1 + 1) i2 res
      else if i1 < length v1 then setdiff_helper lt gt v1 v2 (i1 + 1) i2 (res @ [v1 ! i1])
      else res)"
  by pat_completeness auto
termination
  by (relation "measure (\<lambda>(lt, gt, v1, v2, i1, i2, res). (length v1 - i1) + (length v2 - i2))") auto

section \<open>The index variants\<close>

text \<open>\<open>intersect_idx_helper\<close> tests \<open>v1.size()==0 || v1[i1] != v1[i1-1]\<close>. Inside the loop the first
  disjunct is false, so the element before \<open>i1\<close> is always read, through the checked subscript
  and with \<open>i1 - 1\<close> computed on \<open>size_t\<close>.\<close>

function intersect_idx_helper ::
  "('a \<Rightarrow> 'b \<Rightarrow> bool) \<Rightarrow> ('a \<Rightarrow> 'b \<Rightarrow> bool) \<Rightarrow> 'a vec \<Rightarrow> 'b list \<Rightarrow> nat \<Rightarrow> nat
    \<Rightarrow> nat list \<times> nat list \<Rightarrow> (nat list \<times> nat list) res" where
  "intersect_idx_helper lt gt v1 v2 i1 i2 res =
     (if i1 < vsize v1 \<and> i2 < length v2 then
        if lt (elems v1 ! i1) (v2 ! i2) then intersect_idx_helper lt gt v1 v2 (i1 + 1) i2 res
        else if gt (elems v1 ! i1) (v2 ! i2) then intersect_idx_helper lt gt v1 v2 i1 (i2 + 1) res
        else
          (case (if vsize v1 = 0 then Inr True
                 else bindR (vec_at v1 (size_sub i1 1)) (\<lambda>p. Inr (elems v1 ! i1 \<noteq> p))) of
             Inl e \<Rightarrow> Inl e
           | Inr isnew \<Rightarrow>
             intersect_idx_helper lt gt v1 v2 (i1 + 1) i2
               (if isnew then (fst res @ [i1 + 1], snd res @ [i2 + 1]) else res))
      else Inr res)"
  by pat_completeness auto
termination
  by (relation "measure (\<lambda>(lt, gt, v1, v2, i1, i2, res). (vsize v1 - i1) + (length v2 - i2))") auto

text \<open>\<open>union_idx_helper\<close>; \<open>None\<close> stands for \<open>NANF::f()\<close>. The test of the second branch reads
  \<open>v1[i2-1]\<close>, of the other vector, as the source does; that read can be out of range.\<close>

function union_idx_scan ::
  "('a \<Rightarrow> 'a \<Rightarrow> bool) \<Rightarrow> ('a \<Rightarrow> 'a \<Rightarrow> bool) \<Rightarrow> 'a vec \<Rightarrow> 'a vec \<Rightarrow> nat \<Rightarrow> nat
    \<Rightarrow> nat option list \<times> nat option list \<Rightarrow> (nat \<times> nat \<times> nat option list \<times> nat option list) res" where
  "union_idx_scan lt gt v1 v2 i1 i2 res =
     (if i1 < vsize v1 \<and> i2 < vsize v2 then
        if lt (elems v1 ! i1) (elems v2 ! i2) then
          union_idx_scan lt gt v1 v2 (i1 + 1) i2
            (if i1 = 0 \<or> elems v1 ! i1 \<noteq> elems v1 ! (i1 - 1)
             then (fst res @ [Some (i1 + 1)], snd res @ [None]) else res)
        else if gt (elems v1 ! i1) (elems v2 ! i2) then
          (case (if i2 = 0 then Inr True
                 else bindR (vec_at v1 (i2 - 1)) (\<lambda>p. Inr (elems v2 ! i2 \<noteq> p))) of
             Inl e \<Rightarrow> Inl e
           | Inr isnew \<Rightarrow>
             union_idx_scan lt gt v1 v2 i1 (i2 + 1)
               (if isnew then (fst res @ [None], snd res @ [Some (i2 + 1)]) else res))
        else
          union_idx_scan lt gt v1 v2 (i1 + 1) (i2 + 1)
            (if i1 = 0 \<or> elems v1 ! i1 \<noteq> elems v1 ! (i1 - 1)
             then (fst res @ [Some (i1 + 1)], snd res @ [Some (i2 + 1)]) else res)
      else Inr (i1, i2, res))"
  by pat_completeness auto
termination
  by (relation "measure (\<lambda>(lt, gt, v1, v2, i1, i2, res). (vsize v1 - i1) + (vsize v2 - i2))") auto

function idx_rest :: "'a list \<Rightarrow> nat \<Rightarrow> nat list \<Rightarrow> nat list" where
  "idx_rest v i res =
     (if i < length v then
        idx_rest v (i + 1) (if i = 0 \<or> v ! i \<noteq> v ! (i - 1) then res @ [i + 1] else res)
      else res)"
  by pat_completeness auto
termination
  by (relation "measure (\<lambda>(v, i, res). length v - i)") auto

definition union_idx_helper ::
  "('a \<Rightarrow> 'a \<Rightarrow> bool) \<Rightarrow> ('a \<Rightarrow> 'a \<Rightarrow> bool) \<Rightarrow> 'a vec \<Rightarrow> 'a vec \<Rightarrow> (nat option list \<times> nat option list) res" where
  "union_idx_helper lt gt v1 v2 =
     bindR (union_idx_scan lt gt v1 v2 0 0 ([], [])) (\<lambda>(i1, i2, res1, res2).
       let r1 = idx_rest (elems v1) i1 []; r2 = idx_rest (elems v2) i2 []
       in Inr (res1 @ map Some r1 @ map (\<lambda>_. None) r2, res2 @ map (\<lambda>_. None) r1 @ map Some r2))"

function setdiff_idx_helper ::
  "('a \<Rightarrow> 'b \<Rightarrow> bool) \<Rightarrow> ('a \<Rightarrow> 'b \<Rightarrow> bool) \<Rightarrow> 'a list \<Rightarrow> 'b list \<Rightarrow> nat \<Rightarrow> nat
    \<Rightarrow> nat list \<times> nat list \<Rightarrow> nat list \<times> nat list" where
  "setdiff_idx_helper lt gt v1 v2 i1 i2 res =
     (if i1 < length v1 \<and> i2 < length v2 then
        if lt (v1 ! i1) (v2 ! i2)
        then setdiff_idx_helper lt gt v1 v2 (i1 + 1) i2 (fst res @ [i1 + 1], snd res)
        else if gt (v1 ! i1) (v2 ! i2)
        then setdiff_idx_helper lt gt v1 v2 i1 (i2 + 1) (fst res, snd res @ [i2 + 1])
        else setdiff_idx_helper lt gt v1 v2 (i1 + 1) (i2 + 1) res
      else if i1 < length v1
      then setdiff_idx_helper lt gt v1 v2 (i1 + 1) i2 (fst res @ [i1 + 1], snd res)
      else if i2 < length v2
      then setdiff_idx_helper lt gt v1 v2 i1 (i2 + 1) (fst res, snd res @ [i2 + 1])
      else res)"
  by pat_completeness auto
termination
  by (relation "measure (\<lambda>(lt, gt, v1, v2, i1, i2, res). (length v1 - i1) + (length v2 - i2))") auto

section \<open>Sorting on demand\<close>

text \<open>\<open>conditional_sort_helper\<close> and its two index variants: an operand is copied and sorted unless its
  flag says that it is sorted already. The sorted copy is written through iterators, so
  its own flag is cleared, but the scans only read elements.\<close>

definition sort_unless_ordered :: "'a::linorder vec \<Rightarrow> 'a vec" where
  "sort_unless_ordered v =
     (if \<not> ordered v then v\<lparr>elems := sort (elems v), ordered := False\<rparr> else v)"

definition conditional_sort_helper ::
  "('a::linorder vec \<Rightarrow> 'b::linorder vec \<Rightarrow> 'c) \<Rightarrow> 'a vec \<Rightarrow> 'b vec \<Rightarrow> 'c" where
  "conditional_sort_helper F v1 v2 =
     (if \<not> ordered v1 \<and> \<not> ordered v2 then F (sort_unless_ordered v1) (sort_unless_ordered v2)
      else if \<not> ordered v1 then F (sort_unless_ordered v1) v2
      else if \<not> ordered v2 then F v1 (sort_unless_ordered v2)
      else F v1 v2)"

text \<open>The public functions, for two vectors of one linearly ordered type.\<close>

definition intersect :: "'a::linorder vec \<Rightarrow> 'a vec \<Rightarrow> 'a list" where
  "intersect = conditional_sort_helper (\<lambda>s1 s2. intersect_helper (<) (>) (elems s1) (elems s2) 0 0 [])"

definition vunion :: "'a::linorder vec \<Rightarrow> 'a vec \<Rightarrow> 'a list" where
  "vunion = conditional_sort_helper (\<lambda>s1 s2. union_helper (<) (>) (elems s1) (elems s2))"

definition setdiff :: "'a::linorder vec \<Rightarrow> 'a vec \<Rightarrow> 'a list" where
  "setdiff = conditional_sort_helper (\<lambda>s1 s2. setdiff_helper (<) (>) (elems s1) (elems s2) 0 0 [])"

definition intersect_idx :: "'a::linorder vec \<Rightarrow> 'a vec \<Rightarrow> (nat list \<times> nat list) res" where
  "intersect_idx = conditional_sort_helper (\<lambda>s1 s2. intersect_idx_helper (<) (>) s1 (elems s2) 0 0 ([], []))"

definition union_idx :: "'a::linorder vec \<Rightarrow> 'a vec \<Rightarrow> (nat option list \<times> nat option list) res" where
  "union_idx = conditional_sort_helper (union_idx_helper (<) (>))"

definition setdiff_idx :: "'a::linorder vec \<Rightarrow> 'a vec \<Rightarrow> nat list \<times> nat list" where
  "setdiff_idx = conditional_sort_helper (\<lambda>s1 s2. setdiff_idx_helper (<) (>) (elems s1) (elems s2) 0 0 ([], []))"


declare intersect_helper.simps [simp del] union_scan.simps [simp del] union_rest.simps [simp del]
  setdiff_helper.simps [simp del] intersect_idx_helper.simps [simp del] union_idx_scan.simps [simp del]
  idx_rest.simps [simp del] setdiff_idx_helper.simps [simp del]

section \<open>Accumulating without repetition\<close>

lemma push_new_fold:
  "foldl push_new res xs = (if res = [] then remdups_adj xs else butlast res @ remdups_adj (last res # xs))"
proof (induction xs arbitrary: res)
  case Nil
  then show ?case by simp
next
  case (Cons x xs)
  show ?case
  proof (cases "res = []")
    case True
    then show ?thesis by (simp add: Cons.IH push_new_def [of "[]" x])
  next
    case False
    then have "push_new res x = (if x = last res then res else res @ [x])" by (simp add: push_new_def)
    with False show ?thesis by (simp add: Cons.IH)
  qed
qed

lemma set_push_new [simp]: "set (push_new res x) = insert x (set res)"
  by (auto simp: push_new_def intro: last_in_set)

lemma sorted_remdups_adj_strict: "sorted xs \<Longrightarrow> sorted_wrt (<) (remdups_adj xs)" for xs :: "'a::linorder list"
  by (induction xs rule: remdups_adj.induct) force+

section \<open>The contract of the scans\<close>

text \<open>\<open>lt x y\<close> and \<open>gt x y\<close> place an element of the first vector before or after one of the second;
  an element for which neither holds is matched. The scans need the placement to be monotone along the
  two orders the vectors are sorted by.\<close>

locale scan_order =
  fixes lt gt :: "'a \<Rightarrow> 'b \<Rightarrow> bool"
    and le1 :: "'a \<Rightarrow> 'a \<Rightarrow> bool" and le2 :: "'b \<Rightarrow> 'b \<Rightarrow> bool"
  assumes lt_later: "lt x y \<Longrightarrow> le2 y y' \<Longrightarrow> lt x y'"
    and gt_later: "gt x y \<Longrightarrow> le1 x x' \<Longrightarrow> gt x' y"
begin

definition matches :: "'a \<Rightarrow> 'b \<Rightarrow> bool" where
  "matches x y \<longleftrightarrow> \<not> lt x y \<and> \<not> gt x y"

definition matched :: "'b list \<Rightarrow> 'a \<Rightarrow> bool" where
  "matched ys x \<longleftrightarrow> (\<exists>y\<in>set ys. matches x y)"

lemma matched_Nil [simp]: "\<not> matched [] x"
  by (simp add: matched_def)

text \<open>The two steps of every scan: an element of the first vector before the current one of the second
  is matched by none of the rest; an element of the second vector before the current one of the first
  matches none of the rest.\<close>

lemma lt_unmatched:
  assumes "sorted_wrt le2 v2" "i2 < length v2" "lt x (v2 ! i2)"
  shows "\<not> matched (drop i2 v2) x"
proof -
  have "lt x y" if "y \<in> set (drop i2 v2)" for y
  proof -
    from that obtain k where k: "i2 \<le> k" "k < length v2" "y = v2 ! k"
      by (auto simp: in_set_drop_iff)
    show ?thesis
    proof (cases "k = i2")
      case False
      with k assms(1) have "le2 (v2 ! i2) y" by (simp add: sorted_wrt_nth_less)
      with assms(3) show ?thesis by (rule lt_later)
    qed (use k assms(3) in simp)
  qed
  then show ?thesis by (auto simp: matched_def matches_def)
qed

lemma gt_skip:
  assumes "sorted_wrt le1 v1" "i1 < length v1" "i2 < length v2" "gt (v1 ! i1) (v2 ! i2)"
    and "x \<in> set (drop i1 v1)"
  shows "matched (drop i2 v2) x \<longleftrightarrow> matched (drop (Suc i2) v2) x"
proof -
  from assms(5) obtain k where k: "i1 \<le> k" "k < length v1" "x = v1 ! k"
    by (auto simp: in_set_drop_iff)
  have "gt x (v2 ! i2)"
  proof (cases "k = i1")
    case False
    with k assms(1) have "le1 (v1 ! i1) x" by (simp add: sorted_wrt_nth_less)
    with assms(4) show ?thesis by (rule gt_later)
  qed (use k assms(4) in simp)
  moreover have "set (drop i2 v2) = insert (v2 ! i2) (set (drop (Suc i2) v2))"
    using assms(3) by (metis Cons_nth_drop_Suc list.simps(15))
  ultimately show ?thesis by (auto simp: matched_def matches_def)
qed

lemma match_here:
  "i2 < length v2 \<Longrightarrow> \<not> lt x (v2 ! i2) \<Longrightarrow> \<not> gt x (v2 ! i2) \<Longrightarrow> matched (drop i2 v2) x"
  unfolding matched_def matches_def by (metis Cons_nth_drop_Suc list.set_intros(1))

lemma intersect_helper_filter:
  assumes "sorted_wrt le1 v1" "sorted_wrt le2 v2"
  shows "intersect_helper lt gt v1 v2 i1 i2 res
           = foldl push_new res (filter (matched (drop i2 v2)) (drop i1 v1))"
proof (induction "(length v1 - i1) + (length v2 - i2)" arbitrary: i1 i2 res rule: less_induct)
  case less
  note unfold = intersect_helper.simps [of lt gt v1 v2 i1 i2 res]
  have IH1: "intersect_helper lt gt v1 v2 (Suc i1) i2 r = foldl push_new r (filter (matched (drop i2 v2)) (drop (Suc i1) v1))" if "i1 < length v1" for r
    by (intro less.hyps) (use that in arith)
  have IH2: "intersect_helper lt gt v1 v2 i1 (Suc i2) r = foldl push_new r (filter (matched (drop (Suc i2) v2)) (drop i1 v1))" if "i2 < length v2" for r
    by (intro less.hyps) (use that in arith)
  show ?case
  proof (cases "i1 < length v1 \<and> i2 < length v2")
    case True
    then have d1: "drop i1 v1 = v1 ! i1 # drop (Suc i1) v1" by (simp add: Cons_nth_drop_Suc)
    consider (before) "lt (v1 ! i1) (v2 ! i2)"
      | (after) "\<not> lt (v1 ! i1) (v2 ! i2)" "gt (v1 ! i1) (v2 ! i2)"
      | (match) "\<not> lt (v1 ! i1) (v2 ! i2)" "\<not> gt (v1 ! i1) (v2 ! i2)" by blast
    then show ?thesis
    proof cases
      case before
      with True IH1 IH2 unfold lt_unmatched [OF assms(2) _ before] show ?thesis by (simp add: d1)
    next
      case after
      have "filter (matched (drop i2 v2)) (drop i1 v1) = filter (matched (drop (Suc i2) v2)) (drop i1 v1)"
        using True after gt_skip [OF assms(1), of i1 i2 v2] by (intro filter_cong) auto
      with True IH1 IH2 unfold after show ?thesis by simp
    next
      case match
      with True IH1 IH2 unfold match_here [of i2 v2 "v1 ! i1"] show ?thesis by (simp add: d1)
    qed
  next
    case False
    with unfold show ?thesis by auto
  qed
qed

lemma setdiff_helper_filter:
  assumes "sorted_wrt le1 v1" "sorted_wrt le2 v2"
  shows "setdiff_helper lt gt v1 v2 i1 i2 res
           = res @ filter (\<lambda>x. \<not> matched (drop i2 v2) x) (drop i1 v1)"
proof (induction "(length v1 - i1) + (length v2 - i2)" arbitrary: i1 i2 res rule: less_induct)
  case less
  note unfold = setdiff_helper.simps [of lt gt v1 v2 i1 i2 res]
  have IH1: "setdiff_helper lt gt v1 v2 (Suc i1) i2 r = r @ filter (\<lambda>x. \<not> matched (drop i2 v2) x) (drop (Suc i1) v1)" if "i1 < length v1" for r
    by (intro less.hyps) (use that in arith)
  have IH2: "setdiff_helper lt gt v1 v2 i1 (Suc i2) r = r @ filter (\<lambda>x. \<not> matched (drop (Suc i2) v2) x) (drop i1 v1)" if "i2 < length v2" for r
    by (intro less.hyps) (use that in arith)
  show ?case
  proof (cases "i1 < length v1")
    case True
    then have d1: "drop i1 v1 = v1 ! i1 # drop (Suc i1) v1" by (simp add: Cons_nth_drop_Suc)
    consider (exhausted) "\<not> i2 < length v2"
      | (before) "i2 < length v2" "lt (v1 ! i1) (v2 ! i2)"
      | (after) "i2 < length v2" "\<not> lt (v1 ! i1) (v2 ! i2)" "gt (v1 ! i1) (v2 ! i2)"
      | (match) "i2 < length v2" "\<not> lt (v1 ! i1) (v2 ! i2)" "\<not> gt (v1 ! i1) (v2 ! i2)" by blast
    then show ?thesis
    proof cases
      case exhausted
      with True IH1 IH2 unfold show ?thesis by (simp add: d1)
    next
      case before
      with True IH1 IH2 unfold lt_unmatched [OF assms(2) before] show ?thesis by (simp add: d1)
    next
      case after
      have "filter (\<lambda>x. \<not> matched (drop i2 v2) x) (drop i1 v1)
            = filter (\<lambda>x. \<not> matched (drop (Suc i2) v2) x) (drop i1 v1)"
        using True after gt_skip [OF assms(1), of i1 i2 v2] by (intro filter_cong) auto
      with True IH1 IH2 unfold after show ?thesis by simp
    next
      case match
      with True IH1 IH2 unfold match_here [of i2 v2 "v1 ! i1"] show ?thesis by (simp add: d1)
    qed
  next
    case False
    with unfold show ?thesis by simp
  qed
qed

lemma intersect_helper_correct:
  "sorted_wrt le1 v1 \<Longrightarrow> sorted_wrt le2 v2 \<Longrightarrow>
     intersect_helper lt gt v1 v2 0 0 [] = remdups_adj (filter (matched v2) v1)"
  by (simp add: intersect_helper_filter push_new_fold)

lemma setdiff_helper_correct:
  "sorted_wrt le1 v1 \<Longrightarrow> sorted_wrt le2 v2 \<Longrightarrow>
     setdiff_helper lt gt v1 v2 0 0 [] = filter (\<lambda>x. \<not> matched v2 x) v1"
  by (simp add: setdiff_helper_filter)

end

interpretation same: scan_order "(<) :: 'a::linorder \<Rightarrow> 'a \<Rightarrow> bool" "(>)" "(\<le>)" "(\<le>)"
  by unfold_locales auto

lemma same_matched [simp]: "same.matched ys x \<longleftrightarrow> x \<in> set ys"
  by (auto simp: same.matched_def same.matches_def)

section \<open>Union\<close>

lemma union_rest_eq:
  "union_rest v i res = res @ (if i = 0 then remdups_adj v else tl (remdups_adj (v ! (i - 1) # drop i v)))"
proof (induction "length v - i" arbitrary: i res rule: less_induct)
  case less
  show ?case
  proof (cases "i < length v")
    case True
    then have d: "drop i v = v ! i # drop (Suc i) v" by (simp add: Cons_nth_drop_Suc)
    have IH: "union_rest v (Suc i) r = r @ tl (remdups_adj (v ! i # drop (Suc i) v))" for r
      using less.hyps [of "Suc i" r] True by simp
    show ?thesis
    proof (cases "i = 0")
      case 0: True
      have "union_rest v 0 res = union_rest v (Suc 0) (res @ [v ! 0])"
        using True 0 by (simp add: union_rest.simps [of v 0 res])
      also have "\<dots> = res @ v ! 0 # tl (remdups_adj (v ! 0 # drop (Suc 0) v))"
        using IH 0 by simp
      also have "\<dots> = res @ remdups_adj (v ! 0 # drop (Suc 0) v)" by simp
      also have "v ! 0 # drop (Suc 0) v = v" using d 0 by simp
      finally show ?thesis using 0 by simp
    next
      case False
      then show ?thesis using True d IH by (simp add: union_rest.simps [of v i res])
    qed
  next
    case False
    then have "v = [] \<or> 0 < i" by auto
    with False show ?thesis by (auto simp: union_rest.simps [of v i res])
  qed
qed


lemma sorted_prev_le: "sorted v \<Longrightarrow> 0 < i \<Longrightarrow> i < length v \<Longrightarrow> x \<in> set (drop i v) \<Longrightarrow> v ! (i - 1) \<le> x"
  for v :: "'a::linorder list"
  by (auto simp: in_set_drop_iff sorted_iff_nth_mono)

lemma sorted_take_drop_mem:
  assumes "sorted v" "x \<in> set (take i v)" "x \<in> set (drop i v)"
  shows "0 < i \<and> x = v ! (i - 1)"
proof -
  from assms(2,3) obtain j k where "j < i" "i \<le> k" "k < length v" "x = v ! j" "x = v ! k"
    by (auto simp: in_set_drop_iff in_set_take_iff)
  moreover from this have "v ! j \<le> v ! (i - 1)" by (intro sorted_nth_mono [OF assms(1)]) auto
  moreover from calculation have "v ! (i - 1) \<le> v ! k" by (intro sorted_nth_mono [OF assms(1)]) auto
  ultimately show ?thesis by auto
qed

text \<open>What the closing loop adds: the remaining elements, once each, without the one just before them.\<close>

definition rest_new :: "'a list \<Rightarrow> nat \<Rightarrow> 'a list" where
  "rest_new v i = (if i = 0 then remdups_adj v else tl (remdups_adj (v ! (i - 1) # drop i v)))"

lemma rest_new_sorted:
  assumes "sorted v"
  shows "sorted_wrt (<) (rest_new v i)"
    and "set (rest_new v i) = set (drop i v) - (if i = 0 then {} else {v ! (i - 1)})"
proof -
  consider "i = 0" | "0 < i" "i < length v" | "length v \<le> i" "0 < i" by linarith
  then have "sorted_wrt (<) (rest_new v i) \<and>
     set (rest_new v i) = set (drop i v) - (if i = 0 then {} else {v ! (i - 1)})"
  proof cases
    case 2
    let ?p = "v ! (i - 1)"
    have "sorted (?p # drop i v)"
      using assms 2 sorted_prev_le [OF assms 2] by (simp add: sorted_wrt_drop)
    define t where "t = tl (remdups_adj (?p # drop i v))"
    then have t: "remdups_adj (?p # drop i v) = ?p # t" by simp
    with \<open>sorted (?p # drop i v)\<close> have "sorted_wrt (<) (?p # t)"
      using sorted_remdups_adj_strict by metis
    moreover have "insert ?p (set t) = insert ?p (set (drop i v))"
      using t by (metis list.simps(15) remdups_adj_set)
    moreover have "rest_new v i = t" using 2 by (simp add: rest_new_def t_def)
    moreover have "?p \<notin> set t" using calculation(1) by auto
    then have "set t = insert ?p (set t) - {?p}" by simp
    ultimately show ?thesis using 2 by simp
  qed (use assms in \<open>auto simp: rest_new_def sorted_remdups_adj_strict\<close>)
  then show "sorted_wrt (<) (rest_new v i)"
    and "set (rest_new v i) = set (drop i v) - (if i = 0 then {} else {v ! (i - 1)})" by blast+
qed

text \<open>The invariant of the scan: the result holds, in order and once each, the elements already
  passed; it lies below everything still to come; and an element passed in one vector is either below the
  rest of the other one or was passed there as well.\<close>

definition union_inv :: "'a::linorder list \<Rightarrow> 'a list \<Rightarrow> nat \<Rightarrow> nat \<Rightarrow> 'a list \<Rightarrow> bool" where
  "union_inv v1 v2 i1 i2 res \<longleftrightarrow>
     sorted_wrt (<) res \<and> set res = set (take i1 v1) \<union> set (take i2 v2) \<and>
     (\<forall>x\<in>set res. \<forall>y\<in>set (drop i1 v1) \<union> set (drop i2 v2). x \<le> y) \<and>
     (\<forall>y\<in>set (take i2 v2). y \<in> set (take i1 v1) \<or> (\<forall>x\<in>set (drop i1 v1). y < x)) \<and>
     (\<forall>x\<in>set (take i1 v1). x \<in> set (take i2 v2) \<or> (\<forall>y\<in>set (drop i2 v2). x < y))"

lemma push_new_sorted:
  "sorted_wrt (<) res \<Longrightarrow> (\<forall>y\<in>set res. y \<le> x) \<Longrightarrow> sorted_wrt (<) (push_new res x)"
  for x :: "'a::linorder"
  by (cases res rule: rev_cases) (auto simp: push_new_def sorted_wrt_append less_le)

lemma union_scan_inv:
  assumes "sorted v1" "sorted v2" "union_inv v1 v2 i1 i2 res" "i1 \<le> length v1" "i2 \<le> length v2"
    and "union_scan (<) (>) v1 v2 i1 i2 res = (j1, j2, res')"
  shows "union_inv v1 v2 j1 j2 res' \<and> (j1 = length v1 \<and> j2 \<le> length v2 \<or> j2 = length v2 \<and> j1 \<le> length v1)"
  using assms(3-6)
proof (induction "(length v1 - i1) + (length v2 - i2)" arbitrary: i1 i2 res rule: less_induct)
  case less
  note unfold = union_scan.simps [of "(<)" "(>)" v1 v2 i1 i2 res]
  show ?case
  proof (cases "i1 < length v1 \<and> i2 < length v2")
    case True
    let ?x = "v1 ! i1" and ?y = "v2 ! i2"
    have t: "set (take (Suc i1) v1) = insert ?x (set (take i1 v1))"
        "set (take (Suc i2) v2) = insert ?y (set (take i2 v2))"
      using True by (auto simp: take_Suc_conv_app_nth)
    have d: "set (drop i1 v1) = insert ?x (set (drop (Suc i1) v1))"
        "set (drop i2 v2) = insert ?y (set (drop (Suc i2) v2))"
      using True by (metis Cons_nth_drop_Suc list.simps(15))+
    have up: "\<forall>x\<in>set (drop i1 v1). ?x \<le> x" "\<forall>y\<in>set (drop i2 v2). ?y \<le> y"
      using assms(1,2) True by (auto simp: in_set_drop_iff sorted_iff_nth_mono)
    have below: "\<forall>z\<in>set res. z \<le> ?x" "\<forall>z\<in>set res. z \<le> ?y"
      using less.prems(1) d by (auto simp: union_inv_def)
    consider "?x < ?y" | "?y < ?x" | "?x = ?y"
      by (cases ?x ?y rule: linorder_cases) auto
    then show ?thesis
    proof cases
      case 1
      then have "union_inv v1 v2 (i1 + 1) i2 (push_new res ?x)"
        using less.prems(1) t d up below push_new_sorted [of res ?x]
        unfolding union_inv_def by auto
      then show ?thesis using 1 True unfold less.prems
        by (intro less.hyps [of "i1 + 1" i2 "push_new res ?x"]) auto
    next
      case 2
      then have "union_inv v1 v2 i1 (i2 + 1) (push_new res ?y)"
        using less.prems(1) t d up below push_new_sorted [of res ?y]
        unfolding union_inv_def by auto
      then show ?thesis using 2 True unfold less.prems
        by (intro less.hyps [of i1 "i2 + 1" "push_new res ?y"]) auto
    next
      case 3
      then have "union_inv v1 v2 (i1 + 1) (i2 + 1) (push_new res ?x)"
        using less.prems(1) t d up below push_new_sorted [of res ?x]
        unfolding union_inv_def by auto
      then show ?thesis using 3 True unfold less.prems
        by (intro less.hyps [of "i1 + 1" "i2 + 1" "push_new res ?x"]) auto
    qed
  next
    case False
    with less.prems unfold show ?thesis by auto
  qed
qed

lemma union_inv_rest1:
  assumes "sorted v1" "union_inv v1 v2 i1 i2 res" "x \<in> set res" "y \<in> set (rest_new v1 i1)"
  shows "x < y"
proof -
  from assms(4) have y: "y \<in> set (drop i1 v1)" "i1 = 0 \<or> y \<noteq> v1 ! (i1 - 1)"
    using rest_new_sorted(2) [OF assms(1)] by (auto split: if_splits)
  have "x \<le> y" using assms(2,3) y(1) by (auto simp: union_inv_def)
  moreover have "x \<noteq> y"
  proof
    assume "x = y"
    with assms(2,3) y(1) have "y \<in> set (take i1 v1)" by (auto simp: union_inv_def)
    with sorted_take_drop_mem [OF assms(1) _ y(1)] y(2) show False by simp
  qed
  ultimately show ?thesis by simp
qed

lemma union_inv_sym: "union_inv v1 v2 i1 i2 res \<Longrightarrow> union_inv v2 v1 i2 i1 res"
  by (auto simp: union_inv_def)

lemma union_closing:
  assumes "sorted v1" "union_inv v1 v2 i1 (length v2) res"
  shows "sorted_wrt (<) (res @ rest_new v1 i1) \<and> set (res @ rest_new v1 i1) = set v1 \<union> set v2"
proof -
  have "sorted_wrt (<) (res @ rest_new v1 i1)"
    using assms rest_new_sorted(1) [OF assms(1)] union_inv_rest1 [OF assms]
    by (auto simp: sorted_wrt_append union_inv_def)
  moreover have "i1 = 0 \<or> v1 ! (i1 - 1) \<in> set (take i1 v1) \<or> drop i1 v1 = []"
    by (auto simp: in_set_take_iff) (metis Suc_pred lessI not_le order_less_trans)
  then have "set (take i1 v1) \<union> set (rest_new v1 i1) = set (take i1 v1) \<union> set (drop i1 v1)"
    using rest_new_sorted(2) [OF assms(1), of i1] by auto
  then have "set (take i1 v1) \<union> set (rest_new v1 i1) = set v1"
    by (metis append_take_drop_id set_append)
  ultimately show ?thesis using assms(2) by (auto simp: union_inv_def)
qed

lemma union_helper_correct:
  assumes "sorted v1" "sorted v2"
  shows "sorted_wrt (<) (union_helper (<) (>) v1 v2)" "set (union_helper (<) (>) v1 v2) = set v1 \<union> set v2"
proof -
  obtain i1 i2 res where scan: "union_scan (<) (>) v1 v2 0 0 [] = (i1, i2, res)"
    by (metis prod_cases3)
  have "union_inv v1 v2 0 0 []" by (simp add: union_inv_def)
  from union_scan_inv [OF assms this _ _ scan]
  have inv: "union_inv v1 v2 i1 i2 res"
    and ends: "i1 = length v1 \<and> i2 \<le> length v2 \<or> i2 = length v2 \<and> i1 \<le> length v1" by auto
  have r: "union_helper (<) (>) v1 v2 = res @ rest_new v1 i1 @ rest_new v2 i2"
    by (simp add: union_helper_def scan union_rest_eq rest_new_def)
  have nil: "rest_new v (length v) = []" for v :: "'a list"
    by (simp add: rest_new_def)
  have "sorted_wrt (<) (union_helper (<) (>) v1 v2) \<and> set (union_helper (<) (>) v1 v2) = set v1 \<union> set v2"
    using ends
  proof
    assume "i1 = length v1 \<and> i2 \<le> length v2"
    with union_closing [OF assms(2) union_inv_sym] inv show ?thesis by (auto simp: r nil)
  next
    assume "i2 = length v2 \<and> i1 \<le> length v1"
    with union_closing [OF assms(1)] inv show ?thesis by (auto simp: r nil)
  qed
  then show "sorted_wrt (<) (union_helper (<) (>) v1 v2)"
    "set (union_helper (<) (>) v1 v2) = set v1 \<union> set v2" by blast+
qed


section \<open>The public functions on vectors with a sound flag\<close>

lemma sort_unless_ordered_elems [simp]: "mset (elems (sort_unless_ordered v)) = mset (elems v)"
  by (simp add: sort_unless_ordered_def)

lemma sort_unless_ordered_sorted: "vec_inv (<) v \<Longrightarrow> elems (sort_unless_ordered v) = sort (elems v)"
  by (auto simp: sort_unless_ordered_def sorted_sort_id dest: vec_inv_sorted)

lemma conditional_sort_eq:
  "conditional_sort_helper F v1 v2 = F (sort_unless_ordered v1) (sort_unless_ordered v2)"
  by (auto simp: conditional_sort_helper_def sort_unless_ordered_def)

lemmas public_defs = intersect_def vunion_def setdiff_def intersect_idx_def union_idx_def
  setdiff_idx_def conditional_sort_eq

lemma intersect_eq:
  "vec_inv (<) v1 \<Longrightarrow> vec_inv (<) v2 \<Longrightarrow>
     intersect v1 v2 = remdups_adj (filter (\<lambda>x. x \<in> set (elems v2)) (sort (elems v1)))"
  by (simp add: public_defs sort_unless_ordered_sorted same.intersect_helper_correct cong: filter_cong)

lemma setdiff_eq:
  "vec_inv (<) v1 \<Longrightarrow> vec_inv (<) v2 \<Longrightarrow>
     setdiff v1 v2 = filter (\<lambda>x. x \<notin> set (elems v2)) (sort (elems v1))"
  by (simp add: public_defs sort_unless_ordered_sorted same.setdiff_helper_correct cong: filter_cong)

section \<open>The index variants on sorted operands\<close>

lemma in_drop_step:
  "i < length v \<Longrightarrow> x \<in> set (drop i v) \<longleftrightarrow> x = v ! i \<or> x \<in> set (drop (Suc i) v)"
  by (metis Cons_nth_drop_Suc set_ConsD list.set_intros)

lemma sorted_drop_ge: "sorted v \<Longrightarrow> i \<le> j \<Longrightarrow> x \<in> set (drop j v) \<Longrightarrow> v ! i \<le> x"
  for v :: "'a::linorder list"
  by (auto simp: in_set_drop_iff sorted_iff_nth_mono)

lemma strict_drop_gt: "sorted_wrt (<) v \<Longrightarrow> i < j \<Longrightarrow> x \<in> set (drop j v) \<Longrightarrow> v ! i < x"
  for v :: "'a::linorder list"
  by (auto simp: in_set_drop_iff sorted_wrt_nth_less)

lemma upt_filter_step:
  "i < n \<Longrightarrow> filter P [i..<n] = (if P i then i # filter P [Suc i..<n] else filter P [Suc i..<n])"
  by (simp add: upt_conv_Cons)

lemma setdiff_idx_helper_correct:
  fixes v1 v2 :: "'a::linorder list"
  assumes "sorted_wrt (<) v1" "sorted_wrt (<) v2"
  shows "setdiff_idx_helper (<) (>) v1 v2 i1 i2 res =
    (fst res @ map Suc (filter (\<lambda>i. v1 ! i \<notin> set (drop i2 v2)) [i1..<length v1]),
     snd res @ map Suc (filter (\<lambda>i. v2 ! i \<notin> set (drop i1 v1)) [i2..<length v2]))"
proof (induction "(length v1 - i1) + (length v2 - i2)" arbitrary: i1 i2 res rule: less_induct)
  case less
  note unfold = setdiff_idx_helper.simps [of "(<)" "(>)" v1 v2 i1 i2 res]
  have IH: "setdiff_idx_helper (<) (>) v1 v2 j1 j2 r =
    (fst r @ map Suc (filter (\<lambda>i. v1 ! i \<notin> set (drop j2 v2)) [j1..<length v1]),
     snd r @ map Suc (filter (\<lambda>i. v2 ! i \<notin> set (drop j1 v1)) [j2..<length v2]))"
    if "i1 \<le> j1" "i2 \<le> j2" "i1 < j1 \<and> i1 < length v1 \<or> i2 < j2 \<and> i2 < length v2" for j1 j2 r
    by (intro less.hyps) (use that in arith)
  have up1: "v1 ! i1 < v1 ! k" if "i1 < k" "k < length v1" for k
    using assms(1) that by (simp add: sorted_wrt_nth_less)
  have up2: "v2 ! i2 < v2 ! k" if "i2 < k" "k < length v2" for k
    using assms(2) that by (simp add: sorted_wrt_nth_less)
  show ?case
  proof (cases "i1 < length v1 \<and> i2 < length v2")
    case True
    note step = in_drop_step [of i1 v1] in_drop_step [of i2 v2] upt_filter_step [of i1 "length v1"]
      upt_filter_step [of i2 "length v2"]
    consider (before) "v1 ! i1 < v2 ! i2" | (after) "v2 ! i2 < v1 ! i1" | (same) "v1 ! i1 = v2 ! i2"
      by (cases "v1 ! i1" "v2 ! i2" rule: linorder_cases) auto
    then show ?thesis
    proof cases
      case before
      have "v1 ! i1 \<notin> set (drop i2 v2)"
        using before sorted_drop_ge [of v2 i2 i2] assms(2) by (fastforce simp: strict_sorted_iff)
      moreover have "filter (\<lambda>i. v2 ! i \<notin> set (drop i1 v1)) [i2..<length v2]
                   = filter (\<lambda>i. v2 ! i \<notin> set (drop (Suc i1) v1)) [i2..<length v2]"
        using True before up2 by (intro filter_cong) (auto simp: step le_less, metis order.asym less_trans nat_less_le)
      moreover have "setdiff_idx_helper (<) (>) v1 v2 i1 i2 res
          = setdiff_idx_helper (<) (>) v1 v2 (Suc i1) i2 (fst res @ [Suc i1], snd res)"
        using True before unfold by simp
      ultimately show ?thesis
        using True IH [of "Suc i1" i2] by (simp add: upt_filter_step [of i1 "length v1"])
    next
      case after
      have "v2 ! i2 \<notin> set (drop i1 v1)"
        using after sorted_drop_ge [of v1 i1 i1] assms(1) by (fastforce simp: strict_sorted_iff)
      moreover have "filter (\<lambda>i. v1 ! i \<notin> set (drop i2 v2)) [i1..<length v1]
                   = filter (\<lambda>i. v1 ! i \<notin> set (drop (Suc i2) v2)) [i1..<length v1]"
        using True after up1 by (intro filter_cong) (auto simp: step le_less, metis order.asym less_trans nat_less_le)
      moreover have "setdiff_idx_helper (<) (>) v1 v2 i1 i2 res
          = setdiff_idx_helper (<) (>) v1 v2 i1 (Suc i2) (fst res, snd res @ [Suc i2])"
        using True unfold less_not_sym [OF after] after by simp
      ultimately show ?thesis
        using True IH [of i1 "Suc i2"] by (simp add: upt_filter_step [of i2 "length v2"])
    next
      case same
      have "v1 ! k \<in> set (drop i2 v2) \<longleftrightarrow> v1 ! k \<in> set (drop (Suc i2) v2)"
        if "Suc i1 \<le> k" "k < length v1" for k
        using up1 [of k] that same True in_drop_step [of i2 v2] by auto
      then have "filter (\<lambda>i. v1 ! i \<notin> set (drop i2 v2)) [Suc i1..<length v1]
          = filter (\<lambda>i. v1 ! i \<notin> set (drop (Suc i2) v2)) [Suc i1..<length v1]"
        by (intro filter_cong) auto
      moreover have "v2 ! k \<in> set (drop i1 v1) \<longleftrightarrow> v2 ! k \<in> set (drop (Suc i1) v1)"
        if "Suc i2 \<le> k" "k < length v2" for k
        using up2 [of k] that same True in_drop_step [of i1 v1] by auto
      then have "filter (\<lambda>i. v2 ! i \<notin> set (drop i1 v1)) [Suc i2..<length v2]
          = filter (\<lambda>i. v2 ! i \<notin> set (drop (Suc i1) v1)) [Suc i2..<length v2]"
        by (intro filter_cong) auto
      moreover have "v1 ! i1 \<in> set (drop i2 v2)" "v2 ! i2 \<in> set (drop i1 v1)"
        using True same by (simp_all add: step)
      moreover have "setdiff_idx_helper (<) (>) v1 v2 i1 i2 res
          = setdiff_idx_helper (<) (>) v1 v2 (Suc i1) (Suc i2) res"
        using True same unfold by simp
      ultimately show ?thesis
        using True IH [of "Suc i1" "Suc i2"]
        by (simp add: upt_filter_step [of i1 "length v1"] upt_filter_step [of i2 "length v2"])
    qed
  next
    case False
    then consider "i1 < length v1" "\<not> i2 < length v2" | "\<not> i1 < length v1" "i2 < length v2"
      | "\<not> i1 < length v1" "\<not> i2 < length v2" by blast
    then show ?thesis
      using unfold IH [of "Suc i1" i2] IH [of i1 "Suc i2"]
      by cases (simp_all add: upt_conv_Cons [of i1 "length v1"] upt_conv_Cons [of i2 "length v2"])
  qed
qed

text \<open>Where an element would be found in the second vector: the number of elements below it.\<close>

definition first_pos :: "'a::linorder list \<Rightarrow> 'a \<Rightarrow> nat" where
  "first_pos v x = length (takeWhile (\<lambda>y. y < x) v)"

lemma first_posI:
  assumes "\<And>k. k < j \<Longrightarrow> v ! k < x" "j < length v" "\<not> v ! j < x"
  shows "first_pos v x = j"
proof -
  have "takeWhile (\<lambda>y. y < x) v = take j v"
    using assms by (intro takeWhile_eq_take_P_nth) auto
  with assms(2) show ?thesis by (simp add: first_pos_def)
qed

definition first_matches :: "'a::linorder list \<Rightarrow> 'a list \<Rightarrow> nat \<Rightarrow> nat list" where
  "first_matches v1 v2 i1 = filter (\<lambda>i. v1 ! i \<in> set v2 \<and> v1 ! i \<noteq> v1 ! (i - 1)) [i1..<length v1]"

lemma first_matches_step:
  "i < length v1 \<Longrightarrow> first_matches v1 v2 i =
     (if v1 ! i \<in> set v2 \<and> v1 ! i \<noteq> v1 ! (i - 1) then [i] else []) @ first_matches v1 v2 (Suc i)"
  by (simp add: first_matches_def upt_filter_step)

lemma intersect_idx_helper_correct:
  fixes v1 :: "'a::linorder vec"
  assumes "sorted (elems v1)" "sorted v2" "vsize v1 \<le> SIZE_MAX"
    and "i1 < vsize v1 \<Longrightarrow> \<forall>k<i2. v2 ! k < elems v1 ! i1" "i2 \<le> length v2"
  shows "intersect_idx_helper (<) (>) v1 v2 i1 i2 res =
    (if i1 = 0 \<and> 0 < vsize v1 \<and> elems v1 ! 0 \<in> set v2
     then Inl (OutOfRange ''subscript out of bounds'')
     else Inr (fst res @ map Suc (first_matches (elems v1) v2 i1),
               snd res @ map (\<lambda>i. Suc (first_pos v2 (elems v1 ! i))) (first_matches (elems v1) v2 i1)))"
  using assms(4,5)
proof (induction "(vsize v1 - i1) + (length v2 - i2)" arbitrary: i1 i2 res rule: less_induct)
  case less
  note unfold = intersect_idx_helper.simps [of "(<)" "(>)" v1 v2 i1 i2 res]
  have split: "x \<in> set v2 \<longleftrightarrow> x \<in> set (take i2 v2) \<or> x \<in> set (drop i2 v2)" for x
    by (metis Un_iff append_take_drop_id set_append)
  show ?case
  proof (cases "i1 < vsize v1 \<and> i2 < length v2")
    case True
    let ?x = "elems v1 ! i1" and ?y = "v2 ! i2"
    have low: "\<forall>k<i2. v2 ! k < ?x" using less.prems(1) True by blast
    have next1: "Suc i1 < vsize v1 \<Longrightarrow> \<forall>k<i2. v2 ! k < elems v1 ! Suc i1"
      using low sorted_nth_mono [OF assms(1), of i1 "Suc i1"] by (meson less_le_trans le_SucI order_refl)
    consider (before) "?x < ?y" | (after) "?y < ?x" | (same) "?x = ?y"
      by (cases ?x ?y rule: linorder_cases) auto
    then show ?thesis
    proof cases
      case before
      have "?x \<notin> set v2"
        using low before True sorted_drop_ge [OF assms(2), of i2 i2 ?x]
        by (auto simp: split in_set_take_iff)
      moreover have "intersect_idx_helper (<) (>) v1 v2 i1 i2 res
          = intersect_idx_helper (<) (>) v1 v2 (Suc i1) i2 res"
        using True before unfold by simp
      ultimately show ?thesis
        using less.hyps [of "Suc i1" i2 res] True next1 less.prems(2)
        by (auto simp: first_matches_step [of i1])
    next
      case after
      then have "intersect_idx_helper (<) (>) v1 v2 i1 i2 res
          = intersect_idx_helper (<) (>) v1 v2 i1 (Suc i2) res"
        using True unfold less_not_sym [OF after] by simp
      then show ?thesis
        using less.hyps [of i1 "Suc i2" res] True low after by (auto simp: less_Suc_eq)
    next
      case same
      then have mem: "?x \<in> set v2" using True by simp
      have pos: "first_pos v2 ?x = i2" using low True same by (intro first_posI) auto
      show ?thesis
      proof (cases "i1 = 0")
        case z: True
        have "vec_at v1 (size_sub 0 1) = Inl (OutOfRange ''subscript out of bounds'')"
          using True assms(3) by (subst vec_at_beyond) (auto simp: size_sub_0_1 [simplified])
        with z True same mem unfold show ?thesis by auto
      next
        case False
        let ?new = "?x \<noteq> elems v1 ! (i1 - 1)"
        have "intersect_idx_helper (<) (>) v1 v2 i1 i2 res
            = intersect_idx_helper (<) (>) v1 v2 (Suc i1) i2
                (if ?new then (fst res @ [Suc i1], snd res @ [Suc i2]) else res)"
          using True same False unfold by auto
        then show ?thesis
          using less.hyps [of "Suc i1" i2 "if ?new then (fst res @ [Suc i1], snd res @ [Suc i2]) else res"]
            True False next1 less.prems(2) mem pos
          by (auto simp: first_matches_step [of i1])
      qed
    qed
  next
    case False
    have "v2 ! k < elems v1 ! j" if "i2 = length v2" "k < i2" "i1 \<le> j" "j < vsize v1" for j k
      using less.prems(1) that sorted_nth_mono [OF assms(1) that(3,4)] by (meson le_less_trans less_le_trans)
    then have "elems v1 ! j \<notin> set v2" if "i1 \<le> j" "j < vsize v1" for j
      using that False less.prems(2) by (fastforce simp: in_set_conv_nth)
    then have "first_matches (elems v1) v2 i1 = []" "i1 = 0 \<and> 0 < vsize v1 \<Longrightarrow> elems v1 ! 0 \<notin> set v2"
      by (auto simp: first_matches_def filter_empty_conv)
    with False unfold show ?thesis by auto
  qed
qed

text \<open>C11. On vectors whose order flag is sound, \<open>intersect\<close> and \<open>union\<close> return exactly the common
  elements and all elements of the two vectors, each once and in increasing order, whether or
  not the operands were sorted and whatever repetitions they hold; \<open>setdiff\<close> returns the elements
  of the first vector that are not in the second, sorted and with their multiplicity.\<close>

theorem vector_set_operations_correct:
  assumes "vec_inv (<) v1" and "vec_inv (<) v2"
  shows "sorted_wrt (<) (intersect v1 v2) \<and> set (intersect v1 v2) = set (elems v1) \<inter> set (elems v2) \<and>
         sorted_wrt (<) (vunion v1 v2) \<and> set (vunion v1 v2) = set (elems v1) \<union> set (elems v2) \<and>
         sorted (setdiff v1 v2) \<and>
         mset (setdiff v1 v2) = filter_mset (\<lambda>x. x \<notin> set (elems v2)) (mset (elems v1))"
proof -
  have "sorted_wrt (<) (vunion v1 v2) \<and> set (vunion v1 v2) = set (elems v1) \<union> set (elems v2)"
    using union_helper_correct [of "sort (elems v1)" "sort (elems v2)"] assms
    by (simp add: public_defs sort_unless_ordered_sorted)
  then show ?thesis
    using intersect_eq [OF assms] setdiff_eq [OF assms]
    by (auto simp: sorted_remdups_adj_strict sorted_wrt_filter mset_filter)
qed

definition set_example :: "int list \<Rightarrow> int vec" where
  "set_example xs = \<lparr>typenumber = 0, elems = xs, ordered = False, capacity = 1024, alloc = MemAlloc\<rparr>"

lemma set_example_inv: "vec_inv (<) (set_example xs)"
  by (simp add: set_example_def vec_inv_def)

theorem vector_set_operations_correct_witness:
  "set (intersect (set_example [6, 1, 5, 2]) (set_example [9, 2, 2])) = {2} \<and>
   set (vunion (set_example [6, 1, 5, 2]) (set_example [9, 2, 2])) = {1, 2, 5, 6, 9} \<and>
   mset (setdiff (set_example [6, 1, 5, 2]) (set_example [9, 2, 2])) = {#1, 5, 6#}"
  using vector_set_operations_correct [OF set_example_inv set_example_inv, of "[6, 1, 5, 2]" "[9, 2, 2]"]
  by (auto simp: set_example_def)


text \<open>\<open>intersect_idx\<close> on operands with a sound flag works on the sorted elements. If the smallest
  element of the first operand also occurs in the second, it throws \<open>out_of_range\<close> (it reads
  \<open>v1[i1 - 1]\<close> at \<open>i1 = 0\<close>); otherwise it returns the 1-based positions of the common elements, each value
  once, and beside them the position of the first equal element of the other operand.\<close>

theorem intersect_idx_correct:
  assumes "vec_inv (<) v1" and "vec_inv (<) v2" and "vsize v1 \<le> SIZE_MAX"
  defines "s1 \<equiv> sort (elems v1)" and "s2 \<equiv> sort (elems v2)"
  shows "intersect_idx v1 v2 =
    (if s1 \<noteq> [] \<and> s1 ! 0 \<in> set s2 then Inl (OutOfRange ''subscript out of bounds'')
     else Inr (map Suc (first_matches s1 s2 0),
               map (\<lambda>i. Suc (first_pos s2 (s1 ! i))) (first_matches s1 s2 0)))"
proof -
  have len: "vsize (sort_unless_ordered v1) \<le> SIZE_MAX"
    using assms(1,3) by (simp add: sort_unless_ordered_sorted)
  have "elems (sort_unless_ordered v1) = s1" "elems (sort_unless_ordered v2) = s2"
    using assms(1,2) by (simp_all add: sort_unless_ordered_sorted s1_def s2_def)
  moreover have "sorted s1" "sorted s2" by (simp_all add: s1_def s2_def)
  ultimately show ?thesis
    using intersect_idx_helper_correct [of "sort_unless_ordered v1" s2 0 0 "([], [])"] len
    by (simp add: public_defs)
qed

theorem intersect_idx_correct_witness:
  "intersect_idx (set_example [0, 1, 2, 3, 4]) (set_example [-1, 1, 2, 5, 6]) = Inr ([2, 3], [2, 3]) \<and>
   intersect_idx (set_example [1, 2]) (set_example [1, 5]) = Inl (OutOfRange ''subscript out of bounds'')"
  using intersect_idx_correct [OF set_example_inv set_example_inv, of "[0, 1, 2, 3, 4]" "[-1, 1, 2, 5, 6]"]
    intersect_idx_correct [OF set_example_inv set_example_inv, of "[1, 2]" "[1, 5]"]
  by (simp add: set_example_def SIZE_MAX_def first_matches_def first_pos_def upt_rec)

text \<open>\<open>setdiff_idx\<close> on operands without repetitions returns the 1-based positions, in the sorted
  operands, of the elements of each that do not occur in the other.\<close>

theorem setdiff_idx_correct:
  assumes "vec_inv (<) v1" and "vec_inv (<) v2" and "distinct (elems v1)" and "distinct (elems v2)"
  defines "s1 \<equiv> sort (elems v1)" and "s2 \<equiv> sort (elems v2)"
  shows "setdiff_idx v1 v2 =
    (map Suc (filter (\<lambda>i. s1 ! i \<notin> set s2) [0..<length s1]),
     map Suc (filter (\<lambda>i. s2 ! i \<notin> set s1) [0..<length s2]))"
proof -
  have "elems (sort_unless_ordered v1) = s1" "elems (sort_unless_ordered v2) = s2"
    using assms(1,2) by (simp_all add: sort_unless_ordered_sorted s1_def s2_def)
  moreover have "sorted_wrt (<) s1" "sorted_wrt (<) s2"
    using assms(3,4) by (simp_all add: s1_def s2_def strict_sorted_iff)
  ultimately show ?thesis
    by (simp add: public_defs setdiff_idx_helper_correct)
qed

theorem setdiff_idx_correct_witness:
  "setdiff_idx (set_example [1, 2, 3, 4]) (set_example [2, 3, 5]) = ([1, 4], [3])"
  using setdiff_idx_correct [OF set_example_inv set_example_inv, of "[1, 2, 3, 4]" "[2, 3, 5]"]
  by (simp add: set_example_def upt_rec)

text \<open>The positions are those in the sorted copy: for the operand \<open>[4, 1]\<close> the element 4, at position 1 of
  the operand, is reported at position 2, although a comment in \<open>conditional_sort_idx_helper\<close> says that
  the result needs to be translated back.\<close>

lemma setdiff_idx_not_translated:
  "setdiff_idx (set_example [4, 1]) (set_example [1]) = ([2], [])"
  by (simp add: public_defs set_example_def sort_unless_ordered_def setdiff_idx_helper.simps)

text \<open>\<open>union_idx_helper\<close> compares \<open>v2[i2]\<close> with \<open>v1[i2 - 1]\<close> instead of \<open>v2[i2 - 1]\<close>: it throws when the
  first operand is too short for that subscript, and reports a repeated element twice.\<close>

lemma union_idx_reads_wrong_vector:
  "union_idx (set_example [9]) (set_example [1, 2, 3]) = Inl (OutOfRange ''subscript out of bounds'') \<and>
   union_idx (set_example [3, 9]) (set_example [1, 3, 3]) =
     Inr ([None, Some 1, None, Some 2], [Some 1, Some 2, Some 3, None])"
  by (simp add: public_defs set_example_def sort_unless_ordered_def union_idx_helper_def
      union_idx_scan.simps idx_rest.simps vec_at_def)

end
