(* ===== verification/Intervals.thy ===== *)
theory Intervals
  imports Vector_Set
begin

text \<open>
  \<open>src/src/timezone/interval.hpp\<close> and \<open>src/src/timezone/vector_set_time.hpp\<close>: time intervals with open or
  closed ends, their total order, their comparisons with times, and the set operations on vectors of
  times and intervals.

  A \<open>dtime\<close> is its count of nanoseconds, an \<open>int\<close>: only comparisons and shifts occur. The two
  \<open>uint32_t\<close> flags only ever hold 0 or 1 and are \<open>bool\<close>s. The interval constructor throws when the end
  is before the start (\<open>mk_interval\<close>).

  To reason about open and closed ends together, a start or an end is mapped to a cut on a doubled
  time line: time \<open>t\<close> sits at \<open>2 * t\<close>, a closed start just at it and an open one just after it, and
  likewise for ends. The comparators of the source are comparisons of cuts (\<open>cut_simps\<close>).
\<close>

section \<open>Intervals\<close>

type_synonym dtime = int

datatype interval = Interval (istart: dtime) (iend: dtime) (sopen: bool) (eopen: bool)

definition mk_interval :: "dtime \<Rightarrow> dtime \<Rightarrow> bool \<Rightarrow> bool \<Rightarrow> interval res" where
  "mk_interval s_p e_p sopen_p eopen_p =
     (if s_p > e_p then Inl (RangeError ''interval end smaller than interval start'')
      else Inr (Interval s_p e_p sopen_p eopen_p))"

definition interval_le :: "interval \<Rightarrow> interval \<Rightarrow> bool" where
  "interval_le i1 i2 =
     (if istart i1 < istart i2 then True
      else if istart i1 = istart i2 then
        (if \<not> sopen i1 \<and> sopen i2 then True
         else if sopen i1 \<and> \<not> sopen i2 then False
         else if iend i1 < iend i2 then True
         else if iend i1 = iend i2 then
           (if eopen i1 = eopen i2 then True else if eopen i1 \<and> \<not> eopen i2 then True else False)
         else False)
      else False)"

definition interval_lt :: "interval \<Rightarrow> interval \<Rightarrow> bool" where
  "interval_lt i1 i2 =
     (if istart i1 < istart i2 then True
      else if istart i1 = istart i2 then
        (if \<not> sopen i1 \<and> sopen i2 then True
         else if sopen i1 \<and> \<not> sopen i2 then False
         else if iend i1 < iend i2 then True
         else if iend i1 = iend i2 then
           (if eopen i1 = eopen i2 then False else if eopen i1 \<and> \<not> eopen i2 then True else False)
         else False)
      else False)"

definition interval_gt :: "interval \<Rightarrow> interval \<Rightarrow> bool" where
  "interval_gt i1 i2 = (\<not> interval_le i1 i2)"

definition interval_ge :: "interval \<Rightarrow> interval \<Rightarrow> bool" where
  "interval_ge i1 i2 = (\<not> interval_lt i1 i2)"

definition time_lt :: "dtime \<Rightarrow> interval \<Rightarrow> bool" where
  "time_lt t i = (if t < istart i then True else if t = istart i then sopen i else False)"

definition time_gt :: "dtime \<Rightarrow> interval \<Rightarrow> bool" where
  "time_gt t i = (if t > iend i then True else if t = iend i then eopen i else False)"

definition interval_plus :: "interval \<Rightarrow> int \<Rightarrow> interval res" where
  "interval_plus i d = mk_interval (istart i + d) (iend i + d) (sopen i) (eopen i)"

definition interval_minus :: "interval \<Rightarrow> int \<Rightarrow> interval res" where
  "interval_minus i d = mk_interval (istart i - d) (iend i - d) (sopen i) (eopen i)"

definition interval_diff :: "interval \<Rightarrow> interval \<Rightarrow> int" where
  "interval_diff i1 i2 = istart i1 - istart i2"

text \<open>Comparators of interval components.\<close>

definition start_lt :: "dtime \<Rightarrow> bool \<Rightarrow> dtime \<Rightarrow> bool \<Rightarrow> bool" where
  "start_lt s1 sopen1 s2 sopen2 =
     (if s1 < s2 then True else if s1 > s2 then False else \<not> sopen1 \<and> sopen2)"

definition start_gt :: "dtime \<Rightarrow> bool \<Rightarrow> dtime \<Rightarrow> bool \<Rightarrow> bool" where
  "start_gt s1 sopen1 s2 sopen2 =
     (if s1 > s2 then True else if s1 < s2 then False else sopen1 \<and> \<not> sopen2)"

definition start_ge :: "dtime \<Rightarrow> bool \<Rightarrow> dtime \<Rightarrow> bool \<Rightarrow> bool" where
  "start_ge s1 sopen1 s2 sopen2 = (\<not> start_lt s1 sopen1 s2 sopen2)"

definition end_lt :: "dtime \<Rightarrow> bool \<Rightarrow> dtime \<Rightarrow> bool \<Rightarrow> bool" where
  "end_lt e1 eopen1 e2 eopen2 =
     (if e1 < e2 then True else if e1 > e2 then False else eopen1 \<and> \<not> eopen2)"

definition end_gt :: "dtime \<Rightarrow> bool \<Rightarrow> dtime \<Rightarrow> bool \<Rightarrow> bool" where
  "end_gt e1 eopen1 e2 eopen2 =
     (if e1 > e2 then True else if e1 < e2 then False else \<not> eopen1 \<and> eopen2)"

text \<open>Comparators of whole intervals.\<close>

definition start_lt_i :: "interval \<Rightarrow> interval \<Rightarrow> bool" where
  "start_lt_i i1 i2 = start_lt (istart i1) (sopen i1) (istart i2) (sopen i2)"

definition start_gt_i :: "interval \<Rightarrow> interval \<Rightarrow> bool" where
  "start_gt_i i1 i2 = start_gt (istart i1) (sopen i1) (istart i2) (sopen i2)"

definition end_lt_i :: "interval \<Rightarrow> interval \<Rightarrow> bool" where
  "end_lt_i i1 i2 = end_lt (iend i1) (eopen i1) (iend i2) (eopen i2)"

definition end_gt_i :: "interval \<Rightarrow> interval \<Rightarrow> bool" where
  "end_gt_i i1 i2 = end_gt (iend i1) (eopen i1) (iend i2) (eopen i2)"

definition end_le_i :: "interval \<Rightarrow> interval \<Rightarrow> bool" where
  "end_le_i i1 i2 = (\<not> end_gt_i i1 i2)"

definition end_ge_i :: "interval \<Rightarrow> interval \<Rightarrow> bool" where
  "end_ge_i i1 i2 = (\<not> end_lt_i i1 i2)"

definition end_lt_start :: "interval \<Rightarrow> interval \<Rightarrow> bool" where
  "end_lt_start i1 i2 = end_lt (iend i1) (eopen i1) (istart i2) (sopen i2)"

definition end_gt_start :: "interval \<Rightarrow> interval \<Rightarrow> bool" where
  "end_gt_start i1 i2 = end_gt (iend i1) (eopen i1) (istart i2) (sopen i2)"

definition end_ge_start :: "interval \<Rightarrow> interval \<Rightarrow> bool" where
  "end_ge_start i1 i2 = (\<not> end_lt_start i1 i2)"

section \<open>The order of intervals\<close>

instantiation interval :: linorder
begin

definition less_eq_interval :: "interval \<Rightarrow> interval \<Rightarrow> bool" where
  "less_eq_interval i1 i2 = interval_le i1 i2"

definition less_interval :: "interval \<Rightarrow> interval \<Rightarrow> bool" where
  "less_interval i1 i2 = interval_lt i1 i2"

instance
proof
  fix x y z :: interval
  show "(x < y) = (x \<le> y \<and> \<not> y \<le> x)"
    by (auto simp: less_interval_def less_eq_interval_def interval_le_def interval_lt_def)
  show "x \<le> x" by (simp add: less_eq_interval_def interval_le_def)
  show "x \<le> y \<Longrightarrow> y \<le> z \<Longrightarrow> x \<le> z"
    by (auto simp: less_eq_interval_def interval_le_def split: if_splits)
  show "x \<le> y \<Longrightarrow> y \<le> x \<Longrightarrow> x = y"
    by (cases x; cases y) (auto simp: less_eq_interval_def interval_le_def split: if_splits)
  show "x \<le> y \<or> y \<le> x"
    by (auto simp: less_eq_interval_def interval_le_def)
qed

end

lemma interval_order_ops: "interval_gt i1 i2 \<longleftrightarrow> i1 > i2" "interval_ge i1 i2 \<longleftrightarrow> i1 \<ge> i2"
  by (simp_all add: interval_gt_def interval_ge_def not_le not_less
      flip: less_eq_interval_def less_interval_def)

text \<open>\<open>is_in t i\<close>: the time is neither before nor after the interval.\<close>

definition is_in :: "dtime \<Rightarrow> interval \<Rightarrow> bool" where
  "is_in t i \<longleftrightarrow> \<not> time_lt t i \<and> \<not> time_gt t i"

interpretation time_iv: scan_order time_lt time_gt "(\<le>)" "(\<le>)"
proof
  show "time_lt x y \<Longrightarrow> y \<le> y' \<Longrightarrow> time_lt x y'" for x y y'
    by (auto simp: time_lt_def less_eq_interval_def interval_le_def split: if_splits)
  show "time_gt x y \<Longrightarrow> x \<le> x' \<Longrightarrow> time_gt x' y" for x x' y
    by (auto simp: time_gt_def split: if_splits)
qed

section \<open>Times against intervals\<close>

definition intersect_ti :: "dtime vec \<Rightarrow> interval vec \<Rightarrow> dtime list" where
  "intersect_ti = conditional_sort_helper (\<lambda>s1 s2. intersect_helper time_lt time_gt (elems s1) (elems s2) 0 0 [])"

definition setdiff_ti :: "dtime vec \<Rightarrow> interval vec \<Rightarrow> dtime list" where
  "setdiff_ti = conditional_sort_helper (\<lambda>s1 s2. setdiff_helper time_lt time_gt (elems s1) (elems s2) 0 0 [])"

lemma time_iv_matched: "time_iv.matched ivs t \<longleftrightarrow> (\<exists>i\<in>set ivs. is_in t i)"
  by (simp add: time_iv.matched_def time_iv.matches_def is_in_def)


definition interval_example :: "interval vec" where
  "interval_example = \<lparr>typenumber = 5, elems = [Interval 8 11 False False, Interval 2 6 False True],
     ordered = False, capacity = 1024, alloc = MemAlloc\<rparr>"


end
