(* ===== verification/Interval_Set.thy ===== *)
theory Interval_Set
  imports Intervals
begin

text \<open>
  \<open>src/src/timezone/vector_set_time.hpp\<close>: the specialisations of the set operations for two vectors of
  intervals. The loops are translated with their counters, pending start and early exits; every
  result interval goes through the throwing constructor. The operands are lists of intervals here
  except where the source reads an element before checking that there is one (\<open>setdiff\<close>).

  Points are counted on the doubled time line of \<open>Intervals\<close>: \<open>covers\<close> says that a cut position lies in an
  interval, so that a theorem about all positions speaks about all times and about the ends between them.
\<close>

section \<open>Intersection\<close>

function intersect_ii :: "interval list \<Rightarrow> interval list \<Rightarrow> nat \<Rightarrow> nat \<Rightarrow> interval list \<Rightarrow> interval list res" where
  "intersect_ii v1 v2 i1 i2 res =
     (if i1 < length v1 \<and> i2 < length v2 then
        let a = v1 ! i1; b = v2 ! i2 in
        if istart a \<ge> iend b then intersect_ii v1 v2 (i1 + 1) i2 res
        else if istart b \<ge> iend a then intersect_ii v1 v2 (i1 + 1) i2 res
        else
          let v1_gt_v2 = start_gt_i a b;
              start = (if v1_gt_v2 then istart a else istart b);
              so = (if v1_gt_v2 then sopen a else sopen b)
          in if end_lt_i a b then
               (case mk_interval start (iend a) so (eopen a) of
                  Inl e \<Rightarrow> Inl e | Inr iv \<Rightarrow> intersect_ii v1 v2 (i1 + 1) i2 (res @ [iv]))
             else
               (case mk_interval start (iend b) so (eopen b) of
                  Inl e \<Rightarrow> Inl e | Inr iv \<Rightarrow> intersect_ii v1 v2 i1 (i2 + 1) (res @ [iv]))
      else Inr res)"
  by pat_completeness auto
termination
  by (relation "measure (\<lambda>(v1, v2, i1, i2, res). (length v1 - i1) + (length v2 - i2))") auto

section \<open>Union\<close>

text \<open>The \<open>for (;;)\<close> loop; both counters are in range on entry. It ends with the counters from which the
  closing loops copy the rest.\<close>

function union_ii_loop :: "interval list \<Rightarrow> interval list \<Rightarrow> nat \<Rightarrow> nat \<Rightarrow> dtime \<Rightarrow> bool \<Rightarrow> interval list
    \<Rightarrow> (nat \<times> nat \<times> interval list) res" where
  "union_ii_loop v1 v2 i1 i2 start so res =
     (if \<not> (i1 < length v1 \<and> i2 < length v2) then Inl UB
      else
        let a = v1 ! i1; b = v2 ! i2 in
        if end_ge_start a b \<and> end_le_i a b then
          (if i1 + 1 \<ge> length v1 then
             bindR (mk_interval start (iend b) so (eopen b)) (\<lambda>iv. Inr (i1 + 1, i2 + 1, res @ [iv]))
           else union_ii_loop v1 v2 (i1 + 1) i2 start so res)
        else if end_ge_start b a \<and> end_le_i b a then
          (if i2 + 1 \<ge> length v2 then
             bindR (mk_interval start (iend a) so (eopen a)) (\<lambda>iv. Inr (i1 + 1, i2 + 1, res @ [iv]))
           else union_ii_loop v1 v2 i1 (i2 + 1) start so res)
        else
          (let (j1, j2, e, eo) = (if end_lt_i a b then (i1 + 1, i2, iend a, eopen a)
                                  else (i1, i2 + 1, iend b, eopen b))
           in case mk_interval start e so eo of
                Inl x \<Rightarrow> Inl x
              | Inr iv \<Rightarrow>
                (if j1 < length v1 \<and> j2 < length v2
                 then union_ii_loop v1 v2 j1 j2 (min (istart (v1 ! j1)) (istart (v2 ! j2))) so (res @ [iv])
                 else Inr (j1, j2, res @ [iv]))))"
  by pat_completeness auto
termination
  by (relation "measure (\<lambda>(v1, v2, i1, i2, start, so, res). (length v1 - i1) + (length v2 - i2))")
     (auto split: if_splits)

definition union_ii :: "interval list \<Rightarrow> interval list \<Rightarrow> interval list res" where
  "union_ii v1 v2 =
     bindR
       (if length v1 > 0 \<and> length v2 > 0 then
          let v1_lt_v2 = start_lt_i (v1 ! 0) (v2 ! 0);
              start = (if v1_lt_v2 then istart (v1 ! 0) else istart (v2 ! 0));
              so = (if v1_lt_v2 then sopen (v1 ! 0) else sopen (v2 ! 0))
          in union_ii_loop v1 v2 0 0 start so []
        else Inr (0, 0, []))
       (\<lambda>(i1, i2, res). Inr (res @ drop i1 v1 @ drop i2 v2))"

section \<open>Difference\<close>

function setdiff_ii_loop :: "interval list \<Rightarrow> interval list \<Rightarrow> nat \<Rightarrow> nat \<Rightarrow> dtime \<Rightarrow> bool \<Rightarrow> interval list
    \<Rightarrow> interval list res" where
  "setdiff_ii_loop v1 v2 i1 i2 start so res =
     (if i1 < length v1 \<and> i2 < length v2 then
        let a = v1 ! i1; b = v2 ! i2;
            next_v1 = (\<lambda>r. if i1 + 1 \<ge> length v1 then Inr r
                           else setdiff_ii_loop v1 v2 (i1 + 1) i2 (istart (v1 ! (i1 + 1))) (sopen (v1 ! (i1 + 1))) r)
        in
        if end_lt_start a b then
          bindR (mk_interval start (iend a) so (eopen a)) (\<lambda>iv. next_v1 (res @ [iv]))
        else if start_lt (iend b) (eopen b) start so then setdiff_ii_loop v1 v2 i1 (i2 + 1) start so res
        else if start_lt start so (istart b) (sopen b) then
          bindR (mk_interval start (istart b) so (\<not> sopen b)) (\<lambda>iv.
            if end_gt_i a b
            then setdiff_ii_loop v1 v2 i1 (i2 + 1) (iend b) (\<not> eopen b) (res @ [iv])
            else next_v1 (res @ [iv]))
        else if start_ge start so (istart b) (sopen b) \<and> end_ge_i b a then next_v1 res
        else setdiff_ii_loop v1 v2 i1 (i2 + 1) (iend b) (\<not> eopen b) res
      else if i1 < length v1 then
        bindR (mk_interval start (iend (v1 ! i1)) so (eopen (v1 ! i1)))
          (\<lambda>iv. Inr (res @ [iv] @ drop (i1 + 1) v1))
      else Inr res)"
  by pat_completeness auto
termination
  by (relation "measure (\<lambda>(v1, v2, i1, i2, start, so, res). (length v1 - i1) + (length v2 - i2))") auto

definition setdiff_ii :: "interval vec \<Rightarrow> interval list \<Rightarrow> interval list res" where
  "setdiff_ii v1 v2 =
     bindR (vec_at v1 0) (\<lambda>a. setdiff_ii_loop (elems v1) v2 0 0 (istart a) (sopen a) [])"

declare intersect_ii.simps [simp del] union_ii_loop.simps [simp del] setdiff_ii_loop.simps [simp del]

section \<open>Cuts\<close>

definition scut :: "dtime \<Rightarrow> bool \<Rightarrow> int" where
  "scut s so = 2 * s + (if so then 1 else 0)"

definition ecut :: "dtime \<Rightarrow> bool \<Rightarrow> int" where
  "ecut e eo = 2 * e + (if eo then 0 else 1)"

abbreviation lo :: "interval \<Rightarrow> int" where
  "lo i \<equiv> scut (istart i) (sopen i)"

abbreviation hi :: "interval \<Rightarrow> int" where
  "hi i \<equiv> ecut (iend i) (eopen i)"

definition covers :: "interval \<Rightarrow> int \<Rightarrow> bool" where
  "covers i p \<longleftrightarrow> lo i \<le> p \<and> p < hi i"

definition covered :: "interval list \<Rightarrow> int \<Rightarrow> bool" where
  "covered ivs p \<longleftrightarrow> (\<exists>i\<in>set ivs. covers i p)"

named_theorems cut_simps \<open>comparators of interval ends as comparisons of cuts\<close>

lemma is_in_covers: "is_in t i \<longleftrightarrow> covers i (2 * t)"
  by (auto simp: is_in_def covers_def time_lt_def time_gt_def scut_def ecut_def)

lemma start_lt_cut [cut_simps]: "start_lt s1 o1 s2 o2 \<longleftrightarrow> scut s1 o1 < scut s2 o2"
  by (auto simp: start_lt_def scut_def)

lemma start_gt_cut [cut_simps]: "start_gt s1 o1 s2 o2 \<longleftrightarrow> scut s1 o1 > scut s2 o2"
  by (auto simp: start_gt_def scut_def)

lemma start_ge_cut [cut_simps]: "start_ge s1 o1 s2 o2 \<longleftrightarrow> scut s1 o1 \<ge> scut s2 o2"
  by (auto simp: start_ge_def start_lt_cut)

lemma end_lt_cut [cut_simps]: "end_lt e1 o1 e2 o2 \<longleftrightarrow> ecut e1 o1 < ecut e2 o2"
  by (auto simp: end_lt_def ecut_def)

lemma end_gt_cut [cut_simps]: "end_gt e1 o1 e2 o2 \<longleftrightarrow> ecut e1 o1 > ecut e2 o2"
  by (auto simp: end_gt_def ecut_def)

lemmas comparator_cuts = cut_simps start_lt_i_def start_gt_i_def end_lt_i_def end_gt_i_def end_le_i_def
  end_ge_i_def end_lt_start_def end_ge_start_def

lemma mk_interval_ok: "scut s so < ecut e eo \<Longrightarrow> mk_interval s e so eo = Inr (Interval s e so eo)"
  by (auto simp: mk_interval_def scut_def ecut_def split: if_splits)

lemma covered_Nil [simp]: "\<not> covered [] p"
  by (simp add: covered_def)

lemma covered_Cons [simp]: "covered (i # ivs) p \<longleftrightarrow> covers i p \<or> covered ivs p"
  by (simp add: covered_def)

lemma covered_append [simp]: "covered (xs @ ys) p \<longleftrightarrow> covered xs p \<or> covered ys p"
  by (auto simp: covered_def)

text \<open>The operands of the correctness theorems: non-empty intervals in order, without overlap.\<close>

definition separate :: "interval list \<Rightarrow> bool" where
  "separate ivs \<longleftrightarrow> (\<forall>i\<in>set ivs. lo i < hi i) \<and> sorted_wrt (\<lambda>i j. hi i \<le> lo j) ivs"

lemma separate_drop: "separate ivs \<Longrightarrow> separate (drop n ivs)"
  by (auto simp: separate_def sorted_wrt_drop dest: in_set_dropD)

lemma separate_tail:
  assumes "separate ivs" "k < length ivs"
  shows "lo (ivs ! k) < hi (ivs ! k)" and "covered (drop (Suc k) ivs) p \<Longrightarrow> hi (ivs ! k) \<le> p"
    and "Suc k < length ivs \<Longrightarrow> hi (ivs ! k) \<le> lo (ivs ! Suc k)"
proof -
  show "lo (ivs ! k) < hi (ivs ! k)" using assms by (simp add: separate_def)
  show "Suc k < length ivs \<Longrightarrow> hi (ivs ! k) \<le> lo (ivs ! Suc k)"
    using assms sorted_wrt_nth_less [of "\<lambda>i j. hi i \<le> lo j" ivs k "Suc k"] by (auto simp: separate_def)
  assume "covered (drop (Suc k) ivs) p"
  then obtain j where "Suc k \<le> j" "j < length ivs" "covers (ivs ! j) p"
    by (auto simp: covered_def in_set_drop_iff)
  moreover from this have "hi (ivs ! k) \<le> lo (ivs ! j)"
    using assms sorted_wrt_nth_less [of "\<lambda>i j. hi i \<le> lo j" ivs k j] by (auto simp: separate_def)
  ultimately show "hi (ivs ! k) \<le> p" by (simp add: covers_def)
qed

lemma covered_drop_step: "k < length ivs \<Longrightarrow> covered (drop k ivs) p \<longleftrightarrow> covers (ivs ! k) p \<or> covered (drop (Suc k) ivs) p"
  by (metis Cons_nth_drop_Suc covered_Cons)


section \<open>Difference is exact\<close>

text \<open>Two intervals meet openly when one ends and the other starts at the same time and both exclude it.
  The comparator \<open>end_lt_start\<close> does not see that such intervals are disjoint.\<close>

definition meet_openly :: "interval \<Rightarrow> interval \<Rightarrow> bool" where
  "meet_openly a b \<longleftrightarrow> iend a = istart b \<and> eopen a \<and> sopen b"

definition no_open_meeting :: "interval list \<Rightarrow> interval list \<Rightarrow> bool" where
  "no_open_meeting v1 v2 \<longleftrightarrow> (\<forall>a\<in>set v1. \<forall>b\<in>set v2. \<not> meet_openly a b \<and> \<not> meet_openly b a)"

lemma end_lt_start_cuts:
  "end_lt_start a b \<Longrightarrow> hi a \<le> lo b"
  "\<not> end_lt_start a b \<Longrightarrow> \<not> meet_openly a b \<Longrightarrow> lo b \<le> hi a"
  by (auto simp: end_lt_start_def end_lt_def scut_def ecut_def meet_openly_def split: if_splits)

lemma start_lt_end_cuts:
  "start_lt (iend b) (eopen b) s so \<Longrightarrow> hi b \<le> scut s so"
  "\<not> start_lt (iend b) (eopen b) s so \<Longrightarrow> \<not> (iend b = s \<and> eopen b \<and> so) \<Longrightarrow> scut s so \<le> hi b"
  by (auto simp: start_lt_def scut_def ecut_def split: if_splits)

lemma flipped_cuts [simp]: "scut e (\<not> eo) = ecut e eo" "ecut s (\<not> so) = scut s so"
  by (simp_all add: scut_def ecut_def)

lemma covers_Interval [simp]: "covers (Interval s e so eo) p \<longleftrightarrow> scut s so \<le> p \<and> p < ecut e eo"
  by (simp add: covers_def)

lemma mk_interval_cut: "scut s so < ecut e eo \<or> scut s so \<le> ecut e eo \<and> even (scut s so + ecut e eo) \<Longrightarrow>
    mk_interval s e so eo = Inr (Interval s e so eo)"
  by (auto simp: mk_interval_def scut_def ecut_def split: if_splits)

text \<open>What remains to be produced: from the cut \<open>c\<close> in the current interval of the first operand on, or from
  the next interval on.\<close>

definition setdiff_here :: "interval list \<Rightarrow> interval list \<Rightarrow> nat \<Rightarrow> nat \<Rightarrow> int \<Rightarrow> interval list \<Rightarrow> interval list \<Rightarrow> bool" where
  "setdiff_here v1 v2 i1 i2 c res r \<longleftrightarrow> (\<forall>p. covered r p \<longleftrightarrow> covered res p \<or>
     ((c \<le> p \<and> p < hi (v1 ! i1) \<or> covered (drop (Suc i1) v1) p) \<and> \<not> covered (drop i2 v2) p))"

definition setdiff_next :: "interval list \<Rightarrow> interval list \<Rightarrow> nat \<Rightarrow> nat \<Rightarrow> interval list \<Rightarrow> interval list \<Rightarrow> bool" where
  "setdiff_next v1 v2 i1 i2 res r \<longleftrightarrow> (\<forall>p. covered r p \<longleftrightarrow> covered res p \<or>
     (covered (drop (Suc i1) v1) p \<and> \<not> covered (drop i2 v2) p))"

lemma setdiff_here_next:
  "separate v1 \<Longrightarrow> Suc i1 < length v1 \<Longrightarrow>
     setdiff_here v1 v2 (Suc i1) i2 (lo (v1 ! Suc i1)) res r \<longleftrightarrow> setdiff_next v1 v2 i1 i2 res r"
  by (simp add: setdiff_here_def setdiff_next_def covered_drop_step [of "Suc i1" v1] covers_def)

lemmas setdiff_hereD = setdiff_here_def [THEN iffD1, THEN spec]
lemmas setdiff_nextD = setdiff_next_def [THEN iffD1, THEN spec]

text \<open>One step of the loop, position by position: what the tails cover lies behind the current intervals.\<close>

lemma setdiff_hereI:
  assumes "separate v1" "separate v2" "i1 < length v1" "i2 < length v2"
    and "\<And>p. (covered (drop (Suc i1) v1) p \<Longrightarrow> hi (v1 ! i1) \<le> p) \<Longrightarrow>
       (covered (drop (Suc i2) v2) p \<Longrightarrow> hi (v2 ! i2) \<le> p) \<Longrightarrow> lo (v2 ! i2) < hi (v2 ! i2) \<Longrightarrow>
       covered r p \<longleftrightarrow> covered res p \<or> ((c \<le> p \<and> p < hi (v1 ! i1) \<or> covered (drop (Suc i1) v1) p) \<and>
         \<not> (lo (v2 ! i2) \<le> p \<and> p < hi (v2 ! i2)) \<and> \<not> covered (drop (Suc i2) v2) p)"
  shows "setdiff_here v1 v2 i1 i2 c res r"
  unfolding setdiff_here_def covered_drop_step [OF assms(4)] covers_def de_Morgan_disj
  using assms(5) separate_tail [OF assms(1,3)] separate_tail [OF assms(2,4)] by blast

lemma here_before:
  assumes "separate v1" "separate v2" "i1 < length v1" "i2 < length v2" "hi (v1 ! i1) \<le> lo (v2 ! i2)"
    and "setdiff_next v1 v2 i1 i2 (res @ [Interval s (iend (v1 ! i1)) so (eopen (v1 ! i1))]) r"
  shows "setdiff_here v1 v2 i1 i2 (scut s so) res r"
proof (rule setdiff_hereI [OF assms(1-4)], goal_cases)
  case (1 p)
  with setdiff_nextD [OF assms(6), of p] assms(5) show ?case
    by (cases "covered res p"; cases "covered (drop (Suc i2) v2) p"; cases "covered (drop (Suc i1) v1) p")
       (auto simp: covered_drop_step [OF assms(4)] covers_def)
qed

lemma here_skip:
  assumes "separate v1" "separate v2" "i1 < length v1" "i2 < length v2" "hi (v2 ! i2) \<le> c" "c < hi (v1 ! i1)"
    and "setdiff_here v1 v2 i1 (Suc i2) c res r"
  shows "setdiff_here v1 v2 i1 i2 c res r"
proof (rule setdiff_hereI [OF assms(1-4)], goal_cases)
  case (1 p)
  with setdiff_hereD [OF assms(7), of p] assms(5,6) show ?case
    by (cases "covered res p"; cases "covered (drop (Suc i2) v2) p"; cases "covered (drop (Suc i1) v1) p") auto
qed

lemma here_cut:
  assumes "separate v1" "separate v2" "i1 < length v1" "i2 < length v2"
    and "scut s so < lo (v2 ! i2)" "hi (v2 ! i2) < hi (v1 ! i1)"
    and "setdiff_here v1 v2 i1 (Suc i2) (hi (v2 ! i2))
           (res @ [Interval s (istart (v2 ! i2)) so (\<not> sopen (v2 ! i2))]) r"
  shows "setdiff_here v1 v2 i1 i2 (scut s so) res r"
proof (rule setdiff_hereI [OF assms(1-4)], goal_cases)
  case (1 p)
  with setdiff_hereD [OF assms(7), of p] assms(5,6) show ?case
    by (cases "covered res p"; cases "covered (drop (Suc i2) v2) p"; cases "covered (drop (Suc i1) v1) p") auto
qed

lemma here_cut_end:
  assumes "separate v1" "separate v2" "i1 < length v1" "i2 < length v2"
    and "scut s so < lo (v2 ! i2)" "lo (v2 ! i2) \<le> hi (v1 ! i1)" "hi (v1 ! i1) \<le> hi (v2 ! i2)"
    and "setdiff_next v1 v2 i1 i2 (res @ [Interval s (istart (v2 ! i2)) so (\<not> sopen (v2 ! i2))]) r"
  shows "setdiff_here v1 v2 i1 i2 (scut s so) res r"
proof (rule setdiff_hereI [OF assms(1-4)], goal_cases)
  case (1 p)
  with setdiff_nextD [OF assms(8), of p] assms(5-7) show ?case
    by (cases "covered res p"; cases "covered (drop (Suc i2) v2) p"; cases "covered (drop (Suc i1) v1) p")
       (auto simp: covered_drop_step [OF assms(4)] covers_def)
qed

lemma here_inside:
  assumes "separate v1" "separate v2" "i1 < length v1" "i2 < length v2"
    and "lo (v2 ! i2) \<le> c" "hi (v1 ! i1) \<le> hi (v2 ! i2)" "setdiff_next v1 v2 i1 i2 res r"
  shows "setdiff_here v1 v2 i1 i2 c res r"
proof (rule setdiff_hereI [OF assms(1-4)], goal_cases)
  case (1 p)
  with setdiff_nextD [OF assms(7), of p] assms(5,6) show ?case
    by (cases "covered res p"; cases "covered (drop (Suc i2) v2) p"; cases "covered (drop (Suc i1) v1) p")
       (auto simp: covered_drop_step [OF assms(4)] covers_def)
qed

lemma here_tail:
  assumes "separate v1" "separate v2" "i1 < length v1" "i2 < length v2"
    and "lo (v2 ! i2) \<le> c" "c \<le> hi (v2 ! i2)" "hi (v2 ! i2) < hi (v1 ! i1)"
    and "setdiff_here v1 v2 i1 (Suc i2) (hi (v2 ! i2)) res r"
  shows "setdiff_here v1 v2 i1 i2 c res r"
proof (rule setdiff_hereI [OF assms(1-4)], goal_cases)
  case (1 p)
  with setdiff_hereD [OF assms(8), of p] assms(5-7) show ?case
    by (cases "covered res p"; cases "covered (drop (Suc i2) v2) p"; cases "covered (drop (Suc i1) v1) p") auto
qed

definition setdiff_ready :: "interval list \<Rightarrow> interval list \<Rightarrow> nat \<Rightarrow> nat \<Rightarrow> dtime \<Rightarrow> bool \<Rightarrow> bool" where
  "setdiff_ready v1 v2 i1 i2 s so \<longleftrightarrow> i1 < length v1 \<and> scut s so < hi (v1 ! i1) \<and>
     (s = istart (v1 ! i1) \<and> so = sopen (v1 ! i1) \<or> (\<forall>j. i2 \<le> j \<longrightarrow> j < length v2 \<longrightarrow> scut s so \<le> lo (v2 ! j)))"

lemma ready_next:
  "separate v1 \<Longrightarrow> Suc i1 < length v1 \<Longrightarrow>
     setdiff_ready v1 v2 (Suc i1) i2 (istart (v1 ! Suc i1)) (sopen (v1 ! Suc i1))"
  using separate_tail(1) by (simp add: setdiff_ready_def)

lemma ready_skip: "setdiff_ready v1 v2 i1 i2 s so \<Longrightarrow> setdiff_ready v1 v2 i1 (Suc i2) s so"
  by (auto simp: setdiff_ready_def)

lemma separate_later: "separate ivs \<Longrightarrow> k < j \<Longrightarrow> j < length ivs \<Longrightarrow> hi (ivs ! k) \<le> lo (ivs ! j)"
  unfolding separate_def using sorted_wrt_nth_less [of "\<lambda>i j. hi i \<le> lo j" ivs k j] by blast

lemma ready_after:
  "setdiff_ready v1 v2 i1 i2 s so \<Longrightarrow> separate v2 \<Longrightarrow> i2 < length v2 \<Longrightarrow> hi (v2 ! i2) < hi (v1 ! i1) \<Longrightarrow>
     setdiff_ready v1 v2 i1 (Suc i2) (iend (v2 ! i2)) (\<not> eopen (v2 ! i2))"
  using separate_later [of v2 i2] by (auto simp: setdiff_ready_def)

lemma ready_reached:
  assumes "setdiff_ready v1 v2 i1 i2 s so" "separate v2" "i2 < length v2" "no_open_meeting v1 v2"
    "\<not> start_lt (iend (v2 ! i2)) (eopen (v2 ! i2)) s so"
  shows "scut s so \<le> hi (v2 ! i2)"
proof (cases "s = istart (v1 ! i1) \<and> so = sopen (v1 ! i1)")
  case True
  have "v1 ! i1 \<in> set v1" "v2 ! i2 \<in> set v2" using assms(1,3) by (auto simp: setdiff_ready_def)
  with assms(4) have "\<not> meet_openly (v2 ! i2) (v1 ! i1)" by (auto simp: no_open_meeting_def)
  with assms(5) True show ?thesis by (intro start_lt_end_cuts(2)) (auto simp: meet_openly_def)
next
  case False
  with assms(1,3) have "scut s so \<le> lo (v2 ! i2)" by (auto simp: setdiff_ready_def)
  with separate_tail(1) [OF assms(2,3)] show ?thesis by simp
qed

definition setdiff_rest :: "interval list \<Rightarrow> interval list \<Rightarrow> nat \<Rightarrow> nat \<Rightarrow> interval list \<Rightarrow> interval list res" where
  "setdiff_rest v1 v2 i1 i2 r =
     (if i1 + 1 \<ge> length v1 then Inr r
      else setdiff_ii_loop v1 v2 (i1 + 1) i2 (istart (v1 ! (i1 + 1))) (sopen (v1 ! (i1 + 1))) r)"

lemma setdiff_loop_unfold:
  assumes "i1 < length v1" "i2 < length v2"
  shows "setdiff_ii_loop v1 v2 i1 i2 s so res =
    (if end_lt_start (v1 ! i1) (v2 ! i2)
     then bindR (mk_interval s (iend (v1 ! i1)) so (eopen (v1 ! i1))) (\<lambda>iv. setdiff_rest v1 v2 i1 i2 (res @ [iv]))
     else if start_lt (iend (v2 ! i2)) (eopen (v2 ! i2)) s so then setdiff_ii_loop v1 v2 i1 (i2 + 1) s so res
     else if start_lt s so (istart (v2 ! i2)) (sopen (v2 ! i2)) then
       bindR (mk_interval s (istart (v2 ! i2)) so (\<not> sopen (v2 ! i2))) (\<lambda>iv.
         if end_gt_i (v1 ! i1) (v2 ! i2)
         then setdiff_ii_loop v1 v2 i1 (i2 + 1) (iend (v2 ! i2)) (\<not> eopen (v2 ! i2)) (res @ [iv])
         else setdiff_rest v1 v2 i1 i2 (res @ [iv]))
     else if start_ge s so (istart (v2 ! i2)) (sopen (v2 ! i2)) \<and> end_ge_i (v2 ! i2) (v1 ! i1)
     then setdiff_rest v1 v2 i1 i2 res
     else setdiff_ii_loop v1 v2 i1 (i2 + 1) (iend (v2 ! i2)) (\<not> eopen (v2 ! i2)) res)"
  using assms by (subst setdiff_ii_loop.simps) (simp only: Let_def setdiff_rest_def simp_thms if_True)

lemma setdiff_ii_loop_exact:
  assumes v: "separate v1" "separate v2" "no_open_meeting v1 v2"
  shows "setdiff_ready v1 v2 i1 i2 s so \<Longrightarrow>
    \<exists>r. setdiff_ii_loop v1 v2 i1 i2 s so res = Inr r \<and> setdiff_here v1 v2 i1 i2 (scut s so) res r"
proof (induction "(length v1 - i1) + (length v2 - i2)" arbitrary: i1 i2 s so res rule: less_induct)
  case less
  note R = less.prems
  from R have i1: "i1 < length v1" and c: "scut s so < hi (v1 ! i1)" by (auto simp: setdiff_ready_def)
  show ?case
  proof (cases "i2 < length v2")
    case False
    then show ?thesis using i1 c
      by (subst setdiff_ii_loop.simps) (auto simp: mk_interval_ok setdiff_here_def)
  next
    case i2: True
    let ?a = "v1 ! i1" and ?b = "v2 ! i2"
    have rest: "\<exists>r. setdiff_rest v1 v2 i1 i2 q = Inr r \<and> setdiff_next v1 v2 i1 i2 q r" for q
    proof (cases "Suc i1 < length v1")
      case True
      with less.hyps [of "Suc i1" i2, OF _ ready_next [OF v(1)]] i1 show ?thesis
        by (auto simp: setdiff_rest_def setdiff_here_next [OF v(1)])
    next
      case False
      then show ?thesis by (simp add: setdiff_rest_def setdiff_next_def)
    qed
    have step: "\<exists>r. setdiff_ii_loop v1 v2 i1 (Suc i2) t to q = Inr r \<and> setdiff_here v1 v2 i1 (Suc i2) (scut t to) q r"
      if "setdiff_ready v1 v2 i1 (Suc i2) t to" for t to q
      using less.hyps [of i1 "Suc i2" t to q] that i2 by simp
    note V = v(1,2) i1 i2
    note unf = setdiff_loop_unfold [OF i1 i2]
    have nm: "\<not> meet_openly ?a ?b" using v(3) i1 i2 by (auto simp: no_open_meeting_def)
    show ?thesis
    proof (cases "end_lt_start ?a ?b")
      case True
      then show ?thesis using rest [of "res @ [Interval s (iend ?a) so (eopen ?a)]"]
          here_before [OF V end_lt_start_cuts(1)] c by (auto simp: unf mk_interval_ok)
    next
      case F1: False
      then have ab: "lo ?b \<le> hi ?a" by (rule end_lt_start_cuts(2) [OF _ nm])
      show ?thesis
      proof (cases "start_lt (iend ?b) (eopen ?b) s so")
        case True
        then show ?thesis using F1 step [OF ready_skip [OF R], of res] here_skip [OF V start_lt_end_cuts(1) c]
          by (auto simp: unf)
      next
        case F2: False
        have cb: "scut s so \<le> hi ?b" by (rule ready_reached [OF R v(2) i2 v(3) F2])
        consider (cut) "scut s so < lo ?b" "hi ?b < hi ?a" | (cut_end) "scut s so < lo ?b" "hi ?a \<le> hi ?b"
          | (inside) "lo ?b \<le> scut s so" "hi ?a \<le> hi ?b" | (tail) "lo ?b \<le> scut s so" "hi ?b < hi ?a"
          by linarith
        then show ?thesis
        proof cases
          case cut
          from step [OF ready_after [OF R v(2) i2 cut(2)], of "res @ [Interval s (istart ?b) so (\<not> sopen ?b)]"]
          show ?thesis using F1 F2 cut here_cut [OF V cut] by (auto simp: unf mk_interval_ok comparator_cuts)
        next
          case cut_end
          then show ?thesis using F1 F2 rest [of "res @ [Interval s (istart ?b) so (\<not> sopen ?b)]"]
              here_cut_end [OF V _ ab] by (auto simp: unf mk_interval_ok comparator_cuts)
        next
          case inside
          then show ?thesis using F1 F2 rest [of res] here_inside [OF V] by (auto simp: unf comparator_cuts)
        next
          case tail
          from step [OF ready_after [OF R v(2) i2 tail(2)], of res]
          show ?thesis using F1 F2 tail here_tail [OF V tail(1) cb tail(2)] by (auto simp: unf comparator_cuts)
        qed
      qed
    qed
  qed
qed


definition interval_vec :: "interval list \<Rightarrow> interval vec" where
  "interval_vec xs = \<lparr>typenumber = 0, elems = xs, ordered = False, capacity = 1024, alloc = MemAlloc\<rparr>"


text \<open>Without the condition on open ends the loop cuts too little: the end at which both intervals are open is put
  into the result. An empty first operand is read before its size is looked at.\<close>

lemma setdiff_open_meeting_adds_point:
  "setdiff_ii (interval_vec [Interval 0 1 False True]) [Interval 1 2 True False] = Inr [Interval 0 1 False False]"
  "setdiff_ii (interval_vec [Interval 1 5 True False]) [Interval 0 1 False True] = Inr [Interval 1 5 False False]"
  by (simp_all add: setdiff_ii_def interval_vec_def vec_at_def size_sub_def setdiff_ii_loop.simps mk_interval_def
        end_lt_start_def start_lt_def end_lt_def start_ge_def end_gt_i_def end_gt_def end_ge_i_def end_lt_i_def)

lemma setdiff_empty_reads_nothing: "setdiff_ii (interval_vec []) v2 = Inl UB"
  by (simp add: setdiff_ii_def interval_vec_def vec_at_def size_sub_def SIZE_MAX_def)

section \<open>Intersection is sound\<close>

lemma overlapping_cuts: "istart a < iend b \<Longrightarrow> lo a < hi b"
  by (auto simp: scut_def ecut_def)

lemma intersect_ii_sound:
  "\<forall>a\<in>set v1 \<union> set v2. lo a < hi a \<Longrightarrow> \<exists>r. intersect_ii v1 v2 i1 i2 res = Inr (res @ r) \<and>
    (\<forall>i\<in>set r. \<exists>a\<in>set v1. \<exists>b\<in>set v2. \<forall>p. covers i p \<longleftrightarrow> covers a p \<and> covers b p)"
proof (induction "(length v1 - i1) + (length v2 - i2)" arbitrary: i1 i2 res rule: less_induct)
  case less
  let ?G = "\<lambda>m. \<exists>r. m = Inr (res @ r) \<and>
    (\<forall>i\<in>set r. \<exists>a\<in>set v1. \<exists>b\<in>set v2. \<forall>p. covers i p \<longleftrightarrow> covers a p \<and> covers b p)"
  show ?case
  proof (cases "i1 < length v1 \<and> i2 < length v2")
    case False
    then show ?thesis by (subst intersect_ii.simps) auto
  next
    case True
    define a b where ab: "a = v1 ! i1" "b = v2 ! i2"
    have mem: "a \<in> set v1" "b \<in> set v2" using True by (simp_all add: ab)
    have next1: "?G (intersect_ii v1 v2 (Suc i1) i2 res)" using True
      by (intro less.hyps [OF _ less.prems]) auto
    have push: "?G (intersect_ii v1 v2 j1 j2 (res @ [i]))"
      if "(length v1 - j1) + (length v2 - j2) < (length v1 - i1) + (length v2 - i2)"
        "\<forall>p. covers i p \<longleftrightarrow> covers a p \<and> covers b p" for i j1 j2
      using less.hyps [OF that(1) less.prems, of "res @ [i]"] that(2) mem by fastforce
    show ?thesis
    proof (cases "istart a < iend b \<and> istart b < iend a")
      case False
      then show ?thesis using True next1 by (subst intersect_ii.simps) (auto simp: ab [symmetric])
    next
      case ov: True
      have c: "lo a < hi b" "lo b < hi a" "lo a < hi a" "lo b < hi b"
        using ov overlapping_cuts less.prems mem by auto
      have e: "\<forall>p. covers (Interval (istart x) (iend y) (sopen x) (eopen y)) p \<longleftrightarrow> covers a p \<and> covers b p"
        "mk_interval (istart x) (iend y) (sopen x) (eopen y) = Inr (Interval (istart x) (iend y) (sopen x) (eopen y))"
        if "lo x = max (lo a) (lo b)" "hi y = min (hi a) (hi b)" for x y
        using that c by (auto simp: covers_def intro: mk_interval_ok)
      have d: "(length v1 - Suc i1) + (length v2 - i2) < (length v1 - i1) + (length v2 - i2)"
        "(length v1 - i1) + (length v2 - Suc i2) < (length v1 - i1) + (length v2 - i2)" using True by auto
      define x where "x = (if start_gt_i a b then a else b)"
      have x: "lo x = max (lo a) (lo b)" by (simp add: x_def comparator_cuts)
      have unf: "intersect_ii v1 v2 i1 i2 res =
        (if end_lt_i a b
         then case mk_interval (istart x) (iend a) (sopen x) (eopen a) of
                Inl e \<Rightarrow> Inl e | Inr iv \<Rightarrow> intersect_ii v1 v2 (i1 + 1) i2 (res @ [iv])
         else case mk_interval (istart x) (iend b) (sopen x) (eopen b) of
                Inl e \<Rightarrow> Inl e | Inr iv \<Rightarrow> intersect_ii v1 v2 i1 (i2 + 1) (res @ [iv]))"
        using True ov by (subst intersect_ii.simps) (auto simp: ab [symmetric] Let_def x_def)
      show ?thesis
      proof (cases "end_lt_i a b")
        case True
        then have "hi a = min (hi a) (hi b)" by (simp add: comparator_cuts)
        with push [OF d(1)] True e [OF x, of a] show ?thesis by (simp add: unf)
      next
        case False
        then have "hi b = min (hi a) (hi b)" by (simp add: comparator_cuts)
        with push [OF d(2)] False e [OF x, of b] show ?thesis by (simp add: unf)
      qed
    qed
  qed
qed

text \<open>The intersection of two vectors of non-empty intervals throws no exception, and every interval of the
  result is exactly the common part of an interval of the first and an interval of the second operand.\<close>

theorem interval_intersect_sound:
  assumes "\<forall>a\<in>set v1 \<union> set v2. lo a < hi a"
  shows "\<exists>r. intersect_ii v1 v2 0 0 [] = Inr r \<and>
    (\<forall>i\<in>set r. \<exists>a\<in>set v1. \<exists>b\<in>set v2. \<forall>t. is_in t i \<longleftrightarrow> is_in t a \<and> is_in t b)"
  using intersect_ii_sound [OF assms, of 0 0 "[]"] by (fastforce simp: is_in_covers)

theorem interval_intersect_sound_witness:
  "intersect_ii [Interval 0 4 False True] [Interval 2 6 True True] 0 0 [] = Inr [Interval 2 4 True True] \<and>
    is_in 3 (Interval 2 4 True True) \<and> \<not> is_in 2 (Interval 2 4 True True)"
proof -
  have v: "\<forall>a\<in>set [Interval 0 4 False True] \<union> set [Interval 2 6 True True]. lo a < hi a"
    by (simp add: scut_def ecut_def)
  have r: "intersect_ii [Interval 0 4 False True] [Interval 2 6 True True] 0 0 [] = Inr [Interval 2 4 True True]"
    by (simp add: intersect_ii.simps start_gt_i_def start_gt_def end_lt_i_def end_lt_def mk_interval_def)
  have "is_in t (Interval 2 4 True True) \<longleftrightarrow> is_in t (Interval 0 4 False True) \<and> is_in t (Interval 2 6 True True)" for t
    using interval_intersect_sound [OF v] r by simp
  with r show ?thesis by (simp add: is_in_def time_lt_def time_gt_def)
qed

text \<open>The result is not complete: when the current interval of the second operand lies before that of the first
  one, the first counter is advanced, so the rest of the second operand is never looked at; and two intervals
  that share only the time at which one ends and the other starts are treated as disjoint.\<close>

lemma intersect_advances_wrong_counter:
  "intersect_ii [Interval 2 3 False False] [Interval 0 1 False False, Interval 2 3 False False] 0 0 [] = Inr []"
  "intersect_ii [Interval 0 1 False False] [Interval 1 2 False False] 0 0 [] = Inr []"
  by (simp_all add: intersect_ii.simps)

section \<open>Union is exact for intervals that contain their start\<close>

definition union_here :: "interval list \<Rightarrow> interval list \<Rightarrow> nat \<Rightarrow> nat \<Rightarrow> int \<Rightarrow> interval list \<Rightarrow> interval list \<Rightarrow> bool" where
  "union_here v1 v2 i1 i2 c res r \<longleftrightarrow> (\<forall>p. covered r p \<longleftrightarrow> covered res p \<or>
     c \<le> p \<and> p < min (lo (v1 ! i1)) (lo (v2 ! i2)) \<or> covered (drop i1 v1) p \<or> covered (drop i2 v2) p)"

lemmas union_hereD = union_here_def [THEN iffD1, THEN spec]

lemma union_here_swap: "union_here v1 v2 i1 i2 c res r \<longleftrightarrow> union_here v2 v1 i2 i1 c res r"
  by (auto simp: union_here_def min.commute)

text \<open>The current interval of the first operand ends in that of the second one.\<close>

lemma union_merge:
  assumes "separate v1" "separate v2" "Suc i1 < length v1" "i2 < length v2"
    and "c \<le> lo (v1 ! i1)" "c \<le> lo (v2 ! i2)" "lo (v2 ! i2) \<le> hi (v1 ! i1)" "hi (v1 ! i1) \<le> hi (v2 ! i2)"
    and "union_here v1 v2 (Suc i1) i2 c res r"
  shows "union_here v1 v2 i1 i2 c res r"
  unfolding union_here_def
proof
  fix p
  have "hi (v1 ! i1) \<le> lo (v1 ! Suc i1)" "lo (v1 ! i1) < hi (v1 ! i1)"
    using separate_tail(1,3) [OF assms(1)] assms(3) by auto
  with union_hereD [OF assms(9), of p] assms(5-8) show "covered r p \<longleftrightarrow> covered res p \<or>
     c \<le> p \<and> p < min (lo (v1 ! i1)) (lo (v2 ! i2)) \<or> covered (drop i1 v1) p \<or> covered (drop i2 v2) p"
    using assms(3,4)
    by (cases "covered res p"; cases "covered (drop (Suc i2) v2) p"; cases "covered (drop (Suc i1) v1) p")
       (auto simp: covered_drop_step [of i1 v1] covered_drop_step [of i2 v2] covers_def)
qed

definition union_ends :: "interval list \<Rightarrow> interval list \<Rightarrow> nat \<Rightarrow> nat \<Rightarrow> int \<Rightarrow> interval list
    \<Rightarrow> (nat \<times> nat \<times> interval list) res \<Rightarrow> bool" where
  "union_ends v1 v2 i1 i2 c res m \<longleftrightarrow>
     (\<exists>j1 j2 q. m = Inr (j1, j2, q) \<and> union_here v1 v2 i1 i2 c res (q @ drop j1 v1 @ drop j2 v2))"

text \<open>The last interval of the first operand ends in the current one of the second operand, or before it.\<close>

lemma union_merge_last:
  assumes "length v1 \<le> Suc i1" "i1 < length v1" "i2 < length v2"
    and "scut s so \<le> lo (v1 ! i1)" "scut s so \<le> lo (v2 ! i2)" "lo (v2 ! i2) \<le> hi (v1 ! i1)" "hi (v1 ! i1) \<le> hi (v2 ! i2)"
  shows "union_here v1 v2 i1 i2 (scut s so) res (res @ [Interval s (iend (v2 ! i2)) so (eopen (v2 ! i2))] @ drop (Suc i2) v2)"
  using assms by (auto simp: union_here_def covered_drop_step [of i1 v1] covered_drop_step [of i2 v2] covers_def)

lemma union_apart_last:
  assumes "length v1 \<le> Suc i1" "i1 < length v1" "i2 < length v2"
    and "scut s so \<le> lo (v1 ! i1)" "hi (v1 ! i1) \<le> lo (v2 ! i2)" "lo (v1 ! i1) < hi (v1 ! i1)"
  shows "union_here v1 v2 i1 i2 (scut s so) res (res @ [Interval s (iend (v1 ! i1)) so (eopen (v1 ! i1))] @ drop i2 v2)"
  using assms by (auto simp: union_here_def covered_drop_step [of i1 v1] covers_def)

lemma union_apart:
  assumes "Suc i1 < length v1" "i2 < length v2"
    and "scut s so \<le> lo (v1 ! i1)" "hi (v1 ! i1) \<le> lo (v2 ! i2)" "lo (v1 ! i1) < hi (v1 ! i1)"
    and "union_here v1 v2 (Suc i1) i2 (min (lo (v1 ! Suc i1)) (lo (v2 ! i2)))
           (res @ [Interval s (iend (v1 ! i1)) so (eopen (v1 ! i1))]) r"
  shows "union_here v1 v2 i1 i2 (scut s so) res r"
  unfolding union_here_def
proof
  fix p
  from union_hereD [OF assms(6), of p] assms(3-5) show "covered r p \<longleftrightarrow> covered res p \<or>
     scut s so \<le> p \<and> p < min (lo (v1 ! i1)) (lo (v2 ! i2)) \<or> covered (drop i1 v1) p \<or> covered (drop i2 v2) p"
    using assms(1,2)
    by (cases "covered res p"; cases "covered (drop i2 v2) p"; cases "covered (drop (Suc i1) v1) p")
       (auto simp: covered_drop_step [of i1 v1] covers_def)
qed

definition closed_starts :: "interval list \<Rightarrow> bool" where
  "closed_starts ivs \<longleftrightarrow> (\<forall>i\<in>set ivs. \<not> sopen i)"

lemma closed_starts_cuts:
  assumes "closed_starts ivs" "k < length ivs"
  shows "\<not> sopen (ivs ! k)" "lo (ivs ! k) = 2 * istart (ivs ! k)"
  using assms by (simp_all add: closed_starts_def scut_def)

lemma end_ge_start_cuts:
  "\<not> sopen b \<Longrightarrow> end_ge_start a b \<longleftrightarrow> lo b < hi a"
  by (auto simp: end_ge_start_def end_lt_start_def end_lt_def scut_def ecut_def)

text \<open>The loop body on a pair of current intervals whose starts are closed.\<close>

lemma union_loop_unfold:
  assumes "i1 < length v1" "i2 < length v2" "\<not> sopen (v1 ! i1)" "\<not> sopen (v2 ! i2)"
    and "scut s so < hi (v1 ! i1)" "scut s so < hi (v2 ! i2)"
  defines "a \<equiv> v1 ! i1" and "b \<equiv> v2 ! i2"
  shows "union_ii_loop v1 v2 i1 i2 s so res =
    (if lo b < hi a \<and> hi a \<le> hi b then
       (if i1 + 1 \<ge> length v1 then Inr (i1 + 1, i2 + 1, res @ [Interval s (iend b) so (eopen b)])
        else union_ii_loop v1 v2 (i1 + 1) i2 s so res)
     else if lo a < hi b \<and> hi b \<le> hi a then
       (if i2 + 1 \<ge> length v2 then Inr (i1 + 1, i2 + 1, res @ [Interval s (iend a) so (eopen a)])
        else union_ii_loop v1 v2 i1 (i2 + 1) s so res)
     else if hi a < hi b then
       (if i1 + 1 < length v1
        then union_ii_loop v1 v2 (i1 + 1) i2 (min (istart (v1 ! (i1 + 1))) (istart b)) so (res @ [Interval s (iend a) so (eopen a)])
        else Inr (i1 + 1, i2, res @ [Interval s (iend a) so (eopen a)]))
     else
       (if i2 + 1 < length v2
        then union_ii_loop v1 v2 i1 (i2 + 1) (min (istart a) (istart (v2 ! (i2 + 1)))) so (res @ [Interval s (iend b) so (eopen b)])
        else Inr (i1, i2 + 1, res @ [Interval s (iend b) so (eopen b)])))"
proof -
  have c: "end_ge_start a b \<longleftrightarrow> lo b < hi a" "end_ge_start b a \<longleftrightarrow> lo a < hi b"
    "end_le_i a b \<longleftrightarrow> hi a \<le> hi b" "end_le_i b a \<longleftrightarrow> hi b \<le> hi a" "end_lt_i a b \<longleftrightarrow> hi a < hi b"
    "mk_interval s (iend a) so (eopen a) = Inr (Interval s (iend a) so (eopen a))"
    "mk_interval s (iend b) so (eopen b) = Inr (Interval s (iend b) so (eopen b))"
    using assms(3-6) by (auto simp: a_def b_def end_ge_start_cuts end_le_i_def end_gt_i_def end_lt_i_def cut_simps mk_interval_ok)
  show ?thesis using assms(1,2)
    by (subst union_ii_loop.simps) (simp add: a_def [symmetric] b_def [symmetric] c)
qed

lemma union_ii_loop_exact:
  assumes v: "separate v1" "separate v2" "closed_starts v1" "closed_starts v2"
  shows "i1 < length v1 \<Longrightarrow> i2 < length v2 \<Longrightarrow> 2 * s \<le> lo (v1 ! i1) \<Longrightarrow> 2 * s \<le> lo (v2 ! i2) \<Longrightarrow>
    union_ends v1 v2 i1 i2 (2 * s) res (union_ii_loop v1 v2 i1 i2 s False res)"
proof (induction "(length v1 - i1) + (length v2 - i2)" arbitrary: i1 i2 s res rule: less_induct)
  case less
  note i = less.prems(1,2) and c = less.prems(3,4)
  let ?a = "v1 ! i1" and ?b = "v2 ! i2"
  have S: "scut s False = 2 * s" by (simp add: scut_def)
  note wf = separate_tail(1) [OF v(1) i(1)] separate_tail(1) [OF v(2) i(2)]
  note cl = closed_starts_cuts [OF v(3)] closed_starts_cuts [OF v(4)]
  note unf = union_loop_unfold [OF i cl(1) [OF i(1)] cl(3) [OF i(2)], of s False]
  have IH1: "union_ends v1 v2 (Suc i1) i2 (2 * t) q (union_ii_loop v1 v2 (Suc i1) i2 t False q)"
    if "Suc i1 < length v1" "2 * t \<le> lo (v1 ! Suc i1)" "2 * t \<le> lo ?b" for t q
    using that i by (intro less.hyps) auto
  have IH2: "union_ends v1 v2 i1 (Suc i2) (2 * t) q (union_ii_loop v1 v2 i1 (Suc i2) t False q)"
    if "Suc i2 < length v2" "2 * t \<le> lo ?a" "2 * t \<le> lo (v2 ! Suc i2)" for t q
    using that i by (intro less.hyps) auto
  let ?I = "\<lambda>h. Interval s (iend h) False (eopen h)"
  consider (ab) "lo ?b < hi ?a" "hi ?a \<le> hi ?b" | (ba) "lo ?a < hi ?b" "hi ?b \<le> hi ?a" "\<not> hi ?a \<le> hi ?b"
    | (a_before) "hi ?a \<le> lo ?b" | (b_before) "hi ?b \<le> lo ?a"
    by linarith
  then show ?case
  proof cases
    case ab
    then show ?thesis using unf S c wf IH1 [of s res] union_merge [OF v(1,2) _ i(2) c _ ab(2)]
        union_merge_last [OF _ i, of s False res] separate_tail(3) [OF v(1) i(1)]
      by (cases "Suc i1 < length v1") (auto simp: union_ends_def)
  next
    case ba
    then show ?thesis using unf S c wf IH2 [of s res] union_merge [OF v(2,1) _ i(1) c(2,1) _ ba(2)]
        union_merge_last [OF _ i(2,1), of s False res] separate_tail(3) [OF v(2) i(2)]
      by (cases "Suc i2 < length v2") (auto simp: union_ends_def union_here_swap [of v1])
  next
    case a_before
    show ?thesis
    proof (cases "Suc i1 < length v1")
      case True
      define t where "t = min (istart (v1 ! Suc i1)) (istart ?b)"
      have t: "2 * t = min (lo (v1 ! Suc i1)) (lo ?b)" using cl(2) [OF True] cl(4) [OF i(2)] by (auto simp: t_def)
      have "union_ii_loop v1 v2 i1 i2 s False res = union_ii_loop v1 v2 (Suc i1) i2 t False (res @ [?I ?a])"
        using unf S c wf a_before True by (simp add: t_def)
      with IH1 [OF True, of t "res @ [?I ?a]"] t union_apart [OF True i(2), of s False res] S c wf a_before
      show ?thesis by (auto simp: union_ends_def)
    next
      case False
      with unf S c wf a_before union_apart_last [OF _ i, of s False res] show ?thesis by (simp add: union_ends_def)
    qed
  next
    case b_before
    show ?thesis
    proof (cases "Suc i2 < length v2")
      case True
      define t where "t = min (istart ?a) (istart (v2 ! Suc i2))"
      have t: "2 * t = min (lo (v2 ! Suc i2)) (lo ?a)" using cl(4) [OF True] cl(2) [OF i(1)] by (auto simp: t_def)
      have "union_ii_loop v1 v2 i1 i2 s False res = union_ii_loop v1 v2 i1 (Suc i2) t False (res @ [?I ?b])"
        using unf S c wf b_before True by (simp add: t_def)
      with IH2 [OF True, of t "res @ [?I ?b]"] t union_apart [OF True i(1), of s False res] S c wf b_before
      show ?thesis by (auto simp: union_ends_def union_here_swap [of v1])
    next
      case False
      have "union_here v1 v2 i1 i2 (2 * s) res (res @ [?I ?b] @ drop i1 v1)"
        using False S c wf b_before union_apart_last [OF _ i(2,1), of s False res] by (simp add: union_here_swap [of v1])
      with False unf S c wf b_before show ?thesis by (simp add: union_ends_def)
    qed
  qed
qed

text \<open>C20. The union of two vectors of non-overlapping intervals that all contain their start is computed without
  an exception, and a time is in the result exactly if it is in an interval of one of the operands.\<close>

theorem interval_union_exact:
  assumes "separate v1" "separate v2" "closed_starts v1" "closed_starts v2"
  shows "\<exists>r. union_ii v1 v2 = Inr r \<and>
    (\<forall>t. (\<exists>i\<in>set r. is_in t i) \<longleftrightarrow> (\<exists>i\<in>set v1. is_in t i) \<or> (\<exists>i\<in>set v2. is_in t i))"
proof (cases "v1 \<noteq> [] \<and> v2 \<noteq> []")
  case False
  then show ?thesis by (auto simp: union_ii_def)
next
  case True
  define s where "s = (if start_lt_i (v1 ! 0) (v2 ! 0) then istart (v1 ! 0) else istart (v2 ! 0))"
  have n: "0 < length v1" "0 < length v2" using True by auto
  note cl = closed_starts_cuts [OF assms(3) n(1)] closed_starts_cuts [OF assms(4) n(2)]
  have s: "2 * s = min (lo (v1 ! 0)) (lo (v2 ! 0))" using cl by (auto simp: s_def comparator_cuts)
  from union_ii_loop_exact [OF assms n, of s "[]"] s obtain j1 j2 q where
    q: "union_ii_loop v1 v2 0 0 s False [] = Inr (j1, j2, q)"
    and h: "union_here v1 v2 0 0 (2 * s) [] (q @ drop j1 v1 @ drop j2 v2)" by (auto simp: union_ends_def)
  have "covered (q @ drop j1 v1 @ drop j2 v2) p \<longleftrightarrow> covered v1 p \<or> covered v2 p" for p
    using union_hereD [OF h, of p] s by auto
  then have "(\<exists>i\<in>set (q @ drop j1 v1 @ drop j2 v2). is_in t i) \<longleftrightarrow> (\<exists>i\<in>set v1. is_in t i) \<or> (\<exists>i\<in>set v2. is_in t i)" for t
    by (simp only: is_in_covers covered_def)
  moreover have "union_ii v1 v2 = Inr (q @ drop j1 v1 @ drop j2 v2)"
    using q n cl(1,3) by (cases "start_lt_i (v1 ! 0) (v2 ! 0)") (simp_all add: union_ii_def Let_def s_def)
  ultimately show ?thesis by blast
qed

theorem interval_union_exact_witness:
  "\<exists>r. union_ii [Interval 0 2 False True, Interval 5 6 False False] [Interval 1 3 False False] = Inr r \<and>
     (\<exists>i\<in>set r. is_in 3 i) \<and> \<not> (\<exists>i\<in>set r. is_in 4 i) \<and> (\<exists>i\<in>set r. is_in 5 i)"
proof -
  let ?v1 = "[Interval 0 2 False True, Interval 5 6 False False]" and ?v2 = "[Interval 1 3 False False]"
  have "separate ?v1" "separate ?v2" "closed_starts ?v1" "closed_starts ?v2"
    by (simp_all add: separate_def closed_starts_def scut_def ecut_def)
  from interval_union_exact [OF this] obtain r where r: "union_ii ?v1 ?v2 = Inr r"
    and e: "\<And>t. (\<exists>i\<in>set r. is_in t i) \<longleftrightarrow> (\<exists>i\<in>set ?v1. is_in t i) \<or> (\<exists>i\<in>set ?v2. is_in t i)" by auto
  have "\<exists>i\<in>set r. is_in 3 i" "\<not> (\<exists>i\<in>set r. is_in 4 i)" "\<exists>i\<in>set r. is_in 5 i"
    unfolding e by (simp_all add: is_in_def time_lt_def time_gt_def)
  with r show ?thesis by blast
qed

text \<open>The flag of the pending start is not updated when a new interval is begun: with an open start it is carried
  over, so the union below loses the time 5.\<close>

lemma union_keeps_stale_open_flag:
  "union_ii [Interval 0 1 True False, Interval 5 6 False False] [Interval 2 3 True False, Interval 5 7 False False]
   = Inr [Interval 0 1 True False, Interval 2 3 True False, Interval 5 7 True False]"
  by (simp add: union_ii_def union_ii_loop.simps mk_interval_def start_lt_i_def start_lt_def end_ge_start_def
        end_lt_start_def end_lt_def end_le_i_def end_gt_i_def end_gt_def end_lt_i_def)

end
