(* ===== verification/Dname.thy ===== *)
theory Dname
  imports Vectors "HOL-Library.AList" "HOL-Library.Char_ord" "HOL-Library.List_Lexorder"
begin

text \<open>
  \<open>src/src/dname.cpp\<close>, \<open>src/src/dname.hpp\<close>: the names along one dimension of an array. A \<open>Dname\<close> keeps its extent,
  a vector of names that is empty when there are no names, and a multimap from names to positions. Names are
  strings below the 127 bytes a \<open>zstring\<close> holds, compared as \<open>strncmp\<close> does. The cells that \<open>resize\<close> exposes are
  overwritten by every caller here, so their contents are fixed to the empty string. The abstract view is the list
  of labels along the dimension, one per position.
\<close>

section \<open>State and the name map\<close>

type_synonym name_map = "(string \<times> nat set) list"

record dname =
  dsz :: nat
  dnames :: "string vec"
  namesMap :: name_map

definition no_string :: "nat \<Rightarrow> string" where
  "no_string i = ''''"

text \<open>\<open>find\<close>, then \<open>emplace\<close> a singleton or \<open>insert\<close> into the set found.\<close>

definition map_add_name :: "string \<Rightarrow> nat \<Rightarrow> name_map \<Rightarrow> name_map" where
  "map_add_name s j m =
     (case map_of m s of
        None \<Rightarrow> AList.update s {j} m
      | Some e \<Rightarrow> AList.update s (insert j e) m)"

definition put_name :: "string list \<Rightarrow> nat \<Rightarrow> name_map \<Rightarrow> name_map" where
  "put_name ns j m = (if ns ! j \<noteq> '''' then map_add_name (ns ! j) j m else m)"

definition putNamesInMap :: "string list \<Rightarrow> name_map \<Rightarrow> name_map" where
  "putNamesInMap ns m = fold (put_name ns) [0..<length ns] m"

section \<open>Operations\<close>

definition mk_dname :: "nat \<Rightarrow> string vec \<Rightarrow> dname res" where
  "mk_dname n ns =
     (if vsize ns \<noteq> 0 \<and> vsize ns \<noteq> n
      then Inl (RangeError ''length of 'dimnames' not equal to array extent'')
      else Inr \<lparr>dsz = n, dnames = ns, namesMap = putNamesInMap (elems ns) []\<rparr>)"

definition empty_names :: "string vec" where
  "empty_names = \<lparr>typenumber = 3, elems = [], ordered = True, capacity = growCapacity 0, alloc = MemAlloc\<rparr>"

definition dname_of_size :: "nat \<Rightarrow> dname" where
  "dname_of_size n = \<lparr>dsz = n, dnames = empty_names, namesMap = []\<rparr>"

definition hasNames :: "dname \<Rightarrow> bool" where
  "hasNames d \<longleftrightarrow> dsz d \<noteq> 0 \<and> dsz d = vsize (dnames d)"

text \<open>The tail shared by \<open>resize\<close>, \<open>assign\<close> and \<open>remove\<close>: redo the map, drop the names if none is left.\<close>

definition redo_map :: "dname \<Rightarrow> string vec \<Rightarrow> dname res" where
  "redo_map d ns =
     (let m = putNamesInMap (elems ns) [] in
      if length m = 0
      then bindR (resize no_string 0 0 ns) (\<lambda>ns0. Inr (d\<lparr>dnames := ns0, namesMap := m\<rparr>))
      else Inr (d\<lparr>dnames := ns, namesMap := m\<rparr>))"

definition dname_resize :: "nat \<Rightarrow> nat \<Rightarrow> dname \<Rightarrow> dname res" where
  "dname_resize n from d =
     (let d1 = d\<lparr>dsz := n\<rparr> in
      if vsize (dnames d) \<noteq> 0
      then bindR (resize_fill no_string n from '''' (dnames d)) (redo_map d1)
      else Inr d1)"

definition dname_assign :: "nat \<Rightarrow> string \<Rightarrow> dname \<Rightarrow> dname res" where
  "dname_assign i s d =
     (if i \<ge> dsz d then Inl (RangeError ''index out of bound'')
      else if s = '''' \<and> vsize (dnames d) = 0 then Inr d
      else if \<not> hasNames d then
        bindR (vec_init (<) no_string (dsz d) '''' (dnames d)) (\<lambda>ns1.
        bindR (setv (<) i s ns1) (\<lambda>ns2. Inr (d\<lparr>dnames := ns2\<rparr>)))
      else bindR (setv (<) i s (dnames d)) (redo_map d))"

definition addafter :: "string \<Rightarrow> dname \<Rightarrow> dname res" where
  "addafter s d =
     (if s = '''' \<and> vsize (dnames d) = 0 then Inr (d\<lparr>dsz := dsz d + 1\<rparr>)
      else
        bindR (if vsize (dnames d) = 0 then vec_init (<) no_string (dsz d) '''' (dnames d) else Inr (dnames d))
          (\<lambda>ns1. bindR (push_back (<) s ns1) (\<lambda>ns2.
             Inr (d\<lparr>dnames := ns2, namesMap := map_add_name s (dsz d) (namesMap d), dsz := dsz d + 1\<rparr>))))"

definition insert_end :: "string list \<Rightarrow> string vec \<Rightarrow> string vec res" where
  "insert_end xs ns = bindR (vec_insert (<) no_string (vsize ns) xs ns) (\<lambda>(ns1, _). Inr ns1)"

definition addafter_dn :: "dname \<Rightarrow> dname \<Rightarrow> dname res" where
  "addafter_dn dn d =
     bindR
       (if vsize (dnames d) = 0 \<and> vsize (dnames dn) \<noteq> 0 then
          bindR (vec_init (<) no_string (dsz d) '''' (dnames d)) (insert_end (elems (dnames dn)))
        else if vsize (dnames d) \<noteq> 0 \<and> vsize (dnames dn) = 0 then
          insert_end (replicate (dsz dn) '''') (dnames d)
        else if vsize (dnames d) \<noteq> 0 \<and> vsize (dnames dn) \<noteq> 0 then
          insert_end (elems (dnames dn)) (dnames d)
        else Inr (dnames d))
       (\<lambda>ns. Inr (d\<lparr>dnames := ns,
                    namesMap := fold (\<lambda>j. map_add_name (elems (dnames dn) ! j) (dsz d + j))
                                  [0..<vsize (dnames dn)] (namesMap d),
                    dsz := dsz d + dsz dn\<rparr>))"

text \<open>\<open>remove(n, nm)\<close>; the name is not used.\<close>

definition dname_remove_at :: "nat \<Rightarrow> dname \<Rightarrow> dname res" where
  "dname_remove_at n d =
     bindR (erase_one no_string n (dnames d)) (\<lambda>ns.
     bindR (redo_map d ns) (\<lambda>d1. Inr (d1\<lparr>dsz := size_sub (dsz d1) 1\<rparr>)))"

definition find_name :: "dname \<Rightarrow> string \<Rightarrow> nat res" where
  "find_name d s =
     (case map_of (namesMap d) s of
        None \<Rightarrow> Inl (RangeError ''subscript out of bounds'')
      | Some e \<Rightarrow> Inr (Min e))"

definition name_at :: "dname \<Rightarrow> nat \<Rightarrow> string res" where
  "name_at d i =
     (if i \<ge> dsz d then Inl (RangeError ''subscript out of bounds'')
      else if i \<ge> vsize (dnames d) then Inr ''''
      else vec_at (dnames d) i)"

definition dname_remove :: "nat \<Rightarrow> dname \<Rightarrow> dname res" where
  "dname_remove n d = bindR (name_at d n) (\<lambda>_. dname_remove_at n d)"

definition dname_remove_name :: "string \<Rightarrow> dname \<Rightarrow> dname res" where
  "dname_remove_name nm d = bindR (find_name d nm) (\<lambda>n. dname_remove_at n d)"

text \<open>\<open>std::to_string\<close> of an unsigned number.\<close>

function to_string :: "nat \<Rightarrow> string" where
  "to_string n = (if n < 10 then [char_of (48 + n)] else to_string (n div 10) @ [char_of (48 + n mod 10)])"
  by pat_completeness auto
termination
  by (relation "measure id") auto

definition prefixed :: "string \<Rightarrow> nat \<Rightarrow> nat \<Rightarrow> string \<Rightarrow> string" where
  "prefixed prefix n i s =
     (if s \<noteq> '''' then prefix @ ''.'' @ s
      else if n = 1 then prefix
      else prefix @ to_string (i + 1))"

definition addprefix :: "string \<Rightarrow> dname \<Rightarrow> dname res" where
  "addprefix prefix d =
     (if prefix \<noteq> '''' then
        bindR (if dsz d \<noteq> vsize (dnames d) then vec_init (<) no_string (dsz d) '''' (dnames d) else Inr (dnames d))
          (\<lambda>ns. bindR (foldR (\<lambda>i w. bindR (vec_at w i) (\<lambda>s. setv (<) i (prefixed prefix (vsize w) i s) w))
                        [0..<vsize ns] ns)
             (\<lambda>ns1. Inr (d\<lparr>dnames := ns1, namesMap := putNamesInMap (elems ns1) []\<rparr>)))
      else Inr d)"

definition dname_eq :: "dname \<Rightarrow> dname \<Rightarrow> bool" where
  "dname_eq d e \<longleftrightarrow> dsz d = dsz e \<and> vec_eq (dnames d) (dnames e)"

definition dname_size :: "dname \<Rightarrow> nat" where
  "dname_size d = vsize (dnames d)"

section \<open>The map\<close>

definition positions :: "string list \<Rightarrow> string \<Rightarrow> nat set" where
  "positions ns s = {j. j < length ns \<and> ns ! j = s}"

lemma positions_empty: "positions ns s = {} \<longleftrightarrow> s \<notin> set ns"
  by (auto simp: positions_def in_set_conv_nth)

lemma positions_snoc: "positions (ns @ [x]) s = positions ns s \<union> (if x = s then {length ns} else {})"
  by (auto simp: positions_def nth_append less_Suc_eq)

text \<open>The entry a map should have for a name.\<close>

definition entry :: "string list \<Rightarrow> string \<Rightarrow> nat set option" where
  "entry ns s = (if s \<in> set ns then Some (positions ns s) else None)"

lemma map_add_name_of:
  "map_of (map_add_name s j m) t = (if t = s then Some (insert j (case map_of m s of None \<Rightarrow> {} | Some e \<Rightarrow> e)) else map_of m t)"
  by (auto simp: map_add_name_def update_conv' split: option.splits)

lemma entry_snoc:
  "entry (ns @ [x]) s = (if s = x then Some (insert (length ns) (case entry ns x of None \<Rightarrow> {} | Some e \<Rightarrow> e)) else entry ns s)"
  using positions_empty [of ns x] by (auto simp: entry_def positions_snoc)

lemma putNamesInMap_snoc:
  "putNamesInMap (ns @ [x]) m = (if x = '''' then putNamesInMap ns m else map_add_name x (length ns) (putNamesInMap ns m))"
proof -
  have "fold (put_name (ns @ [x])) [0..<length ns] m = fold (put_name ns) [0..<length ns] m"
    by (rule fold_cong) (auto simp: put_name_def nth_append)
  then show ?thesis by (simp add: putNamesInMap_def put_name_def [of "ns @ [x]" "length ns"])
qed

lemma putNamesInMap_of: "map_of (putNamesInMap ns []) s = (if s = '''' then None else entry ns s)"
proof (induction ns rule: rev_induct)
  case Nil
  show ?case by (simp add: putNamesInMap_def entry_def)
next
  case (snoc x ns)
  then show ?case by (auto simp: putNamesInMap_snoc map_add_name_of entry_snoc)
qed

lemma putNamesInMap_empty: "putNamesInMap ns [] = [] \<longleftrightarrow> set ns \<subseteq> {''''}"
proof -
  have "putNamesInMap ns [] = [] \<longleftrightarrow> (\<forall>s. map_of (putNamesInMap ns []) s = None)"
    by (metis map_of_eq_None_iff list.set_intros(1) map_of.simps(1) neq_Nil_conv surj_pair image_eqI fst_conv)
  then show ?thesis by (auto simp: putNamesInMap_of entry_def)
qed

section \<open>Labels\<close>

definition labels :: "dname \<Rightarrow> string list" where
  "labels d = (if vsize (dnames d) = 0 then replicate (dsz d) '''' else elems (dnames d))"

text \<open>The representation invariant, and the stronger one under which a name can be looked up.\<close>

definition dname_wf :: "dname \<Rightarrow> bool" where
  "dname_wf d \<longleftrightarrow> (vsize (dnames d) = 0 \<or> vsize (dnames d) = dsz d) \<and> alloc (dnames d) \<noteq> NullAlloc"

definition map_ok :: "dname \<Rightarrow> bool" where
  "map_ok d \<longleftrightarrow> (\<forall>s. s \<noteq> '''' \<longrightarrow> map_of (namesMap d) s = entry (elems (dnames d)) s)"

lemma labels_length: "dname_wf d \<Longrightarrow> length (labels d) = dsz d"
  by (auto simp: dname_wf_def labels_def)

lemma mem_resize_0: "alloc ns \<noteq> NullAlloc \<Longrightarrow>
   \<exists>w. resize junk n 0 ns = Inr w \<and> elems w = take n (elems ns) @ map junk [vsize ns..<n] \<and> alloc w \<noteq> NullAlloc"
  by (auto simp: resize_def intro!: nth_equalityI simp: nth_append)

lemma mem_init: "alloc ns \<noteq> NullAlloc \<Longrightarrow>
   \<exists>w. vec_init cmp junk n x ns = Inr w \<and> elems w = replicate n x \<and> alloc w \<noteq> NullAlloc"
  using mem_resize_0 [of ns junk n] by (auto simp: vec_init_def map_replicate_trivial)

lemma mem_setv: "i < vsize ns \<Longrightarrow> \<exists>w. setv cmp i x ns = Inr w \<and> elems w = (elems ns)[i := x] \<and> alloc w = alloc ns"
  by (simp add: setv_def Let_def)

lemma mem_push_back: "alloc ns \<noteq> NullAlloc \<Longrightarrow>
   \<exists>w. push_back cmp x ns = Inr w \<and> elems w = elems ns @ [x] \<and> alloc w \<noteq> NullAlloc"
  by (simp add: push_back_def Let_def)

lemma resize_alloc: "resize junk n k v = Inr w \<Longrightarrow> alloc w = alloc v"
  by (auto simp: resize_def split: if_splits)

lemma vec_insert_alloc: "vec_insert cmp junk p xs v = Inr (w, q) \<Longrightarrow> alloc w = alloc v"
  by (auto simp: vec_insert_def Let_def bindR_eq_Inr dest: resize_alloc split: if_splits prod.splits)

lemma mem_insert_end:
  assumes "alloc ns \<noteq> NullAlloc"
  shows "\<exists>w. insert_end xs ns = Inr w \<and> elems w = elems ns @ xs \<and> alloc w \<noteq> NullAlloc"
proof -
  obtain w p where "vec_insert (<) no_string (vsize ns) xs ns = Inr (w, p)"
    using vec_insert_total [of ns "vsize ns"] assms by fastforce
  with vec_insert_end_elems [OF this] vec_insert_alloc [OF this] assms show ?thesis
    by (simp add: insert_end_def)
qed

lemma mem_erase_one:
  assumes "alloc ns \<noteq> NullAlloc" "n < vsize ns"
  shows "\<exists>w. erase_one junk n ns = Inr w \<and> elems w = take n (elems ns) @ drop (Suc n) (elems ns) \<and> alloc w \<noteq> NullAlloc"
proof -
  have e: "erase_one junk n ns = erase junk n (Suc n) ns"
    using assms(2) by (simp add: erase_one_def erase_def Let_def)
  obtain w where w: "erase junk n (Suc n) ns = Inr w"
    using resize_total [of "ns\<lparr>elems := es, ordered := b\<rparr>" for es b] assms by (force simp: erase_def Let_def)
  moreover have "alloc w \<noteq> NullAlloc"
    using w assms by (auto simp: erase_def Let_def dest: resize_alloc)
  ultimately show ?thesis using erase_elems(1) [OF w] by (simp add: e)
qed

lemma mem_resize_fill:
  assumes "alloc ns \<noteq> NullAlloc" "vsize ns \<noteq> 0"
  shows "\<exists>w. resize_fill junk n 0 x ns = Inr w \<and> elems w = take n (elems ns) @ replicate (n - vsize ns) x \<and> alloc w \<noteq> NullAlloc"
proof -
  obtain w where w: "resize junk n 0 ns = Inr w" "elems w = take n (elems ns) @ map junk [vsize ns..<n]" "alloc w \<noteq> NullAlloc"
    using mem_resize_0 [OF assms(1)] by blast
  have "map (\<lambda>i. if i \<ge> vsize ns then x else elems w ! i) [0..<n] = take n (elems ns) @ replicate (n - vsize ns) x"
    using w(2) by (intro nth_equalityI) (auto simp: nth_append)
  with w assms(2) show ?thesis by (simp add: resize_fill_def)
qed

lemmas mem_ops = mem_init mem_setv mem_push_back mem_insert_end mem_erase_one mem_resize_fill

section \<open>Every operation acts on the labels\<close>

lemma redo_map_ok:
  assumes "alloc ns \<noteq> NullAlloc" "vsize ns = dsz d"
  shows "\<exists>e. redo_map d ns = Inr e \<and> dname_wf e \<and> map_ok e \<and> dsz e = dsz d \<and> labels e = elems ns"
proof (cases "set (elems ns) \<subseteq> {''''}")
  case True
  then have "elems ns = replicate (dsz d) ''''"
    using assms(2) by (metis replicate_eqI singletonD subsetD)
  with True mem_resize_0 [OF assms(1), of no_string 0] assms show ?thesis
    by (auto simp: redo_map_def Let_def putNamesInMap_empty dname_wf_def map_ok_def labels_def putNamesInMap_of entry_def)
next
  case False
  with assms show ?thesis
    by (auto simp: redo_map_def Let_def putNamesInMap_empty dname_wf_def map_ok_def labels_def putNamesInMap_of)
qed

lemma mk_dname_ok:
  "alloc ns \<noteq> NullAlloc \<Longrightarrow> mk_dname n ns = Inr d \<Longrightarrow> dname_wf d \<and> map_ok d"
  by (auto simp: mk_dname_def dname_wf_def map_ok_def putNamesInMap_of split: if_splits)

lemma resize_ok:
  assumes "dname_wf d" "map_ok d"
  shows "\<exists>e. dname_resize n 0 d = Inr e \<and> dname_wf e \<and> map_ok e \<and> dsz e = n \<and>
    labels e = take n (labels d) @ replicate (n - dsz d) ''''"
proof (cases "vsize (dnames d) = 0")
  case True
  with assms show ?thesis
    by (auto simp: dname_resize_def dname_wf_def map_ok_def labels_def take_replicate replicate_add [symmetric] min_def)
next
  case False
  with assms obtain w where w: "resize_fill no_string n 0 '''' (dnames d) = Inr w" "alloc w \<noteq> NullAlloc"
    "elems w = take n (elems (dnames d)) @ replicate (n - vsize (dnames d)) ''''"
    using mem_resize_fill by (fastforce simp: dname_wf_def)
  have "vsize w = n" using w(3) by simp
  with redo_map_ok [of w "d\<lparr>dsz := n\<rparr>"] w False assms(1) show ?thesis
    by (auto simp: dname_resize_def labels_def dname_wf_def)
qed

lemma assign_ok:
  assumes "dname_wf d" "i < dsz d"
  shows "\<exists>e. dname_assign i s d = Inr e \<and> dname_wf e \<and> dsz e = dsz d \<and> labels e = (labels d)[i := s] \<and>
    (map_ok d \<longrightarrow> hasNames d \<or> s = '''' \<longrightarrow> map_ok e)"
proof (cases "hasNames d")
  case True
  then have n: "vsize (dnames d) = dsz d" "vsize (dnames d) \<noteq> 0" by (auto simp: hasNames_def)
  obtain w where w: "setv (<) i s (dnames d) = Inr w" "elems w = (elems (dnames d))[i := s]" "alloc w \<noteq> NullAlloc"
    using mem_setv [of i "dnames d" "(<)" s] assms n by (auto simp: dname_wf_def)
  with redo_map_ok [of w d] n True assms(2) show ?thesis
    by (auto simp: dname_assign_def labels_def)
next
  case False
  with assms have n: "elems (dnames d) = []" by (auto simp: dname_wf_def hasNames_def)
  obtain w where w: "vec_init (<) no_string (dsz d) '''' (dnames d) = Inr w" "elems w = replicate (dsz d) ''''" "alloc w \<noteq> NullAlloc"
    using mem_init assms(1) by (fastforce simp: dname_wf_def)
  obtain u where "setv (<) i s w = Inr u" "elems u = (elems w)[i := s]" "alloc u \<noteq> NullAlloc"
    using mem_setv [of i w "(<)" s] assms(2) w by auto
  with w n False assms show ?thesis
    by (auto simp: dname_assign_def labels_def dname_wf_def intro!: nth_equalityI simp: nth_list_update)
qed

lemma entry_append:
  "entry (ns @ xs) s = (if s \<in> set ns \<union> set xs then Some (positions ns s \<union> (\<lambda>j. length ns + j) ` positions xs s) else None)"
proof -
  have "positions (ns @ xs) s = positions ns s \<union> (\<lambda>j. length ns + j) ` positions xs s"
  proof (induction xs rule: rev_induct)
    case (snoc x xs)
    then show ?case by (auto simp: positions_snoc simp flip: append_assoc)
  qed (simp add: positions_def)
  then show ?thesis by (simp add: entry_def)
qed

text \<open>A map for unnamed positions, extended by the names that follow them.\<close>

lemma fold_map_add_name:
  assumes "\<forall>s. s \<noteq> '''' \<longrightarrow> map_of m s = entry ns s"
  shows "\<forall>s. s \<noteq> '''' \<longrightarrow> map_of (fold (\<lambda>j. map_add_name (xs ! j) (length ns + j)) [0..<length xs] m) s = entry (ns @ xs) s"
proof (induction xs rule: rev_induct)
  case Nil
  show ?case using assms by simp
next
  case (snoc x xs)
  have "fold (\<lambda>j. map_add_name ((xs @ [x]) ! j) (length ns + j)) [0..<length xs] m =
    fold (\<lambda>j. map_add_name (xs ! j) (length ns + j)) [0..<length xs] m"
    by (rule fold_cong) (auto simp: nth_append)
  then have "fold (\<lambda>j. map_add_name ((xs @ [x]) ! j) (length ns + j)) [0..<length (xs @ [x])] m =
    map_add_name x (length (ns @ xs)) (fold (\<lambda>j. map_add_name (xs ! j) (length ns + j)) [0..<length xs] m)"
    by simp
  with snoc.IH entry_snoc [of "ns @ xs" x] show ?case by (auto simp: map_add_name_of split: option.splits)
qed

lemma entry_labels: "dname_wf d \<Longrightarrow> s \<noteq> '''' \<Longrightarrow> entry (labels d) s = entry (elems (dnames d)) s"
  by (auto simp: labels_def entry_def)

lemma map_ok_labels: "dname_wf d \<Longrightarrow> map_ok d \<longleftrightarrow> (\<forall>s. s \<noteq> '''' \<longrightarrow> map_of (namesMap d) s = entry (labels d) s)"
  by (simp add: map_ok_def entry_labels)

lemma addafter_ok:
  assumes "dname_wf d" "map_ok d"
  shows "\<exists>e. addafter s d = Inr e \<and> dname_wf e \<and> map_ok e \<and> dsz e = dsz d + 1 \<and> labels e = labels d @ [s]"
proof (cases "s = '''' \<and> vsize (dnames d) = 0")
  case True
  with assms show ?thesis
    by (auto simp: addafter_def dname_wf_def map_ok_def labels_def replicate_append_same [symmetric])
next
  case False
  obtain w where w: "(if vsize (dnames d) = 0 then vec_init (<) no_string (dsz d) '''' (dnames d) else Inr (dnames d)) = Inr w"
    "elems w = labels d" "alloc w \<noteq> NullAlloc"
    using mem_init [of "dnames d" "(<)" no_string "dsz d" "''''"] assms(1)
    by (cases "vsize (dnames d) = 0") (auto simp: dname_wf_def labels_def)
  obtain u where u: "push_back (<) s w = Inr u" "elems u = labels d @ [s]" "alloc u \<noteq> NullAlloc"
    using mem_push_back [OF w(3)] w(2) by metis
  define e where "e = d\<lparr>dnames := u, namesMap := map_add_name s (dsz d) (namesMap d), dsz := dsz d + 1\<rparr>"
  have "addafter s d = Inr e" using False w(1) u(1) by (auto simp: addafter_def e_def)
  moreover have wf: "dname_wf e" "labels e = labels d @ [s]" using u labels_length [OF assms(1)]
    by (simp_all add: dname_wf_def e_def labels_def [of "d\<lparr>dnames := u, namesMap := m, dsz := k\<rparr>" for m k])
  moreover have m: "namesMap e = map_add_name s (dsz d) (namesMap d)" by (simp add: e_def)
  moreover have "map_ok e"
    using assms labels_length [OF assms(1)] unfolding map_ok_labels [OF wf(1)] map_ok_labels [OF assms(1)]
    by (auto simp: wf(2) entry_snoc map_add_name_of m split: option.splits)
  ultimately show ?thesis by (auto simp: e_def)
qed

lemma addafter_dn_ok:
  assumes "dname_wf d" "map_ok d" "dname_wf dn"
  shows "\<exists>e. addafter_dn dn d = Inr e \<and> dname_wf e \<and> map_ok e \<and> dsz e = dsz d + dsz dn \<and> labels e = labels d @ labels dn"
proof -
  let ?m = "fold (\<lambda>j. map_add_name (elems (dnames dn) ! j) (dsz d + j)) [0..<vsize (dnames dn)] (namesMap d)"
  obtain w where w: "vec_init (<) no_string (dsz d) '''' (dnames d) = Inr w" "elems w = replicate (dsz d) ''''" "alloc w \<noteq> NullAlloc"
    using mem_init assms(1) by (fastforce simp: dname_wf_def)
  have al: "alloc (dnames d) \<noteq> NullAlloc" using assms(1) by (simp add: dname_wf_def)
  define joined where "joined =
       (if vsize (dnames d) = 0 \<and> vsize (dnames dn) \<noteq> 0 then
          bindR (vec_init (<) no_string (dsz d) '''' (dnames d)) (insert_end (elems (dnames dn)))
        else if vsize (dnames d) \<noteq> 0 \<and> vsize (dnames dn) = 0 then
          insert_end (replicate (dsz dn) '''') (dnames d)
        else if vsize (dnames d) \<noteq> 0 \<and> vsize (dnames dn) \<noteq> 0 then
          insert_end (elems (dnames dn)) (dnames d)
        else Inr (dnames d))"
  obtain ns where j: "joined = Inr ns"
    and ns: "alloc ns \<noteq> NullAlloc" "elems ns = (if elems (dnames d) = [] \<and> elems (dnames dn) = [] then [] else labels d @ labels dn)"
    using mem_insert_end [OF al, of "replicate (dsz dn) ''''"] mem_insert_end [OF al, of "elems (dnames dn)"]
      mem_insert_end [OF w(3), of "elems (dnames dn)"] w al
    by (cases "elems (dnames d) = []"; cases "elems (dnames dn) = []") (auto simp: joined_def labels_def)
  define e where "e = d\<lparr>dnames := ns, namesMap := ?m, dsz := dsz d + dsz dn\<rparr>"
  have wf: "dname_wf e" "labels e = labels d @ labels dn"
    using ns assms labels_length [of d] labels_length [of dn]
    by (auto simp: dname_wf_def e_def labels_def replicate_add split: if_splits)
  have "map_of ?m s = entry (labels d @ elems (dnames dn)) s" if "s \<noteq> ''''" for s
    using fold_map_add_name [of "namesMap d" "labels d" "elems (dnames dn)"] assms(1,2) that labels_length [OF assms(1)]
    by (simp add: map_ok_labels)
  then have "map_ok e" unfolding map_ok_labels [OF wf(1)] wf(2)
    using assms(3) by (auto simp: e_def entry_append labels_def positions_def)
  moreover have "addafter_dn dn d = Inr e"
    by (simp only: addafter_dn_def joined_def [symmetric] j bindR.simps e_def)
  ultimately show ?thesis using wf by (auto simp: e_def)
qed

lemma remove_at_ok:
  assumes "dname_wf d" "hasNames d" "n < dsz d"
  shows "\<exists>e. dname_remove_at n d = Inr e \<and> dname_wf e \<and> map_ok e \<and> dsz e = dsz d - 1 \<and>
    labels e = take n (labels d) @ drop (Suc n) (labels d)"
proof -
  obtain w where w: "erase_one no_string n (dnames d) = Inr w" "alloc w \<noteq> NullAlloc"
    "elems w = take n (elems (dnames d)) @ drop (Suc n) (elems (dnames d))"
    using mem_erase_one [of "dnames d" n no_string] assms by (auto simp: dname_wf_def hasNames_def)
  have "vsize w = dsz d - 1" using w(3) assms(2,3) by (auto simp: hasNames_def)
  with redo_map_ok [of w "d\<lparr>dsz := dsz d - 1\<rparr>"] w(2) obtain e where
    e: "redo_map (d\<lparr>dsz := dsz d - 1\<rparr>) w = Inr e" "dname_wf e" "map_ok e" "dsz e = dsz d - 1" "labels e = elems w"
    by auto
  from e(1) have "redo_map d w = Inr (e\<lparr>dsz := dsz d\<rparr>)"
    by (cases "resize no_string 0 0 w") (auto simp: redo_map_def Let_def split: if_splits)
  with w(1) e(4) assms(3) have "dname_remove_at n d = Inr (e\<lparr>dsz := dsz d - 1\<rparr>)" by (simp add: dname_remove_at_def)
  moreover have "e\<lparr>dsz := dsz d - 1\<rparr> = e" using e(4) by (cases e) simp
  ultimately have "dname_remove_at n d = Inr e" by simp
  moreover have "labels d = elems (dnames d)" using assms(2) by (auto simp: labels_def hasNames_def)
  ultimately show ?thesis using e w(3) by auto
qed

lemma prefix_loop:
  "k \<le> vsize ns \<Longrightarrow> \<exists>w. foldR (\<lambda>i w. bindR (vec_at w i) (\<lambda>s. setv (<) i (prefixed prefix (vsize w) i s) w)) [0..<k] ns = Inr w \<and>
     elems w = map (\<lambda>i. if i < k then prefixed prefix (vsize ns) i (elems ns ! i) else elems ns ! i) [0..<vsize ns] \<and>
     alloc w = alloc ns"
proof (induction k)
  case 0
  show ?case by (auto intro!: nth_equalityI)
next
  case (Suc k)
  then obtain w where w: "foldR (\<lambda>i w. bindR (vec_at w i) (\<lambda>s. setv (<) i (prefixed prefix (vsize w) i s) w)) [0..<k] ns = Inr w"
    "elems w = map (\<lambda>i. if i < k then prefixed prefix (vsize ns) i (elems ns ! i) else elems ns ! i) [0..<vsize ns]"
    "alloc w = alloc ns" by auto
  have l: "vsize w = vsize ns" using w(2) by simp
  obtain u where u: "setv (<) k (prefixed prefix (vsize w) k (elems w ! k)) w = Inr u"
    "elems u = (elems w)[k := prefixed prefix (vsize w) k (elems w ! k)]" "alloc u = alloc w"
    using mem_setv [of k w "(<)"] Suc.prems l by fastforce
  have "foldR (\<lambda>i w. bindR (vec_at w i) (\<lambda>s. setv (<) i (prefixed prefix (vsize w) i s) w)) [0..<Suc k] ns = Inr u"
    using w(1) u(1) Suc.prems l by (simp add: foldR_append)
  moreover have "elems u = map (\<lambda>i. if i < Suc k then prefixed prefix (vsize ns) i (elems ns ! i) else elems ns ! i) [0..<vsize ns]"
    using u(2) w(2) l Suc.prems by (intro nth_equalityI) (auto simp: nth_list_update less_Suc_eq)
  ultimately show ?case using u(3) w(3) by metis
qed

lemma addprefix_ok:
  assumes "dname_wf d" "prefix \<noteq> ''''"
  shows "\<exists>e. addprefix prefix d = Inr e \<and> dname_wf e \<and> map_ok e \<and> dsz e = dsz d \<and>
    labels e = map (\<lambda>i. prefixed prefix (dsz d) i (labels d ! i)) [0..<dsz d]"
proof -
  obtain ns where ns: "(if dsz d \<noteq> vsize (dnames d) then vec_init (<) no_string (dsz d) '''' (dnames d) else Inr (dnames d)) = Inr ns"
    "elems ns = labels d" "alloc ns \<noteq> NullAlloc"
    using mem_init [of "dnames d" "(<)" no_string "dsz d" "''''"] assms(1)
    by (cases "dsz d = vsize (dnames d)") (auto simp: dname_wf_def labels_def)
  have l: "vsize ns = dsz d" using ns(2) labels_length [OF assms(1)] by simp
  from prefix_loop [of "vsize ns" ns prefix] obtain w where
    w: "foldR (\<lambda>i w. bindR (vec_at w i) (\<lambda>s. setv (<) i (prefixed prefix (vsize w) i s) w)) [0..<vsize ns] ns = Inr w"
    "elems w = map (\<lambda>i. prefixed prefix (dsz d) i (labels d ! i)) [0..<dsz d]" "alloc w \<noteq> NullAlloc"
    using ns(2,3) l by (auto cong: map_cong)
  have "addprefix prefix d = Inr (d\<lparr>dnames := w, namesMap := putNamesInMap (elems w) []\<rparr>)"
    using assms(2) by (simp only: addprefix_def if_True ns(1) bindR.simps w(1) not_False_eq_True)
  with w(2,3) show ?thesis by (auto simp: dname_wf_def map_ok_def putNamesInMap_of labels_def)
qed

section \<open>Reachable name tables\<close>

text \<open>Name tables built by the operations; assigning a first name to an unnamed dimension is left out, since it
  does not enter the name into the map.\<close>

inductive built_dname :: "dname \<Rightarrow> bool" where
  built_mk: "alloc ns \<noteq> NullAlloc \<Longrightarrow> mk_dname n ns = Inr d \<Longrightarrow> built_dname d"
| built_resize: "built_dname d \<Longrightarrow> dname_resize n 0 d = Inr e \<Longrightarrow> built_dname e"
| built_assign: "built_dname d \<Longrightarrow> hasNames d \<or> s = '''' \<Longrightarrow> dname_assign i s d = Inr e \<Longrightarrow> built_dname e"
| built_addafter: "built_dname d \<Longrightarrow> addafter s d = Inr e \<Longrightarrow> built_dname e"
| built_addafter_dn: "built_dname d \<Longrightarrow> built_dname dn \<Longrightarrow> addafter_dn dn d = Inr e \<Longrightarrow> built_dname e"
| built_remove: "built_dname d \<Longrightarrow> dname_remove n d = Inr e \<Longrightarrow> built_dname e"
| built_remove_name: "built_dname d \<Longrightarrow> dname_remove_name nm d = Inr e \<Longrightarrow> built_dname e"
| built_addprefix: "built_dname d \<Longrightarrow> addprefix prefix d = Inr e \<Longrightarrow> built_dname e"

lemma remove_at_wf:
  assumes "dname_wf d" "dname_remove_at n d = Inr e"
  shows "hasNames d \<and> n < dsz d"
  using assms by (auto simp: dname_remove_at_def erase_one_def dname_wf_def hasNames_def split: if_splits)

lemma built_dname_ok: "built_dname d \<Longrightarrow> dname_wf d \<and> map_ok d"
proof (induction rule: built_dname.induct)
  case (built_mk ns n d)
  then show ?case using mk_dname_ok by blast
next
  case (built_resize d n e)
  then show ?case using resize_ok [of d n] by auto
next
  case (built_assign d s i e)
  then have "i < dsz d" by (auto simp: dname_assign_def split: if_splits)
  with built_assign show ?case using assign_ok [of d i s] by auto
next
  case (built_addafter d s e)
  then show ?case using addafter_ok [of d s] by auto
next
  case (built_addafter_dn d dn e)
  then show ?case using addafter_dn_ok [of d dn] by auto
next
  case (built_remove d n e)
  then have r: "dname_remove_at n d = Inr e" by (auto simp: dname_remove_def bindR_eq_Inr)
  from built_remove.IH remove_at_wf [OF _ r] remove_at_ok [of d n] r show ?case by auto
next
  case (built_remove_name d nm e)
  then obtain n where r: "dname_remove_at n d = Inr e" by (auto simp: dname_remove_name_def bindR_eq_Inr)
  from built_remove_name.IH remove_at_wf [OF _ r] remove_at_ok [of d n] r show ?case by auto
next
  case (built_addprefix d prefix e)
  then show ?case using addprefix_ok [of d prefix] by (cases "prefix = ''''") (auto simp: addprefix_def)
qed


definition dname_example :: dname where
  "dname_example = \<lparr>dsz = 3, dnames = empty_names\<lparr>elems := [''a'', '''', ''a''], ordered := False\<rparr>,
     namesMap = [(''a'', {0, 2})]\<rparr>"

lemma dname_example_mk: "mk_dname 3 (empty_names\<lparr>elems := [''a'', '''', ''a''], ordered := False\<rparr>) = Inr dname_example"
proof -
  have "[0..<3] = [0, 1, 2::nat]" by (simp add: upt_rec)
  then show ?thesis
    by (auto simp: mk_dname_def dname_example_def empty_names_def putNamesInMap_def put_name_def map_add_name_def)
qed

lemma built_dname_example: "built_dname dname_example"
  by (rule built_mk [OF _ dname_example_mk]) (simp add: empty_names_def)




text \<open>Assigning a first name does not enter it into the map; removing from an unnamed dimension erases from an
  empty vector.\<close>

lemma assign_first_name_not_found:
  "\<exists>e. dname_assign 1 ''a'' (dname_of_size 2) = Inr e \<and> labels e = ['''', ''a''] \<and>
     find_name e ''a'' = Inl (RangeError ''subscript out of bounds'')"
proof -
  have "dname_wf (dname_of_size 2)" by (simp add: dname_wf_def dname_of_size_def empty_names_def)
  from assign_ok [OF this, of 1 "''a''"] obtain e where
    e: "dname_assign 1 ''a'' (dname_of_size 2) = Inr e" "labels e = ['''', ''a'']"
    by (auto simp: dname_of_size_def labels_def empty_names_def numeral_2_eq_2)
  have "namesMap e = []" using e(1)
    by (auto simp: dname_assign_def dname_of_size_def hasNames_def empty_names_def bindR_eq_Inr)
  with e show ?thesis by (simp add: find_name_def)
qed

lemma remove_from_unnamed: "n < k \<Longrightarrow> dname_remove n (dname_of_size k) = Inl UB"
  by (simp add: dname_remove_def dname_remove_at_def name_at_def dname_of_size_def erase_one_def empty_names_def)

end
