(* ===== verification/Index.thy ===== *)
theory Index
  imports Dname Intervals
begin

text \<open>
  \<open>src/src/index.hpp\<close>: the seven kinds of array index, their enumeration of positions (\<open>getfirst\<close>, \<open>getnext\<close>), the
  selection and assignment of vector elements through an index, and the walk over the columns of an array. The
  vectors an index only reads within its bounds are lists here; the vectors it selects from and assigns to are
  \<open>vec\<close> values, with their checked subscripts and their ordered flags. The trace output of \<open>subassign_generic\<close>
  is left out. \<open>idx_type\<close> is \<open>size_t\<close>.
\<close>

section \<open>Index kinds\<close>

datatype index =
    NullIndex nat
  | IntIndex (int_vi: "nat list") (int_vidx: "nat list") (int_uidx: "nat list")
  | IntIndexNeg (neg_vi: "nat list") (neg_sz: nat)
  | NameIndex "string list" dname
  | BoolIndex "bool list"
  | DtimeIndex "dtime list" "dtime list"
  | IntervalIndex "interval list" "dtime list"

text \<open>The constructor of \<open>IntIndex_T\<close>: \<open>idx\<close> holds the positions of \<open>vi\<close> in increasing order of their elements.\<close>

definition mk_IntIndex :: "nat vec \<Rightarrow> index" where
  "mk_IntIndex vi =
     (if ordered vi then IntIndex (elems vi) (elems vi) [0..<vsize vi]
      else
        let idx = sort_idx 0 vi;
            write = (\<lambda>j (vidx, uidx). (vidx[idx ! j := elems vi ! j], uidx[idx ! j := j]));
            (vidx, uidx) = fold write [0..<length idx] (replicate (vsize vi) 0, replicate (vsize vi) 0)
        in IntIndex (elems vi) vidx uidx)"

text \<open>The constructor of \<open>IntIndexNeg_T\<close>: sorted without repetition unless the flag says it is ordered.\<close>

definition mk_IntIndexNeg :: "nat vec \<Rightarrow> nat \<Rightarrow> index res" where
  "mk_IntIndexNeg vi sz =
     (let es = (if vsize vi \<noteq> 0 \<and> \<not> ordered vi then remdups_adj (sort (elems vi)) else elems vi) in
      if length es \<noteq> 0 \<and> (es ! (length es - 1) \<ge> sz \<or> sz = 0)
      then Inl (RangeError ''subscript out of bounds'')
      else Inr (IntIndexNeg es sz))"

section \<open>Enumeration\<close>

text \<open>\<open>getfirst(val, i)\<close> and \<open>getnext(val, i)\<close> return a flag and update both counters.\<close>

type_synonym cursor = "nat \<times> nat"

function neg_skip :: "nat list \<Rightarrow> nat \<Rightarrow> cursor \<Rightarrow> cursor" where
  "neg_skip vi sz (iv, ii) =
     (if ii < length vi \<and> vi ! ii = iv
      then neg_skip vi sz (if iv < sz then iv + 1 else iv, ii + 1)
      else (iv, ii))"
  by pat_completeness auto
termination
  by (relation "measure (\<lambda>(vi, sz, iv, ii). length vi - ii)") auto

definition neg_getfirst :: "nat list \<Rightarrow> nat \<Rightarrow> bool \<times> cursor" where
  "neg_getfirst vi sz =
     (let (iv, ii) = neg_skip vi sz (0, 0) in
      if iv = sz then (False, (0, 0)) else (True, (iv, ii)))"

definition neg_getnext :: "nat list \<Rightarrow> nat \<Rightarrow> cursor \<Rightarrow> bool \<times> cursor" where
  "neg_getnext vi sz c =
     (let (iv, ii) = neg_skip vi sz (fst c + 1, snd c) in
      if iv = sz then (False, snd (neg_getfirst vi sz)) else (True, (iv, ii)))"

text \<open>The loop of \<open>BoolIndex::getfirst\<close>, and that of \<open>BoolIndex::getnext\<close>, whose condition and whose increment both
  advance the counter.\<close>

function bool_scan :: "bool list \<Rightarrow> nat \<Rightarrow> nat \<Rightarrow> bool \<times> cursor" where
  "bool_scan vb val i =
     (if i < length vb then (if vb ! i then (True, (i, i)) else bool_scan vb val (i + 1)) else (False, (val, i)))"
  by pat_completeness auto
termination
  by (relation "measure (\<lambda>(vb, val, i). length vb - i)") auto

function bool_scan2 :: "bool list \<Rightarrow> nat \<Rightarrow> nat \<Rightarrow> bool \<times> cursor" where
  "bool_scan2 vb val i =
     (if i + 1 < length vb
      then (if vb ! (i + 1) then (True, (i + 1, i + 1)) else bool_scan2 vb val (i + 2))
      else (False, (val, i + 1)))"
  by pat_completeness auto
termination
  by (relation "measure (\<lambda>(vb, val, i). length vb - i)") auto

definition bool_getnext :: "bool list \<Rightarrow> cursor \<Rightarrow> bool \<times> cursor" where
  "bool_getnext vb c =
     (let (b, (val, i)) = bool_scan2 vb (fst c) (snd c) in
      if b then (True, (val, i)) else (False, snd (bool_scan vb val 0)))"

text \<open>\<open>bsearch\<close> of the C library over \<open>[l, u)\<close>.\<close>

function bsearch :: "dtime \<Rightarrow> dtime list \<Rightarrow> nat \<Rightarrow> nat \<Rightarrow> nat option" where
  "bsearch key base l u =
     (if l < u then
        let k = (l + u) div 2 in
        if key < base ! k then bsearch key base l k
        else if key > base ! k then bsearch key base (k + 1) u
        else Some k
      else None)"
  by pat_completeness auto
termination
  by (relation "measure (\<lambda>(key, base, l, u). u - l)") auto

function dtime_getfirst :: "dtime list \<Rightarrow> dtime list \<Rightarrow> cursor \<Rightarrow> bool \<times> cursor" where
  "dtime_getfirst idx vd (val, i) =
     (if i < length idx
      then (case bsearch (idx ! i) vd 0 (length vd) of
              Some p \<Rightarrow> (True, (p, i))
            | None \<Rightarrow> dtime_getfirst idx vd (val, i + 1))
      else (False, (val, i)))"
  by pat_completeness auto
termination
  by (relation "measure (\<lambda>(idx, vd, val, i). length idx - i)") auto

text \<open>\<open>std::lower_bound\<close> and \<open>std::upper_bound\<close> on a sorted range.\<close>

definition lower_bound :: "dtime list \<Rightarrow> dtime \<Rightarrow> nat" where
  "lower_bound vi s = length (takeWhile (\<lambda>x. x < s) vi)"

definition upper_bound :: "dtime list \<Rightarrow> dtime \<Rightarrow> nat" where
  "upper_bound vi s = length (takeWhile (\<lambda>x. x \<le> s) vi)"

definition before_iv :: "dtime \<Rightarrow> interval \<Rightarrow> bool" where
  "before_iv t i \<longleftrightarrow> (if \<not> sopen i then t < istart i else t \<le> istart i)"

definition after_iv :: "dtime \<Rightarrow> interval \<Rightarrow> bool" where
  "after_iv t i \<longleftrightarrow> (if \<not> eopen i then t > iend i else t \<ge> iend i)"

function interval_getfirst :: "interval list \<Rightarrow> dtime list \<Rightarrow> cursor \<Rightarrow> bool \<times> cursor" where
  "interval_getfirst idx vi (val, i) =
     (if i < length idx then
        let p = (if sopen (idx ! i) then upper_bound vi (istart (idx ! i)) else lower_bound vi (istart (idx ! i))) in
        if p = length vi \<or> after_iv (vi ! p) (idx ! i)
        then interval_getfirst idx vi (p, i + 1)
        else (True, (p, i))
      else (False, (val, i)))"
  by pat_completeness auto
termination
  by (relation "measure (\<lambda>(idx, vi, val, i). length idx - i)") auto

function interval_next_loop :: "interval list \<Rightarrow> dtime list \<Rightarrow> cursor \<Rightarrow> bool \<times> cursor" where
  "interval_next_loop idx vi (val, i) =
     (if val < length vi \<and> i < length idx then
        if before_iv (vi ! val) (idx ! i) then interval_next_loop idx vi (val + 1, i)
        else if after_iv (vi ! val) (idx ! i) then interval_getfirst idx vi (val, i + 1)
        else (True, (val, i))
      else (False, (val, i)))"
  by pat_completeness auto
termination
  by (relation "measure (\<lambda>(idx, vi, val, i). length vi - val)") auto

definition interval_getnext :: "interval list \<Rightarrow> dtime list \<Rightarrow> cursor \<Rightarrow> bool \<times> cursor" where
  "interval_getnext idx vi c = interval_next_loop idx vi (fst c + 1, snd c)"

definition null_getfirst :: "nat \<Rightarrow> bool \<times> cursor" where
  "null_getfirst sz = (sz > 0, (0, 0))"

definition null_getnext :: "nat \<Rightarrow> nat \<Rightarrow> bool \<times> cursor" where
  "null_getnext sz i = (if i + 1 < sz then (True, (i + 1, i + 1)) else (False, (0, 0)))"

definition int_getfirst :: "nat list \<Rightarrow> cursor \<Rightarrow> bool \<times> cursor" where
  "int_getfirst vi c = (if length vi \<noteq> 0 then (True, (vi ! 0, 0)) else (False, c))"

definition int_getnext :: "nat list \<Rightarrow> nat \<Rightarrow> nat \<Rightarrow> bool \<times> cursor" where
  "int_getnext vi iv ii =
     (if length vi \<noteq> 0 then
        (if ii + 1 < length vi then (True, (vi ! (ii + 1), ii + 1)) else (False, (vi ! 0, 0)))
      else (False, (iv, ii)))"

definition name_getfirst :: "string list \<Rightarrow> dname \<Rightarrow> cursor \<Rightarrow> (bool \<times> cursor) res" where
  "name_getfirst vs ns c =
     (if length vs \<noteq> 0 then bindR (find_name ns (vs ! 0)) (\<lambda>k. Inr (True, (k, 0))) else Inr (False, c))"

definition name_getnext :: "string list \<Rightarrow> dname \<Rightarrow> nat \<Rightarrow> nat \<Rightarrow> (bool \<times> cursor) res" where
  "name_getnext vs ns val i =
     (if i + 1 < length vs then bindR (find_name ns (vs ! (i + 1))) (\<lambda>k. Inr (True, (k, i + 1)))
      else bindR (name_getfirst vs ns (val, i + 1)) (\<lambda>(_, c). Inr (False, c)))"

declare null_getfirst_def [simp] null_getnext_def [simp] int_getfirst_def [simp] int_getnext_def [simp]
  name_getfirst_def [simp] name_getnext_def [simp]

text \<open>The dispatch on the kind of the variant.\<close>

fun getfirst :: "index \<Rightarrow> cursor \<Rightarrow> (bool \<times> cursor) res" where
  "getfirst (NullIndex sz) c = Inr (null_getfirst sz)"
| "getfirst (IntIndex vi vidx uidx) c = Inr (int_getfirst vi c)"
| "getfirst (IntIndexNeg vi sz) c = Inr (neg_getfirst vi sz)"
| "getfirst (NameIndex vs ns) c = name_getfirst vs ns c"
| "getfirst (BoolIndex vb) c = Inr (bool_scan vb (fst c) 0)"
| "getfirst (DtimeIndex idx vd) c = Inr (dtime_getfirst idx vd c)"
| "getfirst (IntervalIndex idx vi) c = Inr (interval_getfirst idx vi c)"

fun getnext :: "index \<Rightarrow> cursor \<Rightarrow> (bool \<times> cursor) res" where
  "getnext (NullIndex sz) (val, i) = Inr (null_getnext sz i)"
| "getnext (IntIndex vi vidx uidx) (iv, ii) = Inr (int_getnext vi iv ii)"
| "getnext (IntIndexNeg vi sz) c = Inr (neg_getnext vi sz c)"
| "getnext (NameIndex vs ns) (val, i) = name_getnext vs ns val i"
| "getnext (BoolIndex vb) c = Inr (bool_getnext vb c)"
| "getnext (DtimeIndex idx vd) (val, i) = Inr (dtime_getfirst idx vd (val, i + 1))"
| "getnext (IntervalIndex idx vi) c = Inr (interval_getnext idx vi c)"

section \<open>Sizes\<close>

text \<open>The merge loops of \<open>DtimeIndex\<close> and \<open>IntervalIndex\<close> (\<open>trueSize\<close> and \<open>selectNames\<close>): the positions of the
  indexed vector they stop at.\<close>

function dtime_merge :: "dtime list \<Rightarrow> dtime list \<Rightarrow> nat \<Rightarrow> nat \<Rightarrow> nat list" where
  "dtime_merge idx vd iv ii =
     (if iv < length vd \<and> ii < length idx then
        if vd ! iv < idx ! ii then dtime_merge idx vd (iv + 1) ii
        else if vd ! iv > idx ! ii then dtime_merge idx vd iv (ii + 1)
        else iv # dtime_merge idx vd (iv + 1) (ii + 1)
      else [])"
  by pat_completeness auto
termination
  by (relation "measure (\<lambda>(idx, vd, iv, ii). (length vd - iv) + (length idx - ii))") auto

function interval_merge :: "interval list \<Rightarrow> dtime list \<Rightarrow> nat \<Rightarrow> nat \<Rightarrow> nat list" where
  "interval_merge idx vi iv ii =
     (if iv < length vi \<and> ii < length idx then
        if before_iv (vi ! iv) (idx ! ii) then interval_merge idx vi (iv + 1) ii
        else if after_iv (vi ! iv) (idx ! ii) then interval_merge idx vi iv (ii + 1)
        else iv # interval_merge idx vi (iv + 1) ii
      else [])"
  by pat_completeness auto
termination
  by (relation "measure (\<lambda>(idx, vi, iv, ii). (length vi - iv) + (length idx - ii))") auto

fun index_size :: "index \<Rightarrow> nat" where
  "index_size (NullIndex sz) = sz"
| "index_size (IntIndex vi _ _) = length vi"
| "index_size (IntIndexNeg vi sz) = size_sub sz (length vi)"
| "index_size (NameIndex vs _) = length vs"
| "index_size (BoolIndex vb) = length (filter id vb)"
| "index_size (DtimeIndex idx vd) = length idx"
| "index_size (IntervalIndex idx vi) = length vi"

fun trueSize :: "index \<Rightarrow> nat" where
  "trueSize (NullIndex sz) = index_size (NullIndex sz)"
| "trueSize (IntIndex vi vidx uidx) = length vi"
| "trueSize (IntIndexNeg vi sz) = size_sub sz (length vi)"
| "trueSize (NameIndex vs ns) = length vs"
| "trueSize (BoolIndex vb) = index_size (BoolIndex vb)"
| "trueSize (DtimeIndex idx vd) = length (dtime_merge idx vd 0 0)"
| "trueSize (IntervalIndex idx vi) = length (interval_merge idx vi 0 0)"

section \<open>Selection\<close>

text \<open>The loop \<open>getfirst\<close>, \<open>push_back\<close>, \<open>getnext\<close>, ... of the time indices, from a cursor on.\<close>

partial_function (option) select_loop ::
  "index \<Rightarrow> ('a \<Rightarrow> 'a \<Rightarrow> bool) \<Rightarrow> 'a vec \<Rightarrow> 'a vec \<Rightarrow> (bool \<times> cursor) res \<Rightarrow> 'a vec res option" where
  "select_loop idx cmp rv v m =
     (case m of
        Inl e \<Rightarrow> Some (Inl e)
      | Inr bc \<Rightarrow>
          if \<not> fst bc then Some (Inr rv)
          else (case bindR (vec_at v (fst (snd bc))) (\<lambda>x. push_back cmp x rv) of
                  Inl e \<Rightarrow> Some (Inl e)
                | Inr rv1 \<Rightarrow> select_loop idx cmp rv1 v (getnext idx (snd bc))))"

definition push_at :: "('a \<Rightarrow> 'a \<Rightarrow> bool) \<Rightarrow> 'a vec \<Rightarrow> nat \<Rightarrow> 'a vec \<Rightarrow> 'a vec res" where
  "push_at cmp v j rv = bindR (vec_at v j) (\<lambda>x. push_back cmp x rv)"

definition neg_subset_step :: "('a \<Rightarrow> 'a \<Rightarrow> bool) \<Rightarrow> nat list \<Rightarrow> 'a vec \<Rightarrow> nat \<Rightarrow> 'a vec \<times> nat \<Rightarrow> ('a vec \<times> nat) res" where
  "neg_subset_step cmp vi v j st =
     (if snd st < length vi \<and> vi ! snd st = j then Inr (fst st, snd st + 1)
      else bindR (push_at cmp v j (fst st)) (\<lambda>rv. Inr (rv, snd st)))"

definition int_subset :: "('a \<Rightarrow> 'a \<Rightarrow> bool) \<Rightarrow> nat list \<Rightarrow> 'a vec \<Rightarrow> 'a vec \<Rightarrow> 'a vec res" where
  "int_subset cmp vi rv v =
     foldR (\<lambda>j rv. if vi ! j \<ge> vsize v then Inl (RangeError ''subscript out of bounds'')
                   else push_at cmp v (vi ! j) rv) [0..<length vi] rv"

definition neg_subset :: "('a \<Rightarrow> 'a \<Rightarrow> bool) \<Rightarrow> nat list \<Rightarrow> nat \<Rightarrow> 'a vec \<Rightarrow> 'a vec \<Rightarrow> 'a vec res" where
  "neg_subset cmp vi sz rv v = bindR (foldR (neg_subset_step cmp vi v) [0..<sz] (rv, 0)) (\<lambda>(rv, _). Inr rv)"

definition name_subset :: "('a \<Rightarrow> 'a \<Rightarrow> bool) \<Rightarrow> string list \<Rightarrow> dname \<Rightarrow> 'a vec \<Rightarrow> 'a vec \<Rightarrow> 'a vec res" where
  "name_subset cmp vs ns rv v =
     foldR (\<lambda>j rv. bindR (find_name ns (vs ! j)) (\<lambda>k. push_at cmp v k rv)) [0..<length vs] rv"

definition bool_subset :: "('a \<Rightarrow> 'a \<Rightarrow> bool) \<Rightarrow> bool list \<Rightarrow> 'a vec \<Rightarrow> 'a vec \<Rightarrow> 'a vec res" where
  "bool_subset cmp vb rv v = foldR (\<lambda>j rv. if vb ! j then push_at cmp v j rv else Inr rv) [0..<length vb] rv"

definition dtime_subset :: "('a \<Rightarrow> 'a \<Rightarrow> bool) \<Rightarrow> dtime list \<Rightarrow> dtime list \<Rightarrow> 'a vec \<Rightarrow> 'a vec \<Rightarrow> 'a vec res option" where
  "dtime_subset cmp idx vd rv v =
     (if length vd \<noteq> vsize v
      then Some (Inl (RangeError ''size mismatch between vector to subset and time index''))
      else select_loop (DtimeIndex idx vd) cmp rv v (getfirst (DtimeIndex idx vd) (0, 0)))"

definition interval_subset :: "('a \<Rightarrow> 'a \<Rightarrow> bool) \<Rightarrow> interval list \<Rightarrow> dtime list \<Rightarrow> 'a vec \<Rightarrow> 'a vec \<Rightarrow> 'a vec res option" where
  "interval_subset cmp idx vi rv v =
     (if length vi \<noteq> vsize v
      then Some (Inl (RangeError ''size mismatch between vector to subset and time index''))
      else select_loop (IntervalIndex idx vi) cmp rv v (getfirst (IntervalIndex idx vi) (0, 0)))"

declare int_subset_def [simp] neg_subset_def [simp] name_subset_def [simp] bool_subset_def [simp]
  dtime_subset_def [simp] interval_subset_def [simp]

fun subset :: "('a \<Rightarrow> 'a \<Rightarrow> bool) \<Rightarrow> index \<Rightarrow> 'a vec \<Rightarrow> 'a vec \<Rightarrow> 'a vec res option" where
  "subset cmp (NullIndex sz) rv v = Some (Inr v)"
| "subset cmp (IntIndex vi vidx uidx) rv v = Some (int_subset cmp vi rv v)"
| "subset cmp (IntIndexNeg vi sz) rv v = Some (neg_subset cmp vi sz rv v)"
| "subset cmp (NameIndex vs ns) rv v = Some (name_subset cmp vs ns rv v)"
| "subset cmp (BoolIndex vb) rv v = Some (bool_subset cmp vb rv v)"
| "subset cmp (DtimeIndex idx vd) rv v = dtime_subset cmp idx vd rv v"
| "subset cmp (IntervalIndex idx vi) rv v = interval_subset cmp idx vi rv v"

text \<open>The variants that treat the columns of a matrix as one vector: \<open>v\<close> holds the positions from \<open>pos\<close> on, and
  \<open>ii\<close>, \<open>iv\<close> keep their values from one column to the next.\<close>

function int_subset_col :: "('a \<Rightarrow> 'a \<Rightarrow> bool) \<Rightarrow> nat list \<Rightarrow> 'a vec \<Rightarrow> nat \<Rightarrow> nat \<Rightarrow> 'a vec \<Rightarrow> ('a vec \<times> nat) res" where
  "int_subset_col cmp vi v ii pos rv =
     (if ii < length vi then
        if vi ! ii < pos \<or> vi ! ii \<ge> vsize v + pos then Inr (rv, ii)
        else (case push_at cmp v (vi ! ii - pos) rv of
                Inl e \<Rightarrow> Inl e | Inr rv1 \<Rightarrow> int_subset_col cmp vi v (ii + 1) pos rv1)
      else Inr (rv, ii))"
  by pat_completeness auto
termination
  by (relation "measure (\<lambda>(cmp, vi, v, ii, pos, rv). length vi - ii)") auto

function neg_subset_col :: "('a \<Rightarrow> 'a \<Rightarrow> bool) \<Rightarrow> nat list \<Rightarrow> nat \<Rightarrow> 'a vec \<Rightarrow> nat \<Rightarrow> nat \<Rightarrow> nat \<Rightarrow> 'a vec
    \<Rightarrow> ('a vec \<times> nat \<times> nat) res" where
  "neg_subset_col cmp vi sz v ii iv pos rv =
     (if iv < sz then
        if iv \<ge> pos + vsize v then Inr (rv, ii, iv)
        else if ii < length vi \<and> vi ! ii = iv then neg_subset_col cmp vi sz v (ii + 1) (iv + 1) pos rv
        else (case push_at cmp v (size_sub iv pos) rv of
                Inl e \<Rightarrow> Inl e | Inr rv1 \<Rightarrow> neg_subset_col cmp vi sz v ii (iv + 1) pos rv1)
      else Inr (rv, ii, iv))"
  by pat_completeness auto
termination
  by (relation "measure (\<lambda>(cmp, vi, sz, v, ii, iv, pos, rv). sz - iv)") auto

definition bool_subset_col :: "('a \<Rightarrow> 'a \<Rightarrow> bool) \<Rightarrow> bool list \<Rightarrow> 'a vec \<Rightarrow> nat \<Rightarrow> 'a vec \<Rightarrow> ('a vec \<times> nat) res" where
  "bool_subset_col cmp vb v ii rv =
     foldR (\<lambda>j (rv, ii). if ii \<ge> length vb then Inl (RangeError ''subscript out of bounds'')
                         else if vb ! ii then bindR (push_at cmp v j rv) (\<lambda>rv1. Inr (rv1, ii + 1))
                         else Inr (rv, ii + 1)) [0..<vsize v] (rv, ii)"

fun subset_col :: "('a \<Rightarrow> 'a \<Rightarrow> bool) \<Rightarrow> index \<Rightarrow> 'a vec \<Rightarrow> 'a vec \<Rightarrow> nat \<Rightarrow> nat \<Rightarrow> nat \<Rightarrow> ('a vec \<times> nat \<times> nat) res" where
  "subset_col cmp (NullIndex sz) rv v ii iv pos = Inr (v, ii, iv)"
| "subset_col cmp (IntIndex vi vidx uidx) rv v ii iv pos =
     bindR (int_subset_col cmp vi v ii pos rv) (\<lambda>(rv, ii). Inr (rv, ii, iv))"
| "subset_col cmp (IntIndexNeg vi sz) rv v ii iv pos = neg_subset_col cmp vi sz v ii iv pos rv"
| "subset_col cmp (BoolIndex vb) rv v ii iv pos =
     bindR (bool_subset_col cmp vb v ii rv) (\<lambda>(rv, ii). Inr (rv, ii, iv))"
| "subset_col cmp _ rv v ii iv pos = Inl (RangeError ''can't do a vector subset with this index type'')"

section \<open>Assignment\<close>

definition checked_write :: "('a \<Rightarrow> 'a \<Rightarrow> bool) \<Rightarrow> bool \<Rightarrow> nat \<Rightarrow> 'a \<Rightarrow> 'a vec \<Rightarrow> 'a vec res" where
  "checked_write cmp followed j x rv = (if followed then setv_checkbefore cmp j x rv else setv cmp j x rv)"

text \<open>The \<open>while (idx.getnext(nextj, ii))\<close> loop of \<open>subassign_generic\<close>; \<open>src\<close> reads the element to assign.\<close>

partial_function (option) subassign_loop ::
  "index \<Rightarrow> ('a \<Rightarrow> 'a \<Rightarrow> bool) \<Rightarrow> (nat \<Rightarrow> 'a res) \<Rightarrow> nat \<Rightarrow> cursor \<Rightarrow> nat \<Rightarrow> 'a vec \<Rightarrow> ('a vec \<times> nat) res option" where
  "subassign_loop idx cmp src j c vj rv =
     (case getnext idx c of
        Inl e \<Rightarrow> Some (Inl e)
      | Inr bc \<Rightarrow>
          if fst bc then
            (case bindR (src vj) (\<lambda>x. checked_write cmp (size_sub (fst (snd bc)) j \<le> 1) j x rv) of
               Inl e \<Rightarrow> Some (Inl e)
             | Inr rv1 \<Rightarrow> subassign_loop idx cmp src (fst (snd bc)) (snd bc) (vj + 1) rv1)
          else Some (bindR (src vj) (\<lambda>x. bindR (setv cmp j x rv) (\<lambda>rv1. Inr (rv1, vj + 1)))))"

definition subassign_generic ::
  "index \<Rightarrow> ('a \<Rightarrow> 'a \<Rightarrow> bool) \<Rightarrow> (nat \<Rightarrow> 'a res) \<Rightarrow> nat \<Rightarrow> 'a vec \<Rightarrow> ('a vec \<times> nat) res option" where
  "subassign_generic idx cmp src vj rv =
     (case getfirst idx (0, 0) of
        Inl e \<Rightarrow> Some (Inl e)
      | Inr bc \<Rightarrow> if \<not> fst bc then Some (Inr (rv, vj))
                  else subassign_loop idx cmp src (fst (snd bc)) (snd bc) vj rv)"

text \<open>The elements to assign are read with the subscript operator of a vector or an array, a parameter here.\<close>

definition null_subassign :: "('a \<Rightarrow> 'a \<Rightarrow> bool) \<Rightarrow> ('u \<Rightarrow> 'a) \<Rightarrow> (nat \<Rightarrow> 'u res) \<Rightarrow> nat \<Rightarrow> 'a vec \<Rightarrow> ('a vec \<times> nat) res" where
  "null_subassign cmp conv u vj rv =
     foldR (\<lambda>j (rv, vj). bindR (u vj) (\<lambda>x. bindR (setv_checkbefore cmp j (conv x) rv) (\<lambda>rv1. Inr (rv1, vj + 1))))
       [0..<vsize rv] (rv, vj)"

definition int_subassign :: "('a \<Rightarrow> 'a \<Rightarrow> bool) \<Rightarrow> ('u \<Rightarrow> 'a) \<Rightarrow> nat list \<Rightarrow> nat list \<Rightarrow> nat list \<Rightarrow> (nat \<Rightarrow> 'u res) \<Rightarrow> nat \<Rightarrow> 'a vec
    \<Rightarrow> ('a vec \<times> nat) res" where
  "int_subassign cmp conv vi vidx uidx u vj rv =
     bindR
       (foldR (\<lambda>j rv. bindR (u (vj + uidx ! j)) (\<lambda>x.
          checked_write cmp (j + 1 < length vi \<and> size_sub (vidx ! (j + 1)) (vidx ! j) = 1) (vidx ! j) (conv x) rv))
          [0..<length vi] rv)
       (\<lambda>rv1. Inr (rv1, vj + length vi))"

declare null_subassign_def [simp] int_subassign_def [simp]

fun subassign :: "('a \<Rightarrow> 'a \<Rightarrow> bool) \<Rightarrow> ('u \<Rightarrow> 'a) \<Rightarrow> index \<Rightarrow> (nat \<Rightarrow> 'u res) \<Rightarrow> nat \<Rightarrow> 'a vec \<Rightarrow> ('a vec \<times> nat) res option" where
  "subassign cmp conv (NullIndex sz) u vj rv = Some (null_subassign cmp conv u vj rv)"
| "subassign cmp conv (IntIndex vi vidx uidx) u vj rv = Some (int_subassign cmp conv vi vidx uidx u vj rv)"
| "subassign cmp conv idx u vj rv = subassign_generic idx cmp (\<lambda>k. bindR (u k) (\<lambda>x. Inr (conv x))) vj rv"

definition null_subassignScalar :: "('a \<Rightarrow> 'a \<Rightarrow> bool) \<Rightarrow> 'a \<Rightarrow> 'a vec \<Rightarrow> 'a vec res" where
  "null_subassignScalar cmp x rv = foldR (\<lambda>j rv. setv cmp j x rv) [0..<vsize rv] rv"

definition int_subassignScalar :: "('a \<Rightarrow> 'a \<Rightarrow> bool) \<Rightarrow> nat list \<Rightarrow> nat list \<Rightarrow> 'a \<Rightarrow> 'a vec \<Rightarrow> 'a vec res" where
  "int_subassignScalar cmp vi vidx x rv =
     foldR (\<lambda>j rv. checked_write cmp (j + 1 < length vi \<and> size_sub (vidx ! (j + 1)) (vidx ! j) = 1) (vidx ! j) x rv)
       [0..<length vi] rv"

text \<open>\<open>subassignScalar_generic\<close> is the loop of \<open>subassign_generic\<close> with a constant element.\<close>

definition subassignScalar_generic :: "index \<Rightarrow> ('a \<Rightarrow> 'a \<Rightarrow> bool) \<Rightarrow> 'a \<Rightarrow> 'a vec \<Rightarrow> 'a vec res option" where
  "subassignScalar_generic idx cmp x rv =
     map_option (\<lambda>m. bindR m (\<lambda>(rv1, _). Inr rv1)) (subassign_generic idx cmp (\<lambda>_. Inr x) 0 rv)"

fun subassignScalar :: "('a \<Rightarrow> 'a \<Rightarrow> bool) \<Rightarrow> ('u \<Rightarrow> 'a) \<Rightarrow> index \<Rightarrow> 'u \<Rightarrow> 'a vec \<Rightarrow> 'a vec res option" where
  "subassignScalar cmp conv (NullIndex sz) u rv = Some (null_subassignScalar cmp (conv u) rv)"
| "subassignScalar cmp conv (IntIndex vi vidx uidx) u rv = Some (int_subassignScalar cmp vi vidx (conv u) rv)"
| "subassignScalar cmp conv idx u rv = subassignScalar_generic idx cmp (conv u) rv"

section \<open>Names\<close>

definition add_from :: "dname \<Rightarrow> nat \<Rightarrow> dname \<Rightarrow> dname res" where
  "add_from from j to = bindR (vec_at (dnames from) j) (\<lambda>s. addafter s to)"

definition neg_names_step :: "nat list \<Rightarrow> dname \<Rightarrow> nat \<Rightarrow> dname \<times> nat \<Rightarrow> (dname \<times> nat) res" where
  "neg_names_step vi from j st =
     (if dsz from \<le> j then Inl (RangeError ''subscript out of bounds'')
      else if \<not> (snd st < length vi \<and> vi ! snd st = j)
      then bindR (add_from from j (fst st)) (\<lambda>to. Inr (to, snd st))
      else Inr (fst st, snd st + 1))"

definition int_selectNames :: "nat list \<Rightarrow> dname \<Rightarrow> dname \<Rightarrow> dname res" where
  "int_selectNames vi to from =
     (if vsize (dnames from) > 0
      then foldR (\<lambda>j to. if dsz from \<le> vi ! j then Inl (RangeError ''subscript out of bounds'')
                         else add_from from (vi ! j) to) [0..<length vi] to
      else Inr (dname_of_size (length vi)))"

definition neg_selectNames :: "nat list \<Rightarrow> nat \<Rightarrow> dname \<Rightarrow> dname \<Rightarrow> dname res" where
  "neg_selectNames vi sz to from =
     (if vsize (dnames from) > 0
      then bindR (foldR (neg_names_step vi from) [0..<sz] (to, 0)) (\<lambda>(to, _). Inr to)
      else Inr (dname_of_size (index_size (IntIndexNeg vi sz))))"

definition name_selectNames :: "string list \<Rightarrow> dname \<Rightarrow> dname \<Rightarrow> dname res" where
  "name_selectNames vs to from =
     foldR (\<lambda>j to. bindR (find_name from (vs ! j)) (\<lambda>_. addafter (vs ! j) to)) [0..<length vs] to"

definition bool_selectNames :: "bool list \<Rightarrow> dname \<Rightarrow> dname \<Rightarrow> dname res" where
  "bool_selectNames vb to from =
     (if vsize (dnames from) > 0
      then foldR (\<lambda>j to. if vb ! j then (if dsz from \<le> j then Inl (RangeError ''subscript out of bounds'')
                                         else add_from from j to)
                         else Inr to) [0..<length vb] to
      else Inr (dname_of_size (index_size (BoolIndex vb))))"

definition dtime_selectNames :: "dtime list \<Rightarrow> dtime list \<Rightarrow> dname \<Rightarrow> dname \<Rightarrow> dname res" where
  "dtime_selectNames idx vd to from =
     (if vsize (dnames from) > 0
      then foldR (add_from from) (dtime_merge idx vd 0 0) to
      else Inr (dname_of_size (index_size (DtimeIndex idx vd))))"

definition interval_selectNames :: "interval list \<Rightarrow> dtime list \<Rightarrow> dname \<Rightarrow> dname \<Rightarrow> dname res" where
  "interval_selectNames idx vi to from =
     (if vsize (dnames from) > 0
      then foldR (add_from from) (interval_merge idx vi 0 0) to
      else Inr (dname_of_size (index_size (IntervalIndex idx vi))))"

declare int_selectNames_def [simp] neg_selectNames_def [simp] bool_selectNames_def [simp]

fun selectNames :: "index \<Rightarrow> dname \<Rightarrow> dname \<Rightarrow> dname res" where
  "selectNames (NullIndex sz) to from = Inr from"
| "selectNames (IntIndex vi vidx uidx) to from = int_selectNames vi to from"
| "selectNames (IntIndexNeg vi sz) to from = neg_selectNames vi sz to from"
| "selectNames (NameIndex vs ns) to from = name_selectNames vs to from"
| "selectNames (BoolIndex vb) to from = bool_selectNames vb to from"
| "selectNames (DtimeIndex idx vd) to from = dtime_selectNames idx vd to from"
| "selectNames (IntervalIndex idx vi) to from = interval_selectNames idx vi to from"

section \<open>Columns\<close>

text \<open>The column addressed by the values of the dimensions from 1 on; both functions compute it the same way.\<close>

definition column_of :: "nat list \<Rightarrow> nat list \<Rightarrow> nat res" where
  "column_of val dim =
     bindR (foldR (\<lambda>k (col, mul). if val ! k \<ge> dim ! k then Inl (RangeError ''subscript out of bounds'')
                                  else Inr (col + val ! k * mul, mul * dim ! k)) [1..<length dim] (0, 1))
       (\<lambda>(col, _). Inr col)"

type_synonym cursors = "nat list \<times> nat list"

text \<open>\<open>getfirstcol\<close> starts the cursors of the dimensions \<open>pd, pd + 1, ...\<close>; it stops at the first empty one.\<close>

function firsts_from :: "index list \<Rightarrow> nat \<Rightarrow> nat \<Rightarrow> cursors \<Rightarrow> (bool \<times> cursors) res" where
  "firsts_from i n pd (val, pi) =
     (if pd < n then
        (case getfirst (i ! pd) (val ! pd, pi ! pd) of
           Inl e \<Rightarrow> Inl e
         | Inr bc \<Rightarrow>
             if fst bc then firsts_from i n (pd + 1) (val[pd := fst (snd bc)], pi[pd := snd (snd bc)])
             else Inr (False, (val[pd := fst (snd bc)], pi[pd := snd (snd bc)])))
      else Inr (True, (val, pi)))"
  by pat_completeness auto
termination
  by (relation "measure (\<lambda>(i, n, pd, vp). n - pd)") auto

definition getfirstcol :: "index list \<Rightarrow> nat list \<Rightarrow> cursors \<Rightarrow> (bool \<times> nat \<times> cursors) res" where
  "getfirstcol i dim vp =
     bindR (firsts_from i (length dim) 1 vp) (\<lambda>(b, vp1).
       if b then bindR (column_of (fst vp1) dim) (\<lambda>col. Inr (True, col, vp1)) else Inr (False, 0, vp1))"

function nexts_from :: "index list \<Rightarrow> nat \<Rightarrow> nat \<Rightarrow> cursors \<Rightarrow> (nat \<times> cursors) res" where
  "nexts_from i n pd (val, pi) =
     (if pd < n then
        (case getnext (i ! pd) (val ! pd, pi ! pd) of
           Inl e \<Rightarrow> Inl e
         | Inr bc \<Rightarrow>
             if fst bc then Inr (pd, (val[pd := fst (snd bc)], pi[pd := snd (snd bc)]))
             else nexts_from i n (pd + 1) (val[pd := fst (snd bc)], pi[pd := snd (snd bc)]))
      else Inr (pd, (val, pi)))"
  by pat_completeness auto
termination
  by (relation "measure (\<lambda>(i, n, pd, vp). n - pd)") auto

definition getnextcol :: "index list \<Rightarrow> nat list \<Rightarrow> nat \<Rightarrow> cursors \<Rightarrow> (bool \<times> nat \<times> cursors) res" where
  "getnextcol i dim col vp =
     bindR (nexts_from i (length dim) 1 vp) (\<lambda>(pd, vp1).
       if pd \<ge> length dim then Inr (False, col, vp1)
       else bindR (column_of (fst vp1) dim) (\<lambda>c. Inr (True, c, vp1)))"

end
