(* ===== verification/Index_Enum.thy ===== *)
theory Index_Enum
  imports Index Interval_Set
begin

text \<open>
  The contract of \<open>getfirst\<close>/\<open>getnext\<close> in \<open>src/src/index.hpp\<close>: every kind of index runs through a list of positions,
  \<open>index_seq\<close>, and stops. The contract is the locale \<open>enumeration\<close>; its client lemma gives the whole run as a list of
  cursors, on which the loops of selection and assignment are proved. The interpretation discharges the contract
  for the code of all kinds.
\<close>

section \<open>The contract\<close>

locale enumeration =
  fixes first nxt :: "'i \<Rightarrow> cursor \<Rightarrow> (bool \<times> cursor) res"
    and wf :: "'i \<Rightarrow> bool"
    and seq :: "'i \<Rightarrow> nat list"
    and here :: "'i \<Rightarrow> nat \<Rightarrow> cursor \<Rightarrow> bool"
  assumes here_val: "wf idx \<Longrightarrow> here idx k c \<Longrightarrow> k < length (seq idx) \<and> fst c = seq idx ! k"
    and first_none: "wf idx \<Longrightarrow> seq idx = [] \<Longrightarrow> \<exists>c. first idx (0, 0) = Inr (False, c)"
    and first_some: "wf idx \<Longrightarrow> seq idx \<noteq> [] \<Longrightarrow> \<exists>c. first idx (0, 0) = Inr (True, c) \<and> here idx 0 c"
    and next_some: "wf idx \<Longrightarrow> here idx k c \<Longrightarrow> Suc k < length (seq idx) \<Longrightarrow>
      \<exists>d. nxt idx c = Inr (True, d) \<and> here idx (Suc k) d"
    and next_none: "wf idx \<Longrightarrow> here idx k c \<Longrightarrow> Suc k = length (seq idx) \<Longrightarrow> \<exists>d. nxt idx c = Inr (False, d)"
begin

definition run :: "'i \<Rightarrow> cursor list \<Rightarrow> bool" where
  "run idx cs \<longleftrightarrow> map fst cs = seq idx \<and>
     (\<exists>c. first idx (0, 0) = Inr (cs \<noteq> [], c) \<and> (cs \<noteq> [] \<longrightarrow> c = hd cs)) \<and>
     (\<forall>k < length cs. \<exists>c. nxt idx (cs ! k) = Inr (Suc k < length cs, c) \<and> (Suc k < length cs \<longrightarrow> c = cs ! Suc k))"

lemma run_from:
  assumes "wf idx" "here idx k c"
  shows "\<exists>cs. hd cs = c \<and> cs \<noteq> [] \<and> map fst cs = drop k (seq idx) \<and>
    (\<forall>j < length cs. \<exists>c. nxt idx (cs ! j) = Inr (Suc j < length cs, c) \<and> (Suc j < length cs \<longrightarrow> c = cs ! Suc j))"
  using assms(2)
proof (induction "length (seq idx) - k" arbitrary: k c rule: less_induct)
  case less
  from here_val [OF assms(1) less.prems] have k: "k < length (seq idx)" "fst c = seq idx ! k" by auto
  show ?case
  proof (cases "Suc k < length (seq idx)")
    case False
    with next_none [OF assms(1) less.prems] k show ?thesis
      by (intro exI [of _ "[c]"]) (auto simp: Cons_nth_drop_Suc [symmetric])
  next
    case True
    from next_some [OF assms(1) less.prems True] obtain d where d: "nxt idx c = Inr (True, d)" "here idx (Suc k) d" by blast
    have m: "length (seq idx) - Suc k < length (seq idx) - k" using k by linarith
    from less.hyps [OF m d(2)] obtain cs where cs: "hd cs = d" "cs \<noteq> []" "map fst cs = drop (Suc k) (seq idx)"
      "\<forall>j < length cs. \<exists>c. nxt idx (cs ! j) = Inr (Suc j < length cs, c) \<and> (Suc j < length cs \<longrightarrow> c = cs ! Suc j)"
      by blast
    have "\<exists>c'. nxt idx ((c # cs) ! j) = Inr (Suc j < length (c # cs), c') \<and> (Suc j < length (c # cs) \<longrightarrow> c' = (c # cs) ! Suc j)"
      if "j < length (c # cs)" for j
      using that cs d(1) by (cases j) (auto simp: hd_conv_nth)
    with cs k show ?thesis by (intro exI [of _ "c # cs"]) (simp add: Cons_nth_drop_Suc [symmetric])
  qed
qed

lemma run_exists: "wf idx \<Longrightarrow> \<exists>cs. run idx cs"
proof (cases "seq idx = []")
  case True
  assume "wf idx"
  with first_none [OF this True] True show ?thesis by (auto simp: run_def)
next
  case False
  assume wf: "wf idx"
  from first_some [OF wf False] obtain c where c: "first idx (0, 0) = Inr (True, c)" "here idx 0 c" by blast
  from run_from [OF wf c(2)] c(1) show ?thesis unfolding run_def by auto
qed

end

section \<open>The positions of an index\<close>

definition iv_positions :: "dtime list \<Rightarrow> interval \<Rightarrow> nat list" where
  "iv_positions vi iv = filter (\<lambda>p. is_in (vi ! p) iv) [0..<length vi]"

fun index_seq :: "index \<Rightarrow> nat list" where
  "index_seq (NullIndex sz) = [0..<sz]"
| "index_seq (IntIndex vi vidx uidx) = vi"
| "index_seq (IntIndexNeg vi sz) = filter (\<lambda>j. j \<notin> set vi) [0..<sz]"
| "index_seq (NameIndex vs ns) = map (\<lambda>s. case find_name ns s of Inr k \<Rightarrow> k | Inl e \<Rightarrow> 0) vs"
| "index_seq (BoolIndex vb) = filter (\<lambda>j. vb ! j) [0..<length vb]"
| "index_seq (DtimeIndex idx vd) = List.map_filter (\<lambda>t. bsearch t vd 0 (length vd)) idx"
| "index_seq (IntervalIndex idx vi) = concat (map (iv_positions vi) idx)"

text \<open>\<open>BoolIndex::getnext\<close> looks at every second element only, so the next \<open>true\<close> must be an odd distance away.\<close>

definition odd_gaps :: "bool list \<Rightarrow> bool" where
  "odd_gaps vb \<longleftrightarrow> (\<forall>q < length vb. \<forall>p < q. vb ! p \<and> vb ! q \<and> (\<forall>r < q. p < r \<longrightarrow> \<not> vb ! r) \<longrightarrow> odd (q - p))"

fun index_wf :: "index \<Rightarrow> bool" where
  "index_wf (NullIndex sz) = True"
| "index_wf (IntIndex vi vidx uidx) = True"
| "index_wf (IntIndexNeg vi sz) = (sorted_wrt (<) vi \<and> (\<forall>x\<in>set vi. x < sz))"
| "index_wf (NameIndex vs ns) = (\<forall>s\<in>set vs. \<exists>k. find_name ns s = Inr k)"
| "index_wf (BoolIndex vb) = odd_gaps vb"
| "index_wf (DtimeIndex idx vd) = True"
| "index_wf (IntervalIndex idx vi) = (sorted vi \<and> separate idx)"

declare neg_skip.simps [simp del] bool_scan.simps [simp del] bool_scan2.simps [simp del] bsearch.simps [simp del]
  dtime_getfirst.simps [simp del] interval_getfirst.simps [simp del] interval_next_loop.simps [simp del]
  dtime_merge.simps [simp del] interval_merge.simps [simp del]

section \<open>Negative subscripts\<close>

text \<open>A cursor \<open>(iv, ii)\<close> between the excluded positions below and those not below.\<close>

definition neg_at :: "nat list \<Rightarrow> nat \<Rightarrow> nat \<Rightarrow> bool" where
  "neg_at vi iv ii \<longleftrightarrow> ii \<le> length vi \<and> (\<forall>x\<in>set (take ii vi). x < iv) \<and> (\<forall>x\<in>set (drop ii vi). iv \<le> x)"

lemma neg_skip_spec:
  assumes "sorted_wrt (<) vi" "\<forall>x\<in>set vi. x < sz"
  shows "neg_at vi iv ii \<Longrightarrow> iv \<le> sz \<Longrightarrow> neg_skip vi sz (iv, ii) = (jv, ji) \<Longrightarrow>
    neg_at vi jv ji \<and> iv \<le> jv \<and> jv \<le> sz \<and> jv \<notin> set vi \<and> (\<forall>r. iv \<le> r \<longrightarrow> r < jv \<longrightarrow> r \<in> set vi)"
proof (induction "length vi - ii" arbitrary: iv ii rule: less_induct)
  case less
  show ?case
  proof (cases "ii < length vi \<and> vi ! ii = iv")
    case True
    then have v: "iv \<in> set vi" "iv < sz" using assms(2) nth_mem [of ii vi] by auto
    have "iv < x" if "x \<in> set (drop (Suc ii) vi)" for x
      using that sorted_wrt_nth_less [OF assms(1), of ii] True by (auto simp: in_set_drop_iff)
    then have "neg_at vi (Suc iv) (Suc ii)"
      using less.prems(1) True by (auto simp: neg_at_def take_Suc_conv_app_nth Suc_le_eq less_Suc_eq)
    moreover have m: "length vi - Suc ii < length vi - ii" using True by linarith
    moreover have "neg_skip vi sz (Suc iv, Suc ii) = (jv, ji)"
      using less.prems(3) True v by (simp add: neg_skip.simps [of vi sz iv ii])
    ultimately have r: "neg_at vi jv ji" "Suc iv \<le> jv" "jv \<le> sz" "jv \<notin> set vi" "\<forall>r. Suc iv \<le> r \<longrightarrow> r < jv \<longrightarrow> r \<in> set vi"
      using less.hyps [OF m, of "Suc iv"] v by auto
    have "r \<in> set vi" if "iv \<le> r" "r < jv" for r
      using that r(5) v(1) by (cases "r = iv") auto
    with r show ?thesis by auto
  next
    case False
    then have "iv \<notin> set vi"
    proof -
      have "x \<noteq> iv" if "x \<in> set (drop ii vi)" for x
      proof (cases "ii < length vi")
        case True
        then have "drop ii vi = vi ! ii # drop (Suc ii) vi" by (simp add: Cons_nth_drop_Suc)
        moreover have "vi ! ii \<in> set (drop ii vi)" using True by (auto simp: in_set_drop_iff)
        moreover from this have "iv < vi ! ii" using less.prems(1) True False by (auto simp: neg_at_def le_less)
        moreover have "vi ! ii < x" if "x \<in> set (drop (Suc ii) vi)"
          using that sorted_wrt_nth_less [OF assms(1), of ii] by (auto simp: in_set_drop_iff)
        ultimately show ?thesis using that by auto
      qed (use that in simp)
      moreover have "set vi = set (take ii vi) \<union> set (drop ii vi)" by (metis append_take_drop_id set_append)
      ultimately show ?thesis using less.prems(1) by (auto simp: neg_at_def)
    qed
    with False less.prems show ?thesis by (auto simp: neg_skip.simps [of vi sz iv ii])
  qed
qed

text \<open>Passing one position: it is excluded exactly if it is the next excluded one.\<close>

lemma neg_step:
  assumes "sorted_wrt (<) vi" "neg_at vi k ii"
  shows "k \<in> set vi \<longleftrightarrow> ii < length vi \<and> vi ! ii = k"
    and "neg_at vi (Suc k) (if k \<in> set vi then Suc ii else ii)"
proof -
  have sp: "set vi = set (take ii vi) \<union> set (drop ii vi)" by (metis append_take_drop_id set_append)
  have after: "vi ! ii < x" if "x \<in> set (drop (Suc ii) vi)" for x
    using that sorted_wrt_nth_less [OF assms(1), of ii] by (auto simp: in_set_drop_iff)
  have hd: "drop ii vi = vi ! ii # drop (Suc ii) vi" if "ii < length vi" using that by (simp add: Cons_nth_drop_Suc)
  have ge: "k \<le> vi ! ii" if "ii < length vi" using assms(2) hd [OF that] by (simp add: neg_at_def)
  show k: "k \<in> set vi \<longleftrightarrow> ii < length vi \<and> vi ! ii = k"
  proof
    assume "k \<in> set vi"
    then have "k \<in> set (drop ii vi)" using sp assms(2) by (auto simp: neg_at_def)
    then show "ii < length vi \<and> vi ! ii = k"
      using hd after ge by (cases "ii < length vi") (fastforce simp: not_less)+
  qed auto
  show "neg_at vi (Suc k) (if k \<in> set vi then Suc ii else ii)"
  proof (cases "k \<in> set vi")
    case True
    with k have i: "ii < length vi" "vi ! ii = k" by auto
    then show ?thesis using assms(2) after True
      by (auto simp: neg_at_def take_Suc_conv_app_nth less_Suc_eq Suc_le_eq)
  next
    case False
    have "Suc k \<le> x" if "x \<in> set (drop ii vi)" for x
      using that False sp assms(2) by (auto simp: neg_at_def Suc_le_eq le_less)
    then show ?thesis using assms(2) False by (auto simp: neg_at_def)
  qed
qed

lemma neg_first:
  assumes "index_wf (IntIndexNeg vi sz)"
  shows "neg_getfirst vi sz =
    (case index_seq (IntIndexNeg vi sz) of [] \<Rightarrow> (False, (0, 0)) | j # _ \<Rightarrow> (True, (j, snd (neg_skip vi sz (0, 0)))))"
    "index_seq (IntIndexNeg vi sz) \<noteq> [] \<Longrightarrow> neg_at vi (index_seq (IntIndexNeg vi sz) ! 0) (snd (neg_skip vi sz (0, 0)))"
proof -
  obtain jv ji where s: "neg_skip vi sz (0, 0) = (jv, ji)" by fastforce
  have "neg_at vi 0 0" by (simp add: neg_at_def)
  with neg_skip_spec [OF _ _ _ _ s] assms have r: "neg_at vi jv ji" "jv \<le> sz" "jv \<notin> set vi" "\<And>r. r < jv \<Longrightarrow> r \<in> set vi"
    by auto
  let ?s = "filter (\<lambda>j. j \<notin> set vi) [0..<sz]"
  have e: "?s = []" if "jv = sz" using r(4) that by (auto simp: filter_empty_conv)
  have n: "?s \<noteq> [] \<and> ?s ! 0 = jv" if "jv \<noteq> sz" using filter_upt_first [of jv sz "\<lambda>j. j \<notin> set vi"] r that by auto
  show "neg_getfirst vi sz =
    (case index_seq (IntIndexNeg vi sz) of [] \<Rightarrow> (False, (0, 0)) | j # _ \<Rightarrow> (True, (j, snd (neg_skip vi sz (0, 0)))))"
    using e n by (cases "jv = sz") (auto simp: neg_getfirst_def s split: list.split)
  show "index_seq (IntIndexNeg vi sz) \<noteq> [] \<Longrightarrow> neg_at vi (index_seq (IntIndexNeg vi sz) ! 0) (snd (neg_skip vi sz (0, 0)))"
    using e n r(1) by (cases "jv = sz") (auto simp: s)
qed

lemma neg_next:
  assumes "index_wf (IntIndexNeg vi sz)" "k < length (index_seq (IntIndexNeg vi sz))"
    and "neg_at vi (index_seq (IntIndexNeg vi sz) ! k) ii"
  shows "Suc k < length (index_seq (IntIndexNeg vi sz)) \<Longrightarrow>
      \<exists>ji. neg_getnext vi sz (index_seq (IntIndexNeg vi sz) ! k, ii) = (True, (index_seq (IntIndexNeg vi sz) ! Suc k, ji)) \<and>
        neg_at vi (index_seq (IntIndexNeg vi sz) ! Suc k) ji"
    "Suc k = length (index_seq (IntIndexNeg vi sz)) \<Longrightarrow>
      \<exists>c. neg_getnext vi sz (index_seq (IntIndexNeg vi sz) ! k, ii) = (False, c)"
proof -
  let ?P = "\<lambda>j. j \<notin> set vi"
  let ?s = "filter ?P [0..<sz]"
  define iv where "iv = ?s ! k"
  have iv: "iv < sz" "iv \<notin> set vi" using filter_upt_nth [of k ?P sz] assms(2) by (auto simp: iv_def)
  have at: "neg_at vi iv ii" using assms(3) by (simp add: iv_def)
  have "Suc iv \<le> x" if "x \<in> set (drop ii vi)" for x
    using that at iv(2) in_set_dropD [OF that] by (auto simp: neg_at_def Suc_le_eq le_less)
  then have n: "neg_at vi (Suc iv) ii" using at by (auto simp: neg_at_def)
  obtain jv ji where s: "neg_skip vi sz (Suc iv, ii) = (jv, ji)" by fastforce
  have v: "sorted_wrt (<) vi" "\<forall>x\<in>set vi. x < sz" using assms(1) by simp_all
  have r: "neg_at vi jv ji" "Suc iv \<le> jv" "jv \<le> sz" "jv \<notin> set vi" "\<And>r. Suc iv \<le> r \<Longrightarrow> r < jv \<Longrightarrow> r \<in> set vi"
    using neg_skip_spec [OF v n Suc_leI [OF iv(1)] s] by blast+
  have g: "neg_getnext vi sz (iv, ii) = (if jv = sz then (False, snd (neg_getfirst vi sz)) else (True, (jv, ji)))"
    by (simp add: neg_getnext_def s)
  have k: "k < length ?s" using assms(2) by simp
  have e: "Suc k = length ?s" if "jv = sz"
  proof (rule filter_upt_last [OF k])
    fix q assume "?s ! k < q" "q < sz"
    then have "q \<in> set vi" using r(5) [of q] that by (simp only: iv_def Suc_le_eq)
    then show "\<not> q \<notin> set vi" by blast
  qed
  have n: "Suc k < length ?s \<and> ?s ! Suc k = jv" if "jv \<noteq> sz"
  proof (rule filter_upt_next [OF k])
    show "?s ! k < jv" using r(2) by (simp only: iv_def Suc_le_eq)
    show "jv < sz" using r(3) that by simp
    show "jv \<notin> set vi" by (rule r(4))
    fix q assume "?s ! k < q" "q < jv"
    then have "q \<in> set vi" using r(5) [of q] by (simp only: iv_def Suc_le_eq)
    then show "\<not> q \<notin> set vi" by blast
  qed
  show "Suc k < length (index_seq (IntIndexNeg vi sz)) \<Longrightarrow>
      \<exists>ji. neg_getnext vi sz (index_seq (IntIndexNeg vi sz) ! k, ii) = (True, (index_seq (IntIndexNeg vi sz) ! Suc k, ji)) \<and>
        neg_at vi (index_seq (IntIndexNeg vi sz) ! Suc k) ji"
    using e n g r(1) by (cases "jv = sz") (auto simp: iv_def)
  show "Suc k = length (index_seq (IntIndexNeg vi sz)) \<Longrightarrow>
      \<exists>c. neg_getnext vi sz (index_seq (IntIndexNeg vi sz) ! k, ii) = (False, c)"
    using n g by (cases "jv = sz") (auto simp: iv_def)
qed

section \<open>Logical subscripts\<close>

lemma bool_scan_spec:
  "bool_scan vb val i = (b, c) \<Longrightarrow>
    (b \<longrightarrow> fst c = snd c \<and> i \<le> fst c \<and> fst c < length vb \<and> vb ! fst c \<and> (\<forall>r. i \<le> r \<longrightarrow> r < fst c \<longrightarrow> \<not> vb ! r)) \<and>
    (\<not> b \<longrightarrow> (\<forall>r. i \<le> r \<longrightarrow> r < length vb \<longrightarrow> \<not> vb ! r))"
proof (induction vb val i rule: bool_scan.induct)
  case (1 vb val i)
  show ?case
  proof (cases "i < length vb \<and> \<not> vb ! i")
    case True
    then have "bool_scan vb val (i + 1) = (b, c)" using "1.prems" by (simp add: bool_scan.simps [of vb val i])
    note IH = "1.IH" [OF conjunct1 [OF True] conjunct2 [OF True] this]
    have "i + 1 \<le> r" if "i \<le> r" "vb ! r" for r using that True by (cases "r = i") auto
    with IH have "\<not> vb ! r" if "i \<le> r" "r < (if b then fst c else length vb)" for r
      using that by (metis (full_types))
    then show ?thesis using IH by (cases b) auto
  next
    case False
    with "1.prems" show ?thesis by (auto simp: bool_scan.simps [of vb val i] split: if_splits)
  qed
qed

lemma bool_scan2_spec:
  "bool_scan2 vb val i = (b, c) \<Longrightarrow>
    (b \<longrightarrow> fst c = snd c \<and> i < fst c \<and> fst c < length vb \<and> vb ! fst c \<and> (\<forall>r. i < r \<longrightarrow> r < fst c \<longrightarrow> odd (r - i) \<longrightarrow> \<not> vb ! r)) \<and>
    (\<not> b \<longrightarrow> (\<forall>r. i < r \<longrightarrow> r < length vb \<longrightarrow> odd (r - i) \<longrightarrow> \<not> vb ! r))"
proof (induction vb val i rule: bool_scan2.induct)
  case (1 vb val i)
  show ?case
  proof (cases "i + 1 < length vb \<and> \<not> vb ! (i + 1)")
    case True
    then have "bool_scan2 vb val (i + 2) = (b, c)" using "1.prems" by (simp add: bool_scan2.simps [of vb val i])
    note IH = "1.IH" [OF conjunct1 [OF True] conjunct2 [OF True] this]
    have "i + 2 < r" if "i < r" "odd (r - i)" "vb ! r" for r
    proof -
      have "r \<noteq> i + 1" using True that(3) by auto
      moreover have "r \<noteq> i + 2" using that(2) by auto
      ultimately show ?thesis using that(1) by linarith
    qed
    moreover have "odd (r - (i + 2))" if "odd (r - i)" "i + 2 < r" for r using that by simp
    ultimately have "\<not> vb ! r" if "i < r" "odd (r - i)" "r < (if b then fst c else length vb)" for r
      using IH that by (metis (full_types))
    then show ?thesis using IH by (cases b) auto
  next
    case False
    with "1.prems" show ?thesis by (auto simp: bool_scan2.simps [of vb val i] less_Suc_eq split: if_splits)
  qed
qed

lemma bool_first:
  shows "index_seq (BoolIndex vb) = [] \<Longrightarrow> \<exists>c. bool_scan vb val 0 = (False, c)"
    and "index_seq (BoolIndex vb) \<noteq> [] \<Longrightarrow>
      bool_scan vb val 0 = (True, (index_seq (BoolIndex vb) ! 0, index_seq (BoolIndex vb) ! 0))"
proof -
  obtain b c where s: "bool_scan vb val 0 = (b, c)" by (rule prod.exhaust)
  note r = bool_scan_spec [OF s]
  have f: "index_seq (BoolIndex vb) = []" if "\<not> b" using r that by (auto simp: filter_empty_conv)
  have t: "index_seq (BoolIndex vb) \<noteq> [] \<and> index_seq (BoolIndex vb) ! 0 = fst c" if b
    using r that filter_upt_first [of "fst c" "length vb" "\<lambda>j. vb ! j"] by auto
  show "index_seq (BoolIndex vb) = [] \<Longrightarrow> \<exists>c. bool_scan vb val 0 = (False, c)" using s t by (cases b) auto
  show "index_seq (BoolIndex vb) \<noteq> [] \<Longrightarrow>
      bool_scan vb val 0 = (True, (index_seq (BoolIndex vb) ! 0, index_seq (BoolIndex vb) ! 0))"
    using s t f r by (cases b; cases c) auto
qed

lemma bool_next:
  assumes "odd_gaps vb" "k < length (index_seq (BoolIndex vb))"
  defines "p \<equiv> index_seq (BoolIndex vb) ! k"
  shows "Suc k < length (index_seq (BoolIndex vb)) \<Longrightarrow>
      bool_getnext vb (p, p) = (True, (index_seq (BoolIndex vb) ! Suc k, index_seq (BoolIndex vb) ! Suc k))"
    and "Suc k = length (index_seq (BoolIndex vb)) \<Longrightarrow> \<exists>c. bool_getnext vb (p, p) = (False, c)"
proof -
  let ?P = "\<lambda>j. vb ! j"
  let ?s = "filter ?P [0..<length vb]"
  have k: "k < length ?s" and pk: "?s ! k = p" using assms(2) by (simp_all add: p_def)
  obtain b c where s: "bool_scan2 vb p p = (b, c)" by (rule prod.exhaust)
  note r = bool_scan2_spec [OF s]
  show "\<exists>c. bool_getnext vb (p, p) = (False, c)" if last: "Suc k = length (index_seq (BoolIndex vb))"
  proof -
    have "\<not> b"
    proof
      assume b
      with r have "p < fst c" "fst c < length vb" "vb ! fst c" by auto
      from filter_upt_obtain [of "fst c" "length vb" ?P, OF this(2,3)] obtain m where "m < length ?s" "?s ! m = fst c" .
      moreover from this have "m \<le> k" using last by simp
      ultimately have "fst c \<le> p" using filter_upt_nth_less [of m k ?P "length vb"] k pk by (cases "m = k") auto
      with \<open>p < fst c\<close> show False by simp
    qed
    then show ?thesis by (simp add: bool_getnext_def s split: prod.split)
  qed
  show "bool_getnext vb (p, p) = (True, (index_seq (BoolIndex vb) ! Suc k, index_seq (BoolIndex vb) ! Suc k))"
    if next_k: "Suc k < length (index_seq (BoolIndex vb))"
  proof -
    define q where "q = ?s ! Suc k"
    have sk: "Suc k < length ?s" using next_k by simp
    have q: "p < q" "q < length vb" "vb ! q"
      using filter_upt_nth_less [OF lessI sk] conjunct1 [OF filter_upt_nth [OF sk]] conjunct2 [OF filter_upt_nth [OF sk]]
      by (simp_all only: q_def pk)
    have none: "\<not> vb ! r" if pr: "p < r" and rq: "r < q" for r
    proof
      assume v: "vb ! r"
      have "r < length vb" using rq q(2) by linarith
      from filter_upt_obtain [of r "length vb" ?P, OF this v] obtain m where m: "m < length ?s" "?s ! m = r" .
      have "k < m"
      proof (rule ccontr)
        assume "\<not> k < m"
        then have "m = k \<or> m < k" by linarith
        then have "r \<le> p" using filter_upt_nth_less [of m k ?P "length vb"] k m pk by (metis less_or_eq_imp_le)
        with pr show False by simp
      qed
      then have "m = Suc k \<or> Suc k < m" by linarith
      then have "q \<le> r" using filter_upt_nth_less [of "Suc k" m ?P "length vb"] m by (metis less_or_eq_imp_le q_def)
      with rq show False by simp
    qed
    have "vb ! p" using conjunct2 [OF filter_upt_nth [OF k]] by (simp only: pk)
    with assms(1) q none have odd: "odd (q - p)" by (auto simp: odd_gaps_def)
    have b using r q odd by blast
    moreover have "fst c = q"
    proof (rule ccontr)
      assume "fst c \<noteq> q"
      moreover from r \<open>b\<close> none have "\<not> fst c < q" by blast
      ultimately have "q < fst c" by simp
      with r \<open>b\<close> q odd show False by blast
    qed
    ultimately show ?thesis using r by (cases c) (simp add: bool_getnext_def s q_def)
  qed
qed

section \<open>Times\<close>

lemma dtime_first:
  "dtime_getfirst idx vd (val, i) = (b, c) \<Longrightarrow>
    (let s = List.map_filter (\<lambda>t. bsearch t vd 0 (length vd)) (drop i idx) in
      b = (s \<noteq> []) \<and> (b \<longrightarrow> fst c = hd s \<and> List.map_filter (\<lambda>t. bsearch t vd 0 (length vd)) (drop (Suc (snd c)) idx) = tl s))"
proof (induction idx vd "(val, i)" arbitrary: val i rule: dtime_getfirst.induct)
  case (1 idx vd val i)
  show ?case
  proof (cases "i < length idx")
    case True
    then have d: "drop i idx = idx ! i # drop (Suc i) idx" by (simp add: Cons_nth_drop_Suc)
    show ?thesis
    proof (cases "bsearch (idx ! i) vd 0 (length vd)")
      case None
      with 1 True show ?thesis by (simp add: d map_filter_simps dtime_getfirst.simps [of idx vd val i])
    next
      case (Some p)
      with "1.prems" True show ?thesis by (auto simp: d map_filter_simps dtime_getfirst.simps [of idx vd val i])
    qed
  next
    case False
    with "1.prems" show ?thesis by (auto simp: map_filter_simps dtime_getfirst.simps [of idx vd val i])
  qed
qed

section \<open>Intervals of times\<close>

lemma is_in_before_after: "is_in t i \<longleftrightarrow> \<not> before_iv t i \<and> \<not> after_iv t i"
  by (auto simp: is_in_def time_lt_def time_gt_def before_iv_def after_iv_def)

lemma before_mono: "before_iv u i \<Longrightarrow> t \<le> u \<Longrightarrow> before_iv t i"
  by (auto simp: before_iv_def split: if_splits)

lemma after_mono: "after_iv t i \<Longrightarrow> t \<le> u \<Longrightarrow> after_iv u i"
  by (auto simp: after_iv_def split: if_splits)

definition iv_start :: "dtime list \<Rightarrow> interval \<Rightarrow> nat" where
  "iv_start vi i = (if sopen i then upper_bound vi (istart i) else lower_bound vi (istart i))"

lemma iv_start_takeWhile: "iv_start vi i = length (takeWhile (\<lambda>t. before_iv t i) vi)"
  by (auto simp: iv_start_def upper_bound_def lower_bound_def before_iv_def)

lemma iv_start_spec:
  assumes "sorted vi"
  shows "iv_start vi i \<le> length vi" "q < iv_start vi i \<Longrightarrow> before_iv (vi ! q) i"
    "iv_start vi i \<le> q \<Longrightarrow> q < length vi \<Longrightarrow> \<not> before_iv (vi ! q) i"
proof -
  show "iv_start vi i \<le> length vi" by (simp add: iv_start_takeWhile length_takeWhile_le)
  show "q < iv_start vi i \<Longrightarrow> before_iv (vi ! q) i"
    using nth_mem [of q "takeWhile (\<lambda>t. before_iv t i) vi"] by (auto simp: iv_start_takeWhile takeWhile_nth dest: set_takeWhileD)
  assume q: "iv_start vi i \<le> q" "q < length vi"
  then have "\<not> before_iv (vi ! iv_start vi i) i"
    unfolding iv_start_takeWhile by (intro nth_length_takeWhile) linarith
  moreover have "vi ! iv_start vi i \<le> vi ! q" using assms q by (simp add: sorted_nth_mono)
  ultimately show "\<not> before_iv (vi ! q) i" using before_mono by blast
qed

text \<open>The positions of the current interval above a given one, then those of the later intervals.\<close>

definition iv_above :: "dtime list \<Rightarrow> interval \<Rightarrow> nat \<Rightarrow> nat list" where
  "iv_above vi i val = filter (\<lambda>p. is_in (vi ! p) i) [Suc val..<length vi]"

definition iv_rest :: "interval list \<Rightarrow> dtime list \<Rightarrow> cursor \<Rightarrow> nat list" where
  "iv_rest idx vi c = iv_above vi (idx ! snd c) (fst c) @ concat (map (iv_positions vi) (drop (Suc (snd c)) idx))"

definition iv_here :: "interval list \<Rightarrow> dtime list \<Rightarrow> cursor \<Rightarrow> bool" where
  "iv_here idx vi c \<longleftrightarrow> snd c < length idx \<and> fst c < length vi \<and> is_in (vi ! fst c) (idx ! snd c)"

lemma iv_positions_start:
  assumes "sorted vi"
  shows "iv_positions vi i =
    (if iv_start vi i = length vi \<or> after_iv (vi ! iv_start vi i) i then []
     else iv_start vi i # iv_above vi i (iv_start vi i))"
proof -
  let ?p = "iv_start vi i"
  have low: "filter (\<lambda>q. is_in (vi ! q) i) [0..<?p] = []"
    using iv_start_spec(2) [OF assms] by (auto simp: filter_empty_conv is_in_before_after)
  have "[0..<length vi] = [0..<?p] @ [?p..<length vi]"
    using upt_add_eq_append [of 0 ?p "length vi - ?p"] iv_start_spec(1) [OF assms, of i] by simp
  then have e: "iv_positions vi i = filter (\<lambda>q. is_in (vi ! q) i) [?p..<length vi]" by (simp add: iv_positions_def low)
  show ?thesis
  proof (cases "?p = length vi \<or> after_iv (vi ! ?p) i")
    case True
    have "\<not> is_in (vi ! q) i" if "?p \<le> q" "q < length vi" for q
      using True that sorted_nth_mono [OF assms that] after_mono by (auto simp: is_in_before_after)
    with True show ?thesis by (auto simp: e filter_empty_conv)
  next
    case False
    then have "?p < length vi" using iv_start_spec(1) [OF assms, of i] by linarith
    moreover from this have "is_in (vi ! ?p) i" using False iv_start_spec(3) [OF assms, of i ?p] by (simp add: is_in_before_after)
    ultimately show ?thesis using False by (simp add: e iv_above_def upt_conv_Cons)
  qed
qed

lemma interval_first:
  assumes "sorted vi"
  shows "interval_getfirst idx vi (val, i) = (b, c) \<Longrightarrow>
    (let s = concat (map (iv_positions vi) (drop i idx)) in
      b = (s \<noteq> []) \<and> (b \<longrightarrow> iv_here idx vi c \<and> s = fst c # iv_rest idx vi c))"
  using assms
proof (induction idx vi "(val, i)" arbitrary: val i rule: interval_getfirst.induct)
  case (1 idx vi val i)
  let ?p = "iv_start vi (idx ! i)"
  show ?case
  proof (cases "i < length idx")
    case True
    then have d: "drop i idx = idx ! i # drop (Suc i) idx" by (simp add: Cons_nth_drop_Suc)
    have g: "interval_getfirst idx vi (val, i) =
      (if ?p = length vi \<or> after_iv (vi ! ?p) (idx ! i) then interval_getfirst idx vi (?p, i + 1) else (True, (?p, i)))"
      using True by (simp add: interval_getfirst.simps [of idx vi val i] iv_start_def)
    note pos = iv_positions_start [OF "1.prems"(2), of "idx ! i"]
    show ?thesis
    proof (cases "?p = length vi \<or> after_iv (vi ! ?p) (idx ! i)")
      case after: True
      have r: "interval_getfirst idx vi (?p, i + 1) = (b, c)" using "1.prems"(1) g after by simp
      have "let s = concat (map (iv_positions vi) (drop (i + 1) idx)) in
        b = (s \<noteq> []) \<and> (b \<longrightarrow> iv_here idx vi c \<and> s = fst c # iv_rest idx vi c)"
        using after r "1.prems"(2) by (intro "1.hyps" [OF True refl]) (auto simp: iv_start_def)
      with after pos show ?thesis by (simp add: d)
    next
      case False
      then have "?p < length vi" using iv_start_spec(1) [OF "1.prems"(2), of "idx ! i"] by linarith
      with False "1.prems" g True pos iv_start_spec(3) [OF "1.prems"(2), of "idx ! i" ?p] show ?thesis
        by (auto simp: d iv_here_def iv_rest_def is_in_before_after)
    qed
  next
    case False
    with "1.prems" show ?thesis by (simp add: interval_getfirst.simps [of idx vi val i])
  qed
qed

lemma separate_positions:
  assumes "sorted vi" "separate idx" "i < j" "j < length idx" "val < length vi" "is_in (vi ! val) (idx ! i)"
    and "q < length vi" "is_in (vi ! q) (idx ! j)"
  shows "val < q"
proof -
  have "vi ! val < vi ! q"
    using assms(6,8) separate_later [OF assms(2-4)] by (simp add: is_in_covers covers_def)
  then show ?thesis using sorted_nth_mono [OF assms(1), of q val] assms(5) by (metis leD leI)
qed

lemma interval_next:
  assumes "sorted vi" "separate idx" "iv_here idx vi (val, i)" "interval_getnext idx vi (val, i) = (b, c)"
  shows "b = (iv_rest idx vi (val, i) \<noteq> []) \<and> (b \<longrightarrow> iv_here idx vi c \<and> iv_rest idx vi (val, i) = fst c # iv_rest idx vi c)"
proof -
  have i: "i < length idx" "val < length vi" "is_in (vi ! val) (idx ! i)" using assms(3) by (auto simp: iv_here_def)
  show ?thesis
  proof (cases "Suc val < length vi")
    case False
    have "iv_positions vi iv = []" if "iv \<in> set (drop (Suc i) idx)" for iv
    proof -
      from that obtain j where "i < j" "j < length idx" "iv = idx ! j" by (auto simp: in_set_drop_iff Suc_le_eq)
      with separate_positions [OF assms(1,2) this(1,2) i(2,3)] False show ?thesis
        by (force simp: iv_positions_def filter_empty_conv)
    qed
    with False assms(4) show ?thesis
      by (auto simp: iv_rest_def iv_above_def interval_getnext_def interval_next_loop.simps [of idx vi "Suc val" i])
  next
    case True
    have nb: "\<not> before_iv (vi ! Suc val) (idx ! i)"
      using i(3) before_mono sorted_nth_mono [OF assms(1), of val "Suc val"] True by (auto simp: is_in_before_after)
    show ?thesis
    proof (cases "after_iv (vi ! Suc val) (idx ! i)")
      case af: True
      have "\<not> is_in (vi ! q) (idx ! i)" if "Suc val \<le> q" "q < length vi" for q
        using af that sorted_nth_mono [OF assms(1) that] after_mono by (auto simp: is_in_before_after)
      then have "iv_above vi (idx ! i) val = []" by (auto simp: iv_above_def filter_empty_conv)
      moreover have "interval_getfirst idx vi (Suc val, Suc i) = (b, c)"
        using assms(4) True i(1) nb af by (simp add: interval_getnext_def interval_next_loop.simps [of idx vi "Suc val" i])
      ultimately show ?thesis using interval_first [OF assms(1)] by (fastforce simp: iv_rest_def)
    next
      case False
      then have "is_in (vi ! Suc val) (idx ! i)" using nb by (simp add: is_in_before_after)
      moreover have "(b, c) = (True, (Suc val, i))"
        using assms(4) True i(1) nb False by (simp add: interval_getnext_def interval_next_loop.simps [of idx vi "Suc val" i])
      ultimately show ?thesis using True i(1) by (auto simp: iv_rest_def iv_above_def upt_conv_Cons iv_here_def)
    qed
  qed
qed

section \<open>All kinds\<close>

fun index_here :: "index \<Rightarrow> nat \<Rightarrow> cursor \<Rightarrow> bool" where
  "index_here (IntIndexNeg vi sz) k c = neg_at vi (fst c) (snd c)"
| "index_here (BoolIndex vb) k c = (snd c = fst c)"
| "index_here (DtimeIndex idx vd) k c =
     (drop (Suc k) (index_seq (DtimeIndex idx vd)) = List.map_filter (\<lambda>t. bsearch t vd 0 (length vd)) (drop (Suc (snd c)) idx))"
| "index_here (IntervalIndex idx vi) k c =
     (iv_here idx vi c \<and> drop (Suc k) (index_seq (IntervalIndex idx vi)) = iv_rest idx vi c)"
| "index_here _ k c = (snd c = k)"

definition index_at :: "index \<Rightarrow> nat \<Rightarrow> cursor \<Rightarrow> bool" where
  "index_at idx k c \<longleftrightarrow> k < length (index_seq idx) \<and> fst c = index_seq idx ! k \<and> index_here idx k c"

lemma drop_eq_ConsD: "drop k xs = y # ys \<Longrightarrow> k < length xs \<and> xs ! k = y \<and> drop (Suc k) xs = ys"
  by (metis drop_Suc drop_eq_Nil leI list.distinct(1) list.sel(3) nth_via_drop tl_drop)

lemma name_find: "index_wf (NameIndex vs ns) \<Longrightarrow> k < length vs \<Longrightarrow>
    find_name ns (vs ! k) = Inr (index_seq (NameIndex vs ns) ! k)"
proof -
  assume "index_wf (NameIndex vs ns)" "k < length vs"
  then obtain j where "find_name ns (vs ! k) = Inr j" by (auto dest: nth_mem)
  with \<open>k < length vs\<close> show ?thesis by simp
qed

lemma index_first_none: "index_wf idx \<Longrightarrow> index_seq idx = [] \<Longrightarrow> \<exists>c. getfirst idx (0, 0) = Inr (False, c)"
proof (cases idx)
  case (DtimeIndex ix vd)
  assume "index_wf idx" "index_seq idx = []"
  with DtimeIndex dtime_first [of ix vd 0 0] show ?thesis by (cases "dtime_getfirst ix vd (0, 0)") simp
next
  case (IntervalIndex ix vi)
  assume "index_wf idx" "index_seq idx = []"
  with IntervalIndex interval_first [of vi ix 0 0] show ?thesis by (cases "interval_getfirst ix vi (0, 0)") simp
next
  case (IntIndexNeg vi sz)
  assume "index_wf idx" "index_seq idx = []"
  with IntIndexNeg neg_first(1) [of vi sz] show ?thesis by simp
next
  case (BoolIndex vb)
  assume "index_wf idx" "index_seq idx = []"
  with BoolIndex bool_first(1) [of vb 0] show ?thesis by simp
qed auto

lemma index_first_some:
  "index_wf idx \<Longrightarrow> index_seq idx \<noteq> [] \<Longrightarrow> \<exists>c. getfirst idx (0, 0) = Inr (True, c) \<and> index_at idx 0 c"
proof (cases idx)
  case (DtimeIndex ix vd)
  assume "index_wf idx" "index_seq idx \<noteq> []"
  with DtimeIndex dtime_first [of ix vd 0 0] show ?thesis
    by (cases "dtime_getfirst ix vd (0, 0)") (auto simp: Let_def index_at_def hd_conv_nth drop_Suc)
next
  case (IntervalIndex ix vi)
  assume a: "index_wf idx" "index_seq idx \<noteq> []"
  obtain b c where r: "interval_getfirst ix vi (0, 0) = (b, c)" by (rule prod.exhaust)
  from interval_first [OF _ r] a IntervalIndex have c: b "iv_here ix vi c"
    and s: "index_seq idx = fst c # iv_rest ix vi c" by (auto simp: Let_def)
  have "index_at idx 0 c"
    unfolding index_at_def using c s IntervalIndex by (simp only: length_Cons nth_Cons_0 index_here.simps) simp
  with r c(1) IntervalIndex show ?thesis by simp
next
  case (IntIndexNeg vi sz)
  assume a: "index_wf idx" "index_seq idx \<noteq> []"
  let ?s = "index_seq (IntIndexNeg vi sz)"
  have "neg_getfirst vi sz = (True, (?s ! 0, snd (neg_skip vi sz (0, 0))))"
    using neg_first(1) [of vi sz] a unfolding IntIndexNeg by (cases ?s) (simp_all only: list.case nth_Cons_0 simp_thms)
  with IntIndexNeg neg_first(2) [of vi sz] a show ?thesis by (auto simp: index_at_def simp del: index_seq.simps(3))
next
  case (BoolIndex vb)
  assume "index_wf idx" "index_seq idx \<noteq> []"
  with BoolIndex bool_first(2) [of vb 0] show ?thesis by (auto simp: index_at_def simp del: index_seq.simps(5))
next
  case (NameIndex vs ns)
  assume "index_wf idx" "index_seq idx \<noteq> []"
  with NameIndex name_find [of vs ns 0] show ?thesis by (simp add: index_at_def del: index_seq.simps) simp
qed (auto simp: index_at_def)

lemma index_next_some:
  "index_wf idx \<Longrightarrow> index_at idx k c \<Longrightarrow> Suc k < length (index_seq idx) \<Longrightarrow>
     \<exists>d. getnext idx c = Inr (True, d) \<and> index_at idx (Suc k) d"
proof (cases idx)
  case (DtimeIndex ix vd)
  assume a: "index_at idx k c" "Suc k < length (index_seq idx)"
  obtain b d where r: "dtime_getfirst ix vd (fst c, Suc (snd c)) = (b, d)" by (rule prod.exhaust)
  note f = dtime_first [OF r, unfolded Let_def]
  have s: "List.map_filter (\<lambda>t. bsearch t vd 0 (length vd)) (drop (Suc (snd c)) ix) = drop (Suc k) (index_seq idx)"
    using a DtimeIndex by (simp add: index_at_def)
  have "drop (Suc k) (index_seq idx) = index_seq idx ! Suc k # drop (Suc (Suc k)) (index_seq idx)"
    using a(2) by (simp add: Cons_nth_drop_Suc)
  with f s a r DtimeIndex show ?thesis by (cases c) (auto simp: index_at_def)
next
  case (IntervalIndex ix vi)
  assume a: "index_wf idx" "index_at idx k c" "Suc k < length (index_seq idx)"
  obtain b d where r: "interval_getnext ix vi c = (b, d)" by (rule prod.exhaust)
  have w: "sorted vi" "separate ix" "iv_here ix vi c" "drop (Suc k) (index_seq idx) = iv_rest ix vi c"
    using a IntervalIndex by (simp_all add: index_at_def)
  have "iv_rest ix vi c \<noteq> []" using w(4) a(3) by (metis drop_eq_Nil not_less)
  with interval_next [of vi ix "fst c" "snd c", unfolded prod.collapse, OF w(1-3) r] have n: b "iv_here ix vi d" "drop (Suc k) (index_seq idx) = fst d # iv_rest ix vi d"
    using w(4) by auto
  from drop_eq_ConsD [OF n(3)] n(2) have "index_at idx (Suc k) d"
    unfolding index_at_def by (simp add: IntervalIndex del: index_seq.simps(7))
  with r n(1) IntervalIndex show ?thesis by simp
next
  case (IntIndexNeg vi sz)
  assume a: "index_wf idx" "index_at idx k c" "Suc k < length (index_seq idx)"
  with neg_next(1) [of vi sz k "snd c"] IntIndexNeg show ?thesis
    by (cases c) (auto simp: index_at_def simp del: index_seq.simps(3))
next
  case (BoolIndex vb)
  assume a: "index_wf idx" "index_at idx k c" "Suc k < length (index_seq idx)"
  with bool_next(1) [of vb k] BoolIndex show ?thesis
    by (cases c) (auto simp: index_at_def simp del: index_seq.simps(5))
next
  case (NameIndex vs ns)
  assume a: "index_wf idx" "index_at idx k c" "Suc k < length (index_seq idx)"
  then have "find_name ns (vs ! Suc k) = Inr (index_seq idx ! Suc k)" using NameIndex name_find [of vs ns "Suc k"] by simp
  moreover have "snd c = k" "Suc k < length vs" using a NameIndex by (auto simp: index_at_def)
  ultimately have "getnext idx c = Inr (True, (index_seq idx ! Suc k, Suc k))"
    unfolding NameIndex by (cases c) (simp del: index_seq.simps)
  moreover have "index_at idx (Suc k) (index_seq idx ! Suc k, Suc k)" using a(3) NameIndex by (simp add: index_at_def)
  ultimately show ?thesis by blast
next
  case (IntIndex vi vidx uidx)
  assume "index_wf idx" "index_at idx k c" "Suc k < length (index_seq idx)"
  with IntIndex show ?thesis by (cases c) (auto simp: index_at_def)
next
  case (NullIndex sz)
  assume "index_wf idx" "index_at idx k c" "Suc k < length (index_seq idx)"
  with NullIndex show ?thesis by (cases c) (auto simp: index_at_def)
qed

lemma index_next_none:
  "index_wf idx \<Longrightarrow> index_at idx k c \<Longrightarrow> Suc k = length (index_seq idx) \<Longrightarrow> \<exists>d. getnext idx c = Inr (False, d)"
proof (cases idx)
  case (DtimeIndex ix vd)
  assume a: "index_at idx k c" "Suc k = length (index_seq idx)"
  obtain b d where r: "dtime_getfirst ix vd (fst c, Suc (snd c)) = (b, d)" by (rule prod.exhaust)
  have "List.map_filter (\<lambda>t. bsearch t vd 0 (length vd)) (drop (Suc (snd c)) ix) = []"
    using a DtimeIndex by (simp add: index_at_def)
  with dtime_first [OF r, unfolded Let_def] r DtimeIndex show ?thesis by (cases c) auto
next
  case (IntervalIndex ix vi)
  assume a: "index_wf idx" "index_at idx k c" "Suc k = length (index_seq idx)"
  obtain b d where r: "interval_getnext ix vi c = (b, d)" by (rule prod.exhaust)
  have w: "sorted vi" "separate ix" "iv_here ix vi c" "iv_rest ix vi c = drop (Suc k) (index_seq idx)"
    using a IntervalIndex by (simp_all add: index_at_def)
  with interval_next [of vi ix "fst c" "snd c", unfolded prod.collapse, OF w(1-3) r] a(3) r IntervalIndex show ?thesis by simp
next
  case (IntIndexNeg vi sz)
  assume a: "index_wf idx" "index_at idx k c" "Suc k = length (index_seq idx)"
  with neg_next(2) [of vi sz k "snd c"] IntIndexNeg show ?thesis
    by (cases c) (auto simp: index_at_def simp del: index_seq.simps(3))
next
  case (BoolIndex vb)
  assume a: "index_wf idx" "index_at idx k c" "Suc k = length (index_seq idx)"
  with bool_next(2) [of vb k] BoolIndex show ?thesis
    by (cases c) (auto simp: index_at_def simp del: index_seq.simps(5))
next
  case (NameIndex vs ns)
  assume a: "index_wf idx" "index_at idx k c" "Suc k = length (index_seq idx)"
  then have "find_name ns (vs ! 0) = Inr (index_seq idx ! 0)" using NameIndex name_find [of vs ns 0] by (cases vs) simp_all
  moreover have "snd c = k" "Suc k = length vs" using a NameIndex by (auto simp: index_at_def)
  ultimately show ?thesis unfolding NameIndex by (cases c) (simp del: index_seq.simps)
next
  case (IntIndex vi vidx uidx)
  assume "index_wf idx" "index_at idx k c" "Suc k = length (index_seq idx)"
  with IntIndex show ?thesis by (cases c) (auto simp: index_at_def)
next
  case (NullIndex sz)
  assume "index_wf idx" "index_at idx k c" "Suc k = length (index_seq idx)"
  with NullIndex show ?thesis by (cases c) (auto simp: index_at_def)
qed

interpretation index_run: enumeration getfirst getnext index_wf index_seq index_at
  by unfold_locales (simp add: index_at_def, rule index_first_none, assumption+, rule index_first_some, assumption+,
      rule index_next_some, assumption+, rule index_next_none, assumption+)



text \<open>\<open>BoolIndex::getnext\<close> advances its counter twice per rejected element, and \<open>IntervalIndex::getnext\<close> gives up
  when the indexed vector is exhausted although a later interval may start before: elements are missed.\<close>

lemma bool_getnext_skips: "getnext (BoolIndex [True, False, True]) (0, 0) = Inr (False, (0, 0))"
  by (simp add: bool_getnext_def bool_scan2.simps bool_scan.simps)

lemma interval_getnext_gives_up:
  "getfirst (IntervalIndex [Interval 5 9 False False, Interval 0 3 False False] [1, 6]) (0, 0) = Inr (True, (1, 0))"
  "getnext (IntervalIndex [Interval 5 9 False False, Interval 0 3 False False] [1, 6]) (1, 0) = Inr (False, (2, 0))"
  by (simp_all add: interval_getfirst.simps interval_getnext_def interval_next_loop.simps lower_bound_def after_iv_def)

end
