(* ===== verification/Index_Ops.thy ===== *)
theory Index_Ops
  imports Index_Enum
begin

text \<open>
  Selection and assignment through an index (\<open>subset\<close>, \<open>subassign\<close>, \<open>selectNames\<close> of \<open>src/src/index.hpp\<close>): what they
  compute in terms of the positions \<open>index_seq\<close>, and that the ordered flag of the target stays sound although
  runs of consecutive positions are checked against their predecessor only.
\<close>

section \<open>Pushing selected elements\<close>

lemma foldR_single: "foldR f [x] s = f x s"
  by (cases "f x s") simp_all

definition pushed :: "'a::linorder vec \<Rightarrow> nat list \<Rightarrow> 'a vec \<Rightarrow> 'a vec \<Rightarrow> bool" where
  "pushed v js rv w \<longleftrightarrow> elems w = elems rv @ map (\<lambda>j. elems v ! j) js \<and> alloc w = alloc rv \<and>
     (vec_inv (<) rv \<longrightarrow> vec_inv (<) w)"

lemma pushed_Nil [simp]: "pushed v [] rv rv"
  by (simp add: pushed_def)

lemma pushed_trans: "pushed v js rv u \<Longrightarrow> pushed v ks u w \<Longrightarrow> pushed v (js @ ks) rv w"
  by (simp add: pushed_def)

lemma push_at_ok:
  fixes v :: "'a::linorder vec"
  assumes "j < vsize v" "alloc rv \<noteq> NullAlloc"
  shows "\<exists>w. push_at (<) v j rv = Inr w \<and> pushed v [j] rv w \<and> alloc w \<noteq> NullAlloc"
proof -
  obtain w where w: "push_back (<) (elems v ! j) rv = Inr w" "alloc w = alloc rv" 
    using push_back_total [OF assms(2), of "(<)" "elems v ! j"] by blast
  have "pushed v [j] rv w"
    unfolding pushed_def using push_back_elems [OF w(1)] w(2) less_cmp.inv_push_back [OF _ w(1)] by simp
  then show ?thesis using w assms by (simp add: push_at_def)
qed

lemma foldR_push:
  fixes v :: "'a::linorder vec"
  assumes "\<And>j rv. j \<in> set js \<Longrightarrow> alloc rv \<noteq> NullAlloc \<Longrightarrow> \<exists>w. f j rv = Inr w \<and> pushed v (g j) rv w \<and> alloc w \<noteq> NullAlloc"
    and "alloc rv \<noteq> NullAlloc"
  shows "\<exists>w. foldR f js rv = Inr w \<and> pushed v (concat (map g js)) rv w \<and> alloc w \<noteq> NullAlloc"
  using assms
proof (induction js arbitrary: rv)
  case (Cons j js)
  from Cons.prems(1) [of j rv] Cons.prems(2) obtain u where u: "f j rv = Inr u" "pushed v (g j) rv u" "alloc u \<noteq> NullAlloc"
    by auto
  from Cons.IH [of u] Cons.prems(1) u(3) obtain w where "foldR f js u = Inr w" "pushed v (concat (map g js)) u w" "alloc w \<noteq> NullAlloc"
    by (metis list.set_intros(2))
  with u show ?case by (auto intro: pushed_trans)
qed simp

lemma concat_map_nth: "concat (map (\<lambda>j. [xs ! j]) [0..<length xs]) = xs"
  by (simp add: concat_map_singleton map_nth)

lemma concat_map_filter: "concat (map (\<lambda>j. if P j then [j] else []) js) = filter P js"
  by (induction js) auto

lemma int_subset_ok:
  fixes v :: "'a::linorder vec"
  assumes "\<forall>j\<in>set vi. j < vsize v" "alloc rv \<noteq> NullAlloc"
  shows "\<exists>w. subset (<) (IntIndex vi vidx uidx) rv v = Some (Inr w) \<and> pushed v vi rv w"
proof -
  let ?f = "\<lambda>j rv. if vi ! j \<ge> vsize v then Inl (RangeError ''subscript out of bounds'') else push_at (<) v (vi ! j) rv"
  have "\<exists>w. foldR ?f [0..<length vi] rv = Inr w \<and> pushed v (concat (map (\<lambda>j. [vi ! j]) [0..<length vi])) rv w \<and> alloc w \<noteq> NullAlloc"
  proof (rule foldR_push [OF _ assms(2)])
    fix j rv assume "j \<in> set [0..<length vi]" and a: "alloc (rv :: 'a vec) \<noteq> NullAlloc"
    then have j: "vi ! j < vsize v" using assms(1) by simp
    from push_at_ok [OF j a] j show "\<exists>w. ?f j rv = Inr w \<and> pushed v [vi ! j] rv w \<and> alloc w \<noteq> NullAlloc" by simp
  qed
  then show ?thesis unfolding concat_map_nth by auto
qed

lemma name_subset_ok:
  fixes v :: "'a::linorder vec"
  assumes "index_wf (NameIndex vs ns)" "\<forall>j\<in>set (index_seq (NameIndex vs ns)). j < vsize v" "alloc rv \<noteq> NullAlloc"
  shows "\<exists>w. subset (<) (NameIndex vs ns) rv v = Some (Inr w) \<and> pushed v (index_seq (NameIndex vs ns)) rv w"
proof -
  let ?s = "index_seq (NameIndex vs ns)"
  have l: "length ?s = length vs" by simp
  have "\<exists>w. foldR (\<lambda>j rv. bindR (find_name ns (vs ! j)) (\<lambda>k. push_at (<) v k rv)) [0..<length vs] rv = Inr w \<and>
    pushed v (concat (map (\<lambda>j. [?s ! j]) [0..<length vs])) rv w \<and> alloc w \<noteq> NullAlloc"
  proof (rule foldR_push [OF _ assms(3)])
    fix j rv assume "j \<in> set [0..<length vs]" and a: "alloc (rv :: 'a vec) \<noteq> NullAlloc"
    then have j: "j < length vs" by simp
    have "?s ! j < vsize v" using assms(2) j l nth_mem [of j ?s] by auto
    from push_at_ok [OF this a] show "\<exists>w. bindR (find_name ns (vs ! j)) (\<lambda>k. push_at (<) v k rv) = Inr w \<and>
        pushed v [?s ! j] rv w \<and> alloc w \<noteq> NullAlloc"
      by (simp only: name_find [OF assms(1) j] bindR.simps)
  qed
  moreover have "concat (map (\<lambda>j. [?s ! j]) [0..<length vs]) = ?s" using concat_map_nth [of ?s] l by simp
  ultimately show ?thesis by auto
qed

lemma bool_subset_ok:
  fixes v :: "'a::linorder vec"
  assumes "\<forall>j\<in>set (index_seq (BoolIndex vb)). j < vsize v" "alloc rv \<noteq> NullAlloc"
  shows "\<exists>w. subset (<) (BoolIndex vb) rv v = Some (Inr w) \<and> pushed v (index_seq (BoolIndex vb)) rv w"
proof -
  have "\<exists>w. foldR (\<lambda>j rv. if vb ! j then push_at (<) v j rv else Inr rv) [0..<length vb] rv = Inr w \<and>
    pushed v (concat (map (\<lambda>j. if vb ! j then [j] else []) [0..<length vb])) rv w \<and> alloc w \<noteq> NullAlloc"
  proof (rule foldR_push [OF _ assms(2)])
    fix j rv assume j: "j \<in> set [0..<length vb]" and a: "alloc (rv :: 'a vec) \<noteq> NullAlloc"
    show "\<exists>w. (if vb ! j then push_at (<) v j rv else Inr rv) = Inr w \<and> pushed v (if vb ! j then [j] else []) rv w \<and> alloc w \<noteq> NullAlloc"
      using assms(1) j a push_at_ok [of j v rv] by (cases "vb ! j") simp_all
  qed
  then show ?thesis by (auto simp: concat_map_filter)
qed

lemma neg_subset_ok:
  fixes v :: "'a::linorder vec"
  assumes "index_wf (IntIndexNeg vi sz)" "\<forall>j\<in>set (index_seq (IntIndexNeg vi sz)). j < vsize v" "alloc rv \<noteq> NullAlloc"
  shows "\<exists>w. subset (<) (IntIndexNeg vi sz) rv v = Some (Inr w) \<and> pushed v (index_seq (IntIndexNeg vi sz)) rv w"
proof -
  have "\<exists>w ii. foldR (neg_subset_step (<) vi v) [0..<k] (rv, 0) = Inr (w, ii) \<and> neg_at vi k ii \<and>
      pushed v (filter (\<lambda>j. j \<notin> set vi) [0..<k]) rv w \<and> alloc w \<noteq> NullAlloc" if "k \<le> sz" for k
    using that
  proof (induction k)
    case 0
    show ?case using assms(3) by (auto simp: neg_at_def)
  next
    case (Suc k)
    then obtain w ii where w: "foldR (neg_subset_step (<) vi v) [0..<k] (rv, 0) = Inr (w, ii)" "neg_at vi k ii"
      "pushed v (filter (\<lambda>j. j \<notin> set vi) [0..<k]) rv w" "alloc w \<noteq> NullAlloc" by auto
    have v: "sorted_wrt (<) vi" "\<forall>x\<in>set vi. x < sz" using assms(1) by simp_all
    have k_in: "k \<in> set vi \<longleftrightarrow> ii < length vi \<and> vi ! ii = k" and at: "neg_at vi (Suc k) (if k \<in> set vi then Suc ii else ii)"
      using neg_step [OF v(1) w(2)] by auto
    show ?case
    proof (cases "k \<in> set vi")
      case True
      then have "neg_subset_step (<) vi v k (w, ii) = Inr (w, Suc ii)" using k_in by (simp add: neg_subset_step_def)
      with w at True show ?thesis by (simp add: foldR_append)
    next
      case False
      then have "k < vsize v" using assms(2) Suc.prems by auto
      from push_at_ok [OF this w(4)] obtain u where u: "push_at (<) v k w = Inr u" "pushed v [k] w u" "alloc u \<noteq> NullAlloc" by blast
      then have "neg_subset_step (<) vi v k (w, ii) = Inr (u, ii)" using k_in False by (auto simp: neg_subset_step_def)
      with w at False pushed_trans [OF w(3) u(2)] u(3) show ?thesis by (simp add: foldR_append)
    qed
  qed
  from this [of sz] show ?thesis by auto
qed

section \<open>Selection with a time index\<close>

lemma run_next: "index_run.run idx cs \<Longrightarrow> k < length cs \<Longrightarrow>
    \<exists>c. getnext idx (cs ! k) = Inr (Suc k < length cs, c) \<and> (Suc k < length cs \<longrightarrow> c = cs ! Suc k)"
  by (simp add: index_run.run_def)

lemma select_loop_run:
  fixes v :: "'a::linorder vec"
  assumes "index_run.run idx cs" "\<forall>c\<in>set cs. fst c < vsize v"
  shows "k < length cs \<Longrightarrow> alloc rv \<noteq> NullAlloc \<Longrightarrow>
    \<exists>w. select_loop idx (<) rv v (Inr (True, cs ! k)) = Some (Inr w) \<and> pushed v (map fst (drop k cs)) rv w"
proof (induction "length cs - k" arbitrary: k rv rule: less_induct)
  case less
  have "fst (cs ! k) < vsize v" using assms(2) less.prems(1) by simp
  from push_at_ok [OF this less.prems(2)] obtain u where
    u: "push_at (<) v (fst (cs ! k)) rv = Inr u" "pushed v [fst (cs ! k)] rv u" "alloc u \<noteq> NullAlloc" by blast
  have d: "drop k cs = cs ! k # drop (Suc k) cs" using less.prems(1) by (simp add: Cons_nth_drop_Suc)
  have step: "select_loop idx (<) rv v (Inr (True, cs ! k)) = select_loop idx (<) u v (getnext idx (cs ! k))"
    using u(1) by (subst select_loop.simps) (simp add: push_at_def)
  from run_next [OF assms(1) less.prems(1)] obtain c where
    c: "getnext idx (cs ! k) = Inr (Suc k < length cs, c)" "Suc k < length cs \<longrightarrow> c = cs ! Suc k" by blast
  show ?case
  proof (cases "Suc k < length cs")
    case True
    have "length cs - Suc k < length cs - k" using less.prems(1) by linarith
    from less.hyps [OF this True u(3)] obtain w where
      "select_loop idx (<) u v (Inr (True, cs ! Suc k)) = Some (Inr w)" "pushed v (map fst (drop (Suc k) cs)) u w" by blast
    with step c True pushed_trans [OF u(2)] show ?thesis by (auto simp: d)
  next
    case False
    then have "drop (Suc k) cs = []" by simp
    with step c False u(2) show ?thesis by (subst (asm) (2) select_loop.simps) (simp add: d)
  qed
qed

lemma select_ok:
  fixes v :: "'a::linorder vec"
  assumes "index_wf idx" "\<forall>j\<in>set (index_seq idx). j < vsize v" "alloc rv \<noteq> NullAlloc"
  shows "\<exists>w. select_loop idx (<) rv v (getfirst idx (0, 0)) = Some (Inr w) \<and> pushed v (index_seq idx) rv w"
proof -
  from index_run.run_exists [OF assms(1)] obtain cs where run: "index_run.run idx cs" by blast
  then obtain c where s: "map fst cs = index_seq idx" and f: "getfirst idx (0, 0) = Inr (cs \<noteq> [], c)" "cs \<noteq> [] \<longrightarrow> c = hd cs"
    by (auto simp: index_run.run_def)
  have v: "\<forall>c\<in>set cs. fst c < vsize v" using assms(2) unfolding s [symmetric] by simp
  show ?thesis
  proof (cases "cs = []")
    case True
    with f s show ?thesis by (subst select_loop.simps) (simp add: s [symmetric])
  next
    case False
    with select_loop_run [OF run v, of 0 rv] assms(3) f s show ?thesis by (simp add: hd_conv_nth)
  qed
qed

section \<open>Selection\<close>

text \<open>What selection needs of an index: as for enumeration, except that logical indices are read directly.\<close>

fun selectable :: "index \<Rightarrow> nat \<Rightarrow> bool" where
  "selectable (NullIndex sz) n = (sz = n)"
| "selectable (BoolIndex vb) n = True"
| "selectable (DtimeIndex idx vd) n = (length vd = n)"
| "selectable (IntervalIndex idx vi) n = (length vi = n \<and> index_wf (IntervalIndex idx vi))"
| "selectable idx n = index_wf idx"


definition sel_source :: "int vec" where
  "sel_source = \<lparr>typenumber = 0, elems = [10, 20, 30], ordered = True, capacity = 1024, alloc = MemAlloc\<rparr>"

definition sel_target :: "int vec" where
  "sel_target = \<lparr>typenumber = 0, elems = [], ordered = True, capacity = 1024, alloc = MemAlloc\<rparr>"


section \<open>Writing runs of positions\<close>

text \<open>All neighbours in order except the pair at \<open>p\<close>, if the flag is set.\<close>

definition inv_but :: "nat \<Rightarrow> 'a::linorder vec \<Rightarrow> bool" where
  "inv_but p v \<longleftrightarrow> (ordered v \<longrightarrow> (\<forall>k. Suc k < vsize v \<longrightarrow> k \<noteq> p \<longrightarrow> elems v ! k \<le> elems v ! Suc k))"

lemma vec_inv_pairs: "vec_inv (<) v \<longleftrightarrow> (ordered v \<longrightarrow> (\<forall>k. Suc k < vsize v \<longrightarrow> elems v ! k \<le> elems v ! Suc k))"
  for v :: "'a::linorder vec"
  by (auto simp: vec_inv_def successively_nth not_less)

lemma vec_inv_but: "vec_inv (<) v \<Longrightarrow> inv_but p v" for v :: "'a::linorder vec"
  by (simp add: vec_inv_pairs inv_but_def)

lemma write_followed:
  fixes rv :: "'a::linorder vec"
  assumes "inv_but p rv" "j = p \<or> j = Suc p" "j < vsize rv"
  shows "\<exists>w. setv_checkbefore (<) j x rv = Inr w \<and> elems w = (elems rv)[j := x] \<and> alloc w = alloc rv \<and> inv_but j w"
proof -
  let ?w = "rv\<lparr>elems := (elems rv)[j := x], ordered := (if ordered rv \<and> j > 0 then (elems rv)[j := x] ! (j - 1) < x else ordered rv)\<rparr>"
  have "inv_but j ?w"
    unfolding inv_but_def
  proof (intro impI allI)
    fix k assume o: "ordered ?w" and k: "Suc k < vsize ?w" "k \<noteq> j"
    then have ord: "ordered rv" by (auto split: if_splits)
    show "elems ?w ! k \<le> elems ?w ! Suc k"
    proof (cases "Suc k = j")
      case True
      with o ord k show ?thesis by (auto split: if_splits)
    next
      case False
      with assms k ord show ?thesis by (auto simp: inv_but_def)
    qed
  qed
  then show ?thesis using assms(3) by (simp add: setv_checkbefore_def Let_def)
qed

lemma write_single:
  fixes rv :: "'a::linorder vec"
  assumes "inv_but p rv" "j = p \<or> j = Suc p" "j < vsize rv"
  shows "\<exists>w. setv (<) j x rv = Inr w \<and> elems w = (elems rv)[j := x] \<and> alloc w = alloc rv \<and> vec_inv (<) w"
proof -
  obtain w where w: "setv (<) j x rv = Inr w" and e: "elems w = (elems rv)[j := x]" "alloc w = alloc rv"
    using mem_setv [OF assms(3)] by blast
  have o: "ordered rv \<and> (j > 0 \<longrightarrow> elems rv ! (j - 1) < x) \<and> (j < vsize rv - 1 \<longrightarrow> x < elems rv ! (j + 1))" if "ordered w"
    using w assms(3) that by (auto simp: setv_def Let_def split: if_splits)
  have "vec_inv (<) w"
    unfolding vec_inv_pairs
  proof (intro impI allI)
    fix k assume "ordered w" and k: "Suc k < vsize w"
    note o = o [OF this(1)]
    show "elems w ! k \<le> elems w ! Suc k"
    proof (cases "Suc k = j \<or> k = j")
      case True
      with o k e(1) assms(3) show ?thesis by (auto simp: nth_list_update)
    next
      case False
      with assms(1,2) k e(1) o show ?thesis by (auto simp: inv_but_def)
    qed
  qed
  with w e show ?thesis by blast
qed

text \<open>A chain of writes: a write that is followed by one at the same or the next position checks only its
  predecessor.\<close>

fun chain_ok :: "(nat \<times> 'a \<times> bool) list \<Rightarrow> bool" where
  "chain_ok [] = True"
| "chain_ok [(j, x, f)] = (\<not> f)"
| "chain_ok ((j, x, f) # (j', x', f') # ws) =
     ((f \<longrightarrow> j' = j \<or> j' = Suc j) \<and> chain_ok ((j', x', f') # ws))"

definition assign_all :: "(nat \<times> 'a \<times> bool) list \<Rightarrow> 'a list \<Rightarrow> 'a list" where
  "assign_all ws es = fold (\<lambda>(j, x, f) es. es[j := x]) ws es"

lemma assign_all_Cons [simp]: "assign_all ((j, x, f) # ws) es = assign_all ws (es[j := x])"
  by (simp add: assign_all_def)

lemma assign_all_Nil [simp]: "assign_all [] es = es"
  by (simp add: assign_all_def)

lemma write_chain:
  fixes rv :: "'a::linorder vec"
  assumes "chain_ok ws" "\<forall>w\<in>set ws. fst w < vsize rv"
    and "inv_but p rv" "ws \<noteq> [] \<longrightarrow> fst (hd ws) = p \<or> fst (hd ws) = Suc p" "ws = [] \<longrightarrow> vec_inv (<) rv"
  shows "\<exists>w. foldR (\<lambda>(j, x, f) rv. checked_write (<) f j x rv) ws rv = Inr w \<and>
    elems w = assign_all ws (elems rv) \<and> alloc w = alloc rv \<and> vec_inv (<) w"
  using assms
proof (induction ws arbitrary: rv p rule: chain_ok.induct)
  case 1
  then show ?case by simp
next
  case (2 j x f)
  with write_single [of p rv j x] show ?case by (auto simp: checked_write_def)
next
  case (3 j x f j' x' f' ws)
  obtain u where u: "checked_write (<) f j x rv = Inr u" "elems u = (elems rv)[j := x]" "alloc u = alloc rv"
    "if f then inv_but j u else vec_inv (<) u"
    using write_single [of p rv j x] write_followed [of p rv j x] 3 by (cases f) (auto simp: checked_write_def)
  define q where "q = (if f then j else j')"
  have q: "inv_but q u" "j' = q \<or> j' = Suc q" using u(4) "3.prems"(1) vec_inv_but [of u j'] by (auto simp: q_def)
  have "\<exists>w. foldR (\<lambda>(j, x, f) rv. checked_write (<) f j x rv) ((j', x', f') # ws) u = Inr w \<and>
    elems w = assign_all ((j', x', f') # ws) (elems u) \<and> alloc w = alloc u \<and> vec_inv (<) w"
    using "3.prems"(1,2) q u(2) by (intro "3.IH" [of u q]) auto
  with u show ?case by auto
qed

section \<open>Assignment\<close>

text \<open>The writes an assignment performs: the positions with the elements read for them, and whether the next position
  is the same or the one after.\<close>

definition followed :: "nat list \<Rightarrow> nat \<Rightarrow> bool" where
  "followed js k \<longleftrightarrow> Suc k < length js \<and> (js ! Suc k = js ! k \<or> js ! Suc k = Suc (js ! k))"

definition writes :: "nat list \<Rightarrow> (nat \<Rightarrow> 'a) \<Rightarrow> nat \<Rightarrow> (nat \<times> 'a \<times> bool) list" where
  "writes js x k = map (\<lambda>i. (js ! i, x i, followed js i)) [k..<length js]"

lemma writes_Cons: "k < length js \<Longrightarrow> writes js x k = (js ! k, x k, followed js k) # writes js x (Suc k)"
  by (simp add: writes_def upt_conv_Cons)

lemma writes_end: "length js \<le> k \<Longrightarrow> writes js x k = []"
  by (simp add: writes_def)

lemma writes_chain: "k < length js \<Longrightarrow> chain_ok (writes js x k)"
proof (induction "length js - k" arbitrary: k rule: less_induct)
  case less
  show ?case
  proof (cases "Suc k < length js")
    case True
    have "length js - Suc k < length js - k" using less.prems by linarith
    from less.hyps [OF this True] True less.prems show ?thesis
      by (auto simp: writes_Cons followed_def)
  next
    case False
    with less.prems show ?thesis by (simp add: writes_Cons writes_end followed_def)
  qed
qed

lemma size_sub_step:
  assumes "j < SIZE_MAX" "n < SIZE_MAX"
  shows "size_sub n j \<le> 1 \<longleftrightarrow> n = j \<or> n = Suc j"
  using assms by (auto simp: size_sub_def SIZE_MAX_def)

lemma subassign_loop_run:
  fixes rv :: "'a::linorder vec"
  assumes run: "index_run.run idx cs" and bound: "\<forall>c\<in>set cs. fst c < vsize rv" "vsize rv \<le> SIZE_MAX"
    and src: "\<And>k. k < length cs \<Longrightarrow> src (vj + k) = Inr (x k)"
  shows "k < length cs \<Longrightarrow> vsize u = vsize rv \<Longrightarrow>
    subassign_loop idx (<) src (fst (cs ! k)) (cs ! k) (vj + k) u =
      Some (bindR (foldR (\<lambda>(j, x, f) rv. checked_write (<) f j x rv) (writes (map fst cs) x k) u)
              (\<lambda>w. Inr (w, vj + length cs)))"
proof (induction "length cs - k" arbitrary: k u rule: less_induct)
  case less
  from run_next [OF run less.prems(1)] obtain c where
    c: "getnext idx (cs ! k) = Inr (Suc k < length cs, c)" "Suc k < length cs \<longrightarrow> c = cs ! Suc k" by blast
  have w: "writes (map fst cs) x k = (fst (cs ! k), x k, followed (map fst cs) k) # writes (map fst cs) x (Suc k)"
    using less.prems(1) by (simp add: writes_Cons)
  show ?case
  proof (cases "Suc k < length cs")
    case True
    have b: "fst (cs ! k) < SIZE_MAX" "fst (cs ! Suc k) < SIZE_MAX"
      using bound(1) [rule_format, OF nth_mem [OF less.prems(1)]] bound(1) [rule_format, OF nth_mem [OF True]] bound(2)
      by simp_all
    have f: "size_sub (fst (cs ! Suc k)) (fst (cs ! k)) \<le> 1 \<longleftrightarrow> followed (map fst cs) k"
      using True less.prems(1) size_sub_step [OF b] by (simp add: followed_def)
    have "length cs - Suc k < length cs - k" using less.prems(1) by linarith
    note IH = less.hyps [OF this True]
    show ?thesis
    proof (cases "checked_write (<) (followed (map fst cs) k) (fst (cs ! k)) (x k) u")
      case (Inl e)
      then show ?thesis using c True f src [OF less.prems(1)]
        by (subst subassign_loop.simps) (simp add: w)
    next
      case (Inr u')
      have "fst (cs ! k) < vsize u" using bound(1) less.prems nth_mem [of k cs] by simp
      then have "vsize u' = vsize rv" using Inr less.prems(2)
        by (auto simp: checked_write_def setv_def setv_checkbefore_def Let_def split: if_splits)
      then show ?thesis using c True f src [OF less.prems(1)] Inr IH [of u']
        by (subst subassign_loop.simps) (simp add: w)
    qed
  next
    case False
    then have "length cs = Suc k" "\<not> followed (map fst cs) k" using less.prems(1) by (auto simp: followed_def)
    then show ?thesis using c False src [OF less.prems(1)]
      by (subst subassign_loop.simps, cases "setv (<) (fst (cs ! k)) (x k) u")
         (simp_all add: w writes_end checked_write_def)
  qed
qed

lemma subassign_generic_ok:
  fixes rv :: "'a::linorder vec"
  assumes "index_wf idx" "\<forall>j\<in>set (index_seq idx). j < vsize rv" "vsize rv \<le> SIZE_MAX" "vec_inv (<) rv"
    and "\<And>k. k < length (index_seq idx) \<Longrightarrow> src (vj + k) = Inr (x k)"
  shows "\<exists>w. subassign_generic idx (<) src vj rv = Some (Inr (w, vj + length (index_seq idx))) \<and>
    elems w = assign_all (writes (index_seq idx) x 0) (elems rv) \<and> vec_inv (<) w"
proof -
  from index_run.run_exists [OF assms(1)] obtain cs where run: "index_run.run idx cs" by blast
  then obtain c where s: "map fst cs = index_seq idx" and f: "getfirst idx (0, 0) = Inr (cs \<noteq> [], c)" "cs \<noteq> [] \<longrightarrow> c = hd cs"
    by (auto simp: index_run.run_def)
  have l: "length cs = length (index_seq idx)" using arg_cong [OF s, of length] by simp
  show ?thesis
  proof (cases "cs = []")
    case True
    with f s assms(4) show ?thesis by (auto simp: subassign_generic_def writes_end s [symmetric])
  next
    case False
    then have n: "0 < length cs" by simp
    have v: "\<forall>c\<in>set cs. fst c < vsize rv" using assms(2) unfolding s [symmetric] by simp
    have g: "subassign_generic idx (<) src vj rv =
      Some (bindR (foldR (\<lambda>(j, x, f) rv. checked_write (<) f j x rv) (writes (index_seq idx) x 0) rv)
              (\<lambda>w. Inr (w, vj + length cs)))"
      using subassign_loop_run [OF run v assms(3), of src vj x 0 rv] assms(5) l f False n s
      by (simp add: subassign_generic_def hd_conv_nth)
    have "\<forall>w\<in>set (writes (index_seq idx) x 0). fst w < vsize rv" using assms(2) by (auto simp: writes_def)
    moreover have "writes (index_seq idx) x 0 \<noteq> []" "chain_ok (writes (index_seq idx) x 0)"
      using n l writes_chain [of 0 "index_seq idx" x] by (auto simp: writes_def)
    ultimately show ?thesis
      using write_chain [of "writes (index_seq idx) x 0" rv "fst (hd (writes (index_seq idx) x 0))"] vec_inv_but [OF assms(4)] g l by auto
  qed
qed

text \<open>The constructor of integer indices: the elements are assigned in another order than given, but each with its
  own value.\<close>

lemma sort_idx_perm: "mset (sort_idx 0 v) = mset [0..<vsize v]"
  by (simp add: sort_idx_def)

definition int_perm :: "nat list \<Rightarrow> nat list \<Rightarrow> nat list \<Rightarrow> bool" where
  "int_perm vi vidx uidx \<longleftrightarrow> mset uidx = mset [0..<length vi] \<and> vidx = map (\<lambda>k. vi ! k) uidx"

lemma perm_write_loop:
  assumes "distinct idx" "length idx = n" "\<forall>i\<in>set idx. i < n"
  shows "k \<le> n \<Longrightarrow> \<exists>vidx uidx. fold (\<lambda>j (vidx, uidx). (vidx[idx ! j := vi ! j], uidx[idx ! j := j])) [0..<k] (replicate n 0, replicate n 0)
      = (vidx, uidx) \<and> length vidx = n \<and> length uidx = n \<and> (\<forall>j<k. vidx ! (idx ! j) = vi ! j \<and> uidx ! (idx ! j) = j)"
proof (induction k)
  case (Suc k)
  then obtain vidx uidx where s: "fold (\<lambda>j (vidx, uidx). (vidx[idx ! j := vi ! j], uidx[idx ! j := j])) [0..<k] (replicate n 0, replicate n 0)
      = (vidx, uidx)" "length vidx = n" "length uidx = n" "\<forall>j<k. vidx ! (idx ! j) = vi ! j \<and> uidx ! (idx ! j) = j" by auto
  have "idx ! k < n" using assms(2,3) Suc.prems by simp
  moreover have "idx ! k \<noteq> idx ! j" if "j < k" for j
    using assms(1,2) that Suc.prems by (simp add: nth_eq_iff_index_eq)
  ultimately show ?case using s by (auto simp: less_Suc_eq nth_list_update)
qed simp

lemma mk_IntIndex_perm: "\<exists>vidx uidx. mk_IntIndex vi = IntIndex (elems vi) vidx uidx \<and> int_perm (elems vi) vidx uidx"
proof (cases "ordered vi")
  case True
  then show ?thesis by (auto simp: mk_IntIndex_def int_perm_def map_nth)
next
  case False
  let ?n = "vsize vi" and ?idx = "sort_idx 0 vi"
  have p: "mset ?idx = mset [0..<?n]" by (rule sort_idx_perm)
  have d1: "distinct ?idx" using mset_eq_imp_distinct_iff [OF p] by simp
  have d2: "length ?idx = ?n" using mset_eq_length [OF p] by simp
  have d3: "set ?idx = {..<?n}" using mset_eq_setD [OF p] by (simp add: atLeast0LessThan)
  note d = d1 d2 d3
  from perm_write_loop [OF d1 d2, of ?n "elems vi"] d3 obtain vidx uidx where
    w: "fold (\<lambda>j (vidx, uidx). (vidx[?idx ! j := elems vi ! j], uidx[?idx ! j := j])) [0..<?n] (replicate ?n 0, replicate ?n 0) = (vidx, uidx)"
    "length vidx = ?n" "length uidx = ?n" "\<forall>j<?n. vidx ! (?idx ! j) = elems vi ! j \<and> uidx ! (?idx ! j) = j" by auto
  have inv: "\<exists>j<?n. ?idx ! j = i" if "i < ?n" for i
    using that d by (metis in_set_conv_nth lessThan_iff)
  have "set uidx = {..<?n}"
  proof (rule set_eqI, rule iffI)
    fix i assume "i \<in> set uidx"
    then obtain q where q: "q < ?n" "i = uidx ! q" using w(3) by (auto simp: in_set_conv_nth)
    from inv [OF q(1)] obtain j where "j < ?n" "?idx ! j = q" by blast
    with w(4) q(2) show "i \<in> {..<?n}" by auto
  next
    fix i assume "i \<in> {..<?n}"
    then have i: "i < ?n" by simp
    then have "?idx ! i < ?n" using d2 d3 nth_mem [of i ?idx] by auto
    then have "uidx ! (?idx ! i) \<in> set uidx" using w(3) by simp
    with w(4) i show "i \<in> set uidx" by simp
  qed
  then have "distinct uidx" using w(3) by (metis card_distinct card_lessThan)
  then have "mset uidx = mset [0..<?n]" using \<open>set uidx = {..<?n}\<close> 
    using mset_set_set [OF \<open>distinct uidx\<close>] by (simp add: atLeast0LessThan)
  moreover have "vidx = map (\<lambda>k. elems vi ! k) uidx"
  proof (rule nth_equalityI)
    fix q assume q: "q < length vidx"
    with w(2) inv obtain j where "j < ?n" "?idx ! j = q" by auto
    with w(2-4) q show "vidx ! q = map (\<lambda>k. elems vi ! k) uidx ! q" by auto
  qed (simp add: w)
  ultimately show ?thesis using False w(1) d(2) by (simp add: mk_IntIndex_def Let_def int_perm_def)
qed

text \<open>The flag test of \<open>IntIndex_T::subassign\<close> is the one of a chain of writes; repeated positions are checked on both
  sides there.\<close>

definition int_writes :: "nat list \<Rightarrow> (nat \<Rightarrow> 'a) \<Rightarrow> (nat \<times> 'a \<times> bool) list" where
  "int_writes js x = map (\<lambda>j. (js ! j, x j, j + 1 < length js \<and> size_sub (js ! (j + 1)) (js ! j) = 1)) [0..<length js]"

lemma int_writes_chain:
  assumes "\<forall>j\<in>set js. j < SIZE_MAX"
  shows "chain_ok (int_writes js x)"
proof -
  have "chain_ok (map (\<lambda>j. (js ! j, x j, j + 1 < length js \<and> size_sub (js ! (j + 1)) (js ! j) = 1)) [k..<length js])"
    if "k \<le> length js" for k
    using that
  proof (induction "length js - k" arbitrary: k rule: less_induct)
    case less
    show ?case
    proof (cases "Suc k < length js")
      case True
      have "length js - Suc k < length js - k" using True by linarith
      from less.hyps [OF this] True have IH: "chain_ok (map (\<lambda>j. (js ! j, x j, j + 1 < length js \<and> size_sub (js ! (j + 1)) (js ! j) = 1)) [Suc k..<length js])"
        by simp
      have "js ! k < SIZE_MAX" "js ! Suc k < SIZE_MAX" using assms True by simp_all
      then have "size_sub (js ! Suc k) (js ! k) = 1 \<Longrightarrow> js ! Suc k = js ! k \<or> js ! Suc k = Suc (js ! k)"
        using size_sub_step by (metis order.refl)
      with IH True show ?thesis by (simp add: upt_conv_Cons)
    next
      case False
      with less.prems show ?thesis by (cases "k = length js") (simp_all add: upt_conv_Cons)
    qed
  qed
  from this [of 0] show ?thesis by (simp add: int_writes_def)
qed

lemma assign_all_length [simp]: "length (assign_all ws es) = length es"
  by (induction ws arbitrary: es) (auto simp: assign_all_def split: prod.split)

lemma assign_all_other: "\<forall>w\<in>set ws. fst w \<noteq> q \<Longrightarrow> assign_all ws es ! q = es ! q"
proof (induction ws arbitrary: es)
  case (Cons w ws)
  then show ?case by (cases w) auto
qed simp

lemma assign_all_nth:
  assumes "distinct (map fst ws)" "(j, x, f) \<in> set ws" "j < length es"
  shows "assign_all ws es ! j = x"
  using assms
proof (induction ws arbitrary: es)
  case (Cons w ws)
  show ?case
  proof (cases "w = (j, x, f)")
    case True
    with Cons.prems(1) have "\<forall>w\<in>set ws. fst w \<noteq> j" by auto
    with True Cons.prems(3) assign_all_other [of ws j "es[j := x]"] show ?thesis by simp
  next
    case False
    with Cons show ?thesis by (cases w) auto
  qed
qed simp

lemma int_subassign_ok:
  fixes rv :: "'a::linorder vec"
  assumes "int_perm vi vidx uidx" "\<forall>j\<in>set vi. j < vsize rv" "vsize rv \<le> SIZE_MAX" "vec_inv (<) rv"
    and "vj + length vi \<le> vsize u"
  shows "\<exists>w. subassign (<) conv (IntIndex vi vidx uidx) (vec_at u) vj rv = Some (Inr (w, vj + length vi)) \<and>
    elems w = assign_all (int_writes vidx (\<lambda>j. conv (elems u ! (vj + uidx ! j)))) (elems rv) \<and> vec_inv (<) w"
proof -
  let ?x = "\<lambda>j. conv (elems u ! (vj + uidx ! j))"
  have p: "mset uidx = mset [0..<length vi]" "vidx = map (\<lambda>k. vi ! k) uidx" using assms(1) by (simp_all add: int_perm_def)
  have l: "length vidx = length vi" "length uidx = length vi" using p(2) mset_eq_length [OF p(1)] by simp_all
  have su: "set uidx = {..<length vi}" using mset_eq_setD [OF p(1)] by (simp add: atLeast0LessThan)
  have vb: "\<forall>j\<in>set vidx. j < vsize rv" using assms(1,2) su by (auto simp: int_perm_def)
  have at: "vec_at u (vj + uidx ! j) = Inr (elems u ! (vj + uidx ! j))" if "j < length vi" for j
  proof -
    have "uidx ! j < length vi" using that l(2) su nth_mem [of j uidx] by auto
    then show ?thesis using assms(5) by (intro vec_at_ok) linarith
  qed
  have "foldR (\<lambda>j rv. bindR (vec_at u (vj + uidx ! j)) (\<lambda>x.
          checked_write (<) (j + 1 < length vi \<and> size_sub (vidx ! (j + 1)) (vidx ! j) = 1) (vidx ! j) (conv x) rv)) [0..<k] rv
      = foldR (\<lambda>(j, x, f) rv. checked_write (<) f j x rv) (take k (int_writes vidx ?x)) rv" if "k \<le> length vi" for k
    using that
  proof (induction k)
    case (Suc k)
    then have t: "take (Suc k) (int_writes vidx ?x) = take k (int_writes vidx ?x) @ [int_writes vidx ?x ! k]"
      by (intro take_Suc_conv_app_nth) (simp add: int_writes_def l)
    have k: "k \<le> length vi" using Suc.prems by simp
    show ?case unfolding t upt_Suc_append [OF le0] foldR_append
      using Suc.prems at [of k] by (intro bindR_cong [OF Suc.IH [OF k]]) (simp only: foldR_single, simp add: int_writes_def l)
  qed simp
  from this [of "length vi"] have f: "foldR (\<lambda>j rv. bindR (vec_at u (vj + uidx ! j)) (\<lambda>x.
          checked_write (<) (j + 1 < length vi \<and> size_sub (vidx ! (j + 1)) (vidx ! j) = 1) (vidx ! j) (conv x) rv)) [0..<length vi] rv
      = foldR (\<lambda>(j, x, f) rv. checked_write (<) f j x rv) (int_writes vidx ?x) rv" by (simp add: int_writes_def l)
  have "\<forall>w\<in>set (int_writes vidx ?x). fst w < vsize rv" using vb by (auto simp: int_writes_def)
  moreover have "chain_ok (int_writes vidx ?x)" using vb assms(3) by (intro int_writes_chain) auto
  ultimately show ?thesis
    using write_chain [of "int_writes vidx ?x" rv "fst (hd (int_writes vidx ?x))"] vec_inv_but [OF assms(4)] assms(4) f by auto
qed

text \<open>Assigning through a list of distinct positions, in range and with enough elements to assign, puts each element
  at its position, leaves all other elements as they were, consumes as many elements as there are positions and
  keeps the ordered flag sound, in whatever order the constructor has arranged the positions.\<close>

theorem int_subassign_correct:
  fixes rv :: "'a::linorder vec"
  assumes "distinct (elems vi)" "\<forall>j\<in>set (elems vi). j < vsize rv" "vsize rv \<le> SIZE_MAX" "vec_inv (<) rv"
    and "vj + vsize vi \<le> vsize u"
  shows "\<exists>w. subassign (<) conv (mk_IntIndex vi) (vec_at u) vj rv = Some (Inr (w, vj + vsize vi)) \<and> vec_inv (<) w \<and>
    (\<forall>k<vsize vi. elems w ! (elems vi ! k) = conv (elems u ! (vj + k))) \<and>
    (\<forall>q. q \<notin> set (elems vi) \<longrightarrow> elems w ! q = elems rv ! q)"
proof -
  from mk_IntIndex_perm [of vi] obtain vidx uidx where mk: "mk_IntIndex vi = IntIndex (elems vi) vidx uidx"
    and perm: "int_perm (elems vi) vidx uidx" by blast
  let ?ws = "int_writes vidx (\<lambda>j. conv (elems u ! (vj + uidx ! j)))"
  from int_subassign_ok [OF perm assms(2-5)] obtain w where
    w: "subassign (<) conv (mk_IntIndex vi) (vec_at u) vj rv = Some (Inr (w, vj + vsize vi))" "vec_inv (<) w"
    and e: "elems w = assign_all ?ws (elems rv)" unfolding mk by blast
  have p: "mset uidx = mset [0..<vsize vi]" "vidx = map (\<lambda>k. elems vi ! k) uidx" using perm by (simp_all add: int_perm_def)
  have su: "set uidx = {..<vsize vi}" using mset_eq_setD [OF p(1)] by (simp add: atLeast0LessThan)
  have du: "distinct uidx" using mset_eq_imp_distinct_iff [OF p(1)] by simp
  have f: "map fst ?ws = vidx" by (auto simp: int_writes_def intro!: nth_equalityI)
  have sv: "set vidx = set (elems vi)" unfolding p(2) set_map su by (auto simp: in_set_conv_nth)
  have "inj_on ((!) (elems vi)) {..<vsize vi}" using assms(1) by (auto simp: inj_on_def nth_eq_iff_index_eq)
  then have "distinct vidx" unfolding p(2) distinct_map su using du by simp
  then have dv: "distinct (map fst ?ws)" by (simp only: f)
  have "elems w ! (elems vi ! k) = conv (elems u ! (vj + k))" if k: "k < vsize vi" for k
  proof -
    obtain j where j: "j < length uidx" "uidx ! j = k" using su k by (metis in_set_conv_nth lessThan_iff)
    then have "(elems vi ! k, conv (elems u ! (vj + k)), j + 1 < length vidx \<and> size_sub (vidx ! (j + 1)) (vidx ! j) = 1) \<in> set ?ws"
      using p(2) by (force simp: int_writes_def image_iff)
    from assign_all_nth [OF dv this] show ?thesis using assms(2) k e by simp
  qed
  moreover have "elems w ! q = elems rv ! q" if "q \<notin> set (elems vi)" for q
  proof -
    have "q \<notin> set (map fst ?ws)" using that unfolding f sv .
    then have "\<forall>w\<in>set ?ws. fst w \<noteq> q" by auto
    then show ?thesis unfolding e by (rule assign_all_other)
  qed
  ultimately show ?thesis using w by blast
qed

definition pos_vec :: "nat list \<Rightarrow> nat vec" where
  "pos_vec js = \<lparr>typenumber = 0, elems = js, ordered = False, capacity = 1024, alloc = MemAlloc\<rparr>"

theorem int_subassign_correct_witness:
  "\<exists>w. subassign (<) id (mk_IntIndex (pos_vec [2, 0])) (vec_at (set_example [7, 5])) 0 sel_source = Some (Inr (w, 2)) \<and>
     elems w ! 2 = 7 \<and> elems w ! 0 = 5 \<and> elems w ! 1 = 20"
proof -
  have "distinct (elems (pos_vec [2, 0]))" "\<forall>j\<in>set (elems (pos_vec [2, 0])). j < vsize sel_source"
    "vsize sel_source \<le> SIZE_MAX" "vec_inv (<) sel_source" "0 + vsize (pos_vec [2, 0]) \<le> vsize (set_example [7, 5])"
    by (simp_all add: pos_vec_def sel_source_def set_example_def SIZE_MAX_def vec_inv_def)
  from int_subassign_correct [OF this, of id] obtain w where
    w: "subassign (<) id (mk_IntIndex (pos_vec [2, 0])) (vec_at (set_example [7, 5])) 0 sel_source = Some (Inr (w, 0 + vsize (pos_vec [2, 0])))"
    "\<forall>k<vsize (pos_vec [2, 0]). elems w ! (elems (pos_vec [2, 0]) ! k) = id (elems (set_example [7, 5]) ! (0 + k))"
    "\<forall>q. q \<notin> set (elems (pos_vec [2, 0])) \<longrightarrow> elems w ! q = elems sel_source ! q" by blast
  from w(2) [rule_format, of 0] w(2) [rule_format, of 1] w(3) [rule_format, of 1] w(1) show ?thesis
    by (intro exI [of _ w]) (simp add: pos_vec_def set_example_def sel_source_def)
qed

text \<open>Assigning through an index of any other kind runs through its positions: the elements are taken in turn and
  put at the positions, later writes to a position winning, and the ordered flag stays sound.\<close>

theorem index_subassign_correct:
  fixes rv :: "'a::linorder vec"
  assumes "index_wf idx" "\<forall>j\<in>set (index_seq idx). j < vsize rv" "vsize rv \<le> SIZE_MAX" "vec_inv (<) rv"
    and "vj + length (index_seq idx) \<le> vsize u"
  shows "\<exists>w. subassign_generic idx (<) (\<lambda>k. bindR (vec_at u k) (\<lambda>x. Inr (conv x))) vj rv
      = Some (Inr (w, vj + length (index_seq idx))) \<and> vec_inv (<) w \<and>
    elems w = fold (\<lambda>k es. es[index_seq idx ! k := conv (elems u ! (vj + k))]) [0..<length (index_seq idx)] (elems rv)"
proof -
  let ?x = "\<lambda>k. conv (elems u ! (vj + k))"
  let ?src = "\<lambda>k. bindR (vec_at u k) (\<lambda>x. Inr (conv x))"
  have "\<And>k. k < length (index_seq idx) \<Longrightarrow> ?src (vj + k) = Inr (?x k)" using assms(5) by simp
  from subassign_generic_ok [OF assms(1-4), of ?src vj ?x, OF this] show ?thesis
    by (auto simp: assign_all_def writes_def fold_map o_def)
qed

theorem index_subassign_correct_witness:
  "\<exists>w. subassign_generic (IntIndexNeg [1] 3) (<) (\<lambda>k. bindR (vec_at (set_example [7, 5]) k) (\<lambda>x. Inr (id x))) 0 sel_source
     = Some (Inr (w, 2)) \<and> elems w = [7, 20, 5]"
proof -
  have u: "[0..<3] = [0, 1, 2::nat]" "[0..<2] = [0, 1::nat]" "[0..<Suc (Suc 0)] = [0, 1::nat]" by (simp_all add: upt_rec)
  have s: "index_seq (IntIndexNeg [1] 3) = [0, 2]" by (simp add: u)
  have "index_wf (IntIndexNeg [1] 3)" "\<forall>j\<in>set (index_seq (IntIndexNeg [1] 3)). j < vsize sel_source"
    "vsize sel_source \<le> SIZE_MAX" "vec_inv (<) sel_source" "0 + length (index_seq (IntIndexNeg [1] 3)) \<le> vsize (set_example [7, 5])"
    unfolding s by (simp_all add: sel_source_def set_example_def SIZE_MAX_def vec_inv_def)
  from index_subassign_correct [OF this, of id] show ?thesis
    unfolding s by (auto simp: sel_source_def set_example_def u)
qed

section \<open>Names\<close>

definition named :: "string list \<Rightarrow> dname \<Rightarrow> dname \<Rightarrow> bool" where
  "named ls to d \<longleftrightarrow> dname_wf d \<and> map_ok d \<and> labels d = labels to @ ls"

lemma addafter_named: "dname_wf to \<Longrightarrow> map_ok to \<Longrightarrow> \<exists>d. addafter s to = Inr d \<and> named [s] to d"
  using addafter_ok [of to s] by (auto simp: named_def)

lemma foldR_named:
  assumes "\<And>j to. j \<in> set js \<Longrightarrow> dname_wf to \<Longrightarrow> map_ok to \<Longrightarrow> \<exists>d. f j to = Inr d \<and> named (g j) to d"
    and "dname_wf to" "map_ok to"
  shows "\<exists>d. foldR f js to = Inr d \<and> named (concat (map g js)) to d"
  using assms
proof (induction js arbitrary: to)
  case Nil
  then show ?case by (simp add: named_def)
next
  case (Cons j js)
  from Cons.prems(1) [of j to] Cons.prems(2,3) obtain u where u: "f j to = Inr u" "named (g j) to u" by auto
  from u(2) have "dname_wf u" "map_ok u" by (auto simp: named_def)
  with Cons.IH [of u] Cons.prems(1) obtain w where "foldR f js u = Inr w" "named (concat (map g js)) u w"
    by (meson list.set_intros(2))
  with u show ?case by (auto simp: named_def)
qed

lemma add_from_named:
  assumes "hasNames from" "j < dsz from" "dname_wf to" "map_ok to"
  shows "\<exists>d. add_from from j to = Inr d \<and> named [labels from ! j] to d"
proof -
  have "vec_at (dnames from) j = Inr (labels from ! j)" using assms(1,2) by (auto simp: hasNames_def labels_def)
  with addafter_named [OF assms(3,4)] show ?thesis by (simp add: add_from_def)
qed

lemma hasNames_size: "hasNames d \<Longrightarrow> 0 < vsize (dnames d)"
  by (auto simp: hasNames_def)

lemma neg_names_loop:
  assumes "sorted_wrt (<) vi" "hasNames from" "sz \<le> dsz from" "dname_wf to" "map_ok to"
  shows "k \<le> sz \<Longrightarrow> \<exists>d ii. foldR (neg_names_step vi from) [0..<k] (to, 0) = Inr (d, ii) \<and> neg_at vi k ii \<and>
    named (map (\<lambda>j. labels from ! j) (filter (\<lambda>j. j \<notin> set vi) [0..<k])) to d"
proof (induction k)
  case 0
  show ?case using assms(4,5) by (auto simp: neg_at_def named_def)
next
  case (Suc k)
  then obtain d ii where d: "foldR (neg_names_step vi from) [0..<k] (to, 0) = Inr (d, ii)" "neg_at vi k ii"
    "named (map (\<lambda>j. labels from ! j) (filter (\<lambda>j. j \<notin> set vi) [0..<k])) to d" by auto
  have ok: "k < dsz from" "dname_wf d" "map_ok d" using Suc.prems assms(3) d(3) by (auto simp: named_def)
  note st = neg_step [OF assms(1) d(2)]
  obtain e where e: "neg_names_step vi from k (d, ii) = Inr (e, if k \<in> set vi then Suc ii else ii)"
    "named (if k \<in> set vi then [] else [labels from ! k]) d e"
    using add_from_named [OF assms(2) ok] ok st(1) by (cases "k \<in> set vi") (auto simp: neg_names_step_def named_def)
  have "foldR (neg_names_step vi from) [0..<Suc k] (to, 0) = Inr (e, if k \<in> set vi then Suc ii else ii)"
    unfolding upt_Suc_append [OF le0] foldR_append d(1) bindR.simps foldR_single by (rule e(1))
  moreover have "named (map (\<lambda>j. labels from ! j) (filter (\<lambda>j. j \<notin> set vi) [0..<Suc k])) to e"
    using d(3) e(2) by (auto simp: named_def)
  ultimately show ?case using st(2) by blast
qed

text \<open>Selecting names through integer, negative or logical subscripts that are in range gives the labels at the selected
  positions; from a dimension without names it gives an unnamed dimension of the size of the selection.\<close>

theorem select_names_correct:
  assumes "hasNames from" "dname_wf to" "map_ok to" "labels to = []"
    and "\<forall>j\<in>set vi. j < dsz from" "sorted_wrt (<) vn" "length vb \<le> dsz from" "vsize (dnames anon) = 0"
  shows "(\<exists>d. selectNames (IntIndex vi vidx uidx) to from = Inr d \<and> labels d = map (\<lambda>j. labels from ! j) vi) \<and>
    (\<exists>d. selectNames (IntIndexNeg vn (dsz from)) to from = Inr d \<and>
       labels d = map (\<lambda>j. labels from ! j) (index_seq (IntIndexNeg vn (dsz from)))) \<and>
    (\<exists>d. selectNames (BoolIndex vb) to from = Inr d \<and>
       labels d = map (\<lambda>j. labels from ! j) (index_seq (BoolIndex vb))) \<and>
    selectNames (IntIndex vi vidx uidx) to anon = Inr (dname_of_size (length (index_seq (IntIndex vi vidx uidx)))) \<and>
    selectNames (BoolIndex vb) to anon = Inr (dname_of_size (length (index_seq (BoolIndex vb))))"
proof (intro conjI)
  have "\<exists>d. foldR (\<lambda>j to. if dsz from \<le> vi ! j then Inl (RangeError ''subscript out of bounds'') else add_from from (vi ! j) to)
      [0..<length vi] to = Inr d \<and> named (concat (map (\<lambda>j. [labels from ! (vi ! j)]) [0..<length vi])) to d"
  proof (rule foldR_named [OF _ assms(2,3)])
    fix j to assume "j \<in> set [0..<length vi]" "dname_wf to" "map_ok to"
    with add_from_named [OF assms(1), of "vi ! j" to] assms(5)
    show "\<exists>d. (if dsz from \<le> vi ! j then Inl (RangeError ''subscript out of bounds'') else add_from from (vi ! j) to) = Inr d
        \<and> named [labels from ! (vi ! j)] to d" by (auto simp: not_le)
  qed
  moreover have "concat (map (\<lambda>j. [labels from ! (vi ! j)]) [0..<length vi]) = map (\<lambda>j. labels from ! j) vi"
    by (auto intro!: nth_equalityI simp: concat_map_singleton)
  ultimately show "\<exists>d. selectNames (IntIndex vi vidx uidx) to from = Inr d \<and> labels d = map (\<lambda>j. labels from ! j) vi"
    using hasNames_size [OF assms(1)] assms(4) by (auto simp: named_def)
next
  from neg_names_loop [OF assms(6,1) order.refl assms(2,3), of "dsz from"]
  show "\<exists>d. selectNames (IntIndexNeg vn (dsz from)) to from = Inr d \<and>
       labels d = map (\<lambda>j. labels from ! j) (index_seq (IntIndexNeg vn (dsz from)))"
    using hasNames_size [OF assms(1)] assms(4) by (auto simp: named_def)
next
  let ?f = "\<lambda>j to. if vb ! j then (if dsz from \<le> j then Inl (RangeError ''subscript out of bounds'') else add_from from j to) else Inr to"
  have "\<exists>d. foldR ?f [0..<length vb] to = Inr d \<and> named (concat (map (\<lambda>j. if vb ! j then [labels from ! j] else []) [0..<length vb])) to d"
  proof (rule foldR_named [OF _ assms(2,3)])
    fix j to assume j: "j \<in> set [0..<length vb]" "dname_wf to" "map_ok to"
    then have "j < dsz from" using assms(7) by simp
    with j add_from_named [OF assms(1), of j to]
    show "\<exists>d. ?f j to = Inr d \<and> named (if vb ! j then [labels from ! j] else []) to d" by (auto simp: named_def)
  qed
  moreover have "concat (map (\<lambda>j. if vb ! j then [labels from ! j] else []) js) = map (\<lambda>j. labels from ! j) (filter (\<lambda>j. vb ! j) js)" for js
    by (induction js) auto
  ultimately show "\<exists>d. selectNames (BoolIndex vb) to from = Inr d \<and> labels d = map (\<lambda>j. labels from ! j) (index_seq (BoolIndex vb))"
    using hasNames_size [OF assms(1)] assms(4) by (auto simp: named_def)
next
  show "selectNames (IntIndex vi vidx uidx) to anon = Inr (dname_of_size (length (index_seq (IntIndex vi vidx uidx))))"
    using assms(8) by simp
  have "length (filter id vb) = length (filter (\<lambda>j. vb ! j) [0..<length vb])"
  proof -
    have "filter id vb = map (\<lambda>j. vb ! j) (filter (\<lambda>j. vb ! j) [0..<length vb])"
      using filter_map [of id "\<lambda>j. vb ! j" "[0..<length vb]"] by (simp add: map_nth o_def)
    then show ?thesis by simp
  qed
  then show "selectNames (BoolIndex vb) to anon = Inr (dname_of_size (length (index_seq (BoolIndex vb))))"
    using assms(8) by simp
qed

theorem select_names_correct_witness:
  "\<exists>d. selectNames (IntIndexNeg [1] 3) (dname_of_size 0) dname_example = Inr d \<and> labels d = [''a'', ''a'']"
proof -
  have u: "[0..<3] = [0, 1, 2::nat]" by (simp add: upt_rec)
  have "hasNames dname_example" "dname_wf (dname_of_size 0)" "map_ok (dname_of_size 0)" "labels (dname_of_size 0) = []"
    "\<forall>j\<in>set []. j < dsz dname_example" "sorted_wrt (<) [1::nat]" "length [True] \<le> dsz dname_example"
    "vsize (dnames (dname_of_size 0)) = 0"
    by (simp_all add: dname_example_def hasNames_def dname_of_size_def dname_wf_def map_ok_def labels_def entry_def empty_names_def)
  from select_names_correct [OF this, of "[]" "[]"] show ?thesis
    by (simp add: u dname_example_def labels_def del: selectNames.simps)
qed

end
