(* ===== verification/Array.thy ===== *)
theory Array
  imports Index_Ops
begin

text \<open>
  \<open>src/src/array.hpp\<close>, \<open>src/src/array.cpp\<close>: multidimensional arrays. The storage is one vector per column: the first
  dimension runs inside a column, the other dimensions number the columns. This theory has the array type, its
  constructors, addressing, selection and assignment by index, binding and appending, and the element-wise
  functions. Columns and names are held by value; a column that does not exist is undefined behaviour. The
  number of columns is the exact product of the extents (the source accumulates it in a double).
\<close>

section \<open>The array type\<close>

record 'a array =
  adim :: "nat list"
  cols :: "'a vec list"
  anames :: "dname list"

text \<open>Subscripts of the \<open>dim\<close> vector and of the \<open>std::vector\<close> of columns and names.\<close>

definition dim_at :: "nat list \<Rightarrow> nat \<Rightarrow> nat res" where
  "dim_at d i =
     (if i > size_sub (length d) 1 then Inl (OutOfRange ''subscript out of bounds'')
      else if i < length d then Inr (d ! i) else Inl UB)"

definition std_at :: "'b list \<Rightarrow> nat \<Rightarrow> 'b res" where
  "std_at xs i = (if i < length xs then Inr (xs ! i) else Inl UB)"

definition ncols_of :: "nat list \<Rightarrow> nat" where
  "ncols_of d = (if length d > 0 then prod_list (tl d) else 0)"

definition nrows :: "'a array \<Rightarrow> nat" where
  "nrows a = (if length (adim a) > 0 then adim a ! 0 else 0)"

definition ncols :: "'a array \<Rightarrow> nat" where
  "ncols a = length (cols a)"

definition asize :: "'a array \<Rightarrow> nat" where
  "asize a = size_mul (length (cols a)) (nrows a)"

section \<open>Names\<close>

definition buildNames :: "allocator \<Rightarrow> nat list \<Rightarrow> string vec list \<Rightarrow> dname list res" where
  "buildNames al d names_p =
     (if length names_p \<noteq> 0 \<and> length names_p \<noteq> length d
      then Inl (RangeError ''length of dimnames must match that of dims'')
      else foldR (\<lambda>j ns.
        if length names_p \<noteq> 0 \<and> vsize (names_p ! j) > 0 then
          (if vsize (names_p ! j) \<noteq> d ! j then Inl (RangeError ''length of 'dimnames' not equal to array extent'')
           else bindR (vec_copy (names_p ! j) al) (\<lambda>nv. bindR (mk_dname (d ! j) nv) (\<lambda>n. Inr (ns @ [n]))))
        else bindR (vec_fill (<) 3 0 '''' al) (\<lambda>nv. bindR (mk_dname (d ! j) nv) (\<lambda>n. Inr (ns @ [n])))) [0..<length d] [])"

definition hasNames_dim :: "'a array \<Rightarrow> nat \<Rightarrow> bool res" where
  "hasNames_dim a d =
     (if d \<ge> length (anames a) then Inl (OutOfRange ''name index out of bound'') else Inr (hasNames (anames a ! d)))"

section \<open>Constructors\<close>

text \<open>Sequences of integers: from \<open>t1\<close> to \<open>t2\<close>, and of a given length.\<close>

definition seq_to :: "allocator \<Rightarrow> nat \<Rightarrow> int \<Rightarrow> int \<Rightarrow> int \<Rightarrow> int array res" where
  "seq_to al tn t1 t2 by =
     (if by \<le> 0 then Inl (OutOfRange ''by parameter must be >= 0'')
      else
        let n = nat ((if t1 < t2 then t2 - t1 else t1 - t2) div by) + 1 in
        bindR (vec_noinit (\<lambda>_. 0) tn n al) (\<lambda>v0.
        bindR (if t2 < t1
               then foldR (\<lambda>i (v, val). bindR (setv_nocheck i val v) (\<lambda>v'. Inr (v', val - by))) [0..<n] (v0, t1)
               else foldR (\<lambda>i (v, val). bindR (setv_nocheck i val v) (\<lambda>v'. Inr (v', val + by))) [0..<n] (v0, t1))
          (\<lambda>(v, _). bindR (buildNames al [n] [])
             (\<lambda>ns. Inr \<lparr>adim = [n], cols = [setOrdered (n \<le> 1 \<or> t1 < t2) v], anames = ns\<rparr>))))"

definition seq_n :: "allocator \<Rightarrow> nat \<Rightarrow> int \<Rightarrow> int \<Rightarrow> nat \<Rightarrow> int array res" where
  "seq_n al tn t1 by n =
     bindR (vec_rsv tn n al) (\<lambda>v0.
     bindR (push_back (<) t1 v0) (\<lambda>v1.
     bindR (foldR (\<lambda>i v. bindR (vec_at v (i - 1)) (\<lambda>x. push_back (<) (x + by) v)) [1..<n] v1) (\<lambda>v.
     bindR (buildNames al [n] []) (\<lambda>ns. Inr \<lparr>adim = [n], cols = [v], anames = ns\<rparr>))))"

text \<open>\<open>Array(init, dim)\<close> with the tag \<open>rsv\<close>: the columns only have their capacity reserved.\<close>

definition array_rsv :: "allocator \<Rightarrow> nat \<Rightarrow> nat list \<Rightarrow> string vec list \<Rightarrow> 'a array res" where
  "array_rsv al tn d names_p =
     (if length d > 0 then
        bindR (foldR (\<lambda>n vs. bindR (vec_rsv tn (d ! 0) al) (\<lambda>v. Inr (vs @ [v]))) [0..<ncols_of d] []) (\<lambda>vs.
        bindR (buildNames al d names_p) (\<lambda>ns. Inr \<lparr>adim = d, cols = vs, anames = ns\<rparr>))
      else Inr \<lparr>adim = d, cols = [], anames = []\<rparr>)"

definition array_noinit :: "allocator \<Rightarrow> (nat \<Rightarrow> 'a) \<Rightarrow> nat \<Rightarrow> nat list \<Rightarrow> string vec list \<Rightarrow> 'a array res" where
  "array_noinit al junk tn d names_p =
     (if length d > 0 then
        bindR (foldR (\<lambda>n vs. bindR (vec_noinit junk tn (d ! 0) al) (\<lambda>v. Inr (vs @ [v]))) [0..<ncols_of d] []) (\<lambda>vs.
        bindR (buildNames al d names_p) (\<lambda>ns. Inr \<lparr>adim = d, cols = vs, anames = ns\<rparr>))
      else Inr \<lparr>adim = d, cols = [], anames = []\<rparr>)"

text \<open>The main constructor, from a vector of values.\<close>

definition filled_cols :: "allocator \<Rightarrow> ('a \<Rightarrow> 'a \<Rightarrow> bool) \<Rightarrow> nat \<Rightarrow> nat list \<Rightarrow> 'a \<Rightarrow> 'a vec list res" where
  "filled_cols al cmp tn d x =
     foldR (\<lambda>n vs. bindR (dim_at d 0) (\<lambda>d0. bindR (vec_fill cmp tn d0 x al) (\<lambda>v. Inr (vs @ [v])))) [0..<ncols_of d] []"

definition sliced_cols :: "allocator \<Rightarrow> ('a \<Rightarrow> 'a \<Rightarrow> bool) \<Rightarrow> nat \<Rightarrow> nat list \<Rightarrow> 'a list \<Rightarrow> 'a vec list res" where
  "sliced_cols al cmp tn d xs =
     bindR (dim_at d 0) (\<lambda>d0.
       if length xs \<noteq> size_mul (ncols_of d) d0 then Inl (RangeError ''data does not fit array dimensions'')
       else foldR (\<lambda>n vs. bindR (vec_of_list cmp tn (take d0 (drop (n * d0) xs)) al) (\<lambda>v. Inr (vs @ [v])))
              [0..<ncols_of d] [])"

definition mk_array :: "allocator \<Rightarrow> ('a \<Rightarrow> 'a \<Rightarrow> bool) \<Rightarrow> nat \<Rightarrow> 'a \<Rightarrow> nat list \<Rightarrow> 'a list \<Rightarrow> string vec list \<Rightarrow> 'a array res" where
  "mk_array al cmp tn init d xs names_p =
     bindR (if length xs = 0 then filled_cols al cmp tn d init
            else if length xs = 1 then filled_cols al cmp tn d (xs ! 0)
            else sliced_cols al cmp tn d xs)
       (\<lambda>vs. bindR (buildNames al d names_p) (\<lambda>ns. Inr \<lparr>adim = d, cols = vs, anames = ns\<rparr>))"

section \<open>Addressing\<close>

definition array_at :: "'a array \<Rightarrow> nat \<Rightarrow> 'a res" where
  "array_at a i =
     (if asize a = 0 then Inl (RangeError ''subscript out of bounds'')
      else
        let d0 = adim a ! 0; col = i div d0; off = i mod d0 in
        if col \<ge> length (cols a) \<or> off \<ge> d0 then Inl (RangeError ''subscript out of bounds'')
        else vec_at (cols a ! col) off)"

definition array_at_multi :: "'a array \<Rightarrow> nat list \<Rightarrow> 'a res" where
  "array_at_multi a i =
     (if length i \<noteq> length (adim a) then Inl (RangeError ''index dimension mismatch'')
      else bindR (std_at i 0) (\<lambda>i0. bindR (dim_at (adim a) 0) (\<lambda>d0.
        if i0 \<ge> d0 then Inl (RangeError ''subscript out of bounds'')
        else bindR (column_of i (adim a)) (\<lambda>col. bindR (std_at (cols a) col) (\<lambda>v. vec_at v i0)))))"

definition getcol :: "'a array \<Rightarrow> nat \<Rightarrow> 'a vec res" where
  "getcol a i = (if i \<ge> length (cols a) then Inl (OutOfRange ''getcol: column out of range'') else Inr (cols a ! i))"

definition getdim :: "'a array \<Rightarrow> nat \<Rightarrow> nat res" where
  "getdim a d = (if d \<ge> length (adim a) then Inl (OutOfRange ''getdim: dimension out of range'') else Inr (adim a ! d))"

definition getnames :: "'a array \<Rightarrow> nat \<Rightarrow> dname res" where
  "getnames a d = (if d \<ge> length (anames a) then Inl (OutOfRange ''getnames: dimension out of range'') else Inr (anames a ! d))"

definition isVector :: "'a array \<Rightarrow> bool" where
  "isVector a \<longleftrightarrow> ncols a = 1"

definition isScalar :: "'a array \<Rightarrow> bool" where
  "isScalar a \<longleftrightarrow> length (adim a) = 1 \<and> adim a ! 0 = 1"

definition isOrdered :: "'a array \<Rightarrow> bool" where
  "isOrdered a \<longleftrightarrow> list_all ordered (cols a)"

definition array_eq :: "'a array \<Rightarrow> 'a array \<Rightarrow> bool" where
  "array_eq a u \<longleftrightarrow> adim a = adim u \<and>
     list_all (\<lambda>j. dname_eq (anames a ! j) (anames u ! j)) [0..<length (anames u)] \<and>
     list_all (\<lambda>j. vec_eq (cols a ! j) (cols u ! j)) [0..<length (cols u)]"

text \<open>Writing one element by its position as a column vector.\<close>

definition setv_array :: "('a \<Rightarrow> 'a \<Rightarrow> bool) \<Rightarrow> nat \<Rightarrow> 'a \<Rightarrow> 'a array \<Rightarrow> 'a array res" where
  "setv_array cmp i t a =
     (if length (adim a) = 0 then Inl (RangeError ''subscript out of bounds'')
      else if adim a ! 0 = 0 then Inl UB
      else
        let col = i div (adim a ! 0); off = i mod (adim a ! 0) in
        if col \<ge> ncols a then Inl (RangeError ''subscript out of bounds'')
        else bindR (setv cmp off t (cols a ! col)) (\<lambda>v. Inr (a\<lparr>cols := (cols a)[col := v]\<rparr>)))"

section \<open>Selection and assignment\<close>

text \<open>Selection with one index that treats the array as a column vector.\<close>

definition select_as_vector :: "('a \<Rightarrow> 'a \<Rightarrow> bool) \<Rightarrow> nat \<Rightarrow> index \<Rightarrow> 'a array \<Rightarrow> 'a array res" where
  "select_as_vector cmp tn i a =
     bindR (vec_rsv tn 0 MemAlloc) (\<lambda>r0.
     bindR (foldR (\<lambda>k (rv, ii, iv, pos). bindR (subset_col cmp i rv (cols a ! k) ii iv pos)
              (\<lambda>(rv1, ii1, iv1). bindR (dim_at (adim a) 0) (\<lambda>d0. Inr (rv1, ii1, iv1, pos + d0))))
              [0..<length (cols a)] (r0, 0, 0, 0)) (\<lambda>(rv, _, _, _).
     bindR (dname_resize (vsize rv) 0 (dname_of_size 0)) (\<lambda>nm.
       Inr \<lparr>adim = [vsize rv], cols = [rv], anames = [nm]\<rparr>)))"

text \<open>The extents of the result: those of size 1 are dropped from position \<open>dropfirst\<close> on.\<close>

definition result_dim :: "index list \<Rightarrow> bool \<Rightarrow> nat \<Rightarrow> nat list" where
  "result_dim i dropping dropfirst =
     (let rdim = map index_size i in
      if dropping \<and> dropfirst < length rdim then
        let kept = take dropfirst rdim @ filter (\<lambda>n. n \<noteq> 1) (drop dropfirst rdim) in
        if length kept = 0 then [1] else kept
      else rdim)"

text \<open>The first loop: the elements at row \<open>uidx\<close> of the selected columns fill the result columns one after the other.\<close>

partial_function (option) select_row_loop ::
  "('a \<Rightarrow> 'a \<Rightarrow> bool) \<Rightarrow> index list \<Rightarrow> 'a array \<Rightarrow> nat \<Rightarrow> nat \<Rightarrow> (bool \<times> nat \<times> cursors) res \<Rightarrow> nat \<Rightarrow> 'a vec list \<Rightarrow> 'a vec list res option" where
  "select_row_loop cmp i a uidx rd0 m rcol rv =
     (case m of
        Inl e \<Rightarrow> Some (Inl e)
      | Inr bcp \<Rightarrow>
          if \<not> fst bcp then Some (Inr rv)
          else if fst (snd bcp) \<ge> length (cols a) then Some (Inl (RangeError ''subscript out of bounds''))
          else
            (case bindR (vec_at (cols a ! fst (snd bcp)) uidx) (\<lambda>x. bindR (std_at rv rcol) (\<lambda>r. push_back cmp x r)) of
               Inl e \<Rightarrow> Some (Inl e)
             | Inr r1 \<Rightarrow>
                 select_row_loop cmp i a uidx rd0 (getnextcol i (adim a) (fst (snd bcp)) (snd (snd bcp)))
                   (if vsize r1 = rd0 then rcol + 1 else rcol) (rv[rcol := r1])))"

text \<open>The second loop: each selected column is selected from by the first index.\<close>

partial_function (option) select_col_loop ::
  "('a \<Rightarrow> 'a \<Rightarrow> bool) \<Rightarrow> index list \<Rightarrow> 'a array \<Rightarrow> (bool \<times> nat \<times> cursors) res \<Rightarrow> nat \<Rightarrow> 'a vec list \<Rightarrow> 'a vec list res option" where
  "select_col_loop cmp i a m rcol rv =
     (case m of
        Inl e \<Rightarrow> Some (Inl e)
      | Inr bcp \<Rightarrow>
          if \<not> fst bcp then Some (Inr rv)
          else
            (case bindR (std_at rv rcol) (\<lambda>r. bindR (std_at (cols a) (fst (snd bcp))) (\<lambda>v. Inr (r, v))) of
               Inl e \<Rightarrow> Some (Inl e)
             | Inr rp \<Rightarrow>
                 (case subset cmp (i ! 0) (fst rp) (snd rp) of
                    None \<Rightarrow> None
                  | Some (Inl e) \<Rightarrow> Some (Inl e)
                  | Some (Inr r1) \<Rightarrow>
                      select_col_loop cmp i a (getnextcol i (adim a) (fst (snd bcp)) (snd (snd bcp))) (rcol + 1) (rv[rcol := r1]))))"

text \<open>The cursor of the first dimension is not initialised before \<open>getfirst\<close>, which the time indices read.\<close>

definition first_uninit :: "index \<Rightarrow> (bool \<times> cursor) res" where
  "first_uninit i = (case i of DtimeIndex _ _ \<Rightarrow> Inl UB | IntervalIndex _ _ \<Rightarrow> Inl UB | _ \<Rightarrow> getfirst i (0, 0))"

definition result_names :: "index list \<Rightarrow> bool \<Rightarrow> nat \<Rightarrow> nat list \<Rightarrow> nat list \<Rightarrow> 'a array \<Rightarrow> dname list res" where
  "result_names i dropping dropfirst undropped rdim a =
     foldR (\<lambda>j rnames.
       let scalarResult = (length rdim = 1 \<and> rdim ! 0 = 1);
           cond1 = (j = 0 \<and> dropping \<and> dropfirst = 0 \<and> undropped ! 0 = 1 \<and> \<not> scalarResult);
           cond2 = (j > 0 \<and> dropping \<and> dropfirst \<le> j \<and> undropped ! j = 1)
       in if \<not> cond1 \<and> \<not> cond2 then
            bindR (std_at (anames a) j) (\<lambda>nm.
            bindR (if vsize (dnames nm) > 0 then selectNames (i ! j) (dname_of_size 0) nm
                   else bindR (dim_at rdim (length rnames)) (\<lambda>n. Inr (dname_of_size n)))
              (\<lambda>n. Inr (rnames @ [n])))
          else Inr rnames) [0..<length undropped] []"

definition select_array :: "('a \<Rightarrow> 'a \<Rightarrow> bool) \<Rightarrow> nat \<Rightarrow> index list \<Rightarrow> bool \<Rightarrow> nat \<Rightarrow> 'a array \<Rightarrow> 'a array res option" where
  "select_array cmp tn i dropping dropfirst a =
     (if length i = 1 \<and> length (adim a) > 1 then Some (select_as_vector cmp tn (i ! 0) a)
      else if length i \<noteq> length (adim a) then Some (Inl (RangeError ''incorrect number of dimensions''))
      else
        let undropped = map index_size i;
            rdim = result_dim i dropping dropfirst;
            rncols = (if length rdim = 1 then 1 else ncols_of rdim);
            start = (replicate (length (adim a)) 0, replicate (length (adim a)) 0);
            rv0 = replicate rncols \<lparr>typenumber = tn, elems = [], ordered = True, capacity = growCapacity 0, alloc = MemAlloc\<rparr>;
            finish = (\<lambda>rd rv. bindR (result_names i dropping dropfirst undropped rd a)
                                (\<lambda>ns. Inr \<lparr>adim = rd, cols = rv, anames = ns\<rparr>))
        in if dropping \<and> dropfirst = 0 \<and> length undropped > 0 \<and> undropped ! 0 = 1 then
             (case first_uninit (i ! 0) of
                Inl e \<Rightarrow> Some (Inl e)
              | Inr bc \<Rightarrow>
                  if \<not> fst bc then Some (Inl (RangeError ''failed getfirst on dim[0] = 1''))
                  else if fst (snd bc) \<ge> adim a ! 0 then Some (Inl (RangeError ''subscript out of bounds''))
                  else map_option (\<lambda>m. bindR m (finish rdim))
                         (select_row_loop cmp i a (fst (snd bc)) (rdim ! 0) (getfirstcol i (adim a) start) 0 rv0))
           else
             map_option (\<lambda>m. bindR m (\<lambda>rv.
               if length rv > 0 \<and> vsize (rv ! 0) \<noteq> rdim ! 0 then
                 (if dropping \<and> dropfirst = 0 \<and> vsize (rv ! 0) = 1 \<and> length rv \<noteq> 1
                  then Inl (RangeError ''resize first dim to 1 not implemented'')
                  else finish (rdim[0 := vsize (rv ! 0)]) rv)
               else finish rdim rv))
               (select_col_loop cmp i a (getfirstcol i (adim a) start) 0 rv0))"

partial_function (option) assign_col_loop ::
  "('a \<Rightarrow> 'a \<Rightarrow> bool) \<Rightarrow> ('u \<Rightarrow> 'a) \<Rightarrow> index list \<Rightarrow> (nat \<Rightarrow> 'u res) \<Rightarrow> (bool \<times> nat \<times> cursors) res \<Rightarrow> nat \<Rightarrow> 'a array \<Rightarrow> 'a array res option" where
  "assign_col_loop cmp conv i u m uj a =
     (case m of
        Inl e \<Rightarrow> Some (Inl e)
      | Inr bcp \<Rightarrow>
          if \<not> fst bcp then Some (Inr a)
          else if fst (snd bcp) \<ge> length (cols a) then Some (Inl (RangeError ''subscript out of bounds''))
          else
            (case subassign cmp conv (i ! 0) u uj (cols a ! fst (snd bcp)) of
               None \<Rightarrow> None
             | Some (Inl e) \<Rightarrow> Some (Inl e)
             | Some (Inr vj) \<Rightarrow>
                 assign_col_loop cmp conv i u (getnextcol i (adim a) (fst (snd bcp)) (snd (snd bcp))) (snd vj)
                   (a\<lparr>cols := (cols a)[fst (snd bcp) := fst vj]\<rparr>)))"

definition assign_array :: "('a \<Rightarrow> 'a \<Rightarrow> bool) \<Rightarrow> ('u \<Rightarrow> 'a) \<Rightarrow> index list \<Rightarrow> 'u array \<Rightarrow> 'a array \<Rightarrow> 'a array res option" where
  "assign_array cmp conv i u a =
     (if length i \<noteq> length (adim a) then Some (Inl (RangeError ''incorrect number of dimensions''))
      else if i = [] then Some (Inl UB)
      else if fold (\<lambda>d n. size_mul n (trueSize (i ! d))) [1..<length i] (trueSize (i ! 0)) \<noteq> asize u
      then Some (Inl (RangeError ''number of items to replace is not equal to the replacement length''))
      else assign_col_loop cmp conv i (array_at u)
             (getfirstcol i (adim a) (replicate (length (adim a)) 0, replicate (length (adim a)) 0)) 0 a)"

partial_function (option) assign_scalar_loop ::
  "('a \<Rightarrow> 'a \<Rightarrow> bool) \<Rightarrow> ('u \<Rightarrow> 'a) \<Rightarrow> index list \<Rightarrow> 'u \<Rightarrow> (bool \<times> nat \<times> cursors) res \<Rightarrow> 'a array \<Rightarrow> 'a array res option" where
  "assign_scalar_loop cmp conv i u m a =
     (case m of
        Inl e \<Rightarrow> Some (Inl e)
      | Inr bcp \<Rightarrow>
          if \<not> fst bcp then Some (Inr a)
          else if fst (snd bcp) \<ge> length (cols a) then Some (Inl (RangeError ''subscript out of bounds''))
          else
            (case subassignScalar cmp conv (i ! 0) u (cols a ! fst (snd bcp)) of
               None \<Rightarrow> None
             | Some (Inl e) \<Rightarrow> Some (Inl e)
             | Some (Inr v) \<Rightarrow>
                 assign_scalar_loop cmp conv i u (getnextcol i (adim a) (fst (snd bcp)) (snd (snd bcp)))
                   (a\<lparr>cols := (cols a)[fst (snd bcp) := v]\<rparr>)))"

definition assign_scalar :: "('a \<Rightarrow> 'a \<Rightarrow> bool) \<Rightarrow> ('u \<Rightarrow> 'a) \<Rightarrow> index list \<Rightarrow> 'u \<Rightarrow> 'a array \<Rightarrow> 'a array res option" where
  "assign_scalar cmp conv i u a =
     (if length i \<noteq> length (adim a) then Some (Inl (RangeError ''incorrect number of dimensions''))
      else assign_scalar_loop cmp conv i u
             (getfirstcol i (adim a) (replicate (length (adim a)) 0, replicate (length (adim a)) 0)) a)"

section \<open>The array invariant\<close>

text \<open>One column per combination of the other dimensions, all of the length of the first one, in memory and with a
  sound flag; one table of names per dimension, of its extent. The element count is a machine size.\<close>

definition col_wf :: "('a \<Rightarrow> 'a \<Rightarrow> bool) \<Rightarrow> nat \<Rightarrow> 'a vec \<Rightarrow> bool" where
  "col_wf cmp n v \<longleftrightarrow> vsize v = n \<and> alloc v \<noteq> NullAlloc \<and> vec_inv cmp v"

definition names_wf :: "nat list \<Rightarrow> dname list \<Rightarrow> bool" where
  "names_wf d ns \<longleftrightarrow> list_all2 (\<lambda>n e. dname_wf e \<and> map_ok e \<and> dsz e = n) d ns"

definition array_wf :: "('a \<Rightarrow> 'a \<Rightarrow> bool) \<Rightarrow> 'a array \<Rightarrow> bool" where
  "array_wf cmp a \<longleftrightarrow> length (cols a) = ncols_of (adim a) \<and> list_all (col_wf cmp (nrows a)) (cols a) \<and>
     names_wf (adim a) (anames a) \<and> ncols_of (adim a) * nrows a \<le> SIZE_MAX"

text \<open>The elements in column order.\<close>

definition content :: "'a array \<Rightarrow> 'a list" where
  "content a = concat (map elems (cols a))"

lemma array_wfD:
  assumes "array_wf cmp a"
  shows "length (cols a) = ncols_of (adim a)" "k < length (cols a) \<Longrightarrow> col_wf cmp (nrows a) (cols a ! k)"
    "length (anames a) = length (adim a)" "asize a = length (cols a) * nrows a"
    "j < length (adim a) \<Longrightarrow> dname_wf (anames a ! j) \<and> map_ok (anames a ! j) \<and> dsz (anames a ! j) = adim a ! j"
  using assms by (auto simp: array_wf_def names_wf_def asize_def list_all_length list_all2_conv_all_nth)

lemma col_wf_size: "col_wf cmp n v \<Longrightarrow> vsize v = n"
  by (simp add: col_wf_def)

lemma concat_nth_uniform:
  assumes "list_all (\<lambda>x. length x = n) xss" "k < length xss" "j < n"
  shows "concat xss ! (k * n + j) = xss ! k ! j"
  using assms
proof (induction xss arbitrary: k)
  case (Cons x xss)
  then show ?case by (cases k) (auto simp: nth_append)
qed simp

lemma concat_length_uniform: "list_all (\<lambda>x. length x = n) xss \<Longrightarrow> length (concat xss) = length xss * n"
  by (induction xss) auto

lemma array_content_cols:
  assumes "array_wf cmp a"
  shows "list_all (\<lambda>x. length x = nrows a) (map elems (cols a))"
  using assms by (auto simp: array_wf_def col_wf_size list_all_length)

lemma content_length: "array_wf cmp a \<Longrightarrow> length (content a) = asize a"
  using concat_length_uniform [OF array_content_cols] array_wfD(4) by (fastforce simp: content_def)

lemma content_nth:
  "array_wf cmp a \<Longrightarrow> k < length (cols a) \<Longrightarrow> j < nrows a \<Longrightarrow> content a ! (k * nrows a + j) = elems (cols a ! k) ! j"
  using concat_nth_uniform [OF array_content_cols] by (fastforce simp: content_def)

text \<open>Addressing as a column vector reads the content and is checked.\<close>

lemma nrows_pos: "0 < nrows a \<Longrightarrow> adim a \<noteq> [] \<and> adim a ! 0 = nrows a"
  by (auto simp: nrows_def split: if_splits)

lemma array_at_content:
  assumes "array_wf cmp a"
  shows "array_at a i = (if i < asize a then Inr (content a ! i) else Inl (RangeError ''subscript out of bounds''))"
proof (cases "asize a = 0")
  case True
  then show ?thesis by (simp add: array_at_def)
next
  case False
  then have n: "0 < nrows a" using array_wfD(4) [OF assms] by (cases "nrows a") simp_all
  have lt: "i div nrows a < length (cols a) \<longleftrightarrow> i < asize a"
    using n by (simp add: array_wfD(4) [OF assms] less_mult_imp_div_less div_less_iff_less_mult)
  have "i < asize a \<Longrightarrow> vec_at (cols a ! (i div nrows a)) (i mod nrows a) = Inr (content a ! i)"
    using lt n content_nth [OF assms, of "i div nrows a" "i mod nrows a"] array_wfD(2) [OF assms, of "i div nrows a"] by (simp add: col_wf_size)
  moreover have "i mod nrows a < nrows a" using n by simp
  ultimately show ?thesis using False lt nrows_pos [OF n]
    by (cases "i < asize a") (auto simp: array_at_def Let_def)
qed

section \<open>Subscripts by dimension\<close>

text \<open>The position of a tuple of subscripts in a mixed-radix numbering with the first dimension the fastest.\<close>

fun linear :: "nat list \<Rightarrow> nat list \<Rightarrow> nat" where
  "linear (i # ix) (d # ds) = i + d * linear ix ds"
| "linear _ _ = 0"

definition in_extent :: "nat list \<Rightarrow> nat list \<Rightarrow> bool" where
  "in_extent ix ds \<longleftrightarrow> list_all2 (<) ix ds"

lemma linear_bound: "in_extent ix ds \<Longrightarrow> linear ix ds < prod_list ds"
  unfolding in_extent_def
proof (induction rule: list_all2_induct)
  case (Cons i ix d ds)
  then have "i + d * linear ix ds < d + d * linear ix ds" by simp
  also have "\<dots> = d * Suc (linear ix ds)" by simp
  also have "\<dots> \<le> d * prod_list ds" using Cons.IH by (intro mult_le_mono2) simp
  finally show ?case by simp
qed simp

lemma linear_inj:
  "in_extent ix ds \<Longrightarrow> in_extent js ds \<Longrightarrow> linear ix ds = linear js ds \<Longrightarrow> ix = js"
  unfolding in_extent_def
proof (induction ix ds arbitrary: js rule: list_all2_induct)
  case (Cons i ix d ds)
  then obtain j js' where js: "js = j # js'" "j < d" "list_all2 (<) js' ds" by (auto simp: list_all2_Cons2)
  from Cons.prems(2) js(1) have eq: "i + d * linear ix ds = j + d * linear js' ds" by simp
  have "i = j" using arg_cong [OF eq, of "\<lambda>x. x mod d"] Cons.hyps(1) js(2) by simp
  moreover have "linear ix ds = linear js' ds" using eq \<open>i = j\<close> Cons.hyps(1) by simp
  ultimately show ?case using Cons.IH [OF js(3)] js(1) by simp
qed simp

lemma column_loop_ok:
  assumes "list_all2 (<) (drop k ix) (drop k ds)" "length ix = length ds" "k \<le> length ds"
  shows "\<exists>mul'. foldR (\<lambda>k (col, mul). if ix ! k \<ge> ds ! k then Inl (RangeError ''subscript out of bounds'')
      else Inr (col + ix ! k * mul, mul * ds ! k)) [k..<length ds] (col, mul) = Inr (col + mul * linear (drop k ix) (drop k ds), mul')"
  using assms
proof (induction "length ds - k" arbitrary: k col mul)
  case 0
  then show ?case by simp
next
  case (Suc n)
  then have k: "k < length ds" by simp
  have d: "drop k ix = ix ! k # drop (Suc k) ix" "drop k ds = ds ! k # drop (Suc k) ds"
    using k Suc.prems(2) by (simp_all add: Cons_nth_drop_Suc)
  from Suc.prems(1) d have lt: "ix ! k < ds ! k" "list_all2 (<) (drop (Suc k) ix) (drop (Suc k) ds)" by auto
  from Suc.hyps(1) [of "Suc k" "col + ix ! k * mul" "mul * ds ! k"] Suc.hyps(2) Suc.prems(2) k lt
  show ?case by (auto simp: upt_conv_Cons d algebra_simps)
qed

lemma column_loop_error:
  assumes "k \<le> j" "j < length ds" "ix ! j \<ge> ds ! j"
  shows "foldR (\<lambda>k (col, mul). if ix ! k \<ge> ds ! k then Inl (RangeError ''subscript out of bounds'')
      else Inr (col + ix ! k * mul, mul * ds ! k)) [k..<length ds] (col, mul) = Inl (RangeError ''subscript out of bounds'')"
  using assms
proof (induction "j - k" arbitrary: k col mul)
  case 0
  then show ?case by (simp add: upt_conv_Cons)
next
  case (Suc n)
  from Suc.hyps(1) [of "Suc k"] Suc.hyps(2) Suc.prems show ?case by (simp add: upt_conv_Cons)
qed

lemma column_of_eq:
  assumes "length ix = length ds" "ds \<noteq> []"
  shows "column_of ix ds = (if in_extent (tl ix) (tl ds) then Inr (linear (tl ix) (tl ds)) else Inl (RangeError ''subscript out of bounds''))"
proof (cases "in_extent (tl ix) (tl ds)")
  case True
  with column_loop_ok [of 1 ix ds 0 1] assms show ?thesis
    by (cases ds) (auto simp: column_of_def in_extent_def drop_Suc)
next
  case False
  with assms obtain j where "j < length (tl ds)" "\<not> tl ix ! j < tl ds ! j"
    by (auto simp: in_extent_def list_all2_conv_all_nth)
  with assms have "1 \<le> Suc j" "Suc j < length ds" "ix ! Suc j \<ge> ds ! Suc j"
    by (auto simp: nth_tl)
  from column_loop_error [OF this] False show ?thesis by (simp add: column_of_def)
qed

lemma linear_head: "0 < d \<Longrightarrow> i < d \<Longrightarrow> linear (i # ix) (d # ds) div d = linear ix ds \<and> linear (i # ix) (d # ds) mod d = i"
  by simp

section \<open>Building an array\<close>

lemma foldR_snoc_plain [simp]: "foldR (\<lambda>n vs. Inr (vs @ [g n])) ns vs0 = Inr (vs0 @ map g ns)"
  by (induction ns arbitrary: vs0) auto

lemma dim_at_0 [simp]: "d \<noteq> [] \<Longrightarrow> dim_at d 0 = Inr (d ! 0)"
  by (simp add: dim_at_def)

text \<open>The columns of a fill and of a slice.\<close>

lemma filled_cols_ok:
  fixes x :: "'a::linorder"
  assumes "d \<noteq> []" "al \<noteq> NullAlloc"
  shows "\<exists>vs. filled_cols al (<) tn d x = Inr vs \<and> length vs = ncols_of d \<and> list_all (col_wf (<) (d ! 0)) vs \<and>
    (\<forall>k<ncols_of d. elems (vs ! k) = replicate (d ! 0) x)"
proof -
  let ?v = "\<lparr>typenumber = tn, elems = replicate (d ! 0) x, ordered = (if d ! 0 > 1 then x < x else True),
                capacity = growCapacity (d ! 0), alloc = al\<rparr>"
  have v: "vec_fill (<) tn (d ! 0) x al = Inr ?v" using assms by (simp add: vec_fill_def)
  have "filled_cols al (<) tn d x = Inr ([] @ map (\<lambda>_. ?v) [0..<ncols_of d])"
    unfolding filled_cols_def using assms by (simp add: v)
  moreover have "col_wf (<) (d ! 0) ?v" using less_cmp.inv_vec_fill [OF v] assms(2) by (simp add: col_wf_def)
  ultimately show ?thesis by (simp add: list_all_length)
qed

lemma slice_length: "n < m \<Longrightarrow> length xs = m * k \<Longrightarrow> length (take k (drop (n * k) xs)) = (k :: nat)"
proof -
  assume "n < m" "length xs = m * k"
  then have "n * k + k \<le> length xs" using mult_le_mono1 [of "Suc n" m k] by simp
  then show ?thesis by simp
qed

lemma concat_slices:
  assumes "length xs = m * k"
  shows "concat (map (\<lambda>n. take k (drop (n * k) xs)) [0..<m]) = xs"
  using assms
proof (induction m arbitrary: xs)
  case (Suc m)
  have "take k (drop (n * k) xs) = take k (drop (n * k) (take (m * k) xs))" if "n < m" for n
  proof -
    have "Suc n * k \<le> m * k" using that by (intro mult_le_mono1) simp
    then have "k \<le> m * k - n * k" by simp
    then show ?thesis by (simp only: drop_take take_take min_absorb1)
  qed
  then have "concat (map (\<lambda>n. take k (drop (n * k) xs)) [0..<m]) =
      concat (map (\<lambda>n. take k (drop (n * k) (take (m * k) xs))) [0..<m])"
    by (intro arg_cong [of _ _ concat] map_cong) auto
  also have "\<dots> = take (m * k) xs" using Suc.prems by (intro Suc.IH) simp
  finally show ?case using Suc.prems by simp
qed simp

lemma sliced_cols_ok:
  fixes xs :: "'a::linorder list"
  assumes "d \<noteq> []" "length xs = ncols_of d * d ! 0" "length xs \<le> SIZE_MAX" "al \<noteq> NullAlloc"
  shows "\<exists>vs. sliced_cols al (<) tn d xs = Inr vs \<and> length vs = ncols_of d \<and> list_all (col_wf (<) (d ! 0)) vs \<and>
    concat (map elems vs) = xs"
proof -
  define mk where "mk n = \<lparr>typenumber = tn, elems = take (d ! 0) (drop (n * d ! 0) xs),
      ordered = (case take (d ! 0) (drop (n * d ! 0) xs) of [] \<Rightarrow> True | y # ys \<Rightarrow> scan_ordered (<) y ys True),
      capacity = growCapacity (length (take (d ! 0) (drop (n * d ! 0) xs))), alloc = al\<rparr>" for n
  have v: "vec_of_list (<) tn (take (d ! 0) (drop (n * d ! 0) xs)) al = Inr (mk n)" for n
    using assms by (simp add: vec_of_list_def mk_def)
  have "sliced_cols al (<) tn d xs = Inr ([] @ map mk [0..<ncols_of d])"
    unfolding sliced_cols_def using assms by (simp add: v)
  moreover have "col_wf (<) (d ! 0) (mk n)" if "n < ncols_of d" for n
    using less_cmp.inv_vec_of_list [OF v [of n]] slice_length [OF that assms(2)] assms(4) by (simp add: col_wf_def mk_def)
  moreover have "concat (map elems (map mk [0..<ncols_of d])) = xs"
    using concat_slices [OF assms(2)] by (simp add: mk_def o_def)
  ultimately show ?thesis by (simp add: list_all_length)
qed

text \<open>A dimension without names, as the constructors make it.\<close>

definition unnamed :: "allocator \<Rightarrow> nat \<Rightarrow> dname" where
  "unnamed al n = \<lparr>dsz = n, dnames = \<lparr>typenumber = 3, elems = [], ordered = True, capacity = growCapacity 0, alloc = al\<rparr>, namesMap = []\<rparr>"

lemma mk_unnamed: "al \<noteq> NullAlloc \<Longrightarrow> bindR (vec_fill (<) 3 0 '''' al) (\<lambda>nv. bindR (mk_dname n nv) f) = f (unnamed al n)"
  by (simp add: vec_fill_def mk_dname_def unnamed_def putNamesInMap_def)

lemma buildNames_none:
  assumes "al \<noteq> NullAlloc"
  shows "buildNames al d [] = Inr (map (unnamed al) d)"
proof -
  have "buildNames al d [] = Inr (map (\<lambda>j. unnamed al (d ! j)) [0..<length d])"
    by (simp add: buildNames_def mk_unnamed [OF assms])
  also have "map (\<lambda>j. unnamed al (d ! j)) [0..<length d] = map (unnamed al) d" by (rule nth_equalityI) simp_all
  finally show ?thesis .
qed

lemma unnamed_wf: "al \<noteq> NullAlloc \<Longrightarrow> dname_wf (unnamed al n) \<and> map_ok (unnamed al n) \<and> dsz (unnamed al n) = n"
  by (simp add: dname_wf_def map_ok_def unnamed_def entry_def)

lemma names_wf_sizes: "al \<noteq> NullAlloc \<Longrightarrow> names_wf d (map (unnamed al) d)"
  by (simp add: names_wf_def list_all2_conv_all_nth unnamed_wf)

lemma mk_array_columns:
  fixes xs :: "'a::linorder list"
  assumes "d \<noteq> []" "length xs \<le> 1 \<or> length xs = prod_list d" "prod_list d \<le> SIZE_MAX" "al \<noteq> NullAlloc"
  shows "\<exists>vs. mk_array al (<) tn x0 d xs [] = Inr \<lparr>adim = d, cols = vs, anames = map (unnamed al) d\<rparr> \<and> length vs = ncols_of d \<and>
    list_all (col_wf (<) (d ! 0)) vs \<and>
    concat (map elems vs) = (if xs = [] then replicate (prod_list d) x0 else if length xs = 1 then replicate (prod_list d) (xs ! 0) else xs)"
proof -
  have size: "prod_list d = ncols_of d * d ! 0" using assms(1) by (cases d) (simp_all add: ncols_of_def)
  have rep: "concat (map elems vs) = replicate (m * n) y" if "length vs = m" "\<forall>k<m. elems (vs ! k) = replicate n y"
    for vs :: "'a vec list" and m n y
  proof -
    from that have "map elems vs = replicate m (replicate n y)" by (intro nth_equalityI) simp_all
    moreover have "concat (replicate m (replicate n y)) = replicate (m * n) y"
      by (induction m) (simp_all add: replicate_add)
    ultimately show ?thesis by simp
  qed
  show ?thesis
  proof (cases "length xs \<le> 1")
    case True
    then obtain y where y: "mk_array al (<) tn x0 d xs [] = bindR (filled_cols al (<) tn d y)
        (\<lambda>vs. Inr \<lparr>adim = d, cols = vs, anames = map (unnamed al) d\<rparr>)" "y = (if xs = [] then x0 else xs ! 0)"
      by (cases xs) (auto simp: mk_array_def buildNames_none [OF assms(4)])
    from filled_cols_ok [OF assms(1,4), of tn y] obtain vs where vs: "filled_cols al (<) tn d y = Inr vs" "length vs = ncols_of d"
      "list_all (col_wf (<) (d ! 0)) vs" "\<forall>k<ncols_of d. elems (vs ! k) = replicate (d ! 0) y" by blast
    have "xs = [] \<or> length xs = 1" using True by (cases xs) auto
    then show ?thesis using vs(1-3) rep [OF vs(2,4)] y size by auto
  next
    case False
    with assms have len: "length xs = ncols_of d * d ! 0" "length xs \<le> SIZE_MAX" using size by auto
    from sliced_cols_ok [OF assms(1) len assms(4), of tn] False show ?thesis by (auto simp: mk_array_def buildNames_none [OF assms(4)])
  qed
qed

lemma array_at_multi_eq:
  assumes "array_wf cmp a" "length ix = length (adim a)" "adim a \<noteq> []"
  shows "array_at_multi a ix = (if in_extent ix (adim a) then array_at a (linear ix (adim a)) else Inl (RangeError ''subscript out of bounds''))"
proof -
  obtain i0 it d0 dt where eq: "ix = i0 # it" "adim a = d0 # dt" using assms(2,3) by (cases ix; cases "adim a") auto
  have rows: "nrows a = d0" using eq(2) by (simp add: nrows_def)
  have lin: "linear ix (adim a) = linear it dt * d0 + i0" by (simp add: eq)
  have read: "array_at_multi a ix = array_at a (linear ix (adim a))" if ext: "i0 < d0" "in_extent it dt"
  proof -
    have k: "linear it dt < length (cols a)"
      using linear_bound [OF ext(2)] array_wfD(1) [OF assms(1)] eq(2) by (simp add: ncols_of_def)
    have "linear it dt * d0 + i0 < asize a"
      using mult_le_mono1 [of "Suc (linear it dt)" "length (cols a)" d0] k ext(1) rows array_wfD(4) [OF assms(1)] by simp
    moreover have "content a ! (linear it dt * d0 + i0) = elems (cols a ! linear it dt) ! i0"
      using content_nth [OF assms(1) k] ext(1) rows by simp
    moreover have "vsize (cols a ! linear it dt) = d0" using array_wfD(2) [OF assms(1) k] rows by (simp add: col_wf_size)
    ultimately have "array_at a (linear ix (adim a)) = Inr (elems (cols a ! linear it dt) ! i0)" "vsize (cols a ! linear it dt) = d0"
      unfolding lin by (simp_all add: array_at_content [OF assms(1)])
    moreover have "column_of ix (adim a) = Inr (linear it dt)" using column_of_eq [OF assms(2,3)] ext(2) eq by simp
    ultimately show ?thesis using ext(1) k assms(2) eq(2) by (simp add: array_at_multi_def std_at_def dim_at_def eq(1))
  qed
  have "in_extent ix (adim a) \<longleftrightarrow> i0 < d0 \<and> in_extent it dt" by (simp add: eq in_extent_def)
  with read assms(2) column_of_eq [OF assms(2,3)] eq
  show ?thesis
    by (auto simp: array_at_multi_def std_at_def dim_at_def)
qed

section \<open>Properties\<close>



text \<open>C19. Reading an element by one subscript per dimension agrees with reading it by position: on an array that
  satisfies its invariant, a tuple of subscripts inside the extents reads the element at its mixed-radix position
  (first dimension fastest), different tuples have different positions, and a tuple that is outside in some
  dimension is refused with a range error, never read.\<close>

theorem array_multi_index_equiv:
  assumes "array_wf cmp a" "length ix = length (adim a)" "adim a \<noteq> []"
  shows "array_at_multi a ix = (if in_extent ix (adim a) then array_at a (linear ix (adim a)) else Inl (RangeError ''subscript out of bounds'')) \<and>
    (in_extent ix (adim a) \<and> in_extent jx (adim a) \<and> linear ix (adim a) = linear jx (adim a) \<longrightarrow> ix = jx)"
  using array_at_multi_eq [OF assms] linear_inj by blast

definition array_example :: "int array" where
  "array_example =
     \<lparr>adim = [2, 2],
      cols = [\<lparr>typenumber = 0, elems = [5, 3], ordered = False, capacity = 1024, alloc = MemAlloc\<rparr>,
              \<lparr>typenumber = 0, elems = [4, 9], ordered = True, capacity = 1024, alloc = MemAlloc\<rparr>],
      anames = [unnamed MemAlloc 2, unnamed MemAlloc 2]\<rparr>"

lemma array_example_wf: "array_wf (<) array_example"
  by (simp add: array_wf_def array_example_def ncols_of_def nrows_def col_wf_def vec_inv_def less_cmp.nondecr_def names_wf_def
      unnamed_wf SIZE_MAX_def)

theorem array_multi_index_equiv_witness:
  "array_at_multi array_example [0, 1] = Inr 4 \<and> array_at_multi array_example [2, 0] = Inl (RangeError ''subscript out of bounds'')"
proof -
  have d: "adim array_example = [2, 2]" by (simp add: array_example_def)
  have "array_at array_example 2 = Inr 4"
    by (simp add: array_example_def array_at_def asize_def nrows_def size_mul_def)
  with array_multi_index_equiv [OF array_example_wf, of "[0, 1]"] array_multi_index_equiv [OF array_example_wf, of "[2, 0]"]
  show ?thesis by (simp add: d in_extent_def numeral_2_eq_2)
qed

lemma fill_loop:
  assumes "vsize v = n" "k \<le> n"
  shows "foldR (\<lambda>i (v, val). bindR (setv_nocheck i val v) (\<lambda>v'. Inr (v', val + step))) [0..<k] (v, t) =
    Inr (v\<lparr>elems := map (\<lambda>i. t + int i * step) [0..<k] @ drop k (elems v)\<rparr>, t + int k * step)"
  using assms(2)
proof (induction k)
  case (Suc k)
  then have k: "k < vsize v" using assms(1) by simp
  have "(map (\<lambda>i. t + int i * step) [0..<k] @ drop k (elems v))[k := t + int k * step] =
      map (\<lambda>i. t + int i * step) [0..<Suc k] @ drop (Suc k) (elems v)"
    using k by (simp add: list_update_append upd_conv_take_nth_drop Cons_nth_drop_Suc [symmetric])
  with Suc k show ?case by (simp add: foldR_append setv_nocheck_def algebra_simps)
qed simp

lemma fill_loop_down:
  assumes "vsize v = n"
  shows "foldR (\<lambda>i (v, val). bindR (setv_nocheck i val v) (\<lambda>v'. Inr (v', val - step))) [0..<n] (v, t) =
    Inr (v\<lparr>elems := map (\<lambda>i. t - int i * step) [0..<n]\<rparr>, t - int n * step)"
  using fill_loop [OF assms, of n "- step" t] assms by simp

definition seq_steps :: "int \<Rightarrow> int \<Rightarrow> int \<Rightarrow> nat" where
  "seq_steps t1 t2 by = nat (\<bar>t2 - t1\<bar> div by) + 1"

definition seq_elem :: "int \<Rightarrow> int \<Rightarrow> int \<Rightarrow> nat \<Rightarrow> int" where
  "seq_elem t1 t2 by k = (if t2 < t1 then t1 - int k * by else t1 + int k * by)"

lemma seq_to_eq:
  assumes "0 < by" "al \<noteq> NullAlloc"
  shows "seq_to al tn t1 t2 by = Inr \<lparr>adim = [seq_steps t1 t2 by],
    cols = [\<lparr>typenumber = tn, elems = map (seq_elem t1 t2 by) [0..<seq_steps t1 t2 by],
             ordered = (seq_steps t1 t2 by \<le> 1 \<or> t1 < t2), capacity = growCapacity (seq_steps t1 t2 by), alloc = al\<rparr>],
    anames = [unnamed al (seq_steps t1 t2 by)]\<rparr>"
proof -
  have abs: "(if t1 < t2 then t2 - t1 else t1 - t2) = \<bar>t2 - t1\<bar>" by simp
  let ?n = "seq_steps t1 t2 by"
  let ?v = "\<lparr>typenumber = tn, elems = map (\<lambda>_. 0) [0..<?n], ordered = True, capacity = growCapacity ?n, alloc = al\<rparr> :: int vec"
  have n: "vsize ?v = ?n" by simp
  have v: "vec_noinit (\<lambda>_. 0) tn ?n al = Inr ?v" using assms by (simp add: vec_noinit_def)
  have "seq_to al tn t1 t2 by =
    bindR (if t2 < t1
               then foldR (\<lambda>i (v, val). bindR (setv_nocheck i val v) (\<lambda>v'. Inr (v', val - by))) [0..<?n] (?v, t1)
               else foldR (\<lambda>i (v, val). bindR (setv_nocheck i val v) (\<lambda>v'. Inr (v', val + by))) [0..<?n] (?v, t1))
          (\<lambda>(v, _). Inr \<lparr>adim = [?n], cols = [setOrdered (?n \<le> 1 \<or> t1 < t2) v], anames = [unnamed al ?n]\<rparr>)"
    using assms unfolding seq_to_def abs seq_steps_def [symmetric] Let_def by (simp add: v buildNames_none [OF assms(2)])
  then show ?thesis
    unfolding fill_loop_down [OF n] fill_loop [OF n order_refl]
    by (cases "t2 < t1") (simp_all add: setOrdered_def seq_elem_def)
qed

lemma seq_elem_range:
  assumes "0 < by" "k < seq_steps t1 t2 by"
  shows "min t1 t2 \<le> seq_elem t1 t2 by k \<and> seq_elem t1 t2 by k \<le> max t1 t2"
proof -
  have "0 \<le> \<bar>t2 - t1\<bar> div by" using assms(1) by (simp add: pos_imp_zdiv_nonneg_iff)
  then have "int k \<le> \<bar>t2 - t1\<bar> div by" using assms(2) unfolding seq_steps_def by linarith
  then have "int k * by \<le> \<bar>t2 - t1\<bar> div by * by" using assms(1) by (intro mult_right_mono) simp_all
  also have "\<dots> \<le> \<bar>t2 - t1\<bar>" using assms(1) by (simp add: minus_mod_eq_div_mult [symmetric])
  finally have "int k * by \<le> \<bar>t2 - t1\<bar>" .
  moreover have "0 \<le> int k * by" using assms(1) by simp
  ultimately show ?thesis by (auto simp: seq_elem_def)
qed

lemma seq_sorted: "0 < by \<Longrightarrow> t1 < t2 \<or> n \<le> 1 \<Longrightarrow> sorted (map (seq_elem t1 t2 by) [0..<n])"
  by (auto simp: sorted_iff_nth_mono seq_elem_def mult_right_mono)

text \<open>A sequence built in place, from \<open>t1\<close> to \<open>t2\<close> by a positive step, has \<open>|t2 - t1| div by + 1\<close> elements, the
  k-th being \<open>t1 + k * by\<close> or \<open>t1 - k * by\<close>; none lies beyond \<open>t2\<close>, the array satisfies its invariant, and its flag
  is set exactly when the sequence ascends or has one element. A step that is not positive is refused.\<close>

theorem seq_to_correct:
  fixes t1 t2 "by" :: int
  defines "n \<equiv> nat (\<bar>t2 - t1\<bar> div by) + 1"
  assumes "n \<le> SIZE_MAX" "al \<noteq> NullAlloc"
  shows "if by \<le> 0 then seq_to al tn t1 t2 by = Inl (OutOfRange ''by parameter must be >= 0'')
    else \<exists>a. seq_to al tn t1 t2 by = Inr a \<and> array_wf (<) a \<and> adim a = [n] \<and>
      content a = map (\<lambda>k. if t2 < t1 then t1 - int k * by else t1 + int k * by) [0..<n] \<and>
      set (content a) \<subseteq> {min t1 t2..max t1 t2} \<and> (isOrdered a \<longleftrightarrow> n = 1 \<or> t1 < t2)"
proof (cases "by \<le> 0")
  case True
  then show ?thesis by (simp add: seq_to_def)
next
  case False
  then have pos: "0 < by" by simp
  have n: "seq_steps t1 t2 by = n" by (simp add: seq_steps_def n_def)
  have one: "n \<le> 1 \<longleftrightarrow> n = 1" by (simp add: n_def)
  let ?v = "\<lparr>typenumber = tn, elems = map (seq_elem t1 t2 by) [0..<n], ordered = (n \<le> 1 \<or> t1 < t2),
    capacity = growCapacity n, alloc = al\<rparr>"
  let ?a = "\<lparr>adim = [n], cols = [?v], anames = [unnamed al n]\<rparr>"
  have "vec_inv (<) ?v"
    using seq_sorted [OF pos, of t1 t2 n] sorted_vec_inv [of ?v] by (cases "ordered ?v") (auto simp: vec_inv_def)
  then have "array_wf (<) ?a"
    using assms(2,3) unnamed_wf [OF assms(3), of n] by (simp add: array_wf_def col_wf_def nrows_def ncols_of_def names_wf_def)
  moreover have "set (content ?a) \<subseteq> {min t1 t2..max t1 t2}"
    using seq_elem_range [OF pos, of _ t1 t2] by (auto simp: content_def n)
  moreover have "content ?a = map (seq_elem t1 t2 by) [0..<n]" "isOrdered ?a \<longleftrightarrow> n = 1 \<or> t1 < t2"
    using one by (auto simp: content_def isOrdered_def)
  ultimately show ?thesis using seq_to_eq [OF pos assms(3), of tn t1 t2] False unfolding n seq_elem_def [abs_def] by auto
qed

theorem seq_to_correct_witness:
  "\<exists>a. seq_to MemAlloc 0 10 4 3 = Inr a \<and> content a = [10, 7, 4] \<and> \<not> isOrdered a"
proof -
  have n: "nat (\<bar>4 - 10 :: int\<bar> div 3) + 1 = 3" by simp
  show ?thesis using seq_to_correct [of 4 10 3 MemAlloc 0]
    unfolding n by (auto simp: SIZE_MAX_def upt_rec)
qed

end
