(* ===== verification/Vector_Buffer.thy ===== *)
theory Vector_Buffer
  imports Array
begin

text \<open>
  The byte representation of vectors: \<open>Vector::to_buffer\<close>, \<open>Vector::append\<close> and the constructor from a buffer in
  \<open>src/src/vector_base.hpp\<close>. A \<open>RawVector\<close> is three 64-bit words (type number, number of elements, flag) followed by the
  elements; words are little-endian. The elements are copied with \<open>memcpy\<close>, so a type is described by its size, its type
  number and the two directions of its byte representation (record \<open>flat\<close>); the locale \<open>flat_type\<close> states what is
  needed of them, and it is interpreted on the representations of \<open>idx_type\<close>, of 64-bit patterns (\<open>double\<close>) and of
  \<open>dtime\<close>. A buffer is the list of bytes from the pointer on, its length the length argument. A header that announces
  more elements than the buffer holds makes the buffer constructor read outside of it; this is \<open>UB\<close> in the model when
  the vector is made.
\<close>

section \<open>Bytes\<close>

type_synonym byte = "8 word"

fun put_le :: "nat \<Rightarrow> nat \<Rightarrow> byte list" where
  "put_le 0 n = []"
| "put_le (Suc k) n = of_nat n # put_le k (n div 256)"

fun get_le :: "byte list \<Rightarrow> nat" where
  "get_le [] = 0"
| "get_le (b # bs) = unat b + 256 * get_le bs"

abbreviation put_u64 :: "nat \<Rightarrow> byte list" where
  "put_u64 \<equiv> put_le 8"

abbreviation u64_at :: "nat \<Rightarrow> byte list \<Rightarrow> nat" where
  "u64_at off bs \<equiv> get_le (take 8 (drop off bs))"

record 'a flat =
  tnum :: nat
  width :: nat
  put :: "'a \<Rightarrow> byte list"
  get :: "byte list \<Rightarrow> 'a"

definition idx_flat :: "nat flat" where
  "idx_flat = \<lparr>tnum = 0, width = 8, put = put_u64, get = get_le\<rparr>"

definition double_flat :: "64 word flat" where
  "double_flat = \<lparr>tnum = 0, width = 8, put = (\<lambda>w. put_u64 (unat w)), get = (\<lambda>bs. of_nat (get_le bs))\<rparr>"

definition dtime_flat :: "int flat" where
  "dtime_flat = \<lparr>tnum = 2, width = 8, put = (\<lambda>i. put_u64 (nat (i mod 2 ^ 64))),
                 get = (\<lambda>bs. let n = int (get_le bs) in if n < 2 ^ 63 then n else n - 2 ^ 64)\<rparr>"

fun get_elems :: "'a flat \<Rightarrow> nat \<Rightarrow> byte list \<Rightarrow> 'a list" where
  "get_elems f 0 bs = []"
| "get_elems f (Suc n) bs = get f (take (width f) bs) # get_elems f n (drop (width f) bs)"

section \<open>Operations\<close>

definition getBufferSize :: "'a flat \<Rightarrow> 'a vec \<Rightarrow> nat" where
  "getBufferSize f v = sizeof_RawVector + vsize v * width f"

definition to_buffer :: "'a flat \<Rightarrow> 'a vec \<Rightarrow> byte list" where
  "to_buffer f v =
     put_u64 (typenumber v) @ put_u64 (vsize v) @ put_u64 (if ordered v then 1 else 0) @ concat (map (put f) (elems v))"

text \<open>\<open>Vector(char* buf, size_t len)\<close>: the buffer is used in place, nothing is checked.\<close>

definition vec_of_buffer :: "'a flat \<Rightarrow> byte list \<Rightarrow> 'a vec res" where
  "vec_of_buffer f buf =
     (let n = u64_at 8 buf in
      if length buf < sizeof_RawVector \<or> length buf < sizeof_RawVector + n * width f then Inl UB
      else Inr \<lparr>typenumber = u64_at 0 buf, elems = get_elems f n (drop sizeof_RawVector buf),
                ordered = (u64_at 16 buf \<noteq> 0), capacity = length buf, alloc = NullAlloc\<rparr>)"

text \<open>The total size is computed in 64 bits; when it wraps, the vector is resized past what was copied. The flag of the
  receiving vector is 0 or 1, so that the bitwise \<open>&=\<close> keeps the lowest bit of the flag of the buffer.\<close>

definition vec_append :: "'a flat \<Rightarrow> ('a \<Rightarrow> 'a \<Rightarrow> bool) \<Rightarrow> (nat \<Rightarrow> 'a) \<Rightarrow> byte list \<Rightarrow> 'a vec \<Rightarrow> ('a vec \<times> nat) res" where
  "vec_append f cmp junk buf v =
     (if length buf < sizeof_RawVector then Inl (OutOfRange ''invalid append buffer: too short'')
      else
        let n = u64_at 8 buf; totalsz = (sizeof_RawVector + size_mul n (width f)) mod 2 ^ 64 in
        if length buf < totalsz then Inl (OutOfRange ''missing data'')
        else if tnum f \<noteq> u64_at 0 buf then Inl (OutOfRange ''incorrect type'')
        else if n * width f + sizeof_RawVector \<ge> 2 ^ 64 then Inl UB
        else
          bindR (resize junk (vsize v + n) 0 v) (\<lambda>w.
            let xs = get_elems f n (drop sizeof_RawVector buf);
                ord = (if n \<noteq> 0 then ordered v \<and> odd (u64_at 16 buf) \<and> (vsize v \<noteq> 0 \<longrightarrow> cmp (elems v ! (vsize v - 1)) (xs ! 0))
                       else ordered v)
            in Inr (w\<lparr>elems := elems v @ xs, ordered := ord\<rparr>, totalsz)))"

section \<open>Words and runs of elements\<close>

lemma put_le_length [simp]: "length (put_le k n) = k"
  by (induction k arbitrary: n) simp_all

lemma get_put_le: "get_le (put_le k n) = n mod 256 ^ k"
proof (induction k arbitrary: n)
  case (Suc k)
  have "unat (of_nat n :: byte) = n mod 256" by (simp add: unat_of_nat)
  with Suc show ?case by (simp add: mod_mult2_eq)
qed simp

lemma get_put_u64 [simp]: "n < 2 ^ 64 \<Longrightarrow> get_le (put_u64 n) = n"
  by (simp add: get_put_le)

lemma get_le_bound: "get_le bs < 256 ^ length bs"
proof (induction bs)
  case (Cons b bs)
  have "unat b < 256" using unsigned_less [of b, where 'a = nat] by simp
  with Cons show ?case by simp
qed simp

locale flat_type =
  fixes f :: "'a flat" and valid :: "'a \<Rightarrow> bool"
  assumes width_pos: "0 < width f" and width_small: "width f \<le> 1024"
    and put_length: "length (put f x) = width f" and get_put: "valid x \<Longrightarrow> get f (put f x) = x" and tnum_small: "tnum f < 2 ^ 64"
begin

lemma data_length: "length (concat (map (put f) xs)) = length xs * width f"
  by (induction xs) (simp_all add: put_length)

lemma get_elems_put: "list_all valid xs \<Longrightarrow> get_elems f (length xs) (concat (map (put f) xs) @ rest) = xs"
  by (induction xs) (simp_all add: put_length get_put)

lemma to_buffer_length: "length (to_buffer f v) = getBufferSize f v"
  by (simp add: to_buffer_def getBufferSize_def data_length sizeof_RawVector_def)

lemma header:
  assumes "typenumber v < 2 ^ 64" "vsize v < 2 ^ 64"
  shows "u64_at 0 (to_buffer f v @ rest) = typenumber v" "u64_at 8 (to_buffer f v @ rest) = vsize v"
    "u64_at 16 (to_buffer f v @ rest) = (if ordered v then 1 else 0)"
    "drop sizeof_RawVector (to_buffer f v @ rest) = concat (map (put f) (elems v)) @ rest"
  using assms by (simp_all add: to_buffer_def sizeof_RawVector_def)

lemma of_buffer_to_buffer:
  assumes "typenumber v < 2 ^ 64" "vsize v < 2 ^ 64" "list_all valid (elems v)"
  shows "vec_of_buffer f (to_buffer f v @ rest) =
    Inr \<lparr>typenumber = typenumber v, elems = elems v, ordered = ordered v, capacity = getBufferSize f v + length rest, alloc = NullAlloc\<rparr>"
  unfolding vec_of_buffer_def Let_def header [OF assms(1,2)]
  by (simp add: to_buffer_length getBufferSize_def get_elems_put [OF assms(3)])

lemma append_to_buffer:
  assumes "typenumber u = tnum f" "getBufferSize f u < 2 ^ 64" "list_all valid (elems u)" "alloc v \<noteq> NullAlloc"
  shows "\<exists>w. vec_append f cmp junk (to_buffer f u @ rest) v = Inr (w, getBufferSize f u) \<and> elems w = elems v @ elems u \<and> alloc w = alloc v \<and>
    typenumber w = typenumber v \<and>
    (ordered w \<longleftrightarrow> ordered v \<and> (elems u \<noteq> [] \<longrightarrow> ordered u \<and> (elems v \<noteq> [] \<longrightarrow> cmp (last (elems v)) (hd (elems u)))))"
proof -
  have "vsize u * 1 \<le> vsize u * width f" using width_pos by (intro mult_le_mono2) simp
  with assms(2) have n: "vsize u < 2 ^ 64" unfolding getBufferSize_def by linarith
  note h = header [OF tnum_small [folded assms(1)] n]
  have t: "(sizeof_RawVector + size_mul (vsize u) (width f)) mod 2 ^ 64 = getBufferSize f u"
    using assms(2) by (simp add: size_mul_def getBufferSize_def)
  obtain w where w: "resize junk (vsize v + vsize u) 0 v = Inr w" using resize_total [OF assms(4)] by blast
  then have "alloc w = alloc v" "typenumber w = typenumber v" by (auto simp: resize_def split: if_splits)
  with w assms(1,2) show ?thesis unfolding vec_append_def h t Let_def
    by (auto simp: to_buffer_length get_elems_put [OF assms(3)] getBufferSize_def last_conv_nth hd_conv_nth)
qed

text \<open>Whatever the buffer, a successful append has read inside it.\<close>

lemma append_bounds:
  assumes "vec_append f cmp junk buf v = Inr (w, k)"
  shows "sizeof_RawVector \<le> k \<and> k \<le> length buf \<and> u64_at 0 buf = tnum f \<and> k = sizeof_RawVector + u64_at 8 buf * width f \<and>
    vsize w = vsize v + u64_at 8 buf \<and> take (vsize v) (elems w) = elems v \<and> alloc w = alloc v"
proof -
  have len: "length (get_elems f n bs) = n" for n and bs by (induction n arbitrary: bs) simp_all
  let ?n = "u64_at 8 buf"
  from assms have n: "?n * width f + sizeof_RawVector < 2 ^ 64" by (auto simp: vec_append_def Let_def split: if_splits)
  then have t: "(sizeof_RawVector + size_mul ?n (width f)) mod 2 ^ 64 = sizeof_RawVector + ?n * width f"
    by (simp add: size_mul_def)
  from assms obtain v1 where r: "resize junk (vsize v + ?n) 0 v = Inr v1"
    and w: "elems w = elems v @ get_elems f ?n (drop sizeof_RawVector buf)" "alloc w = alloc v1" "k = sizeof_RawVector + ?n * width f"
    and c: "k \<le> length buf" "tnum f = u64_at 0 buf"
    unfolding vec_append_def Let_def t by (auto simp: res_simps split: if_splits)
  show ?thesis using w c resize_alloc [OF r] by (simp add: len)
qed

lemma u64_at_take: "off + 8 \<le> k \<Longrightarrow> u64_at off (take k buf) = u64_at off buf"
  by (simp add: drop_take min_def)

text \<open>A buffer cut short anywhere is refused.\<close>

lemma append_truncated:
  assumes "typenumber u = tnum f" "getBufferSize f u < 2 ^ 64" "k < getBufferSize f u"
  shows "vec_append f cmp junk (take k (to_buffer f u)) v =
    Inl (OutOfRange (if k < sizeof_RawVector then ''invalid append buffer: too short'' else ''missing data''))"
proof (cases "k < sizeof_RawVector")
  case True
  with assms(3) show ?thesis by (simp add: vec_append_def to_buffer_length)
next
  case False
  have "vsize u * 1 \<le> vsize u * width f" using width_pos by (intro mult_le_mono2) simp
  with assms(2) have n: "vsize u < 2 ^ 64" unfolding getBufferSize_def by linarith
  have "u64_at 8 (take k (to_buffer f u)) = vsize u"
    using header(2) [OF tnum_small [folded assms(1)] n, of "[]"] False u64_at_take [of 8 k] by (simp add: sizeof_RawVector_def)
  moreover have "(sizeof_RawVector + size_mul (vsize u) (width f)) mod 2 ^ 64 = getBufferSize f u"
    using assms(2) by (simp add: size_mul_def getBufferSize_def)
  ultimately show ?thesis using False assms(3) by (simp add: vec_append_def to_buffer_length Let_def)
qed

end

interpretation idx_codec: flat_type idx_flat "\<lambda>n. n < 2 ^ 64"
  by unfold_locales (simp_all add: idx_flat_def)

interpretation double_codec: flat_type double_flat "\<lambda>_. True"
proof
  have "unat x < 2 ^ 64" for x :: "64 word" using unsigned_less [of x, where 'a = nat] by simp
  then show "get double_flat (put double_flat x) = x" for x by (simp add: double_flat_def)
qed (simp_all add: double_flat_def)

lemma dtime_roundtrip: "- (2 ^ 63) \<le> i \<Longrightarrow> i < 2 ^ 63 \<Longrightarrow> get dtime_flat (put dtime_flat i) = i"
proof -
  assume i: "- (2 ^ 63) \<le> i" "i < (2 ^ 63 :: int)"
  have "nat (i mod 2 ^ 64) < 2 ^ 64" by (simp add: nat_less_iff)
  then have "int (get_le (put_u64 (nat (i mod 2 ^ 64)))) = i mod 2 ^ 64" by simp
  moreover have "i mod 2 ^ 64 = (if 0 \<le> i then i else i + 2 ^ 64)"
  proof (cases "0 \<le> i")
    case False
    have "i mod 2 ^ 64 = (i + 2 ^ 64) mod 2 ^ 64" by simp
    also have "\<dots> = i + 2 ^ 64" using i False by (intro mod_pos_pos_trivial) simp_all
    finally show ?thesis using False by simp
  qed (use i in simp)
  ultimately show ?thesis using i by (cases "0 \<le> i") (simp_all add: dtime_flat_def Let_def nat_less_iff)
qed

interpretation dtime_codec: flat_type dtime_flat "\<lambda>i. - (2 ^ 63) \<le> i \<and> i < 2 ^ 63"
  by unfold_locales (use dtime_roundtrip in \<open>simp_all add: dtime_flat_def\<close>)

section \<open>Properties\<close>

lemma increasing_append:
  assumes "asymp cmp" "vec_inv cmp v" "vec_inv cmp u" "elems w = elems v @ elems u"
    "ordered w \<Longrightarrow> ordered v \<and> (elems u \<noteq> [] \<longrightarrow> ordered u \<and> (elems v \<noteq> [] \<longrightarrow> cmp (last (elems v)) (hd (elems u))))"
  shows "vec_inv cmp w"
  unfolding vec_inv_def
proof
  assume "ordered w"
  from assms(5) [OF this] assms(2-4) show "successively (\<lambda>x y. \<not> cmp y x) (elems w)"
    by (cases "elems u = []") (auto simp: vec_inv_def successively_append_iff dest: asympD [OF assms(1)])
qed

text \<open>C23. The byte representation of a vector of times: constructing a vector over the buffer gives back the elements and
  the flag, and appending the buffer to another vector adds exactly those elements, reports the number of bytes read and
  keeps the flag sound, whatever follows in the buffer.\<close>

theorem vector_buffer_roundtrip:
  assumes "typenumber u = 2" "sizeof_RawVector + vsize u * 8 < 2 ^ 64" "list_all (\<lambda>t. - (2 ^ 63) \<le> t \<and> t < 2 ^ 63) (elems u)"
    "alloc v \<noteq> NullAlloc" "vec_inv (<) u" "vec_inv (<) v"
  shows "(\<exists>r. vec_of_buffer dtime_flat (to_buffer dtime_flat u @ rest) = Inr r \<and> elems r = elems u \<and> ordered r = ordered u) \<and>
    (\<exists>w. vec_append dtime_flat (<) junk (to_buffer dtime_flat u @ rest) v = Inr (w, sizeof_RawVector + vsize u * 8) \<and>
       elems w = elems v @ elems u \<and> vec_inv (<) w)"
proof -
  have d: "tnum dtime_flat = 2" "width dtime_flat = 8" by (simp_all add: dtime_flat_def)
  have n: "vsize u < 2 ^ 64" using assms(2) by simp
  from dtime_codec.of_buffer_to_buffer [OF _ n assms(3)] assms(1) have
    "\<exists>r. vec_of_buffer dtime_flat (to_buffer dtime_flat u @ rest) = Inr r \<and> elems r = elems u \<and> ordered r = ordered u" by simp
  moreover obtain w where "vec_append dtime_flat (<) junk (to_buffer dtime_flat u @ rest) v = Inr (w, getBufferSize dtime_flat u)"
    "elems w = elems v @ elems u"
    "ordered w \<longleftrightarrow> ordered v \<and> (elems u \<noteq> [] \<longrightarrow> ordered u \<and> (elems v \<noteq> [] \<longrightarrow> last (elems v) < hd (elems u)))"
    using dtime_codec.append_to_buffer [of u v "(<)" junk rest] assms d by (auto simp: getBufferSize_def)
  ultimately show ?thesis using increasing_append [OF _ assms(6,5), of w] by (auto simp: getBufferSize_def d)
qed

definition times_example :: "int vec" where
  "times_example = \<lparr>typenumber = 2, elems = [-1, 7], ordered = True, capacity = 1024, alloc = MemAlloc\<rparr>"

lemma times_example_inv: "vec_inv (<) times_example"
  by (simp add: vec_inv_def times_example_def)

theorem vector_buffer_roundtrip_witness:
  "(\<exists>w. vec_append dtime_flat (<) (\<lambda>_. 0) (to_buffer dtime_flat times_example @ [1, 2]) times_example = Inr (w, 40) \<and>
       elems w = [-1, 7, -1, 7] \<and> vec_inv (<) w)"
  using vector_buffer_roundtrip [of times_example times_example "[1, 2]" "\<lambda>_. 0", OF _ _ _ _ times_example_inv times_example_inv]
  by (simp add: times_example_def sizeof_RawVector_def)

text \<open>Appending from a buffer is checked: if it succeeds, the type number agrees and all the bytes read lie inside the
  buffer; and the representation of a vector of doubles that is cut short anywhere is refused with an exception that
  says so.\<close>

theorem vector_append_checked:
  assumes "typenumber u = 0" "getBufferSize double_flat u < 2 ^ 64" "k < getBufferSize double_flat u"
  shows "vec_append double_flat cmp junk (take k (to_buffer double_flat u)) v =
      Inl (OutOfRange (if k < 24 then ''invalid append buffer: too short'' else ''missing data'')) \<and>
    (vec_append double_flat cmp junk buf v = Inr (w, n) \<longrightarrow>
      u64_at 0 buf = 0 \<and> n = 24 + u64_at 8 buf * 8 \<and> n \<le> length buf \<and> vsize w = vsize v + u64_at 8 buf \<and> take (vsize v) (elems w) = elems v)"
proof -
  have d: "tnum double_flat = 0" "width double_flat = 8" by (simp_all add: double_flat_def)
  have "typenumber u = tnum double_flat" using assms(1) d by simp
  from double_codec.append_truncated [OF this assms(2,3)] double_codec.append_bounds [of cmp junk buf v w n]
  show ?thesis by (auto simp: d sizeof_RawVector_def)
qed

definition doubles_example :: "64 word vec" where
  "doubles_example = \<lparr>typenumber = 0, elems = [5, 6], ordered = True, capacity = 1024, alloc = MemAlloc\<rparr>"

theorem vector_append_checked_witness:
  "vec_append double_flat (<) (\<lambda>_. 0) (take 30 (to_buffer double_flat doubles_example)) doubles_example = Inl (OutOfRange ''missing data'')"
proof -
  have "getBufferSize double_flat doubles_example = 40"
    by (simp add: getBufferSize_def double_flat_def doubles_example_def sizeof_RawVector_def)
  then show ?thesis
    using vector_append_checked [of doubles_example 30 "(<)" "\<lambda>_. 0" doubles_example] by (simp add: doubles_example_def)
qed

text \<open>The size computation wraps: a header alone, with an element count of \<open>2 ^ 61\<close>, passes every check.\<close>

lemma append_size_wraps:
  "vec_append double_flat cmp junk (put_u64 0 @ put_u64 (2 ^ 61) @ put_u64 1) v = Inl UB"
  by (simp add: vec_append_def double_flat_def sizeof_RawVector_def size_mul_def Let_def del: put_le.simps get_le.simps)

end
