(* ===== verification/Array_Append.thy ===== *)
theory Array_Append
  imports Vector_Buffer
begin

text \<open>
  Growing, shrinking and serialising arrays (\<open>src/src/array.hpp\<close>): \<open>to_buffer\<close>, \<open>append\<close>, \<open>appendVector\<close>, \<open>concat\<close>, \<open>resize\<close>
  and \<open>subsetRows\<close>. \<open>append\<close> is the operation of the wire protocol: it must leave the array as it was when the buffer is
  bad, so its model returns the array after the call beside the exception or the number of bytes read. The flag of the
  \<open>dim\<close> vector, which is sent and not used, is an argument of the serialisation.
\<close>

section \<open>Serialisation\<close>

definition dim_vec :: "bool \<Rightarrow> nat list \<Rightarrow> nat vec" where
  "dim_vec flag d = \<lparr>typenumber = 0, elems = d, ordered = flag, capacity = growCapacity (length d), alloc = MemAlloc\<rparr>"

definition array_to_buffer :: "'a flat \<Rightarrow> bool \<Rightarrow> 'a array \<Rightarrow> byte list" where
  "array_to_buffer f flag a = to_buffer idx_flat (dim_vec flag (adim a)) @ concat (map (to_buffer f) (cols a))"

definition array_getBufferSize :: "'a flat \<Rightarrow> 'a array \<Rightarrow> nat res" where
  "array_getBufferSize f a =
     bindR (std_at (cols a) 0) (\<lambda>v. Inr (sizeof_RawVector + 8 * length (adim a) + length (cols a) * getBufferSize f v))"

section \<open>Append\<close>

definition checkdims :: "nat list \<Rightarrow> nat list \<Rightarrow> nat \<Rightarrow> bool" where
  "checkdims v u i =
     (if length v = 0 \<or> length u = 0 then True
      else
        let up = min (length v) (length u) in
        list_all (\<lambda>j. j = i \<or> v ! j = u ! j) [0..<up] \<and>
        list_all (\<lambda>j. j = i \<or> v ! j = 1) [up..<length v] \<and>
        list_all (\<lambda>j. j = i \<or> u ! j = 1) [up..<length u])"

text \<open>The columns are appended one after the other; the columns before a failing one keep what was appended.\<close>

fun append_cols :: "'a flat \<Rightarrow> ('a \<Rightarrow> 'a \<Rightarrow> bool) \<Rightarrow> (nat \<Rightarrow> 'a) \<Rightarrow> byte list \<Rightarrow> nat \<Rightarrow> 'a vec list \<Rightarrow> 'a vec list \<times> nat res" where
  "append_cols f cmp junk buf off [] = ([], Inr off)"
| "append_cols f cmp junk buf off (v # vs) =
     (if off > length buf then (v # vs, Inl UB)
      else case vec_append f cmp junk (drop off buf) v of
        Inl e \<Rightarrow> (v # vs, Inl e)
      | Inr (w, k) \<Rightarrow> (case append_cols f cmp junk buf (off + k) vs of (ws, r) \<Rightarrow> (w # ws, r)))"

text \<open>The handler: every column is cut back to the rows of \<open>dim\<close>.\<close>

fun rollback_cols :: "(nat \<Rightarrow> 'a) \<Rightarrow> nat \<Rightarrow> 'a vec list \<Rightarrow> 'a vec list \<times> unit res" where
  "rollback_cols junk n [] = ([], Inr ())"
| "rollback_cols junk n (v # vs) =
     (case resize junk n 0 v of
        Inl e \<Rightarrow> (v # vs, Inl e)
      | Inr w \<Rightarrow> (case rollback_cols junk n vs of (ws, r) \<Rightarrow> (w # ws, r)))"

definition array_append ::
  "'a flat \<Rightarrow> ('a \<Rightarrow> 'a \<Rightarrow> bool) \<Rightarrow> (nat \<Rightarrow> 'a) \<Rightarrow> byte list \<Rightarrow> 'a array \<Rightarrow> 'a array \<times> nat res" where
  "array_append f cmp junk buf a =
     (case vec_of_buffer idx_flat buf of
        Inl e \<Rightarrow> (a, Inl e)
      | Inr ad \<Rightarrow>
          if length (adim a) = 0 then (a, Inl (OutOfRange ''append on null array not implemented''))
          else if \<not> checkdims (adim a) (elems ad) 0 then (a, Inl (OutOfRange ''incorrect dimensions for append''))
          else
            (case append_cols f cmp junk buf (sizeof_RawVector + 8 * vsize ad) (cols a) of
               (vs, Inl e) \<Rightarrow>
                 (case rollback_cols junk (adim a ! 0) vs of
                    (ws, Inr _) \<Rightarrow> (a\<lparr>cols := ws\<rparr>, Inl e)
                  | (ws, Inl e') \<Rightarrow> (a\<lparr>cols := ws\<rparr>, Inl e'))
             | (vs, Inr off) \<Rightarrow>
                 (case bindR (dim_at (elems ad) 0) (\<lambda>n. bindR (std_at (anames a) 0) (\<lambda>nm.
                         bindR (addafter_dn (dname_of_size n) nm) (\<lambda>nm'. Inr (n, nm')))) of
                    Inl e \<Rightarrow> (a\<lparr>cols := vs\<rparr>, Inl e)
                  | Inr (n, nm') \<Rightarrow>
                      (a\<lparr>cols := vs, anames := (anames a)[0 := nm'], adim := (adim a)[0 := adim a ! 0 + n]\<rparr>, Inr off))))"

text \<open>\<open>appendVector\<close>: the rows of all columns in one vector, column after column.\<close>

fun append_rows :: "('a \<Rightarrow> 'a \<Rightarrow> bool) \<Rightarrow> nat \<Rightarrow> 'a list \<Rightarrow> nat \<Rightarrow> nat \<Rightarrow> 'a vec list \<Rightarrow> 'a vec list res" where
  "append_rows cmp n [] i j vs = Inr vs"
| "append_rows cmp n (e # es) i j vs =
     bindR (std_at vs i) (\<lambda>v. bindR (push_back cmp e v) (\<lambda>w.
       if j + 1 = n then append_rows cmp n es (i + 1) 0 (vs[i := w])
       else append_rows cmp n es i (j + 1) (vs[i := w])))"

definition array_appendVector :: "'a flat \<Rightarrow> ('a \<Rightarrow> 'a \<Rightarrow> bool) \<Rightarrow> byte list \<Rightarrow> 'a array \<Rightarrow> 'a array res" where
  "array_appendVector f cmp buf a =
     bindR (vec_of_buffer f buf) (\<lambda>data.
       if length (cols a) = 0 then Inl (OutOfRange ''appendVector on null array not implemented'')
       else if vsize data mod length (cols a) \<noteq> 0 then Inl (OutOfRange ''appendVector: incorrect vector size'')
       else
         let n = vsize data div length (cols a) in
         bindR (append_rows cmp n (elems data) 0 0 (cols a)) (\<lambda>vs.
         bindR (std_at (anames a) 0) (\<lambda>nm. bindR (addafter_dn (dname_of_size n) nm) (\<lambda>nm'.
         bindR (dim_at (adim a) 0) (\<lambda>d0.
           Inr (a\<lparr>cols := vs, anames := (anames a)[0 := nm'], adim := (adim a)[0 := d0 + n]\<rparr>))))))"

section \<open>Concatenation, resizing, ranges of rows\<close>

definition array_concat :: "('a \<Rightarrow> 'a \<Rightarrow> bool) \<Rightarrow> ('u \<Rightarrow> 'a) \<Rightarrow> 'u array \<Rightarrow> string \<Rightarrow> 'a array \<Rightarrow> 'a array res" where
  "array_concat cmp conv u prefix a =
     (if length (adim a) > 1 \<or> length (adim u) > 1 then Inl (RangeError ''concat can only handle dim==0 and vectors'')
      else
        bindR (std_at (cols u) 0) (\<lambda>uv. bindR (std_at (cols a) 0) (\<lambda>v.
        bindR (foldR (\<lambda>e w. push_back cmp (conv e) w) (elems uv) v) (\<lambda>v'.
        bindR (std_at (anames u) 0) (\<lambda>un. bindR (addprefix prefix un) (\<lambda>newnames.
        bindR (std_at (anames a) 0) (\<lambda>nm. bindR (addafter_dn newnames nm) (\<lambda>nm'.
        bindR (dim_at (adim a) 0) (\<lambda>d0. bindR (dim_at (adim u) 0) (\<lambda>u0.
          Inr (a\<lparr>cols := (cols a)[0 := v'], anames := (anames a)[0 := nm'], adim := (adim a)[0 := d0 + u0]\<rparr>)))))))))))"

text \<open>\<open>concat\<close> of one element; a null array becomes a vector first.\<close>

definition as_vector :: "('a \<Rightarrow> 'a \<Rightarrow> bool) \<Rightarrow> nat \<Rightarrow> 'a \<Rightarrow> 'a array \<Rightarrow> 'a array res" where
  "as_vector cmp tn init a =
     (let a1 = (if length (adim a) = 0 then a\<lparr>adim := [0], anames := anames a @ [dname_of_size 0]\<rparr> else a) in
      if length (cols a1) = 0
      then bindR (dim_at (adim a1) 0) (\<lambda>d0. bindR (vec_fill cmp tn d0 init MemAlloc) (\<lambda>v. Inr (a1\<lparr>cols := [v]\<rparr>)))
      else Inr a1)"

definition array_concat1 :: "('a \<Rightarrow> 'a \<Rightarrow> bool) \<Rightarrow> nat \<Rightarrow> 'a \<Rightarrow> 'a \<Rightarrow> string \<Rightarrow> 'a array \<Rightarrow> 'a array res" where
  "array_concat1 cmp tn init x name a =
     (if length (adim a) > 1 then Inl (RangeError ''concat can only handle dim==0 and vectors'')
      else
        bindR (as_vector cmp tn init a) (\<lambda>a1.
        bindR (std_at (cols a1) 0) (\<lambda>v. bindR (push_back cmp x v) (\<lambda>w.
        bindR (std_at (anames a1) 0) (\<lambda>nm. bindR (addafter name nm) (\<lambda>nm'.
          Inr (a1\<lparr>cols := (cols a1)[0 := w], anames := (anames a1)[0 := nm'], adim := (adim a1)[0 := adim a1 ! 0 + 1]\<rparr>)))))))"

definition array_resize ::
  "('a \<Rightarrow> 'a \<Rightarrow> bool) \<Rightarrow> nat \<Rightarrow> 'a \<Rightarrow> (nat \<Rightarrow> 'a) \<Rightarrow> nat \<Rightarrow> nat \<Rightarrow> nat \<Rightarrow> 'a array \<Rightarrow> 'a array res" where
  "array_resize cmp tn init junk d sz from a =
     (if d \<noteq> 0 then Inl (LogicError ''resize only implemented for dim 0'')
      else
        bindR (as_vector cmp tn init a) (\<lambda>a1.
        bindR (foldR (\<lambda>v vs. bindR (resize junk sz from v) (\<lambda>w. Inr (vs @ [w]))) (cols a1) []) (\<lambda>vs.
        bindR (std_at (anames a1) 0) (\<lambda>nm. bindR (dname_resize sz from nm) (\<lambda>nm'.
          Inr (a1\<lparr>cols := vs, adim := (adim a1)[0 := sz], anames := (anames a1)[0 := nm']\<rparr>))))))"

definition row_name :: "'a array \<Rightarrow> nat \<Rightarrow> bool \<Rightarrow> nat \<Rightarrow> string res" where
  "row_name a ndims nmd j =
     (if nmd then bindR (std_at (anames a) 0) (\<lambda>nm. name_at nm j)
      else Inr (''['' @ to_string (j + 1) @ replicate (ndims - 1) CHR '','' @ '']''))"

definition copy_rows :: "('a \<Rightarrow> 'a \<Rightarrow> bool) \<Rightarrow> nat list \<Rightarrow> 'a vec \<Rightarrow> 'a vec \<Rightarrow> 'a vec res" where
  "copy_rows cmp js src dst = foldR (\<lambda>j w. bindR (vec_at src j) (\<lambda>x. push_back cmp x w)) js dst"

definition subsetRows :: "('a \<Rightarrow> 'a \<Rightarrow> bool) \<Rightarrow> nat \<Rightarrow> nat \<Rightarrow> nat \<Rightarrow> bool \<Rightarrow> 'a array \<Rightarrow> 'a array res" where
  "subsetRows cmp tn n from addrownums a =
     bindR (dim_at (adim a) 0) (\<lambda>d0.
     let upto = (from + n) mod 2 ^ 64; js = [from..<upto] in
     if upto > d0 then Inl (RangeError ''range out of bounds'')
     else
       bindR (array_rsv MemAlloc tn ((adim a)[0 := n]) []) (\<lambda>r.
       bindR (foldR (\<lambda>i vs. bindR (std_at vs i) (\<lambda>dst. bindR (std_at (cols a) i) (\<lambda>src.
                bindR (copy_rows cmp js src dst) (\<lambda>w. Inr (vs[i := w]))))) [0..<ncols a] (cols r)) (\<lambda>vs.
       bindR (hasNames_dim a 0) (\<lambda>nmd.
       bindR (std_at (anames r) 0) (\<lambda>nm0.
       bindR (if nmd \<or> addrownums
              then foldR (\<lambda>j nm. bindR (row_name a (length (adim a)) nmd j) (\<lambda>s. dname_assign (j - from) s nm)) js nm0
              else Inr nm0) (\<lambda>nm.
         Inr (r\<lparr>cols := vs, anames := nm # tl (anames a)\<rparr>)))))))"

section \<open>A failed append changes nothing\<close>

text \<open>A column that starts with another one; its flag is not set unless the other's is.\<close>

definition extends :: "'a vec \<Rightarrow> 'a vec \<Rightarrow> bool" where
  "extends v w \<longleftrightarrow> take (vsize v) (elems w) = elems v \<and> alloc w = alloc v \<and> (ordered w \<longrightarrow> ordered v)"

lemma extends_refl [simp]: "extends v v"
  by (simp add: extends_def)

lemma extends_size: "extends v w \<Longrightarrow> vsize v \<le> vsize w"
  unfolding extends_def by (metis linear take_all length_take min.absorb_iff2)

lemma vec_append_extends: "vec_append f cmp junk buf v = Inr (w, k) \<Longrightarrow> extends v w"
  by (auto simp: vec_append_def extends_def Let_def res_simps split: if_splits dest: resize_alloc)

lemma append_cols_extends: "list_all2 extends vs (fst (append_cols f cmp junk buf off vs))"
proof (induction vs arbitrary: off)
  case (Cons v vs)
  have refl: "list_all2 extends vs vs" by (rule list_all2_refl) simp
  show ?case
  proof (cases "off > length buf \<or> (\<exists>e. vec_append f cmp junk (drop off buf) v = Inl e)")
    case True
    then show ?thesis using refl by auto
  next
    case False
    then obtain w k where "vec_append f cmp junk (drop off buf) v = Inr (w, k)" "\<not> off > length buf"
      by (cases "vec_append f cmp junk (drop off buf) v") auto
    with Cons.IH [of "off + k"] vec_append_extends show ?thesis by (auto split: prod.splits)
  qed
qed simp

definition same_column :: "'a vec \<Rightarrow> 'a vec \<Rightarrow> bool" where
  "same_column v w \<longleftrightarrow> elems w = elems v \<and> (ordered w \<longrightarrow> ordered v)"

lemma resize_back:
  assumes "col_wf cmp n v" "extends v w"
  shows "\<exists>u. resize junk n 0 w = Inr u \<and> same_column v u \<and> col_wf cmp n u \<and> ordered u = ordered w"
proof -
  have n: "vsize v = n" using assms(1) by (rule col_wf_size)
  have w: "alloc w \<noteq> NullAlloc" "n \<le> vsize w" "take n (elems w) = elems v" "ordered w \<longrightarrow> ordered v"
    using assms extends_size [OF assms(2)] unfolding extends_def col_wf_def n by simp_all
  from resize_total [OF w(1)] obtain u where u: "resize junk n 0 w = Inr u" by blast
  have "elems u = elems v" "ordered u = ordered w" using resize_0_elems [OF u] w(2,3) by simp_all
  moreover have "alloc u = alloc w" by (rule resize_alloc [OF u])
  ultimately show ?thesis using u w(1,4) assms(1) by (simp add: same_column_def col_wf_def vec_inv_def)
qed

lemma rollback_cols_ok:
  assumes "list_all2 extends vs ws" "list_all (col_wf cmp n) vs"
  shows "\<exists>us. rollback_cols junk n ws = (us, Inr ()) \<and> list_all2 same_column vs us \<and> list_all (col_wf cmp n) us"
  using assms
proof (induction rule: list_all2_induct)
  case (Cons v vs w ws)
  from Cons.prems resize_back [OF _ Cons.hyps(1), of cmp n junk] obtain u where
    "resize junk n 0 w = Inr u" "same_column v u" "col_wf cmp n u" by auto
  with Cons.IH Cons.prems show ?case by auto
qed simp

lemma same_columns_content: "list_all2 same_column vs us \<Longrightarrow> map elems us = map elems vs"
  by (induction rule: list_all2_induct) (simp_all add: same_column_def)

lemma array_wf_same_cols:
  assumes "array_wf cmp a" "list_all2 same_column (cols a) us" "list_all (col_wf cmp (nrows a)) us"
  shows "array_wf cmp (a\<lparr>cols := us\<rparr>)" "content (a\<lparr>cols := us\<rparr>) = content a"
proof -
  show "content (a\<lparr>cols := us\<rparr>) = content a" using same_columns_content [OF assms(2)] by (simp add: content_def)
  show "array_wf cmp (a\<lparr>cols := us\<rparr>)"
    using assms list_all2_lengthD [OF assms(2)] by (auto simp: array_wf_def nrows_def split: if_splits)
qed

text \<open>The rows of the names after an append.\<close>

lemma append_names_total:
  assumes "array_wf cmp a" "adim a \<noteq> []"
  shows "\<exists>nm. std_at (anames a) 0 = Inr (anames a ! 0) \<and> addafter_dn (dname_of_size n) (anames a ! 0) = Inr nm \<and> dname_wf nm \<and> map_ok nm \<and>
    dsz nm = adim a ! 0 + n \<and> labels nm = labels (anames a ! 0) @ replicate n ''''"
proof -
  have l: "0 < length (adim a)" "0 < length (anames a)" using assms array_wfD(3) [OF assms(1)] by auto
  have d: "dname_wf (dname_of_size n)" "labels (dname_of_size n) = replicate n ''''" "dsz (dname_of_size n) = n"
    by (simp_all add: dname_wf_def dname_of_size_def empty_names_def labels_def)
  from addafter_dn_ok [OF _ _ d(1), of "anames a ! 0"] array_wfD(5) [OF assms(1) l(1)] d(2,3) l(2) show ?thesis by (simp add: std_at_def)
qed

lemma array_append_error:
  assumes "array_wf cmp a" "array_append f cmp junk buf a = (a', Inl e)" "e \<noteq> UB"
  shows "array_wf cmp a' \<and> adim a' = adim a \<and> anames a' = anames a \<and> content a' = content a \<and> list_all2 same_column (cols a) (cols a')"
proof -
  have refl: "list_all2 same_column (cols a) (cols a)" by (rule list_all2_refl) (simp add: same_column_def)
  obtain vs r where ac: "append_cols f cmp junk buf (sizeof_RawVector + 8 * u64_at 8 buf) (cols a) = (vs, r)" by (rule prod.exhaust)
  have len: "vsize ad = u64_at 8 buf" if "vec_of_buffer idx_flat buf = Inr ad" for ad
  proof -
    have "length (get_elems idx_flat n bs) = n" for n bs by (induction n arbitrary: bs) simp_all
    with that show ?thesis by (auto simp: vec_of_buffer_def Let_def split: if_splits)
  qed
  have ext: "list_all2 extends (cols a) vs" using append_cols_extends [of "cols a" f cmp junk buf] ac by (metis fst_conv)
  show ?thesis
  proof (cases "a' = a")
    case True
    then show ?thesis using assms(1) refl by simp
  next
    case False
    with assms(2) obtain ad where ad: "vec_of_buffer idx_flat buf = Inr ad" and ne: "adim a \<noteq> []"
      and app: "append_cols f cmp junk buf (sizeof_RawVector + 8 * vsize ad) (cols a) = (vs, r)"
      using ac len by (auto simp: array_append_def split: sum.splits if_splits)
    show ?thesis
    proof (cases r)
      case (Inl e0)
      have "list_all (col_wf cmp (adim a ! 0)) (cols a)" using assms(1) ne by (simp add: array_wf_def nrows_def)
      from rollback_cols_ok [OF ext this, of junk] obtain us where
        us: "rollback_cols junk (adim a ! 0) vs = (us, Inr ())" "list_all2 same_column (cols a) us" "list_all (col_wf cmp (adim a ! 0)) us"
        by blast
      have "a' = a\<lparr>cols := us\<rparr>" using assms(2) ad ne app Inl us(1) False by (auto simp: array_append_def split: if_splits)
      with array_wf_same_cols [OF assms(1) us(2)] us(2,3) ne show ?thesis by (simp add: nrows_def)
    next
      case (Inr off)
      from append_names_total [OF assms(1) ne, of "elems ad ! 0"] obtain nm where
        "std_at (anames a) 0 = Inr (anames a ! 0)" "addafter_dn (dname_of_size (elems ad ! 0)) (anames a ! 0) = Inr nm" by blast
      with assms(2,3) ad ne app Inr False show ?thesis
        by (auto simp: array_append_def dim_at_def split: if_splits)
    qed
  qed
qed

section \<open>Appending a serialised array\<close>

definition encodable :: "'a flat \<Rightarrow> ('a \<Rightarrow> bool) \<Rightarrow> 'a array \<Rightarrow> bool" where
  "encodable f valid b \<longleftrightarrow>
     list_all (\<lambda>u. typenumber u = tnum f \<and> list_all valid (elems u) \<and> getBufferSize f u < 2 ^ 64) (cols b) \<and>
     list_all (\<lambda>n. n < 2 ^ 64) (adim b) \<and> length (adim b) < 2 ^ 60"

lemma encodableD:
  assumes "encodable f valid b"
  shows "list_all (\<lambda>u. typenumber u = tnum f \<and> list_all valid (elems u) \<and> getBufferSize f u < 2 ^ 64) (cols b)"
    "list_all (\<lambda>n. n < 2 ^ 64) (adim b)" "length (adim b) < 2 ^ 60"
  using assms by (simp_all add: encodable_def)

text \<open>One column of a buffer appended to one column of the array.\<close>

definition joined :: "('a \<Rightarrow> 'a \<Rightarrow> bool) \<Rightarrow> 'a vec \<Rightarrow> 'a vec \<Rightarrow> 'a vec \<Rightarrow> bool" where
  "joined cmp v u w \<longleftrightarrow> elems w = elems v @ elems u \<and> alloc w \<noteq> NullAlloc \<and> vec_inv cmp w \<and>
     (ordered w \<longleftrightarrow> ordered v \<and> (elems u \<noteq> [] \<longrightarrow> ordered u \<and> (elems v \<noteq> [] \<longrightarrow> cmp (last (elems v)) (hd (elems u)))))"

lemma append_column:
  assumes "flat_type f valid" "asymp cmp" "typenumber u = tnum f \<and> list_all valid (elems u) \<and> getBufferSize f u < 2 ^ 64"
    "col_wf cmp n v" "col_wf cmp m u"
  shows "\<exists>w. vec_append f cmp junk (to_buffer f u @ rest) v = Inr (w, length (to_buffer f u)) \<and> joined cmp v u w"
proof -
  have al: "alloc v \<noteq> NullAlloc" using assms(4) by (simp add: col_wf_def)
  from flat_type.append_to_buffer [OF assms(1) _ _ _ al, of u cmp junk rest] assms(3) obtain w where
    w: "vec_append f cmp junk (to_buffer f u @ rest) v = Inr (w, getBufferSize f u)" "elems w = elems v @ elems u" "alloc w = alloc v"
      "ordered w \<longleftrightarrow> ordered v \<and> (elems u \<noteq> [] \<longrightarrow> ordered u \<and> (elems v \<noteq> [] \<longrightarrow> cmp (last (elems v)) (hd (elems u))))"
    by blast
  have inv: "vec_inv cmp v" "vec_inv cmp u" using assms(4,5) by (simp_all add: col_wf_def)
  have "vec_inv cmp w" by (rule increasing_append [OF assms(2) inv w(2)]) (simp add: w(4))
  with w al show ?thesis by (simp add: joined_def flat_type.to_buffer_length [OF assms(1)])
qed

lemma append_cols_ok:
  assumes ft: "flat_type f valid" and asym: "asymp cmp"
  shows "list_all (\<lambda>u. typenumber u = tnum f \<and> list_all valid (elems u) \<and> getBufferSize f u < 2 ^ 64) us \<Longrightarrow>
    length vs = length us \<Longrightarrow> list_all (col_wf cmp n) vs \<Longrightarrow> list_all (col_wf cmp m) us \<Longrightarrow>
    \<exists>ws. append_cols f cmp junk (pre @ concat (map (to_buffer f) us) @ rest) (length pre) vs =
        (ws, Inr (length pre + length (concat (map (to_buffer f) us)))) \<and>
      length ws = length vs \<and> (\<forall>k<length vs. joined cmp (vs ! k) (us ! k) (ws ! k))"
proof (induction us arbitrary: vs pre)
  case Nil
  then show ?case by simp
next
  case (Cons u us)
  from Cons.prems(2) obtain v vs' where vs: "vs = v # vs'" "length vs' = length us" by (cases vs) auto
  from append_column [OF ft asym, of u n v m junk "concat (map (to_buffer f) us) @ rest"] Cons.prems vs obtain w where
    w: "vec_append f cmp junk (to_buffer f u @ concat (map (to_buffer f) us) @ rest) v = Inr (w, length (to_buffer f u))"
      "joined cmp v u w" by auto
  from Cons.IH [OF _ vs(2), of "pre @ to_buffer f u"] Cons.prems vs obtain ws where
    ws: "append_cols f cmp junk ((pre @ to_buffer f u) @ concat (map (to_buffer f) us) @ rest) (length (pre @ to_buffer f u)) vs' =
        (ws, Inr (length (pre @ to_buffer f u) + length (concat (map (to_buffer f) us))))"
      "length ws = length vs'" "\<forall>k<length vs'. joined cmp (vs' ! k) (us ! k) (ws ! k)" by auto
  from w ws vs(1) show ?case by (intro exI [of _ "w # ws"]) (simp add: nth_Cons split: nat.split)
qed

lemma checkdims_same: "checkdims (n # ds) (m # ds) 0"
  by (auto simp: checkdims_def Let_def list_all_iff nth_Cons split: nat.splits)

lemma array_wf_grown:
  assumes wf: "array_wf cmp a" "adim a = n # ds" and ws: "length ws = prod_list ds" "list_all (col_wf cmp (n + m)) ws"
    and nm: "dname_wf nm" "map_ok nm" "dsz nm = n + m" and size: "prod_list ds * (n + m) \<le> SIZE_MAX"
  shows "array_wf cmp (a\<lparr>cols := ws, anames := (anames a)[0 := nm], adim := (n + m) # ds\<rparr>)"
proof -
  obtain nm0 nms where "anames a = nm0 # nms" using array_wfD(3) [OF wf(1)] wf(2) by (cases "anames a") auto
  with assms show ?thesis by (simp add: array_wf_def nrows_def ncols_of_def names_wf_def)
qed

lemma array_append_ok:
  assumes ft: "flat_type f valid" and asym: "asymp cmp" and wf: "array_wf cmp a" "array_wf cmp b" and enc: "encodable f valid b"
    and dims: "adim a = n # ds" "adim b = m # ds" and size: "prod_list ds * (n + m) \<le> SIZE_MAX"
  shows "\<exists>a'. array_append f cmp junk (array_to_buffer f flag b @ rest) a = (a', Inr (length (array_to_buffer f flag b))) \<and>
    array_wf cmp a' \<and> adim a' = (n + m) # ds \<and> tl (anames a') = tl (anames a) \<and>
    labels (anames a' ! 0) = labels (anames a ! 0) @ replicate m '''' \<and>
    (\<forall>k<prod_list ds. joined cmp (cols a ! k) (cols b ! k) (cols a' ! k))"
proof -
  let ?dv = "dim_vec flag (adim b)"
  let ?buf = "array_to_buffer f flag b @ rest"
  have lens: "length (cols a) = prod_list ds" "length (cols b) = prod_list ds"
    using array_wfD(1) [OF wf(1)] array_wfD(1) [OF wf(2)] dims by (simp_all add: ncols_of_def)
  have dvl: "length (to_buffer idx_flat ?dv) = sizeof_RawVector + 8 * vsize ?dv"
    unfolding idx_codec.to_buffer_length getBufferSize_def by (simp add: idx_flat_def)
  obtain ad where ad: "vec_of_buffer idx_flat ?buf = Inr ad" "elems ad = adim b"
    using idx_codec.of_buffer_to_buffer [of ?dv "concat (map (to_buffer f) (cols b)) @ rest"] encodableD(2,3) [OF enc]
    by (auto simp: array_to_buffer_def dim_vec_def)
  have cw: "list_all (col_wf cmp n) (cols a)" "list_all (col_wf cmp m) (cols b)"
    using wf dims by (simp_all add: array_wf_def nrows_def)
  from append_cols_ok [OF ft asym encodableD(1) [OF enc] _ cw, of junk "to_buffer idx_flat ?dv" rest] lens obtain ws where
    ws: "append_cols f cmp junk ?buf (sizeof_RawVector + 8 * vsize ad) (cols a) = (ws, Inr (length (array_to_buffer f flag b)))"
      "length ws = prod_list ds" "\<forall>k<prod_list ds. joined cmp (cols a ! k) (cols b ! k) (ws ! k)"
    using dvl ad(2) by (auto simp: array_to_buffer_def dim_vec_def)
  from append_names_total [OF wf(1), of m] dims obtain nm where
    nm: "std_at (anames a) 0 = Inr (anames a ! 0)" "addafter_dn (dname_of_size m) (anames a ! 0) = Inr nm" "dname_wf nm" "map_ok nm"
      "dsz nm = n + m" "labels nm = labels (anames a ! 0) @ replicate m ''''" by auto
  let ?a' = "a\<lparr>cols := ws, anames := (anames a)[0 := nm], adim := (n + m) # ds\<rparr>"
  have names: "anames a \<noteq> []" using array_wfD(3) [OF wf(1)] dims by auto
  have "array_append f cmp junk ?buf a = (?a', Inr (length (array_to_buffer f flag b)))"
    using ad ws(1) nm(1,2) dims checkdims_same by (simp add: array_append_def dim_at_def)
  moreover have "list_all (col_wf cmp (n + m)) ws"
    using ws(2,3) cw lens by (simp add: list_all_length joined_def col_wf_def)
  then have "array_wf cmp ?a'" by (rule array_wf_grown [OF wf(1) dims(1) ws(2) _ nm(3-5) size])
  moreover have "tl ((anames a)[0 := nm]) = tl (anames a)" by (cases "anames a") simp_all
  ultimately show ?thesis using ws(3) nm(6) names by auto
qed

section \<open>Appending rows given as one vector\<close>

lemma append_run:
  assumes "i < length vs" "j + length ys = n" "ys \<noteq> []"
  shows "append_rows cmp n (ys @ es) i j vs =
    bindR (foldR (push_back cmp) ys (vs ! i)) (\<lambda>w. append_rows cmp n es (i + 1) 0 (vs[i := w]))"
  using assms
proof (induction ys arbitrary: j vs)
  case (Cons y ys)
  show ?case
  proof (cases "push_back cmp y (vs ! i)")
    case (Inl e)
    with Cons.prems show ?thesis by (simp add: std_at_def)
  next
    case (Inr w)
    show ?thesis
    proof (cases "ys = []")
      case True
      with Cons.prems Inr show ?thesis by (simp add: std_at_def)
    next
      case False
      with Cons.IH [of "vs[i := w]" "j + 1"] Cons.prems Inr show ?thesis by (auto simp: std_at_def)
    qed
  qed
qed simp

text \<open>Pushing a run of elements on a column.\<close>

lemma push_run:
  assumes "alloc v \<noteq> NullAlloc" "asymp cmp" "vec_inv cmp v"
  shows "\<exists>w. foldR (push_back cmp) ys v = Inr w \<and> elems w = elems v @ ys \<and> alloc w \<noteq> NullAlloc \<and> vec_inv cmp w"
  using assms
proof (induction ys arbitrary: v)
  case (Cons y ys)
  obtain w where w: "push_back cmp y v = Inr w" "alloc w = alloc v" using push_back_total [OF Cons.prems(1)] by blast
  have "vec_inv cmp w"
    using w(1) Cons.prems(3) asympD [OF Cons.prems(2)]
    by (cases "elems v = []") (auto simp: push_back_def Let_def vec_inv_def successively_append_iff last_conv_nth split: if_splits)
  with Cons.IH [of w] Cons.prems w push_back_elems [OF w(1)] show ?case by auto
qed simp

lemma append_columns:
  assumes "asymp cmp" "0 < n" "list_all (\<lambda>y. length y = n) yss" "i + length yss = length vs" "list_all (col_wf cmp m) (drop i vs)"
  shows "\<exists>ws. append_rows cmp n (concat yss) i 0 vs = Inr (take i vs @ ws) \<and> length ws = length yss \<and> list_all (col_wf cmp (m + n)) ws \<and>
    (\<forall>k<length yss. elems (ws ! k) = elems (vs ! (i + k)) @ yss ! k)"
  using assms(3-5)
proof (induction yss arbitrary: i vs)
  case Nil
  then show ?case by simp
next
  case (Cons y yss)
  then have i: "i < length vs" by simp
  have d: "drop i vs = vs ! i # drop (Suc i) vs" using i by (simp add: Cons_nth_drop_Suc)
  have v: "col_wf cmp m (vs ! i)" using Cons.prems(3) d by simp
  obtain w where w: "foldR (push_back cmp) y (vs ! i) = Inr w" "elems w = elems (vs ! i) @ y" "alloc w \<noteq> NullAlloc" "vec_inv cmp w"
    using push_run [of "vs ! i" cmp y] v assms(1) by (auto simp: col_wf_def)
  have "append_rows cmp n (concat (y # yss)) i 0 vs = append_rows cmp n (concat yss) (i + 1) 0 (vs[i := w])"
    using append_run [OF i, of 0 y n cmp "concat yss"] Cons.prems(1) assms(2) w(1) by auto
  moreover from Cons.IH [of "i + 1" "vs[i := w]"] Cons.prems d obtain ws where
    ws: "append_rows cmp n (concat yss) (i + 1) 0 (vs[i := w]) = Inr (take (i + 1) (vs[i := w]) @ ws)" "length ws = length yss"
      "list_all (col_wf cmp (m + n)) ws" "\<forall>k<length yss. elems (ws ! k) = elems (vs[i := w] ! (i + 1 + k)) @ yss ! k" by auto
  moreover have "take (i + 1) (vs[i := w]) @ ws = take i vs @ w # ws" using i by (simp add: take_Suc_update)
  moreover have "col_wf cmp (m + n) w" using w v Cons.prems(1) by (simp add: col_wf_def)
  ultimately show ?case using w(2) by (intro exI [of _ "w # ws"]) (auto simp: nth_Cons split: nat.split)
qed

lemma array_appendVector_ok:
  assumes ft: "flat_type f valid" and asym: "asymp cmp" and wf: "array_wf cmp a" "adim a = n # ds" "cols a \<noteq> []"
    and u: "typenumber u < 2 ^ 64" "vsize u < 2 ^ 64" "list_all valid (elems u)" "vsize u = prod_list ds * m"
    and size: "prod_list ds * (n + m) \<le> SIZE_MAX"
  shows "\<exists>a'. array_appendVector f cmp (to_buffer f u @ rest) a = Inr a' \<and> array_wf cmp a' \<and> adim a' = (n + m) # ds \<and>
    (\<forall>k<prod_list ds. elems (cols a' ! k) = elems (cols a ! k) @ take m (drop (k * m) (elems u)))"
proof -
  define yss where "yss = map (\<lambda>k. take m (drop (k * m) (elems u))) [0..<prod_list ds]"
  have c: "length (cols a) = prod_list ds" using array_wfD(1) [OF wf(1)] wf(2) by (simp add: ncols_of_def)
  have pos: "0 < prod_list ds" using wf(3) by (simp flip: c)
  obtain data where data: "vec_of_buffer f (to_buffer f u @ rest) = Inr data" "elems data = elems u"
    using flat_type.of_buffer_to_buffer [OF ft u(1-3)] by fastforce
  have cw: "list_all (col_wf cmp n) (cols a)" using wf by (simp add: array_wf_def nrows_def)
  have "\<exists>ws. append_rows cmp m (elems u) 0 0 (cols a) = Inr ws \<and> length ws = prod_list ds \<and> list_all (col_wf cmp (n + m)) ws \<and>
      (\<forall>k<prod_list ds. elems (ws ! k) = elems (cols a ! k) @ take m (drop (k * m) (elems u)))"
  proof (cases "m = 0")
    case True
    with u(4) cw c show ?thesis by simp
  next
    case False
    have "concat yss = elems u" using concat_slices u(4) by (simp add: yss_def)
    moreover have "list_all (\<lambda>y. length y = m) yss" using slice_length [OF _ u(4)] by (simp add: yss_def list_all_length)
    ultimately show ?thesis
      using append_columns [OF asym, of m yss 0 "cols a" n] False cw c by (auto simp: yss_def)
  qed
  then obtain ws where ws: "append_rows cmp m (elems u) 0 0 (cols a) = Inr ws" "length ws = prod_list ds" "list_all (col_wf cmp (n + m)) ws"
    "\<forall>k<prod_list ds. elems (ws ! k) = elems (cols a ! k) @ take m (drop (k * m) (elems u))" by blast
  from append_names_total [OF wf(1), of m] wf(2) obtain nm where
    nm: "std_at (anames a) 0 = Inr (anames a ! 0)" "addafter_dn (dname_of_size m) (anames a ! 0) = Inr nm" "dname_wf nm" "map_ok nm" "dsz nm = n + m"
    by auto
  have "array_appendVector f cmp (to_buffer f u @ rest) a = Inr (a\<lparr>cols := ws, anames := (anames a)[0 := nm], adim := (n + m) # ds\<rparr>)"
    using data ws(1) nm(1,2) wf(2) c pos u(4) by (simp add: array_appendVector_def Let_def)
  with array_wf_grown [OF wf(1,2) ws(2,3) nm(3-5) size] ws(4) show ?thesis by auto
qed

section \<open>Properties\<close>

text \<open>C4. Appending from a buffer is all or nothing for the data: whatever the buffer holds, if \<open>append\<close> throws, the array
  still satisfies its invariant, has the same extents, names and elements, and no column gains the flag; this is so even
  when some columns had been extended before the exception.\<close>

theorem array_append_atomic:
  assumes "array_wf cmp a" "array_append f cmp junk buf a = (a', Inl e)" "e \<noteq> UB"
  shows "array_wf cmp a' \<and> adim a' = adim a \<and> anames a' = anames a \<and> content a' = content a \<and> (isOrdered a' \<longrightarrow> isOrdered a)"
proof -
  note r = array_append_error [OF assms]
  then have "list_all2 same_column (cols a) (cols a')" by blast
  then have "isOrdered a' \<longrightarrow> isOrdered a"
    unfolding isOrdered_def by (induction rule: list_all2_induct) (auto simp: same_column_def)
  with r show ?thesis by blast
qed

definition wire_example :: "64 word array" where
  "wire_example =
     \<lparr>adim = [1, 2],
      cols = [\<lparr>typenumber = 0, elems = [5], ordered = True, capacity = 1024, alloc = MemAlloc\<rparr>,
              \<lparr>typenumber = 0, elems = [6], ordered = True, capacity = 1024, alloc = MemAlloc\<rparr>],
      anames = [unnamed MemAlloc 1, unnamed MemAlloc 2]\<rparr>"

lemma wire_example_wf: "array_wf (<) wire_example"
  by (simp add: array_wf_def wire_example_def ncols_of_def nrows_def col_wf_def vec_inv_def names_wf_def unnamed_wf SIZE_MAX_def)

text \<open>The second column is missing: the first one is extended and then cut back.\<close>

abbreviation cut_buffer :: "byte list" where
  "cut_buffer \<equiv> to_buffer idx_flat (dim_vec False [1, 2]) @ to_buffer double_flat (cols wire_example ! 0)"

lemma cut_buffer_error:
  "snd (array_append double_flat (<) (\<lambda>_. 0) cut_buffer wire_example) = Inl (OutOfRange ''invalid append buffer: too short'')"
proof -
  let ?u = "cols wire_example ! 0" and ?v = "cols wire_example ! 1"
  let ?d = "to_buffer idx_flat (dim_vec False [1, 2])" and ?c = "to_buffer double_flat (cols wire_example ! 0)"
  have lens: "length ?d = 40" "length ?c = 32"
    unfolding idx_codec.to_buffer_length double_codec.to_buffer_length getBufferSize_def
    by (simp_all add: idx_flat_def double_flat_def dim_vec_def wire_example_def sizeof_RawVector_def)
  obtain ad where ad: "vec_of_buffer idx_flat cut_buffer = Inr ad" "elems ad = [1, 2]"
    using idx_codec.of_buffer_to_buffer [of "dim_vec False [1, 2]" ?c] by (auto simp: dim_vec_def)
  have cw: "col_wf (<) 1 ?u" using wire_example_wf by (simp add: array_wf_def nrows_def wire_example_def)
  have "getBufferSize double_flat ?u = 32" using lens(2) double_codec.to_buffer_length by metis
  then obtain w where "vec_append double_flat (<) (\<lambda>_. 0) (to_buffer double_flat ?u @ []) ?u = Inr (w, length (to_buffer double_flat ?u))"
    using append_column [OF double_codec.flat_type_axioms _ _ cw cw, of "\<lambda>_. 0" "[]"]
    by (auto simp: double_flat_def wire_example_def)
  then have w: "vec_append double_flat (<) (\<lambda>_. 0) (drop 40 cut_buffer) ?u = Inr (w, 32)" using lens by simp
  have "vec_append double_flat (<) (\<lambda>_. 0) (drop 72 cut_buffer) ?v = Inl (OutOfRange ''invalid append buffer: too short'')"
    using lens by (simp add: vec_append_def sizeof_RawVector_def)
  with w lens have ac: "append_cols double_flat (<) (\<lambda>_. 0) cut_buffer 40 [?u, ?v] = ([w, ?v], Inl (OutOfRange ''invalid append buffer: too short''))"
    by simp
  have "cols wire_example = [?u, ?v]" "adim wire_example = [1, 2]" by (simp_all add: wire_example_def)
  moreover have "\<exists>us. rollback_cols (\<lambda>_. 0) 1 [w, ?v] = (us, Inr ())"
  proof -
    have "list_all2 extends [?u, ?v] [w, ?v]" using vec_append_extends [OF w] by simp
    moreover have "list_all (col_wf (<) 1) [?u, ?v]" using wire_example_wf by (simp add: array_wf_def nrows_def wire_example_def)
    ultimately show ?thesis using rollback_cols_ok by blast
  qed
  moreover have "checkdims [1, 2] [1, 2] 0" by (rule checkdims_same)
  ultimately show ?thesis using ad ac by (auto simp: array_append_def sizeof_RawVector_def)
qed

theorem array_append_atomic_witness:
  "content (fst (array_append double_flat (<) (\<lambda>_. 0) cut_buffer wire_example)) = [5, 6]"
proof -
  obtain a' r where a': "array_append double_flat (<) (\<lambda>_. 0) cut_buffer wire_example = (a', r)" by (rule prod.exhaust)
  with cut_buffer_error have "r = Inl (OutOfRange ''invalid append buffer: too short'')" by simp
  from array_append_atomic [OF wire_example_wf a' [unfolded this]] a' show ?thesis by (simp add: content_def wire_example_def)
qed

text \<open>Sending an array and appending it: the serialised form of a well-formed array with the same extents past the
  first is read completely, the rows are added to every column in order and to the first extent, the new rows have empty
  names, and the invariant holds afterwards, flags included.\<close>

theorem array_append_roundtrip:
  assumes "array_wf cmp a" "array_wf cmp b" "asymp cmp" "encodable double_flat (\<lambda>_. True) b"
    "adim a = n # ds" "adim b = m # ds" "prod_list ds * (n + m) \<le> SIZE_MAX"
  shows "\<exists>a'. array_append double_flat cmp junk (array_to_buffer double_flat flag b @ rest) a =
      (a', Inr (length (array_to_buffer double_flat flag b))) \<and>
    array_wf cmp a' \<and> adim a' = (n + m) # ds \<and> labels (anames a' ! 0) = labels (anames a ! 0) @ replicate m '''' \<and>
    (\<forall>k<prod_list ds. elems (cols a' ! k) = elems (cols a ! k) @ elems (cols b ! k))"
  using array_append_ok [OF double_codec.flat_type_axioms assms(3,1,2,4-7), of junk flag rest] by (auto simp: joined_def)

theorem array_append_roundtrip_witness:
  "\<exists>a'. array_append double_flat (<) (\<lambda>_. 0) (array_to_buffer double_flat True wire_example @ [7]) wire_example =
      (a', Inr (length (array_to_buffer double_flat True wire_example))) \<and> adim a' = [2, 2] \<and> elems (cols a' ! 1) = [6, 6]"
proof -
  have "encodable double_flat (\<lambda>_. True) wire_example"
    by (simp add: encodable_def wire_example_def double_flat_def getBufferSize_def sizeof_RawVector_def)
  from array_append_roundtrip [OF wire_example_wf wire_example_wf _ this, of 1 "[2]" 1 "\<lambda>_. 0" True "[7]"] obtain a' where
    "array_append double_flat (<) (\<lambda>_. 0) (array_to_buffer double_flat True wire_example @ [7]) wire_example =
      (a', Inr (length (array_to_buffer double_flat True wire_example)))" "adim a' = [1 + 1, 2]"
    "\<forall>k<prod_list [2]. elems (cols a' ! k) = elems (cols wire_example ! k) @ elems (cols wire_example ! k)"
    by (auto simp: wire_example_def SIZE_MAX_def)
  then show ?thesis by (simp add: wire_example_def)
qed

text \<open>The first extent in the buffer is not compared with the lengths of the columns: a buffer that announces five rows
  and holds one is accepted, and the array then disagrees with its columns.\<close>

lemma append_trusts_extent:
  "\<exists>a' k. array_append double_flat (<) (\<lambda>_. 0)
       (to_buffer idx_flat (dim_vec False [5, 2]) @ concat (map (to_buffer double_flat) (cols wire_example))) wire_example = (a', Inr k) \<and>
     adim a' = [6, 2] \<and> vsize (cols a' ! 0) = 2"
proof -
  let ?pre = "to_buffer idx_flat (dim_vec False [5, 2])"
  let ?buf = "?pre @ concat (map (to_buffer double_flat) (cols wire_example))"
  have enc: "encodable double_flat (\<lambda>_. True) wire_example"
    by (simp add: encodable_def wire_example_def double_flat_def getBufferSize_def sizeof_RawVector_def)
  have cw: "list_all (col_wf (<) 1) (cols wire_example)" using wire_example_wf by (simp add: array_wf_def nrows_def wire_example_def)
  have len: "length ?pre = 40"
    unfolding idx_codec.to_buffer_length getBufferSize_def by (simp add: idx_flat_def dim_vec_def sizeof_RawVector_def)
  obtain ad where ad: "vec_of_buffer idx_flat ?buf = Inr ad" "elems ad = [5, 2]"
    using idx_codec.of_buffer_to_buffer [of "dim_vec False [5, 2]" "concat (map (to_buffer double_flat) (cols wire_example))"] by (auto simp: dim_vec_def)
  from append_cols_ok [OF double_codec.flat_type_axioms _ encodableD(1) [OF enc] refl cw cw, of "\<lambda>_. 0" ?pre "[]"] len obtain ws k where
    ws: "append_cols double_flat (<) (\<lambda>_. 0) ?buf 40 (cols wire_example) = (ws, Inr k)" "length ws = 2"
      "joined (<) (cols wire_example ! 0) (cols wire_example ! 0) (ws ! 0)" by (auto simp: wire_example_def)
  from append_names_total [OF wire_example_wf, of 5] obtain nm where
    "std_at (anames wire_example) 0 = Inr (anames wire_example ! 0)" "addafter_dn (dname_of_size 5) (anames wire_example ! 0) = Inr nm"
    by (auto simp: wire_example_def)
  with ad ws checkdims_same [of 1 "[2]" 5] show ?thesis
    by (auto simp: array_append_def sizeof_RawVector_def dim_at_def joined_def wire_example_def)
qed

text \<open>Appending rows given as one vector of doubles, column after column: the buffer of a vector whose length is a
  multiple of the number of columns gives every column its slice, in order, and the first extent grows by the number of
  rows; any other length is refused.\<close>

theorem array_appendVector_correct:
  assumes "array_wf cmp a" "asymp cmp" "adim a = n # ds" "cols a \<noteq> []" "typenumber u < 2 ^ 64" "vsize u < 2 ^ 64"
    "prod_list ds * n + vsize u \<le> SIZE_MAX"
  shows "if vsize u mod prod_list ds = 0
    then \<exists>a'. array_appendVector double_flat cmp (to_buffer double_flat u @ rest) a = Inr a' \<and> array_wf cmp a' \<and>
      adim a' = (n + vsize u div prod_list ds) # ds \<and>
      (\<forall>k<prod_list ds. elems (cols a' ! k) =
         elems (cols a ! k) @ take (vsize u div prod_list ds) (drop (k * (vsize u div prod_list ds)) (elems u)))
    else array_appendVector double_flat cmp (to_buffer double_flat u @ rest) a = Inl (OutOfRange ''appendVector: incorrect vector size'')"
proof (cases "vsize u mod prod_list ds = 0")
  case True
  then have m: "vsize u = prod_list ds * (vsize u div prod_list ds)" by (metis mod_0_imp_dvd dvd_mult_div_cancel)
  have "prod_list ds * (n + vsize u div prod_list ds) \<le> SIZE_MAX" using assms(7) m by (simp add: distrib_left)
  from array_appendVector_ok [OF double_codec.flat_type_axioms assms(2,1,3,4,5,6) _ m this, of rest] True show ?thesis by (simp add: list_all_iff)
next
  case False
  have "length (cols a) = prod_list ds" using array_wfD(1) [OF assms(1)] assms(3) by (simp add: ncols_of_def)
  moreover from this have "0 < prod_list ds" using assms(4) by (metis length_greater_0_conv)
  moreover obtain data where "vec_of_buffer double_flat (to_buffer double_flat u @ rest) = Inr data" "elems data = elems u"
    using double_codec.of_buffer_to_buffer [OF assms(5,6)] by (fastforce simp: list_all_iff)
  ultimately show ?thesis using False assms(4) by (simp add: array_appendVector_def Let_def)
qed

theorem array_appendVector_correct_witness:
  "\<exists>a'. array_appendVector double_flat (<) (to_buffer double_flat doubles_example) wire_example = Inr a' \<and>
     adim a' = [2, 2] \<and> elems (cols a' ! 1) = [6, 6]"
proof -
  have "cols wire_example \<noteq> []" by (simp add: wire_example_def)
  from array_appendVector_correct [OF wire_example_wf _ _ this, of 1 "[2]" doubles_example "[]"] obtain a' where
    "array_appendVector double_flat (<) (to_buffer double_flat doubles_example) wire_example = Inr a'" "adim a' = [1 + 1, 2]"
    "\<forall>k<prod_list [2]. elems (cols a' ! k) = elems (cols wire_example ! k) @ take 1 (drop (k * 1) [5, 6])"
    by (auto simp: wire_example_def doubles_example_def SIZE_MAX_def)
  then show ?thesis by (simp add: wire_example_def)
qed

end
