(* ===== verification/Zts.thy ===== *)
theory Zts
  imports Array_Append
begin

text \<open>
  \<open>src/src/zts.cpp\<close>, \<open>src/src/zts.hpp\<close>: time series. A \<open>zts\<close> is an array of doubles and an index of times, one per row, in
  ascending order. Both are held by \<open>shared_ptr\<close> in the source and by value here. The operations that a message can make
  fail half-way (\<open>append\<close>, \<open>appendVector\<close>) return the series after the call beside the exception. The comparison of
  doubles is the argument \<open>cmp\<close>, their initial value \<open>init\<close>; uninitialised cells are \<open>junk\<close>.
\<close>

section \<open>The series and its construction\<close>

record zts =
  zarr :: "64 word array"
  zidx :: "int array"

definition checkDims :: "64 word array \<Rightarrow> int array \<Rightarrow> unit res" where
  "checkDims a idx =
     (if length (adim idx) \<noteq> 1 then Inl (RangeError ''zts index must be a vector'')
      else if asize idx \<noteq> (if length (adim a) > 0 then adim a ! 0 else asize idx)
      then Inl (RangeError ''mismatched dimensions for index and data'')
      else Inr ())"

text \<open>\<open>drop\<close> removes the extents of size 1 after the first one; on a null array its iterators start before the vector.\<close>

definition array_drop :: "'a array \<Rightarrow> 'a array res" where
  "array_drop a =
     (if length (adim a) = 0 then Inl UB
      else
        let keep = filter (\<lambda>j. j = 0 \<or> adim a ! j \<noteq> 1) [0..<length (adim a)]
        in Inr (a\<lparr>adim := map (\<lambda>j. adim a ! j) keep, anames := map (\<lambda>j. anames a ! j) keep\<rparr>))"

text \<open>The copy constructor of arrays, with another allocator.\<close>

definition array_copy :: "allocator \<Rightarrow> 'a array \<Rightarrow> 'a array res" where
  "array_copy al a =
     bindR (foldR (\<lambda>v vs. bindR (vec_copy v al) (\<lambda>w. Inr (vs @ [w]))) (cols a) []) (\<lambda>vs.
     bindR (foldR (\<lambda>j ns. bindR (dim_at (adim a) j) (\<lambda>d. bindR (vec_copy (dnames (anames a ! j)) al)
              (\<lambda>nv. bindR (mk_dname d nv) (\<lambda>n. Inr (ns @ [n]))))) [0..<length (anames a)] []) (\<lambda>ns.
       Inr \<lparr>adim = adim a, cols = vs, anames = ns\<rparr>))"

definition zts_rsv :: "nat list \<Rightarrow> string vec list \<Rightarrow> zts res" where
  "zts_rsv d cnames =
     bindR (array_rsv MemAlloc 0 d cnames) (\<lambda>a.
     bindR (dim_at d 0) (\<lambda>d0. bindR (array_rsv MemAlloc 2 [d0] []) (\<lambda>i0.
     bindR (array_drop i0) (\<lambda>i. bindR (checkDims a i) (\<lambda>_. Inr \<lparr>zarr = a, zidx = i\<rparr>)))))"

definition checked_zts :: "64 word array \<Rightarrow> int array \<Rightarrow> zts res" where
  "checked_zts a i0 =
     bindR (array_drop i0) (\<lambda>i. bindR (checkDims a i) (\<lambda>_.
       if \<not> isOrdered i then Inl (RangeError ''index is not in ascending order'') else Inr \<lparr>zarr = a, zidx = i\<rparr>))"

definition mk_zts :: "(64 word \<Rightarrow> 64 word \<Rightarrow> bool) \<Rightarrow> 64 word \<Rightarrow> nat list \<Rightarrow> int list \<Rightarrow> 64 word list \<Rightarrow> string vec list \<Rightarrow> zts res" where
  "mk_zts cmp init d ts vs cnames =
     bindR (mk_array FlexAlloc cmp 0 init d vs cnames) (\<lambda>a.
     bindR (mk_array FlexAlloc (<) 2 0 [length ts] ts []) (\<lambda>i. checked_zts a i))"

definition zts_of_arrays :: "int array \<Rightarrow> 64 word array \<Rightarrow> zts res" where
  "zts_of_arrays i a =
     bindR (array_copy FlexAlloc a) (\<lambda>a'. bindR (array_copy FlexAlloc i) (\<lambda>i'. checked_zts a' i'))"

definition zts_copy :: "zts \<Rightarrow> zts res" where
  "zts_copy z =
     bindR (array_copy FlexAlloc (zarr z)) (\<lambda>a. bindR (array_copy FlexAlloc (zidx z)) (\<lambda>i0.
     bindR (array_drop i0) (\<lambda>i. bindR (checkDims a i) (\<lambda>_. Inr \<lparr>zarr = a, zidx = i\<rparr>))))"

definition zts_eq :: "zts \<Rightarrow> zts \<Rightarrow> bool" where
  "zts_eq z o' \<longleftrightarrow> array_eq (zidx z) (zidx o') \<and> array_eq (zarr z) (zarr o')"

section \<open>Messages\<close>

definition zts_to_buffer :: "bool \<Rightarrow> bool \<Rightarrow> zts \<Rightarrow> byte list" where
  "zts_to_buffer fi fa z = array_to_buffer dtime_flat fi (zidx z) @ array_to_buffer double_flat fa (zarr z)"

definition idx_resize :: "(nat \<Rightarrow> int) \<Rightarrow> nat \<Rightarrow> nat \<Rightarrow> int array \<Rightarrow> int array res" where
  "idx_resize junk sz from i = array_resize (<) 2 0 junk 0 sz from i"

text \<open>Cutting the index back to the rows of the array, and what follows it, before an exception is thrown (on);
  the exception that leaves the handler is returned.\<close>

definition restore_idx :: "(nat \<Rightarrow> int) \<Rightarrow> (zts \<Rightarrow> zts) \<Rightarrow> exn \<Rightarrow> zts \<Rightarrow> zts \<times> exn" where
  "restore_idx junk after e z =
     (case bindR (getdim (zarr z) 0) (\<lambda>n. idx_resize junk n 0 (zidx z)) of
        Inl e' \<Rightarrow> (z, e')
      | Inr i \<Rightarrow> (after (z\<lparr>zidx := i\<rparr>), e))"

definition force_first :: "zts \<Rightarrow> zts" where
  "force_first z = z\<lparr>zidx := (zidx z)\<lparr>cols := (cols (zidx z))[0 := forceOrdered (cols (zidx z) ! 0)]\<rparr>\<rparr>"

definition zts_append ::
  "(64 word \<Rightarrow> 64 word \<Rightarrow> bool) \<Rightarrow> (nat \<Rightarrow> int) \<Rightarrow> (nat \<Rightarrow> 64 word) \<Rightarrow> byte list \<Rightarrow> zts \<Rightarrow> zts \<times> nat res" where
  "zts_append cmp junkt junk buf z =
     (if length (adim (zarr z)) = 0 then (z, Inl (OutOfRange ''append on null zts not implemented''))
      else
        (case array_append dtime_flat (<) junkt buf (zidx z) of
           (i, Inl e) \<Rightarrow> (z\<lparr>zidx := i\<rparr>, Inl e)
         | (i, Inr off) \<Rightarrow>
             if \<not> isOrdered i then
               map_prod id Inl (restore_idx junkt force_first (RangeError ''index not ascending'') (z\<lparr>zidx := i\<rparr>))
             else
               (case array_append double_flat cmp junk (drop off buf) (zarr z) of
                  (a, Inr k) \<Rightarrow> (\<lparr>zarr = a, zidx = i\<rparr>, Inr k)
                | (a, Inl e) \<Rightarrow> map_prod id Inl (restore_idx junkt id e \<lparr>zarr = a, zidx = i\<rparr>))))"

text \<open>The times of \<open>appendVector\<close> are added one by one; the result \<open>False\<close> is the refusal of a time that is not after the last one.\<close>

fun add_times :: "int list \<Rightarrow> int array \<Rightarrow> (int array \<times> bool) res" where
  "add_times [] i = Inr (i, True)"
| "add_times (e # es) i =
     bindR (if asize i \<noteq> 0 then bindR (array_at i (asize i - 1)) (\<lambda>l. Inr (e \<le> l)) else Inr False) (\<lambda>bad.
       if bad then Inr (i, False)
       else bindR (array_concat1 (<) 2 0 e '''' i) (add_times es))"

definition zts_appendVector ::
  "(64 word \<Rightarrow> 64 word \<Rightarrow> bool) \<Rightarrow> (nat \<Rightarrow> int) \<Rightarrow> byte list \<Rightarrow> zts \<Rightarrow> zts \<times> unit res" where
  "zts_appendVector cmp junkt buf z =
     (if length (adim (zarr z)) = 0 then (z, Inl (OutOfRange ''append vector on null zts not implemented''))
      else
        (case vec_of_buffer dtime_flat buf of
           Inl e \<Rightarrow> (z, Inl e)
         | Inr iv \<Rightarrow>
             if vsize iv = 0 then (z, Inl (OutOfRange ''arr::zts::appendVector: time vector has size 0''))
             else
               (case add_times (elems iv) (zidx z) of
                  Inl e \<Rightarrow> (z, Inl e)
                | Inr (i, False) \<Rightarrow> map_prod id Inl (restore_idx junkt id (OutOfRange ''append index not ascending'') (z\<lparr>zidx := i\<rparr>))
                | Inr (i, True) \<Rightarrow>
                    let z1 = z\<lparr>zidx := i\<rparr>; rest = drop (sizeof_RawVector + vsize iv * 8) buf in
                    (case vec_of_buffer double_flat rest of
                       Inl e \<Rightarrow> (z1, Inl e)
                     | Inr data \<Rightarrow>
                         if vsize data mod vsize iv \<noteq> 0
                         then map_prod id Inl (restore_idx junkt id (OutOfRange ''mismatch between index and data'') z1)
                         else if ncols (zarr z) = 0 then (z1, Inl UB)
                         else if vsize data div ncols (zarr z) \<noteq> vsize iv
                         then map_prod id Inl (restore_idx junkt id (OutOfRange ''size mismatch between idx and array'') z1)
                         else
                           (case array_appendVector double_flat cmp rest (zarr z) of
                              Inl e \<Rightarrow> map_prod id Inl (restore_idx junkt id e z1)
                            | Inr a \<Rightarrow> (z1\<lparr>zarr := a\<rparr>, Inr ()))))))"

section \<open>Resizing and selection\<close>

text \<open>The dimension argument of \<open>resize\<close> is not used.\<close>

definition zts_resize ::
  "(64 word \<Rightarrow> 64 word \<Rightarrow> bool) \<Rightarrow> 64 word \<Rightarrow> (nat \<Rightarrow> int) \<Rightarrow> (nat \<Rightarrow> 64 word) \<Rightarrow> nat \<Rightarrow> nat \<Rightarrow> nat \<Rightarrow> zts \<Rightarrow> zts res" where
  "zts_resize cmp init junkt junk d sz from z =
     bindR (idx_resize junkt sz from (zidx z)) (\<lambda>i.
     bindR (array_resize cmp 0 init junk 0 sz from (zarr z)) (\<lambda>a. Inr \<lparr>zarr = a, zidx = i\<rparr>))"

definition zts_subsetRows :: "(64 word \<Rightarrow> 64 word \<Rightarrow> bool) \<Rightarrow> nat \<Rightarrow> nat \<Rightarrow> zts \<Rightarrow> zts res" where
  "zts_subsetRows cmp from to z =
     bindR (subsetRows (<) 2 from to False (zidx z)) (\<lambda>i.
     bindR (subsetRows cmp 0 from to False (zarr z)) (\<lambda>a. zts_of_arrays i a))"

definition zts_select :: "(64 word \<Rightarrow> 64 word \<Rightarrow> bool) \<Rightarrow> index list \<Rightarrow> bool \<Rightarrow> zts \<Rightarrow> zts res option" where
  "zts_select cmp i dropping z =
     (if length i \<noteq> length (adim (zarr z)) then Some (Inl (RangeError ''incorrect number of dimensions''))
      else
        (case bindR (std_at (cols (zidx z)) 0) (\<lambda>v. Inr (subset (<) (i ! 0)
                 \<lparr>typenumber = 2, elems = [], ordered = True, capacity = growCapacity 0, alloc = MemAlloc\<rparr> v)) of
           Inl e \<Rightarrow> Some (Inl e)
         | Inr None \<Rightarrow> None
         | Inr (Some (Inl e)) \<Rightarrow> Some (Inl e)
         | Inr (Some (Inr sidx)) \<Rightarrow>
             map_option (\<lambda>ra. bindR ra (\<lambda>a.
               bindR (mk_array MemAlloc (<) 2 0 [vsize sidx] (elems sidx) []) (\<lambda>t. zts_of_arrays t a)))
               (select_array cmp 0 i dropping 2 (zarr z))))"

definition zts_assign_array :: "(64 word \<Rightarrow> 64 word \<Rightarrow> bool) \<Rightarrow> ('u \<Rightarrow> 64 word) \<Rightarrow> index list \<Rightarrow> 'u array \<Rightarrow> zts \<Rightarrow> zts res option" where
  "zts_assign_array cmp conv i u z = map_option (\<lambda>r. bindR r (\<lambda>a. Inr (z\<lparr>zarr := a\<rparr>))) (assign_array cmp conv i u (zarr z))"

definition zts_assign_scalar :: "(64 word \<Rightarrow> 64 word \<Rightarrow> bool) \<Rightarrow> ('u \<Rightarrow> 64 word) \<Rightarrow> index list \<Rightarrow> 'u \<Rightarrow> zts \<Rightarrow> zts res option" where
  "zts_assign_scalar cmp conv i u z = map_option (\<lambda>r. bindR r (\<lambda>a. Inr (z\<lparr>zarr := a\<rparr>))) (assign_scalar cmp conv i u (zarr z))"

section \<open>The invariant of a series\<close>

definition zts_wf :: "(64 word \<Rightarrow> 64 word \<Rightarrow> bool) \<Rightarrow> zts \<Rightarrow> bool" where
  "zts_wf cmp z \<longleftrightarrow> array_wf (<) (zidx z) \<and> array_wf cmp (zarr z) \<and> adim (zarr z) \<noteq> [] \<and>
     adim (zidx z) = [nrows (zarr z)] \<and> isOrdered (zidx z)"

text \<open>What a reader of a series sees.\<close>

definition same_view :: "'a array \<Rightarrow> 'a array \<Rightarrow> bool" where
  "same_view a b \<longleftrightarrow> adim b = adim a \<and> content b = content a \<and> map labels (anames b) = map labels (anames a)"

definition same_series :: "zts \<Rightarrow> zts \<Rightarrow> bool" where
  "same_series z y \<longleftrightarrow> same_view (zidx z) (zidx y) \<and> same_view (zarr z) (zarr y)"

lemma same_view_refl [simp]: "same_view a a"
  by (simp add: same_view_def)

lemma zts_wfD:
  assumes "zts_wf cmp z"
  shows "array_wf (<) (zidx z)" "array_wf cmp (zarr z)" "adim (zarr z) = nrows (zarr z) # tl (adim (zarr z))"
    "adim (zidx z) = [nrows (zarr z)]" "cols (zidx z) = [cols (zidx z) ! 0]" "anames (zidx z) = [anames (zidx z) ! 0]"
    "ordered (cols (zidx z) ! 0)" "getdim (zarr z) 0 = Inr (nrows (zarr z))" "content (zidx z) = elems (cols (zidx z) ! 0)"
proof -
  show wf: "array_wf (<) (zidx z)" "array_wf cmp (zarr z)" and d: "adim (zidx z) = [nrows (zarr z)]"
    using assms by (simp_all add: zts_wf_def)
  show "adim (zarr z) = nrows (zarr z) # tl (adim (zarr z))" "getdim (zarr z) 0 = Inr (nrows (zarr z))"
    using assms by (auto simp: zts_wf_def nrows_def getdim_def hd_conv_nth [symmetric])
  have "length (cols (zidx z)) = 1" using array_wfD(1) [OF wf(1)] d by (simp add: ncols_of_def)
  then show c: "cols (zidx z) = [cols (zidx z) ! 0]" by (cases "cols (zidx z)") auto
  have "length (anames (zidx z)) = 1" using array_wfD(3) [OF wf(1)] d by simp
  then show "anames (zidx z) = [anames (zidx z) ! 0]" by (cases "anames (zidx z)") auto
  have "list_all ordered [cols (zidx z) ! 0]" using assms c by (metis zts_wf_def isOrdered_def)
  then show "ordered (cols (zidx z) ! 0)" by simp
  show "content (zidx z) = elems (cols (zidx z) ! 0)" using arg_cong [OF c, of "\<lambda>vs. concat (map elems vs)"] by (simp add: content_def)
qed

text \<open>The times of a well-formed series ascend.\<close>

lemma zts_times_sorted: "zts_wf cmp z \<Longrightarrow> sorted (content (zidx z))"
proof -
  assume wf: "zts_wf cmp z"
  have "col_wf (<) (nrows (zidx z)) (cols (zidx z) ! 0)"
    using array_wfD(2) [OF zts_wfD(1) [OF wf], of 0] zts_wfD(5) [OF wf] by (metis length_greater_0_conv list.distinct(1))
  then have "vec_inv (<) (cols (zidx z) ! 0)" by (simp add: col_wf_def)
  then show ?thesis using zts_wfD(7,9) [OF wf] vec_inv_sorted by simp
qed

section \<open>Cutting the index back\<close>

text \<open>An array whose columns, extent and row names have grown, cut back to what it was.\<close>

definition grown :: "'a array \<Rightarrow> 'a array \<Rightarrow> bool" where
  "grown a b \<longleftrightarrow> list_all2 extends (cols a) (cols b) \<and> (\<exists>m nm. adim b = (adim a)[0 := adim a ! 0 + m] \<and> anames b = (anames a)[0 := nm] \<and>
     dname_wf nm \<and> map_ok nm \<and> dsz nm = adim a ! 0 + m \<and> labels nm = labels (anames a ! 0) @ replicate m '''')"

lemma extends_trans: "extends u v \<Longrightarrow> extends v w \<Longrightarrow> extends u w"
proof -
  assume uv: "extends u v" and vw: "extends v w"
  have "take (vsize u) (elems w) = take (vsize u) (take (vsize v) (elems w))" using extends_size [OF uv] by (simp add: min_def)
  also have "\<dots> = elems u" using uv vw by (simp add: extends_def)
  finally show ?thesis using uv vw by (simp add: extends_def)
qed

lemma resize_cols_back:
  assumes "list_all2 extends vs ws" "list_all (col_wf cmp n) vs"
  shows "\<exists>us. foldR (\<lambda>v us. bindR (resize junk n 0 v) (\<lambda>w. Inr (us @ [w]))) ws us0 = Inr (us0 @ us) \<and>
    list_all2 same_column vs us \<and> list_all (col_wf cmp n) us \<and> list_all ordered us = list_all ordered ws"
  using assms
proof (induction arbitrary: us0 rule: list_all2_induct)
  case (Cons v vs w ws)
  from Cons.prems resize_back [OF _ Cons.hyps(1), of cmp n junk] obtain u where
    "resize junk n 0 w = Inr u" "same_column v u" "col_wf cmp n u" "ordered u = ordered w" by auto
  moreover from Cons.IH [of "us0 @ [u]"] Cons.prems obtain us where
    "foldR (\<lambda>v us. bindR (resize junk n 0 v) (\<lambda>w. Inr (us @ [w]))) ws (us0 @ [u]) = Inr ((us0 @ [u]) @ us)"
    "list_all2 same_column vs us" "list_all (col_wf cmp n) us" "list_all ordered us = list_all ordered ws" by auto
  ultimately show ?case by (intro exI [of _ "u # us"]) simp
qed simp

lemma array_resize_back:
  assumes wf: "array_wf cmp a" "adim a \<noteq> []" "cols a \<noteq> []" and g: "grown a b"
  shows "\<exists>c. array_resize cmp tn init junk 0 (adim a ! 0) 0 b = Inr c \<and> array_wf cmp c \<and> same_view a c \<and> isOrdered c = isOrdered b"
proof -
  from g obtain m nm where g: "list_all2 extends (cols a) (cols b)" "adim b = (adim a)[0 := adim a ! 0 + m]" "anames b = (anames a)[0 := nm]"
    "dname_wf nm" "map_ok nm" "dsz nm = adim a ! 0 + m" "labels nm = labels (anames a ! 0) @ replicate m ''''" by (auto simp: grown_def)
  have ne: "0 < length (adim a)" "0 < length (anames a)" using wf array_wfD(3) [OF wf(1)] by auto
  have old: "dname_wf (anames a ! 0)" "dsz (anames a ! 0) = adim a ! 0" using array_wfD(5) [OF wf(1) ne(1)] by auto
  have cw: "list_all (col_wf cmp (adim a ! 0)) (cols a)" using wf by (simp add: array_wf_def nrows_def)
  from resize_cols_back [OF g(1) cw, of junk "[]", unfolded append_Nil] obtain us where
    us: "foldR (\<lambda>v us. bindR (resize junk (adim a ! 0) 0 v) (\<lambda>w. Inr (us @ [w]))) (cols b) [] = Inr us"
      "list_all2 same_column (cols a) us" "list_all (col_wf cmp (adim a ! 0)) us" "list_all ordered us = list_all ordered (cols b)" by blast
  obtain nm' where nm': "dname_resize (adim a ! 0) 0 nm = Inr nm'" "dname_wf nm'" "map_ok nm'" "dsz nm' = adim a ! 0" "labels nm' = labels (anames a ! 0)"
    using resize_ok [OF g(4,5), of "adim a ! 0"] g(6,7) old labels_length [OF old(1)] by auto
  let ?c = "b\<lparr>cols := us, adim := (adim b)[0 := adim a ! 0], anames := (anames b)[0 := nm']\<rparr>"
  have "cols b \<noteq> []" using wf(3) g(1) by auto
  then have "as_vector cmp tn init b = Inr b" using g(2) ne(1) by (simp add: as_vector_def)
  then have r: "array_resize cmp tn init junk 0 (adim a ! 0) 0 b = Inr ?c"
    using us(1) nm'(1) g(3) ne by (simp add: array_resize_def std_at_def)
  have dims: "adim ?c = adim a" using g(2) ne(1) by simp
  have names: "anames ?c = (anames a)[0 := nm']" using g(3) by simp
  have cont: "content ?c = content a" using same_columns_content [OF us(2)] by (simp add: content_def)
  have labs: "map labels (anames ?c) = map labels (anames a)" unfolding names using nm'(5) ne(2)
    by (cases "anames a") simp_all
  have "names_wf (adim a) ((anames a)[0 := nm'])"
    using wf(1) nm'(2-4) by (cases "adim a"; cases "anames a") (auto simp: array_wf_def names_wf_def)
  then have "array_wf cmp ?c" using wf(1) us(2,3) dims names list_all2_lengthD [OF us(2)] wf(2)
    unfolding array_wf_def nrows_def dims names by simp
  with r cont labs dims us(4) show ?thesis by (auto simp: same_view_def isOrdered_def)
qed

lemma array_append_grown:
  assumes "array_wf cmp a" "array_append f cmp junk buf a = (b, Inr off)"
  shows "grown a b"
proof -
  from assms(2) obtain ad :: "nat vec" and vs n nm0 nm where ne: "adim a \<noteq> []"
    and vs: "append_cols f cmp junk buf (sizeof_RawVector + 8 * vsize ad) (cols a) = (vs, Inr off)"
    and nm: "std_at (anames a) 0 = Inr nm0" "addafter_dn (dname_of_size n) nm0 = Inr nm"
    and b: "b = a\<lparr>cols := vs, anames := (anames a)[0 := nm], adim := (adim a)[0 := adim a ! 0 + n]\<rparr>"
    by (auto simp: array_append_def res_simps split: sum.splits if_splits prod.splits)
  from append_cols_extends [of "cols a" f cmp junk buf "sizeof_RawVector + 8 * vsize ad"] vs have "list_all2 extends (cols a) vs" by simp
  moreover from append_names_total [OF assms(1) ne, of n] nm have "dname_wf nm" "map_ok nm" "dsz nm = adim a ! 0 + n"
    "labels nm = labels (anames a ! 0) @ replicate n ''''" by auto
  ultimately show ?thesis unfolding grown_def b by auto
qed

lemma zts_idx_update: "z\<lparr>zidx := i\<rparr> = \<lparr>zarr = zarr z, zidx = i\<rparr>"
  by (cases z) simp

lemma array_append_error_dim: "array_append f cmp junk buf a = (a', Inl e) \<Longrightarrow> adim a' = adim a"
  by (auto simp: array_append_def split: sum.splits if_splits prod.splits)

text \<open>With one column nothing has been written when an exception is thrown.\<close>

lemma array_append_single_error:
  assumes "array_wf cmp a" "cols a = [v]" "array_append f cmp junk buf a = (a', Inl e)" "e \<noteq> UB"
  shows "a' = a"
proof (cases "\<exists>ad. vec_of_buffer idx_flat buf = Inr ad \<and> adim a \<noteq> [] \<and> checkdims (adim a) (elems ad) 0")
  case False
  with assms(3) show ?thesis by (auto simp: array_append_def split: sum.splits if_splits)
next
  case True
  then obtain ad where ad: "vec_of_buffer idx_flat buf = Inr ad" "adim a \<noteq> []" "checkdims (adim a) (elems ad) 0" by blast
  obtain vs r where ac: "append_cols f cmp junk buf (sizeof_RawVector + 8 * vsize ad) [v] = (vs, r)" by (rule prod.exhaust)
  show ?thesis
  proof (cases r)
    case (Inl e0)
    with ac have "vs = [v]" by (auto split: if_splits sum.splits)
    moreover have "resize junk (adim a ! 0) 0 v = Inr v"
      using assms(1,2) ad(2) by (simp add: array_wf_def nrows_def col_wf_def resize_def)
    ultimately have "a' = a\<lparr>cols := [v]\<rparr>" using assms(2,3) ad ac Inl by (auto simp: array_append_def)
    with assms(2) show ?thesis by simp
  next
    case (Inr off)
    from append_names_total [OF assms(1) ad(2), of "elems ad ! 0"] obtain nm where
      "std_at (anames a) 0 = Inr (anames a ! 0)" "addafter_dn (dname_of_size (elems ad ! 0)) (anames a ! 0) = Inr nm" by blast
    with assms(2-4) ad ac Inr show ?thesis by (auto simp: array_append_def dim_at_def split: if_splits)
  qed
qed

lemma map_prod_Inl [simp]: "map_prod id Inl p = (x, Inl e) \<longleftrightarrow> p = (x, e)" "map_prod id Inl p \<noteq> (x, Inr y)"
  by (cases p, simp)+

text \<open>Restoring the index of a well-formed series after it has grown.\<close>

lemma restore_idx_eq:
  assumes wf: "zts_wf cmp z" and g: "grown (zidx z) i" and a: "adim a = adim (zarr z)"
  shows "\<exists>c. restore_idx junk after e \<lparr>zarr = a, zidx = i\<rparr> = (after \<lparr>zarr = a, zidx = c\<rparr>, e) \<and> array_wf (<) c \<and> same_view (zidx z) c \<and>
    isOrdered c = isOrdered i \<and> adim c = [nrows a] \<and> adim a \<noteq> []"
proof -
  note z = zts_wfD [OF wf]
  have ne: "adim a \<noteq> []" using a wf by (simp add: zts_wf_def)
  have n: "nrows a = nrows (zarr z)" using a by (simp add: nrows_def)
  then have gd: "getdim a 0 = Inr (nrows (zarr z))" using ne by (simp add: nrows_def getdim_def)
  have "cols (zidx z) \<noteq> []" using z(5) by (metis list.distinct(1))
  from array_resize_back [OF z(1) _ this g, of 2 0 junk] z(4) obtain c where
    c: "array_resize (<) 2 0 junk 0 (nrows (zarr z)) 0 i = Inr c" "array_wf (<) c" "same_view (zidx z) c" "isOrdered c = isOrdered i"
    by auto
  have "adim c = [nrows a]" using c(3) z(4) n by (simp add: same_view_def)
  moreover have "restore_idx junk after e \<lparr>zarr = a, zidx = i\<rparr> = (after \<lparr>zarr = a, zidx = c\<rparr>, e)"
    using c(1) gd by (simp add: restore_idx_def idx_resize_def)
  ultimately show ?thesis using c(2-4) ne by blast
qed

lemma restore_idx_ok:
  assumes wf: "zts_wf cmp z" and g: "grown (zidx z) i"
    and a: "array_wf cmp a" "adim a = adim (zarr z)" "same_view (zarr z) a"
    and after: "after = id \<and> isOrdered i \<or> after = force_first"
  shows "\<exists>z'. restore_idx junk after e \<lparr>zarr = a, zidx = i\<rparr> = (z', e) \<and> zts_wf cmp z' \<and> same_series z z'"
proof -
  from restore_idx_eq [OF wf g a(2), of junk after e] obtain c where
    r: "restore_idx junk after e \<lparr>zarr = a, zidx = i\<rparr> = (after \<lparr>zarr = a, zidx = c\<rparr>, e)" and c: "array_wf (<) c" "same_view (zidx z) c"
      "isOrdered c = isOrdered i" "adim c = [nrows a]" "adim a \<noteq> []" by blast
  show ?thesis
  proof (cases "after = force_first")
    case False
    then have "after = id" "isOrdered c" using after c(3) by auto
    with r c a(1,3) show ?thesis by (intro exI [of _ "\<lparr>zarr = a, zidx = c\<rparr>"]) (simp add: zts_wf_def same_series_def)
  next
    case True
    have "length (cols c) = 1" using array_wfD(1) [OF c(1)] c(4) by (simp add: ncols_of_def)
    then obtain v where v: "cols c = [v]" by (cases "cols c") auto
    have "elems v = content (zidx z)" using c(2) v by (simp add: same_view_def content_def)
    then have "vec_inv (<) (forceOrdered v)" using zts_times_sorted [OF wf] by (intro sorted_vec_inv) (simp add: forceOrdered_def)
    then have "array_wf (<) (c\<lparr>cols := [forceOrdered v]\<rparr>)"
      using c(1,4) v by (simp add: array_wf_def nrows_def col_wf_def forceOrdered_def)
    moreover have "content (c\<lparr>cols := [forceOrdered v]\<rparr>) = content c" "isOrdered (c\<lparr>cols := [forceOrdered v]\<rparr>)"
      using v by (simp_all add: content_def isOrdered_def forceOrdered_def)
    ultimately show ?thesis using r c(2,4,5) a(1,3) v True
      by (intro exI [of _ "force_first \<lparr>zarr = a, zidx = c\<rparr>"]) (simp add: zts_wf_def same_series_def same_view_def force_first_def)
  qed
qed

lemma zts_append_error:
  assumes wf: "zts_wf cmp z" and r: "zts_append cmp junkt junk buf z = (z', Inl e)" "e \<noteq> UB"
  shows "zts_wf cmp z' \<and> same_series z z'"
proof -
  note z = zts_wfD [OF wf]
  have ne: "adim (zarr z) \<noteq> []" using wf by (simp add: zts_wf_def)
  obtain i ri where ai: "array_append dtime_flat (<) junkt buf (zidx z) = (i, ri)" by (rule prod.exhaust)
  show ?thesis
  proof (cases ri)
    case (Inl e0)
    with r ai ne have z': "z' = z\<lparr>zidx := i\<rparr>" "e0 \<noteq> UB" by (auto simp: zts_append_def)
    with array_append_single_error [OF z(1,5) ai [unfolded Inl] z'(2)] wf show ?thesis by (simp add: same_series_def)
  next
    case (Inr off)
    note g = array_append_grown [OF z(1) ai [unfolded Inr]]
    show ?thesis
    proof (cases "isOrdered i")
      case False
      then have "restore_idx junkt force_first (RangeError ''index not ascending'') \<lparr>zarr = zarr z, zidx = i\<rparr> = (z', e)"
        using r(1) ai Inr ne zts_idx_update [of i z] by (simp add: zts_append_def)
      with restore_idx_ok [OF wf g z(2) refl, of force_first junkt "RangeError ''index not ascending''"] show ?thesis by auto
    next
      case True
      obtain a ra where aa: "array_append double_flat cmp junk (drop off buf) (zarr z) = (a, ra)" by (rule prod.exhaust)
      with r(1) ai Inr ne True obtain e1 where e1: "ra = Inl e1" and q: "restore_idx junkt id e1 \<lparr>zarr = a, zidx = i\<rparr> = (z', e)"
        by (cases ra) (auto simp: zts_append_def)
      have "e1 = e" using restore_idx_eq [OF wf g array_append_error_dim [OF aa [unfolded e1]], of junkt id e1] q by auto
      with r(2) have "e1 \<noteq> UB" by simp
      note old = array_append_error [OF z(2) aa [unfolded e1] this]
      then have "same_view (zarr z) a" by (simp add: same_view_def)
      with restore_idx_ok [OF wf g, of a id junkt e1] old True q show ?thesis by auto
    qed
  qed
qed

section \<open>Appending a serialised series\<close>

definition zts_encodable :: "zts \<Rightarrow> bool" where
  "zts_encodable y \<longleftrightarrow> encodable dtime_flat (\<lambda>t. - (2 ^ 63) \<le> t \<and> t < 2 ^ 63) (zidx y) \<and> encodable double_flat (\<lambda>_. True) (zarr y)"

text \<open>The times of a message follow those of the series: none is at or before the last one.\<close>

definition follows :: "zts \<Rightarrow> zts \<Rightarrow> bool" where
  "follows z y \<longleftrightarrow> content (zidx z) = [] \<or> content (zidx y) = [] \<or> last (content (zidx z)) < hd (content (zidx y))"

text \<open>The index after a serialised index has been appended to it, ascending or not.\<close>

lemma idx_append:
  assumes wf: "zts_wf cmp z" "zts_wf cmp y" and enc: "zts_encodable y" and size: "nrows (zarr z) + nrows (zarr y) \<le> SIZE_MAX"
  shows "\<exists>i. array_append dtime_flat (<) junkt (array_to_buffer dtime_flat fi (zidx y) @ rest) (zidx z) =
      (i, Inr (length (array_to_buffer dtime_flat fi (zidx y)))) \<and>
    array_wf (<) i \<and> adim i = [nrows (zarr z) + nrows (zarr y)] \<and> content i = content (zidx z) @ content (zidx y) \<and>
    (isOrdered i \<longleftrightarrow> follows z y)"
proof -
  note z = zts_wfD [OF wf(1)] and y = zts_wfD [OF wf(2)]
  have enci: "encodable dtime_flat (\<lambda>t. - (2 ^ 63) \<le> t \<and> t < 2 ^ 63) (zidx y)" using enc by (simp add: zts_encodable_def)
  from array_append_ok [OF dtime_codec.flat_type_axioms _ z(1) y(1) enci z(4) y(4), of junkt fi rest] size obtain i where
    i: "array_append dtime_flat (<) junkt (array_to_buffer dtime_flat fi (zidx y) @ rest) (zidx z) =
      (i, Inr (length (array_to_buffer dtime_flat fi (zidx y))))" "array_wf (<) i" "adim i = [nrows (zarr z) + nrows (zarr y)]"
      "joined (<) (cols (zidx z) ! 0) (cols (zidx y) ! 0) (cols i ! 0)" by auto
  have "length (cols i) = 1" using array_wfD(1) [OF i(2)] i(3) by (simp add: ncols_of_def)
  then obtain w where w: "cols i = [w]" by (cases "cols i") auto
  then have "content i = elems w" "isOrdered i = ordered w" by (simp_all add: content_def isOrdered_def)
  with i z(7,9) y(7,9) w show ?thesis by (auto simp: joined_def follows_def)
qed

lemma zts_append_ok:
  assumes wf: "zts_wf cmp z" "zts_wf cmp y" and asym: "asymp cmp" and enc: "zts_encodable y"
    and dims: "tl (adim (zarr y)) = tl (adim (zarr z))"
    and size: "prod_list (tl (adim (zarr z))) * (nrows (zarr z) + nrows (zarr y)) \<le> SIZE_MAX" "nrows (zarr z) + nrows (zarr y) \<le> SIZE_MAX"
    and fol: "follows z y"
  shows "\<exists>z'. zts_append cmp junkt junk (zts_to_buffer fi fa y @ rest) z = (z', Inr (length (array_to_buffer double_flat fa (zarr y)))) \<and>
    zts_wf cmp z' \<and> content (zidx z') = content (zidx z) @ content (zidx y) \<and>
    adim (zarr z') = (nrows (zarr z) + nrows (zarr y)) # tl (adim (zarr z)) \<and>
    (\<forall>k<prod_list (tl (adim (zarr z))). elems (cols (zarr z') ! k) = elems (cols (zarr z) ! k) @ elems (cols (zarr y) ! k))"
proof -
  note z = zts_wfD [OF wf(1)] and y = zts_wfD [OF wf(2)]
  have ne: "adim (zarr z) \<noteq> []" using wf(1) by (simp add: zts_wf_def)
  let ?rest = "array_to_buffer double_flat fa (zarr y) @ rest"
  from idx_append [OF wf enc size(2), of junkt fi ?rest] fol obtain i where
    i: "array_append dtime_flat (<) junkt (array_to_buffer dtime_flat fi (zidx y) @ ?rest) (zidx z) =
      (i, Inr (length (array_to_buffer dtime_flat fi (zidx y))))" "array_wf (<) i" "adim i = [nrows (zarr z) + nrows (zarr y)]"
      "content i = content (zidx z) @ content (zidx y)" "isOrdered i" by auto
  have enca: "encodable double_flat (\<lambda>_. True) (zarr y)" using enc by (simp add: zts_encodable_def)
  from array_append_ok [OF double_codec.flat_type_axioms asym z(2) y(2) enca z(3) _ size(1), of junk fa rest] y(3) dims obtain a where
    a: "array_append double_flat cmp junk ?rest (zarr z) = (a, Inr (length (array_to_buffer double_flat fa (zarr y))))" "array_wf cmp a"
      "adim a = (nrows (zarr z) + nrows (zarr y)) # tl (adim (zarr z))"
      "\<forall>k<prod_list (tl (adim (zarr z))). elems (cols a ! k) = elems (cols (zarr z) ! k) @ elems (cols (zarr y) ! k)"
    by (auto simp: joined_def)
  have "zts_append cmp junkt junk (zts_to_buffer fi fa y @ rest) z = (\<lparr>zarr = a, zidx = i\<rparr>, Inr (length (array_to_buffer double_flat fa (zarr y))))"
    using ne i(1,5) a(1) by (simp add: zts_append_def zts_to_buffer_def)
  moreover have "zts_wf cmp \<lparr>zarr = a, zidx = i\<rparr>" using i(2,3,5) a(2,3) by (simp add: zts_wf_def nrows_def)
  ultimately show ?thesis using i(4) a(3,4) by auto
qed

lemma zts_append_refused:
  assumes wf: "zts_wf cmp z" "zts_wf cmp y" and enc: "zts_encodable y" and size: "nrows (zarr z) + nrows (zarr y) \<le> SIZE_MAX"
    and fol: "\<not> follows z y"
  shows "\<exists>z'. zts_append cmp junkt junk (zts_to_buffer fi fa y @ rest) z = (z', Inl (RangeError ''index not ascending''))"
proof -
  note z = zts_wfD [OF wf(1)]
  have ne: "adim (zarr z) \<noteq> []" using wf(1) by (simp add: zts_wf_def)
  from idx_append [OF wf enc size, of junkt fi "array_to_buffer double_flat fa (zarr y) @ rest"] fol obtain i off where
    i: "array_append dtime_flat (<) junkt (zts_to_buffer fi fa y @ rest) (zidx z) = (i, Inr off)" "\<not> isOrdered i"
    by (auto simp: zts_to_buffer_def)
  from restore_idx_ok [OF wf(1) array_append_grown [OF z(1) i(1)] z(2) refl, of force_first junkt "RangeError ''index not ascending''"]
  show ?thesis using i ne by (auto simp: zts_append_def zts_idx_update)
qed

section \<open>Appending times one by one\<close>

text \<open>An index: one well-formed column in ascending order.\<close>

definition times_wf :: "int array \<Rightarrow> bool" where
  "times_wf i \<longleftrightarrow> array_wf (<) i \<and> length (adim i) = 1 \<and> isOrdered i"

lemma times_wfE:
  assumes "times_wf i"
  obtains n v nm where "i = \<lparr>adim = [n], cols = [v], anames = [nm]\<rparr>" "col_wf (<) n v" "ordered v" "dname_wf nm" "map_ok nm" "dsz nm = n" "n \<le> SIZE_MAX"
proof -
  from assms have wf: "array_wf (<) i" and l: "length (adim i) = 1" and o: "isOrdered i" by (simp_all add: times_wf_def)
  from l obtain n where n: "adim i = [n]" by (cases "adim i") auto
  have "length (cols i) = 1" using array_wfD(1) [OF wf] n by (simp add: ncols_of_def)
  then obtain v where v: "cols i = [v]" by (cases "cols i") auto
  have "length (anames i) = 1" using array_wfD(3) [OF wf] n by simp
  then obtain nm where nm: "anames i = [nm]" by (cases "anames i") auto
  show thesis
    by (rule that [of n v nm]) (use wf o n v nm in \<open>auto simp: array_wf_def isOrdered_def nrows_def ncols_of_def names_wf_def intro: array.equality\<close>)
qed

lemma times_wfI:
  "col_wf (<) n v \<Longrightarrow> ordered v \<Longrightarrow> dname_wf nm \<Longrightarrow> map_ok nm \<Longrightarrow> dsz nm = n \<Longrightarrow> n \<le> SIZE_MAX \<Longrightarrow>
     times_wf \<lparr>adim = [n], cols = [v], anames = [nm]\<rparr>"
  by (simp add: times_wf_def array_wf_def isOrdered_def nrows_def ncols_of_def names_wf_def)

lemma zts_times_wf: "zts_wf cmp z \<Longrightarrow> times_wf (zidx z)"
  by (simp add: zts_wf_def times_wf_def)

text \<open>Adding one later time.\<close>

lemma concat_time:
  assumes "times_wf i" "content i = [] \<or> last (content i) < e" "length (content i) < SIZE_MAX"
  shows "\<exists>j. array_concat1 (<) 2 0 e '''' i = Inr j \<and> times_wf j \<and> content j = content i @ [e] \<and> list_all2 extends (cols i) (cols j) \<and>
    adim j = [adim i ! 0 + 1] \<and> map labels (anames j) = [labels (anames i ! 0) @ ['''']]"
proof -
  from times_wfE [OF assms(1)] obtain n v nm where
    i: "i = \<lparr>adim = [n], cols = [v], anames = [nm]\<rparr>" "col_wf (<) n v" "ordered v" "dname_wf nm" "map_ok nm" "dsz nm = n" "n \<le> SIZE_MAX" .
  have c: "content i = elems v" "vsize v = n" using i(1,2) by (simp_all add: content_def col_wf_def)
  have al: "alloc v \<noteq> NullAlloc" "vec_inv (<) v" using i(2) by (simp_all add: col_wf_def)
  obtain w where w: "push_back (<) e v = Inr w" "alloc w = alloc v" using push_back_total [OF al(1)] by blast
  note we = push_back_elems [OF w(1)]
  have wo: "ordered w"
    using w(1) i(3) assms(2) c(1) by (auto simp: push_back_def Let_def last_conv_nth split: if_splits)
  obtain nm' where nm': "addafter '''' nm = Inr nm'" "dname_wf nm'" "map_ok nm'" "dsz nm' = n + 1" "labels nm' = labels nm @ ['''']"
    using addafter_ok [OF i(4,5), of "''''"] i(6) by auto
  let ?j = "\<lparr>adim = [n + 1], cols = [w], anames = [nm']\<rparr>"
  have "array_concat1 (<) 2 0 e '''' i = Inr ?j"
    using w(1) nm'(1) by (simp add: array_concat1_def as_vector_def i(1) std_at_def)
  moreover have "col_wf (<) (n + 1) w"
    using less_cmp.inv_push_back [OF al(2) w(1)] w(2) al(1) we c(2) by (simp add: col_wf_def)
  then have "times_wf ?j" using wo nm' assms(3) c by (intro times_wfI) simp_all
  moreover have "extends v w" using we w(2) i(3) by (simp add: extends_def)
  ultimately show ?thesis using we nm'(5) c i(1) by (auto simp: content_def)
qed

lemma last_time:
  assumes "times_wf i" "content i \<noteq> []"
  shows "asize i \<noteq> 0" "array_at i (asize i - 1) = Inr (last (content i))"
proof -
  have wf: "array_wf (<) i" using assms(1) by (simp add: times_wf_def)
  show n: "asize i \<noteq> 0" using content_length [OF wf] assms(2) by (metis length_0_conv)
  then show "array_at i (asize i - 1) = Inr (last (content i))"
    using array_at_content [OF wf] content_length [OF wf] assms(2) by (simp add: last_conv_nth)
qed

lemma add_times_ok:
  assumes "times_wf i" "length (content i) + length es \<le> SIZE_MAX"
  shows "\<exists>j b. add_times es i = Inr (j, b) \<and> times_wf j \<and> list_all2 extends (cols i) (cols j) \<and>
    (\<exists>m. adim j = [adim i ! 0 + m] \<and> map labels (anames j) = [labels (anames i ! 0) @ replicate m '''']) \<and>
    (b \<longleftrightarrow> successively (<) ((if content i = [] then [] else [last (content i)]) @ es)) \<and> (b \<longrightarrow> content j = content i @ es)"
  using assms
proof (induction es arbitrary: i)
  case Nil
  from times_wfE [OF Nil(1)] obtain n v nm where i: "i = \<lparr>adim = [n], cols = [v], anames = [nm]\<rparr>" .
  with Nil show ?case by (auto intro: exI [of _ "0 :: nat"])
next
  case (Cons e es)
  let ?bad = "content i \<noteq> [] \<and> e \<le> last (content i)"
  have wf: "array_wf (<) i" using Cons.prems(1) by (simp add: times_wf_def)
  have test: "(if asize i \<noteq> 0 then bindR (array_at i (asize i - 1)) (\<lambda>l. Inr (e \<le> l)) else Inr False) = Inr ?bad"
    using last_time [OF Cons.prems(1)] content_length [OF wf] by (cases "content i = []") auto
  show ?case
  proof (cases ?bad)
    case True
    from times_wfE [OF Cons.prems(1)] obtain n v nm where i: "i = \<lparr>adim = [n], cols = [v], anames = [nm]\<rparr>" .
    with True test Cons.prems(1) show ?thesis by (auto intro: exI [of _ "0 :: nat"])
  next
    case False
    then have "content i = [] \<or> last (content i) < e" by auto
    from concat_time [OF Cons.prems(1) this] Cons.prems(2) obtain k where
      k: "array_concat1 (<) 2 0 e '''' i = Inr k" "times_wf k" "content k = content i @ [e]" "list_all2 extends (cols i) (cols k)"
        "adim k = [adim i ! 0 + 1]" "map labels (anames k) = [labels (anames i ! 0) @ ['''']]" by auto
    from Cons.IH [OF k(2)] Cons.prems(2) k(3) obtain j b m where
      j: "add_times es k = Inr (j, b)" "times_wf j" "list_all2 extends (cols k) (cols j)" "adim j = [adim k ! 0 + m]"
        "map labels (anames j) = [labels (anames k ! 0) @ replicate m '''']" "b \<longleftrightarrow> successively (<) (e # es)" "b \<longrightarrow> content j = content k @ es" by auto
    have "list_all2 extends (cols i) (cols j)"
      by (rule list_all2_trans [OF _ k(4) j(3)]) (rule extends_trans)
    moreover have "labels (anames k ! 0) = labels (anames i ! 0) @ ['''']" using k(6) by (cases "anames k") auto
    ultimately show ?thesis using test False k j by (auto intro!: exI [of _ "m + 1"])
  qed
qed

text \<open>The index after some times, in terms of what can be cut back.\<close>

lemma index_grown:
  assumes "times_wf i" "times_wf j" "list_all2 extends (cols i) (cols j)" "adim j = [adim i ! 0 + m]"
    "map labels (anames j) = [labels (anames i ! 0) @ replicate m '''']"
  shows "grown i j"
proof -
  from times_wfE [OF assms(1)] obtain n v nm where i: "i = \<lparr>adim = [n], cols = [v], anames = [nm]\<rparr>" .
  from times_wfE [OF assms(2)] obtain k w nm' where
    j: "j = \<lparr>adim = [k], cols = [w], anames = [nm']\<rparr>" "dname_wf nm'" "map_ok nm'" "dsz nm' = k" by metis
  with i assms(3-5) show ?thesis by (auto simp: grown_def intro!: exI [of _ m] exI [of _ nm'])
qed

lemma vec_of_buffer_length: "vec_of_buffer f buf = Inr v \<Longrightarrow> sizeof_RawVector + vsize v * width f \<le> length buf"
proof -
  have "length (get_elems f n bs) = n" for n bs by (induction n arbitrary: bs) simp_all
  then show "vec_of_buffer f buf = Inr v \<Longrightarrow> ?thesis" by (auto simp: vec_of_buffer_def Let_def split: if_splits)
qed

lemma vec_of_buffer_UB: "vec_of_buffer f buf = Inl e \<Longrightarrow> e = UB"
  by (auto simp: vec_of_buffer_def Let_def split: if_splits)

lemma zts_appendVector_error:
  assumes wf: "zts_wf cmp z" and size: "nrows (zarr z) + length buf \<le> SIZE_MAX"
    and r: "zts_appendVector cmp junkt buf z = (z', Inl e)" "e \<noteq> UB"
  shows "zts_wf cmp z' \<and> same_series z z'"
proof -
  note z = zts_wfD [OF wf]
  have ne: "adim (zarr z) \<noteq> []" using wf by (simp add: zts_wf_def)
  show ?thesis
  proof (cases "\<exists>iv. vec_of_buffer dtime_flat buf = Inr iv \<and> vsize iv \<noteq> 0")
    case False
    with r ne have "z' = z" by (auto simp: zts_appendVector_def split: sum.splits if_splits)
    with wf show ?thesis by (simp add: same_series_def)
  next
    case True
    then obtain iv where iv: "vec_of_buffer dtime_flat buf = Inr iv" "vsize iv \<noteq> 0" by blast
    have "length (content (zidx z)) = nrows (zarr z)"
      using content_length [OF z(1)] array_wfD(4) [OF z(1)] arg_cong [OF z(5), of length] z(4) by (simp add: nrows_def)
    then have l: "length (content (zidx z)) + vsize iv \<le> SIZE_MAX"
      using size vec_of_buffer_length [OF iv(1)] by (simp add: dtime_flat_def)
    from add_times_ok [OF zts_times_wf [OF wf] l] obtain j b m where
      j: "add_times (elems iv) (zidx z) = Inr (j, b)" "times_wf j" "list_all2 extends (cols (zidx z)) (cols j)" "adim j = [adim (zidx z) ! 0 + m]"
        "map labels (anames j) = [labels (anames (zidx z) ! 0) @ replicate m '''']" by auto
    note g = index_grown [OF zts_times_wf [OF wf] j(2-5)]
    have o: "isOrdered j" using j(2) by (simp add: times_wf_def)
    have undo: "zts_wf cmp x \<and> same_series z x" if "restore_idx junkt id e0 \<lparr>zarr = zarr z, zidx = j\<rparr> = (x, e)" for x e0
      using restore_idx_ok [OF wf g z(2) refl, of id junkt e0] that o by auto
    show ?thesis
    proof (cases b)
      case False
      with r(1) ne iv j(1) show ?thesis by (auto simp: zts_appendVector_def zts_idx_update dest: undo)
    next
      case True
      with r ne iv j(1) show ?thesis
        by (auto simp: zts_appendVector_def zts_idx_update Let_def split: sum.splits if_splits dest: undo vec_of_buffer_UB)
    qed
  qed
qed

text \<open>A message of rows: a vector of times and a vector of doubles, column after column.\<close>

definition rows_buffer :: "int vec \<Rightarrow> 64 word vec \<Rightarrow> byte list" where
  "rows_buffer tv dv = to_buffer dtime_flat tv @ to_buffer double_flat dv"

lemma zts_appendVector_ok:
  assumes wf: "zts_wf cmp z" and asym: "asymp cmp" and ne: "cols (zarr z) \<noteq> []"
    and t: "typenumber tv < 2 ^ 64" "vsize tv < 2 ^ 64" "list_all (\<lambda>t. - (2 ^ 63) \<le> t \<and> t < 2 ^ 63) (elems tv)" "elems tv \<noteq> []"
    and d: "typenumber dv < 2 ^ 64" "vsize dv < 2 ^ 64" "vsize dv = length (cols (zarr z)) * vsize tv"
    and size: "length (cols (zarr z)) * (nrows (zarr z) + vsize tv) \<le> SIZE_MAX" "nrows (zarr z) + vsize tv \<le> SIZE_MAX"
    and asc: "successively (<) ((if content (zidx z) = [] then [] else [last (content (zidx z))]) @ elems tv)"
  shows "\<exists>z'. zts_appendVector cmp junkt (rows_buffer tv dv @ rest) z = (z', Inr ()) \<and> zts_wf cmp z' \<and>
    content (zidx z') = content (zidx z) @ elems tv \<and> adim (zarr z') = (nrows (zarr z) + vsize tv) # tl (adim (zarr z)) \<and>
    (\<forall>k<length (cols (zarr z)). elems (cols (zarr z') ! k) = elems (cols (zarr z) ! k) @ take (vsize tv) (drop (k * vsize tv) (elems dv)))"
proof -
  note z = zts_wfD [OF wf]
  let ?ds = "tl (adim (zarr z))"
  have nc: "length (cols (zarr z)) = prod_list ?ds" using array_wfD(1) [OF z(2)] z(3) by (simp add: ncols_of_def nrows_def split: if_splits)
  obtain iv where iv: "vec_of_buffer dtime_flat (rows_buffer tv dv @ rest) = Inr iv" "elems iv = elems tv"
    using dtime_codec.of_buffer_to_buffer [OF t(1-3), of "to_buffer double_flat dv @ rest"] by (auto simp: rows_buffer_def)
  have dr: "drop (sizeof_RawVector + vsize tv * 8) (rows_buffer tv dv @ rest) = to_buffer double_flat dv @ rest"
    using dtime_codec.to_buffer_length [of tv] by (simp add: rows_buffer_def getBufferSize_def dtime_flat_def)
  obtain dd where dd: "vec_of_buffer double_flat (to_buffer double_flat dv @ rest) = Inr dd" "elems dd = elems dv"
    using double_codec.of_buffer_to_buffer [OF d(1,2), of rest] by (auto simp: list_all_iff)
  have len: "length (content (zidx z)) = nrows (zarr z)"
    using content_length [OF z(1)] array_wfD(4) [OF z(1)] arg_cong [OF z(5), of length] z(4) by (simp add: nrows_def)
  from add_times_ok [OF zts_times_wf [OF wf], of "elems tv"] len size(2) asc obtain j m where
    j: "add_times (elems tv) (zidx z) = Inr (j, True)" "times_wf j" "content j = content (zidx z) @ elems tv" by auto
  from j(2) times_wfE obtain n where "adim j = [n]" by (metis array.select_convs(1))
  then have dj: "adim j = [nrows (zarr z) + vsize tv]"
    using content_length [of "(<)" j] array_wfD(1,4) [of "(<)" j] j(2,3) len by (simp add: times_wf_def nrows_def ncols_of_def)
  from array_appendVector_ok [OF double_codec.flat_type_axioms asym z(2,3) ne d(1,2), of "vsize tv" rest] nc d(3) size(1) obtain a where
    a: "array_appendVector double_flat cmp (to_buffer double_flat dv @ rest) (zarr z) = Inr a" "array_wf cmp a"
      "adim a = (nrows (zarr z) + vsize tv) # ?ds"
      "\<forall>k<prod_list ?ds. elems (cols a ! k) = elems (cols (zarr z) ! k) @ take (vsize tv) (drop (k * vsize tv) (elems dv))"
    by (auto simp: list_all_iff)
  have "zts_appendVector cmp junkt (rows_buffer tv dv @ rest) z = (\<lparr>zarr = a, zidx = j\<rparr>, Inr ())"
    using wf iv t(4) j(1) dr dd d(3) ne a(1) by (simp add: zts_appendVector_def zts_wf_def zts_idx_update ncols_def Let_def)
  moreover have "zts_wf cmp \<lparr>zarr = a, zidx = j\<rparr>" using a(2,3) j(2) dj by (simp add: zts_wf_def times_wf_def nrows_def)
  ultimately show ?thesis using j(3) a(3,4) nc by auto
qed

section \<open>Histories\<close>

text \<open>A series under messages: a serialised series with the same columns, whether its times follow or not, a message of rows,
  or any bytes at all that are refused.\<close>

inductive zts_step :: "(64 word \<Rightarrow> 64 word \<Rightarrow> bool) \<Rightarrow> zts \<Rightarrow> zts \<Rightarrow> bool" for cmp where
  append: "zts_wf cmp y \<Longrightarrow> zts_encodable y \<Longrightarrow> tl (adim (zarr y)) = tl (adim (zarr z)) \<Longrightarrow>
    prod_list (tl (adim (zarr z))) * (nrows (zarr z) + nrows (zarr y)) \<le> SIZE_MAX \<Longrightarrow> nrows (zarr z) + nrows (zarr y) \<le> SIZE_MAX \<Longrightarrow>
    follows z y \<Longrightarrow> zts_append cmp junkt junk (zts_to_buffer fi fa y @ rest) z = (z', r) \<Longrightarrow> zts_step cmp z z'"
| bad_append: "zts_append cmp junkt junk buf z = (z', Inl e) \<Longrightarrow> e \<noteq> UB \<Longrightarrow> zts_step cmp z z'"
| rows: "cols (zarr z) \<noteq> [] \<Longrightarrow> typenumber tv < 2 ^ 64 \<Longrightarrow> vsize tv < 2 ^ 64 \<Longrightarrow> list_all (\<lambda>t. - (2 ^ 63) \<le> t \<and> t < 2 ^ 63) (elems tv) \<Longrightarrow>
    elems tv \<noteq> [] \<Longrightarrow> typenumber dv < 2 ^ 64 \<Longrightarrow> vsize dv < 2 ^ 64 \<Longrightarrow> vsize dv = length (cols (zarr z)) * vsize tv \<Longrightarrow>
    length (cols (zarr z)) * (nrows (zarr z) + vsize tv) \<le> SIZE_MAX \<Longrightarrow> nrows (zarr z) + vsize tv \<le> SIZE_MAX \<Longrightarrow>
    successively (<) ((if content (zidx z) = [] then [] else [last (content (zidx z))]) @ elems tv) \<Longrightarrow>
    zts_appendVector cmp junkt (rows_buffer tv dv @ rest) z = (z', r') \<Longrightarrow> zts_step cmp z z'"
| bad_rows: "nrows (zarr z) + length buf \<le> SIZE_MAX \<Longrightarrow> zts_appendVector cmp junkt buf z = (z', Inl e) \<Longrightarrow> e \<noteq> UB \<Longrightarrow> zts_step cmp z z'"

text \<open>A series that has all the rows of another one, and possibly more after them.\<close>

definition continues :: "zts \<Rightarrow> zts \<Rightarrow> bool" where
  "continues z z' \<longleftrightarrow> (\<exists>ts. content (zidx z') = content (zidx z) @ ts) \<and> tl (adim (zarr z')) = tl (adim (zarr z)) \<and>
     length (cols (zarr z')) = length (cols (zarr z)) \<and>
     (\<forall>k<length (cols (zarr z)). \<exists>xs. elems (cols (zarr z') ! k) = elems (cols (zarr z) ! k) @ xs)"

lemma continues_trans: "continues x y \<Longrightarrow> continues y z \<Longrightarrow> continues x z"
  unfolding continues_def by (metis append_assoc)

lemma same_series_continues:
  assumes "zts_wf cmp z" "zts_wf cmp z'" "same_series z z'"
  shows "continues z z'"
proof -
  from assms(3) have v: "content (zidx z') = content (zidx z)" "adim (zarr z') = adim (zarr z)" "content (zarr z') = content (zarr z)"
    by (simp_all add: same_series_def same_view_def)
  note wf = zts_wfD(2) [OF assms(1)] zts_wfD(2) [OF assms(2)]
  have l: "length (cols (zarr z')) = length (cols (zarr z))" using array_wfD(1) [OF wf(1)] array_wfD(1) [OF wf(2)] v(2) by simp
  have n: "nrows (zarr z') = nrows (zarr z)" using v(2) by (simp add: nrows_def)
  have "elems (cols (zarr z') ! k) = elems (cols (zarr z) ! k)" if k: "k < length (cols (zarr z))" for k
  proof (rule nth_equalityI)
    have sz: "vsize (cols (zarr z) ! k) = nrows (zarr z)" "vsize (cols (zarr z') ! k) = nrows (zarr z)"
      using array_wfD(2) [OF wf(1), of k] array_wfD(2) [OF wf(2), of k] k l n by (simp_all add: col_wf_size)
    then show "length (elems (cols (zarr z') ! k)) = length (elems (cols (zarr z) ! k))" by simp
    fix j assume "j < length (elems (cols (zarr z') ! k))"
    then have "j < nrows (zarr z)" using sz by simp
    with content_nth [OF wf(1) k, of j] content_nth [OF wf(2), of k j] k l n v(3)
    show "elems (cols (zarr z') ! k) ! j = elems (cols (zarr z) ! k) ! j" by simp
  qed
  with v l show ?thesis by (simp add: continues_def)
qed

lemma zts_step_ok:
  assumes "zts_step cmp z z'" "asymp cmp" "zts_wf cmp z"
  shows "zts_wf cmp z' \<and> continues z z'"
  using assms
proof (cases rule: zts_step.cases)
  case (append y junkt junk fi fa rest r)
  have nc: "length (cols (zarr z)) = prod_list (tl (adim (zarr z)))"
    using array_wfD(1) [OF zts_wfD(2) [OF assms(3)]] zts_wfD(3) [OF assms(3)] by (simp add: ncols_of_def nrows_def split: if_splits)
  from zts_append_ok [OF assms(3) append(1) assms(2) append(2-6), of junkt junk fi fa rest] append(7) have
    *: "zts_wf cmp z'" "content (zidx z') = content (zidx z) @ content (zidx y)" "tl (adim (zarr z')) = tl (adim (zarr z))"
      "\<forall>k<length (cols (zarr z)). elems (cols (zarr z') ! k) = elems (cols (zarr z) ! k) @ elems (cols (zarr y) ! k)" using nc by auto
  moreover have "length (cols (zarr z')) = length (cols (zarr z))"
    using array_wfD(1) [OF zts_wfD(2) [OF *(1)]] zts_wfD(3) [OF *(1)] *(3) nc by (simp add: ncols_of_def nrows_def split: if_splits)
  ultimately show ?thesis by (auto simp: continues_def)
next
  case (bad_append junkt junk buf e)
  with zts_append_error [OF assms(3) bad_append] same_series_continues [OF assms(3)] show ?thesis by blast
next
  case (rows tv dv junkt rest r')
  have nc: "length (cols (zarr z)) = prod_list (tl (adim (zarr z)))"
    using array_wfD(1) [OF zts_wfD(2) [OF assms(3)]] zts_wfD(3) [OF assms(3)] by (simp add: ncols_of_def nrows_def split: if_splits)
  from zts_appendVector_ok [OF assms(3,2) rows(1-11), of junkt rest] rows(12) have
    *: "zts_wf cmp z'" "content (zidx z') = content (zidx z) @ elems tv" "tl (adim (zarr z')) = tl (adim (zarr z))"
      "\<forall>k<length (cols (zarr z)). \<exists>xs. elems (cols (zarr z') ! k) = elems (cols (zarr z) ! k) @ xs" by auto
  moreover have "length (cols (zarr z')) = length (cols (zarr z))"
    using array_wfD(1) [OF zts_wfD(2) [OF *(1)]] zts_wfD(3) [OF *(1)] *(3) nc by (simp add: ncols_of_def nrows_def split: if_splits)
  ultimately show ?thesis by (auto simp: continues_def)
next
  case (bad_rows buf junkt e)
  with zts_appendVector_error [OF assms(3) bad_rows] same_series_continues [OF assms(3)] show ?thesis by blast
qed

section \<open>Properties\<close>

text \<open>C3. A failed append leaves the series as it was: whatever the bytes of the message, when \<open>append\<close> or \<open>appendVector\<close> throws, the
  series satisfies its invariant and has the same times, data, extents and names as before, although the index, and some
  columns, may have been extended before the exception.\<close>

theorem zts_append_atomic:
  assumes "zts_wf cmp z" "nrows (zarr z) + length buf \<le> SIZE_MAX" "e \<noteq> UB"
    "zts_append cmp junkt junk buf z = (z', Inl e) \<or> zts_appendVector cmp junkt buf z = (z', Inl e)"
  shows "zts_wf cmp z' \<and> same_series z z'"
  using assms(4) zts_append_error [OF assms(1) _ assms(3)] zts_appendVector_error [OF assms(1,2) _ assms(3)] by blast

definition series_example :: "int \<Rightarrow> zts" where
  "series_example t =
     \<lparr>zarr = wire_example,
      zidx = \<lparr>adim = [1], cols = [\<lparr>typenumber = 2, elems = [t], ordered = True, capacity = 1024, alloc = MemAlloc\<rparr>],
              anames = [unnamed MemAlloc 1]\<rparr>\<rparr>"

lemma series_example_wf: "zts_wf (<) (series_example t)"
  using wire_example_wf
  by (simp add: zts_wf_def series_example_def array_wf_def nrows_def ncols_of_def col_wf_def vec_inv_def names_wf_def unnamed_wf
      isOrdered_def SIZE_MAX_def wire_example_def)

lemma series_example_encodable: "- (2 ^ 63) \<le> t \<Longrightarrow> t < 2 ^ 63 \<Longrightarrow> zts_encodable (series_example t)"
  by (simp add: zts_encodable_def encodable_def series_example_def wire_example_def double_flat_def dtime_flat_def getBufferSize_def sizeof_RawVector_def)

lemma series_example_facts:
  "content (zidx (series_example t)) = [t]" "nrows (zarr (series_example t)) = 1" "adim (zarr (series_example t)) = [1, 2]"
  by (simp_all add: series_example_def wire_example_def content_def nrows_def)

text \<open>A message whose time is before the last one of the series.\<close>

theorem zts_append_atomic_witness:
  "\<exists>z'. zts_append (<) (\<lambda>_. 0) (\<lambda>_. 0) (zts_to_buffer True True (series_example 3)) (series_example 7) =
      (z', Inl (RangeError ''index not ascending'')) \<and> content (zidx z') = [7] \<and> content (zarr z') = [5, 6]"
proof -
  let ?buf = "zts_to_buffer True True (series_example 3)"
  from zts_append_refused [OF series_example_wf series_example_wf series_example_encodable, of 3 7 "\<lambda>_. 0" "\<lambda>_. 0" True True "[]"] obtain z' where
    r: "zts_append (<) (\<lambda>_. 0) (\<lambda>_. 0) ?buf (series_example 7) = (z', Inl (RangeError ''index not ascending''))"
    by (auto simp: series_example_facts follows_def SIZE_MAX_def)
  have "length ?buf = 168"
    by (simp add: zts_to_buffer_def array_to_buffer_def idx_codec.to_buffer_length double_codec.to_buffer_length dtime_codec.to_buffer_length
        getBufferSize_def series_example_def wire_example_def dim_vec_def sizeof_RawVector_def length_concat o_def)
      (simp add: idx_flat_def double_flat_def dtime_flat_def)
  then have "zts_wf (<) z' \<and> same_series (series_example 7) z'"
    using zts_append_atomic [OF series_example_wf, of 7 ?buf "RangeError ''index not ascending''" "\<lambda>_. 0" "\<lambda>_. 0" z'] r
    by (simp add: series_example_facts SIZE_MAX_def)
  with r show ?thesis by (simp add: same_series_def same_view_def series_example_facts) (simp add: series_example_def wire_example_def content_def)
qed

text \<open>C8. Appending a serialised series with the same columns: when its times follow those of the series, the rows are added to the
  index and to every column and the invariant holds; when they do not, the message is refused with a range error. (The
  number reported is the size of the array part of the message alone.)\<close>

theorem zts_append_ordered:
  assumes "zts_wf cmp z" "zts_wf cmp y" "asymp cmp" "zts_encodable y" "tl (adim (zarr y)) = tl (adim (zarr z))"
    "prod_list (tl (adim (zarr z))) * (nrows (zarr z) + nrows (zarr y)) \<le> SIZE_MAX" "nrows (zarr z) + nrows (zarr y) \<le> SIZE_MAX"
  shows "if follows z y
    then \<exists>z'. zts_append cmp junkt junk (zts_to_buffer fi fa y @ rest) z = (z', Inr (length (array_to_buffer double_flat fa (zarr y)))) \<and>
      zts_wf cmp z' \<and> content (zidx z') = content (zidx z) @ content (zidx y) \<and>
      adim (zarr z') = (nrows (zarr z) + nrows (zarr y)) # tl (adim (zarr z)) \<and>
      (\<forall>k<prod_list (tl (adim (zarr z))). elems (cols (zarr z') ! k) = elems (cols (zarr z) ! k) @ elems (cols (zarr y) ! k))
    else \<exists>z'. zts_append cmp junkt junk (zts_to_buffer fi fa y @ rest) z = (z', Inl (RangeError ''index not ascending''))"
  using zts_append_ok [OF assms, of junkt junk fi fa rest] zts_append_refused [OF assms(1,2,4,7), of junkt junk fi fa rest] by simp

theorem zts_append_ordered_witness:
  "\<exists>z'. zts_append (<) (\<lambda>_. 0) (\<lambda>_. 0) (zts_to_buffer True True (series_example 9)) (series_example 7) =
      (z', Inr (length (array_to_buffer double_flat True (zarr (series_example 9))))) \<and> content (zidx z') = [7, 9] \<and> adim (zarr z') = [2, 2]"
proof -
  have e: "zts_encodable (series_example 9)" by (rule series_example_encodable) simp_all
  have f: "follows (series_example 7) (series_example 9)" by (simp add: follows_def series_example_facts)
  from zts_append_ordered [OF series_example_wf series_example_wf _ e, of 7 "\<lambda>_. 0" "\<lambda>_. 0" True True "[]"] f show ?thesis
    by (auto simp: series_example_facts SIZE_MAX_def)
qed



text \<open>The lengths of the two parts of a message are not compared: one time followed by an array of no rows is accepted, and the
  index then has more times than the array has rows.\<close>

definition empty_rows :: "64 word array" where
  "empty_rows =
     \<lparr>adim = [0, 2],
      cols = [\<lparr>typenumber = 0, elems = [], ordered = True, capacity = 1024, alloc = MemAlloc\<rparr>,
              \<lparr>typenumber = 0, elems = [], ordered = True, capacity = 1024, alloc = MemAlloc\<rparr>],
      anames = [unnamed MemAlloc 0, unnamed MemAlloc 2]\<rparr>"

lemma append_rows_not_compared:
  "\<exists>z' k. zts_append (<) (\<lambda>_. 0) (\<lambda>_. 0) (array_to_buffer dtime_flat True (zidx (series_example 9)) @ array_to_buffer double_flat True empty_rows)
       (series_example 7) = (z', Inr k) \<and> adim (zidx z') = [2] \<and> adim (zarr z') = [1, 2]"
proof -
  have e: "zts_encodable (series_example 9)" by (rule series_example_encodable) simp_all
  have f: "follows (series_example 7) (series_example 9)" by (simp add: follows_def series_example_facts)
  let ?rest = "array_to_buffer double_flat True empty_rows"
  from idx_append [OF series_example_wf series_example_wf e, of 7 "\<lambda>_. 0" True ?rest] f obtain i where
    i: "array_append dtime_flat (<) (\<lambda>_. 0) (array_to_buffer dtime_flat True (zidx (series_example 9)) @ ?rest) (zidx (series_example 7)) =
      (i, Inr (length (array_to_buffer dtime_flat True (zidx (series_example 9)))))" "adim i = [2]" "isOrdered i"
    by (auto simp: series_example_facts SIZE_MAX_def)
  have wf: "array_wf (<) empty_rows"
    by (simp add: empty_rows_def array_wf_def nrows_def ncols_of_def col_wf_def vec_inv_def names_wf_def unnamed_wf)
  have enc: "encodable double_flat (\<lambda>_. True) empty_rows"
    by (simp add: encodable_def empty_rows_def double_flat_def getBufferSize_def sizeof_RawVector_def)
  have z: "zarr (series_example 7) = wire_example" "adim wire_example = [1, 2]" by (simp_all add: series_example_def wire_example_def)
  from array_append_ok [OF double_codec.flat_type_axioms _ wire_example_wf wf enc z(2), of 0 "\<lambda>_. 0" True "[]"] obtain a k where
    "array_append double_flat (<) (\<lambda>_. 0) ?rest wire_example = (a, Inr k)" "adim a = [1, 2]" by (auto simp: empty_rows_def SIZE_MAX_def)
  with i z show ?thesis by (simp add: zts_append_def)
qed

end
