(* ===== verification/Array_Ops.thy ===== *)
theory Array_Ops
  imports Array_Append
begin

text \<open>
  Element-wise functions, reductions, reshaping and binding of arrays (\<open>src/src/array.hpp\<close>). The template arguments (the
  function applied, the comparator, conversions between element types) are arguments here. The functions that build a new
  array reserve it with the extents of the operand and push the results column by column (\<open>build_cols\<close>).
\<close>

section \<open>New arrays filled by rows of results\<close>

definition fill_col :: "('b \<Rightarrow> 'b \<Rightarrow> bool) \<Rightarrow> (nat \<Rightarrow> 'b res) \<Rightarrow> nat \<Rightarrow> 'b vec \<Rightarrow> 'b vec res" where
  "fill_col cmp g n v = foldR (\<lambda>i w. bindR (g i) (\<lambda>x. push_back cmp x w)) [0..<n] v"

definition build_cols :: "('b \<Rightarrow> 'b \<Rightarrow> bool) \<Rightarrow> (nat \<Rightarrow> nat) \<Rightarrow> (nat \<Rightarrow> nat \<Rightarrow> 'b res) \<Rightarrow> nat \<Rightarrow> 'b vec list \<Rightarrow> 'b vec list res" where
  "build_cols cmp sz g m vs0 =
     foldR (\<lambda>n vs. bindR (std_at vs n) (\<lambda>v. bindR (fill_col cmp (g n) (sz n) v) (\<lambda>w. Inr (vs[n := w])))) [0..<m] vs0"

definition build_like ::
  "('b \<Rightarrow> 'b \<Rightarrow> bool) \<Rightarrow> nat \<Rightarrow> 'a array \<Rightarrow> dname list \<Rightarrow> (nat \<Rightarrow> nat \<Rightarrow> 'b res) \<Rightarrow> 'b array res" where
  "build_like cmp tn u names g =
     bindR (array_rsv MemAlloc tn (adim u) []) (\<lambda>r.
     bindR (build_cols cmp (\<lambda>n. vsize (cols u ! n)) g (length (cols u)) (cols r)) (\<lambda>vs.
       Inr (r\<lparr>cols := vs, anames := names @ drop (length names) (anames r)\<rparr>)))"

definition applyf :: "('b \<Rightarrow> 'b \<Rightarrow> bool) \<Rightarrow> nat \<Rightarrow> ('a \<Rightarrow> 'b) \<Rightarrow> 'a array \<Rightarrow> 'b array res" where
  "applyf cmp tn f t =
     build_like cmp tn t (anames t) (\<lambda>n i. bindR (vec_at (cols t ! n) i) (\<lambda>x. Inr (f x)))"

definition apply_scalar_left :: "('r \<Rightarrow> 'r \<Rightarrow> bool) \<Rightarrow> nat \<Rightarrow> ('t \<Rightarrow> 'u \<Rightarrow> 'r) \<Rightarrow> 't \<Rightarrow> 'u array \<Rightarrow> 'r array res" where
  "apply_scalar_left cmp tn F t u =
     build_like cmp tn u (anames u) (\<lambda>n i. bindR (vec_at (cols u ! n) i) (\<lambda>x. Inr (F t x)))"

definition apply_scalar_right :: "('r \<Rightarrow> 'r \<Rightarrow> bool) \<Rightarrow> nat \<Rightarrow> ('u \<Rightarrow> 't \<Rightarrow> 'r) \<Rightarrow> 'u array \<Rightarrow> 't \<Rightarrow> 'r array res" where
  "apply_scalar_right cmp tn F u t =
     build_like cmp tn u (anames u) (\<lambda>n i. bindR (vec_at (cols u ! n) i) (\<lambda>x. Inr (F x t)))"

text \<open>The names of the first operand are preferred.\<close>

definition merged_names :: "'t array \<Rightarrow> 'u array \<Rightarrow> dname list res" where
  "merged_names t u =
     foldR (\<lambda>j ns. bindR (hasNames_dim t j) (\<lambda>b. Inr (ns @ [if b then anames t ! j else anames u ! j]))) [0..<length (anames u)] []"

definition apply_arrays :: "('r \<Rightarrow> 'r \<Rightarrow> bool) \<Rightarrow> nat \<Rightarrow> ('t \<Rightarrow> 'u \<Rightarrow> 'r) \<Rightarrow> 't array \<Rightarrow> 'u array \<Rightarrow> 'r array res" where
  "apply_arrays cmp tn F t u =
     (if asize t = 1 then bindR (array_at t 0) (\<lambda>x. apply_scalar_left cmp tn F x u)
      else if asize u = 1 then bindR (array_at u 0) (\<lambda>y. apply_scalar_right cmp tn F t y)
      else if adim t \<noteq> adim u then Inl (RangeError ''incompatible array sizes'')
      else
        bindR (merged_names t u) (\<lambda>ns.
        build_like cmp tn u ns (\<lambda>n i. bindR (std_at (cols t) n) (\<lambda>tv. bindR (vec_at tv i) (\<lambda>x.
          bindR (vec_at (cols u ! n) i) (\<lambda>y. Inr (F x y)))))))"

text \<open>The variants with an attribute (a time zone) that every application of the function is given.\<close>

definition apply_attrib :: "('r \<Rightarrow> 'r \<Rightarrow> bool) \<Rightarrow> nat \<Rightarrow> ('t \<Rightarrow> 'u \<Rightarrow> 'z \<Rightarrow> 'r) \<Rightarrow> 'z \<Rightarrow> 't array \<Rightarrow> 'u array \<Rightarrow> 'r array res" where
  "apply_attrib cmp tn F a t u = apply_arrays cmp tn (\<lambda>x y. F x y a) t u"

definition apply_attrib_left :: "('r \<Rightarrow> 'r \<Rightarrow> bool) \<Rightarrow> nat \<Rightarrow> ('t \<Rightarrow> 'u \<Rightarrow> 'z \<Rightarrow> 'r) \<Rightarrow> 'z \<Rightarrow> 't \<Rightarrow> 'u array \<Rightarrow> 'r array res" where
  "apply_attrib_left cmp tn F a t u = apply_scalar_left cmp tn (\<lambda>x y. F x y a) t u"

definition apply_attrib_right :: "('r \<Rightarrow> 'r \<Rightarrow> bool) \<Rightarrow> nat \<Rightarrow> ('u \<Rightarrow> 't \<Rightarrow> 'z \<Rightarrow> 'r) \<Rightarrow> 'z \<Rightarrow> 'u array \<Rightarrow> 't \<Rightarrow> 'r array res" where
  "apply_attrib_right cmp tn F a u t = apply_scalar_right cmp tn (\<lambda>x y. F x y a) u t"

section \<open>In place\<close>

definition map_cols :: "(nat \<Rightarrow> 'a vec \<Rightarrow> 'a vec res) \<Rightarrow> 'a array \<Rightarrow> 'a array res" where
  "map_cols f a =
     bindR (foldR (\<lambda>n vs. bindR (f n (cols a ! n)) (\<lambda>w. Inr (vs @ [w]))) [0..<length (cols a)] []) (\<lambda>vs. Inr (a\<lparr>cols := vs\<rparr>))"

definition array_applyf :: "('a \<Rightarrow> 'a \<Rightarrow> bool) \<Rightarrow> ('a \<Rightarrow> 'a) \<Rightarrow> 'a array \<Rightarrow> 'a array res" where
  "array_applyf cmp f a =
     map_cols (\<lambda>n v. foldR (\<lambda>i w. bindR (vec_at w i) (\<lambda>x. setv_checkbefore cmp i (f x) w)) [0..<vsize v] v) a"

definition array_apply_scalar_post :: "('a \<Rightarrow> 'a \<Rightarrow> bool) \<Rightarrow> ('a \<Rightarrow> 'u \<Rightarrow> 'a) \<Rightarrow> 'u \<Rightarrow> 'a array \<Rightarrow> 'a array res" where
  "array_apply_scalar_post cmp F u a = map_cols (\<lambda>n v. apply_scalar_post cmp F u v) a"

definition array_apply :: "('a \<Rightarrow> 'a \<Rightarrow> bool) \<Rightarrow> ('a \<Rightarrow> 'u \<Rightarrow> 'a) \<Rightarrow> 'u array \<Rightarrow> 'a array \<Rightarrow> 'a array res" where
  "array_apply cmp F u a =
     (if asize u = 1 then bindR (array_at u 0) (\<lambda>x. array_apply_scalar_post cmp F x a)
      else map_cols (\<lambda>n v. bindR (getcol u n) (\<lambda>uv. apply_vec cmp F uv v)) a)"

definition array_apply_attrib :: "('a \<Rightarrow> 'a \<Rightarrow> bool) \<Rightarrow> ('a \<Rightarrow> 'u \<Rightarrow> 'z \<Rightarrow> 'a) \<Rightarrow> 'z \<Rightarrow> 'u array \<Rightarrow> 'a array \<Rightarrow> 'a array res" where
  "array_apply_attrib cmp F z u a =
     (if asize u = 1 then
        bindR (array_at u 0) (\<lambda>y. map_cols (\<lambda>n v. foldR (\<lambda>i w. bindR (vec_at w i) (\<lambda>x. setv_checkbefore cmp i (F x y z) w)) [0..<vsize v] v) a)
      else if \<not> checkdims (adim a) (adim u) (max (length (adim a)) (asize u) + 1)
      then Inl (OutOfRange ''in apply, array dimension mismatch'')
      else map_cols (\<lambda>n v. foldR (\<lambda>i w. bindR (vec_at w i) (\<lambda>x. bindR (std_at (cols u) n) (\<lambda>uv. bindR (vec_at uv i) (\<lambda>y.
             setv_checkbefore cmp i (F x y z) w)))) [0..<vsize v] v) a)"

definition array_sort :: "'a::linorder array \<Rightarrow> 'a array" where
  "array_sort a = a\<lparr>cols := map vec_sort (cols a)\<rparr>"

definition array_sort_col :: "nat \<Rightarrow> 'a::linorder array \<Rightarrow> 'a array res" where
  "array_sort_col c a =
     (if c \<ge> length (cols a) then Inl (RangeError ''sort column out of bounds'')
      else Inr (a\<lparr>cols := (cols a)[c := vec_sort (cols a ! c)]\<rparr>))"

definition array_sort_idx :: "nat \<Rightarrow> 'a::linorder array \<Rightarrow> nat list list" where
  "array_sort_idx base a = map (sort_idx base) (cols a)"

definition setv_checkbefore_array :: "('a \<Rightarrow> 'a \<Rightarrow> bool) \<Rightarrow> nat \<Rightarrow> 'a \<Rightarrow> 'a array \<Rightarrow> 'a array res" where
  "setv_checkbefore_array cmp i t a =
     (if length (adim a) = 0 then Inl (RangeError ''subscript out of bounds'')
      else if adim a ! 0 = 0 then Inl UB
      else
        let c = i div (adim a ! 0); off = i mod (adim a ! 0) in
        if c \<ge> ncols a then Inl (RangeError ''subscript out of bounds'')
        else bindR (setv_checkbefore cmp off t (cols a ! c)) (\<lambda>v. Inr (a\<lparr>cols := (cols a)[c := v]\<rparr>)))"

section \<open>Reductions\<close>

definition maxcol :: "('a::linorder) array \<Rightarrow> nat \<Rightarrow> 'a array res" where
  "maxcol t tn =
     (if length (adim t) = 0 then Inl UB else
     bindR (array_rsv MemAlloc tn (1 # tl (adim t)) []) (\<lambda>r.
     bindR (foldR (\<lambda>n vs. bindR (std_at (cols t) n) (\<lambda>v. bindR (vec_at v 0) (\<lambda>x.
              bindR (std_at vs n) (\<lambda>w. bindR (push_back (<) (fold (\<lambda>e m. if e > m then e else m) (elems v) x) w) (\<lambda>w'. Inr (vs[n := w']))))))
            [0..<length (cols t)] (cols r)) (\<lambda>vs. Inr (r\<lparr>cols := vs\<rparr>))))"

definition cumul :: "('r \<Rightarrow> 'a \<Rightarrow> 'r) \<Rightarrow> 'r \<Rightarrow> 'a array \<Rightarrow> 'r" where
  "cumul F init t = fold (\<lambda>v res. fold (\<lambda>x r. F r x) (elems v) res) (cols t) init"

fun cumul_until_col :: "('r \<Rightarrow> 'a \<Rightarrow> 'r) \<Rightarrow> 'r \<Rightarrow> 'a list \<Rightarrow> 'r \<Rightarrow> bool \<times> 'r" where
  "cumul_until_col F until [] res = (False, res)"
| "cumul_until_col F until (x # xs) res = (let r = F res x in if r = until then (True, r) else cumul_until_col F until xs r)"

fun cumul_until_cols :: "('r \<Rightarrow> 'a \<Rightarrow> 'r) \<Rightarrow> 'r \<Rightarrow> 'a vec list \<Rightarrow> 'r \<Rightarrow> 'r" where
  "cumul_until_cols F until [] res = res"
| "cumul_until_cols F until (v # vs) res =
     (case cumul_until_col F until (elems v) res of (stop, r) \<Rightarrow> if stop then r else cumul_until_cols F until vs r)"

definition cumul_until :: "('r \<Rightarrow> 'a \<Rightarrow> 'r) \<Rightarrow> 'r \<Rightarrow> 'r \<Rightarrow> 'a array \<Rightarrow> 'r" where
  "cumul_until F init until t = cumul_until_cols F until (cols t) init"

section \<open>Reshaping\<close>

definition vectorize :: "('a \<Rightarrow> 'a \<Rightarrow> bool) \<Rightarrow> nat \<Rightarrow> (nat \<Rightarrow> 'a) \<Rightarrow> 'a array \<Rightarrow> 'a array res" where
  "vectorize cmp tn junk u =
     (if isVector u then Inr u
      else
        bindR (dim_at (adim u) 0) (\<lambda>d0.
        bindR (array_rsv MemAlloc tn [size_mul (length (cols u)) d0] []) (\<lambda>r.
        bindR (std_at (cols r) 0) (\<lambda>v.
        bindR (foldR (\<lambda>e w. bindR (vec_insert cmp junk (vsize w) (elems e) w) (\<lambda>(w', _). Inr w')) (cols u) v) (\<lambda>w.
          Inr (r\<lparr>cols := (cols r)[0 := w]\<rparr>))))))"

definition transpose_array :: "('a \<Rightarrow> 'a \<Rightarrow> bool) \<Rightarrow> nat \<Rightarrow> 'a \<Rightarrow> (nat \<Rightarrow> 'a) \<Rightarrow> 'a array \<Rightarrow> 'a array res" where
  "transpose_array cmp tn init junk t =
     (if length (adim t) = 1 then
        bindR (std_at (cols t) 0) (\<lambda>v. bindR (std_at (anames t) 0) (\<lambda>nm.
          mk_array MemAlloc cmp tn init [1, adim t ! 0] (elems v) [empty_names, dnames nm]))
      else if length (adim t) = 2 then
        bindR (getdim t 1) (\<lambda>d1. bindR (getdim t 0) (\<lambda>d0. bindR (getnames t 1) (\<lambda>n1. bindR (getnames t 0) (\<lambda>n0.
        bindR (array_noinit MemAlloc junk tn [d1, d0] [dnames n1, dnames n0]) (\<lambda>a.
        bindR (foldR (\<lambda>j vs. bindR (std_at vs j) (\<lambda>v.
                 bindR (foldR (\<lambda>k w. bindR (getcol t k) (\<lambda>tv. bindR (vec_at tv j) (\<lambda>x. setv_checkbefore cmp k x w))) [0..<d1] v)
                   (\<lambda>w. Inr (vs[j := w])))) [0..<d0] (cols a)) (\<lambda>vs. Inr (a\<lparr>cols := vs\<rparr>)))))))
      else Inl (RangeError ''argument is not a matrix''))"

definition array_from_vector :: "'a vec \<Rightarrow> 'a array res" where
  "array_from_vector data =
     (if vsize data = 0 then Inl (OutOfRange ''array_from_vector: null array creation not supported'')
      else bindR (array_rsv MemAlloc (typenumber data) [vsize data] []) (\<lambda>a. Inr (a\<lparr>cols := (cols a)[0 := data]\<rparr>)))"

text \<open>The constructors from another array: of other extents, and of another element type.\<close>

definition array_reshape :: "allocator \<Rightarrow> ('a \<Rightarrow> 'a \<Rightarrow> bool) \<Rightarrow> nat \<Rightarrow> nat list \<Rightarrow> 'a array \<Rightarrow> string vec list \<Rightarrow> 'a array res" where
  "array_reshape al cmp tn d u names_p =
     bindR
       (if asize u = 0 then foldR (\<lambda>n vs. bindR (dim_at d 0) (\<lambda>d0. bindR (vec_rsv tn d0 al) (\<lambda>v. Inr (vs @ [v])))) [0..<ncols_of d] []
        else if asize u = 1 then bindR (array_at u 0) (filled_cols al cmp tn d)
        else
          bindR (getdim u 0) (\<lambda>u0. bindR (dim_at d 0) (\<lambda>d0.
            if u0 = d0 \<and> ncols_of d = length (cols u)
            then foldR (\<lambda>n vs. bindR (vec_copy (cols u ! n) al) (\<lambda>v. Inr (vs @ [v]))) [0..<ncols_of d] []
            else if asize u \<noteq> size_mul (ncols_of d) d0 then Inl (RangeError ''data does not fit array dimensions'')
            else foldR (\<lambda>n vs. bindR (vec_rsv tn d0 al) (\<lambda>v0. bindR (fill_col cmp (\<lambda>i. array_at u (n * d0 + i)) d0 v0) (\<lambda>v. Inr (vs @ [v]))))
                   [0..<ncols_of d] [])))
       (\<lambda>vs. bindR (buildNames al d names_p) (\<lambda>ns. Inr \<lparr>adim = d, cols = vs, anames = ns\<rparr>))"

definition array_convert :: "('a \<Rightarrow> 'a \<Rightarrow> bool) \<Rightarrow> nat \<Rightarrow> ('u \<Rightarrow> 'a) \<Rightarrow> 'u array \<Rightarrow> 'a array res" where
  "array_convert cmp tn conv u =
     bindR (foldR (\<lambda>n vs. bindR (dim_at (adim u) 0) (\<lambda>d0. bindR (vec_rsv tn d0 MemAlloc) (\<lambda>v0.
              bindR (fill_col cmp (\<lambda>r. bindR (vec_at (cols u ! n) r) (\<lambda>x. Inr (conv x))) d0 v0) (\<lambda>v. Inr (vs @ [v])))))
              [0..<length (cols u)] [])
       (\<lambda>vs. Inr \<lparr>adim = adim u, cols = vs, anames = anames u\<rparr>)"

section \<open>Binding\<close>

text \<open>The offsets of the column shuffle are 64-bit unsigned in the source and integers here: an access below 0 is outside
  the columns either way.\<close>

definition col_at :: "'b list \<Rightarrow> int \<Rightarrow> 'b res" where
  "col_at vs i = (if 0 \<le> i then std_at vs (nat i) else Inl UB)"

definition swap_cols :: "int \<Rightarrow> int \<Rightarrow> 'a vec list \<Rightarrow> 'a vec list res" where
  "swap_cols i j vs = bindR (col_at vs i) (\<lambda>v. bindR (col_at vs j) (\<lambda>w. Inr (vs[nat i := w, nat j := v])))"

text \<open>One slice of \<open>u\<close>, copied from its last column to its first one.\<close>

definition bind_slice ::
  "('a \<Rightarrow> 'a \<Rightarrow> bool) \<Rightarrow> ('u \<Rightarrow> 'a) \<Rightarrow> 'u vec list \<Rightarrow> nat \<Rightarrow> 'a vec list \<times> int \<times> nat \<Rightarrow> ('a vec list \<times> int \<times> nat \<times> bool) res" where
  "bind_slice cmp conv us ucols st =
     foldR (\<lambda>k (vs, destoff, uoff, needSwap).
        bindR (std_at us uoff) (\<lambda>uv. bindR (if vsize uv = 0 then Inr vs else bindR (col_at vs destoff) (\<lambda>v.
          bindR (foldR (\<lambda>e w. push_back cmp (conv e) w) (elems uv) v) (\<lambda>w. Inr (vs[nat destoff := w])))) (\<lambda>vs'.
          Inr (vs', destoff - 1, if uoff > 0 then uoff - 1 else uoff, if uoff > 0 then needSwap else False))))
       [0..<ucols] (fst st, fst (snd st), snd (snd st), True)"

definition bind_cols ::
  "('a \<Rightarrow> 'a \<Rightarrow> bool) \<Rightarrow> ('u \<Rightarrow> 'a) \<Rightarrow> 'u vec list \<Rightarrow> nat \<Rightarrow> nat \<Rightarrow> nat \<Rightarrow> 'a vec list \<Rightarrow> nat \<Rightarrow> 'a vec list res" where
  "bind_cols cmp conv us ucols ncs n vs origSize =
     bindR (foldR (\<lambda>j (vs, destoff, srcoff, uoff).
        bindR (bind_slice cmp conv us ucols (vs, destoff, uoff)) (\<lambda>(vs1, destoff1, uoff1, needSwap).
          if needSwap then
            bindR (foldR (\<lambda>k ws. swap_cols (srcoff - int k) (destoff1 - int k) ws) [0..<ncs] vs1)
              (\<lambda>vs2. Inr (vs2, destoff1 - int ncs, srcoff - int ncs, uoff1))
          else Inr (vs1, destoff1, srcoff, uoff1)))
       [0..<n] (vs, int (length vs) - 1, int origSize - 1, length us - 1)) (\<lambda>st. Inr (fst st))"

definition bind_rows :: "('a \<Rightarrow> 'a \<Rightarrow> bool) \<Rightarrow> nat \<Rightarrow> ('u \<Rightarrow> 'a) \<Rightarrow> allocator \<Rightarrow> 'u vec list \<Rightarrow> 'a vec list \<Rightarrow> 'a vec list res" where
  "bind_rows cmp tn conv al us vs0 =
     foldR (\<lambda>j vs.
        bindR (if j \<ge> length vs then bindR (vec_rsv tn (vsize (us ! j)) al) (\<lambda>v. Inr (vs @ [v])) else Inr vs) (\<lambda>vs1.
        bindR (std_at vs1 j) (\<lambda>v. bindR (foldR (\<lambda>e w. push_back cmp (conv e) w) (elems (us ! j)) v) (\<lambda>w. Inr (vs1[j := w])))))
       [0..<length us] vs0"

text \<open>The dimensions and names that are added before binding.\<close>

definition bind_dims :: "allocator \<Rightarrow> nat list \<Rightarrow> nat \<Rightarrow> 'a array \<Rightarrow> 'a array res" where
  "bind_dims al ud d a =
     (let a1 = (if length (adim a) = 0
                then a\<lparr>adim := map (\<lambda>j. if j = d then 0 else ud ! j) [0..<length ud],
                       anames := anames a @ map (\<lambda>j. unnamed al (if j = d then 0 else ud ! j)) [0..<length ud]\<rparr> else a);
          ext = map (\<lambda>j. if length (cols a1) = 0 \<and> j = d then 0 else 1) [length (adim a1)..<d + 1]
      in if al = NullAlloc \<and> (length (adim a) = 0 \<and> length ud > 0 \<or> length ext > 0) then Inl (InvalidArgument ''Vector<T>: null allocator'')
         else Inr (a1\<lparr>adim := adim a1 @ ext, anames := anames a1 @ map (unnamed al) ext\<rparr>))"

definition prod_range :: "nat list \<Rightarrow> nat \<Rightarrow> nat \<Rightarrow> nat" where
  "prod_range d i j = prod_list (drop i (take j d))"

definition abind_data :: "('a \<Rightarrow> 'a \<Rightarrow> bool) \<Rightarrow> nat \<Rightarrow> ('u \<Rightarrow> 'a) \<Rightarrow> allocator \<Rightarrow> 'u array \<Rightarrow> nat \<Rightarrow> 'a array \<Rightarrow> 'a vec list res" where
  "abind_data cmp tn conv al u d a =
     (if d = 0 then bind_rows cmp tn conv al (cols u) (cols a)
      else
        bindR (dim_at (adim a) 0) (\<lambda>d0.
        bindR (foldR (\<lambda>j vs. bindR (vec_rsv tn d0 al) (\<lambda>v. Inr (vs @ [v]))) [0..<length (cols u)] (cols a)) (\<lambda>vs.
        if length (adim u) = 0 then Inl UB
        else bind_cols cmp conv (cols u)
               (if d < length (adim u) then prod_range (adim u) 1 (d + 1) else prod_range (adim u) 1 (length (adim u)))
               (prod_range (adim a) 1 (d + 1)) (prod_range (adim a) (d + 1) (length (adim a))) vs (length (cols a)))))"

definition bind_other_names :: "nat \<Rightarrow> 'u array \<Rightarrow> dname list \<Rightarrow> dname list" where
  "bind_other_names d u ns =
     map (\<lambda>i. if i \<noteq> d \<and> \<not> hasNames (ns ! i) \<and> i < length (anames u) \<and> hasNames (anames u ! i) then anames u ! i else ns ! i) [0..<length ns]"

definition abind_body ::
  "('a \<Rightarrow> 'a \<Rightarrow> bool) \<Rightarrow> nat \<Rightarrow> ('u \<Rightarrow> 'a) \<Rightarrow> allocator \<Rightarrow> 'u array \<Rightarrow> nat \<Rightarrow> string \<Rightarrow> 'a array \<Rightarrow> 'a array res" where
  "abind_body cmp tn conv al u d prefix a =
     (if \<not> checkdims (adim a) (adim u) d then Inl (RangeError ''incorrect dimensions for abind'')
      else
        bindR (bind_dims al (adim u) d a) (\<lambda>a1.
        bindR (abind_data cmp tn conv al u d a1) (\<lambda>vs.
        bindR (addprefix prefix (if d < length (adim u) then anames u ! d else dname_of_size 1)) (\<lambda>newnames.
        bindR (std_at (anames a1) d) (\<lambda>nm. bindR (addafter_dn newnames nm) (\<lambda>nm'.
        bindR (dim_at (adim a1) d) (\<lambda>dd.
          Inr (a1\<lparr>cols := vs, anames := bind_other_names d u ((anames a1)[d := nm']),
                  adim := (adim a1)[d := dd + (if d < length (adim u) then adim u ! d else 1)]\<rparr>))))))))"

text \<open>\<open>self\<close> tells whether the operand is the array itself. For \<open>d = 0\<close> vectors are taken as row vectors.\<close>

definition abind ::
  "('a \<Rightarrow> 'a \<Rightarrow> bool) \<Rightarrow> ('u \<Rightarrow> 'u \<Rightarrow> bool) \<Rightarrow> nat \<Rightarrow> nat \<Rightarrow> 'a \<Rightarrow> 'u \<Rightarrow> (nat \<Rightarrow> 'a) \<Rightarrow> (nat \<Rightarrow> 'u) \<Rightarrow> ('u \<Rightarrow> 'a) \<Rightarrow> allocator
     \<Rightarrow> bool \<Rightarrow> 'u array \<Rightarrow> nat \<Rightarrow> string \<Rightarrow> 'a array \<Rightarrow> 'a array res" where
  "abind cmp cmpu tn tnu init initu junk junku conv al self u d prefix a =
     (if self then Inl (RangeError ''cannot bind to self.'')
      else
        bindR (if d = 0 \<and> length (adim a) = 1 then transpose_array cmp tn init junk a else Inr a) (\<lambda>a1.
        bindR (if d = 0 \<and> length (adim u) = 1 then transpose_array cmpu tnu initu junku u else Inr u) (\<lambda>u1.
          abind_body cmp tn conv al u1 d prefix a1)))"

definition rbind where
  "rbind cmp cmpu tn tnu init initu junk junku conv al self u a = abind cmp cmpu tn tnu init initu junk junku conv al self u 0 '''' a"

definition cbind where
  "cbind cmp cmpu tn tnu init initu junk junku conv al self u a = abind cmp cmpu tn tnu init initu junk junku conv al self u 1 '''' a"

section \<open>Building arrays of results\<close>

lemma foldR_map: "foldR f (map h xs) s = foldR (\<lambda>x. f (h x)) xs s"
proof (induction xs arbitrary: s)
  case (Cons x xs)
  show ?case by (cases "f (h x) s") (simp_all add: Cons.IH)
qed simp

lemma foldR_body_cong: "(\<And>x s. x \<in> set xs \<Longrightarrow> f x s = g x s) \<Longrightarrow> foldR f xs s = foldR g xs s"
proof (induction xs arbitrary: s)
  case (Cons x xs)
  then show ?case by (cases "g x s") simp_all
qed simp

lemma fill_col_push: "(\<And>i. i < n \<Longrightarrow> g i = Inr (h i)) \<Longrightarrow> fill_col cmp g n v = foldR (push_back cmp) (map h [0..<n]) v"
  unfolding fill_col_def foldR_map by (rule foldR_body_cong) simp

text \<open>A loop that updates the columns one after the other.\<close>

lemma update_cols_each:
  assumes "length vs = m" "k \<le> m" "\<And>n. n < m \<Longrightarrow> \<exists>w. f n (vs ! n) = Inr w \<and> Q n w"
  shows "\<exists>ws. foldR (\<lambda>n vs. bindR (std_at vs n) (\<lambda>v. bindR (f n v) (\<lambda>w. Inr (vs[n := w])))) [0..<k] vs = Inr (ws @ drop k vs) \<and>
    length ws = k \<and> (\<forall>n<k. Q n (ws ! n))"
  using assms(2)
proof (induction k)
  case 0
  then show ?case by simp
next
  case (Suc k)
  then obtain ws where ws: "foldR (\<lambda>n vs. bindR (std_at vs n) (\<lambda>v. bindR (f n v) (\<lambda>w. Inr (vs[n := w])))) [0..<k] vs = Inr (ws @ drop k vs)"
    "length ws = k" "\<forall>n<k. Q n (ws ! n)" by auto
  have k: "k < length vs" using Suc.prems assms(1) by simp
  with assms(1,3) obtain w where w: "f k (vs ! k) = Inr w" "Q k w" by auto
  have "(ws @ drop k vs) ! k = vs ! k" "(ws @ drop k vs)[k := w] = (ws @ [w]) @ drop (Suc k) vs" "k < length (ws @ drop k vs)"
    using ws(2) k by (simp_all add: nth_append list_update_append Cons_nth_drop_Suc [symmetric])
  with ws(1) w(1) have "foldR (\<lambda>n vs. bindR (std_at vs n) (\<lambda>v. bindR (f n v) (\<lambda>w. Inr (vs[n := w])))) [0..<Suc k] vs = Inr ((ws @ [w]) @ drop (Suc k) vs)"
    by (simp add: foldR_append std_at_def)
  with ws(2,3) w(2) show ?case by (intro exI [of _ "ws @ [w]"]) (auto simp: nth_append less_Suc_eq)
qed

lemma update_cols_ok:
  assumes "list_all P vs" "length vs = m" "k \<le> m" "\<And>n v. n < m \<Longrightarrow> P v \<Longrightarrow> \<exists>w. f n v = Inr w \<and> Q n w"
  shows "\<exists>ws. foldR (\<lambda>n vs. bindR (std_at vs n) (\<lambda>v. bindR (f n v) (\<lambda>w. Inr (vs[n := w])))) [0..<k] vs = Inr (ws @ drop k vs) \<and>
    length ws = k \<and> (\<forall>n<k. Q n (ws ! n))"
  using assms by (intro update_cols_each) (auto simp: list_all_length)

lemma build_cols_ok:
  assumes "asymp cmp" "list_all (col_wf cmp 0) vs" "length vs = m" "\<And>n i. n < m \<Longrightarrow> i < sz n \<Longrightarrow> g n i = Inr (h n i)"
  shows "\<exists>ws. build_cols cmp sz g m vs = Inr ws \<and> length ws = m \<and> (\<forall>n<m. col_wf cmp (sz n) (ws ! n) \<and> elems (ws ! n) = map (h n) [0..<sz n])"
proof -
  have "\<exists>w. fill_col cmp (g n) (sz n) v = Inr w \<and> col_wf cmp (sz n) w \<and> elems w = map (h n) [0..<sz n]" if "n < m" "col_wf cmp 0 v" for n v
    using push_run [OF _ assms(1), of v "map (h n) [0..<sz n]"] fill_col_push [of "sz n" "g n" "h n" cmp v] assms(4) [OF that(1)] that(2)
    by (auto simp: col_wf_def)
  from update_cols_ok [OF assms(2,3) order_refl this] assms(3) show ?thesis by (auto simp: build_cols_def)
qed

lemma array_rsv_eq:
  assumes "d \<noteq> []" "al \<noteq> NullAlloc"
  shows "array_rsv al tn d [] = Inr \<lparr>adim = d, cols = replicate (ncols_of d) \<lparr>typenumber = tn, elems = [], ordered = True, capacity = growCapacity (d ! 0), alloc = al\<rparr>,
    anames = map (unnamed al) d\<rparr>"
  using assms by (simp add: array_rsv_def vec_rsv_def buildNames_none map_replicate_const)

lemma build_like_ok:
  assumes wf: "array_wf cmpu u" "adim u \<noteq> []" and asym: "asymp cmp" and names: "names_wf (adim u) names"
    and g: "\<And>n i. n < length (cols u) \<Longrightarrow> i < nrows u \<Longrightarrow> g n i = Inr (h n i)"
  shows "\<exists>r. build_like cmp tn u names g = Inr r \<and> array_wf cmp r \<and> adim r = adim u \<and> anames r = names \<and>
    (\<forall>n<length (cols u). elems (cols r ! n) = map (h n) [0..<nrows u])"
proof -
  have sz: "vsize (cols u ! n) = nrows u" if "n < length (cols u)" for n using array_wfD(2) [OF wf(1) that] by (rule col_wf_size)
  let ?vs = "replicate (ncols_of (adim u)) \<lparr>typenumber = tn, elems = [], ordered = True, capacity = growCapacity (adim u ! 0), alloc = MemAlloc\<rparr>"
  have l: "length ?vs = length (cols u)" using array_wfD(1) [OF wf(1)] by simp
  have "list_all (col_wf cmp 0) ?vs" by (simp add: list_all_length col_wf_def vec_inv_def)
  from build_cols_ok [OF asym this l, of "\<lambda>n. vsize (cols u ! n)" g h] g sz obtain ws where
    ws: "build_cols cmp (\<lambda>n. vsize (cols u ! n)) g (length (cols u)) ?vs = Inr ws" "length ws = length (cols u)"
      "\<forall>n<length (cols u). col_wf cmp (nrows u) (ws ! n) \<and> elems (ws ! n) = map (h n) [0..<nrows u]" using l by auto
  let ?r = "\<lparr>adim = adim u, cols = ws, anames = names\<rparr>"
  have "length names = length (adim u)" using names by (simp add: names_wf_def list_all2_lengthD)
  then have "build_like cmp tn u names g = Inr ?r"
    using ws(1) wf(2) by (simp add: build_like_def array_rsv_eq)
  moreover have "array_wf cmp ?r"
    using wf ws(2,3) names by (auto simp: array_wf_def nrows_def list_all_length)
  ultimately show ?thesis using ws(3) by auto
qed

text \<open>Element-wise relations between the columns lift to the contents.\<close>

lemma content_map:
  assumes "length (cols r) = length (cols t)" "\<And>n. n < length (cols t) \<Longrightarrow> elems (cols r ! n) = map f (elems (cols t ! n))"
  shows "content r = map f (content t)"
proof -
  have "map elems (cols r) = map (map f) (map elems (cols t))" using assms by (intro nth_equalityI) simp_all
  then show ?thesis by (simp add: content_def map_concat)
qed

lemma concat_map2:
  "length xss = length yss \<Longrightarrow> (\<And>k. k < length xss \<Longrightarrow> length (xss ! k) = length (yss ! k)) \<Longrightarrow>
   concat (map2 (map2 F) xss yss) = map2 F (concat xss) (concat yss)"
proof (induction xss yss rule: list_induct2)
  case (Cons x xs y ys)
  have "length x = length y" using Cons.prems [of 0] by simp
  moreover have "concat (map2 (map2 F) xs ys) = map2 F (concat xs) (concat ys)" using Cons.prems [of "Suc k" for k] by (intro Cons.IH) simp
  ultimately show ?case by simp
qed simp

lemma content_map2:
  assumes "length (cols r) = length (cols t)" "length (cols u) = length (cols t)"
    "\<And>n. n < length (cols t) \<Longrightarrow> vsize (cols t ! n) = vsize (cols u ! n) \<and> elems (cols r ! n) = map2 F (elems (cols t ! n)) (elems (cols u ! n))"
  shows "content r = map2 F (content t) (content u)"
proof -
  have "map elems (cols r) = map2 (map2 F) (map elems (cols t)) (map elems (cols u))" using assms by (intro nth_equalityI) simp_all
  moreover have "concat (map2 (map2 F) (map elems (cols t)) (map elems (cols u))) = map2 F (content t) (content u)"
    unfolding content_def using assms by (intro concat_map2) simp_all
  ultimately show ?thesis by (simp add: content_def)
qed

lemma names_wf_self: "array_wf cmp a \<Longrightarrow> names_wf (adim a) (anames a)"
  by (simp add: array_wf_def)

lemma map_scalar_ok:
  assumes wf: "array_wf cmpu u" "adim u \<noteq> []" and asym: "asymp cmp"
  shows "\<exists>r. build_like cmp tn u (anames u) (\<lambda>n i. bindR (vec_at (cols u ! n) i) (\<lambda>x. Inr (f x))) = Inr r \<and> array_wf cmp r \<and>
    adim r = adim u \<and> anames r = anames u \<and> content r = map f (content u)"
proof -
  have sz: "vsize (cols u ! n) = nrows u" if "n < length (cols u)" for n using array_wfD(2) [OF wf(1) that] by (rule col_wf_size)
  from build_like_ok [OF wf asym names_wf_self [OF wf(1)], of "\<lambda>n i. bindR (vec_at (cols u ! n) i) (\<lambda>x. Inr (f x))" "\<lambda>n i. f (elems (cols u ! n) ! i)" tn] sz obtain r where
    r: "build_like cmp tn u (anames u) (\<lambda>n i. bindR (vec_at (cols u ! n) i) (\<lambda>x. Inr (f x))) = Inr r" "array_wf cmp r" "adim r = adim u" "anames r = anames u"
      "\<forall>n<length (cols u). elems (cols r ! n) = map (\<lambda>i. f (elems (cols u ! n) ! i)) [0..<nrows u]" by auto
  have "length (cols r) = length (cols u)" using array_wfD(1) [OF r(2)] array_wfD(1) [OF wf(1)] r(3) by simp
  moreover have "elems (cols r ! n) = map f (elems (cols u ! n))" if "n < length (cols u)" for n
    using r(5) sz that by (auto intro: nth_equalityI)
  ultimately show ?thesis using r content_map by blast
qed

lemma merged_names_ok:
  assumes wf: "array_wf cmpt t" "array_wf cmpu u" "adim t = adim u"
  shows "\<exists>ns. merged_names t u = Inr ns \<and> names_wf (adim u) ns"
proof -
  let ?g = "\<lambda>j. if hasNames (anames t ! j) then anames t ! j else anames u ! j"
  have l: "length (anames t) = length (adim u)" "length (anames u) = length (adim u)" using array_wfD(3) wf by metis+
  have "merged_names t u = foldR (\<lambda>j ns. Inr (ns @ [?g j])) [0..<length (anames u)] []"
    unfolding merged_names_def by (rule foldR_body_cong) (use l in \<open>simp add: hasNames_dim_def\<close>)
  then have "merged_names t u = Inr (map ?g [0..<length (anames u)])" by simp
  moreover have "names_wf (adim u) (map ?g [0..<length (anames u)])"
    using array_wfD(5) [OF wf(1)] array_wfD(5) [OF wf(2)] l wf(3) by (auto simp: names_wf_def list_all2_conv_all_nth)
  ultimately show ?thesis by blast
qed

lemma apply_same_ok:
  assumes wf: "array_wf cmpt t" "array_wf cmpu u" "adim t = adim u" "adim u \<noteq> []" and asym: "asymp cmp"
    and sizes: "asize t \<noteq> 1" "asize u \<noteq> 1"
  shows "\<exists>r. apply_arrays cmp tn F t u = Inr r \<and> array_wf cmp r \<and> adim r = adim u \<and> content r = map2 F (content t) (content u)"
proof -
  have l: "length (cols t) = length (cols u)" "nrows t = nrows u"
    using array_wfD(1) [OF wf(1)] array_wfD(1) [OF wf(2)] wf(3) by (simp_all add: nrows_def)
  have sz: "vsize (cols u ! n) = nrows u" "vsize (cols t ! n) = nrows u" if "n < length (cols u)" for n
    using array_wfD(2) [OF wf(2), of n] array_wfD(2) [OF wf(1), of n] that l by (simp_all add: col_wf_size)
  from merged_names_ok [OF wf(1-3)] obtain ns where ns: "merged_names t u = Inr ns" "names_wf (adim u) ns" by blast
  let ?g = "\<lambda>n i. bindR (std_at (cols t) n) (\<lambda>tv. bindR (vec_at tv i) (\<lambda>x. bindR (vec_at (cols u ! n) i) (\<lambda>y. Inr (F x y))))"
  have g: "?g n i = Inr (F (elems (cols t ! n) ! i) (elems (cols u ! n) ! i))" if "n < length (cols u)" "i < nrows u" for n i
    using that sz l by (simp add: std_at_def)
  from build_like_ok [OF wf(2,4) asym ns(2), of ?g "\<lambda>n i. F (elems (cols t ! n) ! i) (elems (cols u ! n) ! i)" tn, OF g] obtain r where
    r: "build_like cmp tn u ns ?g = Inr r" "array_wf cmp r" "adim r = adim u"
      "\<forall>n<length (cols u). elems (cols r ! n) = map (\<lambda>i. F (elems (cols t ! n) ! i) (elems (cols u ! n) ! i)) [0..<nrows u]" by blast
  have "length (cols r) = length (cols t)" using array_wfD(1) [OF r(2)] array_wfD(1) [OF wf(1)] r(3) wf(3) by simp
  moreover have "elems (cols r ! n) = map2 F (elems (cols t ! n)) (elems (cols u ! n))" if "n < length (cols t)" for n
    using r(4) sz that l by (auto intro: nth_equalityI)
  ultimately have "content r = map2 F (content t) (content u)" using sz l by (intro content_map2) simp_all
  moreover have "apply_arrays cmp tn F t u = Inr r" using sizes wf(3) ns(1) r(1) by (simp add: apply_arrays_def)
  ultimately show ?thesis using r by blast
qed

section \<open>Transposition\<close>

lemma buildNames_ok:
  assumes "al \<noteq> NullAlloc" "length ns = length d" "d \<noteq> []" "\<And>j. j < length d \<Longrightarrow> vsize (ns ! j) = 0 \<or> vsize (ns ! j) = d ! j"
  shows "\<exists>es. buildNames al d ns = Inr es \<and> names_wf d es \<and>
    (\<forall>j<length d. labels (es ! j) = (if vsize (ns ! j) = 0 then replicate (d ! j) '''' else elems (ns ! j)))"
proof -
  let ?g = "\<lambda>j. if vsize (ns ! j) > 0 then \<lparr>dsz = d ! j, dnames = (ns ! j)\<lparr>alloc := al\<rparr>, namesMap = putNamesInMap (elems (ns ! j)) []\<rparr>
                else unnamed al (d ! j)"
  have c: "\<not> (length ns \<noteq> 0 \<and> length ns \<noteq> length d)" using assms(2) by simp
  have copied: "bindR (vec_copy (ns ! j) al) (\<lambda>nv. bindR (mk_dname (d ! j) nv) (\<lambda>n. Inr (es @ [n]))) = Inr (es @ [?g j])"
    if "j < length d" "vsize (ns ! j) > 0" for j es
    using assms(4) [OF that(1)] that(2) assms(1) by (auto simp: vec_copy_def mk_dname_def)
  have "buildNames al d ns = foldR (\<lambda>j es. Inr (es @ [?g j])) [0..<length d] []"
    unfolding buildNames_def if_not_P [OF c]
  proof (rule foldR_body_cong, goal_cases)
    case (1 j es)
    then have j: "j < length d" by simp
    show ?case
    proof (cases "vsize (ns ! j) > 0")
      case True
      then show ?thesis using copied [OF j True, of es] assms(2) assms(4) [OF j] j by auto
    next
      case False
      then show ?thesis by (simp add: mk_unnamed [OF assms(1)])
    qed
  qed
  then have "buildNames al d ns = Inr (map ?g [0..<length d])" by simp
  moreover have "names_wf d (map ?g [0..<length d])"
    using assms(1,4) unnamed_wf [OF assms(1)]
    by (auto simp: names_wf_def list_all2_conv_all_nth dname_wf_def map_ok_def putNamesInMap_of unnamed_def)
  moreover have "\<forall>j<length d. labels (map ?g [0..<length d] ! j) = (if vsize (ns ! j) = 0 then replicate (d ! j) '''' else elems (ns ! j))"
    by (simp add: labels_def unnamed_def)
  ultimately show ?thesis by (intro exI [of _ "map ?g [0..<length d]"] conjI)
qed

lemma matrix_cols:
  assumes "array_wf cmp a" "adim a = [r, c]"
  shows "length (cols a) = c" "k < c \<Longrightarrow> vsize (cols a ! k) = r"
  using array_wfD(1,2) [OF assms(1)] assms(2) col_wf_size [of cmp r "cols a ! k"] by (simp_all add: ncols_of_def nrows_def)

lemma matrix_at:
  assumes "array_wf cmp a" "adim a = [r, c]"
  shows "array_at_multi a [i, j] = (if i < r \<and> j < c then Inr (elems (cols a ! j) ! i) else Inl (RangeError ''subscript out of bounds''))"
proof (cases "i < r \<and> j < c")
  case True
  then have "j < length (cols a)" "i < nrows a" using matrix_cols [OF assms] assms(2) by (simp_all add: nrows_def)
  moreover have "j * r + i < asize a"
    using mult_le_mono1 [of "Suc j" c r] True array_wfD(4) [OF assms(1)] matrix_cols(1) [OF assms] assms(2) by (simp add: nrows_def)
  ultimately show ?thesis using True array_at_multi_eq [OF assms(1), of "[i, j]"] array_at_content [OF assms(1), of "j * r + i"]
      content_nth [OF assms(1), of j i] assms(2) by (simp add: in_extent_def nrows_def mult.commute add.commute)
next
  case False
  then show ?thesis using array_at_multi_eq [OF assms(1), of "[i, j]"] assms(2) by (auto simp: in_extent_def)
qed

lemma transpose_col:
  assumes wf: "array_wf cmp0 t" "adim t = [r, c]" and asym: "asymp cmp" and j: "j < r"
    and v: "vsize v = c \<and> ordered v \<and> alloc v \<noteq> NullAlloc"
  shows "\<exists>w. foldR (\<lambda>k w. bindR (getcol t k) (\<lambda>tv. bindR (vec_at tv j) (\<lambda>x. setv_checkbefore cmp k x w))) [0..<c] v = Inr w \<and>
    col_wf cmp c w \<and> elems w = map (\<lambda>k. elems (cols t ! k) ! j) [0..<c]"
proof -
  note l = matrix_cols [OF wf]
  let ?g = "\<lambda>k. elems (cols t ! k) ! j"
  have "foldR (\<lambda>k w. bindR (getcol t k) (\<lambda>tv. bindR (vec_at tv j) (\<lambda>x. setv_checkbefore cmp k x w))) [0..<c] v =
      Inr (v\<lparr>elems := map ?g [0..<c] @ drop c (elems v), ordered := successively cmp (map ?g [0..<c])\<rparr>)"
    by (rule apply_loop_prefix) (use v l j in \<open>simp_all add: getcol_def\<close>)
  moreover have "successively cmp xs \<Longrightarrow> successively (\<lambda>x y. \<not> cmp y x) xs" for xs
    by (erule successively_mono) (use asym in \<open>auto dest: asympD\<close>)
  ultimately show ?thesis using v by (simp add: col_wf_def vec_inv_def)
qed

lemma all_less_two: "(\<forall>j<Suc (Suc 0). P j) \<longleftrightarrow> P 0 \<and> P (Suc 0)"
  by (auto simp: less_Suc_eq)

lemma transpose_ok:
  assumes wf: "array_wf cmp0 t" "adim t = [r, c]" and asym: "asymp cmp"
  shows "\<exists>a. transpose_array cmp tn init junk t = Inr a \<and> array_wf cmp a \<and> adim a = [c, r] \<and>
    (\<forall>j<r. elems (cols a ! j) = map (\<lambda>k. elems (cols t ! k) ! j) [0..<c]) \<and> map labels (anames a) = rev (map labels (anames t))"
proof -
  note D = array_wfD [OF wf(1)]
  have l: "length (anames t) = 2" using D(3) wf(2) by simp
  let ?n0 = "anames t ! 0" and ?n1 = "anames t ! 1"
  have n0: "dname_wf ?n0" "dsz ?n0 = r" and n1: "dname_wf ?n1" "dsz ?n1 = c" using D(5) [of 0] D(5) [of 1] wf(2) by simp_all
  have "\<exists>es. buildNames MemAlloc [c, r] [dnames ?n1, dnames ?n0] = Inr es \<and> names_wf [c, r] es \<and>
    (\<forall>j<length [c, r]. labels (es ! j) = (if vsize ([dnames ?n1, dnames ?n0] ! j) = 0 then replicate ([c, r] ! j) '''' else elems ([dnames ?n1, dnames ?n0] ! j)))"
    using n0 n1 by (intro buildNames_ok) (auto simp: dname_wf_def less_Suc_eq)
  then obtain es where es: "buildNames MemAlloc [c, r] [dnames ?n1, dnames ?n0] = Inr es" "names_wf [c, r] es"
    "labels (es ! 0) = labels ?n1" "labels (es ! 1) = labels ?n0"
    using n0 n1 by (auto simp: labels_def all_less_two)
  let ?v = "\<lparr>typenumber = tn, elems = map junk [0..<c], ordered = True, capacity = growCapacity c, alloc = MemAlloc\<rparr>"
  let ?a = "\<lparr>adim = [c, r], cols = replicate r ?v, anames = es\<rparr>"
  have a: "array_noinit MemAlloc junk tn [c, r] [dnames ?n1, dnames ?n0] = Inr ?a"
    using es(1) by (simp add: array_noinit_def vec_noinit_def ncols_of_def map_replicate_const)
  obtain ws where ws: "foldR (\<lambda>j vs. bindR (std_at vs j) (\<lambda>v.
                 bindR (foldR (\<lambda>k w. bindR (getcol t k) (\<lambda>tv. bindR (vec_at tv j) (\<lambda>x. setv_checkbefore cmp k x w))) [0..<c] v)
                   (\<lambda>w. Inr (vs[j := w])))) [0..<r] (replicate r ?v) = Inr (ws @ drop r (replicate r ?v))" "length ws = r"
    "\<forall>j<r. col_wf cmp c (ws ! j) \<and> elems (ws ! j) = map (\<lambda>k. elems (cols t ! k) ! j) [0..<c]"
    using update_cols_ok [of "\<lambda>v. vsize v = c \<and> ordered v \<and> alloc v \<noteq> NullAlloc" "replicate r ?v" r r
        "\<lambda>j v. foldR (\<lambda>k w. bindR (getcol t k) (\<lambda>tv. bindR (vec_at tv j) (\<lambda>x. setv_checkbefore cmp k x w))) [0..<c] v"
        "\<lambda>j w. col_wf cmp c w \<and> elems w = map (\<lambda>k. elems (cols t ! k) ! j) [0..<c]", OF _ _ order_refl transpose_col [OF wf asym]]
    by (auto simp: list_all_length)
  have "transpose_array cmp tn init junk t = Inr (?a\<lparr>cols := ws\<rparr>)"
    using wf(2) l a ws(1) by (simp add: transpose_array_def getdim_def getnames_def)
  moreover have "array_wf cmp (?a\<lparr>cols := ws\<rparr>)"
    using ws(2,3) es(2) wf by (simp add: array_wf_def ncols_of_def nrows_def list_all_length mult.commute)
  moreover have "length es = 2" using es(2) by (auto simp: names_wf_def dest: list_all2_lengthD)
  then have "map labels es = rev (map labels (anames t))" using es(3,4) l
    by (auto simp: length_Suc_conv numeral_2_eq_2)
  ultimately show ?thesis using ws by (intro exI [of _ "?a\<lparr>cols := ws\<rparr>"]) simp
qed

section \<open>Properties\<close>

text \<open>C17. Transposition of a matrix: it succeeds on every array of two dimensions that satisfies the invariant, the result
  satisfies the invariant with the extents and the names of the dimensions exchanged, and the element at row \<open>j\<close> and
  column \<open>i\<close> of the result is the one at row \<open>i\<close> and column \<open>j\<close> of the operand, with a range error exactly where the operand
  has one; transposing again gives back the content, the extents and the names.\<close>

theorem transpose_correct:
  fixes t :: "'a::linorder array"
  assumes "array_wf (<) t" "adim t = [r, c]"
  shows "\<exists>a b. transpose_array (<) tn init junk t = Inr a \<and> array_wf (<) a \<and> adim a = [c, r] \<and> map labels (anames a) = rev (map labels (anames t)) \<and>
    (\<forall>i j. array_at_multi a [j, i] = array_at_multi t [i, j]) \<and>
    transpose_array (<) tn init junk a = Inr b \<and> content b = content t \<and> adim b = adim t \<and> map labels (anames b) = map labels (anames t)"
proof -
  have asym: "asymp ((<) :: 'a \<Rightarrow> 'a \<Rightarrow> bool)" by (rule asymp_on_less)
  obtain a where a: "transpose_array (<) tn init junk t = Inr a" "array_wf (<) a" "adim a = [c, r]"
    "\<forall>j<r. elems (cols a ! j) = map (\<lambda>k. elems (cols t ! k) ! j) [0..<c]" "map labels (anames a) = rev (map labels (anames t))"
    using transpose_ok [OF assms asym] by blast
  obtain b where b: "transpose_array (<) tn init junk a = Inr b" "array_wf (<) b" "adim b = [r, c]"
    "\<forall>j<c. elems (cols b ! j) = map (\<lambda>k. elems (cols a ! k) ! j) [0..<r]" "map labels (anames b) = rev (map labels (anames a))"
    using transpose_ok [OF a(2,3) asym] by blast
  note M = matrix_cols [OF assms] matrix_cols [OF a(2,3)] matrix_cols [OF b(2,3)]
  have "map elems (cols b) = map elems (cols t)"
    using a(4) b(4) M by (auto intro!: nth_equalityI)
  then have content: "content b = content t" by (simp add: content_def)
  have "array_at_multi a [j, i] = array_at_multi t [i, j]" for i j
    using a(4) M by (simp add: matrix_at [OF assms] matrix_at [OF a(2,3)])
  with a b content assms(2) show ?thesis by auto
qed

theorem transpose_correct_witness:
  "\<exists>a b. transpose_array (<) 0 0 int array_example = Inr a \<and> array_at_multi a [1, 0] = array_at_multi array_example [0, 1] \<and>
     transpose_array (<) 0 0 int a = Inr b \<and> content b = [5, 3, 4, 9 :: int]"
proof -
  have "adim array_example = [2, 2]" "content array_example = [5, 3, 4, 9]" by (simp_all add: array_example_def content_def)
  then show ?thesis using transpose_correct [OF array_example_wf, of 2 2 0 0 int] by auto
qed

text \<open>The element-wise application of a function to two arrays: an operand with a single element is combined with every
  element of the other one and the result has the extents of that other one, otherwise operands of the same extents are
  combined element by element and operands of different extents are refused; every result satisfies the
  invariant of arrays, its ordered flags included, whatever the function is.\<close>

theorem apply_arrays_correct:
  fixes F :: "'t \<Rightarrow> 'u \<Rightarrow> 'r::linorder"
  assumes "array_wf cmpt t" "array_wf cmpu u" "adim t \<noteq> []" "adim u \<noteq> []"
  shows "if asize t = 1 then \<exists>r. apply_arrays (<) tn F t u = Inr r \<and> array_wf (<) r \<and> adim r = adim u \<and> content r = map (F (content t ! 0)) (content u)
    else if asize u = 1 then \<exists>r. apply_arrays (<) tn F t u = Inr r \<and> array_wf (<) r \<and> adim r = adim t \<and> content r = map (\<lambda>x. F x (content u ! 0)) (content t)
    else if adim t = adim u then \<exists>r. apply_arrays (<) tn F t u = Inr r \<and> array_wf (<) r \<and> adim r = adim u \<and> content r = map2 F (content t) (content u)
    else apply_arrays (<) tn F t u = Inl (RangeError ''incompatible array sizes'')"
proof -
  have asym: "asymp ((<) :: 'r \<Rightarrow> 'r \<Rightarrow> bool)" by (rule asymp_on_less)
  have first: "array_at t 0 = Inr (content t ! 0)" if "asize t = 1" using array_at_content [OF assms(1), of 0] that by simp
  have second: "array_at u 0 = Inr (content u ! 0)" if "asize u = 1" using array_at_content [OF assms(2), of 0] that by simp
  show ?thesis
    using map_scalar_ok [OF assms(2,4) asym, of tn "F (content t ! 0)"] map_scalar_ok [OF assms(1,3) asym, of tn "\<lambda>x. F x (content u ! 0)"]
      apply_same_ok [OF assms(1,2) _ assms(4) asym, of tn F] first second
    by (auto simp: apply_arrays_def apply_scalar_left_def apply_scalar_right_def)
qed

theorem apply_arrays_correct_witness:
  "\<exists>r. apply_arrays (<) 0 (\<lambda>x y. x + y) array_example array_example = Inr r \<and> content r = [10, 6, 8, 18 :: int]"
proof -
  have "adim array_example = [2, 2]" "content array_example = [5, 3, 4, 9]" "asize array_example = 4"
    by (simp_all add: array_example_def content_def asize_def nrows_def size_mul_def)
  then show ?thesis using apply_arrays_correct [OF array_example_wf array_example_wf, of 0 "\<lambda>x y. x + y"] by auto
qed

end
