(* ===== verification/Zts_Bind.thy ===== *)
theory Zts_Bind
  imports Zts Array_Ops
begin

text \<open>
  \<open>zts::abind\<close> (\<open>src/src/zts.cpp\<close>): binding a series to a series, and an array of doubles to a series. The result is the series
  after the call beside the exception, because the index is extended before the array is checked.
\<close>

definition zts_abind ::
  "(64 word \<Rightarrow> 64 word \<Rightarrow> bool) \<Rightarrow> 64 word \<Rightarrow> (nat \<Rightarrow> 64 word) \<Rightarrow> bool \<Rightarrow> zts \<Rightarrow> nat \<Rightarrow> string \<Rightarrow> zts \<Rightarrow> zts \<times> unit res" where
  "zts_abind cmp init junk self u d prefix z =
     (case (if d = 0 then bindR (array_concat (<) id (zidx u) '''' (zidx z)) (\<lambda>i. Inr (z\<lparr>zidx := i\<rparr>)) else Inr z) of
        Inl e \<Rightarrow> (z, Inl e)
      | Inr z1 \<Rightarrow>
          (case abind cmp cmp 0 0 init init junk junk id FlexAlloc self (zarr u) d prefix (zarr z1) of
             Inl e \<Rightarrow> (z1, Inl e)
           | Inr a \<Rightarrow> (z1\<lparr>zarr := a\<rparr>, Inr ())))"

definition zts_abind_array ::
  "(64 word \<Rightarrow> 64 word \<Rightarrow> bool) \<Rightarrow> 64 word \<Rightarrow> (nat \<Rightarrow> 64 word) \<Rightarrow> bool \<Rightarrow> 64 word array \<Rightarrow> nat \<Rightarrow> string \<Rightarrow> zts \<Rightarrow> zts \<times> unit res" where
  "zts_abind_array cmp init junk self u d prefix z =
     (if d = 0 then (z, Inl (RangeError ''can't bind an array to a zts in first dimension''))
      else
        (case abind cmp cmp 0 0 init init junk junk id FlexAlloc self u d prefix (zarr z) of
           Inl e \<Rightarrow> (z, Inl e)
         | Inr a \<Rightarrow> (z\<lparr>zarr := a\<rparr>, Inr ())))"

section \<open>The built-in bind on series\<close>

text \<open>The arguments of \<open>abind\<close>, \<open>rbind\<close> and \<open>cbind\<close> when one of them is a series (\<open>src/src/base_funcs_array.cpp\<close>), each with its name.\<close>

datatype bind_arg = ZtsArg zts | DoubleArg "64 word array"

definition check_pair :: "zts \<Rightarrow> zts \<Rightarrow> unit res" where
  "check_pair prev cur =
     (if \<not> checkdims (adim (zarr prev)) (adim (zarr cur)) 0 then Inl (EvalException ''invalid dimensions for abind'')
      else
        bindR (getdim (zarr prev) 0) (\<lambda>prev_rows. bindR (getdim (zarr cur) 0) (\<lambda>cur_rows.
        bindR (if prev_rows \<noteq> 0 \<and> cur_rows \<noteq> 0
               then bindR (array_at (zidx prev) (asize (zidx prev) - 1)) (\<lambda>l. bindR (array_at (zidx cur) 0) (\<lambda>f. Inr (l \<ge> f)))
               else Inr False) (\<lambda>bad.
          if bad then Inl (EvalException ''non-ascending index for rbind'') else Inr ()))))"

fun checkZtsBindInDim0 :: "zts option \<Rightarrow> (string \<times> bind_arg) list \<Rightarrow> unit res" where
  "checkZtsBindInDim0 prev [] = Inr ()"
| "checkZtsBindInDim0 prev ((nm, DoubleArg a) # args) = Inl (EvalException (CHR 0x27 # ''zts' bind in first dimension requires zts 'argument'' @ [CHR 0x27]))"
| "checkZtsBindInDim0 prev ((nm, ZtsArg z) # args) =
     bindR (case prev of None \<Rightarrow> Inr () | Some p \<Rightarrow> check_pair p z) (\<lambda>_. checkZtsBindInDim0 (Some z) args)"

text \<open>In the other dimensions the series must have the index of the first one; the first argument is not compared.\<close>

fun first_zts :: "(string \<times> bind_arg) list \<Rightarrow> zts option" where
  "first_zts [] = None"
| "first_zts ((nm, ZtsArg z) # args) = Some z"
| "first_zts ((nm, DoubleArg a) # args) = first_zts args"

definition check_arg :: "zts \<Rightarrow> nat \<Rightarrow> bind_arg \<Rightarrow> unit res" where
  "check_arg z dim arg =
     (case arg of
        ZtsArg cur \<Rightarrow> bindR (getcol (zidx cur) 0) (\<lambda>ci. bindR (getcol (zidx z) 0) (\<lambda>zi.
          if \<not> vec_eq ci zi then Inl (EvalException (CHR 0x27 # ''zts' index mismatch for abind''))
          else if \<not> checkdims (adim (zarr z)) (adim (zarr cur)) dim then Inl (EvalException ''invalid dimensions for abind'')
          else Inr ()))
      | DoubleArg cur \<Rightarrow>
          if \<not> checkdims (adim (zarr z)) (adim cur) dim then Inl (EvalException ''invalid dimensions for abind'') else Inr ())"

definition checkZtsBindInDimGt0 :: "nat \<Rightarrow> (string \<times> bind_arg) list \<Rightarrow> int array res" where
  "checkZtsBindInDimGt0 dim args =
     (case first_zts args of
        None \<Rightarrow> Inl UB
      | Some z \<Rightarrow> bindR (foldR (\<lambda>(nm, arg) _. check_arg z dim arg) (tl args) ()) (\<lambda>_. Inr (zidx z)))"

definition bind_one :: "(64 word \<Rightarrow> 64 word \<Rightarrow> bool) \<Rightarrow> 64 word \<Rightarrow> (nat \<Rightarrow> 64 word) \<Rightarrow> nat \<Rightarrow> string \<times> bind_arg \<Rightarrow> zts \<Rightarrow> zts res" where
  "bind_one cmp init junk dim na z =
     (case na of
        (nm, DoubleArg a) \<Rightarrow>
          bindR (if isVector a \<and> dim = 0 then transpose_array cmp 0 init junk a else Inr a) (\<lambda>a'.
            case zts_abind_array cmp init junk False a' dim nm z of (z', Inl e) \<Rightarrow> Inl e | (z', Inr u) \<Rightarrow> Inr z')
      | (nm, ZtsArg u) \<Rightarrow> (case zts_abind cmp init junk False u dim nm z of (z', Inl e) \<Rightarrow> Inl e | (z', Inr u) \<Rightarrow> Inr z'))"

definition bindVector_zts ::
  "(64 word \<Rightarrow> 64 word \<Rightarrow> bool) \<Rightarrow> 64 word \<Rightarrow> (nat \<Rightarrow> 64 word) \<Rightarrow> nat \<Rightarrow> (string \<times> bind_arg) list \<Rightarrow> zts \<Rightarrow> zts res" where
  "bindVector_zts cmp init junk dim args r = foldR (bind_one cmp init junk dim) args r"

definition bindHelper_zts ::
  "(64 word \<Rightarrow> 64 word \<Rightarrow> bool) \<Rightarrow> 64 word \<Rightarrow> (nat \<Rightarrow> 64 word) \<Rightarrow> nat \<Rightarrow> (string \<times> bind_arg) list \<Rightarrow> zts res" where
  "bindHelper_zts cmp init junk dim args =
     (if dim = 0 then
        bindR (checkZtsBindInDim0 None args) (\<lambda>_.
          case args of
            (nm, ZtsArg z) # rest \<Rightarrow> bindR (zts_of_arrays (zidx z) (zarr z)) (bindVector_zts cmp init junk dim rest)
          | _ \<Rightarrow> Inl UB)
      else
        bindR (checkZtsBindInDimGt0 dim args) (\<lambda>i. bindR (array_rsv MemAlloc 0 [] []) (\<lambda>a.
        bindR (zts_of_arrays i a) (bindVector_zts cmp init junk dim args))))"

section \<open>Copies of arrays\<close>

lemma array_copy_ok:
  assumes wf: "array_wf cmp a" and al: "al \<noteq> NullAlloc"
  shows "\<exists>b. array_copy al a = Inr b \<and> array_wf cmp b \<and> adim b = adim a \<and> cols b = map (alloc_update (\<lambda>_. al)) (cols a) \<and>
    map labels (anames b) = map labels (anames a)"
proof -
  note D = array_wfD [OF wf]
  let ?g = "\<lambda>j. \<lparr>dsz = adim a ! j, dnames = (dnames (anames a ! j))\<lparr>alloc := al\<rparr>, namesMap = putNamesInMap (elems (dnames (anames a ! j))) []\<rparr>"
  let ?ns = "map ?g [0..<length (anames a)]"
  let ?b = "\<lparr>adim = adim a, cols = map (alloc_update (\<lambda>_. al)) (cols a), anames = ?ns\<rparr>"
  have "foldR (\<lambda>v vs. bindR (vec_copy v al) (\<lambda>w. Inr (vs @ [w]))) (cols a) [] = Inr (map (alloc_update (\<lambda>_. al)) (cols a))"
    using al by (simp add: vec_copy_def)
  moreover have "foldR (\<lambda>j ns. bindR (dim_at (adim a) j) (\<lambda>d. bindR (vec_copy (dnames (anames a ! j)) al)
              (\<lambda>nv. bindR (mk_dname d nv) (\<lambda>n. Inr (ns @ [n]))))) [0..<length (anames a)] [] = foldR (\<lambda>j ns. Inr (ns @ [?g j])) [0..<length (anames a)] []"
  proof (rule foldR_body_cong)
    fix j and ns :: "dname list"
    assume "j \<in> set [0..<length (anames a)]"
    then have j: "j < length (adim a)" using D(3) by simp
    then have "dim_at (adim a) j = Inr (adim a ! j)" by (auto simp: dim_at_def size_sub_def)
    then show "bindR (dim_at (adim a) j) (\<lambda>d. bindR (vec_copy (dnames (anames a ! j)) al) (\<lambda>nv. bindR (mk_dname d nv) (\<lambda>n. Inr (ns @ [n])))) = Inr (ns @ [?g j])"
      using D(5) [OF j] al by (auto simp: vec_copy_def mk_dname_def dname_wf_def)
  qed
  then have "array_copy al a = Inr ?b" using calculation by (simp add: array_copy_def)
  moreover have "array_wf cmp ?b"
    using wf D(3) D(5) al
    by (auto simp: array_wf_def names_wf_def list_all2_conv_all_nth dname_wf_def map_ok_def putNamesInMap_of list_all_length col_wf_def vec_inv_def nrows_def)
  moreover have "map labels ?ns = map labels (anames a)"
    using D(3) D(5) by (intro nth_equalityI) (auto simp: labels_def)
  ultimately show ?thesis by (intro exI [of _ ?b]) simp
qed

lemma zts_of_arrays_ok:
  assumes wf: "array_wf (<) i" "array_wf cmp a" "adim i = [n]" "adim a \<noteq> []" "adim a ! 0 = n" "isOrdered i"
  shows "\<exists>z. zts_of_arrays i a = Inr z \<and> zts_wf cmp z \<and> content (zidx z) = content i \<and> adim (zarr z) = adim a \<and> map elems (cols (zarr z)) = map elems (cols a)"
proof -
  obtain a' where a': "array_copy FlexAlloc a = Inr a'" "array_wf cmp a'" "adim a' = adim a" "cols a' = map (alloc_update (\<lambda>_. FlexAlloc)) (cols a)"
    using array_copy_ok [OF wf(2)] by blast
  obtain i' where i': "array_copy FlexAlloc i = Inr i'" "array_wf (<) i'" "adim i' = adim i" "cols i' = map (alloc_update (\<lambda>_. FlexAlloc)) (cols i)"
    using array_copy_ok [OF wf(1)] by blast
  have n: "length (anames i') = 1" using array_wfD(3) [OF i'(2)] i'(3) wf(3) by simp
  then have drop: "array_drop i' = Inr i'" using i'(3) wf(3) by (cases "anames i'") (auto simp: array_drop_def Let_def)
  have "asize i' = n" using array_wfD(1,4) [OF i'(2)] i'(3) wf(3) by (simp add: ncols_of_def nrows_def)
  moreover have ord: "isOrdered i'" using wf(6) i'(4) by (simp add: isOrdered_def list_all_length)
  ultimately have "zts_of_arrays i a = Inr \<lparr>zarr = a', zidx = i'\<rparr>"
    using a' i' drop wf(3-5) by (simp add: zts_of_arrays_def checked_zts_def checkDims_def)
  moreover have "zts_wf cmp \<lparr>zarr = a', zidx = i'\<rparr>"
    using a' i' wf(3-5) ord by (simp add: zts_wf_def nrows_def)
  ultimately show ?thesis using a'(3,4) i'(4)
    by (intro exI [of _ "\<lparr>zarr = a', zidx = i'\<rparr>"]) (simp add: content_def o_def)
qed

section \<open>Binding rows\<close>

lemma push_run_ordered:
  "foldR (push_back cmp) ys v = Inr w \<Longrightarrow> ordered v \<or> elems v = [] \<Longrightarrow> successively cmp ys \<Longrightarrow> elems v = [] \<or> ys = [] \<or> cmp (last (elems v)) (hd ys) \<Longrightarrow>
     ordered w \<or> elems w = []"
proof (induction ys arbitrary: v)
  case (Cons y ys)
  then obtain v1 where v1: "push_back cmp y v = Inr v1" "foldR (push_back cmp) ys v1 = Inr w" by (cases "push_back cmp y v") auto
  have "ordered v1" "elems v1 = elems v @ [y]" using push_back_ordered [OF v1(1)] push_back_elems [OF v1(1)] Cons.prems by auto
  with Cons.IH [OF v1(2)] Cons.prems(3) show ?case by (cases ys) auto
qed auto

lemma foldR_cong_inv:
  assumes "I s" "\<And>x s. x \<in> set xs \<Longrightarrow> I s \<Longrightarrow> f x s = g x s" "\<And>x s t. I s \<Longrightarrow> g x s = Inr t \<Longrightarrow> I t"
  shows "foldR f xs s = foldR g xs s"
  using assms(1,2)
proof (induction xs arbitrary: s)
  case (Cons x xs)
  then show ?case using assms(3) [of s x] by (cases "g x s") auto
qed simp

lemma bind_rows_ok:
  assumes asym: "asymp cmp" and wf: "list_all (col_wf cmp n) vs" "list_all (col_wf cmp m) us" "length us = length vs"
  shows "\<exists>ws. bind_rows cmp tn id al us vs = Inr ws \<and> length ws = length vs \<and> list_all (col_wf cmp (n + m)) ws \<and>
    (\<forall>c<length vs. elems (ws ! c) = elems (vs ! c) @ elems (us ! c))"
proof -
  let ?f = "\<lambda>j v. foldR (push_back cmp) (elems (us ! j)) v"
  let ?g = "\<lambda>j vs. bindR (std_at vs j) (\<lambda>v. bindR (?f j v) (\<lambda>w. Inr (vs[j := w])))"
  have "bind_rows cmp tn id al us vs = foldR ?g [0..<length us] vs"
    unfolding bind_rows_def
    by (rule foldR_cong_inv [where I = "\<lambda>ws. length ws = length vs"]) (use wf(3) in \<open>auto simp: bindR_eq_Inr\<close>)
  moreover have "\<exists>w. ?f j v = Inr w \<and> col_wf cmp (n + m) w \<and> elems w = elems v @ elems (us ! j)" if "j < length vs" "col_wf cmp n v" for j v
    using push_run [OF _ asym, of v "elems (us ! j)"] that wf(2,3) by (auto simp: col_wf_def list_all_length)
  then obtain ws where "foldR ?g [0..<length vs] vs = Inr (ws @ drop (length vs) vs)" "length ws = length vs"
      "\<forall>c<length vs. col_wf cmp (n + m) (ws ! c) \<and> elems (ws ! c) = elems (vs ! c) @ elems (us ! c)"
    using update_cols_each [OF refl order_refl, of vs ?f "\<lambda>c w. col_wf cmp (n + m) w \<and> elems w = elems (vs ! c) @ elems (us ! c)"] wf(1)
    by (auto simp: list_all_length)
  ultimately show ?thesis using wf(3) by (auto simp: list_all_length)
qed

lemma abind_rows_ok:
  assumes asym: "asymp cmp" and wf: "array_wf cmp a" "array_wf cmp u" and dims: "adim a = n # ds" "adim u = m # ds" "ds \<noteq> []"
    and size: "prod_list ds * (n + m) \<le> SIZE_MAX"
  shows "\<exists>a'. abind cmp cmp tn tn init init junk junk id al False u 0 '''' a = Inr a' \<and> array_wf cmp a' \<and> adim a' = (n + m) # ds \<and>
    (\<forall>c<length (cols a). elems (cols a' ! c) = elems (cols a ! c) @ elems (cols u ! c))"
proof -
  note A = array_wfD [OF wf(1)] and U = array_wfD [OF wf(2)]
  have l: "length (cols a) = prod_list ds" "length (cols u) = prod_list ds" "nrows a = n" "nrows u = m"
    using A(1) U(1) dims by (simp_all add: ncols_of_def nrows_def)
  obtain ws where ws: "bind_rows cmp tn id al (cols u) (cols a) = Inr ws" "length ws = length (cols a)" "list_all (col_wf cmp (n + m)) ws"
      "\<forall>c<length (cols a). elems (ws ! c) = elems (cols a ! c) @ elems (cols u ! c)"
    using bind_rows_ok [OF asym, of n "cols a" m "cols u" tn al] wf l by (auto simp: array_wf_def)
  obtain nm where nm: "addafter_dn (anames u ! 0) (anames a ! 0) = Inr nm" "dname_wf nm" "map_ok nm" "dsz nm = n + m"
    using addafter_dn_ok [of "anames a ! 0" "anames u ! 0"] A(5) [of 0] U(5) [of 0] dims by auto
  let ?ns = "bind_other_names 0 u ((anames a)[0 := nm])"
  let ?a = "a\<lparr>cols := ws, anames := ?ns, adim := (n + m) # ds\<rparr>"
  have "checkdims (adim a) (adim u) 0" using dims by (auto simp: checkdims_def Let_def list_all_length nth_Cons')
  moreover have "bind_dims al (adim u) 0 a = Inr a" using dims by (simp add: bind_dims_def)
  moreover have "std_at (anames a) 0 = Inr (anames a ! 0)" "dim_at (adim a) 0 = Inr n" using A(3) dims by (simp_all add: std_at_def)
  ultimately have ab: "abind cmp cmp tn tn init init junk junk id al False u 0 '''' a = Inr ?a"
    using dims ws(1) nm(1) by (simp add: abind_def abind_body_def abind_data_def addprefix_def)
  have ns: "dname_wf (?ns ! j) \<and> map_ok (?ns ! j) \<and> dsz (?ns ! j) = ((n + m) # ds) ! j" if j: "j < length (adim a)" for j
  proof (cases j)
    case 0
    then show ?thesis using nm A(3) j by (simp add: bind_other_names_def)
  next
    case (Suc k)
    then have "?ns ! j = anames a ! j \<or> ?ns ! j = anames u ! j" using A(3) j by (simp add: bind_other_names_def)
    moreover have "((n + m) # ds) ! j = adim a ! j" "adim u ! j = adim a ! j" "j < length (adim u)" using Suc dims j by simp_all
    ultimately show ?thesis using A(5) [OF j] U(5) [of j] by auto
  qed
  have "length ?ns = length (adim a)" using A(3) by (simp add: bind_other_names_def)
  with ns have "names_wf ((n + m) # ds) ?ns" using dims(1) by (simp add: names_wf_def list_all2_conv_all_nth)
  then have "array_wf cmp ?a" using ws l size by (simp add: array_wf_def ncols_of_def nrows_def)
  with ab ws(4) show ?thesis by (intro exI [of _ ?a]) simp
qed

lemma concat_index_ok:
  assumes i: "array_wf (<) i" "adim i = [n]" "isOrdered i" and u: "array_wf (<) u" "adim u = [m]" "sorted_wrt (<) (content u)"
    and next_: "n = 0 \<or> m = 0 \<or> last (content i) < hd (content u)" and size: "n + m \<le> SIZE_MAX"
  shows "\<exists>i'. array_concat (<) id u '''' i = Inr i' \<and> array_wf (<) i' \<and> adim i' = [n + m] \<and> isOrdered i' \<and> content i' = content i @ content (u :: int array)"
proof -
  note I = array_wfD [OF i(1)] and U = array_wfD [OF u(1)]
  obtain v uv where c: "cols i = [v]" "cols u = [uv]"
    using I(1) U(1) i(2) u(2) by (auto simp: ncols_of_def length_Suc_conv)
  have v: "col_wf (<) n v" "col_wf (<) m uv" "ordered v" "content i = elems v" "content u = elems uv"
    using I(2) [of 0] U(2) [of 0] c i(2,3) u(2) by (simp_all add: nrows_def isOrdered_def content_def)
  obtain w where w: "foldR (push_back (<)) (elems uv) v = Inr w" "elems w = elems v @ elems uv" "alloc w \<noteq> NullAlloc" "vec_inv (<) w"
    using push_run [of v "(<)" "elems uv"] v(1) by (auto simp: col_wf_def)
  have "elems v = [] \<or> elems uv = [] \<or> last (elems v) < hd (elems uv)" using next_ v by (auto simp: col_wf_def)
  then have ord: "ordered w \<or> elems w = []"
    using push_run_ordered [OF w(1)] v(3,5) u(3) by (auto intro: successively_if_sorted_wrt)
  have ordw: "ordered w"
  proof (cases "elems uv")
    case Nil
    then show ?thesis using w(1) v(3) by simp
  qed (use ord w(2) in auto)
  obtain nm where nm: "addafter_dn (anames u ! 0) (anames i ! 0) = Inr nm" "dname_wf nm" "map_ok nm" "dsz nm = n + m"
    using addafter_dn_ok [of "anames i ! 0" "anames u ! 0"] I(5) [of 0] U(5) [of 0] i(2) u(2) by auto
  let ?i = "i\<lparr>cols := [w], anames := (anames i)[0 := nm], adim := [n + m]\<rparr>"
  have "std_at (anames u) 0 = Inr (anames u ! 0)" "std_at (anames i) 0 = Inr (anames i ! 0)" using I(3) U(3) i(2) u(2) by (simp_all add: std_at_def)
  then have "array_concat (<) id u '''' i = Inr ?i"
    using c i(2) u(2) w(1) nm(1) by (simp add: array_concat_def std_at_def addprefix_def)
  moreover have "array_wf (<) ?i"
    using array_wf_grown [OF i(1,2), of "[w]" m nm] w v nm size by (simp add: col_wf_def)
  ultimately show ?thesis using w(2) v(4,5) ordw by (intro exI [of _ ?i]) (simp add: content_def isOrdered_def)
qed

lemma zts_abind_rows:
  assumes asym: "asymp lt" and r: "zts_wf lt r" "adim (zarr r) = n # ds" and u: "zts_wf lt u" "adim (zarr u) = m # ds" "ds \<noteq> []"
    and times: "sorted_wrt (<) (content (zidx r) @ content (zidx u))" and size: "prod_list ds * (n + m) \<le> SIZE_MAX" "n + m \<le> SIZE_MAX"
  shows "\<exists>z. bind_one lt init junk 0 ('''', ZtsArg u) r = Inr z \<and> zts_wf lt z \<and> adim (zarr z) = (n + m) # ds \<and>
    content (zidx z) = content (zidx r) @ content (zidx u) \<and>
    (\<forall>c<prod_list ds. elems (cols (zarr z) ! c) = elems (cols (zarr r) ! c) @ elems (cols (zarr u) ! c))"
proof -
  have w: "array_wf lt (zarr r)" "array_wf lt (zarr u)" "array_wf (<) (zidx r)" "array_wf (<) (zidx u)" "adim (zidx r) = [n]" "adim (zidx u) = [m]"
    "isOrdered (zidx r)" using r u by (simp_all add: zts_wf_def nrows_def)
  have l: "length (content (zidx r)) = n" "length (content (zidx u)) = m"
    using content_length [OF w(3)] content_length [OF w(4)] array_wfD(1,4) [OF w(3)] array_wfD(1,4) [OF w(4)] w(5,6) by (simp_all add: ncols_of_def nrows_def)
  have "n = 0 \<or> m = 0 \<or> last (content (zidx r)) < hd (content (zidx u))"
    using times l by (cases "content (zidx r) = [] \<or> content (zidx u) = []") (auto simp: sorted_wrt_append)
  then obtain i where i: "array_concat (<) id (zidx u) '''' (zidx r) = Inr i" "array_wf (<) i" "adim i = [n + m]" "isOrdered i"
      "content i = content (zidx r) @ content (zidx u)"
    using concat_index_ok [OF w(3,5,7,4,6) _ _ size(2)] times by (auto simp: sorted_wrt_append)
  obtain a where a: "abind lt lt 0 0 init init junk junk id FlexAlloc False (zarr u) 0 '''' (zarr r) = Inr a" "array_wf lt a" "adim a = (n + m) # ds"
      "\<forall>c<length (cols (zarr r)). elems (cols a ! c) = elems (cols (zarr r) ! c) @ elems (cols (zarr u) ! c)"
    using abind_rows_ok [OF asym w(1,2) r(2) u(2,3) size(1)] by blast
  have "bind_one lt init junk 0 ('''', ZtsArg u) r = Inr \<lparr>zarr = a, zidx = i\<rparr>" using i(1) a(1) by (simp add: bind_one_def zts_abind_def)
  moreover have "zts_wf lt \<lparr>zarr = a, zidx = i\<rparr>" using i a by (simp add: zts_wf_def nrows_def)
  ultimately show ?thesis using i(5) a(3,4) array_wfD(1) [OF w(1)] r(2)
    by (intro exI [of _ "\<lparr>zarr = a, zidx = i\<rparr>"]) (simp add: ncols_of_def)
qed

section \<open>Binding series by rows\<close>

abbreviation times_of :: "zts \<Rightarrow> int list" where
  "times_of z \<equiv> content (zidx z)"

text \<open>Series with data, of the same extents but for the rows.\<close>

definition row_series :: "(64 word \<Rightarrow> 64 word \<Rightarrow> bool) \<Rightarrow> nat list \<Rightarrow> zts \<Rightarrow> bool" where
  "row_series lt ds z \<longleftrightarrow> zts_wf lt z \<and> tl (adim (zarr z)) = ds \<and> nrows (zarr z) > 0 \<and> sorted_wrt (<) (times_of z)"

lemma row_series_times:
  assumes "row_series lt ds z"
  shows "length (times_of z) = nrows (zarr z)" "times_of z \<noteq> []" "adim (zarr z) = nrows (zarr z) # ds"
proof -
  have w: "array_wf (<) (zidx z)" "adim (zidx z) = [nrows (zarr z)]" "adim (zarr z) \<noteq> []" using assms by (simp_all add: row_series_def zts_wf_def)
  then show l: "length (times_of z) = nrows (zarr z)"
    using content_length [OF w(1)] array_wfD(1,4) [OF w(1)] by (simp add: ncols_of_def nrows_def)
  then show "times_of z \<noteq> []" using assms by (auto simp: row_series_def)
  show "adim (zarr z) = nrows (zarr z) # ds" using w(3) assms by (cases "adim (zarr z)") (auto simp: row_series_def nrows_def)
qed

lemma check_pair_eq:
  assumes "row_series lt ds p" "row_series lt ds z"
  shows "check_pair p z = (if last (times_of p) < hd (times_of z) then Inr () else Inl (EvalException ''non-ascending index for rbind''))"
proof -
  note P = row_series_times [OF assms(1)] and Z = row_series_times [OF assms(2)]
  have pos: "0 < nrows (zarr p)" "0 < nrows (zarr z)" using assms by (simp_all add: row_series_def)
  have "checkdims (adim (zarr p)) (adim (zarr z)) 0" by (subst P(3), subst Z(3)) (auto simp: checkdims_def Let_def list_all_length nth_Cons')
  moreover have "getdim (zarr p) 0 = Inr (nrows (zarr p))" "getdim (zarr z) 0 = Inr (nrows (zarr z))"
    by (subst getdim_def, subst P(3), subst P(3), simp) (subst getdim_def, subst Z(3), subst Z(3), simp)
  moreover have "array_wf (<) (zidx p)" "array_wf (<) (zidx z)" using assms by (simp_all add: row_series_def zts_wf_def)
  then have "array_at (zidx p) (asize (zidx p) - 1) = Inr (last (times_of p))" "array_at (zidx z) 0 = Inr (hd (times_of z))"
    using P Z pos content_length [of "(<)" "zidx p"] content_length [of "(<)" "zidx z"]
    by (simp_all add: array_at_content last_conv_nth hd_conv_nth)
  ultimately show ?thesis using pos by (auto simp: check_pair_def)
qed

lemma check_dim0_eq:
  assumes "\<forall>z\<in>set (p # zs). row_series lt ds z"
  shows "checkZtsBindInDim0 (Some p) (map (\<lambda>z. ('''', ZtsArg z)) zs) =
    (if sorted_wrt (<) (concat (map times_of (p # zs))) then Inr () else Inl (EvalException ''non-ascending index for rbind''))"
  using assms
proof (induction zs arbitrary: p)
  case Nil
  then show ?case by (simp add: row_series_def)
next
  case (Cons z zs)
  have ne: "times_of p \<noteq> []" "times_of z \<noteq> []" and s: "sorted_wrt (<) (times_of p)"
    using Cons.prems row_series_times(2) by (auto simp: row_series_def)
  have "sorted_wrt (<) (times_of p @ concat (map times_of (z # zs))) \<longleftrightarrow>
      last (times_of p) < hd (times_of z) \<and> sorted_wrt (<) (concat (map times_of (z # zs)))" (is "?l \<longleftrightarrow> ?r")
  proof
    assume ?r
    then have "\<forall>t\<in>set (concat (map times_of (z # zs))). hd (times_of z) \<le> t"
      using ne(2) by (cases "times_of z") (auto simp: less_imp_le)
    moreover have "\<forall>t\<in>set (times_of p). t \<le> last (times_of p)"
      using s ne(1) by (cases "times_of p" rule: rev_cases) (auto simp: sorted_wrt_append less_imp_le)
    ultimately show ?l using \<open>?r\<close> s by (subst sorted_wrt_append) force
  qed (use ne s in \<open>auto simp: sorted_wrt_append\<close>)
  then show ?case using Cons.IH [of z] Cons.prems check_pair_eq [of lt ds p z] by auto
qed

lemma bind_series_ok:
  assumes asym: "asymp lt" and ds: "ds \<noteq> []" and r: "zts_wf lt r" "adim (zarr r) = n # ds" and zs: "\<forall>z\<in>set zs. row_series lt ds z"
    and times: "sorted_wrt (<) (times_of r @ concat (map times_of zs))"
    and size: "prod_list ds * (n + sum_list (map (nrows \<circ> zarr) zs)) \<le> SIZE_MAX" "n + sum_list (map (nrows \<circ> zarr) zs) \<le> SIZE_MAX"
  shows "\<exists>z. bindVector_zts lt init junk 0 (map (\<lambda>z. ('''', ZtsArg z)) zs) r = Inr z \<and> zts_wf lt z \<and> times_of z = times_of r @ concat (map times_of zs) \<and>
    (\<forall>c<prod_list ds. elems (cols (zarr z) ! c) = elems (cols (zarr r) ! c) @ concat (map (\<lambda>z. elems (cols (zarr z) ! c)) zs))"
  using r zs times size
proof (induction zs arbitrary: r n)
  case Nil
  then show ?case by (simp add: bindVector_zts_def)
next
  case (Cons u zs)
  let ?m = "nrows (zarr u)"
  have u: "zts_wf lt u" "adim (zarr u) = ?m # ds" using Cons.prems(3) row_series_times(3) [of lt ds u] by (auto simp: row_series_def)
  have "prod_list ds * (n + ?m) \<le> prod_list ds * (n + sum_list (map (nrows \<circ> zarr) (u # zs)))" by (intro mult_le_mono2) simp
  then have sz: "prod_list ds * (n + ?m) \<le> SIZE_MAX" "n + ?m \<le> SIZE_MAX" using Cons.prems(5,6) by (linarith, simp)
  have t: "sorted_wrt (<) (times_of r @ times_of u)" using Cons.prems(4) by (auto simp: sorted_wrt_append)
  obtain z where z: "bind_one lt init junk 0 ('''', ZtsArg u) r = Inr z" "zts_wf lt z" "adim (zarr z) = (n + ?m) # ds" "times_of z = times_of r @ times_of u"
      "\<forall>c<prod_list ds. elems (cols (zarr z) ! c) = elems (cols (zarr r) ! c) @ elems (cols (zarr u) ! c)"
    using zts_abind_rows [OF asym Cons.prems(1,2) u ds t sz] by blast
  from Cons.IH [OF z(2,3)] Cons.prems(3-6) z(4) obtain z' where
    "bindVector_zts lt init junk 0 (map (\<lambda>z. ('''', ZtsArg z)) zs) z = Inr z'" "zts_wf lt z'" "times_of z' = times_of z @ concat (map times_of zs)"
    "\<forall>c<prod_list ds. elems (cols (zarr z') ! c) = elems (cols (zarr z) ! c) @ concat (map (\<lambda>z. elems (cols (zarr z) ! c)) zs)"
    by (auto simp: add.assoc)
  with z show ?case by (intro exI [of _ z']) (simp add: bindVector_zts_def)
qed

section \<open>Properties\<close>


lemma series_row: "row_series (<) [2] (series_example t)"
  using series_example_wf by (simp add: row_series_def series_example_facts)


section \<open>What binding does not check\<close>

text \<open>The first column of the example series alone.\<close>

definition one_column :: "int \<Rightarrow> zts" where
  "one_column t = (series_example t)\<lparr>zarr := \<lparr>adim = [1, 1], cols = take 1 (cols wire_example), anames = [unnamed MemAlloc 1, unnamed MemAlloc 1]\<rparr>\<rparr>"

lemma one_column_wf: "zts_wf (<) (one_column t)"
  by (simp add: one_column_def zts_wf_def series_example_def array_wf_def nrows_def ncols_of_def col_wf_def vec_inv_def names_wf_def unnamed_wf
      isOrdered_def SIZE_MAX_def wire_example_def)

lemmas bind_eval = zts_abind_def array_concat_def std_at_def one_column_def series_example_def wire_example_def unnamed_def
  push_back_def addprefix_def addafter_dn_def dim_at_def size_sub_def abind_def abind_body_def checkdims_def bind_dims_def
  abind_data_def bind_rows_def bind_other_names_def

text \<open>A bind that is refused because the columns differ leaves a series with more times than rows.\<close>

lemma refused_bind_breaks_series:
  "case zts_abind (<) 0 (\<lambda>_. 0) False (one_column 9) 0 '''' (series_example 7) of
     (z, r) \<Rightarrow> r = Inl (RangeError ''incorrect dimensions for abind'') \<and> content (zidx z) = [7, 9] \<and> nrows (zarr z) = 1 \<and> \<not> zts_wf (<) z"
  by (simp add: bind_eval zts_wf_def isOrdered_def nrows_def content_def)

text \<open>A series bound before its time is accepted: the index is no longer ascending.\<close>

lemma bind_accepts_earlier_times:
  "case zts_abind (<) 0 (\<lambda>_. 0) False (one_column 3) 0 '''' (one_column 7) of
     (z, r) \<Rightarrow> r = Inr () \<and> content (zidx z) = [7, 3] \<and> \<not> zts_wf (<) z"
  by (simp add: bind_eval zts_wf_def isOrdered_def nrows_def content_def)


text \<open>The check of the built-in compares neighbours only, so a series without rows between two others hides that they are out of order.\<close>

definition no_rows :: zts where
  "no_rows = \<lparr>zarr = \<lparr>adim = [0, 1], cols = [\<lparr>typenumber = 0, elems = [], ordered = True, capacity = 1024, alloc = MemAlloc\<rparr>],
                      anames = [unnamed MemAlloc 0, unnamed MemAlloc 1]\<rparr>,
              zidx = \<lparr>adim = [0], cols = [\<lparr>typenumber = 2, elems = [], ordered = True, capacity = 1024, alloc = MemAlloc\<rparr>],
                      anames = [unnamed MemAlloc 0]\<rparr>\<rparr>"

lemma no_rows_wf: "zts_wf (<) no_rows"
  by (simp add: no_rows_def zts_wf_def array_wf_def nrows_def ncols_of_def col_wf_def vec_inv_def names_wf_def unnamed_wf isOrdered_def SIZE_MAX_def)

lemma rbind_accepts_unordered:
  "\<exists>z. bindHelper_zts (<) 0 (\<lambda>_. 0) 0 [('''', ZtsArg (one_column 7)), ('''', ZtsArg no_rows), ('''', ZtsArg (one_column 3))] = Inr z \<and>
     content (zidx z) = [7, 3] \<and> \<not> zts_wf (<) z"
  by (simp add: bindHelper_zts_def check_pair_def getdim_def no_rows_def zts_of_arrays_def array_copy_def vec_copy_def mk_dname_def
      putNamesInMap_def checked_zts_def array_drop_def checkDims_def asize_def size_mul_def isOrdered_def bindVector_zts_def bind_one_def
      bind_eval zts_wf_def nrows_def content_def)

end
