(* ===== verification/Align.thy ===== *)
theory Align
  imports Zts_Bind "HOL-Library.Multiset"
begin

text \<open>
  Alignment of time series (\<open>src/src/timezone/ztime_vector.hpp\<close>, \<open>src/src/align_funcs.hpp\<close>, \<open>src/src/pseudovector.hpp\<close> and the
  alignment functions of \<open>src/src/zts.hpp\<close>). A series with times \<open>x\<close> is brought onto the times \<open>y\<close>: for each of them a window
  from \<open>start.plus(y, start[i])\<close> to \<open>end.plus(y, end[i])\<close> is searched. The offsets are durations or calendar periods; what is
  added to a time is the argument \<open>pls\<close> (for periods it depends on the time zone). Doubles are a type with a \<open>nan\<close>; their
  arithmetic is an argument.
\<close>

section \<open>Offsets\<close>

record 'u pseudo =
  pvec :: "'u vec"
  pscalar :: bool
  first_elt :: 'u

definition mk_pseudo :: "'u vec \<Rightarrow> 'u pseudo res" where
  "mk_pseudo v = bindR (vec_at v 0) (\<lambda>f. Inr \<lparr>pvec = v, pscalar = (vsize v = 1), first_elt = f\<rparr>)"

definition pseudo_at :: "'u pseudo \<Rightarrow> nat \<Rightarrow> 'u res" where
  "pseudo_at p i = (if pscalar p then Inr (first_elt p) else vec_at (pvec p) i)"

section \<open>Searching the windows\<close>

text \<open>The first loop stops at the limit \<open>lim\<close>: the size of \<open>x\<close> in \<open>align_closest\<close>, one past it in \<open>align_idx\<close> (\<open>ix <= x.size()\<close>).\<close>

function skip_before :: "nat \<Rightarrow> int vec \<Rightarrow> int \<Rightarrow> nat \<Rightarrow> nat res" where
  "skip_before lim x ystart ix =
     (if ix < lim then bindR (vec_at x ix) (\<lambda>t. if t < ystart then skip_before lim x ystart (ix + 1) else Inr ix)
      else Inr ix)"
  by pat_completeness auto
termination
  by (relation "measure (\<lambda>(lim, x, ystart, ix). lim - ix)") auto

declare skip_before.simps [simp del]

function go_closer :: "int vec \<Rightarrow> int \<Rightarrow> int \<Rightarrow> nat \<Rightarrow> nat res" where
  "go_closer x y yend ix =
     (if ix + 1 < vsize x then
        bindR (vec_at x (ix + 1)) (\<lambda>t1.
          if t1 \<le> yend then
            bindR (vec_at x ix) (\<lambda>t. if \<bar>t - y\<bar> > \<bar>t1 - y\<bar> then go_closer x y yend (ix + 1) else Inr ix)
          else Inr ix)
      else Inr ix)"
  by pat_completeness auto
termination
  by (relation "measure (\<lambda>(x, y, yend, ix). vsize x - ix)") auto

declare go_closer.simps [simp del]

definition xdata_size_error :: exn where
  "xdata_size_error = OutOfRange (CHR 0x27 # ''xdata' must have same size as 'x'' @ [CHR 0x27])"

text \<open>One point of \<open>y\<close>: the new position in \<open>x\<close>, and the position found when there is one.\<close>

definition find_closest :: "nat \<Rightarrow> int vec \<Rightarrow> int \<Rightarrow> int \<Rightarrow> int \<Rightarrow> nat \<Rightarrow> (nat \<times> nat option) res" where
  "find_closest lim x y ystart yend ix =
     bindR (skip_before lim x ystart ix) (\<lambda>ix1.
       if ix1 \<ge> vsize x then Inr (ix1, None)
       else bindR (vec_at x ix1) (\<lambda>t.
         if t > yend then Inr (ix1, None)
         else bindR (go_closer x y yend ix1) (\<lambda>ix2. Inr (ix2, Some ix2))))"

definition align_loop ::
  "('r \<Rightarrow> 'r \<Rightarrow> bool) \<Rightarrow> 'r \<Rightarrow> (nat \<Rightarrow> 'r res) \<Rightarrow> (int \<Rightarrow> 's \<Rightarrow> int) \<Rightarrow> (int \<Rightarrow> 'e \<Rightarrow> int) \<Rightarrow> nat \<Rightarrow> int vec \<Rightarrow> int vec
     \<Rightarrow> 's pseudo \<Rightarrow> 'e pseudo \<Rightarrow> 'r vec \<Rightarrow> 'r vec res" where
  "align_loop cmp nan value pls ple lim x y start en res0 =
     bindR (foldR (\<lambda>iy (ix, res).
        bindR (vec_at y iy) (\<lambda>t. bindR (pseudo_at start iy) (\<lambda>s. bindR (pseudo_at en iy) (\<lambda>e.
        bindR (find_closest lim x t (pls t s) (ple t e) ix) (\<lambda>(ix', found).
          bindR (case found of None \<Rightarrow> Inr nan | Some k \<Rightarrow> value k) (\<lambda>r.
          bindR (push_back cmp r res) (\<lambda>res'. Inr (ix', res')))))))) [0..<vsize y] (0, res0)) (\<lambda>st. Inr (snd st))"

text \<open>\<open>align_idx\<close> returns positions counted from 1.\<close>

definition align_idx ::
  "('r \<Rightarrow> 'r \<Rightarrow> bool) \<Rightarrow> 'r \<Rightarrow> (nat \<Rightarrow> 'r) \<Rightarrow> (int \<Rightarrow> 's \<Rightarrow> int) \<Rightarrow> (int \<Rightarrow> 'e \<Rightarrow> int) \<Rightarrow> int vec \<Rightarrow> int vec
     \<Rightarrow> 's pseudo \<Rightarrow> 'e pseudo \<Rightarrow> 'r vec res" where
  "align_idx cmp nan num pls ple x y start en =
     bindR (vec_rsv 0 0 MemAlloc) (\<lambda>res.
       align_loop cmp nan (\<lambda>k. Inr (num (k + 1))) pls ple (vsize x + 1) x y start en res)"

definition align_closest ::
  "('r \<Rightarrow> 'r \<Rightarrow> bool) \<Rightarrow> 'r \<Rightarrow> (int \<Rightarrow> 's \<Rightarrow> int) \<Rightarrow> (int \<Rightarrow> 'e \<Rightarrow> int) \<Rightarrow> int vec \<Rightarrow> int vec \<Rightarrow> 'r vec \<Rightarrow> 'r vec
     \<Rightarrow> 's pseudo \<Rightarrow> 'e pseudo \<Rightarrow> 'r vec res" where
  "align_closest cmp nan pls ple x y xdata ydata start en =
     (if vsize xdata \<noteq> vsize x then Inl xdata_size_error
      else align_loop cmp nan (vec_at xdata) pls ple (vsize x) x y start en ydata)"

text \<open>\<open>align_func\<close> applies a function to the values of every window, the end of which is excluded.\<close>

definition window_values :: "int vec \<Rightarrow> 'r vec \<Rightarrow> int \<Rightarrow> int \<Rightarrow> nat \<Rightarrow> (nat \<times> 'r list) res" where
  "window_values x xdata ystart yend ix0 =
     (let ix = ix0 + lower_bound (drop ix0 (elems x)) ystart in
      if ix \<ge> vsize x then Inr (ix, [])
      else bindR (vec_at x ix) (\<lambda>t.
        if t \<ge> yend then Inr (ix, [])
        else
          bindR (skip_before (vsize x) x yend (ix + lower_bound (drop ix (elems x)) yend)) (\<lambda>ie.
            Inr (ix, take (ie - ix) (drop ix (elems xdata))))))"

definition align_func ::
  "('r \<Rightarrow> 'r \<Rightarrow> bool) \<Rightarrow> ('r list \<Rightarrow> 'r res) \<Rightarrow> (int \<Rightarrow> 's \<Rightarrow> int) \<Rightarrow> (int \<Rightarrow> 'e \<Rightarrow> int) \<Rightarrow> int vec \<Rightarrow> int vec \<Rightarrow> 'r vec \<Rightarrow> 'r vec
     \<Rightarrow> 's pseudo \<Rightarrow> 'e pseudo \<Rightarrow> 'r vec res" where
  "align_func cmp F pls ple x y xdata ydata start en =
     (if vsize xdata \<noteq> vsize x then Inl xdata_size_error
      else
        bindR (foldR (\<lambda>iy (ix, res).
          bindR (vec_at y iy) (\<lambda>t. bindR (pseudo_at start iy) (\<lambda>s. bindR (pseudo_at en iy) (\<lambda>e.
          bindR (window_values x xdata (pls t s) (ple t e) ix) (\<lambda>(ix', vs).
          bindR (F vs) (\<lambda>r. bindR (push_back cmp r res) (\<lambda>res'. Inr (ix', res')))))))) [0..<vsize y] (0, ydata)) (\<lambda>st. Inr (snd st)))"

text \<open>\<open>op_zts\<close> applies an operation to the values of \<open>y\<close> before each time of \<open>x\<close>. Dereferencing a mutable iterator clears the
  ordered flag.\<close>

definition applyd :: "('r \<Rightarrow> 'r \<Rightarrow> 'r) \<Rightarrow> 'r \<Rightarrow> nat \<Rightarrow> nat \<Rightarrow> 'r vec \<Rightarrow> 'r vec res" where
  "applyd F d b e v =
     foldR (\<lambda>k w. let w' = forceUnOrdered w in bindR (vec_at w' k) (\<lambda>n. Inr (w'\<lparr>elems := (elems w')[k := F n d]\<rparr>))) [b..<e] v"

definition op_vec :: "('r \<Rightarrow> 'r \<Rightarrow> 'r) \<Rightarrow> int vec \<Rightarrow> int vec \<Rightarrow> 'r vec \<Rightarrow> 'r vec \<Rightarrow> 'r vec res" where
  "op_vec F x y xdata ydata =
     (if vsize xdata \<noteq> vsize x then Inl xdata_size_error
      else
        bindR (foldR (\<lambda>ix (from, w).
          bindR (vec_at x ix) (\<lambda>t.
            let to = from + lower_bound (drop from (elems y)) t in
            if to = vsize y then Inr (from, w)
            else bindR (vec_at xdata ix) (\<lambda>d. bindR (applyd F d from to w) (\<lambda>w'. Inr (to, w'))))) [0..<vsize x] (0, ydata))
          (\<lambda>st. Inr (snd st)))"

section \<open>Functions on the values of a window\<close>

definition mean_element :: "'r \<Rightarrow> ('r \<Rightarrow> 'r \<Rightarrow> 'r) \<Rightarrow> 'r \<Rightarrow> ('r \<Rightarrow> nat \<Rightarrow> 'r) \<Rightarrow> 'r list \<Rightarrow> 'r" where
  "mean_element zero add nan divn vs = (if length vs = 0 then nan else divn (fold (\<lambda>x acc. add acc x) vs zero) (length vs))"

definition max_element :: "('r \<Rightarrow> 'r \<Rightarrow> bool) \<Rightarrow> 'r \<Rightarrow> 'r list \<Rightarrow> 'r" where
  "max_element lt nan vs = (if length vs = 0 then nan else fold (\<lambda>x m. if lt m x then x else m) (tl vs) (hd vs))"

definition min_element :: "('r \<Rightarrow> 'r \<Rightarrow> bool) \<Rightarrow> 'r \<Rightarrow> 'r list \<Rightarrow> 'r" where
  "min_element lt nan vs = (if length vs = 0 then nan else fold (\<lambda>x m. if lt x m then x else m) (tl vs) (hd vs))"

definition count_element :: "(nat \<Rightarrow> 'r) \<Rightarrow> 'r list \<Rightarrow> 'r" where
  "count_element num vs = (if length vs = 0 then num 0 else num (length vs))"

text \<open>A \<open>std::priority_queue\<close> is the list of its elements in the order in which they leave it: \<open>left\<close> with the largest first, \<open>right\<close>
  with the smallest first.\<close>

fun pq_push :: "('r \<Rightarrow> 'r \<Rightarrow> bool) \<Rightarrow> 'r \<Rightarrow> 'r list \<Rightarrow> 'r list" where
  "pq_push before x [] = [x]"
| "pq_push before x (y # ys) = (if before y x then y # pq_push before x ys else x # y # ys)"

definition median_step :: "('r \<Rightarrow> 'r \<Rightarrow> bool) \<Rightarrow> 'r \<Rightarrow> 'r list \<times> 'r list \<Rightarrow> 'r list \<times> 'r list" where
  "median_step lt i st =
     (case st of (left, right) \<Rightarrow>
        let pushl = pq_push (\<lambda>a b. lt b a); pushr = pq_push lt in
        if length left = length right then
          (if length left = 0 \<or> lt i (hd left) then (pushl i left, right) else (left, pushr i right))
        else if length left < length right then
          (if lt i (hd right) then (pushl i left, right)
           else (pushl (hd right) left, pushr i (tl right)))
        else
          (if lt (hd left) i then (left, pushr i right)
           else (pushl i (tl left), pushr (hd left) right)))"

definition median_element :: "('r \<Rightarrow> 'r \<Rightarrow> bool) \<Rightarrow> ('r \<Rightarrow> 'r \<Rightarrow> 'r) \<Rightarrow> ('r \<Rightarrow> 'r) \<Rightarrow> 'r \<Rightarrow> 'r list \<Rightarrow> 'r" where
  "median_element lt add half nan vs =
     (if length vs = 0 then nan
      else
        (case fold (median_step lt) vs ([], []) of (left, right) \<Rightarrow>
           if length left = length right then half (add (hd left) (hd right))
           else if length left < length right then hd right
           else hd left))"

section \<open>Series\<close>

definition zts_align ::
  "(int vec \<Rightarrow> int vec \<Rightarrow> 64 word vec \<Rightarrow> 64 word vec \<Rightarrow> 64 word vec res) \<Rightarrow> zts \<Rightarrow> int array \<Rightarrow> zts res" where
  "zts_align f ts y =
     (if length (adim (zarr ts)) = 0 then Inl (RangeError ''subscript out of bounds'')
      else
        bindR (array_rsv MemAlloc 0 ((adim (zarr ts))[0 := asize y]) []) (\<lambda>a.
        bindR (foldR (\<lambda>i vs.
          bindR (getcol (zidx ts) 0) (\<lambda>x. bindR (getcol y 0) (\<lambda>yv. bindR (getcol (zarr ts) i) (\<lambda>xd. bindR (std_at vs i) (\<lambda>v.
          bindR (f x yv xd v) (\<lambda>w. Inr (vs[i := w]))))))) [0..<ncols a] (cols a)) (\<lambda>vs.
        zts_of_arrays y (a\<lparr>cols := vs\<rparr>))))"

definition zts_align_closest ::
  "(64 word \<Rightarrow> 64 word \<Rightarrow> bool) \<Rightarrow> 64 word \<Rightarrow> (int \<Rightarrow> 's \<Rightarrow> int) \<Rightarrow> (int \<Rightarrow> 'e \<Rightarrow> int) \<Rightarrow> zts \<Rightarrow> int array \<Rightarrow> 's pseudo \<Rightarrow> 'e pseudo \<Rightarrow> zts res" where
  "zts_align_closest cmp nan pls ple ts y start en =
     zts_align (\<lambda>x yv xd v. align_closest cmp nan pls ple x yv xd v start en) ts y"

definition zts_align_func ::
  "(64 word \<Rightarrow> 64 word \<Rightarrow> bool) \<Rightarrow> (64 word list \<Rightarrow> 64 word res) \<Rightarrow> (int \<Rightarrow> 's \<Rightarrow> int) \<Rightarrow> (int \<Rightarrow> 'e \<Rightarrow> int) \<Rightarrow> zts \<Rightarrow> int array \<Rightarrow> 's pseudo \<Rightarrow> 'e pseudo \<Rightarrow> zts res" where
  "zts_align_func cmp F pls ple ts y start en =
     zts_align (\<lambda>x yv xd v. align_func cmp F pls ple x yv xd v start en) ts y"

text \<open>The operand is always the first column of \<open>x\<close>.\<close>

definition zts_op :: "(64 word \<Rightarrow> 64 word \<Rightarrow> 64 word) \<Rightarrow> zts \<Rightarrow> zts \<Rightarrow> zts res" where
  "zts_op F x y =
     bindR (foldR (\<lambda>i vs.
        bindR (getcol (zidx x) 0) (\<lambda>xt. bindR (getcol (zidx y) 0) (\<lambda>yt. bindR (getcol (zarr x) 0) (\<lambda>xd. bindR (std_at vs i) (\<lambda>v.
        bindR (op_vec F xt yt xd v) (\<lambda>w. Inr (vs[i := w]))))))) [0..<ncols (zarr y)] (cols (zarr y))) (\<lambda>vs.
       Inr (y\<lparr>zarr := (zarr y)\<lparr>cols := vs\<rparr>\<rparr>))"

section \<open>The closest point of a window\<close>

text \<open>The reference: the first position at minimal distance from \<open>y\<close> among all the points of the window.\<close>

definition nearest :: "int list \<Rightarrow> int \<Rightarrow> int \<Rightarrow> int \<Rightarrow> nat option" where
  "nearest xs y s e =
     (let c = filter (\<lambda>k. s \<le> xs ! k \<and> xs ! k \<le> e) [0..<length xs] in
      if c = [] then None else Some (arg_min_list (\<lambda>k. \<bar>xs ! k - y\<bar>) c))"

lemma nearest_none: "(\<And>j. j < length xs \<Longrightarrow> \<not> (s \<le> xs ! j \<and> xs ! j \<le> e)) \<Longrightarrow> nearest xs y s e = None"
  by (auto simp: nearest_def filter_empty_conv)

lemma arg_min_list_first:
  assumes "sorted_wrt (<) ks" "k \<in> set ks" "\<And>j. j \<in> set ks \<Longrightarrow> f k \<le> (f j :: int) \<and> (j < k \<longrightarrow> f k < f j)"
  shows "arg_min_list f ks = (k :: nat)"
  using assms
proof (induction f ks rule: arg_min_list.induct)
  case (2 f x y zs)
  let ?m = "arg_min_list f (y # zs)"
  have m: "?m \<in> set (y # zs)" by (rule arg_min_list_in) simp
  show ?case
  proof (cases "k = x")
    case True
    then show ?thesis using 2(4) m by (simp add: Let_def)
  next
    case False
    with 2 have "?m = k" by simp
    moreover have "f k < f x" using 2(2-4) False by auto
    ultimately show ?thesis by simp
  qed
qed simp_all

lemma nearest_some:
  assumes "k < length xs" "s \<le> xs ! k" "xs ! k \<le> e"
    "\<And>j. j < length xs \<Longrightarrow> s \<le> xs ! j \<Longrightarrow> xs ! j \<le> e \<Longrightarrow> \<bar>xs ! k - y\<bar> \<le> \<bar>xs ! j - y\<bar> \<and> (j < k \<longrightarrow> \<bar>xs ! k - y\<bar> < \<bar>xs ! j - y\<bar>)"
  shows "nearest xs y s e = Some k"
proof -
  let ?c = "filter (\<lambda>k. s \<le> xs ! k \<and> xs ! k \<le> e) [0..<length xs]"
  have k: "k \<in> set ?c" using assms(1-3) by simp
  have "arg_min_list (\<lambda>k. \<bar>xs ! k - y\<bar>) ?c = k"
    using assms(4) k by (intro arg_min_list_first) (auto intro: sorted_wrt_filter)
  moreover have "?c \<noteq> []" using k by (metis empty_iff empty_set)
  ultimately show ?thesis by (simp only: nearest_def Let_def if_False)
qed

text \<open>The loops.\<close>

lemma skip_before_spec:
  assumes "ix \<le> vsize x"
  shows "\<exists>ix'. skip_before (vsize x) x s ix = Inr ix' \<and> ix \<le> ix' \<and> ix' \<le> vsize x \<and> (\<forall>j. ix \<le> j \<and> j < ix' \<longrightarrow> elems x ! j < s) \<and>
    (ix' < vsize x \<longrightarrow> s \<le> elems x ! ix')"
  using assms
proof (induction "vsize x - ix" arbitrary: ix)
  case 0
  then show ?case by (simp add: skip_before.simps)
next
  case (Suc n)
  show ?case
  proof (cases "elems x ! ix < s")
    case True
    have "n = vsize x - Suc ix" "Suc ix \<le> vsize x" using Suc(2) by simp_all
    from Suc(1) [OF this] obtain ix' where "skip_before (vsize x) x s (Suc ix) = Inr ix'" "Suc ix \<le> ix'" "ix' \<le> vsize x"
      "\<forall>j. Suc ix \<le> j \<and> j < ix' \<longrightarrow> elems x ! j < s" "ix' < vsize x \<longrightarrow> s \<le> elems x ! ix'" by auto
    then show ?thesis using True Suc(2) by (intro exI [of _ ix']) (auto simp: skip_before.simps [of _ _ _ ix] Suc_le_eq dest: le_neq_implies_less)
  next
    case False
    then show ?thesis using Suc(2) by (auto simp: skip_before.simps [of _ _ _ ix])
  qed
qed

lemma ascending_nth: "sorted_wrt (<) (xs :: int list) \<Longrightarrow> i < j \<Longrightarrow> j < length xs \<Longrightarrow> xs ! i < xs ! j"
  by (rule sorted_wrt_nth_less)

lemma go_closer_spec:
  assumes "sorted_wrt (<) (elems x)" "ix < vsize x" "elems x ! ix \<le> e"
  shows "\<exists>k. go_closer x y e ix = Inr k \<and> ix \<le> k \<and> k < vsize x \<and> elems x ! k \<le> e \<and>
    (\<forall>j. ix \<le> j \<and> j < k \<longrightarrow> \<bar>elems x ! k - y\<bar> < \<bar>elems x ! j - y\<bar>) \<and>
    (\<forall>j. k < j \<and> j < vsize x \<and> elems x ! j \<le> e \<longrightarrow> \<bar>elems x ! k - y\<bar> \<le> \<bar>elems x ! j - y\<bar>)"
  using assms(2,3)
proof (induction "vsize x - ix" arbitrary: ix)
  case (Suc n)
  consider (last) "vsize x \<le> Suc ix" | (past) "Suc ix < vsize x" "e < elems x ! Suc ix"
    | (closer) "Suc ix < vsize x" "elems x ! Suc ix \<le> e" "\<bar>elems x ! Suc ix - y\<bar> < \<bar>elems x ! ix - y\<bar>"
    | (farther) "Suc ix < vsize x" "elems x ! Suc ix \<le> e" "\<bar>elems x ! ix - y\<bar> \<le> \<bar>elems x ! Suc ix - y\<bar>"
    by linarith
  then show ?case
  proof cases
    case last
    then show ?thesis using Suc.prems by (intro exI [of _ ix]) (auto simp: go_closer.simps [of _ _ _ ix])
  next
    case past
    have "e < elems x ! j" if "ix < j" "j < vsize x" for j
      using past ascending_nth [OF assms(1), of "Suc ix" j] that by (cases "j = Suc ix") auto
    then show ?thesis using Suc.prems past by (intro exI [of _ ix]) (auto simp: go_closer.simps [of _ _ _ ix] dest: leD)
  next
    case closer
    have step: "go_closer x y e ix = go_closer x y e (Suc ix)" using closer by (simp add: go_closer.simps [of _ _ _ ix])
    have "n = vsize x - Suc ix" using Suc(2) by simp
    from Suc(1) [OF this closer(1,2)] obtain k where k: "go_closer x y e (Suc ix) = Inr k" "Suc ix \<le> k" "k < vsize x" "elems x ! k \<le> e"
      "\<forall>j. Suc ix \<le> j \<and> j < k \<longrightarrow> \<bar>elems x ! k - y\<bar> < \<bar>elems x ! j - y\<bar>"
      "\<forall>j. k < j \<and> j < vsize x \<and> elems x ! j \<le> e \<longrightarrow> \<bar>elems x ! k - y\<bar> \<le> \<bar>elems x ! j - y\<bar>" by auto
    have "\<bar>elems x ! k - y\<bar> \<le> \<bar>elems x ! Suc ix - y\<bar>" using k(2,5) by (cases "k = Suc ix") force+
    then have "\<bar>elems x ! k - y\<bar> < \<bar>elems x ! j - y\<bar>" if "ix \<le> j" "j < k" for j
      using k(5) closer(3) that by (cases "j = ix") auto
    then show ?thesis using k step by (intro exI [of _ k]) auto
  next
    case farther
    have "elems x ! ix < elems x ! Suc ix" using ascending_nth [OF assms(1)] farther(1) by simp
    with farther(3) have "y < elems x ! Suc ix" by linarith
    moreover have "elems x ! Suc ix \<le> elems x ! j" if "ix < j" "j < vsize x" for j
      using ascending_nth [OF assms(1), of "Suc ix" j] that by (cases "j = Suc ix") auto
    ultimately have "\<bar>elems x ! ix - y\<bar> \<le> \<bar>elems x ! j - y\<bar>" if "ix < j" "j < vsize x" for j
      using farther(3) that by (smt (verit))
    moreover have "go_closer x y e ix = Inr ix" using farther by (simp add: go_closer.simps [of _ _ _ ix])
    ultimately show ?thesis using Suc.prems by (intro exI [of _ ix]) auto
  qed
qed simp

text \<open>What holds of the position between two points of \<open>y\<close>: the points before it are before the window, or farther than it.\<close>

definition cursor_ok :: "int list \<Rightarrow> int \<Rightarrow> int \<Rightarrow> int \<Rightarrow> nat \<Rightarrow> bool" where
  "cursor_ok xs y s e ix \<longleftrightarrow> ix \<le> length xs \<and>
     (\<forall>j<ix. xs ! j < s \<or> (ix < length xs \<and> xs ! ix \<le> e \<and> \<bar>xs ! ix - y\<bar> < \<bar>xs ! j - y\<bar>))"

lemma cursor_mono:
  assumes "sorted_wrt (<) xs" "cursor_ok xs y s e ix" "y \<le> y'" "s \<le> s'" "e \<le> e'"
  shows "cursor_ok xs y' s' e' ix"
  unfolding cursor_ok_def
proof (intro conjI allI impI)
  fix j
  assume j: "j < ix"
  consider "xs ! j < s" | "ix < length xs" "xs ! ix \<le> e" "\<bar>xs ! ix - y\<bar> < \<bar>xs ! j - y\<bar>" using assms(2) j unfolding cursor_ok_def by blast
  then show "xs ! j < s' \<or> (ix < length xs \<and> xs ! ix \<le> e' \<and> \<bar>xs ! ix - y'\<bar> < \<bar>xs ! j - y'\<bar>)"
  proof cases
    case 2
    then show ?thesis using ascending_nth [OF assms(1) j] assms(3,5) by auto
  qed (use assms(4) in auto)
qed (use assms(2) in \<open>simp add: cursor_ok_def\<close>)

lemma find_closest_spec:
  assumes asc: "sorted_wrt (<) (elems x)" and ok: "cursor_ok (elems x) y s e ix"
  shows "\<exists>ix'. find_closest (vsize x) x y s e ix = Inr (ix', nearest (elems x) y s e) \<and> cursor_ok (elems x) y s e ix'"
proof -
  let ?x = "\<lambda>j. elems x ! j"
  have ix: "ix \<le> vsize x" "\<And>j. j < ix \<Longrightarrow> ?x j < s \<or> (ix < vsize x \<and> ?x ix \<le> e \<and> \<bar>?x ix - y\<bar> < \<bar>?x j - y\<bar>)"
    using ok by (auto simp: cursor_ok_def)
  obtain i1 where i1: "skip_before (vsize x) x s ix = Inr i1" "ix \<le> i1" "i1 \<le> vsize x" "\<And>j. ix \<le> j \<and> j < i1 \<Longrightarrow> ?x j < s"
    "i1 < vsize x \<Longrightarrow> s \<le> ?x i1" using skip_before_spec [OF ix(1)] by blast
  have before: "?x j < s \<or> (i1 < vsize x \<and> ?x i1 \<le> e \<and> \<bar>?x i1 - y\<bar> < \<bar>?x j - y\<bar>)" if j: "j < i1" for j
  proof (cases "ix < i1 \<and> j < ix")
    case True
    then show ?thesis using ascending_nth [OF asc, of j ix] i1(3,4) by force
  next
    case False
    then show ?thesis using ix(2) [of j] i1(2) i1(4) [of j] j by (cases "j < ix") auto
  qed
  then have ok1: "cursor_ok (elems x) y s e i1" using i1(3) by (simp add: cursor_ok_def)
  show ?thesis
  proof (cases "i1 < vsize x \<and> ?x i1 \<le> e")
    case False
    have "\<not> (s \<le> ?x j \<and> ?x j \<le> e)" if "j < vsize x" for j
      using before [of j] False ascending_nth [OF asc, of i1 j] that by (cases "j < i1"; cases "j = i1") auto
    then have "nearest (elems x) y s e = None" by (rule nearest_none)
    moreover have "find_closest (vsize x) x y s e ix = Inr (i1, None)" using i1(1) False by (auto simp: find_closest_def)
    ultimately show ?thesis using ok1 by simp
  next
    case True
    obtain k where k: "go_closer x y e i1 = Inr k" "i1 \<le> k" "k < vsize x" "?x k \<le> e"
      "\<And>j. i1 \<le> j \<and> j < k \<Longrightarrow> \<bar>?x k - y\<bar> < \<bar>?x j - y\<bar>" "\<And>j. k < j \<and> j < vsize x \<and> ?x j \<le> e \<Longrightarrow> \<bar>?x k - y\<bar> \<le> \<bar>?x j - y\<bar>"
      using go_closer_spec [OF asc, of i1 e y] True by blast
    have le: "\<bar>?x k - y\<bar> \<le> \<bar>?x i1 - y\<bar>" "s \<le> ?x k"
      using k(2,3) k(5) [of i1] i1(5) True ascending_nth [OF asc, of i1 k] by (cases "k = i1"; force)+
    have near: "?x j < s \<or> \<bar>?x k - y\<bar> < \<bar>?x j - y\<bar>" if "j < k" for j
      using before [of j] k(5) [of j] le that by (cases "j < i1") auto
    have "nearest (elems x) y s e = Some k"
    proof (rule nearest_some [OF k(3) le(2) k(4)])
      fix j
      assume "j < vsize x" "s \<le> ?x j" "?x j \<le> e"
      then show "\<bar>?x k - y\<bar> \<le> \<bar>?x j - y\<bar> \<and> (j < k \<longrightarrow> \<bar>?x k - y\<bar> < \<bar>?x j - y\<bar>)"
        using near [of j] k(6) [of j] by (cases j k rule: linorder_cases) auto
    qed
    moreover have "cursor_ok (elems x) y s e k" using near k(3,4) by (auto simp: cursor_ok_def)
    moreover have "find_closest (vsize x) x y s e ix = Inr (k, Some k)" using i1(1) True k(1) by (simp add: find_closest_def)
    ultimately show ?thesis by simp
  qed
qed

text \<open>The offset at a position, and that there is one for every point.\<close>

definition offset :: "'u pseudo \<Rightarrow> nat \<Rightarrow> 'u" where
  "offset p i = (if pscalar p then first_elt p else elems (pvec p) ! i)"

definition offsets_for :: "'u pseudo \<Rightarrow> nat \<Rightarrow> bool" where
  "offsets_for p n \<longleftrightarrow> pscalar p \<or> n \<le> vsize (pvec p)"

lemma pseudo_at_offset: "offsets_for p n \<Longrightarrow> i < n \<Longrightarrow> pseudo_at p i = Inr (offset p i)"
  by (auto simp: pseudo_at_def offset_def offsets_for_def)

lemma push_one:
  assumes "alloc v \<noteq> NullAlloc" "asymp cmp" "vec_inv cmp v"
  shows "\<exists>w. push_back cmp r v = Inr w \<and> elems w = elems v @ [r] \<and> alloc w \<noteq> NullAlloc \<and> vec_inv cmp w"
  using push_run [OF assms, of "[r]"] by (cases "push_back cmp r v") auto

text \<open>The windows move forward with the points.\<close>

definition forward :: "int list \<Rightarrow> (nat \<Rightarrow> int) \<Rightarrow> (nat \<Rightarrow> int) \<Rightarrow> bool" where
  "forward ys S E \<longleftrightarrow> (\<forall>i. Suc i < length ys \<longrightarrow> ys ! i \<le> ys ! Suc i \<and> S i \<le> S (Suc i) \<and> E i \<le> E (Suc i))"

lemma align_loop_ok:
  fixes y x :: "int vec" and pls :: "int \<Rightarrow> 's \<Rightarrow> int" and ple :: "int \<Rightarrow> 'e \<Rightarrow> int" and start :: "'s pseudo" and en :: "'e pseudo"
  defines "S \<equiv> \<lambda>i. pls (elems y ! i) (offset start i)" and "E \<equiv> \<lambda>i. ple (elems y ! i) (offset en i)"
  assumes asc: "sorted_wrt (<) (elems x)" and offs: "offsets_for start (vsize y)" "offsets_for en (vsize y)"
    and fwd: "forward (elems y) S E" and asym: "asymp cmp" and res: "alloc res0 \<noteq> NullAlloc" "vec_inv cmp res0"
    and val: "\<And>k. k < vsize x \<Longrightarrow> val k = Inr (f k)"
  shows "\<exists>w. align_loop cmp nan val pls ple (vsize x) x y start en res0 = Inr w \<and> vec_inv cmp w \<and> alloc w \<noteq> NullAlloc \<and>
    elems w = elems res0 @ map (\<lambda>i. case nearest (elems x) (elems y ! i) (S i) (E i) of None \<Rightarrow> nan | Some k \<Rightarrow> f k) [0..<vsize y]"
proof -
  let ?r = "\<lambda>i. case nearest (elems x) (elems y ! i) (S i) (E i) of None \<Rightarrow> nan | Some k \<Rightarrow> f k"
  let ?body = "\<lambda>iy (ix, res).
        bindR (vec_at y iy) (\<lambda>t. bindR (pseudo_at start iy) (\<lambda>s. bindR (pseudo_at en iy) (\<lambda>e.
        bindR (find_closest (vsize x) x t (pls t s) (ple t e) ix) (\<lambda>(ix', found).
          bindR (case found of None \<Rightarrow> Inr nan | Some k \<Rightarrow> val k) (\<lambda>r.
          bindR (push_back cmp r res) (\<lambda>res'. Inr (ix', res')))))))"
  have "\<exists>ix w. foldR ?body [0..<n] (0, res0) = Inr (ix, w) \<and> elems w = elems res0 @ map ?r [0..<n] \<and> alloc w \<noteq> NullAlloc \<and> vec_inv cmp w \<and>
      (n < vsize y \<longrightarrow> cursor_ok (elems x) (elems y ! n) (S n) (E n) ix)" if "n \<le> vsize y" for n
    using that
  proof (induction n)
    case 0
    then show ?case using res by (simp add: cursor_ok_def)
  next
    case (Suc n)
    then obtain ix w where IH: "foldR ?body [0..<n] (0, res0) = Inr (ix, w)" "elems w = elems res0 @ map ?r [0..<n]" "alloc w \<noteq> NullAlloc"
      "vec_inv cmp w" "cursor_ok (elems x) (elems y ! n) (S n) (E n) ix" by auto
    have n: "n < vsize y" using Suc.prems by simp
    obtain ix' where ix': "find_closest (vsize x) x (elems y ! n) (S n) (E n) ix = Inr (ix', nearest (elems x) (elems y ! n) (S n) (E n))"
      "cursor_ok (elems x) (elems y ! n) (S n) (E n) ix'" using find_closest_spec [OF asc IH(5)] by blast
    obtain w' where w': "push_back cmp (?r n) w = Inr w'" "elems w' = elems w @ [?r n]" "alloc w' \<noteq> NullAlloc" "vec_inv cmp w'"
      using push_one [OF IH(3) asym IH(4)] by blast
    have "k < vsize x" if "nearest (elems x) (elems y ! n) (S n) (E n) = Some k" for k
      using that arg_min_list_in [of "filter (\<lambda>k. S n \<le> elems x ! k \<and> elems x ! k \<le> E n) [0..<vsize x]"]
      by (fastforce simp: nearest_def Let_def split: if_splits)
    then have "(case nearest (elems x) (elems y ! n) (S n) (E n) of None \<Rightarrow> Inr nan | Some k \<Rightarrow> val k) = Inr (?r n)"
      using val by (auto split: option.splits)
    with ix'(1) w'(1) have "?body n (ix, w) = Inr (ix', w')"
      using n offs by (simp add: pseudo_at_offset S_def E_def)
    then have "foldR ?body [0..<Suc n] (0, res0) = Inr (ix', w')" using IH(1) by (simp add: foldR_append)
    moreover have "Suc n < vsize y \<longrightarrow> cursor_ok (elems x) (elems y ! Suc n) (S (Suc n)) (E (Suc n)) ix'"
      using cursor_mono [OF asc ix'(2)] fwd by (simp add: forward_def)
    ultimately show ?case using IH(2) w' by auto
  qed
  from this [OF order_refl] show ?thesis unfolding align_loop_def by auto
qed

section \<open>The values of a window\<close>

definition values_in :: "int list \<Rightarrow> 'r list \<Rightarrow> int \<Rightarrow> int \<Rightarrow> 'r list" where
  "values_in xs ds s e = map snd (filter (\<lambda>(t, d). s \<le> t \<and> t < e) (zip xs ds))"

lemma lower_bound_skip: "\<forall>j<k. xs ! j < s \<Longrightarrow> k \<le> length xs \<Longrightarrow> k + lower_bound (drop k xs) s = lower_bound xs s"
proof -
  assume a: "\<forall>j<k. xs ! j < s" "k \<le> length xs"
  have "takeWhile (\<lambda>x. x < s) (take k xs @ drop k xs) = take k xs @ takeWhile (\<lambda>x. x < s) (drop k xs)"
    using a by (intro takeWhile_append2) (auto simp: in_set_conv_nth)
  then show ?thesis using a(2) by (simp add: lower_bound_def)
qed

lemma lower_bound_nth: "j < lower_bound xs s \<Longrightarrow> xs ! j < s"
  unfolding lower_bound_def by (metis nth_mem set_takeWhileD takeWhile_nth)

lemma lower_bound_le: "lower_bound xs s \<le> length xs"
  by (simp add: lower_bound_def length_takeWhile_le)

lemma lower_bound_at: "lower_bound xs s < length xs \<Longrightarrow> s \<le> xs ! lower_bound xs s"
  unfolding lower_bound_def using nth_length_takeWhile [of "\<lambda>x. x < s" xs] by auto

lemma lower_bound_stop: "j < length xs \<Longrightarrow> s \<le> xs ! j \<Longrightarrow> lower_bound xs s \<le> j"
  using lower_bound_nth [of j xs s] by (auto simp: linorder_not_less [symmetric])

lemma slice_values:
  assumes "sorted xs" "length xs = length ds"
  shows "take (lower_bound xs e - lower_bound xs s) (drop (lower_bound xs s) ds) = values_in xs ds s e"
  using assms(2,1)
proof (induction xs ds rule: list_induct2)
  case (Cons x xs d ds)
  have none: "lower_bound xs s = 0" if "s \<le> x" using that Cons.prems by (cases xs) (auto simp: lower_bound_def)
  have out: "values_in xs ds s e = []" "lower_bound xs e = 0" if "e \<le> x" 
    using that Cons.prems by (auto simp: values_in_def lower_bound_def filter_empty_conv takeWhile_eq_Nil_iff dest!: set_zip_leftD, cases xs) auto
  show ?case using Cons none out by (cases "x < s"; cases "x < e") (auto simp: lower_bound_def values_in_def)
qed (simp add: lower_bound_def values_in_def)

lemma window_values_spec:
  assumes asc: "sorted (elems x)" "vsize xd = vsize x" and ok: "\<forall>j<ix. elems x ! j < s" "ix \<le> vsize x"
  shows "window_values x xd s e ix = Inr (lower_bound (elems x) s, values_in (elems x) (elems xd) s e)"
proof -
  let ?s = "lower_bound (elems x) s" and ?e = "lower_bound (elems x) e"
  have ix: "ix + lower_bound (drop ix (elems x)) s = ?s" using lower_bound_skip [OF ok] .
  have vals: "take (?e - ?s) (drop ?s (elems xd)) = values_in (elems x) (elems xd) s e" using slice_values asc by metis
  consider (stop) "vsize x \<le> ?s" | (empty) "?s < vsize x" "e \<le> elems x ! ?s" | (some) "?s < vsize x" "elems x ! ?s < e" by linarith
  then show ?thesis
  proof cases
    case stop
    then show ?thesis using vals asc(2) by (simp add: window_values_def ix)
  next
    case empty
    then show ?thesis using vals lower_bound_stop [OF empty] by (simp add: window_values_def ix)
  next
    case some
    have "\<forall>j<?s. elems x ! j < e"
      using sorted_nth_mono [OF asc(1)] some by (meson le_less_trans less_imp_le_nat)
    then have "?s + lower_bound (drop ?s (elems x)) e = ?e" using some by (intro lower_bound_skip) simp_all
    moreover have "skip_before (vsize x) x e ?e = Inr ?e"
      using lower_bound_at [of "elems x" e] by (auto simp: skip_before.simps [of _ _ _ ?e])
    ultimately show ?thesis using some vals by (simp add: window_values_def ix)
  qed
qed

lemma align_func_ok:
  fixes y x :: "int vec" and pls :: "int \<Rightarrow> 's \<Rightarrow> int" and ple :: "int \<Rightarrow> 'e \<Rightarrow> int" and start :: "'s pseudo" and en :: "'e pseudo"
  defines "S \<equiv> \<lambda>i. pls (elems y ! i) (offset start i)" and "E \<equiv> \<lambda>i. ple (elems y ! i) (offset en i)"
  assumes asc: "sorted (elems x)" "vsize xd = vsize x" and offs: "offsets_for start (vsize y)" "offsets_for en (vsize y)"
    and fwd: "\<forall>i. Suc i < vsize y \<longrightarrow> S i \<le> S (Suc i)" and asym: "asymp cmp" and res: "alloc yd \<noteq> NullAlloc" "vec_inv cmp yd"
    and F: "\<And>vs. F vs = Inr (f vs)"
  shows "\<exists>w. align_func cmp F pls ple x y xd yd start en = Inr w \<and> vec_inv cmp w \<and> alloc w \<noteq> NullAlloc \<and>
    elems w = elems yd @ map (\<lambda>i. f (values_in (elems x) (elems xd) (S i) (E i))) [0..<vsize y]"
proof -
  let ?r = "\<lambda>i. f (values_in (elems x) (elems xd) (S i) (E i))"
  let ?body = "\<lambda>iy (ix, res). bindR (vec_at y iy) (\<lambda>t. bindR (pseudo_at start iy) (\<lambda>s. bindR (pseudo_at en iy) (\<lambda>e.
          bindR (window_values x xd (pls t s) (ple t e) ix) (\<lambda>(ix', vs).
          bindR (F vs) (\<lambda>r. bindR (push_back cmp r res) (\<lambda>res'. Inr (ix', res')))))))"
  have "\<exists>ix w. foldR ?body [0..<n] (0, yd) = Inr (ix, w) \<and> elems w = elems yd @ map ?r [0..<n] \<and> alloc w \<noteq> NullAlloc \<and> vec_inv cmp w \<and>
      ix \<le> vsize x \<and> (n < vsize y \<longrightarrow> (\<forall>j<ix. elems x ! j < S n))" if "n \<le> vsize y" for n
    using that
  proof (induction n)
    case 0
    then show ?case using res by simp
  next
    case (Suc n)
    then obtain ix w where IH: "foldR ?body [0..<n] (0, yd) = Inr (ix, w)" "elems w = elems yd @ map ?r [0..<n]" "alloc w \<noteq> NullAlloc"
      "vec_inv cmp w" "ix \<le> vsize x" "\<forall>j<ix. elems x ! j < S n" by auto
    obtain w' where w': "push_back cmp (?r n) w = Inr w'" "elems w' = elems w @ [?r n]" "alloc w' \<noteq> NullAlloc" "vec_inv cmp w'"
      using push_one [OF IH(3) asym IH(4)] by blast
    have "?body n (ix, w) = Inr (lower_bound (elems x) (S n), w')"
      using window_values_spec [OF asc IH(6,5), of "E n"] w'(1) Suc.prems offs by (simp add: pseudo_at_offset S_def E_def F)
    then have "foldR ?body [0..<Suc n] (0, yd) = Inr (lower_bound (elems x) (S n), w')" using IH(1) by (simp add: foldR_append)
    moreover have "Suc n < vsize y \<longrightarrow> (\<forall>j<lower_bound (elems x) (S n). elems x ! j < S (Suc n))"
      using fwd lower_bound_nth by fastforce
    ultimately show ?case using IH(2) w' lower_bound_le by auto
  qed
  from this [OF order_refl] show ?thesis using asc(2) unfolding align_func_def by auto
qed

section \<open>The median\<close>

lemma mset_pq_push [simp]: "mset (pq_push before x ys) = add_mset x (mset ys)"
  by (induction ys) auto

lemma set_pq_push [simp]: "set (pq_push before x ys) = insert x (set ys)"
  by (induction ys) auto

lemma length_pq_push [simp]: "length (pq_push before x ys) = Suc (length ys)"
  by (induction ys) auto

lemma pq_push_sorted:
  assumes "\<And>a b. \<not> before a b \<Longrightarrow> P b a" "\<And>a b. before a b \<Longrightarrow> P a b" "transp P" "sorted_wrt P ys"
  shows "sorted_wrt P (pq_push before x ys)"
  using assms(4)
proof (induction ys)
  case (Cons y ys)
  show ?case
  proof (cases "before y x")
    case True
    then show ?thesis using Cons assms(2) by auto
  next
    case False
    then have "P x y" by (rule assms(1))
    then show ?thesis using False Cons.prems assms(3) by (auto dest: transpD)
  qed
qed simp

text \<open>The two heaps: the lower half with the largest first, the upper half with the smallest first.\<close>

definition halves :: "'r::linorder list \<times> 'r list \<Rightarrow> 'r multiset \<Rightarrow> bool" where
  "halves st M \<longleftrightarrow> sorted_wrt (\<ge>) (fst st) \<and> sorted (snd st) \<and> (\<forall>a\<in>set (fst st). \<forall>b\<in>set (snd st). a \<le> b) \<and>
     mset (fst st) + mset (snd st) = M \<and> length (fst st) \<le> Suc (length (snd st)) \<and> length (snd st) \<le> Suc (length (fst st))"

lemma push_low: "sorted_wrt (\<ge>) (ys :: 'r::linorder list) \<Longrightarrow> sorted_wrt (\<ge>) (pq_push (\<lambda>a b. b < a) x ys)"
  by (rule pq_push_sorted) (auto simp: transp_def)

lemma push_high: "sorted (ys :: 'r::linorder list) \<Longrightarrow> sorted (pq_push (<) x ys)"
  by (rule pq_push_sorted) (auto simp: transp_def)

lemma median_step_halves:
  assumes "halves (l, r) M"
  shows "halves (median_step (<) i (l, r)) (add_mset i M)"
proof -
  have a: "sorted_wrt (\<ge>) l" "sorted r" "\<forall>a\<in>set l. \<forall>b\<in>set r. a \<le> b" "mset l + mset r = M" "length l \<le> Suc (length r)" "length r \<le> Suc (length l)"
    using assms by (simp_all add: halves_def)
  consider (even) "length l = length r" | (high) h hs where "length l < length r" "r = h # hs" | (low) g gs where "length r < length l" "l = g # gs"
    by (metis length_0_conv list.exhaust not_less_zero linorder_neqE_nat)
  then show ?thesis
  proof cases
    case even
    then show ?thesis using a by (cases l) (auto simp: halves_def median_step_def Let_def push_low push_high)
  next
    case high
    then show ?thesis using a by (auto simp: halves_def median_step_def Let_def push_low push_high)
  next
    case low
    then show ?thesis using a by (auto simp: halves_def median_step_def Let_def push_low push_high)
  qed
qed

lemma median_fold: "halves st M \<Longrightarrow> halves (fold (median_step (<)) vs st) (M + mset vs)"
proof (induction vs arbitrary: st M)
  case (Cons v vs)
  from median_step_halves [of "fst st" "snd st" M v] Cons show ?case by fastforce
qed simp

lemma halves_sort:
  assumes "halves (l, r) (mset vs)"
  shows "sort vs = rev l @ r" "length vs = length l + length r"
proof -
  have "sorted (rev l @ r)" using assms by (auto simp: halves_def sorted_append sorted_wrt_rev)
  moreover have "mset (rev l @ r) = mset vs" using assms by (simp add: halves_def)
  ultimately show "sort vs = rev l @ r" by (metis properties_for_sort)
  show "length vs = length l + length r" using assms by (metis halves_def fst_conv snd_conv size_mset size_union)
qed

section \<open>Properties\<close>

text \<open>C7. Alignment on the closest point: when the times of the series ascend and the windows around the new times
  move forward, the single forward pass appends, for every new time, the value at the point of the whole series that is closest
  to it inside its window (the earlier one when two are as close), and \<open>NaN\<close> exactly when the window holds no point.\<close>

theorem align_closest_correct:
  fixes x y :: "int vec" and xdata ydata :: "'r::linorder vec" and pls :: "int \<Rightarrow> 's \<Rightarrow> int" and ple :: "int \<Rightarrow> 'e \<Rightarrow> int" and start :: "'s pseudo" and en :: "'e pseudo"
  defines "S \<equiv> \<lambda>i. pls (elems y ! i) (offset start i)" and "E \<equiv> \<lambda>i. ple (elems y ! i) (offset en i)"
  assumes "sorted_wrt (<) (elems x)" "vsize xdata = vsize x" "offsets_for start (vsize y)" "offsets_for en (vsize y)"
    "forward (elems y) S E" "alloc ydata \<noteq> NullAlloc" "vec_inv (<) ydata"
  shows "\<exists>w. align_closest (<) nan pls ple x y xdata ydata start en = Inr w \<and> vec_inv (<) w \<and>
    elems w = elems ydata @ map (\<lambda>i. case nearest (elems x) (elems y ! i) (S i) (E i) of None \<Rightarrow> nan | Some k \<Rightarrow> elems xdata ! k) [0..<vsize y]"
  using align_loop_ok [OF assms(3,5,6) assms(7) [unfolded S_def E_def] asymp_on_less assms(8,9), of "vec_at xdata" "\<lambda>k. elems xdata ! k" nan] assms(4)
  unfolding align_closest_def S_def E_def by auto

text \<open>C22. The median of a window, computed with two heaps in one pass: it is the middle element of the sorted values when their
  number is odd, the mean of the two middle ones when it is even, and \<open>NaN\<close> when there are none.\<close>

theorem median_element_correct:
  "median_element (<) add half nan (vs :: 'r::linorder list) =
     (if vs = [] then nan
      else if odd (length vs) then sort vs ! (length vs div 2)
      else half (add (sort vs ! (length vs div 2 - 1)) (sort vs ! (length vs div 2))))"
proof (cases "vs = []")
  case True
  then show ?thesis by (simp add: median_element_def)
next
  case False
  obtain l r where lr: "fold (median_step (<)) vs ([], []) = (l, r)" by (rule prod.exhaust)
  have h: "halves (l, r) (mset vs)" using median_fold [of "([], [])" "{#}" vs] lr by (simp add: halves_def)
  note S = halves_sort [OF h]
  have d: "length l \<le> Suc (length r)" "length r \<le> Suc (length l)" using h by (simp_all add: halves_def)
  consider "length l = length r" | "length r = Suc (length l)" | "length l = Suc (length r)" using d by linarith
  then show ?thesis
  proof cases
    case 1
    then have "l \<noteq> []" "r \<noteq> []" using S(2) False by auto
    then show ?thesis using 1 S lr False by (simp add: median_element_def nth_append rev_nth hd_conv_nth)
  next
    case 2
    then have "r \<noteq> []" by auto
    then show ?thesis using 2 S lr False by (simp add: median_element_def nth_append hd_conv_nth)
  next
    case 3
    then have "l \<noteq> []" by auto
    then show ?thesis using 3 S lr False by (simp add: median_element_def nth_append rev_nth hd_conv_nth)
  qed
qed

definition int_vec :: "int list \<Rightarrow> int vec" where
  "int_vec xs = \<lparr>typenumber = 2, elems = xs, ordered = False, capacity = 1024, alloc = MemAlloc\<rparr>"

definition int_offset :: "int \<Rightarrow> int pseudo" where
  "int_offset d = \<lparr>pvec = int_vec [d], pscalar = True, first_elt = d\<rparr>"

lemma int_offset_simps [simp]: "offset (int_offset d) i = d" "offsets_for (int_offset d) n" "elems (int_vec xs) = xs" "alloc (int_vec xs) = MemAlloc"
    "vec_inv cmp (int_vec xs)"
  by (simp_all add: offset_def offsets_for_def int_offset_def int_vec_def vec_inv_def)

theorem align_closest_correct_witness:
  "\<exists>w. align_closest (<) (- 1) (+) (+) (int_vec [1, 4, 9]) (int_vec [2, 5, 20]) (int_vec [10, 40, 90]) (int_vec []) (int_offset (- 3)) (int_offset 3) = Inr w \<and>
     elems w = [10, 40, - 1]"
proof -
  have "forward [2, 5, 20] (\<lambda>i. [2, 5, 20] ! i + - 3) (\<lambda>i. [2, 5, 20] ! i + 3)" by (auto simp: forward_def less_Suc_eq)
  then show ?thesis
    using align_closest_correct [of "int_vec [1, 4, 9]" "int_vec [10, 40, 90]" "int_offset (- 3)" "int_vec [2, 5, 20]" "int_offset 3" "(+)" "(+)" "int_vec []" "- 1"]
    by (auto simp: nearest_def upt_rec numeral_2_eq_2)
qed

text \<open>Searching past the end: a new time after the last one of the series makes \<open>align_idx\<close> throw, where \<open>align_closest\<close> gives \<open>NaN\<close>.\<close>

lemma align_idx_past_end:
  "align_idx (<) (- 1) int (+) (+) (int_vec [1]) (int_vec [5]) (int_offset 0) (int_offset 0) = Inl (OutOfRange ''subscript out of bounds'')"
  by (simp add: align_idx_def align_loop_def find_closest_def vec_rsv_def skip_before.simps pseudo_at_def int_offset_def vec_at_def size_sub_def)

end
