(* ===== verification/Align_Zts.thy ===== *)
theory Align_Zts
  imports Align
begin

text \<open>
  Alignment of whole series: the built-in functions \<open>align\<close>, \<open>align.idx\<close> and \<open>op.zts\<close> (\<open>src/src/base_funcs.cpp\<close>) over the functions of
  \<open>src/src/zts.hpp\<close>, and what they return. The arguments of a built-in are given by their values; time zones are looked up by
  \<open>zones\<close>, and \<open>plusp\<close> adds a period to a time in a zone. The operations on doubles are the fields of \<open>doubles\<close>.
\<close>

section \<open>Built-in functions\<close>

record doubles =
  d_lt :: "64 word \<Rightarrow> 64 word \<Rightarrow> bool"
  d_add :: "64 word \<Rightarrow> 64 word \<Rightarrow> 64 word"
  d_sub :: "64 word \<Rightarrow> 64 word \<Rightarrow> 64 word"
  d_mul :: "64 word \<Rightarrow> 64 word \<Rightarrow> 64 word"
  d_div :: "64 word \<Rightarrow> 64 word \<Rightarrow> 64 word"
  d_of_nat :: "nat \<Rightarrow> 64 word"
  d_nan :: "64 word"

definition align_wrapper ::
  "doubles \<Rightarrow> (int \<Rightarrow> 's \<Rightarrow> int) \<Rightarrow> (int \<Rightarrow> 'e \<Rightarrow> int) \<Rightarrow> zts \<Rightarrow> int array \<Rightarrow> 's pseudo \<Rightarrow> 'e pseudo \<Rightarrow> string \<Rightarrow> zts res" where
  "align_wrapper D pls ple ts y start en meth =
     (let num = d_of_nat D; func = (\<lambda>f. zts_align_func (d_lt D) (\<lambda>vs. Inr (f vs)) pls ple ts y start en) in
      if meth = ''closest'' then zts_align_closest (d_lt D) (d_nan D) pls ple ts y start en
      else if meth = ''mean'' then func (mean_element (num 0) (d_add D) (d_nan D) (\<lambda>s n. d_div D s (num n)))
      else if meth = ''max'' then func (max_element (d_lt D) (d_nan D))
      else if meth = ''min'' then func (min_element (d_lt D) (d_nan D))
      else if meth = ''count'' then func (count_element num)
      else if meth = ''median'' then func (median_element (d_lt D) (d_add D) (\<lambda>s. d_div D s (num 2)) (d_nan D))
      else Inl (EvalException ''unknown align method''))"

definition checkVector :: "'u array \<Rightarrow> 'v array \<Rightarrow> unit res" where
  "checkVector u v =
     (if asize v \<noteq> 1 \<and> (\<not> isVector v \<or> asize v \<noteq> asize u) then Inl (EvalException ''invalid dimensions'') else Inr ())"

datatype 'p offsets = Durations "int array" | Periods "'p array"

text \<open>The offsets of both sides are checked against the new times before they are read.\<close>

definition with_offsets :: "int array \<Rightarrow> 's array \<Rightarrow> 'e array \<Rightarrow> ('s pseudo \<Rightarrow> 'e pseudo \<Rightarrow> 'r res) \<Rightarrow> 'r res" where
  "with_offsets y s e k =
     bindR (checkVector y s) (\<lambda>_. bindR (checkVector y e) (\<lambda>_.
     bindR (getcol s 0) (\<lambda>sv. bindR (mk_pseudo sv) (\<lambda>ps. bindR (getcol e 0) (\<lambda>ev. bindR (mk_pseudo ev) (\<lambda>pe. k ps pe))))))"

definition align_zone :: "(string \<Rightarrow> 'z option) \<Rightarrow> string option \<Rightarrow> 'z res" where
  "align_zone zones tz =
     (case tz of None \<Rightarrow> Inl (EvalException ''time zone must be supplied'')
      | Some name \<Rightarrow> (case zones name of None \<Rightarrow> Inl (EvalException ''cannot find time zone'') | Some z \<Rightarrow> Inr z))"

definition align_builtin ::
  "doubles \<Rightarrow> (string \<Rightarrow> 'z option) \<Rightarrow> ('z \<Rightarrow> int \<Rightarrow> 'p \<Rightarrow> int) \<Rightarrow> zts \<Rightarrow> int array \<Rightarrow> 'p offsets \<Rightarrow> 'p offsets \<Rightarrow> string
     \<Rightarrow> string option \<Rightarrow> zts res" where
  "align_builtin D zones plusp ts y start en meth tz =
     (if \<not> isVector y then Inl (EvalException (CHR 0x27 # ''to' is not a vector''))
      else case (start, en) of
        (Durations s, Durations e) \<Rightarrow>
          with_offsets y s e (\<lambda>ps pe. align_wrapper D (+) (+) ts y ps pe meth)
      | _ \<Rightarrow> bindR (align_zone zones tz) (\<lambda>z.
          case (start, en) of
            (Periods s, Periods e) \<Rightarrow>
              with_offsets y s e (\<lambda>ps pe. align_wrapper D (plusp z) (plusp z) ts y ps pe meth)
          | (Durations s, Periods e) \<Rightarrow>
              with_offsets y s e (\<lambda>ps pe. align_wrapper D (+) (plusp z) ts y ps pe meth)
          | (Periods s, Durations e) \<Rightarrow>
              with_offsets y s e (\<lambda>ps pe. align_wrapper D (plusp z) (+) ts y ps pe meth)
          | (Durations s, Durations e) \<Rightarrow> Inl UB))"

definition idx_array :: "doubles \<Rightarrow> 64 word vec \<Rightarrow> 64 word array res" where
  "idx_array D v = mk_array MemAlloc (d_lt D) 0 (d_of_nat D 0) [vsize v] (elems v) []"

definition align_idx_builtin ::
  "doubles \<Rightarrow> (string \<Rightarrow> 'z option) \<Rightarrow> ('z \<Rightarrow> int \<Rightarrow> 'p \<Rightarrow> int) \<Rightarrow> int array \<Rightarrow> int array \<Rightarrow> 'p offsets \<Rightarrow> 'p offsets
     \<Rightarrow> string option \<Rightarrow> 64 word array res" where
  "align_idx_builtin D zones plusp x y start en tz =
     (if \<not> isVector y then Inl (EvalException (CHR 0x27 # ''to' is not a vector''))
      else case (start, en) of
        (Durations s, Durations e) \<Rightarrow> with_offsets y s e (\<lambda>ps pe. bindR (getcol x 0) (\<lambda>xv. bindR (getcol y 0) (\<lambda>yv.
          bindR (align_idx (d_lt D) (d_nan D) (d_of_nat D) (+) (+) xv yv ps pe) (idx_array D))))
      | _ \<Rightarrow> bindR (align_zone zones tz) (\<lambda>z.
          case (start, en) of
            (Periods s, Periods e) \<Rightarrow> with_offsets y s e (\<lambda>ps pe. bindR (getcol x 0) (\<lambda>xv. bindR (getcol y 0) (\<lambda>yv.
              bindR (align_idx (d_lt D) (d_nan D) (d_of_nat D) (plusp z) (plusp z) xv yv ps pe) (idx_array D))))
          | (Durations s, Periods e) \<Rightarrow> with_offsets y s e (\<lambda>ps pe. bindR (getcol x 0) (\<lambda>xv. bindR (getcol y 0) (\<lambda>yv.
              bindR (align_idx (d_lt D) (d_nan D) (d_of_nat D) (+) (plusp z) xv yv ps pe) (idx_array D))))
          | (Periods s, Durations e) \<Rightarrow> with_offsets y s e (\<lambda>ps pe. bindR (getcol x 0) (\<lambda>xv. bindR (getcol y 0) (\<lambda>yv.
              bindR (align_idx (d_lt D) (d_nan D) (d_of_nat D) (plusp z) (+) xv yv ps pe) (idx_array D))))
          | (Durations s, Durations e) \<Rightarrow> Inl UB))"

definition op_zts_builtin :: "doubles \<Rightarrow> zts \<Rightarrow> zts \<Rightarrow> string \<Rightarrow> zts res" where
  "op_zts_builtin D x y oper =
     (if oper = ''*'' then zts_op (d_mul D) x y
      else if oper = ''/'' then zts_op (d_div D) x y
      else if oper = ''+'' then zts_op (d_add D) x y
      else if oper = ''-'' then zts_op (d_sub D) x y
      else Inl (EvalException ''unknown align op''))"

section \<open>Aligned series\<close>

lemma zts_wf_times:
  assumes "zts_wf cmp z"
  shows "length (cols (zidx z)) = 1" "content (zidx z) = elems (cols (zidx z) ! 0)" "vsize (cols (zidx z) ! 0) = nrows (zarr z)"
    "sorted (elems (cols (zidx z) ! 0))"
proof -
  have wf: "array_wf (<) (zidx z)" "adim (zidx z) = [nrows (zarr z)]" "isOrdered (zidx z)" using assms by (simp_all add: zts_wf_def)
  show l: "length (cols (zidx z)) = 1" using array_wfD(1) [OF wf(1)] wf(2) by (simp add: ncols_of_def)
  then show "content (zidx z) = elems (cols (zidx z) ! 0)" by (cases "cols (zidx z)") (auto simp: content_def)
  have c: "col_wf (<) (nrows (zidx z)) (cols (zidx z) ! 0)" using array_wfD(2) [OF wf(1)] l by simp
  then show "vsize (cols (zidx z) ! 0) = nrows (zarr z)" using wf(2) by (simp add: col_wf_def nrows_def)
  have "successively (\<lambda>x y. \<not> y < x) (elems (cols (zidx z) ! 0))"
    using c wf(3) l by (simp add: col_wf_def vec_inv_def isOrdered_def list_all_length)
  then show "sorted (elems (cols (zidx z) ! 0))" by (simp add: successively_conv_sorted_wrt not_less)
qed

lemma zts_align_ok:
  assumes ts: "zts_wf lt ts" and y: "array_wf (<) y" "adim y = [n]" "isOrdered y" and fits: "ncols (zarr ts) * n \<le> SIZE_MAX"
    and f: "\<And>c v. c < ncols (zarr ts) \<Longrightarrow> col_wf lt 0 v \<Longrightarrow> \<exists>w. f (cols (zidx ts) ! 0) (cols y ! 0) (cols (zarr ts) ! c) v = Inr w \<and> col_wf lt n w \<and> elems w = r c"
  shows "\<exists>z. zts_align f ts y = Inr z \<and> zts_wf lt z \<and> content (zidx z) = content y \<and> adim (zarr z) = n # tl (adim (zarr ts)) \<and>
    ncols (zarr z) = ncols (zarr ts) \<and> (\<forall>c<ncols (zarr ts). elems (cols (zarr z) ! c) = r c)"
proof -
  let ?a = "zarr ts" and ?x = "cols (zidx ts) ! 0"
  have wf: "array_wf lt ?a" "adim ?a \<noteq> []" using ts by (simp_all add: zts_wf_def)
  have y1: "length (cols y) = 1" "asize y = n" using array_wfD(1,4) [OF y(1)] y(2) by (simp_all add: ncols_of_def nrows_def)
  let ?d = "(adim ?a)[0 := n]"
  have d: "?d = n # tl (adim ?a)" "?d \<noteq> []" "ncols_of ?d = length (cols ?a)" "?d ! 0 = n"
    using wf(2) array_wfD(1) [OF wf(1)] by (cases "adim ?a"; simp add: ncols_of_def)+
  let ?v = "\<lparr>typenumber = 0, elems = [], ordered = True, capacity = growCapacity n, alloc = MemAlloc\<rparr> :: 64 word vec"
  let ?r = "\<lparr>adim = ?d, cols = replicate (length (cols ?a)) ?v, anames = map (unnamed MemAlloc) ?d\<rparr>"
  have rsv: "array_rsv MemAlloc 0 ?d [] = Inr ?r" using array_rsv_eq [OF d(2), of MemAlloc 0] d(3,4) by simp
  let ?f = "\<lambda>i v. f ?x (cols y ! 0) (cols ?a ! i) v"
  have "foldR (\<lambda>i vs. bindR (getcol (zidx ts) 0) (\<lambda>x. bindR (getcol y 0) (\<lambda>yv. bindR (getcol ?a i) (\<lambda>xd. bindR (std_at vs i) (\<lambda>v.
          bindR (f x yv xd v) (\<lambda>w. Inr (vs[i := w]))))))) [0..<length (cols ?a)] (cols ?r) =
      foldR (\<lambda>i vs. bindR (std_at vs i) (\<lambda>v. bindR (?f i v) (\<lambda>w. Inr (vs[i := w])))) [0..<length (cols ?a)] (cols ?r)"
    by (rule foldR_body_cong) (use y1 zts_wf_times(1) [OF ts] in \<open>simp add: getcol_def\<close>)
  moreover have "list_all (col_wf lt 0) (cols ?r)" by (simp add: list_all_length col_wf_def vec_inv_def)
  then obtain ws where ws: "foldR (\<lambda>i vs. bindR (std_at vs i) (\<lambda>v. bindR (?f i v) (\<lambda>w. Inr (vs[i := w])))) [0..<length (cols ?a)] (cols ?r) =
      Inr (ws @ drop (length (cols ?a)) (cols ?r))" "length ws = length (cols ?a)" "\<forall>c<length (cols ?a). col_wf lt n (ws ! c) \<and> elems (ws ! c) = r c"
    using update_cols_ok [of "col_wf lt 0" "cols ?r" "length (cols ?a)" "length (cols ?a)" ?f "\<lambda>c w. col_wf lt n w \<and> elems w = r c"] f
    by (auto simp: ncols_def)
  ultimately have al: "zts_align f ts y = zts_of_arrays y (?r\<lparr>cols := ws\<rparr>)"
    using wf(2) rsv y1(2) by (simp add: zts_align_def ncols_def)
  have rwf: "array_wf lt (?r\<lparr>cols := ws\<rparr>)"
    using ws(2,3) d fits names_wf_sizes [of MemAlloc ?d] by (simp add: array_wf_def list_all_length nrows_def ncols_def)
  obtain z where z: "zts_of_arrays y (?r\<lparr>cols := ws\<rparr>) = Inr z" "zts_wf lt z" "content (zidx z) = content y" "adim (zarr z) = ?d"
      "map elems (cols (zarr z)) = map elems ws"
    using zts_of_arrays_ok [OF y(1) rwf y(2) _ _ y(3)] d by auto
  then have "length (cols (zarr z)) = length (cols ?a)" "\<forall>c<length (cols ?a). elems (cols (zarr z) ! c) = r c"
    using ws(2,3) by (metis length_map, metis length_map nth_map)
  then show ?thesis using z al d(1) by (auto simp: ncols_def)
qed

section \<open>Properties\<close>

text \<open>C18. Alignment of a whole series with a function: on a well-formed series and an ascending vector of new times, with windows
  whose starts do not move back, the result is a well-formed series that has exactly the new times as its index and, in every
  column, the function of the values of that column at the times from the start of each window up to its end.\<close>

theorem zts_align_func_correct:
  fixes pls :: "int \<Rightarrow> 's \<Rightarrow> int" and ple :: "int \<Rightarrow> 'e \<Rightarrow> int" and start :: "'s pseudo" and en :: "'e pseudo" and ts :: zts and y :: "int array"
  defines "S \<equiv> \<lambda>i. pls (content y ! i) (offset start i)" and "E \<equiv> \<lambda>i. ple (content y ! i) (offset en i)"
  assumes ts: "zts_wf lt ts" and y: "array_wf (<) y" "adim y = [n]" "isOrdered y" and lt: "asymp lt"
    and offs: "offsets_for start n" "offsets_for en n" "\<forall>i. Suc i < n \<longrightarrow> S i \<le> S (Suc i)" and fits: "ncols (zarr ts) * n \<le> SIZE_MAX"
  shows "\<exists>z. zts_align_func lt (\<lambda>vs. Inr (f vs)) pls ple ts y start en = Inr z \<and> zts_wf lt z \<and> content (zidx z) = content y \<and>
    ncols (zarr z) = ncols (zarr ts) \<and>
    (\<forall>c<ncols (zarr ts). elems (cols (zarr z) ! c) =
       map (\<lambda>i. f (values_in (content (zidx ts)) (elems (cols (zarr ts) ! c)) (S i) (E i))) [0..<n])"
proof -
  note T = zts_wf_times [OF ts]
  have y1: "length (cols y) = 1" "vsize (cols y ! 0) = n" "content y = elems (cols y ! 0)"
  proof -
    show l: "length (cols y) = 1" using array_wfD(1) [OF y(1)] y(2) by (simp add: ncols_of_def)
    show "vsize (cols y ! 0) = n" using array_wfD(2) [OF y(1), of 0] l y(2) by (simp add: col_wf_def nrows_def)
    show "content y = elems (cols y ! 0)" using l by (cases "cols y") (auto simp: content_def)
  qed
  have wf: "array_wf lt (zarr ts)" using ts by (simp add: zts_wf_def)
  let ?r = "\<lambda>c. map (\<lambda>i. f (values_in (content (zidx ts)) (elems (cols (zarr ts) ! c)) (S i) (E i))) [0..<n]"
  have "\<exists>w. align_func lt (\<lambda>vs. Inr (f vs)) pls ple (cols (zidx ts) ! 0) (cols y ! 0) (cols (zarr ts) ! c) v start en = Inr w \<and> col_wf lt n w \<and> elems w = ?r c"
    if c: "c < ncols (zarr ts)" and v: "col_wf lt 0 v" for c v
  proof -
    have "vsize (cols (zarr ts) ! c) = vsize (cols (zidx ts) ! 0)"
      using array_wfD(2) [OF wf] c T(3) by (simp add: ncols_def col_wf_def)
    from align_func_ok [OF T(4) this, of start "cols y ! 0" en pls lt v "\<lambda>vs. Inr (f vs)" f ple] show ?thesis
      using y1 offs lt v T(2) unfolding S_def E_def by (auto simp: col_wf_def)
  qed
  then have "\<exists>z. zts_align (\<lambda>x yv xd v. align_func lt (\<lambda>vs. Inr (f vs)) pls ple x yv xd v start en) ts y = Inr z \<and> zts_wf lt z \<and>
      content (zidx z) = content y \<and> adim (zarr z) = n # tl (adim (zarr ts)) \<and> ncols (zarr z) = ncols (zarr ts) \<and>
      (\<forall>c<ncols (zarr ts). elems (cols (zarr z) ! c) = ?r c)"
    by (intro zts_align_ok [OF ts y fits])
  then show ?thesis unfolding zts_align_func_def by blast
qed

theorem zts_align_func_correct_witness:
  "\<exists>z. zts_align_func (<) (\<lambda>vs. Inr (word_of_nat (length vs))) (+) (+) (series_example 3) (zidx (series_example 4)) (int_offset (- 2)) (int_offset 1) = Inr z \<and>
     content (zidx z) = [4] \<and> elems (cols (zarr z) ! 0) = [1]"
proof -
  have wf: "array_wf (<) (zidx (series_example 4))" "isOrdered (zidx (series_example 4))" "adim (zidx (series_example 4)) = [1]"
    using series_example_wf [of 4] series_example_facts [of 4] by (simp_all add: zts_wf_def)
  have n: "ncols (zarr (series_example 3)) = 2" "vsize (cols (zarr (series_example 3)) ! 0) = 1"
    by (simp_all add: series_example_def wire_example_def ncols_def)
  then have "zip [3 :: int] (elems (cols (zarr (series_example 3)) ! 0)) = [(3, elems (cols (zarr (series_example 3)) ! 0) ! 0)]"
    by (cases "elems (cols (zarr (series_example 3)) ! 0)") auto
  moreover have "asymp ((<) :: 64 word \<Rightarrow> 64 word \<Rightarrow> bool)" by (rule asymp_on_less)
  ultimately show ?thesis
    using zts_align_func_correct [OF series_example_wf wf(1,3,2), of "int_offset (- 2)" "int_offset 1" "(+)" 3 "\<lambda>vs. word_of_nat (length vs)" "(+)"] n
      series_example_facts [of 3] series_example_facts [of 4]
    by (auto simp: values_in_def SIZE_MAX_def)
qed

end
