(* ===== verification/Rolling.thy ===== *)
theory Rolling
  imports Array_Ops
begin

unbundle bit_operations_syntax

text \<open>
  Rolling windows and shifts over the columns of an array (\<open>src/src/array_ops.hpp\<close>), with the checks of the built-in functions
  (\<open>src/src/base_funcs_roll.cpp\<close>). All of them overwrite the array in place. The element type is a parameter: \<open>isnan\<close> and \<open>nan\<close> tell
  about missing values, \<open>cmp\<close> is the comparison behind the ordered flag, and the arithmetic is the record \<open>arith\<close>. Counters are 64-bit
  unsigned (\<open>size_sub\<close> wraps around).
\<close>

section \<open>Loops over columns and rows\<close>

text \<open>The columns are treated in turn; the auxiliary storage \<open>s\<close> of a function is shared by them.\<close>

definition over_cols :: "('a vec \<Rightarrow> 's \<Rightarrow> ('a vec \<times> 's) res) \<Rightarrow> 's \<Rightarrow> 'a array \<Rightarrow> 'a array res" where
  "over_cols f s a =
     bindR (foldR (\<lambda>c (vs, s). bindR (std_at vs c) (\<lambda>v. bindR (f v s) (\<lambda>(w, s'). Inr (vs[c := w], s')))) [0..<length (cols a)] (cols a, s))
       (\<lambda>(vs, _). Inr (a\<lparr>cols := vs\<rparr>))"

definition over_cols_plain :: "('a vec \<Rightarrow> 'a vec res) \<Rightarrow> 'a array \<Rightarrow> 'a array res" where
  "over_cols_plain f a = over_cols (\<lambda>v s. bindR (f v) (\<lambda>w. Inr (w, s))) () a"

text \<open>The indices of \<open>for (r = d - 1; r >= n; --r)\<close> with \<open>n > 0\<close>: for \<open>d = 0\<close> the loop starts at the largest index.\<close>

definition rows_down :: "nat \<Rightarrow> nat \<Rightarrow> nat list" where
  "rows_down d n = (if d = 0 then [SIZE_MAX] else rev [n..<d])"

text \<open>64-bit unsigned sums with a signed operand.\<close>

definition size_plus :: "nat \<Rightarrow> int \<Rightarrow> nat" where
  "size_plus d n = nat ((int d + n) mod 2 ^ 64)"

definition as_size :: "int \<Rightarrow> nat" where
  "as_size n = nat (n mod 2 ^ 64)"

section \<open>Minimum and maximum\<close>

function pop_back :: "('a \<Rightarrow> 'a \<Rightarrow> bool) \<Rightarrow> ('a \<times> nat) list \<Rightarrow> nat \<Rightarrow> 'a \<Rightarrow> nat \<Rightarrow> nat" where
  "pop_back ge ms front x back =
     (if front < back \<and> ge (fst (ms ! (back - 1))) x then pop_back ge ms front x (back - 1) else back)"
  by pat_completeness auto
termination
  by (relation "measure (\<lambda>(ge, ms, front, x, back). back)") auto

declare pop_back.simps [simp del]

function pop_front :: "('a \<times> nat) list \<Rightarrow> nat \<Rightarrow> nat \<Rightarrow> nat res" where
  "pop_front ms lim front =
     (if front < length ms then (if snd (ms ! front) \<le> lim then pop_front ms lim (front + 1) else Inr front) else Inl UB)"
  by pat_completeness auto
termination
  by (relation "measure (\<lambda>(ms, lim, front). length ms - front)") auto

declare pop_front.simps [simp del]

text \<open>A row of the loop: the column, the candidates with their positions, the bounds of the queue and the number of valid values.\<close>

type_synonym 'a roll_state = "'a vec \<times> ('a \<times> nat) list \<times> nat \<times> nat \<times> nat"

definition roll_row ::
  "('a \<Rightarrow> 'a \<Rightarrow> bool) \<Rightarrow> ('a \<Rightarrow> 'a \<Rightarrow> bool) \<Rightarrow> ('a \<Rightarrow> bool) \<Rightarrow> 'a \<Rightarrow> nat \<Rightarrow> nat \<Rightarrow> nat \<Rightarrow> 'a roll_state \<Rightarrow> 'a roll_state res" where
  "roll_row ge cmp isnan nan window nbvalid r st =
     (case st of (v, ms, front, back, nbv) \<Rightarrow>
        bindR (vec_at v r) (\<lambda>x.
        bindR (if isnan x then Inr (ms, back, nbv)
               else let b = pop_back ge ms front x back in
                    if b < length ms then Inr (ms[b := (x, r)], b + 1, nbv + 1) else Inl UB) (\<lambda>(ms1, back1, nbv1).
        bindR (if r \<ge> window then bindR (vec_at v (r - window)) (\<lambda>y. Inr (if isnan y then nbv1 else size_sub nbv1 1)) else Inr nbv1) (\<lambda>nbv2.
          if nbv2 \<ge> nbvalid then
            bindR (if r \<ge> window then pop_front ms1 (r - window) front else Inr front) (\<lambda>front2.
            bindR (std_at ms1 front2) (\<lambda>m. bindR (setv cmp r (fst m) v) (\<lambda>w. Inr (w, ms1, front2, back1, nbv2))))
          else bindR (setv cmp r nan v) (\<lambda>w. Inr (w, ms1, front, back1, nbv2))))))"

definition roll_col ::
  "('a \<Rightarrow> 'a \<Rightarrow> bool) \<Rightarrow> ('a \<Rightarrow> 'a \<Rightarrow> bool) \<Rightarrow> ('a \<Rightarrow> bool) \<Rightarrow> 'a \<Rightarrow> nat \<Rightarrow> nat \<Rightarrow> nat \<Rightarrow> 'a vec \<Rightarrow> ('a \<times> nat) list
     \<Rightarrow> ('a vec \<times> ('a \<times> nat) list) res" where
  "roll_col ge cmp isnan nan window nbvalid d v ms =
     bindR (foldR (roll_row ge cmp isnan nan window nbvalid) [0..<d] (v, ms, 0, 0, 0)) (\<lambda>(w, ms', _). Inr (w, ms'))"

definition roll_extreme ::
  "('a \<Rightarrow> 'a \<Rightarrow> bool) \<Rightarrow> ('a \<Rightarrow> 'a \<Rightarrow> bool) \<Rightarrow> ('a \<Rightarrow> bool) \<Rightarrow> 'a \<Rightarrow> 'a \<Rightarrow> 'a array \<Rightarrow> nat \<Rightarrow> nat \<Rightarrow> 'a array res" where
  "roll_extreme ge cmp isnan nan zero a window nbvalid =
     bindR (dim_at (adim a) 0) (\<lambda>d. over_cols (roll_col ge cmp isnan nan window nbvalid d) (replicate d (zero, 0)) a)"

definition rollmin_inplace :: "('a::linorder \<Rightarrow> bool) \<Rightarrow> 'a \<Rightarrow> 'a \<Rightarrow> 'a array \<Rightarrow> nat \<Rightarrow> nat \<Rightarrow> 'a array res" where
  "rollmin_inplace = roll_extreme (\<ge>) (<)"

definition rollmax_inplace :: "('a::linorder \<Rightarrow> bool) \<Rightarrow> 'a \<Rightarrow> 'a \<Rightarrow> 'a array \<Rightarrow> nat \<Rightarrow> nat \<Rightarrow> 'a array res" where
  "rollmax_inplace = roll_extreme (\<le>) (<)"

section \<open>Mean, variance and covariance\<close>

record 'a arith =
  add :: "'a \<Rightarrow> 'a \<Rightarrow> 'a"
  sub :: "'a \<Rightarrow> 'a \<Rightarrow> 'a"
  mul :: "'a \<Rightarrow> 'a \<Rightarrow> 'a"
  quot :: "'a \<Rightarrow> 'a \<Rightarrow> 'a"
  of_size :: "nat \<Rightarrow> 'a"

function ring_size :: "nat \<Rightarrow> nat \<Rightarrow> nat" where
  "ring_size window sz = (if 0 < sz \<and> sz < window then ring_size window (sz * 2) else sz)"
  by pat_completeness auto
termination
  by (relation "measure (\<lambda>(window, sz). window - sz)") auto

declare ring_size.simps [simp del]

definition rollmean_row ::
  "'a arith \<Rightarrow> ('a \<Rightarrow> 'a \<Rightarrow> bool) \<Rightarrow> ('a \<Rightarrow> bool) \<Rightarrow> 'a \<Rightarrow> nat \<Rightarrow> nat \<Rightarrow> nat \<Rightarrow> 'a vec \<times> 'a list \<times> 'a \<times> nat \<Rightarrow> ('a vec \<times> 'a list \<times> 'a \<times> nat) res" where
  "rollmean_row R cmp isnan nan window nbvalid r st =
     (case st of (v, ring, mean, nbv) \<Rightarrow>
        let slot = r AND (length ring - 1) in
        bindR (std_at ring slot) (\<lambda>outvalue. bindR (vec_at v r) (\<lambda>x.
        let (mean1, ring1, nbv1) = (if isnan x then (mean, ring, nbv) else (add R mean x, ring[slot := x], nbv + 1));
            (mean2, nbv2) = (if r \<ge> window \<and> \<not> isnan outvalue then (sub R mean1 outvalue, size_sub nbv1 1) else (mean1, nbv1))
        in bindR (setv cmp r (if nbv2 \<ge> nbvalid then quot R mean2 (of_size R window) else nan) v) (\<lambda>w. Inr (w, ring1, mean2, nbv2)))))"

definition rollmean_inplace ::
  "'a arith \<Rightarrow> ('a \<Rightarrow> 'a \<Rightarrow> bool) \<Rightarrow> ('a \<Rightarrow> bool) \<Rightarrow> 'a \<Rightarrow> 'a array \<Rightarrow> nat \<Rightarrow> nat \<Rightarrow> 'a array res" where
  "rollmean_inplace R cmp isnan nan a window nbvalid =
     over_cols (\<lambda>v ring. bindR (dim_at (adim a) 0) (\<lambda>d.
       bindR (foldR (rollmean_row R cmp isnan nan window nbvalid) [0..<d] (v, ring, of_size R 0, 0)) (\<lambda>(w, ring', _). Inr (w, ring'))))
       (replicate (ring_size window 1) (of_size R 0)) a"

type_synonym 'a var_state = "'a vec \<times> ('a list \<times> 'a list) \<times> 'a \<times> 'a \<times> nat"

definition rollvar_row ::
  "'a arith \<Rightarrow> ('a \<Rightarrow> 'a \<Rightarrow> bool) \<Rightarrow> ('a \<Rightarrow> bool) \<Rightarrow> 'a \<Rightarrow> nat \<Rightarrow> nat \<Rightarrow> nat \<Rightarrow> 'a var_state \<Rightarrow> 'a var_state res" where
  "rollvar_row R cmp isnan nan window nbvalid r st =
     (case st of (v, (ring, ring2), s0, t0, nbv) \<Rightarrow>
        let slot = r AND (length ring - 1) in
        bindR (std_at ring slot) (\<lambda>out1. bindR (std_at ring2 slot) (\<lambda>out2. bindR (vec_at v r) (\<lambda>x.
        let (s1, t1, rg, rg2, nbv1) = (if isnan x then (s0, t0, ring, ring2, nbv)
              else (add R s0 x, add R t0 (mul R x x), ring[slot := x], ring2[slot := mul R x x], nbv + 1));
            (s2, t2, nbv2) = (if r \<ge> window \<and> \<not> isnan out1 then (sub R s1 out1, sub R t1 out2, size_sub nbv1 1) else (s1, t1, nbv1))
        in bindR (if nbv2 \<ge> nbvalid then
                    bindR (setv cmp r (quot R (sub R t2 (quot R (mul R s2 s2) (of_size R nbv2))) (of_size R (size_sub nbv2 1))) v) (\<lambda>w.
                    bindR (vec_at w r) (\<lambda>y. if cmp y (of_size R 0) then setv cmp r (of_size R 0) w else Inr w))
                  else setv cmp r nan v) (\<lambda>w. Inr (w, (rg, rg2), s2, t2, nbv2))))))"

definition rollvar_inplace ::
  "'a arith \<Rightarrow> ('a \<Rightarrow> 'a \<Rightarrow> bool) \<Rightarrow> ('a \<Rightarrow> bool) \<Rightarrow> 'a \<Rightarrow> 'a array \<Rightarrow> nat \<Rightarrow> nat \<Rightarrow> 'a array res" where
  "rollvar_inplace R cmp isnan nan a window nbvalid =
     over_cols (\<lambda>v rings. bindR (dim_at (adim a) 0) (\<lambda>d.
       bindR (foldR (rollvar_row R cmp isnan nan window nbvalid) [0..<d] (v, rings, of_size R 0, of_size R 0, 0)) (\<lambda>(w, rings', _). Inr (w, rings'))))
       (replicate (ring_size window 1) (of_size R 0), replicate (ring_size window 1) (of_size R 0)) a"

type_synonym 'a cov_state = "'a vec \<times> ('a list \<times> 'a list \<times> 'a list) \<times> ('a \<times> 'a \<times> 'a) \<times> nat"

definition rollcov_row ::
  "'a arith \<Rightarrow> ('a \<Rightarrow> 'a \<Rightarrow> bool) \<Rightarrow> ('a \<Rightarrow> bool) \<Rightarrow> 'a \<Rightarrow> nat \<Rightarrow> nat \<Rightarrow> 'a vec \<Rightarrow> 'a vec \<Rightarrow> nat \<Rightarrow> 'a cov_state \<Rightarrow> 'a cov_state res" where
  "rollcov_row R cmp isnan nan window nbvalid xv yv r st =
     (case st of (z, (rx, ry, rxy), (sx, sy, sxy), nbv) \<Rightarrow>
        let slot = r AND (length rx - 1) in
        bindR (std_at rx slot) (\<lambda>ox. bindR (std_at ry slot) (\<lambda>oy. bindR (std_at rxy slot) (\<lambda>oxy.
        bindR (vec_at xv r) (\<lambda>x. bindR (vec_at yv r) (\<lambda>y.
        let ok = (\<not> isnan x \<and> \<not> isnan y);
            (rings, (sx1, sy1, sxy1), nbv1) =
              (if ok then ((rx[slot := x], ry[slot := y], rxy[slot := mul R x y]), (add R sx x, add R sy y, add R sxy (mul R x y)), nbv + 1)
               else ((rx, ry, rxy), (sx, sy, sxy), nbv));
            ((sx2, sy2, sxy2), nbv2) =
              (if r \<ge> window \<and> \<not> isnan ox \<and> \<not> isnan oy then ((sub R sx1 ox, sub R sy1 oy, sub R sxy1 oxy), size_sub nbv1 1)
               else ((sx1, sy1, sxy1), nbv1))
        in bindR (push_back cmp (if nbv2 \<ge> nbvalid
                    then quot R (sub R sxy2 (quot R (mul R sx2 sy2) (of_size R nbv2))) (of_size R (size_sub nbv2 1)) else nan) z)
             (\<lambda>w. Inr (w, rings, (sx2, sy2, sxy2), nbv2))))))))"

text \<open>The result has a column per pair of columns. The names of its rows are resized and its first extent set after each column
  of \<open>x\<close>.\<close>

definition rollcov_cols ::
  "'a arith \<Rightarrow> ('a \<Rightarrow> 'a \<Rightarrow> bool) \<Rightarrow> ('a \<Rightarrow> bool) \<Rightarrow> 'a \<Rightarrow> nat \<Rightarrow> nat \<Rightarrow> 'a array \<Rightarrow> 'a array \<Rightarrow> nat
     \<Rightarrow> 'a vec list \<times> ('a list \<times> 'a list \<times> 'a list) \<times> nat \<Rightarrow> ('a vec list \<times> ('a list \<times> 'a list \<times> 'a list) \<times> nat) res" where
  "rollcov_cols R cmp isnan nan window nbvalid x y colx st =
     foldR (\<lambda>coly (zs, rings, zcol).
        bindR (getdim y 0) (\<lambda>rows. bindR (getcol x colx) (\<lambda>xv. bindR (getcol y coly) (\<lambda>yv. bindR (std_at zs zcol) (\<lambda>z.
        bindR (foldR (rollcov_row R cmp isnan nan window nbvalid xv yv) [0..<rows] (z, rings, (of_size R 0, of_size R 0, of_size R 0), 0))
          (\<lambda>(w, rings', _). Inr (zs[zcol := w], rings', zcol + 1))))))) [0..<ncols y] st"

definition rollcov ::
  "'a arith \<Rightarrow> ('a \<Rightarrow> 'a \<Rightarrow> bool) \<Rightarrow> ('a \<Rightarrow> bool) \<Rightarrow> 'a \<Rightarrow> nat \<Rightarrow> 'a array \<Rightarrow> 'a array \<Rightarrow> nat \<Rightarrow> nat \<Rightarrow> 'a array res" where
  "rollcov R cmp isnan nan tn x y window nbvalid =
     (let ring = replicate (ring_size window 1) (of_size R 0) in
      if length (adim x) = 0 \<or> length (adim y) = 0 \<or> adim x ! 0 \<noteq> adim y ! 0 then Inl (RangeError ''invalid dimensions'')
      else
        bindR (array_rsv MemAlloc tn [0, ncols x, ncols y] []) (\<lambda>z. bindR (getdim y 0) (\<lambda>rows.
        bindR (foldR (\<lambda>colx (a, rings, zcol).
            bindR (rollcov_cols R cmp isnan nan window nbvalid x y colx (cols a, rings, zcol)) (\<lambda>(zs, rings', zcol').
            bindR (std_at (anames a) 0) (\<lambda>nm. bindR (dname_resize rows 0 nm) (\<lambda>nm'.
              Inr (a\<lparr>cols := zs, anames := (anames a)[0 := nm'], adim := (adim a)[0 := rows]\<rparr>, rings', zcol')))))
          [0..<ncols x] (z, (ring, ring, ring), 0)) (\<lambda>(a, _). Inr a))))"

section \<open>Last observation carried forward\<close>

text \<open>\<open>last_idx\<close> is -1 while the previous value is an observation; the distance is unsigned.\<close>

definition locf_row :: "('a \<Rightarrow> 'a \<Rightarrow> bool) \<Rightarrow> ('a \<Rightarrow> bool) \<Rightarrow> 'a \<Rightarrow> int \<Rightarrow> nat \<Rightarrow> 'a vec \<times> int \<Rightarrow> ('a vec \<times> int) res" where
  "locf_row cmp isnan nan n r st =
     (case st of (v, last_idx) \<Rightarrow>
        bindR (vec_at v r) (\<lambda>x.
          if isnan x then
            let last' = (if last_idx < 0 then int r - 1 else last_idx) in
            bindR (vec_at v (r - 1)) (\<lambda>p.
            bindR (setv cmp r (if as_size (int r - last') \<le> as_size n then p else nan) v) (\<lambda>w. Inr (w, last')))
          else Inr (v, - 1)))"

definition locf_col :: "('a \<Rightarrow> 'a \<Rightarrow> bool) \<Rightarrow> ('a \<Rightarrow> bool) \<Rightarrow> 'a \<Rightarrow> int \<Rightarrow> nat \<Rightarrow> 'a vec \<Rightarrow> 'a vec res" where
  "locf_col cmp isnan nan n d v = bindR (foldR (locf_row cmp isnan nan n) [1..<d] (v, - 1)) (\<lambda>st. Inr (fst st))"

definition locf_inplace :: "('a \<Rightarrow> 'a \<Rightarrow> bool) \<Rightarrow> ('a \<Rightarrow> bool) \<Rightarrow> 'a \<Rightarrow> 'a array \<Rightarrow> int \<Rightarrow> 'a array res" where
  "locf_inplace cmp isnan nan a n = over_cols_plain (\<lambda>v. bindR (dim_at (adim a) 0) (\<lambda>d. locf_col cmp isnan nan n d v)) a"

section \<open>Shifts\<close>

definition set_rows :: "('a \<Rightarrow> 'a \<Rightarrow> bool) \<Rightarrow> (nat \<Rightarrow> 'a vec \<Rightarrow> 'a res) \<Rightarrow> nat list \<Rightarrow> 'a vec \<Rightarrow> 'a vec res" where
  "set_rows cmp f rs v = foldR (\<lambda>r w. bindR (f r w) (\<lambda>x. setv cmp r x w)) rs v"

definition move_col :: "('a \<Rightarrow> 'a \<Rightarrow> bool) \<Rightarrow> 'a \<Rightarrow> int \<Rightarrow> nat \<Rightarrow> 'a vec \<Rightarrow> 'a vec res" where
  "move_col cmp nan n d v =
     (if n > 0 then
        bindR (set_rows cmp (\<lambda>r w. vec_at w (size_plus r (- n))) (rows_down d (nat n)) v) (set_rows cmp (\<lambda>r w. Inr nan) [0..<nat n])
      else
        bindR (set_rows cmp (\<lambda>r w. vec_at w (size_plus r (- n))) [0..<size_plus d n] v) (set_rows cmp (\<lambda>r w. Inr nan) [size_plus d n..<d]))"

definition move_inplace :: "('a \<Rightarrow> 'a \<Rightarrow> bool) \<Rightarrow> 'a \<Rightarrow> 'a array \<Rightarrow> int \<Rightarrow> 'a array res" where
  "move_inplace cmp nan a n = over_cols_plain (\<lambda>v. bindR (dim_at (adim a) 0) (\<lambda>d. move_col cmp nan n d v)) a"

text \<open>The rows that leave at one end are saved and come back at the other; the buffer is shared by the columns.\<close>

definition save_rows :: "nat list \<Rightarrow> nat \<Rightarrow> 'a vec \<Rightarrow> 'a list \<Rightarrow> 'a list res" where
  "save_rows rs base v buf = foldR (\<lambda>r b. bindR (vec_at v r) (\<lambda>x. if r - base < length b then Inr (b[r - base := x]) else Inl UB)) rs buf"

definition rotate_col :: "('a \<Rightarrow> 'a \<Rightarrow> bool) \<Rightarrow> int \<Rightarrow> nat \<Rightarrow> 'a vec \<Rightarrow> 'a list \<Rightarrow> ('a vec \<times> 'a list) res" where
  "rotate_col cmp n d v buf =
     (if n > 0 then
        bindR (save_rows [size_plus d (- n)..<d] (size_plus d (- n)) v buf) (\<lambda>b.
        bindR (set_rows cmp (\<lambda>r w. vec_at w (size_plus r (- n))) (rows_down d (nat n)) v) (\<lambda>w.
        bindR (set_rows cmp (\<lambda>r w. std_at b r) [0..<nat n] w) (\<lambda>w'. Inr (w', b))))
      else
        bindR (save_rows [0..<nat (- n)] 0 v buf) (\<lambda>b.
        bindR (set_rows cmp (\<lambda>r w. vec_at w (size_plus r (- n))) [0..<size_plus d n] v) (\<lambda>w.
        bindR (set_rows cmp (\<lambda>r w. std_at b (r - size_plus d n)) [size_plus d n..<d] w) (\<lambda>w'. Inr (w', b)))))"

definition rotate_inplace :: "('a \<Rightarrow> 'a \<Rightarrow> bool) \<Rightarrow> 'a \<Rightarrow> 'a array \<Rightarrow> int \<Rightarrow> 'a array res" where
  "rotate_inplace cmp init a n =
     over_cols (\<lambda>v buf. bindR (dim_at (adim a) 0) (\<lambda>d. rotate_col cmp n d v buf)) (replicate (nat \<bar>n\<bar>) init) a"

definition diff_col :: "('a \<Rightarrow> 'a \<Rightarrow> bool) \<Rightarrow> ('a \<Rightarrow> 'a \<Rightarrow> 'a) \<Rightarrow> 'a \<Rightarrow> int \<Rightarrow> nat \<Rightarrow> 'a vec \<Rightarrow> 'a vec res" where
  "diff_col cmp sb nan n d v =
     (let dif = (\<lambda>r w. bindR (vec_at w r) (\<lambda>x. bindR (vec_at w (size_plus r (- n))) (\<lambda>y. Inr (sb x y)))) in
      if n > 0 then bindR (set_rows cmp dif (rows_down d (nat n)) v) (set_rows cmp (\<lambda>r w. Inr nan) [0..<nat n])
      else bindR (set_rows cmp dif [0..<size_plus d n] v) (set_rows cmp (\<lambda>r w. Inr nan) [size_plus d n..<d]))"

definition diff_inplace :: "('a \<Rightarrow> 'a \<Rightarrow> bool) \<Rightarrow> ('a \<Rightarrow> 'a \<Rightarrow> 'a) \<Rightarrow> 'a \<Rightarrow> 'a array \<Rightarrow> int \<Rightarrow> 'a array res" where
  "diff_inplace cmp sb nan a n = over_cols_plain (\<lambda>v. bindR (dim_at (adim a) 0) (\<lambda>d. diff_col cmp sb nan n d v)) a"

section \<open>Accumulation and reversal\<close>

definition cumul_col :: "('a \<Rightarrow> 'a \<Rightarrow> bool) \<Rightarrow> ('a \<Rightarrow> 'a \<Rightarrow> 'a) \<Rightarrow> bool \<Rightarrow> 'a vec \<Rightarrow> 'a vec res" where
  "cumul_col cmp F backwards v =
     (if \<not> backwards then set_rows cmp (\<lambda>r w. bindR (vec_at w r) (\<lambda>x. bindR (vec_at w (r - 1)) (\<lambda>y. Inr (F x y)))) [1..<vsize v] v
      else foldR (\<lambda>r w. bindR (vec_at w (r - 1)) (\<lambda>x. bindR (vec_at w r) (\<lambda>y. setv cmp (r - 1) (F x y) w))) (rows_down (vsize v) 1) v)"

definition cumul_inplace :: "('a \<Rightarrow> 'a \<Rightarrow> bool) \<Rightarrow> ('a \<Rightarrow> 'a \<Rightarrow> 'a) \<Rightarrow> 'a array \<Rightarrow> bool \<Rightarrow> 'a array res" where
  "cumul_inplace cmp F a backwards = over_cols_plain (cumul_col cmp F backwards) a"

definition rev_col :: "'a vec \<Rightarrow> 'a vec res" where
  "rev_col v =
     foldR (\<lambda>j w. let k = vsize w - 1 - j; w' = forceUnOrdered w in
       bindR (vec_at w' j) (\<lambda>x. bindR (vec_at w' k) (\<lambda>y. Inr (w'\<lparr>elems := (elems w')[j := y, k := x]\<rparr>)))) [0..<vsize v div 2] v"

definition rev_inplace :: "'a array \<Rightarrow> 'a array res" where
  "rev_inplace a = over_cols_plain rev_col a"

section \<open>Checks of the built-in functions\<close>

definition checkParams :: "'a array \<Rightarrow> nat \<Rightarrow> nat \<Rightarrow> unit res" where
  "checkParams a window nbvalid =
     (if asize a = 0 then Inl (EvalException ''matrix has 0 elements'')
      else if window \<le> 0 \<or> window > adim a ! 0 then Inl (EvalException (CHR 0x27 # ''window' must be >= 0 and <= dim[0]''))
      else if nbvalid \<le> 1 \<or> nbvalid > window then Inl (EvalException (CHR 0x27 # ''nbvalid' must be >= 1 and <= window''))
      else Inr ())"

definition doroll :: "('a array \<Rightarrow> nat \<Rightarrow> nat \<Rightarrow> 'a array res) \<Rightarrow> 'a array \<Rightarrow> nat \<Rightarrow> nat \<Rightarrow> 'a array res" where
  "doroll rollfunc3 a window nbvalid = bindR (checkParams a window nbvalid) (\<lambda>_. rollfunc3 a window nbvalid)"

definition rollcov_builtin ::
  "'a arith \<Rightarrow> ('a \<Rightarrow> 'a \<Rightarrow> bool) \<Rightarrow> ('a \<Rightarrow> bool) \<Rightarrow> 'a \<Rightarrow> nat \<Rightarrow> 'a array \<Rightarrow> 'a array \<Rightarrow> nat \<Rightarrow> nat \<Rightarrow> 'a array res" where
  "rollcov_builtin R cmp isnan nan tn x y window nbvalid =
     bindR (checkParams x window nbvalid) (\<lambda>_. bindR (checkParams y window nbvalid) (\<lambda>_. rollcov R cmp isnan nan tn x y window nbvalid))"

text \<open>The arguments that the built-in functions accept: an array of doubles, a series (its index and its array), durations.\<close>

datatype 'a roll_arg = DoubleArr "'a array" | SeriesArr "int array" "'a array" | DurationArr "int array" | OtherArg

definition doroll_builtin :: "('a array \<Rightarrow> nat \<Rightarrow> nat \<Rightarrow> 'a array res) \<Rightarrow> 'a roll_arg \<Rightarrow> nat \<Rightarrow> nat \<Rightarrow> 'a roll_arg res" where
  "doroll_builtin rollfunc3 x window nbvalid =
     (case x of
        DoubleArr a \<Rightarrow> bindR (doroll rollfunc3 a window nbvalid) (\<lambda>b. Inr (DoubleArr b))
      | SeriesArr i a \<Rightarrow> bindR (doroll rollfunc3 a window nbvalid) (\<lambda>b. Inr (SeriesArr i b))
      | _ \<Rightarrow> Inl (OutOfRange ''invalid argument type''))"

definition doroll2 :: "('a array \<Rightarrow> int \<Rightarrow> 'a array res) \<Rightarrow> 'a roll_arg \<Rightarrow> int \<Rightarrow> 'a roll_arg res" where
  "doroll2 rollfunc2 x n =
     (case x of
        DoubleArr a \<Rightarrow> bindR (rollfunc2 a n) (\<lambda>b. Inr (DoubleArr b))
      | SeriesArr i a \<Rightarrow> bindR (rollfunc2 a n) (\<lambda>b. Inr (SeriesArr i b))
      | _ \<Rightarrow> Inl (EvalException ''invalid argument type''))"

definition docum :: "('a array \<Rightarrow> bool \<Rightarrow> 'a array res) \<Rightarrow> 'a roll_arg \<Rightarrow> bool \<Rightarrow> 'a roll_arg res" where
  "docum cumfunc x backwards =
     (case x of
        DoubleArr a \<Rightarrow> bindR (cumfunc a backwards) (\<lambda>b. Inr (DoubleArr b))
      | SeriesArr i a \<Rightarrow> bindR (cumfunc a backwards) (\<lambda>b. Inr (SeriesArr i b))
      | _ \<Rightarrow> Inl (EvalException ''invalid argument type''))"

section \<open>Aggregates\<close>

text \<open>\<open>Array::for_each\<close> with the function object \<open>Aggr\<close>.\<close>

definition aggr :: "('b \<Rightarrow> 'b \<Rightarrow> 'b) \<Rightarrow> 'b \<Rightarrow> 'b array \<Rightarrow> 'b" where
  "aggr F init a = fold (\<lambda>v res. fold (\<lambda>n r. F r n) (elems v) res) (cols a) init"

definition sum_builtin :: "'a arith \<Rightarrow> 'a roll_arg \<Rightarrow> ('a + int) res" where
  "sum_builtin R x =
     (case x of
        SeriesArr i a \<Rightarrow> Inr (Inl (aggr (add R) (of_size R 0) a))
      | DoubleArr a \<Rightarrow> Inr (Inl (aggr (add R) (of_size R 0) a))
      | DurationArr a \<Rightarrow> Inr (Inr (aggr (+) 0 a))
      | OtherArg \<Rightarrow> Inl (EvalException ''invalid type''))"

definition prod_builtin :: "'a arith \<Rightarrow> 'a roll_arg \<Rightarrow> ('a + int) res" where
  "prod_builtin R x =
     (case x of
        SeriesArr i a \<Rightarrow> Inr (Inl (aggr (mul R) (of_size R 1) a))
      | DoubleArr a \<Rightarrow> Inr (Inl (aggr (mul R) (of_size R 1) a))
      | _ \<Rightarrow> Inl (EvalException ''invalid type''))"

text \<open>
  Both aggregates start from \<open>std::numeric_limits<T>::max()\<close>: the largest number \<open>largest\<close> for doubles. For durations the template is
  not specialised and its \<open>max()\<close> is the default value, zero. \<open>std_min\<close> and \<open>std_max\<close> are \<open>std::min\<close> and \<open>std::max\<close> over the comparison \<open>lt\<close>.
\<close>

definition minMax :: "('a \<Rightarrow> 'a \<Rightarrow> 'a) \<Rightarrow> (int \<Rightarrow> int \<Rightarrow> int) \<Rightarrow> 'a \<Rightarrow> 'a roll_arg \<Rightarrow> ('a + int) res" where
  "minMax F G largest x =
     (case x of
        SeriesArr i a \<Rightarrow> Inr (Inl (aggr F largest a))
      | DoubleArr a \<Rightarrow> Inr (Inl (aggr F largest a))
      | DurationArr a \<Rightarrow> Inr (Inr (aggr G 0 a))
      | OtherArg \<Rightarrow> Inl (EvalException ''invalid type''))"

definition std_min :: "('b \<Rightarrow> 'b \<Rightarrow> bool) \<Rightarrow> 'b \<Rightarrow> 'b \<Rightarrow> 'b" where
  "std_min lt t1 t2 = (if lt t2 t1 then t2 else t1)"

definition std_max :: "('b \<Rightarrow> 'b \<Rightarrow> bool) \<Rightarrow> 'b \<Rightarrow> 'b \<Rightarrow> 'b" where
  "std_max lt t1 t2 = (if lt t1 t2 then t2 else t1)"

definition min_builtin :: "('a \<Rightarrow> 'a \<Rightarrow> bool) \<Rightarrow> 'a \<Rightarrow> 'a roll_arg \<Rightarrow> ('a + int) res" where
  "min_builtin lt = minMax (std_min lt) (std_min (<))"

definition max_builtin :: "('a \<Rightarrow> 'a \<Rightarrow> bool) \<Rightarrow> 'a \<Rightarrow> 'a roll_arg \<Rightarrow> ('a + int) res" where
  "max_builtin lt = minMax (std_max lt) (std_max (<))"

lemma aggr_fold: "aggr F init a = fold (\<lambda>n r. F r n) (content a) init"
proof -
  have "fold (\<lambda>v res. fold (\<lambda>n r. F r n) (elems v) res) vs i = fold (\<lambda>n r. F r n) (concat (map elems vs)) i" for vs i
    by (induction vs arbitrary: i) simp_all
  then show ?thesis by (simp add: aggr_def content_def)
qed

text \<open>
  The minimum of doubles is right on arrays that are not empty, that of durations never exceeds zero; the maximum of doubles is always the
  largest number of the type.
\<close>

lemma std_min_min: "std_min (<) = (min :: 'a::linorder \<Rightarrow> 'a \<Rightarrow> 'a)"
  by (intro ext) (auto simp: std_min_def min_def)

lemma fold_min: "fold (\<lambda>n r. min r n) xs (i :: 'a::linorder) = Min (insert i (set xs))"
proof (induction xs arbitrary: i)
  case (Cons x xs)
  then show ?case by (cases "xs = []") (simp_all add: insert_commute min.assoc)
qed simp

lemma min_builtin_correct:
  assumes "content a \<noteq> []" "\<forall>x\<in>set (content a). x \<le> largest"
  shows "min_builtin (<) largest (DoubleArr a) = Inr (Inl (Min (set (content a))))"
proof -
  have "Min (set (content a)) \<le> largest" using assms Min_in [of "set (content a)"] by auto
  then have "Min (insert largest (set (content a))) = Min (set (content a))" using assms(1) by (simp add: min.absorb2)
  then show ?thesis by (simp add: min_builtin_def minMax_def std_min_min aggr_fold fold_min)
qed

lemma min_duration_not_positive: "min_builtin lt largest (DurationArr a) = Inr (Inr d) \<Longrightarrow> d \<le> 0"
  by (auto simp: min_builtin_def minMax_def std_min_min aggr_fold fold_min)

lemma fold_max_largest: "\<forall>x\<in>set xs. (x :: 'a::linorder) \<le> l \<Longrightarrow> fold (\<lambda>n r. std_max (<) r n) xs l = l"
  by (induction xs) (auto simp: std_max_def)

lemma max_builtin_constant: "\<forall>x\<in>set (content a). (x :: 'a::linorder) \<le> largest \<Longrightarrow> max_builtin (<) largest (DoubleArr a) = Inr (Inl largest)"
  by (simp add: max_builtin_def minMax_def aggr_fold fold_max_largest)

section \<open>The queue of candidates\<close>

text \<open>The queue between \<open>front\<close> and \<open>back\<close> after \<open>r\<close> rows: values and positions ascend, and every row from \<open>bnd\<close> on is dominated by a
  candidate that is not older.\<close>

definition queue_ok :: "('a \<Rightarrow> 'a \<Rightarrow> bool) \<Rightarrow> 'a list \<Rightarrow> ('a \<times> nat) list \<Rightarrow> nat \<Rightarrow> nat \<Rightarrow> nat \<Rightarrow> nat \<Rightarrow> bool" where
  "queue_ok ge xs ms front back r bnd \<longleftrightarrow> front \<le> back \<and> back \<le> r \<and> r \<le> length ms \<and>
     (\<forall>k. front \<le> k \<and> k < back \<longrightarrow> snd (ms ! k) < r \<and> fst (ms ! k) = xs ! snd (ms ! k)) \<and>
     (\<forall>k k'. front \<le> k \<and> k < k' \<and> k' < back \<longrightarrow> snd (ms ! k) < snd (ms ! k') \<and> \<not> ge (fst (ms ! k)) (fst (ms ! k'))) \<and>
     (\<forall>j. bnd \<le> j \<and> j < r \<longrightarrow> (\<exists>k. front \<le> k \<and> k < back \<and> j \<le> snd (ms ! k) \<and> ge (xs ! j) (fst (ms ! k))))"

text \<open>The rows of the window that ends at \<open>i\<close>, and an extreme value among them.\<close>

definition window_rows :: "'a list \<Rightarrow> nat \<Rightarrow> nat \<Rightarrow> 'a list" where
  "window_rows xs window i = drop (Suc i - window) (take (Suc i) xs)"

definition extreme :: "('a \<Rightarrow> 'a \<Rightarrow> bool) \<Rightarrow> 'a list \<Rightarrow> 'a \<Rightarrow> bool" where
  "extreme ge ys v \<longleftrightarrow> v \<in> set ys \<and> (\<forall>y\<in>set ys. ge y v)"

definition rolled :: "('a \<Rightarrow> 'a \<Rightarrow> bool) \<Rightarrow> 'a \<Rightarrow> nat \<Rightarrow> nat \<Rightarrow> 'a list \<Rightarrow> nat \<Rightarrow> 'a \<Rightarrow> bool" where
  "rolled ge nan window nbvalid xs i y \<longleftrightarrow> (if Suc i < nbvalid then y = nan else extreme ge (window_rows xs window i) y)"

lemma set_window_rows: "i < length xs \<Longrightarrow> set (window_rows xs window i) = {xs ! j | j. Suc i - window \<le> j \<and> j < Suc i}"
proof -
  assume i: "i < length xs"
  show ?thesis
  proof (intro set_eqI iffI)
    fix x
    assume "x \<in> set (window_rows xs window i)"
    then show "x \<in> {xs ! j | j. Suc i - window \<le> j \<and> j < Suc i}" using i by (auto simp: window_rows_def in_set_conv_nth)
  next
    fix x
    assume "x \<in> {xs ! j | j. Suc i - window \<le> j \<and> j < Suc i}"
    then obtain j where "x = xs ! j" "Suc i - window \<le> j" "j < Suc i" by blast
    then show "x \<in> set (window_rows xs window i)"
      using i by (auto simp: window_rows_def in_set_conv_nth intro!: exI [of _ "j - (Suc i - window)"])
  qed
qed

text \<open>The state after \<open>p\<close> rows of a column without missing values.\<close>

definition roll_ok :: "('a \<Rightarrow> 'a \<Rightarrow> bool) \<Rightarrow> ('a \<Rightarrow> 'a \<Rightarrow> bool) \<Rightarrow> 'a \<Rightarrow> nat \<Rightarrow> nat \<Rightarrow> 'a list \<Rightarrow> 'a vec \<Rightarrow> nat \<Rightarrow> 'a roll_state \<Rightarrow> bool" where
  "roll_ok ge cmp nan window nbvalid xs v0 p st \<longleftrightarrow>
     (case st of (v, ms, front, back, nbv) \<Rightarrow>
        (\<exists>out. elems v = out @ drop p xs \<and> length out = p \<and> (\<forall>i<p. rolled ge nan window nbvalid xs i (out ! i))) \<and>
        length ms = length xs \<and> queue_ok ge xs ms front back p (p - window) \<and> nbv = p - (p + 1 - window - nbvalid) \<and>
        alloc v = alloc v0 \<and> vec_inv cmp v)"

lemma setv_row:
  assumes "elems v = out @ drop r xs" "length out = r" "r < length xs" "vec_inv cmp v"
    and keeps: "\<forall>i t v w. vec_inv cmp v \<longrightarrow> setv cmp i t v = Inr w \<longrightarrow> vec_inv cmp w"
  shows "\<exists>w. setv cmp r y v = Inr w \<and> elems w = (out @ [y]) @ drop (Suc r) xs \<and> alloc w = alloc v \<and> vec_inv cmp w"
proof -
  have "vsize v = length xs" using assms(1-3) by simp
  moreover have "(elems v)[r := y] = (out @ [y]) @ drop (Suc r) xs"
    using assms(1-3) by (simp add: list_update_append Cons_nth_drop_Suc [symmetric])
  ultimately have "\<exists>w. setv cmp r y v = Inr w \<and> elems w = (out @ [y]) @ drop (Suc r) xs \<and> alloc w = alloc v" using assms(3) by (simp add: setv_def Let_def)
  with keeps assms(4) show ?thesis by blast
qed

text \<open>The comparison that makes an older candidate useless: a linear order, read as \<open>ge old new\<close>.\<close>

locale candidate_order =
  fixes ge :: "'a \<Rightarrow> 'a \<Rightarrow> bool"
  assumes total: "ge x y \<or> ge y x" and trans: "ge x y \<Longrightarrow> ge y z \<Longrightarrow> ge x z" and antisym: "ge x y \<Longrightarrow> ge y x \<Longrightarrow> x = y"
begin

lemma refl [simp]: "ge x x"
  using total by blast

lemma pop_back_spec:
  assumes "front \<le> back"
  shows "front \<le> pop_back ge ms front x back \<and> pop_back ge ms front x back \<le> back \<and>
    (\<forall>k. pop_back ge ms front x back \<le> k \<and> k < back \<longrightarrow> ge (fst (ms ! k)) x) \<and>
    (front < pop_back ge ms front x back \<longrightarrow> \<not> ge (fst (ms ! (pop_back ge ms front x back - 1))) x)"
  using assms
proof (induction "back")
  case 0
  then show ?case by (simp add: pop_back.simps [of _ _ _ _ 0])
next
  case (Suc b)
  show ?case
  proof (cases "front < Suc b \<and> ge (fst (ms ! b)) x")
    case True
    then have "pop_back ge ms front x (Suc b) = pop_back ge ms front x b" by (simp add: pop_back.simps [of _ _ _ _ "Suc b"])
    then show ?thesis using Suc.IH True by (auto simp: less_Suc_eq)
  next
    case False
    then show ?thesis using Suc.prems by (auto simp: pop_back.simps [of _ _ _ _ "Suc b"])
  qed
qed

lemma push_candidate:
  assumes ok: "queue_ok ge xs ms front back r bnd" and r: "r < length ms" "r < length xs" "bnd \<le> r"
  defines "b \<equiv> pop_back ge ms front (xs ! r) back"
  shows "b < length ms" "queue_ok ge xs (ms[b := (xs ! r, r)]) front (b + 1) (Suc r) bnd"
proof -
  have f: "front \<le> back" "back \<le> r" using ok by (simp_all add: queue_ok_def)
  from pop_back_spec [OF f(1), of ms "xs ! r"] have b: "front \<le> b" "b \<le> back" "\<And>k. b \<le> k \<Longrightarrow> k < back \<Longrightarrow> ge (fst (ms ! k)) (xs ! r)"
    "front < b \<Longrightarrow> \<not> ge (fst (ms ! (b - 1))) (xs ! r)" unfolding b_def by blast+
  show "b < length ms" using b(2) f(2) r(1) by simp
  let ?ms = "ms[b := (xs ! r, r)]"
  have at: "?ms ! k = (if k = b then (xs ! r, r) else ms ! k)" for k using b(2) f(2) r(1) by simp
  have old: "\<And>k. front \<le> k \<Longrightarrow> k < back \<Longrightarrow> snd (ms ! k) < r \<and> fst (ms ! k) = xs ! snd (ms ! k)"
    "\<And>k k'. front \<le> k \<Longrightarrow> k < k' \<Longrightarrow> k' < back \<Longrightarrow> snd (ms ! k) < snd (ms ! k') \<and> \<not> ge (fst (ms ! k)) (fst (ms ! k'))"
    "\<And>j. bnd \<le> j \<Longrightarrow> j < r \<Longrightarrow> \<exists>k. front \<le> k \<and> k < back \<and> j \<le> snd (ms ! k) \<and> ge (xs ! j) (fst (ms ! k))"
    using ok unfolding queue_ok_def by blast+
  have below: "\<not> ge (fst (ms ! k)) (xs ! r)" if k: "front \<le> k" "k < b" for k
  proof (cases "k = b - 1")
    case True
    then show ?thesis using b(4) k by simp
  next
    case False
    then have "\<not> ge (fst (ms ! k)) (fst (ms ! (b - 1)))" using old(2) [of k "b - 1"] k b(2) by simp
    then show ?thesis using b(4) k trans total by (metis le_less_trans)
  qed
  have "\<exists>k. front \<le> k \<and> k < b + 1 \<and> j \<le> snd (?ms ! k) \<and> ge (xs ! j) (fst (?ms ! k))" if j: "bnd \<le> j" "j < Suc r" for j
  proof (cases "j = r")
    case True
    then show ?thesis using b(1) at by (intro exI [of _ b]) simp
  next
    case False
    then obtain k where k: "front \<le> k" "k < back" "j \<le> snd (ms ! k)" "ge (xs ! j) (fst (ms ! k))" using old(3) [of j] j by auto
    then show ?thesis using b(1) b(3) [of k] at trans j False by (cases "k < b") (intro exI [of _ k], simp, intro exI [of _ b], auto)
  qed
  then show "queue_ok ge xs ?ms front (b + 1) (Suc r) bnd"
    unfolding queue_ok_def using b(1,2) f(2) r(1) old(1,2) below at
    by (auto simp: less_Suc_eq intro: less_SucI order_less_le_trans)
qed

lemma pop_front_spec:
  assumes ok: "queue_ok ge xs ms front back r bnd" and last_ok: "\<exists>k. front \<le> k \<and> k < back \<and> lim < snd (ms ! k)"
  shows "\<exists>f. pop_front ms lim front = Inr f \<and> front \<le> f \<and> f < back \<and> lim < snd (ms ! f) \<and> queue_ok ge xs ms f back r (max bnd (Suc lim))"
  using assms
proof (induction "back - front" arbitrary: front bnd)
  case 0
  then show ?case by auto
next
  case (Suc n)
  have fl: "front < length ms" using Suc.prems by (auto simp: queue_ok_def)
  show ?case
  proof (cases "snd (ms ! front) \<le> lim")
    case True
    have lt: "front < back" using Suc(2) by simp
    have "queue_ok ge xs ms (Suc front) back r (max bnd (Suc lim))"
    proof -
      have "\<exists>k. Suc front \<le> k \<and> k < back \<and> j \<le> snd (ms ! k) \<and> ge (xs ! j) (fst (ms ! k))" if "max bnd (Suc lim) \<le> j" "j < r" for j
      proof -
        obtain k where "front \<le> k" "k < back" "j \<le> snd (ms ! k)" "ge (xs ! j) (fst (ms ! k))"
          using Suc.prems(1) \<open>max bnd (Suc lim) \<le> j\<close> \<open>j < r\<close> unfolding queue_ok_def by auto
        then show ?thesis using True that by (intro exI [of _ k]) (cases "k = front", auto)
      qed
      then show ?thesis using Suc.prems(1) lt unfolding queue_ok_def by auto
    qed
    moreover have "\<exists>k. Suc front \<le> k \<and> k < back \<and> lim < snd (ms ! k)"
      using Suc.prems(2) True by (metis le_eq_less_or_eq linorder_not_less Suc_leI)
    moreover have "n = back - Suc front" using Suc(2) by simp
    ultimately obtain f where "pop_front ms lim (Suc front) = Inr f" "Suc front \<le> f" "f < back" "lim < snd (ms ! f)"
        "queue_ok ge xs ms f back r (max (max bnd (Suc lim)) (Suc lim))" using Suc(1) [of "Suc front"] by blast
    then show ?thesis using True fl by (intro exI [of _ f]) (auto simp: pop_front.simps [of _ _ front])
  next
    case False
    moreover have "queue_ok ge xs ms front back r (max bnd (Suc lim))" using Suc.prems(1) unfolding queue_ok_def by auto
    ultimately show ?thesis using fl Suc(2) by (auto simp: pop_front.simps [of _ _ front])
  qed
qed

text \<open>The candidate in front is the extreme value of the rows from \<open>bnd\<close> on.\<close>

lemma front_extreme:
  assumes ok: "queue_ok ge xs ms f back r bnd" and f: "f < back" "bnd \<le> snd (ms ! f)"
  shows "fst (ms ! f) \<in> {xs ! j | j. bnd \<le> j \<and> j < r}" "\<forall>j. bnd \<le> j \<and> j < r \<longrightarrow> ge (xs ! j) (fst (ms ! f))"
proof -
  show "fst (ms ! f) \<in> {xs ! j | j. bnd \<le> j \<and> j < r}" using ok f unfolding queue_ok_def by blast
  show "\<forall>j. bnd \<le> j \<and> j < r \<longrightarrow> ge (xs ! j) (fst (ms ! f))"
  proof (intro allI impI)
    fix j
    assume "bnd \<le> j \<and> j < r"
    then obtain k where k: "f \<le> k" "k < back" "ge (xs ! j) (fst (ms ! k))" using ok unfolding queue_ok_def by blast
    have "ge (fst (ms ! k)) (fst (ms ! f))"
    proof (cases "k = f")
      case False
      then have "\<not> ge (fst (ms ! f)) (fst (ms ! k))" using k ok unfolding queue_ok_def by auto
      then show ?thesis using total by blast
    qed simp
    with k(3) show "ge (xs ! j) (fst (ms ! f))" by (rule trans)
  qed
qed

lemma front_rolled:
  assumes ok: "queue_ok ge xs ms f back (Suc i) (Suc i - window)" and f: "f < back" "Suc i - window \<le> snd (ms ! f)" and i: "i < length xs"
  shows "extreme ge (window_rows xs window i) (fst (ms ! f))"
  using front_extreme [OF ok f] unfolding extreme_def set_window_rows [OF i] by blast

lemma roll_row_ok:
  assumes ok: "roll_ok ge cmp nan window nbvalid xs v0 r st" and r: "r < length xs" and clean: "\<forall>x\<in>set xs. \<not> isnan x" and nan: "isnan nan"
    and par: "1 \<le> nbvalid" "nbvalid \<le> window" and keeps: "\<forall>i t v w. vec_inv cmp v \<longrightarrow> setv cmp i t v = Inr w \<longrightarrow> vec_inv cmp w"
  shows "\<exists>st'. roll_row ge cmp isnan nan window nbvalid r st = Inr st' \<and> roll_ok ge cmp nan window nbvalid xs v0 (Suc r) st'"
proof -
  obtain v ms front bk nbv where st: "st = (v, ms, front, bk, nbv)" by (cases st) auto
  obtain out where out: "elems v = out @ drop r xs" "length out = r" "\<forall>i<r. rolled ge nan window nbvalid xs i (out ! i)"
    and ms: "length ms = length xs" and q: "queue_ok ge xs ms front bk r (r - window)" and nbv: "nbv = r - (r + 1 - window - nbvalid)"
    and al: "alloc v = alloc v0" and inv: "vec_inv cmp v" using ok unfolding roll_ok_def st by auto
  have x: "vec_at v r = Inr (xs ! r)" "\<not> isnan (xs ! r)" using out r clean by (simp_all add: nth_append)
  let ?b = "pop_back ge ms front (xs ! r) bk"
  let ?ms = "ms[?b := (xs ! r, r)]"
  note pc = push_candidate [OF q _ r diff_le_self, unfolded ms, OF r]
  have fb: "front \<le> ?b" using pop_back_spec q unfolding queue_ok_def by blast
  have gone: "vec_at v (r - window) = Inr (out ! (r - window))" "isnan (out ! (r - window)) \<longleftrightarrow> Suc (r - window) < nbvalid" if w: "window \<le> r"
  proof -
    have lt: "r - window < r" using w par by simp
    then show "vec_at v (r - window) = Inr (out ! (r - window))" using out r by (simp add: nth_append)
    have "set (window_rows xs window (r - window)) \<subseteq> set xs" by (auto simp: window_rows_def dest: in_set_dropD in_set_takeD)
    then show "isnan (out ! (r - window)) \<longleftrightarrow> Suc (r - window) < nbvalid"
      using out(3) lt nan clean unfolding rolled_def extreme_def by (metis subsetD)
  qed
  let ?n = "Suc r - (Suc r + 1 - window - nbvalid)"
  have nbv2: "(if r \<ge> window then bindR (vec_at v (r - window)) (\<lambda>y. Inr (if isnan y then nbv + 1 else size_sub (nbv + 1) 1)) else Inr (nbv + 1)) = Inr ?n"
    using gone nbv par by auto
  have room: "(?b < length ms) = True" using pc(1) ms by simp
  have row: "roll_row ge cmp isnan nan window nbvalid r st =
      (if ?n \<ge> nbvalid then
         bindR (if r \<ge> window then pop_front ?ms (r - window) front else Inr front) (\<lambda>front2.
         bindR (std_at ?ms front2) (\<lambda>m. bindR (setv cmp r (fst m) v) (\<lambda>w. Inr (w, ?ms, front2, ?b + 1, ?n))))
       else bindR (setv cmp r nan v) (\<lambda>w. Inr (w, ?ms, front, ?b + 1, ?n)))"
    by (simp only: st roll_row_def prod.case x bindR.simps if_False if_True Let_def room nbv2)
  have valid: "nbvalid \<le> ?n \<longleftrightarrow> nbvalid \<le> Suc r" using par by linarith
  have done_: "roll_ok ge cmp nan window nbvalid xs v0 (Suc r) (w, ?ms, f, ?b + 1, ?n)"
    if "elems w = (out @ [y]) @ drop (Suc r) xs" "alloc w = alloc v" "vec_inv cmp w" "rolled ge nan window nbvalid xs r y"
      "queue_ok ge xs ?ms f (?b + 1) (Suc r) (Suc r - window)" for w y f
    unfolding roll_ok_def using that out(2,3) ms al by (auto simp: nth_append less_Suc_eq intro!: exI [of _ "out @ [y]"])
  show ?thesis
  proof (cases "nbvalid \<le> Suc r")
    case True
    have "\<exists>f. (if r \<ge> window then pop_front ?ms (r - window) front else Inr front) = Inr f \<and> f < ?b + 1 \<and> Suc r - window \<le> snd (?ms ! f) \<and>
        queue_ok ge xs ?ms f (?b + 1) (Suc r) (Suc r - window)"
    proof (cases "window \<le> r")
      case w: True
      have "\<exists>k. front \<le> k \<and> k < ?b + 1 \<and> r - window < snd (?ms ! k)" using fb pc(1) w par ms by (intro exI [of _ ?b]) simp
      from pop_front_spec [OF pc(2) this] obtain f where f: "pop_front ?ms (r - window) front = Inr f" "f < ?b + 1" "r - window < snd (?ms ! f)"
        "queue_ok ge xs ?ms f (?b + 1) (Suc r) (max (r - window) (Suc (r - window)))" by auto
      moreover have "max (r - window) (Suc (r - window)) = Suc r - window" using w by simp
      ultimately show ?thesis using w by (intro exI [of _ f]) simp
    next
      case False
      then show ?thesis using pc(2) fb by (intro exI [of _ front]) simp
    qed
    then obtain f where f: "(if r \<ge> window then pop_front ?ms (r - window) front else Inr front) = Inr f" "f < ?b + 1" "Suc r - window \<le> snd (?ms ! f)"
        "queue_ok ge xs ?ms f (?b + 1) (Suc r) (Suc r - window)" by blast
    let ?y = "fst (?ms ! f)"
    obtain w where w: "setv cmp r ?y v = Inr w" "elems w = (out @ [?y]) @ drop (Suc r) xs" "alloc w = alloc v" "vec_inv cmp w"
      using setv_row [OF out(1,2) r inv keeps] by blast
    have "rolled ge nan window nbvalid xs r ?y" using front_rolled [OF f(4,2,3) r] True by (simp add: rolled_def)
    moreover have "std_at ?ms f = Inr (?ms ! f)" using f(2) pc(1) ms by (simp add: std_at_def)
    moreover have "roll_row ge cmp isnan nan window nbvalid r st = Inr (w, ?ms, f, ?b + 1, ?n)"
      unfolding row using valid True f(1) w(1) calculation(2) by (simp only: if_True bindR.simps)
    ultimately show ?thesis using done_ [OF w(2-4) _ f(4)] by blast
  next
    case False
    then have lt: "Suc r < nbvalid" "r - window = 0" "Suc r - window = 0" "\<not> window \<le> r" using par by simp_all
    obtain w where w: "setv cmp r nan v = Inr w" "elems w = (out @ [nan]) @ drop (Suc r) xs" "alloc w = alloc v" "vec_inv cmp w"
      using setv_row [OF out(1,2) r inv keeps] by blast
    have "roll_row ge cmp isnan nan window nbvalid r st = Inr (w, ?ms, front, ?b + 1, ?n)"
      unfolding row using valid False w(1) by (simp only: if_False bindR.simps)
    moreover have "rolled ge nan window nbvalid xs r nan" using lt by (simp add: rolled_def)
    ultimately show ?thesis using done_ [OF w(2-4)] pc(2) lt by auto
  qed
qed

lemma roll_col_ok:
  assumes v: "vsize v = d" "length ms = d" "vec_inv cmp v" "\<forall>x\<in>set (elems v). \<not> isnan x" "isnan nan" and par: "1 \<le> nbvalid" "nbvalid \<le> window"
    and keeps: "\<forall>i t v w. vec_inv cmp v \<longrightarrow> setv cmp i t v = Inr w \<longrightarrow> vec_inv cmp w"
  shows "\<exists>w ms'. roll_col ge cmp isnan nan window nbvalid d v ms = Inr (w, ms') \<and> length ms' = d \<and> vsize w = d \<and> alloc w = alloc v \<and> vec_inv cmp w \<and>
    (\<forall>i<d. rolled ge nan window nbvalid (elems v) i (elems w ! i))"
proof -
  have "\<exists>st. foldR (roll_row ge cmp isnan nan window nbvalid) [0..<p] (v, ms, 0, 0, 0) = Inr st \<and> roll_ok ge cmp nan window nbvalid (elems v) v p st" if "p \<le> d" for p
    using that
  proof (induction p)
    case 0
    then show ?case using v by (simp add: roll_ok_def queue_ok_def)
  next
    case (Suc p)
    then obtain st where st: "foldR (roll_row ge cmp isnan nan window nbvalid) [0..<p] (v, ms, 0, 0, 0) = Inr st" "roll_ok ge cmp nan window nbvalid (elems v) v p st" by auto
    from roll_row_ok [OF st(2) _ v(4,5) par keeps] Suc.prems v(1) obtain st' where
      "roll_row ge cmp isnan nan window nbvalid p st = Inr st'" "roll_ok ge cmp nan window nbvalid (elems v) v (Suc p) st'" by auto
    with st(1) show ?case by (simp add: foldR_append)
  qed
  from this [OF order_refl] obtain w ms' f b n where st: "foldR (roll_row ge cmp isnan nan window nbvalid) [0..<d] (v, ms, 0, 0, 0) = Inr (w, ms', f, b, n)"
      "roll_ok ge cmp nan window nbvalid (elems v) v d (w, ms', f, b, n)" by (metis prod.exhaust)
  then show ?thesis using v(1) by (auto simp: roll_col_def roll_ok_def)
qed

end

lemma over_cols_ok:
  assumes f: "\<And>c s. c < length (cols a) \<Longrightarrow> S s \<Longrightarrow> \<exists>w s'. f (cols a ! c) s = Inr (w, s') \<and> S s' \<and> Q c w" and s: "S s"
  shows "\<exists>ws. over_cols f s a = Inr (a\<lparr>cols := ws\<rparr>) \<and> length ws = length (cols a) \<and> (\<forall>c<length (cols a). Q c (ws ! c))"
proof -
  let ?body = "\<lambda>c (vs, s). bindR (std_at vs c) (\<lambda>v. bindR (f v s) (\<lambda>(w, s'). Inr (vs[c := w], s')))"
  have "\<exists>ws s'. foldR ?body [0..<k] (cols a, s) = Inr (ws @ drop k (cols a), s') \<and> length ws = k \<and> S s' \<and> (\<forall>c<k. Q c (ws ! c))" if "k \<le> length (cols a)" for k
    using that
  proof (induction k)
    case 0
    then show ?case using s by simp
  next
    case (Suc k)
    then obtain ws s' where ws: "foldR ?body [0..<k] (cols a, s) = Inr (ws @ drop k (cols a), s')" "length ws = k" "S s'" "\<forall>c<k. Q c (ws ! c)" by auto
    have k: "k < length (cols a)" using Suc.prems by simp
    obtain w s2 where w: "f (cols a ! k) s' = Inr (w, s2)" "S s2" "Q k w" using f [OF k ws(3)] by blast
    have "(ws @ drop k (cols a)) ! k = cols a ! k" "(ws @ drop k (cols a))[k := w] = (ws @ [w]) @ drop (Suc k) (cols a)" "k < length (ws @ drop k (cols a))"
      using ws(2) k by (simp_all add: nth_append list_update_append Cons_nth_drop_Suc [symmetric])
    with ws(1) w(1) have "foldR ?body [0..<Suc k] (cols a, s) = Inr ((ws @ [w]) @ drop (Suc k) (cols a), s2)"
      by (simp add: foldR_append std_at_def)
    with ws(2,4) w(2,3) show ?case by (intro exI [of _ "ws @ [w]"] exI [of _ s2]) (auto simp: nth_append less_Suc_eq)
  qed
  from this [OF order_refl] show ?thesis by (auto simp: over_cols_def)
qed

interpretation lower: candidate_order "(\<ge>) :: 'a::linorder \<Rightarrow> 'a \<Rightarrow> bool"
  by unfold_locales auto

interpretation upper: candidate_order "(\<le>) :: 'a::linorder \<Rightarrow> 'a \<Rightarrow> bool"
  by unfold_locales auto

lemma extreme_Min: "extreme (\<ge>) ys (v :: 'a::linorder) \<longleftrightarrow> ys \<noteq> [] \<and> v = Min (set ys)"
  by (auto simp: extreme_def intro: Min_eqI [symmetric] dest: Min_in [OF finite_set])

lemma extreme_Max: "extreme (\<le>) ys (v :: 'a::linorder) \<longleftrightarrow> ys \<noteq> [] \<and> v = Max (set ys)"
  by (auto simp: extreme_def intro: Max_eqI [symmetric] dest: Max_in [OF finite_set])

lemma rolled_Min: "rolled (\<ge>) nan window nbvalid xs i y \<Longrightarrow> y = (if Suc i < nbvalid then nan else Min (set (window_rows xs window i)))"
  by (simp add: rolled_def extreme_Min split: if_splits)

lemma rolled_Max: "rolled (\<le>) nan window nbvalid xs i y \<Longrightarrow> y = (if Suc i < nbvalid then nan else Max (set (window_rows xs window i)))"
  by (simp add: rolled_def extreme_Max split: if_splits)

lemma less_setv_keeps: "\<forall>i t v w. vec_inv (<) v \<longrightarrow> setv (<) i t v = Inr w \<longrightarrow> vec_inv (<) (w :: 'a::linorder vec)"
  using less_cmp.inv_setv by blast

lemma roll_array_ok:
  fixes a :: "'a::linorder array"
  assumes wf: "array_wf (<) a" "adim a \<noteq> []" and clean: "\<forall>x\<in>set (content a). \<not> isnan x" "isnan nan"
    and col: "\<And>v ms. col_wf (<) (nrows a) v \<Longrightarrow> length ms = nrows a \<Longrightarrow> \<forall>x\<in>set (elems v). \<not> isnan x \<Longrightarrow>
      \<exists>w ms'. roll_col ge (<) isnan nan window nbvalid (nrows a) v ms = Inr (w, ms') \<and> length ms' = nrows a \<and> vsize w = nrows a \<and> alloc w = alloc v \<and> vec_inv (<) w \<and>
        (\<forall>i<nrows a. rolled ge nan window nbvalid (elems v) i (elems w ! i))"
  shows "\<exists>b. roll_extreme ge (<) isnan nan zero a window nbvalid = Inr b \<and> array_wf (<) b \<and> adim b = adim a \<and> anames b = anames a \<and>
    (\<forall>c<ncols a. \<forall>i<nrows a. rolled ge nan window nbvalid (elems (cols a ! c)) i (elems (cols b ! c) ! i))"
proof -
  have d: "dim_at (adim a) 0 = Inr (nrows a)" using wf(2) by (cases "adim a") (auto simp: nrows_def)
  obtain ws where ws: "over_cols (roll_col ge (<) isnan nan window nbvalid (nrows a)) (replicate (nrows a) (zero, 0)) a = Inr (a\<lparr>cols := ws\<rparr>)"
      "length ws = length (cols a)" "\<forall>c<length (cols a). col_wf (<) (nrows a) (ws ! c) \<and> (\<forall>i<nrows a. rolled ge nan window nbvalid (elems (cols a ! c)) i (elems (ws ! c) ! i))"
    using over_cols_ok [of a "\<lambda>ms. length ms = nrows a" "roll_col ge (<) isnan nan window nbvalid (nrows a)"
        "\<lambda>c w. col_wf (<) (nrows a) w \<and> (\<forall>i<nrows a. rolled ge nan window nbvalid (elems (cols a ! c)) i (elems w ! i))" "replicate (nrows a) (zero, 0)"]
      col array_wfD(2) [OF wf(1)] clean(1) by (fastforce simp: content_def col_wf_def)
  have "array_wf (<) (a\<lparr>cols := ws\<rparr>)" using wf ws(2,3) by (auto simp: array_wf_def list_all_length nrows_def)
  with ws d show ?thesis by (auto simp: roll_extreme_def ncols_def)
qed

section \<open>Properties\<close>

text \<open>C16. Rolling minimum and maximum, computed in place with a queue of candidates: on an array without missing values and with
  accepted parameters, the row \<open>i\<close> of every column becomes the least (greatest) of the at most \<open>window\<close> rows of the original column that
  end at \<open>i\<close>, or \<open>NaN\<close> while fewer than \<open>nbvalid\<close> rows have been seen; extents, names and the invariant of the array are kept.\<close>

theorem roll_extremes_correct:
  fixes a :: "'a::linorder array"
  assumes wf: "array_wf (<) a" "asize a \<noteq> 0" and clean: "\<forall>x\<in>set (content a). \<not> isnan x" "isnan nan"
    and par: "1 < nbvalid" "nbvalid \<le> window" "window \<le> nrows a"
  shows "(\<exists>b. doroll (rollmin_inplace isnan nan zero) a window nbvalid = Inr b \<and> array_wf (<) b \<and> adim b = adim a \<and> anames b = anames a \<and>
      (\<forall>c<ncols a. \<forall>i<nrows a. elems (cols b ! c) ! i =
        (if Suc i < nbvalid then nan else Min (set (window_rows (elems (cols a ! c)) window i))))) \<and>
    (\<exists>b. doroll (rollmax_inplace isnan nan zero) a window nbvalid = Inr b \<and> array_wf (<) b \<and> adim b = adim a \<and> anames b = anames a \<and>
      (\<forall>c<ncols a. \<forall>i<nrows a. elems (cols b ! c) ! i =
        (if Suc i < nbvalid then nan else Max (set (window_rows (elems (cols a ! c)) window i)))))"
proof -
  have d: "adim a \<noteq> []" "adim a ! 0 = nrows a" using nrows_pos [of a] par by auto
  have check: "checkParams a window nbvalid = Inr ()" using wf(2) par d by (simp add: checkParams_def)
  have p: "1 \<le> nbvalid" using par by simp
  have "\<exists>w ms'. roll_col (\<ge>) (<) isnan nan window nbvalid (nrows a) v ms = Inr (w, ms') \<and> length ms' = nrows a \<and> vsize w = nrows a \<and> alloc w = alloc v \<and>
      vec_inv (<) w \<and> (\<forall>i<nrows a. rolled (\<ge>) nan window nbvalid (elems v) i (elems w ! i))"
    if "col_wf (<) (nrows a) v" "length ms = nrows a" "\<forall>x\<in>set (elems v). \<not> isnan x" for v ms
    using that clean(2) p par(2) less_setv_keeps by (intro lower.roll_col_ok) (simp_all add: col_wf_def)
  from roll_array_ok [OF wf(1) d(1) clean this] obtain b where b: "roll_extreme (\<ge>) (<) isnan nan zero a window nbvalid = Inr b" "array_wf (<) b"
      "adim b = adim a" "anames b = anames a" "\<forall>c<ncols a. \<forall>i<nrows a. rolled (\<ge>) nan window nbvalid (elems (cols a ! c)) i (elems (cols b ! c) ! i)"
    by blast
  have "\<exists>w ms'. roll_col (\<le>) (<) isnan nan window nbvalid (nrows a) v ms = Inr (w, ms') \<and> length ms' = nrows a \<and> vsize w = nrows a \<and> alloc w = alloc v \<and>
      vec_inv (<) w \<and> (\<forall>i<nrows a. rolled (\<le>) nan window nbvalid (elems v) i (elems w ! i))"
    if "col_wf (<) (nrows a) v" "length ms = nrows a" "\<forall>x\<in>set (elems v). \<not> isnan x" for v ms
    using that clean(2) p par(2) less_setv_keeps by (intro upper.roll_col_ok) (simp_all add: col_wf_def)
  from roll_array_ok [OF wf(1) d(1) clean this] obtain b' where b': "roll_extreme (\<le>) (<) isnan nan zero a window nbvalid = Inr b'" "array_wf (<) b'"
      "adim b' = adim a" "anames b' = anames a" "\<forall>c<ncols a. \<forall>i<nrows a. rolled (\<le>) nan window nbvalid (elems (cols a ! c)) i (elems (cols b' ! c) ! i)"
    by blast
  have "doroll (rollmin_inplace isnan nan zero) a window nbvalid = Inr b" "doroll (rollmax_inplace isnan nan zero) a window nbvalid = Inr b'"
    using b(1) b'(1) check by (simp_all add: doroll_def rollmin_inplace_def rollmax_inplace_def)
  moreover have "\<forall>c<ncols a. \<forall>i<nrows a. elems (cols b ! c) ! i = (if Suc i < nbvalid then nan else Min (set (window_rows (elems (cols a ! c)) window i)))"
    using rolled_Min b(5) by blast
  moreover have "\<forall>c<ncols a. \<forall>i<nrows a. elems (cols b' ! c) ! i = (if Suc i < nbvalid then nan else Max (set (window_rows (elems (cols a ! c)) window i)))"
    using rolled_Max b'(5) by blast
  ultimately show ?thesis using b(2-4) b'(2-4) by blast
qed

theorem roll_extremes_correct_witness:
  "\<exists>b b'. doroll (rollmin_inplace (\<lambda>x. x < 0) (- 1) 0) array_example 2 2 = Inr b \<and> elems (cols b ! 0) ! 1 = 3 \<and> elems (cols b ! 1) ! 0 = - 1 \<and>
     doroll (rollmax_inplace (\<lambda>x. x < 0) (- 1) 0) array_example 2 2 = Inr b' \<and> elems (cols b' ! 0) ! 1 = 5"
proof -
  have "content array_example = [5, 3, 4, 9]" "asize array_example \<noteq> 0" "nrows array_example = 2" "ncols array_example = 2"
    "elems (cols array_example ! 0) = [5, 3]" "elems (cols array_example ! 1) = [4, 9]"
    by (simp_all add: array_example_def content_def asize_def nrows_def ncols_def size_mul_def)
  moreover have "set (window_rows [5, 3 :: int] 2 1) = {5, 3}" by (simp add: window_rows_def)
  ultimately show ?thesis
    using roll_extremes_correct [OF array_example_wf, of "\<lambda>x. x < 0" "- 1" 2 2 0] by force
qed

section \<open>Windows that are not followed\<close>

definition int_arith :: "int arith" where
  "int_arith = \<lparr>add = (+), sub = (-), mul = (*), quot = (div), of_size = int\<rparr>"

definition int_column :: "int list \<Rightarrow> int array" where
  "int_column xs =
     \<lparr>adim = [length xs], cols = [\<lparr>typenumber = 0, elems = xs, ordered = False, capacity = 1024, alloc = MemAlloc\<rparr>],
      anames = [unnamed MemAlloc (length xs)]\<rparr>"

text \<open>The ring of \<open>rollmean\<close> has the next power of two as its size, so a window of three rows never loses its first row: the mean of
  6, 9 and 12 comes out as 10.\<close>

lemma rollmean_window_three:
  "\<exists>b. rollmean_inplace int_arith (<) (\<lambda>x. x < 0) (- 1) (int_column [3, 6, 9, 12]) 3 3 = Inr b \<and> content b = [- 1, - 1, 6, 10]"
  by (simp add: rollmean_inplace_def int_arith_def int_column_def over_cols_def std_at_def rollmean_row_def ring_size.simps upt_rec setv_def
      Let_def and_nat_def content_def)

text \<open>\<open>rollmin\<close> counts missing values in rows that it has already overwritten: three valid values are required, and the window that
  ends at the missing value has two.\<close>

lemma rollmin_missing_value:
  "\<exists>b. doroll (rollmin_inplace (\<lambda>x. x < 0) (- 1) 0) (int_column [5, 6, 7, - 1]) 3 3 = Inr b \<and> content b = [- 1, - 1, 5, 6]"
  by (simp add: doroll_def checkParams_def asize_def nrows_def size_mul_def rollmin_inplace_def roll_extreme_def roll_col_def roll_row_def
      int_column_def over_cols_def std_at_def upt_rec setv_def Let_def pop_back.simps pop_front.simps size_sub_def content_def)

end
