(* ===== verification/Rolling_Shift.thy ===== *)
theory Rolling_Shift
  imports Rolling
begin

text \<open>
  What the functions of \<open>Rolling\<close> that shift, rotate or fill rows do. They overwrite a column in place: every row is read before it is
  written, which \<open>set_rows_ok\<close> states once for all the loops.
\<close>

section \<open>Writing rows\<close>

text \<open>A loop that writes distinct rows, each from a value that no earlier write has touched.\<close>

lemma set_rows_ok:
  assumes rs: "set rs \<subseteq> {..<d}" "distinct rs" and v: "vsize v = d" "vec_inv cmp v"
    and reads: "\<And>r w ds es. rs = ds @ r # es \<Longrightarrow> vsize w = d \<Longrightarrow> \<forall>i<d. i \<notin> set ds \<longrightarrow> elems w ! i = elems v ! i \<Longrightarrow> f r w = Inr (g r)"
    and keeps: "\<forall>i t v w. vec_inv cmp v \<longrightarrow> setv cmp i t v = Inr w \<longrightarrow> vec_inv cmp w"
  shows "\<exists>w. set_rows cmp f rs v = Inr w \<and> vsize w = d \<and> alloc w = alloc v \<and> vec_inv cmp w \<and>
    (\<forall>i<d. elems w ! i = (if i \<in> set rs then g i else elems v ! i))"
proof -
  have "\<exists>w. set_rows cmp f ds v = Inr w \<and> vsize w = d \<and> alloc w = alloc v \<and> vec_inv cmp w \<and>
      (\<forall>i<d. elems w ! i = (if i \<in> set ds then g i else elems v ! i))" if "\<exists>es. rs = ds @ es" for ds
    using that
  proof (induction ds rule: rev_induct)
    case Nil
    then show ?case using v by (simp add: set_rows_def)
  next
    case (snoc r ds)
    then obtain es where es: "rs = ds @ r # es" by auto
    then obtain w where w: "set_rows cmp f ds v = Inr w" "vsize w = d" "alloc w = alloc v" "vec_inv cmp w"
      "\<forall>i<d. elems w ! i = (if i \<in> set ds then g i else elems v ! i)" using snoc.IH by auto
    have "f r w = Inr (g r)" using reads [OF es w(2)] w(5) by simp
    moreover have "r < d" using rs(1) es by auto
    moreover obtain w' where w': "setv cmp r (g r) w = Inr w'" "elems w' = (elems w)[r := g r]" "alloc w' = alloc w"
      using \<open>r < d\<close> w(2) by (simp add: setv_def Let_def)
    ultimately have "set_rows cmp f (ds @ [r]) v = Inr w'" using w(1) by (simp add: set_rows_def foldR_append)
    then show ?case using w' w keeps \<open>r < d\<close> by (intro exI [of _ w']) (auto simp: nth_list_update)
  qed
  from this [of rs] show ?thesis by simp
qed

lemmas set_rows_less = set_rows_ok [where cmp = "(<)", OF _ _ _ _ _ less_setv_keeps]

lemma split_up: "[l..<u] = ds @ r # es \<Longrightarrow> set ds \<subseteq> {..<r} \<and> l \<le> r \<and> r < u"
proof -
  assume a: "[l..<u] = ds @ r # es"
  have "sorted_wrt (<) (ds @ r # es)" "r \<in> set [l..<u]" using sorted_wrt_upt [of l u] a by (simp, metis in_set_conv_decomp)
  then show ?thesis by (auto simp: sorted_wrt_append)
qed

lemma split_down: "rev [l..<u] = ds @ r # es \<Longrightarrow> set ds \<subseteq> {r<..} \<and> l \<le> r \<and> r < u"
proof -
  assume a: "rev [l..<u] = ds @ r # es"
  then have "[l..<u] = rev es @ r # rev ds" by (metis append.assoc append_Cons append_Nil rev.simps(2) rev_append rev_rev_ident)
  then have "sorted_wrt (<) (rev es @ r # rev ds)" "r \<in> set [l..<u]" using sorted_wrt_upt [of l u] by (metis, metis in_set_conv_decomp)
  then show ?thesis by (auto simp: sorted_wrt_append)
qed

lemma write_rows_ok:
  fixes v :: "'a::linorder vec"
  assumes v: "vsize v = d" "vec_inv (<) v" and u: "u \<le> d" and h: "\<forall>r. l \<le> r \<and> r < u \<longrightarrow> h r = Inr (g r)"
  shows "\<exists>w. set_rows (<) (\<lambda>r w. h r) [l..<u] v = Inr w \<and> vsize w = d \<and> alloc w = alloc v \<and> vec_inv (<) w \<and>
    (\<forall>i<d. elems w ! i = (if i \<in> set [l..<u] then g i else elems v ! i))"
proof (rule set_rows_less [OF _ _ v])
  show "h r = Inr (g r)" if "[l..<u] = ds @ r # es" for r ds es using split_up [OF that] h by auto
qed (use u in auto)

lemma size_plus_simps: "n \<le> d \<Longrightarrow> d \<le> SIZE_MAX \<Longrightarrow> size_plus d (- int n) = d - n" "d + n \<le> SIZE_MAX \<Longrightarrow> size_plus d (int n) = d + n"
proof -
  assume "n \<le> d" "d \<le> SIZE_MAX"
  then have "(int d + - int n) mod 2 ^ 64 = int (d - n)" by (subst mod_pos_pos_trivial) (auto simp: SIZE_MAX_def of_nat_diff)
  then show "size_plus d (- int n) = d - n" by (simp add: size_plus_def)
next
  assume "d + n \<le> SIZE_MAX"
  then have "(int d + int n) mod 2 ^ 64 = int (d + n)" by (subst mod_pos_pos_trivial) (auto simp: SIZE_MAX_def)
  then show "size_plus d (int n) = d + n" by (simp add: size_plus_def)
qed

text \<open>Saving rows.\<close>

lemma save_rows_ok:
  assumes "l \<le> u" "u \<le> vsize v" "length buf = u - l"
  shows "save_rows [l..<u] l v buf = Inr (take (u - l) (drop l (elems v)))"
proof -
  have "save_rows [l..<l + k] l v buf = Inr (take k (drop l (elems v)) @ drop k buf)" if "k \<le> u - l" for k
    using that
  proof (induction k)
    case 0
    then show ?case by (simp add: save_rows_def)
  next
    case (Suc k)
    then have k: "l + k < vsize v" "k < length buf" using assms by simp_all
    let ?b = "take k (drop l (elems v)) @ drop k buf"
    have "?b[k := elems v ! (l + k)] = take (Suc k) (drop l (elems v)) @ drop (Suc k) buf"
      using k by (intro nth_equalityI) (auto simp: nth_append nth_list_update less_Suc_eq)
    then show ?case using Suc k by (simp add: save_rows_def foldR_append)
  qed
  from this [of "u - l"] assms show ?thesis by simp
qed

text \<open>A column turned by \<open>n\<close> rows, to the end or to the beginning.\<close>

lemma rotate_up_ok:
  fixes v :: "'a::linorder vec"
  assumes v: "vsize v = d" "vec_inv (<) v" and n: "0 < n" "n \<le> d" "d \<le> SIZE_MAX" and buf: "length buf = n"
  shows "\<exists>w. rotate_col (<) (int n) d v buf = Inr (w, drop (d - n) (elems v)) \<and> vec_inv (<) w \<and> alloc w = alloc v \<and>
    elems w = drop (d - n) (elems v) @ take (d - n) (elems v)"
proof -
  let ?xs = "elems v" and ?b = "drop (d - n) (elems v)"
  have save: "save_rows [d - n..<d] (d - n) v buf = Inr ?b" using save_rows_ok [of "d - n" d v buf] v(1) n buf by simp
  have read: "vec_at w (size_plus r (- int n)) = Inr (?xs ! (r - n))"
    if "rev [n..<d] = ds @ r # es" "vsize w = d" "\<forall>i<d. i \<notin> set ds \<longrightarrow> elems w ! i = ?xs ! i" for r w ds es
  proof -
    have r: "n \<le> r" "r < d" "r - n \<notin> set ds" using split_down [OF that(1)] by force+
    then show ?thesis using that(2,3) n size_plus_simps(1) [of n r] by auto
  qed
  have "\<exists>w. set_rows (<) (\<lambda>r w. vec_at w (size_plus r (- int n))) (rev [n..<d]) v = Inr w \<and> vsize w = d \<and> alloc w = alloc v \<and> vec_inv (<) w \<and>
      (\<forall>i<d. elems w ! i = (if i \<in> set (rev [n..<d]) then (\<lambda>r. ?xs ! (r - n)) i else ?xs ! i))"
  proof (rule set_rows_less [OF _ _ v])
    show "(\<lambda>r w. vec_at w (size_plus r (- int n))) r w = Inr ((\<lambda>r. ?xs ! (r - n)) r)" if "rev [n..<d] = ds @ r # es" "vsize w = d" "\<forall>i<d. i \<notin> set ds \<longrightarrow> elems w ! i = ?xs ! i" for r w ds es
      using read [OF that] .
  qed auto
  then obtain w where w: "set_rows (<) (\<lambda>r w. vec_at w (size_plus r (- int n))) (rev [n..<d]) v = Inr w" "vsize w = d" "alloc w = alloc v" "vec_inv (<) w"
      "\<forall>i<d. elems w ! i = (if i \<in> set (rev [n..<d]) then ?xs ! (i - n) else ?xs ! i)" by auto
  obtain w' where w': "set_rows (<) (\<lambda>r w. std_at ?b r) [0..<n] w = Inr w'" "vsize w' = d" "alloc w' = alloc w" "vec_inv (<) w'"
      "\<forall>i<d. elems w' ! i = (if i \<in> set [0..<n] then ?b ! i else elems w ! i)"
    using write_rows_ok [OF w(2,4) n(2), of 0 "std_at ?b" "\<lambda>r. ?b ! r"] n v(1) by (auto simp: std_at_def)
  have "elems w' = ?b @ take (d - n) ?xs"
    using w'(2,5) w(5) v(1) n by (intro nth_equalityI) (auto simp: nth_append)
  moreover have "rotate_col (<) (int n) d v buf = Inr (w', ?b)"
    using save w(1) w'(1) n size_plus_simps(1) [of n d] by (simp add: rotate_col_def rows_down_def)
  ultimately show ?thesis using w w' by simp
qed

lemma rotate_down_ok:
  fixes v :: "'a::linorder vec"
  assumes v: "vsize v = d" "vec_inv (<) v" and n: "n \<le> d" "d \<le> SIZE_MAX" and buf: "length buf = n"
  shows "\<exists>w. rotate_col (<) (- int n) d v buf = Inr (w, take n (elems v)) \<and> vec_inv (<) w \<and> alloc w = alloc v \<and>
    elems w = drop n (elems v) @ take n (elems v)"
proof -
  let ?xs = "elems v" and ?b = "take n (elems v)"
  have save: "save_rows [0..<n] 0 v buf = Inr ?b" using save_rows_ok [of 0 n v buf] v(1) n buf by simp
  have read: "vec_at w (size_plus r (int n)) = Inr (?xs ! (r + n))"
    if "[0..<d - n] = ds @ r # es" "vsize w = d" "\<forall>i<d. i \<notin> set ds \<longrightarrow> elems w ! i = ?xs ! i" for r w ds es
  proof -
    have r: "r + n < d" "r + n \<notin> set ds" using split_up [OF that(1)] by force+
    then show ?thesis using that(2,3) n size_plus_simps(2) [of r n] by auto
  qed
  have "\<exists>w. set_rows (<) (\<lambda>r w. vec_at w (size_plus r (int n))) ([0..<d - n]) v = Inr w \<and> vsize w = d \<and> alloc w = alloc v \<and> vec_inv (<) w \<and>
      (\<forall>i<d. elems w ! i = (if i \<in> set ([0..<d - n]) then (\<lambda>r. ?xs ! (r + n)) i else ?xs ! i))"
  proof (rule set_rows_less [OF _ _ v])
    show "(\<lambda>r w. vec_at w (size_plus r (int n))) r w = Inr ((\<lambda>r. ?xs ! (r + n)) r)" if "[0..<d - n] = ds @ r # es" "vsize w = d" "\<forall>i<d. i \<notin> set ds \<longrightarrow> elems w ! i = ?xs ! i" for r w ds es
      using read [OF that] .
  qed auto
  then obtain w where w: "set_rows (<) (\<lambda>r w. vec_at w (size_plus r (int n))) [0..<d - n] v = Inr w" "vsize w = d" "alloc w = alloc v" "vec_inv (<) w"
      "\<forall>i<d. elems w ! i = (if i \<in> set [0..<d - n] then ?xs ! (i + n) else ?xs ! i)" by auto
  have "\<forall>r. d - n \<le> r \<and> r < d \<longrightarrow> std_at ?b (r - (d - n)) = Inr (?b ! (r - (d - n)))" using v(1) n by (auto simp: std_at_def)
  from write_rows_ok [OF w(2,4) order_refl this] obtain w' where w': "set_rows (<) (\<lambda>r w. std_at ?b (r - (d - n))) [d - n..<d] w = Inr w'" "vsize w' = d" "alloc w' = alloc w" "vec_inv (<) w'"
      "\<forall>i<d. elems w' ! i = (if i \<in> set [d - n..<d] then ?b ! (i - (d - n)) else elems w ! i)" by blast
  have "elems w' = drop n ?xs @ ?b"
    using w'(2,5) w(5) v(1) n by (intro nth_equalityI) (auto simp: nth_append add.commute)
  moreover have "rotate_col (<) (- int n) d v buf = Inr (w', ?b)"
    using save w(1) w'(1) n size_plus_simps(1) [of n d] by (simp add: rotate_col_def)
  ultimately show ?thesis using w w' by simp
qed

lemma rotate_array_ok:
  fixes a :: "'a::linorder array"
  assumes wf: "array_wf (<) a" "adim a \<noteq> []"
    and col: "\<And>v buf. col_wf (<) (nrows a) v \<Longrightarrow> length buf = nat \<bar>n\<bar> \<Longrightarrow>
      \<exists>w b. rotate_col (<) n (nrows a) v buf = Inr (w, b) \<and> length b = nat \<bar>n\<bar> \<and> col_wf (<) (nrows a) w \<and> elems w = turn (elems v)"
  shows "\<exists>b. rotate_inplace (<) init a n = Inr b \<and> array_wf (<) b \<and> adim b = adim a \<and> anames b = anames a \<and> ncols b = ncols a \<and>
    (\<forall>c<ncols a. elems (cols b ! c) = turn (elems (cols a ! c)))"
proof -
  have d: "dim_at (adim a) 0 = Inr (nrows a)" using wf(2) by (cases "adim a") (auto simp: nrows_def)
  obtain ws where ws: "over_cols (\<lambda>v buf. bindR (dim_at (adim a) 0) (\<lambda>d. rotate_col (<) n d v buf)) (replicate (nat \<bar>n\<bar>) init) a = Inr (a\<lparr>cols := ws\<rparr>)"
      "length ws = length (cols a)" "\<forall>c<length (cols a). col_wf (<) (nrows a) (ws ! c) \<and> elems (ws ! c) = turn (elems (cols a ! c))"
    using over_cols_ok [of a "\<lambda>b. length b = nat \<bar>n\<bar>" "\<lambda>v buf. bindR (dim_at (adim a) 0) (\<lambda>d. rotate_col (<) n d v buf)"
        "\<lambda>c w. col_wf (<) (nrows a) w \<and> elems w = turn (elems (cols a ! c))" "replicate (nat \<bar>n\<bar>) init"] col array_wfD(2) [OF wf(1)] d
    by fastforce
  have "array_wf (<) (a\<lparr>cols := ws\<rparr>)" using wf ws(2,3) by (auto simp: array_wf_def list_all_length nrows_def)
  with ws show ?thesis by (auto simp: rotate_inplace_def ncols_def)
qed

section \<open>Last observation carried forward\<close>

text \<open>The position of the last observation up to a row.\<close>

fun last_obs :: "('a \<Rightarrow> bool) \<Rightarrow> 'a list \<Rightarrow> nat \<Rightarrow> nat option" where
  "last_obs isnan xs 0 = (if isnan (xs ! 0) then None else Some 0)"
| "last_obs isnan xs (Suc r) = (if isnan (xs ! Suc r) then last_obs isnan xs r else Some (Suc r))"

definition carried :: "('a \<Rightarrow> bool) \<Rightarrow> 'a \<Rightarrow> nat \<Rightarrow> 'a list \<Rightarrow> nat \<Rightarrow> 'a \<Rightarrow> bool" where
  "carried isnan nan n xs r y \<longleftrightarrow>
     (case last_obs isnan xs r of None \<Rightarrow> isnan y | Some i \<Rightarrow> y = (if r - i \<le> n then xs ! i else nan))"

lemma last_obs_le: "last_obs isnan xs r = Some i \<Longrightarrow> i \<le> r \<and> \<not> isnan (xs ! i)"
  by (induction r) (auto split: if_splits)

lemma last_obs_self: "\<not> isnan (xs ! r) \<Longrightarrow> last_obs isnan xs r = Some r"
  by (cases r) simp_all

text \<open>The state before row \<open>r\<close>.\<close>

definition locf_ok :: "('a \<Rightarrow> bool) \<Rightarrow> 'a \<Rightarrow> nat \<Rightarrow> 'a list \<Rightarrow> 'a vec \<Rightarrow> nat \<Rightarrow> 'a::linorder vec \<times> int \<Rightarrow> bool" where
  "locf_ok isnan nan n xs v0 r st \<longleftrightarrow>
     (\<exists>out. elems (fst st) = out @ drop r xs \<and> length out = r \<and> (\<forall>i<r. carried isnan nan n xs i (out ! i))) \<and>
     alloc (fst st) = alloc v0 \<and> vec_inv (<) (fst st) \<and>
     snd st = (if r = 1 \<or> \<not> isnan (xs ! (r - 1)) then - 1 else case last_obs isnan xs (r - 1) of None \<Rightarrow> 0 | Some i \<Rightarrow> int i)"

lemma locf_row_ok:
  fixes xs :: "'a::linorder list"
  assumes ok: "locf_ok isnan nan n xs v0 r st" and r: "1 \<le> r" "r < length xs" "length xs \<le> SIZE_MAX" and nan: "isnan nan" and n: "n \<le> SIZE_MAX"
  shows "\<exists>st'. locf_row (<) isnan nan (int n) r st = Inr st' \<and> locf_ok isnan nan n xs v0 (Suc r) st'"
proof -
  obtain v l where st: "st = (v, l)" by (cases st)
  obtain q where q: "r = Suc q" using r(1) by (cases r) auto
  obtain out where out: "elems v = out @ drop r xs" "length out = r" "\<forall>i<r. carried isnan nan n xs i (out ! i)" and al: "alloc v = alloc v0" "vec_inv (<) v"
    and l: "l = (if r = 1 \<or> \<not> isnan (xs ! q) then - 1 else case last_obs isnan xs q of None \<Rightarrow> 0 | Some i \<Rightarrow> int i)"
    using ok q unfolding locf_ok_def st by auto
  have at: "vec_at v r = Inr (xs ! r)" "vec_at v (r - 1) = Inr (out ! q)" using out r q by (simp_all add: nth_append)
  show ?thesis
  proof (cases "isnan (xs ! r)")
    case False
    have "elems v = (out @ [xs ! r]) @ drop (Suc r) xs" using out(1) r by (simp add: Cons_nth_drop_Suc)
    moreover have "carried isnan nan n xs r (xs ! r)" using False q by (simp add: carried_def)
    ultimately have "locf_ok isnan nan n xs v0 (Suc r) (v, - 1)"
      using out(2,3) al False by (auto simp: locf_ok_def nth_append less_Suc_eq intro!: exI [of _ "out @ [xs ! r]"])
    then show ?thesis using at(1) False by (simp add: locf_row_def st)
  next
    case True
    let ?l = "if l < 0 then int r - 1 else l" and ?i = "case last_obs isnan xs r of None \<Rightarrow> 0 | Some i \<Rightarrow> i"
    have lo: "last_obs isnan xs r = last_obs isnan xs q" using True q by simp
    have li: "?l = int ?i \<and> ?i < r"
    proof (cases "r = 1 \<or> \<not> isnan (xs ! q)")
      case start: True
      then have "?i = q"
      proof (cases "isnan (xs ! q)")
        case True
        then show ?thesis using start lo q by simp
      next
        case False
        then show ?thesis using lo last_obs_self [of isnan xs q] by simp
      qed
      then show ?thesis using start l q by simp
    next
      case False
      then have "l = int ?i" using l lo by (simp split: option.splits)
      moreover have "?i \<le> q" using lo last_obs_le [of isnan xs q] by (auto split: option.splits)
      ultimately show ?thesis using q by simp
    qed
    have "int r - ?l = int (r - ?i)" using li by (simp add: of_nat_diff)
    moreover have "r - ?i < 2 ^ 64" "n < 2 ^ 64" using r n by (auto simp: SIZE_MAX_def)
    ultimately have dist: "as_size (int r - ?l) \<le> as_size (int n) \<longleftrightarrow> r - ?i \<le> n" by (simp add: as_size_def nat_mod_as_int [symmetric] zmod_int [symmetric])
    let ?y = "if r - ?i \<le> n then out ! q else nan"
    obtain w where w: "setv (<) r ?y v = Inr w" "elems w = (out @ [?y]) @ drop (Suc r) xs" "alloc w = alloc v" "vec_inv (<) w"
      using setv_row [OF out(1,2) r(2) al(2) less_setv_keeps] by blast
    have "carried isnan nan n xs q (out ! q)" using out(3) q by simp
    then have "carried isnan nan n xs r ?y" using lo q nan li by (auto simp: carried_def split: option.splits)
    then have "locf_ok isnan nan n xs v0 (Suc r) (w, ?l)"
      using w out(2,3) al True li q by (auto simp: locf_ok_def nth_append less_Suc_eq intro!: exI [of _ "out @ [?y]"] split: option.splits)
    moreover have "locf_row (<) isnan nan (int n) r st = Inr (w, ?l)"
      unfolding locf_row_def st prod.case at bindR.simps Let_def if_P [OF True] dist using w(1) by (simp only: bindR.simps)
    ultimately show ?thesis by blast
  qed
qed

lemma locf_col_ok:
  fixes v :: "'a::linorder vec"
  assumes v: "col_wf (<) d v" and d: "d \<le> SIZE_MAX" "n \<le> SIZE_MAX" and nan: "isnan nan"
  shows "\<exists>w. locf_col (<) isnan nan (int n) d v = Inr w \<and> col_wf (<) d w \<and> (\<forall>i<d. carried isnan nan n (elems v) i (elems w ! i))"
proof (cases "d = 0")
  case True
  then show ?thesis using v by (simp add: locf_col_def)
next
  case False
  let ?xs = "elems v"
  have len: "length ?xs = d" "vec_inv (<) v" "alloc v \<noteq> NullAlloc" using v by (simp_all add: col_wf_def)
  have "?xs = [?xs ! 0] @ drop 1 ?xs" using len False by (cases ?xs) auto
  then have start: "locf_ok isnan nan n ?xs v 1 (v, - 1)"
    using len(2) by (auto simp: locf_ok_def carried_def intro!: exI [of _ "[?xs ! 0]"])
  have "\<exists>st. foldR (locf_row (<) isnan nan (int n)) [1..<Suc k] (v, - 1) = Inr st \<and> locf_ok isnan nan n ?xs v (Suc k) st" if "Suc k \<le> d" for k
    using that
  proof (induction k)
    case 0
    then show ?case using start by simp
  next
    case (Suc k)
    then obtain st where st: "foldR (locf_row (<) isnan nan (int n)) [1..<Suc k] (v, - 1) = Inr st" "locf_ok isnan nan n ?xs v (Suc k) st" by auto
    from locf_row_ok [OF st(2) _ _ _ nan d(2)] Suc.prems len d obtain st' where
      "locf_row (<) isnan nan (int n) (Suc k) st = Inr st'" "locf_ok isnan nan n ?xs v (Suc (Suc k)) st'" by auto
    with st(1) show ?case by (simp add: foldR_append)
  qed
  from this [of "d - 1"] False obtain st where st: "foldR (locf_row (<) isnan nan (int n)) [1..<d] (v, - 1) = Inr st" "locf_ok isnan nan n ?xs v d st" by auto
  then show ?thesis using len by (auto simp: locf_col_def locf_ok_def col_wf_def)
qed

section \<open>Properties\<close>

text \<open>Rotation of the rows: rotating by at most as many rows as the array has brings the last rows of every column to its
  beginning and keeps extents, names and the invariant; rotating back by as many rows restores the content.\<close>

theorem rotate_roundtrip:
  fixes a :: "'a::linorder array"
  assumes wf: "array_wf (<) a" "adim a \<noteq> []" and n: "n \<le> nrows a" "nrows a \<le> SIZE_MAX"
  shows "\<exists>b c. rotate_inplace (<) init a (int n) = Inr b \<and> array_wf (<) b \<and> adim b = adim a \<and> anames b = anames a \<and>
    (\<forall>k<ncols a. elems (cols b ! k) = drop (nrows a - n) (elems (cols a ! k)) @ take (nrows a - n) (elems (cols a ! k))) \<and>
    rotate_inplace (<) init b (- int n) = Inr c \<and> array_wf (<) c \<and> adim c = adim a \<and> content c = content a"
proof -
  let ?d = "nrows a"
  have down: "\<exists>w b. rotate_col (<) (- int n) ?d v buf = Inr (w, b) \<and> length b = nat \<bar>- int n\<bar> \<and> col_wf (<) ?d w \<and> elems w = drop n (elems v) @ take n (elems v)"
    if v: "col_wf (<) ?d v" "length buf = nat \<bar>- int n\<bar>" for v :: "'a vec" and buf :: "'a list"
    using rotate_down_ok [of v ?d n buf] that n by (auto simp: col_wf_def)
  have up: "\<exists>w b. rotate_col (<) (int n) ?d v buf = Inr (w, b) \<and> length b = nat \<bar>int n\<bar> \<and> col_wf (<) ?d w \<and>
      elems w = drop (?d - n) (elems v) @ take (?d - n) (elems v)"
    if v: "col_wf (<) ?d v" "length buf = nat \<bar>int n\<bar>" for v :: "'a vec" and buf :: "'a list"
  proof (cases "n = 0")
    case True
    then show ?thesis using down [of v buf] that by (simp add: col_wf_def)
  next
    case False
    then show ?thesis using rotate_up_ok [of v ?d n buf] that n by (auto simp: col_wf_def)
  qed
  obtain b where b: "rotate_inplace (<) init a (int n) = Inr b" "array_wf (<) b" "adim b = adim a" "anames b = anames a" "ncols b = ncols a"
      "\<forall>k<ncols a. elems (cols b ! k) = drop (?d - n) (elems (cols a ! k)) @ take (?d - n) (elems (cols a ! k))"
    using rotate_array_ok [OF wf, of "int n" "\<lambda>xs. drop (?d - n) xs @ take (?d - n) xs" init, OF up] by blast
  have db: "nrows b = ?d" "adim b \<noteq> []" using b(3) wf(2) by (simp_all add: nrows_def)
  obtain c where c: "rotate_inplace (<) init b (- int n) = Inr c" "array_wf (<) c" "adim c = adim b" "ncols c = ncols b"
      "\<forall>k<ncols b. elems (cols c ! k) = drop n (elems (cols b ! k)) @ take n (elems (cols b ! k))"
    using rotate_array_ok [OF b(2) db(2), of "- int n" "\<lambda>xs. drop n xs @ take n xs" init, unfolded db(1), OF down] by blast
  have "elems (cols c ! k) = elems (cols a ! k)" if "k < ncols a" for k
  proof -
    have "vsize (cols a ! k) = ?d" using array_wfD(2) [OF wf(1)] that by (simp add: ncols_def col_wf_def)
    then show ?thesis using b(5,6) c(5) that n by simp
  qed
  then have "map elems (cols c) = map elems (cols a)" using b(5) c(4) by (intro nth_equalityI) (simp_all add: ncols_def)
  then have "content c = content a" by (simp add: content_def)
  then show ?thesis using b c by auto
qed

theorem rotate_roundtrip_witness:
  "\<exists>b c. rotate_inplace (<) 0 array_example (int 1) = Inr b \<and> elems (cols b ! 0) = [3, 5] \<and> rotate_inplace (<) 0 b (- int 1) = Inr c \<and> content c = [5, 3, 4, 9]"
proof -
  have "content array_example = [5, 3, 4, 9]" "nrows array_example = 2" "ncols array_example = 2" "adim array_example \<noteq> []" "elems (cols array_example ! 0) = [5, 3]"
    by (simp_all add: array_example_def content_def nrows_def ncols_def)
  then show ?thesis using rotate_roundtrip [OF array_example_wf, of 1 0] by (auto simp: SIZE_MAX_def)
qed

text \<open>Last observation carried forward: every missing value of a column becomes the last value observed before it when that is
  at most \<open>n\<close> rows away, and \<open>NaN\<close> otherwise; observations stay as they are, leading missing values stay missing, and extents, names
  and the invariant are kept.\<close>

theorem locf_correct:
  fixes a :: "'a::linorder array"
  assumes wf: "array_wf (<) a" "adim a \<noteq> []" and nan: "isnan nan" and n: "n \<le> SIZE_MAX" "nrows a \<le> SIZE_MAX"
  shows "\<exists>b. locf_inplace (<) isnan nan a (int n) = Inr b \<and> array_wf (<) b \<and> adim b = adim a \<and> anames b = anames a \<and>
    (\<forall>c<ncols a. \<forall>i<nrows a. carried isnan nan n (elems (cols a ! c)) i (elems (cols b ! c) ! i))"
proof -
  have d: "dim_at (adim a) 0 = Inr (nrows a)" using wf(2) by (cases "adim a") (auto simp: nrows_def)
  let ?f = "\<lambda>v s. bindR (bindR (dim_at (adim a) 0) (\<lambda>d. locf_col (<) isnan nan (int n) d v)) (\<lambda>w. Inr (w, s))"
  have "\<exists>w s'. ?f (cols a ! c) s = Inr (w, s') \<and> True \<and> col_wf (<) (nrows a) w \<and> (\<forall>i<nrows a. carried isnan nan n (elems (cols a ! c)) i (elems w ! i))"
    if "c < length (cols a)" for c and s :: unit
    using locf_col_ok [OF array_wfD(2) [OF wf(1) that] n(2,1), where isnan = isnan and nan = nan] nan d by auto
  then obtain ws where ws: "over_cols ?f () a = Inr (a\<lparr>cols := ws\<rparr>)" "length ws = length (cols a)"
      "\<forall>c<length (cols a). col_wf (<) (nrows a) (ws ! c) \<and> (\<forall>i<nrows a. carried isnan nan n (elems (cols a ! c)) i (elems (ws ! c) ! i))"
    using over_cols_ok [of a "\<lambda>_. True" ?f "\<lambda>c w. col_wf (<) (nrows a) w \<and> (\<forall>i<nrows a. carried isnan nan n (elems (cols a ! c)) i (elems w ! i))" "()"] by blast
  have "array_wf (<) (a\<lparr>cols := ws\<rparr>)" using wf ws(2,3) by (auto simp: array_wf_def list_all_length nrows_def)
  with ws show ?thesis by (auto simp: locf_inplace_def over_cols_plain_def ncols_def)
qed

theorem locf_correct_witness:
  "\<exists>b. locf_inplace (<) (\<lambda>x. x < 4) 0 array_example (int 1) = Inr b \<and> elems (cols b ! 0) ! 1 = 5"
proof -
  have "nrows array_example = 2" "ncols array_example = 2" "adim array_example \<noteq> []" "elems (cols array_example ! 0) = [5, 3]"
    by (simp_all add: array_example_def nrows_def ncols_def)
  moreover have "carried (\<lambda>x. x < 4) 0 1 [5, 3] 1 y \<longleftrightarrow> y = (5 :: int)" for y by (simp add: carried_def)
  ultimately show ?thesis using locf_correct [OF array_example_wf, of "\<lambda>x. x < 4" 0 1] by (force simp: SIZE_MAX_def)
qed

end
