(* ===== verification/Durations.thy ===== *)
theory Durations
  imports Prelude
begin

text \<open>
  Durations as text: \<open>readNumber\<close> (\<open>src/src/misc.cpp\<close>), \<open>duration_from_string2\<close> and \<open>to_string\<close> (\<open>src/src/timezone/ztime.cpp\<close>). A pointer into a
  string is the rest of the string; behind its end the code reads the terminating zero. Numbers are read into a 32-bit \<open>int\<close>.
  A duration is an integer number of nanoseconds.
\<close>

section \<open>Numbers\<close>

definition INT_MAX :: int where
  "INT_MAX = 2 ^ 31 - 1"

definition peek :: "string \<Rightarrow> char" where
  "peek s = (case s of [] \<Rightarrow> CHR 0x00 | c # _ \<Rightarrow> c)"

definition isdigit :: "char \<Rightarrow> bool" where
  "isdigit c \<longleftrightarrow> 48 \<le> (of_char c :: int) \<and> (of_char c :: int) \<le> 57"

definition digit_val :: "char \<Rightarrow> int" where
  "digit_val c = of_char c - 48"

definition as_int :: "int \<Rightarrow> int res" where
  "as_int n = (if - INT_MAX - 1 \<le> n \<and> n \<le> INT_MAX then Inr n else Inl UB)"

fun read_digits :: "int \<Rightarrow> string \<Rightarrow> (int \<times> string) res" where
  "read_digits n [] = Inr (n, [])"
| "read_digits n (c # s) = (if isdigit c then bindR (as_int (10 * n + digit_val c)) (\<lambda>n'. read_digits n' s) else Inr (n, c # s))"

text \<open>\<open>None\<close> is the result \<open>false\<close>; the pointer is then where it was.\<close>

definition readNumber :: "bool \<Rightarrow> string \<Rightarrow> (int \<times> string) option res" where
  "readNumber dosign sorig =
     (let neg = dosign \<and> peek sorig = CHR ''-''; s = (if neg then tl sorig else sorig) in
      if s = [] \<or> \<not> isdigit (hd s) then Inr None
      else bindR (read_digits (digit_val (hd s)) (tl s)) (\<lambda>(n, r). Inr (Some (if neg then - n else n, r))))"

section \<open>Reading a duration\<close>

definition parse_error :: exn where
  "parse_error = RangeError ''cannot parse duration''"

function read_fraction :: "int \<Rightarrow> int \<Rightarrow> nat \<Rightarrow> string \<Rightarrow> int res" where
  "read_fraction d mul i [] = Inr d"
| "read_fraction d mul i (c # s) =
     (if mul < 1 then Inl parse_error
      else if (i = 3 \<or> i = 6) \<and> c = CHR ''_'' then read_fraction d mul i s
      else if \<not> isdigit c then Inl parse_error
      else read_fraction (d + digit_val c * mul) (mul div 10) (i + 1) s)"
  by pat_completeness auto
termination
  by (relation "measure (\<lambda>(d, mul, i, s). length s)") auto

definition two_digits :: "string \<Rightarrow> nat \<Rightarrow> int" where
  "two_digits s i = digit_val (s ! i) * 10 + digit_val (s ! (i + 1))"

text \<open>The part after a colon: minutes, and the number of seconds.\<close>

definition read_minutes :: "int \<Rightarrow> string \<Rightarrow> (int \<times> int \<times> string) res" where
  "read_minutes n s =
     (if length s < 5 \<or> \<not> isdigit (s ! 0) \<or> \<not> isdigit (s ! 1) \<or> s ! 2 \<noteq> CHR '':'' \<or> \<not> isdigit (s ! 3) \<or> \<not> isdigit (s ! 4)
      then Inl parse_error
      else Inr (n * 3600000000000 + two_digits s 0 * 60000000000, two_digits s 3, drop 5 s))"

definition duration_from_string2 :: "string \<Rightarrow> int res" where
  "duration_from_string2 str =
     (let neg = str \<noteq> [] \<and> hd str = CHR ''-''; s = (if neg then tl str else str); sign = (if neg then - 1 else 1) in
      bindR (readNumber False s) (\<lambda>r. case r of None \<Rightarrow> Inl parse_error | Some (n, s1) \<Rightarrow>
      bindR (if s1 \<noteq> [] \<and> hd s1 = CHR '':'' then read_minutes n (tl s1) else Inr (0, n, s1)) (\<lambda>(d, n', s2).
      let d' = d + n' * 1000000000 in
      if s2 = [] then Inr (sign * d')
      else if hd s2 \<noteq> CHR ''.'' then Inl parse_error
      else bindR (read_fraction d' 100000000 0 (tl s2)) (\<lambda>d''. Inr (sign * d'')))))"

section \<open>Writing a duration\<close>

text \<open>Insertion of a number into a stream with the fill character 0.\<close>

definition digit :: "nat \<Rightarrow> char" where
  "digit n = char_of (48 + n)"

fun dec :: "nat \<Rightarrow> string" where
  "dec n = (if n < 10 then [digit n] else dec (n div 10) @ [digit (n mod 10)])"

declare dec.simps [simp del]

definition pad :: "nat \<Rightarrow> string \<Rightarrow> string" where
  "pad w s = replicate (w - length s) (CHR ''0'') @ s"

definition duration_to_string :: "int \<Rightarrow> string" where
  "duration_to_string dur =
     (let d = \<bar>dur\<bar>;
          h = d div 3600000000000; d1 = d - h * 3600000000000;
          m = d1 div 60000000000; d2 = d1 - m * 60000000000;
          s = d2 div 1000000000; d3 = d2 - s * 1000000000;
          ms = d3 div 1000000; d4 = d3 - ms * 1000000;
          us = d4 div 1000; ns = d4 - us * 1000
      in (if dur < 0 then ''-'' else []) @ pad 2 (dec (nat h)) @ '':'' @ pad 2 (dec (nat m)) @ '':'' @ pad 2 (dec (nat s)) @
         (if ms \<noteq> 0 \<or> us \<noteq> 0 \<or> ns \<noteq> 0 then
            ''.'' @ pad 3 (dec (nat ms)) @
            (if us \<noteq> 0 \<or> ns \<noteq> 0 then ''_'' @ pad 3 (dec (nat us)) @ (if ns \<noteq> 0 then ''_'' @ pad 3 (dec (nat ns)) else []) else [])
          else []))"

section \<open>Reading back what was written\<close>

lemma of_char_digit: "n < 10 \<Longrightarrow> (of_char (digit n) :: int) = 48 + int n"
proof -
  assume "n < 10"
  then have "(of_char (digit n) :: nat) = 48 + n" by (simp add: digit_def)
  then show ?thesis using of_nat_of_char [of "digit n", where 'a = int] by simp
qed

lemma digit_props [simp]: "n < 10 \<Longrightarrow> isdigit (digit n)" "n < 10 \<Longrightarrow> digit_val (digit n) = int n"
  by (simp_all add: isdigit_def digit_val_def of_char_digit)

lemma zero_digit: "CHR ''0'' = digit 0"
  by code_simp

lemma not_digit [simp]: "\<not> isdigit (CHR '':'')" "\<not> isdigit (CHR ''.'')" "\<not> isdigit (CHR ''_'')" "\<not> isdigit (CHR ''-'')" "\<not> isdigit (CHR ''/'')"
  "\<not> isdigit (CHR ''m'')" "\<not> isdigit (CHR ''d'')" "\<not> isdigit (CHR 0x00)"
  by code_simp+

text \<open>The value of a string of digits.\<close>

definition dec_val :: "int \<Rightarrow> string \<Rightarrow> int" where
  "dec_val n s = fold (\<lambda>c n. 10 * n + digit_val c) s n"

definition stops :: "string \<Rightarrow> bool" where
  "stops r \<longleftrightarrow> \<not> isdigit (peek r)"

lemma dec_digits: "s = dec n \<Longrightarrow> s \<noteq> [] \<and> list_all isdigit s \<and> dec_val 0 s = int n"
proof (induction n arbitrary: s rule: dec.induct)
  case (1 n)
  show ?case
  proof (cases "n < 10")
    case False
    have "s = dec (n div 10) @ [digit (n mod 10)]" using False 1(2) by (subst (asm) dec.simps) simp
    moreover have "10 * int (n div 10) + int (n mod 10) = int n" by presburger
    ultimately show ?thesis using False 1(1) [OF False refl] by (simp add: dec_val_def)
  qed (use 1(2) in \<open>simp add: dec.simps dec_val_def\<close>)
qed

lemma dec_val_zeros: "dec_val 0 (replicate k (CHR ''0'') @ s) = dec_val 0 s"
  by (induction k) (simp_all add: dec_val_def zero_digit)

lemma pad_digits: "pad w (dec n) \<noteq> []" "list_all isdigit (pad w (dec n))" "dec_val 0 (pad w (dec n)) = int n"
  using dec_digits [OF refl, of n] by (simp_all add: pad_def dec_val_zeros) (auto simp: zero_digit list_all_iff)

lemma dec_low: "n < 10 \<Longrightarrow> dec n = [digit n]" and dec_high: "10 \<le> n \<Longrightarrow> dec n = dec (n div 10) @ [digit (n mod 10)]"
  by (simp_all add: dec.simps [of n])

lemma pad2: "n < 100 \<Longrightarrow> pad 2 (dec n) = [digit (n div 10), digit (n mod 10)]"
proof (cases "n < 10")
  case False
  assume "n < 100"
  then have "n div 10 < 10" by auto
  then show ?thesis using False by (simp add: pad_def dec_low dec_high)
qed (simp add: pad_def dec_low zero_digit)

lemma pad3: "n < 1000 \<Longrightarrow> pad 3 (dec n) = [digit (n div 100), digit (n div 10 mod 10), digit (n mod 10)]"
proof -
  assume n: "n < 1000"
  consider "n < 10" | "10 \<le> n" "n < 100" | "100 \<le> n" by linarith
  then show ?thesis
  proof cases
    case 1
    then show ?thesis by (simp add: pad_def dec_low zero_digit numeral_3_eq_3)
  next
    case 2
    then have "n div 10 < 10" by auto
    then show ?thesis using 2 by (simp add: pad_def dec_low dec_high zero_digit)
  next
    case 3
    then have "10 \<le> n div 10" "n div 10 div 10 < 10" using n by auto
    then show ?thesis using 3 by (simp add: pad_def dec_low dec_high div_mult2_eq [symmetric])
  qed
qed

lemma dec_val_ge: "0 \<le> n \<Longrightarrow> list_all isdigit s \<Longrightarrow> n \<le> dec_val n s"
proof (induction s arbitrary: n)
  case (Cons c s)
  then have "0 \<le> digit_val c" by (simp add: isdigit_def digit_val_def)
  then have "10 * n + digit_val c \<le> dec_val (10 * n + digit_val c) s" using Cons by (intro Cons.IH) auto
  then show ?case using Cons(2) \<open>0 \<le> digit_val c\<close> by (simp add: dec_val_def)
qed (simp add: dec_val_def)

lemma read_digits_ok:
  assumes "list_all isdigit s" "stops r" "0 \<le> n" "dec_val n s \<le> INT_MAX"
  shows "read_digits n (s @ r) = Inr (dec_val n s, r)"
  using assms
proof (induction s arbitrary: n)
  case Nil
  then show ?case by (cases r) (simp_all add: dec_val_def stops_def peek_def)
next
  case (Cons c s)
  then have d: "0 \<le> digit_val c" by (simp add: isdigit_def digit_val_def)
  define k where "k = 10 * n + digit_val c"
  have v: "dec_val n (c # s) = dec_val k s" by (simp add: dec_val_def k_def)
  then have "0 \<le> k" "k \<le> INT_MAX" using d Cons(4,5) dec_val_ge [of k s] Cons(2) by (auto simp: k_def)
  then show ?case using Cons(2-5) Cons.IH [of k] v by (simp add: as_int_def INT_MAX_def k_def)
qed

text \<open>A number that is not negative, with or without leading zeros.\<close>

lemma readNumber_pad:
  assumes "stops r" "int n \<le> INT_MAX"
  shows "readNumber sg (pad w (dec n) @ r) = Inr (Some (int n, r))"
proof -
  obtain c s where cs: "pad w (dec n) = c # s" using pad_digits(1) by (cases "pad w (dec n)") auto
  then have d: "isdigit c" "list_all isdigit s" "dec_val (digit_val c) s = int n" using pad_digits(2,3) [of w n] by (simp_all add: dec_val_def)
  then have "read_digits (digit_val c) (s @ r) = Inr (int n, r)"
    using assms read_digits_ok [of s r "digit_val c"] by (simp add: isdigit_def digit_val_def)
  moreover have "c \<noteq> CHR ''-''" using d(1) by auto
  ultimately show ?thesis using d(1) by (simp add: readNumber_def cs peek_def)
qed

text \<open>A signed number.\<close>

definition dec_int :: "int \<Rightarrow> string" where
  "dec_int n = (if n < 0 then CHR ''-'' # dec (nat (- n)) else dec (nat n))"

lemma readNumber_int:
  assumes "stops r" "\<bar>n\<bar> \<le> INT_MAX"
  shows "readNumber True (dec_int n @ r) = Inr (Some (n, r))"
proof (cases "n < 0")
  case True
  obtain c s where cs: "dec (nat (- n)) = c # s" using dec_digits [OF refl, of "nat (- n)"] by (cases "dec (nat (- n))") auto
  then have d: "isdigit c" "list_all isdigit s" "dec_val (digit_val c) s = - n"
    using dec_digits [OF refl, of "nat (- n)"] True by (simp_all add: dec_val_def)
  then have "read_digits (digit_val c) (s @ r) = Inr (- n, r)"
    using assms True read_digits_ok [of s r "digit_val c"] by (simp add: isdigit_def digit_val_def)
  then show ?thesis using d(1) True by (simp add: readNumber_def dec_int_def cs peek_def)
next
  case False
  have "pad 0 (dec (nat n)) = dec (nat n)" by (simp add: pad_def)
  then show ?thesis using False assms readNumber_pad [of r "nat n" True 0] by (simp add: dec_int_def)
qed

lemma read_minutes_ok:
  assumes "m < 60" "sec < 60"
  shows "read_minutes n (pad 2 (dec m) @ '':'' @ pad 2 (dec sec) @ r) = Inr (n * 3600000000000 + int m * 60000000000, int sec, r)"
proof -
  have "int (m div 10) * 10 + int (m mod 10) = int m" "int (sec div 10) * 10 + int (sec mod 10) = int sec" by presburger+
  moreover have "m div 10 < 10" "sec div 10 < 10" using assms by auto
  ultimately show ?thesis using assms by (simp add: pad2 read_minutes_def two_digits_def)
qed

text \<open>Three more digits of the fraction.\<close>

lemma read_fraction3:
  assumes n: "n < 1000" and i: "i = 0 \<or> i = 3 \<or> i = 6" and mul: "mul = 100 * k" "1 \<le> k"
  shows "read_fraction d mul i (pad 3 (dec n) @ r) = read_fraction (d + int n * k) (k div 10) (i + 3) r"
proof -
  define a b c where "a = n div 100" and "b = n div 10 mod 10" and "c = n mod 10"
  have abc: "a < 10" "b < 10" "c < 10" using n by (simp_all add: a_def b_def c_def div_less_iff_less_mult)
  have "n div 100 = n div 10 div 10" using div_mult2_eq [of n 10 10] by simp
  then have "n = 100 * a + 10 * b + c"
    using div_mult_mod_eq [of n 10] div_mult_mod_eq [of "n div 10" 10] unfolding a_def b_def c_def by linarith
  then have "int n = 100 * int a + 10 * int b + int c" by simp
  then have k: "d + int n * k = d + int a * (100 * k) + int b * (10 * k) + int c * k" by (simp add: algebra_simps)
  have m: "100 * k div 10 = 10 * k" "10 * k div 10 = k" by simp_all
  have "digit x \<noteq> CHR ''_''" if "x < 10" for x using that digit_props(1) [of x] by (metis not_digit(3))
  then show ?thesis unfolding k pad3 [OF n] a_def [symmetric] b_def [symmetric] c_def [symmetric] using abc i mul m by (auto simp: numeral_3_eq_3 [symmetric])
qed

lemma read_fraction_underscore: "i = 3 \<or> i = 6 \<Longrightarrow> 1 \<le> mul \<Longrightarrow> read_fraction d mul i (''_'' @ r) = read_fraction d mul i r"
  by simp

definition frac_string :: "nat \<Rightarrow> nat \<Rightarrow> nat \<Rightarrow> string" where
  "frac_string ms us ns =
     (if ms \<noteq> 0 \<or> us \<noteq> 0 \<or> ns \<noteq> 0 then
        ''.'' @ pad 3 (dec ms) @
        (if us \<noteq> 0 \<or> ns \<noteq> 0 then ''_'' @ pad 3 (dec us) @ (if ns \<noteq> 0 then ''_'' @ pad 3 (dec ns) else []) else [])
      else [])"

lemma read_frac_string:
  assumes "ms < 1000" "us < 1000" "ns < 1000" "frac_string ms us ns \<noteq> []"
  shows "read_fraction d 100000000 0 (tl (frac_string ms us ns)) = Inr (d + int (ms * 1000000 + us * 1000 + ns))"
proof -
  have 0: "read_fraction e 100000000 0 (pad 3 (dec ms) @ r) = read_fraction (e + int ms * 1000000) 100000 3 r" for e r
    using read_fraction3 [OF assms(1), of 0 _ 1000000] by simp
  have 1: "read_fraction e 100000 3 (pad 3 (dec us) @ r) = read_fraction (e + int us * 1000) 100 6 r" for e r
    using read_fraction3 [OF assms(2), of 3 _ 1000] by simp
  have 2: "read_fraction e 100 6 (pad 3 (dec ns) @ r) = read_fraction (e + int ns) 0 9 r" for e r
    using read_fraction3 [OF assms(3), of 6 _ 1] by simp
  show ?thesis using assms(4) 0 [of _ "[]"] 1 [of _ "[]"] 2 [of _ "[]"] by (auto simp: frac_string_def 0 1)
qed

lemma duration_read_back:
  assumes "\<bar>d\<bar> < 2 ^ 63"
  shows "duration_from_string2 (duration_to_string d) = Inr d"
proof -
  define n where "n = \<bar>d\<bar>"
  define h where "h = n div 3600000000000"
  define m where "m = (n - h * 3600000000000) div 60000000000"
  define sec where "sec = (n - h * 3600000000000 - m * 60000000000) div 1000000000"
  define f where "f = n - h * 3600000000000 - m * 60000000000 - sec * 1000000000"
  define ms us ns where "ms = f div 1000000" and "us = (f - ms * 1000000) div 1000" and "ns = f - ms * 1000000 - us * 1000"
  have h: "0 \<le> h" "0 \<le> n - h * 3600000000000" "n - h * 3600000000000 < 3600000000000" by (simp_all add: h_def n_def minus_div_mult_eq_mod)
  have m: "0 \<le> m" "0 \<le> n - h * 3600000000000 - m * 60000000000" "n - h * 3600000000000 - m * 60000000000 < 60000000000"
    using h(2) by (simp_all add: m_def minus_div_mult_eq_mod pos_imp_zdiv_nonneg_iff)
  have sec: "0 \<le> sec" "0 \<le> f" "f < 1000000000" using m(2) by (simp_all add: sec_def f_def minus_div_mult_eq_mod pos_imp_zdiv_nonneg_iff)
  have ms: "0 \<le> ms" "0 \<le> f - ms * 1000000" "f - ms * 1000000 < 1000000" using sec(2) by (simp_all add: ms_def minus_div_mult_eq_mod pos_imp_zdiv_nonneg_iff)
  have us: "0 \<le> us" "0 \<le> ns" "ns < 1000" using ms(2) by (simp_all add: us_def ns_def minus_div_mult_eq_mod pos_imp_zdiv_nonneg_iff)
  have small: "nat m < 60" "nat sec < 60" "nat ms < 1000" "nat us < 1000" "nat ns < 1000" using h m sec f_def ms us ns_def by linarith+
  have total: "n = h * 3600000000000 + m * 60000000000 + sec * 1000000000 + int (nat ms * 1000000 + nat us * 1000 + nat ns)"
    using ms us by (simp add: f_def ns_def)
  have hmax: "int (nat h) \<le> INT_MAX" using assms h by (simp add: n_def INT_MAX_def)
  define body where "body = pad 2 (dec (nat h)) @ '':'' @ pad 2 (dec (nat m)) @ '':'' @ pad 2 (dec (nat sec)) @ frac_string (nat ms) (nat us) (nat ns)"
  have zero: "(nat ms \<noteq> 0) = (ms \<noteq> 0)" "(nat us \<noteq> 0) = (us \<noteq> 0)" "(nat ns \<noteq> 0) = (ns \<noteq> 0)" using ms us by auto
  have str: "duration_to_string d = (if d < 0 then CHR ''-'' # body else body)"
    unfolding duration_to_string_def Let_def n_def [symmetric] h_def [symmetric] m_def [symmetric] sec_def [symmetric] f_def [symmetric]
      ms_def [symmetric] us_def [symmetric] ns_def [symmetric] body_def frac_string_def zero by simp
  have num: "readNumber False body = Inr (Some (h, '':'' @ pad 2 (dec (nat m)) @ '':'' @ pad 2 (dec (nat sec)) @ frac_string (nat ms) (nat us) (nat ns)))"
    unfolding body_def using hmax h(1) readNumber_pad [of _ "nat h" False 2] by (simp add: stops_def peek_def)
  have hd: "body \<noteq> []" "hd body \<noteq> CHR ''-''"
    using pad_digits(1,2) [of 2 "nat h"] not_digit(4) unfolding body_def by (cases "pad 2 (dec (nat h))"; auto)+
  define fr where "fr = frac_string (nat ms) (nat us) (nat ns)"
  have fr: "fr = [] \<and> nat ms * 1000000 + nat us * 1000 + nat ns = 0 \<or> fr \<noteq> [] \<and> hd fr = CHR ''.'' \<and>
      read_fraction e 100000000 0 (tl fr) = Inr (e + int (nat ms * 1000000 + nat us * 1000 + nat ns))" for e
    using read_frac_string [OF small(3-5), of e] by (auto simp: fr_def frac_string_def)
  have min: "read_minutes h (pad 2 (dec (nat m)) @ '':'' @ pad 2 (dec (nat sec)) @ fr) = Inr (h * 3600000000000 + m * 60000000000, sec, fr)"
    using read_minutes_ok [OF small(1,2), of h fr] m(1) sec(1) by simp
  have d: "d = (if d < 0 then - 1 else 1) * n" by (simp add: n_def)
  show ?thesis
    unfolding duration_from_string2_def str using hd num [folded fr_def] min fr [of "h * 3600000000000 + m * 60000000000 + sec * 1000000000"] total d
    by (auto simp add: Let_def simp del: read_fraction.simps)
qed

text \<open>C28. Reading a written duration gives it back, for every duration of 64 bits.\<close>
theorem duration_roundtrip:
  assumes "\<bar>d\<bar> < 2 ^ 63"
  shows "duration_from_string2 (duration_to_string d) = Inr d"
  using assms by (rule duration_read_back)

theorem duration_roundtrip_witness:
  "\<bar>- 3723004005006 :: int\<bar> < 2 ^ 63 \<and> duration_to_string (- 3723004005006) = ''-01:02:03.004_005_006'' \<and>
   duration_from_string2 (duration_to_string (- 3723004005006)) = Inr (- 3723004005006)"
proof -
  have "duration_to_string (- 3723004005006) = ''-01:02:03.004_005_006''" by code_simp
  moreover have "\<bar>- 3723004005006 :: int\<bar> < 2 ^ 63" by simp
  ultimately show ?thesis using duration_roundtrip [of "- 3723004005006"] by blast
qed

end
