(* ===== verification/Calendar.thy ===== *)
theory Calendar
  imports Prelude "HOL-Library.Signed_Division"
begin

text \<open>
  The civil calendar of \<open>src/src/hinnant_date/date.h\<close>, on which times, periods and time zones rest: conversion between dates and day
  numbers, leap years, last days of months, week days and the addition of months. A date holds its year in 16 bits and its month and
  day in 8 bits; C++ division rounds towards zero (\<open>sdiv\<close>). The conversions are compared with the calendar itself, given by the
  successor of a date.
\<close>

section \<open>Dates\<close>

definition to_short :: "int \<Rightarrow> int" where
  "to_short n = (n + 2 ^ 15) mod 2 ^ 16 - 2 ^ 15"

definition to_uchar :: "int \<Rightarrow> int" where
  "to_uchar n = n mod 2 ^ 8"

record date =
  dyear :: int
  dmonth :: int
  dday :: int

definition mk_date :: "int \<Rightarrow> int \<Rightarrow> int \<Rightarrow> date" where
  "mk_date y m d = \<lparr>dyear = to_short y, dmonth = to_uchar m, dday = to_uchar d\<rparr>"

definition is_leap :: "int \<Rightarrow> bool" where
  "is_leap y \<longleftrightarrow> y smod 4 = 0 \<and> (y smod 100 \<noteq> 0 \<or> y smod 400 = 0)"

definition last_day :: "int \<Rightarrow> int \<Rightarrow> int" where
  "last_day y m = (if m \<noteq> 2 \<or> \<not> is_leap y then [31, 28, 31, 30, 31, 30, 31, 31, 30, 31, 30, 31] ! nat (m - 1) else 29)"

definition to_days :: "date \<Rightarrow> int" where
  "to_days dt =
     (let y = dyear dt - (if dmonth dt \<le> 2 then 1 else 0); m = dmonth dt; d = dday dt;
          era = (if y \<ge> 0 then y else y - 399) sdiv 400;
          yoe = y - era * 400;
          doy = (153 * (if m > 2 then m - 3 else m + 9) + 2) div 5 + d - 1;
          doe = yoe * 365 + yoe div 4 - yoe div 100 + doy
      in era * 146097 + doe - 719468)"

definition from_days :: "int \<Rightarrow> date" where
  "from_days dp =
     (let z = dp + 719468;
          era = (if z \<ge> 0 then z else z - 146096) sdiv 146097;
          doe = z - era * 146097;
          yoe = (doe - doe div 1460 + doe div 36524 - doe div 146096) div 365;
          y = yoe + era * 400;
          doy = doe - (365 * yoe + yoe div 4 - yoe div 100);
          mp = (5 * doy + 2) div 153;
          d = doy - (153 * mp + 2) div 5 + 1;
          m = (if mp < 10 then mp + 3 else mp - 9)
      in mk_date (y + (if m \<le> 2 then 1 else 0)) m d)"

definition weekday_from_days :: "int \<Rightarrow> int" where
  "weekday_from_days z = (if z \<ge> - 4 then (z + 4) smod 7 else (z + 5) smod 7 + 6)"

definition add_months :: "date \<Rightarrow> int \<Rightarrow> date" where
  "add_months dt dm =
     (let dmi = dmonth dt - 1 + dm;
          dy = (if dmi \<ge> 0 then dmi else dmi - 11) sdiv 12
      in mk_date (dyear dt + dy) (dmi - dy * 12 + 1) (dday dt))"

section \<open>The calendar\<close>

text \<open>A date of the calendar and the day after it.\<close>

definition valid_date :: "date \<Rightarrow> bool" where
  "valid_date dt \<longleftrightarrow> - (2 ^ 15) < dyear dt \<and> dyear dt < 2 ^ 15 - 1 \<and> 1 \<le> dmonth dt \<and> dmonth dt \<le> 12 \<and> 1 \<le> dday dt \<and> dday dt \<le> last_day (dyear dt) (dmonth dt)"

definition next_day :: "date \<Rightarrow> date" where
  "next_day dt =
     (if dday dt < last_day (dyear dt) (dmonth dt) then dt\<lparr>dday := dday dt + 1\<rparr>
      else if dmonth dt < 12 then dt\<lparr>dmonth := dmonth dt + 1, dday := 1\<rparr>
      else \<lparr>dyear = dyear dt + 1, dmonth = 1, dday = 1\<rparr>)"


section \<open>Eras and years\<close>

lemma floor_sdiv:
  fixes y n :: int
  assumes n: "0 < n"
  shows "(if 0 \<le> y then y else y - (n - 1)) sdiv n = y div n"
proof (cases "0 \<le> y")
  case False
  define r where "r = y mod n"
  have r: "0 \<le> r" "r < n" "y = n * (y div n) + r" using n by (simp_all add: r_def)
  have "(n - 1 - y) div n = - (y div n)" using r by (intro int_div_pos_eq [of _ _ _ "n - 1 - r"]) (simp_all add: algebra_simps)
  then show ?thesis using False n by (simp add: signed_divide_int_def)
qed (use n in \<open>simp add: signed_divide_int_def sgn_if\<close>)

lemma floor_400: "(if 0 \<le> y then y else y - 399) sdiv 400 = y div 400"
  and floor_era: "(if 0 \<le> y then y else y - 146096) sdiv 146097 = y div 146097"
  and floor_12: "(if 0 \<le> y then y else y - 11) sdiv 12 = y div 12" for y :: int
  using floor_sdiv [of 400 y] floor_sdiv [of 146097 y] floor_sdiv [of 12 y] by (simp_all split: if_splits)

text \<open>The days before the first of March of a year.\<close>

definition year_start :: "int \<Rightarrow> int" where
  "year_start y = 365 * y + y div 4 - y div 100 + y div 400"

definition year_no :: "int \<Rightarrow> int" where
  "year_no doe = doe - doe div 1460 + doe div 36524 - doe div 146096"

lemma year_start_era: "year_start (400 * e + k) = 146097 * e + year_start k"
  using div_mult_self4 [of 4 "100 * e" k] div_mult_self4 [of 100 "4 * e" k] div_mult_self4 [of 400 e k] by (simp add: year_start_def)

lemma smod_eq_0: "k smod l = 0 \<longleftrightarrow> l dvd k" for k l :: int
  by (auto simp: signed_modulo_int_def sgn_0_0 simp flip: dvd_eq_mod_eq_0)

lemma div_next:
  fixes y n :: int
  assumes "0 < n"
  shows "(y + 1) div n = y div n + (if n dvd y + 1 then 1 else 0)"
proof -
  have y: "y = n * (y div n) + y mod n" "0 \<le> y mod n" "y mod n < n" using assms by simp_all
  show ?thesis
  proof (cases "y mod n = n - 1")
    case True
    then have "y + 1 = n * (y div n) + n" using y(1) by linarith
    then have e: "y + 1 = n * (y div n + 1)" by (simp add: distrib_left)
    then have "n dvd y + 1" by simp
    moreover have "(y + 1) div n = y div n + 1" using assms by (subst e) simp
    ultimately show ?thesis by simp
  next
    case False
    then have "y mod n + 1 < n" using y(3) by linarith
    then have "(y + 1) div n = y div n" "(y + 1) mod n = y mod n + 1"
      using y(1,2) by (auto intro!: int_div_pos_eq [of _ _ _ "y mod n + 1"] int_mod_pos_eq [of _ _ "y div n"])
    then show ?thesis using y(2) by (auto simp: dvd_eq_mod_eq_0)
  qed
qed

lemma year_start_next: "year_start (y + 1) = year_start y + (if is_leap (y + 1) then 366 else 365)"
proof -
  define p q r where "p \<longleftrightarrow> 4 dvd y + 1" and "q \<longleftrightarrow> 100 dvd y + 1" and "r \<longleftrightarrow> 400 dvd y + 1"
  have "q \<longrightarrow> p" using dvd_trans [of 4 100 "y + 1"] by (simp add: p_def q_def)
  moreover have "r \<longrightarrow> q" using dvd_trans [of 100 400 "y + 1"] by (simp add: q_def r_def)
  ultimately have count: "365 * (y + 1) + (a + (if p then 1 else 0)) - (b + (if q then 1 else 0)) + (c + (if r then 1 else 0)) =
      365 * y + a - b + c + (if p \<and> (\<not> q \<or> r) then 366 else 365)" for a b c :: int
    by (cases p; cases q; cases r) simp_all
  have leap: "is_leap (y + 1) \<longleftrightarrow> p \<and> (\<not> q \<or> r)" by (simp only: is_leap_def smod_eq_0 p_def q_def r_def)
  have eqs: "(y + 1) div 4 = y div 4 + (if p then 1 else 0)" "(y + 1) div 100 = y div 100 + (if q then 1 else 0)"
    "(y + 1) div 400 = y div 400 + (if r then 1 else 0)" unfolding p_def q_def r_def by (simp_all only: div_next zero_less_numeral)
  show ?thesis unfolding year_start_def eqs leap by (rule count)
qed

lemma year_start_step: "year_start y + 365 \<le> year_start (y + 1)" "year_start (y + 1) \<le> year_start y + 366"
  by (simp_all add: year_start_next)

lemma year_start_mono: "x < y \<Longrightarrow> year_start (x + 1) \<le> year_start y"
proof (induction "nat (y - x)" arbitrary: y)
  case (Suc n)
  show ?case
  proof (cases "y = x + 1")
    case False
    then have "year_start (x + 1) \<le> year_start (y - 1)" using Suc by (intro Suc(1)) auto
    then show ?thesis using year_start_step(1) [of "y - 1"] by simp
  qed simp
qed simp

lemma year_no_mono:
  assumes "0 \<le> a" "a \<le> b" "b \<le> 146096"
  shows "year_no a \<le> year_no b"
proof -
  have "b div 1460 \<le> (a + (b - a) * 1460) div 1460" using assms(2) by (intro zdiv_mono1) auto
  then have small: "a - a div 1460 \<le> b - b div 1460" by simp
  have "x div 146096 = 0 \<and> x div 36524 \<le> 3" if "0 \<le> x" "x < 146096" for x :: int
    using that zdiv_mono1 [of x 146095 36524] by simp
  moreover have "a div 36524 \<le> b div 36524" using assms(2) by (simp add: zdiv_mono1)
  ultimately show ?thesis using assms small by (cases "a = 146096"; cases "b = 146096") (auto simp: year_no_def)
qed

lemma year_no_table: "\<forall>k\<in>set [0..399]. 365 * k \<le> year_no (year_start k) \<and> year_no (year_start (k + 1) - 1) < 365 * (k + 1)"
  by code_simp

text \<open>The year of a day of the era.\<close>

lemma year_of_era:
  assumes k: "0 \<le> k" "k < 400" and doe: "year_start k \<le> doe" "doe < year_start (k + 1)"
  shows "year_no doe div 365 = k"
proof -
  have tab: "365 * k \<le> year_no (year_start k)" "year_no (year_start (k + 1) - 1) < 365 * (k + 1)" using year_no_table k by auto
  have "year_start 0 = 0" "year_start 400 = 146097" by (simp_all add: year_start_def)
  then have "0 \<le> year_start k" "year_start (k + 1) \<le> 146097"
    using k year_start_mono [of "-1" k] year_start_mono [of k 400] by auto
  then have "year_no (year_start k) \<le> year_no doe" "year_no doe \<le> year_no (year_start (k + 1) - 1)" using doe by (auto intro!: year_no_mono)
  then show ?thesis using tab by (intro int_div_pos_eq [of _ _ _ "year_no doe - 365 * k"]) auto
qed

lemma year_exists: "\<exists>y. year_start y \<le> z \<and> z < year_start (y + 1)"
proof (induction z rule: int_induct [where k = 0])
  case base
  have "year_start 0 \<le> 0 \<and> 0 < year_start (0 + 1)" by (simp add: year_start_def)
  then show ?case ..
next
  case (step1 i)
  then obtain y where y: "year_start y \<le> i" "i < year_start (y + 1)" by blast
  show ?case
  proof (cases "i + 1 < year_start (y + 1)")
    case False
    then have "year_start (y + 1) \<le> i + 1 \<and> i + 1 < year_start (y + 1 + 1)" using y year_start_step(1) [of "y + 1"] by linarith
    then show ?thesis ..
  qed (use y in force)
next
  case (step2 i)
  then obtain y where y: "year_start y \<le> i" "i < year_start (y + 1)" by blast
  show ?case
  proof (cases "year_start y \<le> i - 1")
    case False
    then have "year_start (y - 1) \<le> i - 1 \<and> i - 1 < year_start (y - 1 + 1)" using y year_start_step(1) [of "y - 1"] by simp
    then show ?thesis ..
  qed (use y in force)
qed

section \<open>Months\<close>

text \<open>The months count from March: the first day of a month, and the month and day of a day of the year.\<close>

definition month_start :: "int \<Rightarrow> int" where
  "month_start m = (153 * (if m > 2 then m - 3 else m + 9) + 2) div 5"

definition month_day :: "int \<Rightarrow> int \<times> int" where
  "month_day doy = (let mp = (5 * doy + 2) div 153 in (if mp < 10 then mp + 3 else mp - 9, doy - (153 * mp + 2) div 5 + 1))"

definition month_len :: "int \<Rightarrow> int" where
  "month_len m = (if m = 2 then 29 else if m \<in> {4, 6, 9, 11} then 30 else 31)"

definition dated :: "int \<Rightarrow> int \<times> int \<Rightarrow> date" where
  "dated y md = \<lparr>dyear = y + (if fst md \<le> 2 then 1 else 0), dmonth = fst md, dday = snd md\<rparr>"

lemma month_day_table:
  "\<forall>n\<in>set [0..364]. month_day (n + 1) = (let (m, d) = month_day n in
     if d < month_len m then (m, d + 1) else if m = 12 then (1, 1) else (m + 1, 1))"
  by code_simp

lemma month_day_range:
  "\<forall>n\<in>set [0..365]. (let (m, d) = month_day n in 1 \<le> m \<and> m \<le> 12 \<and> 1 \<le> d \<and> d \<le> month_len m \<and> month_start m + d - 1 = n \<and> (m = 2 \<longrightarrow> d = n - 336) \<and> (m \<noteq> 2 \<longrightarrow> n < 337))"
  by code_simp

lemma month_start_table:
  "\<forall>m\<in>set [1..12]. \<forall>d\<in>set [1..month_len m]. 0 \<le> month_start m + d - 1 \<and> month_start m + d - 1 \<le> 365 \<and> month_day (month_start m + d - 1) = (m, d)"
  by code_simp

lemma last_day_len: "1 \<le> m \<Longrightarrow> m \<le> 12 \<Longrightarrow> last_day y m = (if m = 2 \<and> \<not> is_leap y then 28 else month_len m)"
proof -
  assume "1 \<le> m" "m \<le> 12"
  then have "m \<in> set [1..12]" by simp
  moreover have "\<forall>m\<in>set [1..12]. [31, 28, 31, 30, 31, 30, 31, 31, 30, 31, 30, 31] ! nat (m - 1) = (if m = 2 then 28 else month_len m)" by code_simp
  ultimately show ?thesis by (auto simp: last_day_def month_len_def)
qed

lemma to_short_id: "- (2 ^ 15) \<le> n \<Longrightarrow> n < 2 ^ 15 \<Longrightarrow> to_short n = n"
  by (simp add: to_short_def)

lemma to_uchar_id: "0 \<le> n \<Longrightarrow> n < 2 ^ 8 \<Longrightarrow> to_uchar n = n"
  by (simp add: to_uchar_def)

section \<open>Both conversions by year and day of the year\<close>

definition first_day :: "int \<Rightarrow> int" where
  "first_day y = year_start y - 719468"

lemma to_days_split: "to_days dt = first_day (dyear dt - (if dmonth dt \<le> 2 then 1 else 0)) + month_start (dmonth dt) + dday dt - 1"
proof -
  define y where "y = dyear dt - (if dmonth dt \<le> 2 then 1 else 0)"
  have e: "(if y \<ge> 0 then y else y - 399) sdiv 400 = y div 400" by (rule floor_400)
  have k: "y - y div 400 * 400 = y mod 400" by (simp add: minus_div_mult_eq_mod)
  have "year_start y = 146097 * (y div 400) + year_start (y mod 400)" using year_start_era [of "y div 400" "y mod 400"] by simp
  moreover have "year_start (y mod 400) = (y mod 400) * 365 + (y mod 400) div 4 - (y mod 400) div 100" by (simp add: year_start_def)
  ultimately show ?thesis
    unfolding to_days_def Let_def y_def [symmetric] e k first_day_def month_start_def by simp
qed

lemma from_days_split:
  assumes doy: "0 \<le> doy" "year_start y + doy < year_start (y + 1)" and y: "- 32768 \<le> y" "y < 32767"
  shows "from_days (first_day y + doy) = dated y (month_day doy)"
proof -
  define e k where "e = y div 400" and "k = y mod 400"
  have k: "0 \<le> k" "k < 400" "y = 400 * e + k" by (simp_all add: e_def k_def)
  have ys: "year_start y = 146097 * e + year_start k" "year_start (y + 1) = 146097 * e + year_start (k + 1)"
    using year_start_era [of e k] year_start_era [of e "k + 1"] k(3) by (simp_all add: add.assoc)
  define doe where "doe = year_start k + doy"
  have k0: "0 \<le> year_start k" using year_start_mono [of "-1" k] k by (simp add: year_start_def)
  have "year_start (k + 1) \<le> 146097" using year_start_mono [of k 400] k by (simp add: year_start_def)
  then have doe: "0 \<le> doe" "doe < 146097" using doy ys k0 by (auto simp: doe_def)
  define z where "z = first_day y + doy + 719468"
  have z: "z = 146097 * e + doe" by (simp add: z_def first_day_def ys doe_def)
  have era: "(if z \<ge> 0 then z else z - 146096) sdiv 146097 = e" unfolding floor_era using z doe by (simp add: int_div_pos_eq [of z 146097 e doe])
  have yoe: "year_no doe div 365 = k" using k doy ys by (intro year_of_era) (simp_all add: doe_def)
  have "year_start k = 365 * k + k div 4 - k div 100" using k by (simp add: year_start_def)
  then have doyeq: "doe - (365 * k + k div 4 - k div 100) = doy" by (simp add: doe_def)
  have "doy \<le> 365" using doy year_start_step(2) [of y] by linarith
  then have md: "let (m, d) = month_day doy in 1 \<le> m \<and> m \<le> 12 \<and> 1 \<le> d \<and> d \<le> month_len m" using bspec [OF month_day_range, of doy] doy(1) by (auto simp: Let_def)
  have zz: "z - e * 146097 = doe" by (simp add: z)
  have "from_days (first_day y + doy) = mk_date (k + e * 400 + (if fst (month_day doy) \<le> 2 then 1 else 0)) (fst (month_day doy)) (snd (month_day doy))"
    unfolding from_days_def Let_def z_def [symmetric] era zz year_no_def [symmetric] yoe doyeq month_day_def by simp
  also have "\<dots> = dated y (month_day doy)"
    using md y k(3) by (cases "month_day doy") (auto simp: mk_date_def dated_def to_short_id to_uchar_id month_len_def split: if_splits)
  finally show ?thesis .
qed

section \<open>The conversions are the calendar\<close>

text \<open>Day numbers for which the year fits its 16 bits; nanoseconds in 64 bits reach 106752 days.\<close>

definition day_range :: "int \<Rightarrow> bool" where
  "day_range z \<longleftrightarrow> - 11000000 \<le> z \<and> z \<le> 11000000"

lemma day_of_year:
  assumes "day_range z"
  obtains y doy where "z = first_day y + doy" "0 \<le> doy" "doy \<le> 365" "year_start y + doy < year_start (y + 1)" "- 32700 < y" "y < 32700"
proof -
  obtain y where y: "year_start y \<le> z + 719468" "z + 719468 < year_start (y + 1)" using year_exists by blast
  have "y < 32700"
    using y(1) assms year_start_mono [of 32699 y] by (rule_tac ccontr) (simp add: day_range_def year_start_def not_less)
  moreover have "- 32700 < y"
    using y(2) assms year_start_mono [of y "-32699"] by (rule_tac ccontr) (simp add: day_range_def year_start_def not_less)
  ultimately show thesis
    using y year_start_step(2) [of y] by (intro that [of y "z + 719468 - year_start y"]) (auto simp: first_day_def)
qed

lemma dated_valid:
  assumes "0 \<le> doy" "doy \<le> 365" "year_start y + doy < year_start (y + 1)" "- 32700 < y" "y < 32700"
  shows "valid_date (dated y (month_day doy))" and "to_days (dated y (month_day doy)) = first_day y + doy"
proof -
  obtain m d where md: "month_day doy = (m, d)" by fastforce
  have r: "1 \<le> m" "m \<le> 12" "1 \<le> d" "d \<le> month_len m" "month_start m + d - 1 = doy" "m = 2 \<longrightarrow> d = doy - 336"
    using bspec [OF month_day_range, of doy] assms(1,2) md by (simp_all add: Let_def)
  show "to_days (dated y (month_day doy)) = first_day y + doy" using r(5) by (simp add: to_days_split dated_def md)
  have "m = 2 \<longrightarrow> d = 29 \<longrightarrow> is_leap (y + 1)" using assms(3) r(6) by (auto simp: year_start_next split: if_splits)
  then have "d \<le> last_day (y + (if m \<le> 2 then 1 else 0)) m" using r by (auto simp: last_day_len month_len_def)
  then show "valid_date (dated y (month_day doy))" using r assms by (simp add: valid_date_def dated_def md)
qed

lemma dated_next:
  assumes "0 \<le> doy" "doy \<le> 365" "year_start y + doy < year_start (y + 1)"
  shows "next_day (dated y (month_day doy)) =
    (if year_start y + doy + 1 < year_start (y + 1) then dated y (month_day (doy + 1)) else dated (y + 1) (month_day 0))"
proof -
  obtain m d where md: "month_day doy = (m, d)" by fastforce
  have r: "1 \<le> m" "m \<le> 12" "d \<le> month_len m" "m = 2 \<longrightarrow> d = doy - 336" "m \<noteq> 2 \<longrightarrow> doy < 337"
    using bspec [OF month_day_range, of doy] assms(1,2) md by (simp_all add: Let_def)
  have march: "month_day 0 = (3, 1)" by (simp add: month_day_def)
  have next_md: "month_day (doy + 1) = (if d < month_len m then (m, d + 1) else if m = 12 then (1, 1) else (m + 1, 1))" if "doy \<le> 364"
    using bspec [OF month_day_table, of doy] assms(1) md that by (simp add: Let_def)
  show ?thesis
  proof (cases "m = 2")
    case True
    then have "last_day (y + 1) m = (if is_leap (y + 1) then 29 else 28)" by (simp add: last_day_len month_len_def)
    then show ?thesis using True r(4) assms(3) next_md
      by (auto simp: md march dated_def next_day_def year_start_next month_len_def split: if_splits)
  next
    case False
    then have "year_start y + doy + 1 < year_start (y + 1)" "doy \<le> 364" using r(5) year_start_step(1) [of y] by auto
    moreover have "last_day (y + (if m \<le> 2 then 1 else 0)) m = month_len m" using False r by (simp add: last_day_len)
    ultimately show ?thesis using False r(1-3) next_md
      by (auto simp: md dated_def next_day_def split: if_splits)
  qed
qed

lemma from_to_days:
  assumes "valid_date dt" "- 32700 < dyear dt" "dyear dt < 32700"
  shows "from_days (to_days dt) = dt"
proof -
  define y where "y = dyear dt - (if dmonth dt \<le> 2 then 1 else 0)"
  define doy where "doy = month_start (dmonth dt) + dday dt - 1"
  have v: "1 \<le> dmonth dt" "dmonth dt \<le> 12" "1 \<le> dday dt" "dday dt \<le> last_day (dyear dt) (dmonth dt)" using assms by (simp_all add: valid_date_def)
  then have len: "dday dt \<le> month_len (dmonth dt)" by (auto simp: last_day_len month_len_def split: if_splits)
  then have doy: "0 \<le> doy" "doy \<le> 365" "month_day doy = (dmonth dt, dday dt)"
    using bspec [OF bspec [OF month_start_table, of "dmonth dt"], of "dday dt"] v by (simp_all add: doy_def)
  have r: "dmonth dt = 2 \<longrightarrow> dday dt = doy - 336" "dmonth dt \<noteq> 2 \<longrightarrow> doy < 337"
    using bspec [OF month_day_range, of doy] doy by (simp_all add: Let_def)
  have "year_start y + doy < year_start (y + 1)"
  proof (cases "dmonth dt = 2")
    case True
    then have "dday dt \<le> (if is_leap (y + 1) then 29 else 28)" using v by (simp add: last_day_len month_len_def y_def split: if_splits)
    then show ?thesis using r(1) True by (auto simp: year_start_next)
  next
    case False
    then show ?thesis using r(2) year_start_step(1) [of y] by simp
  qed
  then have "from_days (first_day y + doy) = dated y (month_day doy)" using doy assms by (intro from_days_split) (auto simp: y_def)
  moreover have "to_days dt = first_day y + doy" by (simp add: to_days_split y_def doy_def)
  moreover have "dated y (month_day doy) = dt" by (simp add: doy(3) dated_def y_def)
  ultimately show ?thesis by simp
qed

text \<open>C26. The date of a day number is the one of the Gregorian calendar: day 0 is the first of January 1970, a Thursday; the date of every day in
  the range of the 16-bit years is valid, converts back to its number, and is followed by the next date of the calendar and the next day of
  the week; and every valid date is the date of its number.\<close>
theorem civil_calendar:
  "from_days 0 = \<lparr>dyear = 1970, dmonth = 1, dday = 1\<rparr> \<and> weekday_from_days 0 = 4 \<and>
   (\<forall>z. day_range z \<longrightarrow> valid_date (from_days z) \<and> to_days (from_days z) = z \<and>
      from_days (z + 1) = next_day (from_days z) \<and> weekday_from_days (z + 1) = (weekday_from_days z + 1) mod 7) \<and>
   (\<forall>dt. valid_date dt \<longrightarrow> - 32700 < dyear dt \<longrightarrow> dyear dt < 32700 \<longrightarrow> from_days (to_days dt) = dt)"
proof (intro conjI allI impI)
  fix z
  assume "day_range z"
  then obtain y doy where yd: "z = first_day y + doy" "0 \<le> doy" "doy \<le> 365" "year_start y + doy < year_start (y + 1)" "- 32700 < y" "y < 32700"
    by (rule day_of_year)
  have z: "from_days z = dated y (month_day doy)" using yd by (simp add: from_days_split)
  show "valid_date (from_days z)" "to_days (from_days z) = z" using dated_valid [of doy y] yd z by simp_all
  show "from_days (z + 1) = next_day (from_days z)"
  proof (cases "year_start y + doy + 1 < year_start (y + 1)")
    case True
    then have "from_days (first_day y + (doy + 1)) = dated y (month_day (doy + 1))" using yd by (intro from_days_split) simp_all
    moreover have "next_day (from_days z) = dated y (month_day (doy + 1))" using True yd z dated_next [of doy y] by simp
    ultimately show ?thesis using yd(1) by (simp only: add.assoc)
  next
    case False
    then have "z + 1 = first_day (y + 1)" using yd by (simp add: first_day_def)
    moreover have "from_days (first_day (y + 1)) = dated (y + 1) (month_day 0)"
      using yd from_days_split [of 0 "y + 1"] year_start_step(1) [of "y + 1"] by simp
    moreover have "next_day (from_days z) = dated (y + 1) (month_day 0)" using False yd z dated_next [of doy y] by simp
    ultimately show ?thesis by simp
  qed
  have w: "weekday_from_days x = (x + 4) mod 7" for x
  proof (cases "- 4 \<le> x")
    case False
    have "(x + 5) smod 7 = - (- (x + 5) mod 7)" using False by (simp add: signed_modulo_int_def sgn_if)
    then show ?thesis using False by (simp add: weekday_from_days_def) presburger
  qed (simp add: weekday_from_days_def signed_modulo_int_def sgn_if)
  show "weekday_from_days (z + 1) = (weekday_from_days z + 1) mod 7" unfolding w by (simp add: mod_simps ac_simps)
qed (simp_all add: from_to_days, code_simp+)

theorem civil_calendar_witness:
  "day_range 19782 \<and> from_days 19782 = \<lparr>dyear = 2024, dmonth = 2, dday = 29\<rparr> \<and> from_days (19782 + 1) = next_day (from_days 19782)"
proof -
  have "from_days 19782 = \<lparr>dyear = 2024, dmonth = 2, dday = 29\<rparr>" by code_simp
  moreover have "day_range 19782" by (simp add: day_range_def)
  ultimately show ?thesis using civil_calendar by blast
qed

end
