(* ===== verification/Zone.thy ===== *)
theory Zone
  imports Prelude "HOL-Library.Signed_Division" "HOL-Library.AList"
begin

text \<open>
  Time zones (\<open>src/src/timezone/zone.cpp\<close>, \<open>src/src/timezone/zone.hpp\<close>): the offset of local time at an instant, by binary search and by
  a search that goes on from an earlier position, and the reverse table, which gives the offsets that a local time may have. Times are
  nanoseconds since 1970, transitions are seconds. A zone's tables are read by \<open>tzload\<close>, which is not part of this theory; the arrays of
  the structure are cleared before, so that an entry that was not read is zero.
\<close>

section \<open>Tables of a zone\<close>

record ttinfo =
  tt_gmtoff :: int
  tt_abbrind :: nat

record tzstate =
  ats :: "int list"
  types :: "nat list"
  ttis :: "ttinfo list"
  chars :: string
  defaulttype :: nat

type_synonym rl_map = "(int \<times> nat set) list"

record zone =
  rl :: rl_map
  zstate :: tzstate

definition den :: int where
  "den = 1000000000"

definition TIME_MIN :: int where
  "TIME_MIN = - (2 ^ 63)"

definition TIME_MAX :: int where
  "TIME_MAX = 2 ^ 63 - 1"

definition timecnt :: "tzstate \<Rightarrow> nat" where
  "timecnt s = length (ats s)"

definition ttis_at :: "tzstate \<Rightarrow> nat \<Rightarrow> ttinfo" where
  "ttis_at s i = (if i < length (ttis s) then ttis s ! i else \<lparr>tt_gmtoff = 0, tt_abbrind = 0\<rparr>)"

definition types_at :: "tzstate \<Rightarrow> nat \<Rightarrow> nat" where
  "types_at s i = (if i < length (types s) then types s ! i else 0)"

definition gmtoff :: "tzstate \<Rightarrow> nat \<Rightarrow> int" where
  "gmtoff s i = tt_gmtoff (ttis_at s i)"

definition abbrev :: "tzstate \<Rightarrow> nat \<Rightarrow> string" where
  "abbrev s i = takeWhile (\<lambda>c. c \<noteq> CHR 0x00) (drop (tt_abbrind (ttis_at s i)) (chars s))"

section \<open>Offset at an instant\<close>

text \<open>The binary search. When \<open>middle\<close> is 0 and the first element is above \<open>t\<close>, \<open>last\<close> wraps around and the next element is read outside.\<close>

function bs_loop :: "int list \<Rightarrow> int \<Rightarrow> nat \<Rightarrow> nat \<Rightarrow> nat res" where
  "bs_loop xs t first lst =
     (let middle = (first + lst) div 2 in
      if first \<le> lst then
        if middle \<ge> length xs then Inl UB
        else if xs ! middle < t then bs_loop xs t (middle + 1) lst
        else if xs ! middle = t then Inr middle
        else if middle = 0 then Inl UB
        else bs_loop xs t first (middle - 1)
      else Inr middle)"
  by pat_completeness auto
termination
  by (relation "measure (\<lambda>(xs, t, first, lst). lst + 1 - first)") auto

declare bs_loop.simps [simp del]

definition bs :: "int \<Rightarrow> int list \<Rightarrow> nat \<Rightarrow> nat res" where
  "bs t xs n = (if n = 0 then Inl UB else bs_loop xs t 0 (n - 1))"

definition getoffset :: "zone \<Rightarrow> int \<Rightarrow> (int \<times> string) res" where
  "getoffset z dt =
     (let s = zstate z; d = dt sdiv den in
      if timecnt s \<noteq> 0 \<and> ats s ! 0 < d then
        bindR (bs d (ats s) (timecnt s)) (\<lambda>i. Inr (gmtoff s (types_at s i) * den, abbrev s (types_at s i)))
      else Inr (gmtoff s (defaulttype s) * den, abbrev s (defaulttype s)))"

definition getoffset_pos :: "zone \<Rightarrow> int \<Rightarrow> (int \<times> int) res" where
  "getoffset_pos z dt =
     (let s = zstate z; d = dt sdiv den in
      if timecnt s \<noteq> 0 \<and> d > ats s ! 0 then
        bindR (bs d (ats s) (timecnt s)) (\<lambda>i. Inr (gmtoff s (types_at s i) * den, int i))
      else Inr (gmtoff s (defaulttype s) * den, - 1))"

function pos_up :: "tzstate \<Rightarrow> int \<Rightarrow> nat \<Rightarrow> nat" where
  "pos_up s dt pos = (if pos + 1 < timecnt s \<and> dt > ats s ! (pos + 1) * den then pos_up s dt (pos + 1) else pos)"
  by pat_completeness auto
termination
  by (relation "measure (\<lambda>(s, dt, pos). timecnt s - pos)") auto

declare pos_up.simps [simp del]

fun pos_down :: "tzstate \<Rightarrow> int \<Rightarrow> nat \<Rightarrow> nat" where
  "pos_down s dt 0 = 0"
| "pos_down s dt (Suc p) = (if dt < ats s ! Suc p * den then pos_down s dt p else Suc p)"

text \<open>The search from a position: the offset and the new position; -1 stands for no position.\<close>

definition getoffset_dir :: "zone \<Rightarrow> int \<Rightarrow> int \<Rightarrow> int \<Rightarrow> (int \<times> int) res" where
  "getoffset_dir z dt pos dir =
     (let s = zstate z in
      if pos \<ge> 0 then
        if dir \<ge> 0 then
          let p = pos_up s dt (nat pos) in Inr (gmtoff s (types_at s p) * den, int p)
        else
          let p = pos_down s dt (nat pos) in
          Inr (gmtoff s (if dt > ats s ! p * den then types_at s p else defaulttype s) * den, int p)
      else getoffset_pos z dt)"

section \<open>Offsets of a local time\<close>

definition rl_step :: "tzstate \<Rightarrow> nat \<Rightarrow> nat \<times> rl_map \<Rightarrow> nat \<times> rl_map" where
  "rl_step s i st =
     (case st of (prev, m) \<Rightarrow>
        let cur = types_at s i; a = ats s ! i;
            offsetdiff = gmtoff s cur - gmtoff s prev
        in (cur,
            if offsetdiff > 0 then AList.update (a + gmtoff s cur) {cur} (AList.update (a + gmtoff s prev) {} m)
            else if offsetdiff < 0 then AList.update (a + gmtoff s prev) {cur} (AList.update (a + gmtoff s cur) {prev, cur} m)
            else AList.update (a + gmtoff s cur) {cur} m))"

definition buildRl :: "tzstate \<Rightarrow> rl_map" where
  "buildRl s =
     (let m = AList.update TIME_MIN {defaulttype s} [] in
      if timecnt s = 0 then AList.update TIME_MAX {defaulttype s} m
      else snd (fold (rl_step s) [0..<timecnt s] (defaulttype s, m)))"

definition mk_zone :: "tzstate \<Rightarrow> zone" where
  "mk_zone s = \<lparr>rl = buildRl s, zstate = s\<rparr>"

text \<open>The entry before \<open>upper_bound\<close>: that of the greatest key not above \<open>d\<close>.\<close>

definition rl_floor :: "rl_map \<Rightarrow> int \<Rightarrow> nat set option" where
  "rl_floor m d =
     (let ks = filter (\<lambda>k. k \<le> d) (map fst m) in if ks = [] then None else map_of m (Max (set ks)))"

definition getReverseOffset :: "zone \<Rightarrow> int \<Rightarrow> int set res" where
  "getReverseOffset z dt =
     (case rl_floor (rl z) (dt sdiv den) of
        None \<Rightarrow> Inl UB
      | Some ts \<Rightarrow> Inr ((\<lambda>i. gmtoff (zstate z) i * den) ` ts))"

definition zones_find :: "(string \<Rightarrow> zone option) \<Rightarrow> string \<Rightarrow> zone res" where
  "zones_find m s = (case m s of Some z \<Rightarrow> Inr z | None \<Rightarrow> Inl (RangeError (''can't find timezone '' @ s)))"

section \<open>Reference\<close>

text \<open>The transitions of a zone with the offset that begins there, and the offset at a second: that of the last transition not after it.\<close>

definition transitions :: "tzstate \<Rightarrow> (int \<times> int) list" where
  "transitions s = map (\<lambda>i. (ats s ! i, gmtoff s (types_at s i))) [0..<timecnt s]"

definition offset_in :: "int \<Rightarrow> (int \<times> int) list \<Rightarrow> int \<Rightarrow> int" where
  "offset_in d trs t = fold (\<lambda>(a, o') cur. if a \<le> t then o' else cur) trs d"

definition offset_at :: "tzstate \<Rightarrow> int \<Rightarrow> int" where
  "offset_at s t = offset_in (gmtoff s (defaulttype s)) (transitions s) t"

text \<open>What the tables must satisfy: transitions ascend, and the local times that a transition skips or repeats end before those of the next
  one begin.\<close>

fun spaced :: "int \<Rightarrow> int \<Rightarrow> (int \<times> int) list \<Rightarrow> bool" where
  "spaced hi prev [] = True"
| "spaced hi prev ((a, cur) # trs) = (hi < a + min prev cur \<and> spaced (a + max prev cur) cur trs)"

definition zone_wf :: "tzstate \<Rightarrow> bool" where
  "zone_wf s \<longleftrightarrow> sorted_wrt (<) (ats s) \<and> spaced TIME_MIN (gmtoff s (defaulttype s)) (transitions s)"

text \<open>No transition within a second of the time.\<close>

definition clear_of :: "tzstate \<Rightarrow> int \<Rightarrow> bool" where
  "clear_of s dt \<longleftrightarrow> (\<forall>a\<in>set (ats s). den \<le> \<bar>dt - a * den\<bar>)"

section \<open>Binary search\<close>

lemma bs_loop_ok:
  assumes "sorted_wrt (<) xs" "lst < length xs" "first \<le> lst + 1" "xs ! 0 \<le> t"
    and "\<forall>j<first. xs ! j < t" "\<forall>j. lst < j \<longrightarrow> j < length xs \<longrightarrow> t < xs ! j"
  shows "\<exists>i<length xs. bs_loop xs t first lst = Inr i \<and> xs ! i \<le> t \<and> (\<forall>j. i < j \<longrightarrow> j < length xs \<longrightarrow> t < xs ! j)"
  using assms
proof (induction xs t first lst rule: bs_loop.induct)
  case (1 xs t first lst)
  define middle where "middle = (first + lst) div 2"
  have mono: "xs ! i < xs ! j" if "i < j" "j < length xs" for i j using 1(3) that by (simp add: sorted_wrt_nth_less)
  show ?case
  proof (cases "first \<le> lst")
    case False
    then have "first = lst + 1" using 1(5) by simp
    then have "middle = lst" "xs ! lst < t" using 1(7) by (simp_all add: middle_def)
    then show ?thesis using False 1(4,8) by (subst bs_loop.simps) (auto simp: middle_def [symmetric] Let_def)
  next
    case True
    then have m: "middle < length xs" "first \<le> middle" "middle \<le> lst" using 1(4) by (auto simp: middle_def)
    consider "xs ! middle < t" | "xs ! middle = t" | "t < xs ! middle" by linarith
    then show ?thesis
    proof cases
      case 1
      then have below: "\<forall>j<middle + 1. xs ! j < t" using mono m(1) by (metis (no_types) Suc_eq_plus1 less_SucE order.strict_trans)
      have "\<exists>i<length xs. bs_loop xs t (middle + 1) lst = Inr i \<and> xs ! i \<le> t \<and> (\<forall>j. i < j \<longrightarrow> j < length xs \<longrightarrow> t < xs ! j)"
        using "1.IH"(1) [OF middle_def True _ 1] m 1 below "1.prems" by simp
      then show ?thesis using True m 1 by (subst bs_loop.simps) (simp add: middle_def [symmetric] Let_def)
    next
      case 2
      then show ?thesis using True m mono by (subst bs_loop.simps) (auto simp: middle_def [symmetric] Let_def)
    next
      case 3
      have m0: "middle \<noteq> 0" using 3 "1.prems"(4) by (intro notI) simp
      have above: "t < xs ! j" if "middle - 1 < j" "j < length xs" for j
      proof -
        have "j = middle \<or> middle < j" using that m0 by linarith
        then show ?thesis using 3 mono [of middle j] that by auto
      qed
      have "\<exists>i<length xs. bs_loop xs t first (middle - 1) = Inr i \<and> xs ! i \<le> t \<and> (\<forall>j. i < j \<longrightarrow> j < length xs \<longrightarrow> t < xs ! j)"
        using "1.IH"(2) [OF middle_def True] m 3 m0 above "1.prems" by simp
      then show ?thesis using True m m0 3 by (subst bs_loop.simps) (simp add: middle_def [symmetric] Let_def)
    qed
  qed
qed

lemma bs_ok:
  assumes "sorted_wrt (<) xs" "xs \<noteq> []" "xs ! 0 \<le> t"
  shows "\<exists>i<length xs. bs t xs (length xs) = Inr i \<and> xs ! i \<le> t \<and> (\<forall>j. i < j \<longrightarrow> j < length xs \<longrightarrow> t < xs ! j)"
proof -
  have "\<forall>j. length xs - 1 < j \<longrightarrow> j < length xs \<longrightarrow> t < xs ! j" by auto
  then show ?thesis using assms bs_loop_ok [of xs "length xs - 1" 0 t] by (simp add: bs_def)
qed

section \<open>The offset at an instant\<close>

lemma offset_in_later: "\<forall>(a, c)\<in>set trs. t < a \<Longrightarrow> offset_in d trs t = d"
  unfolding offset_in_def by (induction trs) auto

lemma offset_in_append: "offset_in d (trs @ us) t = offset_in (offset_in d trs t) us t"
  by (simp add: offset_in_def)

lemma offset_at_index:
  assumes "i < timecnt s" "ats s ! i \<le> t" "\<forall>j. i < j \<longrightarrow> j < timecnt s \<longrightarrow> t < ats s ! j"
  shows "offset_at s t = gmtoff s (types_at s i)"
proof -
  have "[0..<timecnt s] = [0..<i] @ i # [Suc i..<timecnt s]" using assms(1) by (metis le_add_same_cancel1 less_imp_add_positive less_imp_le_nat upt_add_eq_append upt_conv_Cons zero_le)
  then show ?thesis using assms(2,3)
    by (simp add: offset_at_def transitions_def offset_in_append) (simp add: offset_in_def [of _ "_ # _"] offset_in_later flip: offset_in_def)
qed

lemma offset_at_default: "\<forall>j<timecnt s. t < ats s ! j \<Longrightarrow> offset_at s t = gmtoff s (defaulttype s)"
  by (auto simp: offset_at_def transitions_def intro!: offset_in_later)

lemma clear_index: "clear_of s dt \<Longrightarrow> j < timecnt s \<Longrightarrow> den \<le> \<bar>dt - ats s ! j * den\<bar>"
  by (simp add: clear_of_def timecnt_def)

text \<open>Away from the transitions, comparing nanoseconds, truncated seconds and whole seconds is the same.\<close>

lemma sdiv_le: "dt \<le> k * den \<Longrightarrow> dt sdiv den \<le> k" and le_sdiv: "k * den \<le> dt \<Longrightarrow> k \<le> dt sdiv den"
proof -
  assume *: "dt \<le> k * den"
  show "dt sdiv den \<le> k"
  proof (cases "den dvd dt")
    case True
    then have "dt = dt div den * den" by simp
    then show ?thesis using * True by (simp add: signed_divide_int_eq_divide_int den_def)
  next
    case False
    then have "dt < k * den" using * by (metis dvd_triv_right order_le_less)
    then have "dt div den < k" by (simp add: den_def)
    then show ?thesis by (simp add: signed_divide_int_eq_divide_int)
  qed
next
  assume "k * den \<le> dt"
  then have "k \<le> dt div den" by (simp add: den_def)
  then show "k \<le> dt sdiv den" by (simp add: signed_divide_int_eq_divide_int)
qed

lemma clear_compare:
  assumes "den \<le> \<bar>dt - a * den\<bar>"
  shows "a < dt sdiv den \<longleftrightarrow> a * den < dt" and "a \<le> dt sdiv den \<longleftrightarrow> a * den < dt" and "a \<le> dt div den \<longleftrightarrow> a * den < dt"
    and "dt < a * den \<longleftrightarrow> \<not> a * den < dt"
proof -
  have den: "0 < den" by (simp add: den_def)
  consider "(a + 1) * den \<le> dt" | "dt \<le> (a - 1) * den" using assms by (fastforce simp: algebra_simps abs_if split: if_splits)
  then have "(a < dt sdiv den \<longleftrightarrow> a * den < dt) \<and> (a \<le> dt sdiv den \<longleftrightarrow> a * den < dt) \<and> (a \<le> dt div den \<longleftrightarrow> a * den < dt) \<and> (dt < a * den \<longleftrightarrow> \<not> a * den < dt)"
  proof cases
    case 1
    then have "a + 1 \<le> dt sdiv den" "a + 1 \<le> dt div den" "a * den < dt" using le_sdiv [OF 1] den by (auto simp: den_def algebra_simps)
    then show ?thesis by auto
  next
    case 2
    then have "dt sdiv den \<le> a - 1" "dt div den < a" "dt < a * den" using sdiv_le [OF 2] den by (auto simp: den_def algebra_simps)
    then show ?thesis by auto
  qed
  then show "a < dt sdiv den \<longleftrightarrow> a * den < dt" "a \<le> dt sdiv den \<longleftrightarrow> a * den < dt" "a \<le> dt div den \<longleftrightarrow> a * den < dt" "dt < a * den \<longleftrightarrow> \<not> a * den < dt"
    by blast+
qed

lemma clear_offset_at:
  assumes "clear_of s dt"
  shows "offset_at s (dt div den) = offset_at s (dt sdiv den)"
proof -
  have "(a \<le> dt div den) = (a \<le> dt sdiv den)" if "a \<in> set (ats s)" for a
    using assms that clear_compare [of dt a] by (simp add: clear_of_def)
  then show ?thesis unfolding offset_at_def offset_in_def transitions_def
    by (intro fold_cong) (auto simp: timecnt_def)
qed

text \<open>The last transition before a time.\<close>

definition last_before :: "tzstate \<Rightarrow> int \<Rightarrow> int \<Rightarrow> bool" where
  "last_before s dt pos \<longleftrightarrow>
     (if pos < 0 then pos = - 1 \<and> (\<forall>j<timecnt s. dt < ats s ! j * den)
      else nat pos < timecnt s \<and> ats s ! nat pos * den < dt \<and> (\<forall>j. nat pos < j \<longrightarrow> j < timecnt s \<longrightarrow> dt < ats s ! j * den))"

definition type_at :: "tzstate \<Rightarrow> int \<Rightarrow> nat" where
  "type_at s pos = (if pos < 0 then defaulttype s else types_at s (nat pos))"

lemma last_before_offset:
  assumes "clear_of s dt" "last_before s dt pos"
  shows "gmtoff s (type_at s pos) = offset_at s (dt div den)"
proof -
  have c: "a \<le> dt div den \<longleftrightarrow> a * den < dt" "dt < a * den \<longleftrightarrow> \<not> a * den < dt" if "a \<in> set (ats s)" for a
    using assms(1) that clear_compare [of dt a] by (simp_all add: clear_of_def)
  show ?thesis
  proof (cases "pos < 0")
    case True
    then have "\<forall>j<timecnt s. dt div den < ats s ! j" using assms(2) c by (force simp: last_before_def timecnt_def not_le [symmetric])
    then show ?thesis using True by (simp add: offset_at_default type_at_def)
  next
    case False
    then have "nat pos < timecnt s" "ats s ! nat pos \<le> dt div den" "\<forall>j. nat pos < j \<longrightarrow> j < timecnt s \<longrightarrow> dt div den < ats s ! j"
      using assms(2) c by (auto simp: last_before_def timecnt_def not_le [symmetric])
    then show ?thesis using False offset_at_index [of "nat pos" s] by (simp add: type_at_def)
  qed
qed

lemma getoffset_pos_ok:
  assumes "zone_wf (zstate z)" "clear_of (zstate z) dt"
  shows "\<exists>pos. getoffset_pos z dt = Inr (gmtoff (zstate z) (type_at (zstate z) pos) * den, pos) \<and> last_before (zstate z) dt pos \<and>
    getoffset z dt = Inr (gmtoff (zstate z) (type_at (zstate z) pos) * den, abbrev (zstate z) (type_at (zstate z) pos))"
proof -
  define s where "s = zstate z"
  have srt: "sorted_wrt (<) (ats s)" using assms(1) by (simp add: zone_wf_def s_def)
  have c: "a < dt sdiv den \<longleftrightarrow> a * den < dt" "a \<le> dt sdiv den \<longleftrightarrow> a * den < dt" "dt < a * den \<longleftrightarrow> \<not> a * den < dt" if "a \<in> set (ats s)" for a
    using assms(2) that clear_compare [of dt a] by (simp_all add: clear_of_def s_def)
  show ?thesis
  proof (cases "timecnt s \<noteq> 0 \<and> ats s ! 0 < dt sdiv den")
    case True
    then obtain i where i: "i < length (ats s)" "bs (dt sdiv den) (ats s) (length (ats s)) = Inr i" "ats s ! i \<le> dt sdiv den"
        "\<forall>j. i < j \<longrightarrow> j < length (ats s) \<longrightarrow> dt sdiv den < ats s ! j"
      using bs_ok [OF srt, of "dt sdiv den"] by (auto simp: timecnt_def)
    have "last_before s dt (int i)" using i(1,3,4) c by (auto simp: last_before_def timecnt_def not_le [symmetric])
    moreover have "type_at s (int i) = types_at s i" by (simp add: type_at_def)
    ultimately show ?thesis using True i(2) by (intro exI [of _ "int i"]) (simp add: getoffset_pos_def getoffset_def s_def [symmetric] timecnt_def Let_def)
  next
    case False
    have "dt < ats s ! j * den" if j: "j < timecnt s" for j
    proof -
      have "ats s ! 0 \<le> ats s ! j" using srt j by (cases j) (auto simp: sorted_wrt_iff_nth_less timecnt_def less_imp_le)
      then show ?thesis using False j c(1) [of "ats s ! 0"] c(3) [of "ats s ! j"] c(1) [of "ats s ! j"] by (auto simp: timecnt_def)
    qed
    then have "last_before s dt (- 1)" by (simp add: last_before_def)
    then show ?thesis using False by (intro exI [of _ "- 1"]) (auto simp: getoffset_pos_def getoffset_def s_def [symmetric] Let_def type_at_def)
  qed
qed

lemma pos_up_ok: "pos < timecnt s \<Longrightarrow> ats s ! pos * den < dt \<Longrightarrow>
    pos_up s dt pos < timecnt s \<and> ats s ! pos_up s dt pos * den < dt \<and> (Suc (pos_up s dt pos) < timecnt s \<longrightarrow> dt \<le> ats s ! Suc (pos_up s dt pos) * den)"
proof (induction s dt pos rule: pos_up.induct)
  case (1 s dt pos)
  then show ?case by (cases "pos + 1 < timecnt s \<and> ats s ! (pos + 1) * den < dt") (simp_all add: pos_up.simps [of s dt pos], auto)
qed

lemma pos_down_ok: "pos_down s dt pos \<le> pos \<and> (pos_down s dt pos = 0 \<or> ats s ! pos_down s dt pos * den \<le> dt) \<and>
    (\<forall>j. pos_down s dt pos < j \<longrightarrow> j \<le> pos \<longrightarrow> dt < ats s ! j * den)"
  by (induction pos) (auto simp: le_Suc_eq)

lemma getoffset_dir_ok:
  fixes z dt dt0
  defines "s \<equiv> zstate z"
  assumes wf: "zone_wf s" and clr: "clear_of s dt" and pos: "last_before s dt0 pos"
  shows "dt0 \<le> dt \<Longrightarrow> \<exists>pos'. getoffset_dir z dt pos 1 = Inr (offset_at s (dt div den) * den, pos') \<and> last_before s dt pos'"
    and "dt \<le> dt0 \<Longrightarrow> \<exists>pos'. getoffset_dir z dt pos (- 1) = Inr (offset_at s (dt div den) * den, pos')"
proof -
  have mono: "ats s ! i < ats s ! j" if "i < j" "j < timecnt s" for i j using wf that by (simp add: zone_wf_def sorted_wrt_nth_less timecnt_def)
  have c: "dt < ats s ! j * den \<longleftrightarrow> \<not> ats s ! j * den < dt" if "j < timecnt s" for j
    using clr that clear_compare(4) [of dt "ats s ! j"] by (simp add: clear_index)
  obtain fresh where fresh: "getoffset_pos z dt = Inr (offset_at s (dt div den) * den, fresh)" "last_before s dt fresh"
    using getoffset_pos_ok [of z dt] wf clr last_before_offset [of s dt] by (auto simp: s_def)
  show "\<exists>pos'. getoffset_dir z dt pos 1 = Inr (offset_at s (dt div den) * den, pos') \<and> last_before s dt pos'" if le: "dt0 \<le> dt"
  proof (cases "pos < 0")
    case False
    define p where "p = pos_up s dt (nat pos)"
    have up: "p < timecnt s" "ats s ! p * den < dt" "Suc p < timecnt s \<longrightarrow> dt \<le> ats s ! Suc p * den"
      using pos_up_ok [of "nat pos" s dt] pos False le by (auto simp: last_before_def p_def)
    have "dt < ats s ! j * den" if j: "p < j" "j < timecnt s" for j
    proof -
      have "dt < ats s ! Suc p * den" using up(3) c [of "Suc p"] j by auto
      moreover have "ats s ! Suc p \<le> ats s ! j" using mono [of "Suc p" j] j by (cases "j = Suc p") auto
      ultimately show ?thesis using c [OF j(2)] by (smt (verit) den_def mult_right_mono zero_le_numeral)
    qed
    then have lb: "last_before s dt (int p)" using up by (simp add: last_before_def)
    then have "gmtoff s (types_at s p) = offset_at s (dt div den)" using last_before_offset [OF clr, of "int p"] by (simp add: type_at_def)
    then show ?thesis using False lb by (intro exI [of _ "int p"]) (simp add: getoffset_dir_def s_def [symmetric] p_def [symmetric] Let_def)
  qed (use fresh in \<open>simp add: getoffset_dir_def\<close>)
  show "\<exists>pos'. getoffset_dir z dt pos (- 1) = Inr (offset_at s (dt div den) * den, pos')" if le: "dt \<le> dt0"
  proof (cases "pos < 0")
    case False
    define p where "p = pos_down s dt (nat pos)"
    have down: "p \<le> nat pos" "p = 0 \<or> ats s ! p * den \<le> dt" "\<forall>j. p < j \<longrightarrow> j \<le> nat pos \<longrightarrow> dt < ats s ! j * den"
      using pos_down_ok [of s dt "nat pos"] by (simp_all add: p_def)
    have lt: "p < timecnt s" using down(1) pos False by (simp add: last_before_def)
    have later: "dt < ats s ! j * den" if "p < j" "j < timecnt s" for j
    proof (cases "j \<le> nat pos")
      case after: False
      then have "dt0 < ats s ! j * den" using pos False that by (simp add: last_before_def)
      then show ?thesis using le by linarith
    qed (use that down(3) in simp)
    have "gmtoff s (if dt > ats s ! p * den then types_at s p else defaulttype s) = offset_at s (dt div den)"
    proof (cases "dt > ats s ! p * den")
      case True
      then show ?thesis using last_before_offset [OF clr, of "int p"] later lt by (simp add: type_at_def last_before_def)
    next
      case f: False
      then have "p = 0" "dt < ats s ! 0 * den" using down(2) c [OF lt] by auto
      then have "\<forall>j<timecnt s. dt < ats s ! j * den" using later by (metis neq0_conv)
      then show ?thesis using f last_before_offset [OF clr, of "- 1"] by (simp add: type_at_def last_before_def)
    qed
    then show ?thesis using False
      by (intro exI [of _ "int p"]) (simp add: getoffset_dir_def s_def [symmetric] p_def [symmetric] Let_def split: if_splits)
  qed (use fresh in \<open>simp add: getoffset_dir_def\<close>)
qed

section \<open>The offsets of a local time\<close>

text \<open>The offsets with which a local time is the local time of some instant.\<close>

definition local_offsets :: "int \<Rightarrow> (int \<times> int) list \<Rightarrow> int \<Rightarrow> int set" where
  "local_offsets d trs l = {c. offset_in d trs (l - c) = c}"

lemma rl_floor_update:
  assumes "\<forall>k\<in>fst ` set m. k < key"
  shows "rl_floor (AList.update key v m) l = (if key \<le> l then Some v else rl_floor m l)"
proof -
  have new: "AList.update key v m = m @ [(key, v)]" using assms by (induction m) auto
  show ?thesis
  proof (cases "key \<le> l")
    case True
    have "Max (insert key {k \<in> fst ` set m. k \<le> l}) = key" using assms by (intro Max_eqI) auto
    moreover have "map_of m key = None" using assms by (force simp: map_of_eq_None_iff)
    ultimately show ?thesis using True by (simp add: new rl_floor_def Let_def map_add_def)
  next
    case False
    define ks where "ks = filter (\<lambda>k. k \<le> l) (map fst m)"
    have "map_of (m @ [(key, v)]) (Max (set ks)) = map_of m (Max (set ks))" if "ks \<noteq> []"
    proof -
      have "Max (set ks) \<in> set ks" using that by (intro Max_in) auto
      then obtain w where "map_of m (Max (set ks)) = Some w" by (auto simp: ks_def dest: weak_map_of_SomeI)
      then show ?thesis using False \<open>Max (set ks) \<in> set ks\<close> by (auto simp: map_add_def ks_def)
    qed
    then show ?thesis using False by (simp add: new rl_floor_def Let_def flip: ks_def)
  qed
qed

lemma rl_floor_update2:
  assumes "\<forall>k\<in>fst ` set m. k < k1" "k1 < k2"
  shows "rl_floor (AList.update k2 v2 (AList.update k1 v1 m)) l = (if k2 \<le> l then Some v2 else if k1 \<le> l then Some v1 else rl_floor m l)"
proof -
  have "\<forall>k\<in>fst ` set (AList.update k1 v1 m). k < k2" using assms by (auto simp: dom_update)
  then show ?thesis using assms by (simp add: rl_floor_update)
qed

lemma offset_in_snoc: "offset_in d (trs @ [(a, c)]) t = (if a \<le> t then c else offset_in d trs t)"
  by (simp add: offset_in_def)

text \<open>A further transition: the local times before it keep their offsets, and those from its end on have the new one.\<close>

lemma local_offsets_snoc:
  assumes last: "\<forall>t\<ge>a. offset_in d trs t = prev" and upper: "\<forall>l\<ge>hi. local_offsets d trs l = {prev}"
    and hi: "hi \<le> a + min prev c"
  shows "local_offsets d (trs @ [(a, c)]) l =
    (if l < a + min prev c then local_offsets d trs l else if l < a + max prev c then (if c < prev then {prev, c} else {}) else {c})"
proof -
  have split: "local_offsets d (trs @ [(a, c)]) l = {e. e = c \<and> a \<le> l - c} \<union> {e. l - e < a \<and> e \<in> local_offsets d trs l}"
    by (auto simp: local_offsets_def offset_in_snoc split: if_splits)
  show ?thesis
  proof (cases "hi \<le> l")
    case True
    then have "{e. l - e < a \<and> e \<in> local_offsets d trs l} = (if l < a + prev then {prev} else {})" using upper by auto
    then show ?thesis unfolding split using True upper hi by (auto simp: min_def max_def split: if_splits)
  next
    case False
    have "l - e < a" if "e \<in> local_offsets d trs l" for e
    proof (rule ccontr)
      assume "\<not> l - e < a"
      then have "e = prev" "a + e \<le> l" using last that by (auto simp: local_offsets_def)
      then show False using False hi by (auto simp: min_def split: if_splits)
    qed
    then have "{e. l - e < a \<and> e \<in> local_offsets d trs l} = local_offsets d trs l" by blast
    moreover have "{e. e = c \<and> a \<le> l - c} = {}" using False hi by (auto simp: min_def split: if_splits)
    ultimately show ?thesis unfolding split using False hi by auto
  qed
qed

text \<open>The table after some transitions.\<close>

definition rl_ok :: "tzstate \<Rightarrow> (int \<times> int) list \<Rightarrow> int \<Rightarrow> nat \<times> rl_map \<Rightarrow> bool" where
  "rl_ok s trs hi st \<longleftrightarrow>
     (let d = gmtoff s (defaulttype s); prev = fst st; m = snd st in
      (\<forall>l\<ge>TIME_MIN. \<exists>ts. rl_floor m l = Some ts \<and> gmtoff s ` ts = local_offsets d trs l) \<and>
      (\<forall>l\<ge>hi. local_offsets d trs l = {gmtoff s prev}) \<and> (\<forall>k\<in>fst ` set m. k \<le> hi) \<and> TIME_MIN \<le> hi)"

lemma rl_step_ok:
  assumes ok: "rl_ok s trs hi (prev, m)" and last: "\<forall>t\<ge>ats s ! i. offset_in (gmtoff s (defaulttype s)) trs t = gmtoff s prev"
    and c: "c = gmtoff s (types_at s i)" and hi: "hi < ats s ! i + min (gmtoff s prev) c"
  shows "rl_ok s (trs @ [(ats s ! i, c)]) (ats s ! i + max (gmtoff s prev) c) (rl_step s i (prev, m))"
proof -
  define d a p where "d = gmtoff s (defaulttype s)" and "a = ats s ! i" and "p = gmtoff s prev"
  have old: "\<forall>l\<ge>TIME_MIN. \<exists>ts. rl_floor m l = Some ts \<and> gmtoff s ` ts = local_offsets d trs l" "\<forall>l\<ge>hi. local_offsets d trs l = {p}"
    "\<forall>k\<in>fst ` set m. k \<le> hi" "TIME_MIN \<le> hi" using ok by (simp_all add: rl_ok_def Let_def d_def p_def)
  have lo: "local_offsets d (trs @ [(a, c)]) l =
      (if l < a + min p c then local_offsets d trs l else if l < a + max p c then (if c < p then {p, c} else {}) else {c})" for l
    using last old(2) hi by (intro local_offsets_snoc) (auto simp: d_def a_def p_def)
  obtain m' where m': "rl_step s i (prev, m) = (types_at s i, m')" by (simp add: rl_step_def Let_def)
  have keys: "\<forall>k\<in>fst ` set m. k < a + min p c" using old(3) hi by (force simp: a_def p_def)
  have m'_def: "m' = (if p < c then AList.update (a + c) {types_at s i} (AList.update (a + p) {} m)
      else if c < p then AList.update (a + p) {types_at s i} (AList.update (a + c) {prev, types_at s i} m)
      else AList.update (a + c) {types_at s i} m)"
    using m' by (simp add: rl_step_def Let_def a_def p_def c split: if_splits)
  have upd: "fst ` set (AList.update k v n) = insert k (fst ` set n)" for k :: int and v :: "nat set" and n by (simp add: dom_update)
  have "\<exists>ts. rl_floor m' l = Some ts \<and> gmtoff s ` ts = local_offsets d (trs @ [(a, c)]) l" if l: "TIME_MIN \<le> l" for l
  proof -
    obtain ts where ts: "rl_floor m l = Some ts" "gmtoff s ` ts = local_offsets d trs l" using old(1) l by blast
    consider "p < c" | "c < p" | "c = p" by linarith
    then show ?thesis
    proof cases
      case 1
      then have "rl_floor m' l = (if a + c \<le> l then Some {types_at s i} else if a + p \<le> l then Some {} else rl_floor m l)" using keys by (simp add: m'_def rl_floor_update2 min_def)
      then show ?thesis using 1 ts by (auto simp: lo min_def max_def simp flip: c)
    next
      case 2
      then have "rl_floor m' l = (if a + p \<le> l then Some {types_at s i} else if a + c \<le> l then Some {prev, types_at s i} else rl_floor m l)" using keys by (simp add: m'_def rl_floor_update2 min_def)
      then show ?thesis using 2 ts by (auto simp: lo min_def max_def simp flip: c p_def)
    next
      case 3
      then have "rl_floor m' l = (if a + c \<le> l then Some {types_at s i} else rl_floor m l)" using keys by (simp add: m'_def rl_floor_update)
      then show ?thesis using 3 ts lo [of l] by (auto simp flip: c)
    qed
  qed
  moreover have "\<forall>k\<in>fst ` set m'. k \<le> a + max p c"
  proof
    fix k
    assume "k \<in> fst ` set m'"
    then have "k = a + p \<or> k = a + c \<or> k \<in> fst ` set m" unfolding m'_def by (simp only: upd split: if_splits) blast+
    then show "k \<le> a + max p c" using keys by (auto simp: min_def max_def split: if_splits)
  qed
  ultimately show ?thesis using lo old(4) hi by (auto simp: rl_ok_def Let_def m' c d_def a_def p_def)
qed

lemma rl_fold_ok:
  assumes wf: "zone_wf s" and n: "n \<le> timecnt s"
  shows "\<exists>hi prev m. fold (rl_step s) [0..<n] (defaulttype s, AList.update TIME_MIN {defaulttype s} []) = (prev, m) \<and>
    rl_ok s (take n (transitions s)) hi (prev, m) \<and> spaced hi (gmtoff s prev) (drop n (transitions s)) \<and>
    (\<forall>t. (\<forall>j<n. ats s ! j \<le> t) \<longrightarrow> offset_in (gmtoff s (defaulttype s)) (take n (transitions s)) t = gmtoff s prev)"
  using n
proof (induction n)
  case 0
  have "rl_ok s [] TIME_MIN (defaulttype s, [(TIME_MIN, {defaulttype s})])"
    by (auto simp: rl_ok_def rl_floor_def local_offsets_def offset_in_def)
  then show ?case using wf by (auto simp: zone_wf_def offset_in_def)
next
  case (Suc n)
  then obtain hi prev m where ih: "fold (rl_step s) [0..<n] (defaulttype s, AList.update TIME_MIN {defaulttype s} []) = (prev, m)"
    "rl_ok s (take n (transitions s)) hi (prev, m)" "spaced hi (gmtoff s prev) (drop n (transitions s))"
    "\<forall>t. (\<forall>j<n. ats s ! j \<le> t) \<longrightarrow> offset_in (gmtoff s (defaulttype s)) (take n (transitions s)) t = gmtoff s prev" by force
  define c where "c = gmtoff s (types_at s n)"
  have len: "n < length (transitions s)" "transitions s ! n = (ats s ! n, c)" using Suc(2) by (simp_all add: transitions_def c_def)
  have t: "take (Suc n) (transitions s) = take n (transitions s) @ [(ats s ! n, c)]" using len by (simp add: take_Suc_conv_app_nth)
  have dr: "drop n (transitions s) = (ats s ! n, c) # drop (Suc n) (transitions s)" using len by (metis Cons_nth_drop_Suc)
  have asc: "ats s ! j < ats s ! n" if "j < n" for j using wf that Suc(2) by (simp add: zone_wf_def sorted_wrt_nth_less timecnt_def)
  have "rl_ok s (take (Suc n) (transitions s)) (ats s ! n + max (gmtoff s prev) c) (rl_step s n (prev, m))"
    unfolding t using ih(2-4) dr asc by (intro rl_step_ok) (force simp: c_def)+
  moreover obtain m' where "rl_step s n (prev, m) = (types_at s n, m')" by (simp add: rl_step_def Let_def)
  moreover have "spaced (ats s ! n + max (gmtoff s prev) c) c (drop (Suc n) (transitions s))" using ih(3) dr by simp
  ultimately show ?case using ih(1)
    by (intro exI [of _ "ats s ! n + max (gmtoff s prev) c"] exI [of _ "types_at s n"] exI [of _ m'])
      (auto simp: t offset_in_snoc c_def)
qed

lemma buildRl_ok:
  assumes "zone_wf s" "TIME_MIN \<le> l"
  shows "\<exists>ts. rl_floor (buildRl s) l = Some ts \<and> gmtoff s ` ts = {c. offset_at s (l - c) = c}"
proof (cases "timecnt s = 0")
  case True
  then have "transitions s = []" by (simp add: transitions_def)
  moreover have "rl_floor (buildRl s) l = Some {defaulttype s}"
    using True assms(2) by (auto simp: buildRl_def rl_floor_def TIME_MIN_def TIME_MAX_def Let_def max_def)
  ultimately show ?thesis by (auto simp: offset_at_def offset_in_def)
next
  case False
  obtain hi prev m where "fold (rl_step s) [0..<timecnt s] (defaulttype s, AList.update TIME_MIN {defaulttype s} []) = (prev, m)"
    "rl_ok s (take (timecnt s) (transitions s)) hi (prev, m)" using rl_fold_ok [OF assms(1) order_refl] by blast
  moreover have "take (timecnt s) (transitions s) = transitions s" by (simp add: transitions_def)
  ultimately show ?thesis using False assms(2) by (simp add: buildRl_def rl_ok_def Let_def local_offsets_def offset_at_def)
qed

text \<open>C27. At a time that is not within a second of a transition, the binary search and the searches that go on forwards or backwards from the
  position of an earlier, respectively later, time all give the offset of the last transition before the time.\<close>
theorem getoffset_correct:
  fixes z dt
  defines "s \<equiv> zstate z"
  assumes wf: "zone_wf s" and clr: "clear_of s dt"
  shows "(\<exists>a. getoffset z dt = Inr (offset_at s (dt div den) * den, a)) \<and>
    (\<exists>pos. getoffset_pos z dt = Inr (offset_at s (dt div den) * den, pos) \<and> last_before s dt pos) \<and>
    (\<forall>dt0 pos. last_before s dt0 pos \<longrightarrow>
      (dt0 \<le> dt \<longrightarrow> (\<exists>pos'. getoffset_dir z dt pos 1 = Inr (offset_at s (dt div den) * den, pos') \<and> last_before s dt pos')) \<and>
      (dt \<le> dt0 \<longrightarrow> (\<exists>pos'. getoffset_dir z dt pos (- 1) = Inr (offset_at s (dt div den) * den, pos'))))"
  using getoffset_pos_ok [of z dt] getoffset_dir_ok [of z dt] last_before_offset [of s dt] wf clr unfolding s_def by fastforce

text \<open>The reverse table gives exactly the offsets with which a local time is the local time of some instant: none for a time that a
  transition skips, two for one that it repeats.\<close>
theorem reverse_offset_exact:
  assumes "zone_wf s" "TIME_MIN \<le> dt sdiv den"
  shows "getReverseOffset (mk_zone s) dt = Inr ((\<lambda>c. c * den) ` {c. offset_at s (dt sdiv den - c) = c})"
proof -
  obtain ts where "rl_floor (buildRl s) (dt sdiv den) = Some ts" "gmtoff s ` ts = {c. offset_at s (dt sdiv den - c) = c}" using buildRl_ok [OF assms] by blast
  then show ?thesis by (auto simp: getReverseOffset_def mk_zone_def image_image simp flip: image_image [of "\<lambda>c. c * den" "gmtoff s"])
qed

section \<open>Examples\<close>

text \<open>A zone with a step forwards by an hour and a step back.\<close>

definition zone_example :: tzstate where
  "zone_example = \<lparr>ats = [1000000, 20000000], types = [1, 0], ttis = [\<lparr>tt_gmtoff = 3600, tt_abbrind = 0\<rparr>, \<lparr>tt_gmtoff = 7200, tt_abbrind = 4\<rparr>],
     chars = ''CET'' @ [CHR 0x00] @ ''CEST'' @ [CHR 0x00], defaulttype = 0\<rparr>"

lemma zone_example_wf: "zone_wf zone_example"
  by code_simp

theorem getoffset_correct_witness:
  "zone_wf (zstate (mk_zone zone_example)) \<and> clear_of (zstate (mk_zone zone_example)) (5000000 * den) \<and>
   (\<exists>a. getoffset (mk_zone zone_example) (5000000 * den) = Inr (7200 * den, a))"
proof -
  have "zone_wf (zstate (mk_zone zone_example))" "clear_of (zstate (mk_zone zone_example)) (5000000 * den)"
    "offset_at (zstate (mk_zone zone_example)) (5000000 * den div den) = 7200" by code_simp+
  then show ?thesis using getoffset_correct [of "mk_zone zone_example" "5000000 * den"] by simp
qed

theorem reverse_offset_exact_witness:
  "zone_wf zone_example \<and> getReverseOffset (mk_zone zone_example) (20005000 * den) = Inr ((\<lambda>c. c * den) ` {c. offset_at zone_example (20005000 - c) = c}) \<and>
   getReverseOffset (mk_zone zone_example) (20005000 * den) = Inr {3600 * den, 7200 * den} \<and>
   getReverseOffset (mk_zone zone_example) (1005000 * den) = Inr {}"
proof -
  have "20005000 * den sdiv den = 20005000" "TIME_MIN \<le> 20005000 * den sdiv den" by code_simp+
  moreover have "getReverseOffset (mk_zone zone_example) (20005000 * den) = Inr {3600 * den, 7200 * den}" by code_simp
  moreover have "getReverseOffset (mk_zone zone_example) (1005000 * den) = Inr {}" by code_simp
  ultimately show ?thesis using reverse_offset_exact [OF zone_example_wf, of "20005000 * den"] zone_example_wf by simp
qed

text \<open>At a transition the searches differ: the binary search has the new offset, the search that goes on has the old one; and during the
  second of the first transition the binary search still gives the default offset.\<close>

lemma offset_at_transition:
  "getoffset (mk_zone zone_example) (20000000 * den) = Inr (3600 * den, ''CET'')"
  "getoffset_dir (mk_zone zone_example) (20000000 * den) 0 1 = Inr (7200 * den, 0)"
  "getoffset (mk_zone zone_example) (1000000 * den + 999999999) = Inr (3600 * den, ''CET'')"
  "getoffset (mk_zone zone_example) (1000001 * den) = Inr (7200 * den, ''CEST'')"
  by code_simp+

end
