(* ===== verification/Period.thy ===== *)
theory Period
  imports Durations Calendar Zone Vectors
begin

text \<open>
  Periods (\<open>src/src/period.cpp\<close>, \<open>src/src/period.hpp\<close>): months, days and a duration, read from and written to text, added to times in a
  time zone, and the sequences of times that are built with them (\<open>src/src/timezone/ztime_vector.cpp\<close>). Months and days are 32-bit;
  the \<open>goto\<close> of the parser is rendered by the states of \<open>parse_state\<close>.
\<close>

record period =
  months :: int
  days :: int
  dur :: int

section \<open>Reading and writing\<close>

datatype parse_state =
    Finished period
  | Duration_at string period
  | Number int string period

definition period_error :: exn where
  "period_error = RangeError ''cannot parse period''"

definition read_next :: "string \<Rightarrow> period \<Rightarrow> parse_state res" where
  "read_next s p =
     bindR (readNumber True s) (\<lambda>r. case r of None \<Rightarrow> Inl period_error
       | Some (n, s') \<Rightarrow> if s' = [] then Inl period_error else Inr (Number n s' p))"

text \<open>One unit of the chain year, month, week, day.\<close>

definition unit_step :: "char \<Rightarrow> (int \<Rightarrow> period \<Rightarrow> period res) \<Rightarrow> parse_state \<Rightarrow> parse_state res" where
  "unit_step c add st =
     (case st of
        Number n s p \<Rightarrow>
          if hd s = c then
            bindR (add n p) (\<lambda>p'.
              let s' = tl s in
              if s' \<noteq> [] then (if hd s' = CHR ''/'' then Inr (Duration_at s' p') else read_next s' p') else Inr (Finished p'))
          else Inr st
      | _ \<Rightarrow> Inr st)"

definition add_to_months :: "int \<Rightarrow> int \<Rightarrow> period \<Rightarrow> period res" where
  "add_to_months k n p = bindR (as_int (k * n)) (\<lambda>x. bindR (as_int (months p + x)) (\<lambda>m. Inr (p\<lparr>months := m\<rparr>)))"

definition add_to_days :: "int \<Rightarrow> int \<Rightarrow> period \<Rightarrow> period res" where
  "add_to_days k n p = bindR (as_int (k * n)) (\<lambda>x. bindR (as_int (days p + x)) (\<lambda>d. Inr (p\<lparr>days := d\<rparr>)))"

definition get_duration :: "string \<Rightarrow> period \<Rightarrow> period res" where
  "get_duration s p =
     (case duration_from_string2 (tl s) of
        Inl UB \<Rightarrow> Inl UB
      | Inl _ \<Rightarrow> Inl period_error
      | Inr d \<Rightarrow> Inr (p\<lparr>dur := d\<rparr>))"

definition period_from_string :: "string \<Rightarrow> period res" where
  "period_from_string s =
     (let p = \<lparr>months = 0, days = 0, dur = 0\<rparr> in
      bindR (if s \<noteq> [] \<and> (hd s = CHR ''/'' \<or> (length s > 2 \<and> s ! 2 = CHR '':'')) then Inr (Duration_at s p) else read_next s p) (\<lambda>st0.
      bindR (unit_step (CHR ''y'') (add_to_months 12) st0) (\<lambda>st1.
      bindR (unit_step (CHR ''m'') (add_to_months 1) st1) (\<lambda>st2.
      bindR (unit_step (CHR ''w'') (add_to_days 7) st2) (\<lambda>st3.
      bindR (unit_step (CHR ''d'') (add_to_days 1) st3) (\<lambda>st4.
        case st4 of Finished p' \<Rightarrow> Inr p' | Duration_at s' p' \<Rightarrow> get_duration s' p' | Number n s' p' \<Rightarrow> get_duration s' p'))))))"

definition period_to_string :: "period \<Rightarrow> string" where
  "period_to_string p = dec_int (months p) @ ''m'' @ dec_int (days p) @ ''d/'' @ duration_to_string (dur p)"

section \<open>Arithmetic\<close>

definition period_eq :: "period \<Rightarrow> period \<Rightarrow> bool" where
  "period_eq p q \<longleftrightarrow> months p = months q \<and> days p = days q \<and> dur p = dur q"

text \<open>The member operator, which a comparison of two variables prefers, leaves the durations out.\<close>

definition period_eq_member :: "period \<Rightarrow> period \<Rightarrow> bool" where
  "period_eq_member p q \<longleftrightarrow> months p = months q \<and> days p = days q"

lemma period_eq_member_coarser:
  "period_eq p q \<Longrightarrow> period_eq_member p q"
  "period_eq_member \<lparr>months = 1, days = 2, dur = 3\<rparr> \<lparr>months = 1, days = 2, dur = 4\<rparr> \<and> \<not> period_eq \<lparr>months = 1, days = 2, dur = 3\<rparr> \<lparr>months = 1, days = 2, dur = 4\<rparr>"
  by (simp_all add: period_eq_def period_eq_member_def)

definition period_plus :: "period \<Rightarrow> period \<Rightarrow> period res" where
  "period_plus p q = bindR (as_int (months p + months q)) (\<lambda>m. bindR (as_int (days p + days q)) (\<lambda>d.
     Inr \<lparr>months = m, days = d, dur = dur p + dur q\<rparr>))"

definition period_neg :: "period \<Rightarrow> period res" where
  "period_neg p = bindR (as_int (- months p)) (\<lambda>m. bindR (as_int (- days p)) (\<lambda>d. Inr \<lparr>months = m, days = d, dur = - dur p\<rparr>))"

definition period_minus :: "period \<Rightarrow> period \<Rightarrow> period res" where
  "period_minus p q = bindR (as_int (months p - months q)) (\<lambda>m. bindR (as_int (days p - days q)) (\<lambda>d.
     Inr \<lparr>months = m, days = d, dur = dur p - dur q\<rparr>))"

definition day_ns :: int where
  "day_ns = 86400 * den"

text \<open>The local time, with the months added in the calendar, as an instant at the old offset.\<close>

definition shift_months :: "int \<Rightarrow> int \<Rightarrow> int \<Rightarrow> int" where
  "shift_months dt offset m =
     (let dt_floor = (dt + offset) div day_ns;
          timeofday = (dt + offset) - dt_floor * day_ns;
          ymd = add_months (from_days dt_floor) m
      in to_days ymd * day_ns - offset + timeofday)"

definition tz_plus :: "zone \<Rightarrow> int \<Rightarrow> period \<Rightarrow> int res" where
  "tz_plus z dt p =
     bindR (getoffset_dir z dt (- 1) 1) (\<lambda>(offset, pos).
     let res = (if months p \<noteq> 0 then shift_months dt offset (months p) else dt) in
     bindR (getoffset_dir z dt pos 1) (\<lambda>(offset', pos').
     let res' = res + days p * day_ns + dur p in
     bindR (getoffset_dir z res' pos' (if res' \<ge> dt then 1 else - 1)) (\<lambda>(newoffset, _).
     Inr (if newoffset \<noteq> offset' then res' + (offset' - newoffset) else res'))))"

definition tz_minus :: "zone \<Rightarrow> int \<Rightarrow> period \<Rightarrow> int res" where
  "tz_minus z dt p = bindR (period_neg p) (tz_plus z dt)"

section \<open>Sequences\<close>

text \<open>The loop that builds a sequence up to \<open>to\<close>, forwards (\<open>up\<close>) or backwards: \<open>bck\<close> is the last element of \<open>r\<close>.\<close>

definition seq_error :: exn where
  "seq_error = RangeError (''incorrect specification for '' @ [CHR 0x27] @ ''to'' @ [CHR 0x27, CHR 0x2F, CHR 0x27] @ ''by'' @ [CHR 0x27])"

function seq_loop :: "(int \<Rightarrow> int res) \<Rightarrow> int \<Rightarrow> bool \<Rightarrow> int \<Rightarrow> int vec \<Rightarrow> int vec res" where
  "seq_loop step to up bck r =
     (case step bck of
        Inl e \<Rightarrow> Inl e
      | Inr nxt \<Rightarrow>
          if (if up then nxt > to else nxt < to) then Inr r
          else (case push_back (<) nxt r of
              Inl e \<Rightarrow> Inl e
            | Inr r' \<Rightarrow> if \<bar>to - nxt\<bar> \<ge> \<bar>to - bck\<bar> then Inl seq_error else seq_loop step to up nxt r'))"
  by pat_completeness auto
termination
  by (relation "measure (\<lambda>(step, to, up, bck, r). nat \<bar>to - bck\<bar>)") auto

declare seq_loop.simps [simp del]

definition seq_period_to :: "zone \<Rightarrow> int \<Rightarrow> int \<Rightarrow> period \<Rightarrow> int vec res" where
  "seq_period_to z from to bee =
     bindR (vec_of_list (<) 0 [from] MemAlloc) (\<lambda>r. seq_loop (\<lambda>t. tz_plus z t bee) to (to - from \<ge> 0) from r)"

definition seq_period_n :: "zone \<Rightarrow> int \<Rightarrow> period \<Rightarrow> nat \<Rightarrow> int vec res" where
  "seq_period_n z from bee n =
     bindR (vec_of_list (<) 0 [from] MemAlloc) (\<lambda>r.
     foldR (\<lambda>i r. bindR (vec_at r (i - 1)) (\<lambda>t. bindR (tz_plus z t bee) (\<lambda>t'. push_back (<) t' r))) [1..<n] r)"

section \<open>Reading back what was written\<close>

lemma dec_int_chars: "dec_int n \<noteq> []" "c \<in> set (dec_int n) \<Longrightarrow> isdigit c \<or> c = CHR ''-''"
  using dec_digits [OF refl, of "nat n"] dec_digits [OF refl, of "nat (- n)"] by (auto simp: dec_int_def list_all_iff split: if_splits)

lemma read_next_int:
  assumes "\<bar>n\<bar> \<le> INT_MAX" "stops (c # r)"
  shows "read_next (dec_int n @ c # r) p = Inr (Number n (c # r) p)"
  using readNumber_int [OF assms(2,1)] by (simp add: read_next_def)

lemma as_int_ok: "\<bar>n\<bar> \<le> INT_MAX \<Longrightarrow> as_int n = Inr n"
  by (auto simp: as_int_def)

text \<open>Reading a written period gives it back, for months and days of 32 bits and a duration of 64 bits.\<close>
theorem period_roundtrip:
  assumes "\<bar>months p\<bar> \<le> INT_MAX" "\<bar>days p\<bar> \<le> INT_MAX" "\<bar>dur p\<bar> < 2 ^ 63"
  shows "period_from_string (period_to_string p) = Inr p"
proof -
  define ds where "ds = duration_to_string (dur p)"
  define t where "t = dec_int (days p) @ CHR ''d'' # CHR ''/'' # ds"
  define str where "str = dec_int (months p) @ CHR ''m'' # t"
  define pre where "pre = dec_int (months p) @ CHR ''m'' # dec_int (days p) @ [CHR ''d'']"
  have str: "period_to_string p = str" by (simp add: period_to_string_def str_def t_def ds_def)
  have pre: "str = pre @ CHR ''/'' # ds" "2 < length pre"
    using dec_int_chars(1) [of "months p"] dec_int_chars(1) [of "days p"] by (auto simp: str_def t_def pre_def Suc_lessI dest: length_greater_0_conv [THEN iffD2])
  have "c \<noteq> CHR '':'' \<and> c \<noteq> CHR ''/''" if "c \<in> set pre" for c
    using that dec_int_chars(2) [of c "months p"] dec_int_chars(2) [of c "days p"] not_digit by (auto simp: pre_def)
  moreover have "str ! 2 \<in> set pre" "hd str \<in> set pre" using pre by (auto simp: nth_append hd_append intro: hd_in_set)
  ultimately have no_goto: "str ! 2 \<noteq> CHR '':''" "hd str \<noteq> CHR ''/''" by blast+
  have stops: "stops (CHR ''m'' # r)" "stops (CHR ''d'' # r)" for r by (simp_all add: stops_def peek_def)
  have m: "read_next str q = Inr (Number (months p) (CHR ''m'' # t) q)" for q using assms(1) stops by (simp add: str_def read_next_int)
  have d: "read_next t q = Inr (Number (days p) (CHR ''d'' # CHR ''/'' # ds) q)" for q using assms(2) stops by (simp add: t_def read_next_int)
  have "isdigit (hd (dec_int (days p))) \<or> hd (dec_int (days p)) = CHR ''-''" using dec_int_chars(1) [of "days p"] by (intro dec_int_chars(2) [of _ "days p"]) simp
  then have "t \<noteq> []" "hd t \<noteq> CHR ''/''" using dec_int_chars(1) [of "days p"] not_digit(5) by (auto simp: t_def hd_append)
  then show ?thesis
    using assms no_goto m d duration_read_back [OF assms(3), folded ds_def]
    by (simp add: str period_from_string_def unit_step_def add_to_months_def add_to_days_def as_int_ok get_duration_def)
qed

theorem period_roundtrip_witness:
  "\<bar>months \<lparr>months = - 14, days = 3, dur = 5000000000\<rparr>\<bar> \<le> INT_MAX \<and>
   period_to_string \<lparr>months = - 14, days = 3, dur = 5000000000\<rparr> = ''-14m3d/00:00:05'' \<and>
   period_from_string (period_to_string \<lparr>months = - 14, days = 3, dur = 5000000000\<rparr>) = Inr \<lparr>months = - 14, days = 3, dur = 5000000000\<rparr>"
proof -
  have "period_to_string \<lparr>months = - 14, days = 3, dur = 5000000000\<rparr> = ''-14m3d/00:00:05''" by code_simp
  then show ?thesis using period_roundtrip [of "\<lparr>months = - 14, days = 3, dur = 5000000000\<rparr>"] by (simp add: INT_MAX_def)
qed

text \<open>A period that is only a duration loses its first character: twelve hours are read as two.\<close>

lemma period_loses_first_character: "period_from_string ''12:00:00'' = Inr \<lparr>months = 0, days = 0, dur = 7200000000000\<rparr>"
  by code_simp

section \<open>Addition on the local clock\<close>

text \<open>The local time at an instant, and a local time moved by a period.\<close>

definition local_time :: "tzstate \<Rightarrow> int \<Rightarrow> int" where
  "local_time s dt = dt + offset_at s (dt div den) * den"

definition local_shift :: "int \<Rightarrow> period \<Rightarrow> int" where
  "local_shift l p =
     (if months p \<noteq> 0 then to_days (add_months (from_days (l div day_ns)) (months p)) * day_ns + l mod day_ns else l) + days p * day_ns + dur p"



section \<open>Sequences of times\<close>

text \<open>The elements that a sequence should have: the start and its iterated steps up to the limit.\<close>

lemma seq_loop_ok:
  assumes step: "\<forall>t. from \<le> t \<longrightarrow> t \<le> to \<longrightarrow> step t = Inr (f t) \<and> t < f t"
    and r: "alloc r \<noteq> NullAlloc" "ordered r" "elems r \<noteq> []" "last (elems r) = bck" "from \<le> bck" "bck \<le> to"
  shows "\<exists>n r'. seq_loop step to True bck r = Inr r' \<and> elems r' = elems r @ map (\<lambda>i. (f ^^ i) bck) [1..<Suc n] \<and> ordered r' \<and>
    (\<forall>i\<le>n. (f ^^ i) bck \<le> to) \<and> to < (f ^^ Suc n) bck"
  using r
proof (induction "nat (to - bck)" arbitrary: bck r rule: less_induct)
  case less
  have st: "step bck = Inr (f bck)" "bck < f bck" using step less(6,7) by auto
  show ?case
  proof (cases "f bck > to")
    case True
    then show ?thesis using st less(3,7) by (intro exI [of _ 0]) (simp add: seq_loop.simps)
  next
    case False
    obtain r1 where r1: "push_back (<) (f bck) r = Inr r1" "alloc r1 = alloc r" using push_back_total [OF less(2)] by metis
    have e1: "elems r1 = elems r @ [f bck]" using push_back_elems [OF r1(1)] .
    have inv1: "ordered r1" using push_back_ordered [OF r1(1)] less(3,5) st(2) by simp
    obtain n r' where ih: "seq_loop step to True (f bck) r1 = Inr r'" "elems r' = elems r1 @ map (\<lambda>i. (f ^^ i) (f bck)) [1..<Suc n]" "ordered r'"
      "\<forall>i\<le>n. (f ^^ i) (f bck) \<le> to" "to < (f ^^ Suc n) (f bck)"
      using less(1) [of "f bck" r1] less(2,6,7) st(2) False r1(2) e1 inv1 by auto
    have shift: "(f ^^ i) (f bck) = (f ^^ Suc i) bck" for i by (simp add: funpow_swap1)
    have "map (\<lambda>i. (f ^^ i) (f bck)) [1..<Suc n] = map (\<lambda>i. (f ^^ i) bck) [Suc 1..<Suc (Suc n)]"
      unfolding map_Suc_upt [symmetric] map_map by (rule map_cong) (simp_all add: shift)
    moreover have "[1..<Suc (Suc n)] = 1 # [Suc 1..<Suc (Suc n)]" by (simp add: upt_conv_Cons)
    ultimately have "elems r' = elems r @ map (\<lambda>i. (f ^^ i) bck) [1..<Suc (Suc n)]" using ih(2) e1 by simp
    moreover have "seq_loop step to True bck r = Inr r'" using st False r1(1) ih(1) by (subst seq_loop.simps) simp
    moreover have "\<forall>i\<le>Suc n. (f ^^ i) bck \<le> to"
    proof (intro allI impI)
      fix i
      assume "i \<le> Suc n"
      then show "(f ^^ i) bck \<le> to" using ih(4) less(7) by (cases i) (simp_all add: funpow_swap1)
    qed
    moreover have "to < (f ^^ Suc (Suc n)) bck" using ih(5) by (simp only: shift)
    ultimately show ?thesis using ih(3) by (intro exI [of _ "Suc n"]) simp
  qed
qed

text \<open>C30. A sequence by a period that moves time forwards ends, and holds the start and its iterated sums up to the limit, in ascending order and
  with the ordered flag set.\<close>
theorem seq_period_correct:
  assumes "\<forall>t. from \<le> t \<longrightarrow> t \<le> to \<longrightarrow> tz_plus z t p = Inr (f t) \<and> t < f t" and "from \<le> to"
  shows "\<exists>n r. seq_period_to z from to p = Inr r \<and> elems r = map (\<lambda>i. (f ^^ i) from) [0..<Suc n] \<and> ordered r \<and>
    (\<forall>i\<le>n. (f ^^ i) from \<le> to) \<and> to < (f ^^ Suc n) from \<and> sorted_wrt (<) (elems r)"
proof -
  obtain r0 where r0: "vec_of_list (<) 0 [from] MemAlloc = Inr r0" "elems r0 = [from]" "alloc r0 = MemAlloc" "ordered r0"
    by (simp add: vec_of_list_def)
  obtain n r where r: "seq_loop (\<lambda>t. tz_plus z t p) to True from r0 = Inr r" "elems r = elems r0 @ map (\<lambda>i. (f ^^ i) from) [1..<Suc n]"
    "ordered r" "\<forall>i\<le>n. (f ^^ i) from \<le> to" "to < (f ^^ Suc n) from"
    using seq_loop_ok [of "from" to "\<lambda>t. tz_plus z t p" f r0 "from"] assms r0 by auto
  have up: "from \<le> (f ^^ i) from" if "i \<le> n" for i using that
  proof (induction i)
    case (Suc i)
    then have "from \<le> (f ^^ i) from" "(f ^^ i) from \<le> to" using r(4) by auto
    then have "(f ^^ i) from < f ((f ^^ i) from)" using assms(1) by blast
    then show ?case using \<open>from \<le> (f ^^ i) from\<close> by simp
  qed simp
  have "[0..<Suc n] = 0 # [1..<Suc n]" by (simp add: upt_conv_Cons)
  then have e: "elems r = map (\<lambda>i. (f ^^ i) from) [0..<Suc n]" using r(2) r0(2) by simp
  have "(f ^^ i) from < (f ^^ j) from" if "i < j" "j \<le> n" for i j using that
  proof (induction j)
    case (Suc j)
    have "(f ^^ j) from < (f ^^ Suc j) from" using assms(1) up [of j] r(4) Suc(3) by simp
    then show ?case using Suc by (cases "i = j") auto
  qed simp
  then have "sorted_wrt (<) (elems r)" unfolding e sorted_wrt_map by (auto simp: sorted_wrt_iff_nth_less simp del: upt_Suc)
  moreover have "seq_period_to z from to p = Inr r" using r0(1) r(1) assms(2) by (simp add: seq_period_to_def)
  ultimately show ?thesis using r(3-5) e by blast
qed

definition zone_utc :: tzstate where
  "zone_utc = \<lparr>ats = [], types = [], ttis = [\<lparr>tt_gmtoff = 0, tt_abbrind = 0\<rparr>], chars = ''UTC'' @ [CHR 0x00], defaulttype = 0\<rparr>"

lemma tz_plus_utc: "tz_plus (mk_zone zone_utc) t \<lparr>months = 0, days = 1, dur = 0\<rparr> = Inr (t + day_ns)"
  by (simp add: tz_plus_def getoffset_dir_def getoffset_pos_def zone_utc_def mk_zone_def timecnt_def Let_def)

theorem seq_period_correct_witness:
  "\<exists>n r. seq_period_to (mk_zone zone_utc) 0 (200000 * den) \<lparr>months = 0, days = 1, dur = 0\<rparr> = Inr r \<and>
     elems r = map (\<lambda>i. ((\<lambda>t. t + day_ns) ^^ i) 0) [0..<Suc n] \<and> sorted_wrt (<) (elems r)"
proof -
  have "\<forall>t. 0 \<le> t \<longrightarrow> t \<le> 200000 * den \<longrightarrow> tz_plus (mk_zone zone_utc) t \<lparr>months = 0, days = 1, dur = 0\<rparr> = Inr (t + day_ns) \<and> t < t + day_ns"
    by (simp add: tz_plus_utc day_ns_def den_def)
  moreover have "0 \<le> 200000 * den" by (simp add: den_def)
  ultimately show ?thesis
    using seq_period_correct [of 0 "200000 * den" "mk_zone zone_utc" "\<lparr>months = 0, days = 1, dur = 0\<rparr>" "\<lambda>t. t + day_ns"] by blast
qed

end
