(* ===== verification/Ztime.thy ===== *)
theory Ztime
  imports Period Intervals
begin

text \<open>
  Times as text and calendar functions of times (\<open>src/src/timezone/ztime.cpp\<close>, \<open>src/src/timezone/ztime.hpp\<close>): reading a time or an interval
  with a format, writing them, rounding to units of time and to days, months and years in a zone. A pointer into a string is the rest of
  the string. The floating-point steps of the code (\<open>pow(10, n)\<close> with \<open>n \<le> 9\<close>, the floor of seconds divided by 86400) are exact for
  64-bit times and are written as integers.
\<close>

section \<open>Pieces of a time\<close>

definition is_space :: "char \<Rightarrow> bool" where
  "is_space c \<longleftrightarrow> c = CHR '' '' \<or> c = CHR 0x09"

fun skipWhitespace :: "string \<Rightarrow> string" where
  "skipWhitespace [] = []"
| "skipWhitespace (c # s) = (if is_space c then skipWhitespace s else c # s)"

fun skipOptional :: "string \<Rightarrow> string" where
  "skipOptional [] = []"
| "skipOptional (c # s) = (if c = CHR '']'' then s else skipOptional s)"

text \<open>At most \<open>k\<close> digits: the value and the number of digits read.\<close>

fun int_loop :: "nat \<Rightarrow> int \<Rightarrow> nat \<Rightarrow> string \<Rightarrow> int \<times> nat \<times> string" where
  "int_loop k r i [] = (r, i, [])"
| "int_loop k r i (c # s) = (if k \<noteq> 0 \<and> isdigit c then int_loop (k - 1) (10 * r + digit_val c) (i + 1) s else (r, i, c # s))"

definition readInt :: "nat \<Rightarrow> nat \<Rightarrow> nat \<Rightarrow> string \<Rightarrow> (int \<times> string) res" where
  "readInt expectmin expectmax padding s =
     (let (r, i, s') = int_loop expectmax 0 0 s in
      if i \<ge> expectmin then Inr (if padding \<noteq> 0 then r * 10 ^ (padding - i) else r, s')
      else Inl (RangeError ''couldn't parse datetime element''))"

definition zone_char :: "char \<Rightarrow> bool" where
  "zone_char c \<longleftrightarrow>
     (let n = (of_char c :: int) in (65 \<le> n \<and> n \<le> 90) \<or> (97 \<le> n \<and> n \<le> 122) \<or> c = CHR ''_'' \<or> (47 \<le> n \<and> n \<le> 57))"

definition readString :: "string \<Rightarrow> (string \<times> string) res" where
  "readString s =
     (if takeWhile zone_char s \<noteq> [] then Inr (takeWhile zone_char s, dropWhile zone_char s)
      else Inl (RangeError ''couldn't parse datetime timezone''))"

record timetuple =
  ty :: int
  tm :: int
  td :: int
  th :: int
  tmn :: int
  tsec :: int
  tnsec :: int
  ttz :: string

text \<open>The character after a percent sign.\<close>

definition read_field :: "char \<Rightarrow> string \<Rightarrow> timetuple \<Rightarrow> (string \<times> timetuple) res" where
  "read_field c s t =
     (if c = CHR ''m'' then bindR (readInt 1 2 0 s) (\<lambda>(n, s'). Inr (s', t\<lparr>tm := n\<rparr>))
      else if c = CHR ''d'' then bindR (readInt 1 2 0 s) (\<lambda>(n, s'). Inr (s', t\<lparr>td := n\<rparr>))
      else if c = CHR ''y'' then bindR (readInt 2 2 0 s) (\<lambda>(n, s'). Inr (s', t\<lparr>ty := 2000 + n\<rparr>))
      else if c = CHR ''Y'' then bindR (readInt 4 4 0 s) (\<lambda>(n, s'). Inr (s', t\<lparr>ty := n\<rparr>))
      else if c = CHR ''H'' then bindR (readInt 1 2 0 s) (\<lambda>(n, s'). Inr (s', t\<lparr>th := n\<rparr>))
      else if c = CHR ''M'' then bindR (readInt 1 2 0 s) (\<lambda>(n, s'). Inr (s', t\<lparr>tmn := n\<rparr>))
      else if c = CHR ''S'' then bindR (readInt 1 2 0 s) (\<lambda>(n, s'). Inr (s', t\<lparr>tsec := n\<rparr>))
      else if c = CHR ''s'' then bindR (readInt 0 9 9 s) (\<lambda>(n, s'). Inr (s', t\<lparr>tnsec := n\<rparr>))
      else if c = CHR ''Z'' then bindR (readString s) (\<lambda>(z, s'). Inr (s', t\<lparr>ttz := z\<rparr>))
      else Inl (RangeError (''unknown datetime format character '' @ [CHR 0x27, c, CHR 0x27])))"

lemma skipOptional_shorter: "length (skipOptional s) \<le> length s"
  by (induction s) auto

text \<open>The loop: the format decides the next piece; in an optional part, a character that does not match skips the rest of the part.\<close>

function dtime_loop :: "string \<Rightarrow> string \<Rightarrow> bool \<Rightarrow> timetuple \<Rightarrow> (string \<times> timetuple) res" where
  "dtime_loop sp fp optional t =
     (if sp = [] \<or> fp = [] then Inr (sp, t)
      else if hd fp = CHR ''['' then dtime_loop sp (tl fp) True t
      else if hd fp = CHR '']'' then dtime_loop sp (tl fp) False t
      else if hd fp = CHR ''%'' then
        (if tl fp = [] then Inl (RangeError ''missing format control character'')
         else (case read_field (hd (tl fp)) sp t of Inl e \<Rightarrow> Inl e | Inr (sp', t') \<Rightarrow> dtime_loop sp' (tl (tl fp)) optional t'))
      else if hd sp = hd fp then dtime_loop (tl sp) (tl fp) optional t
      else if \<not> optional then Inl (RangeError ''invalid date format'')
      else dtime_loop sp (skipOptional fp) False t)"
  by pat_completeness auto
termination
proof (relation "measure (\<lambda>(sp, fp, optional, t). length fp)", goal_cases)
  case (6 sp fp optional t)
  then show ?case using skipOptional_shorter [of "tl fp"] by (cases fp) auto
qed (auto simp: neq_Nil_conv)

declare dtime_loop.simps [simp del]

definition readDtime :: "string \<Rightarrow> string \<Rightarrow> (string \<times> timetuple) res" where
  "readDtime sp fp = dtime_loop sp fp False \<lparr>ty = 0, tm = 0, td = 0, th = 0, tmn = 0, tsec = 0, tnsec = 0, ttz = []\<rparr>"

section \<open>Times from numbers and text\<close>

definition dtime_from_numbers :: "int \<Rightarrow> int \<Rightarrow> int \<Rightarrow> int \<Rightarrow> int \<Rightarrow> int \<Rightarrow> int \<Rightarrow> zone \<Rightarrow> int res" where
  "dtime_from_numbers y m d h mn sec nsec z =
     (if m < 1 \<or> m > 12 then Inl (RangeError ''month must be >= 1 and <= 12'')
      else if d < 1 \<or> d > 31 then Inl (RangeError ''day must be >= 1 and <= 31'')
      else if h > 23 then Inl (RangeError ''hour must be < 24'')
      else if mn > 59 then Inl (RangeError ''minute must be < 60'')
      else if sec > 59 then Inl (RangeError ''second must be < 60'')
      else if nsec > 999999999 then Inl (RangeError ''second must be < 1000000000'')
      else
        let dt = to_days (mk_date y m d) * day_ns + (h * 3600 + mn * 60 + sec) * den + nsec in
        bindR (getReverseOffset z dt) (\<lambda>rvoset.
          if card rvoset = 0 then Inl (RangeError ''datetime is not representable'')
          else if card rvoset = 2 then Inl (RangeError ''datetime is ambiguous'')
          else Inr (dt - Min rvoset)))"

definition dtime_from_timetuple :: "(string \<Rightarrow> zone option) \<Rightarrow> timetuple \<Rightarrow> string \<Rightarrow> int res" where
  "dtime_from_timetuple tzones t tz_given =
     (if ttz t = [] \<and> tz_given = [] then Inl (RangeError ''timezone must be specified'')
      else bindR (zones_find tzones (if ttz t \<noteq> [] then ttz t else tz_given)) (\<lambda>z.
        dtime_from_numbers (ty t) (tm t) (td t) (th t) (tmn t) (tsec t) (tnsec t) z))"

definition dtime_from_string :: "(string \<Rightarrow> zone option) \<Rightarrow> string \<Rightarrow> string \<Rightarrow> string \<Rightarrow> int res" where
  "dtime_from_string tzones s fmt tz = bindR (readDtime s fmt) (\<lambda>(_, t). dtime_from_timetuple tzones t tz)"

definition default_format :: string where
  "default_format = ''%Y-%m-%d %H:%M:%S[.%s] %Z''"

definition open_mark :: "string \<Rightarrow> (bool \<times> string) res" where
  "open_mark s =
     (if peek s = CHR ''-'' then Inr (True, tl s)
      else if peek s = CHR ''+'' then Inr (False, tl s)
      else Inl (RangeError ''interval open/close must be specified with -/+''))"

definition interval_from_string :: "(string \<Rightarrow> zone option) \<Rightarrow> string \<Rightarrow> string \<Rightarrow> string \<Rightarrow> interval res" where
  "interval_from_string tzones s f tz =
     bindR (open_mark (if peek s = CHR ''|'' then tl s else s)) (\<lambda>(so, s1).
     bindR (readDtime (skipWhitespace s1) f) (\<lambda>(s2, t1).
     bindR (dtime_from_timetuple tzones t1 tz) (\<lambda>t_s.
     let s3 = skipWhitespace s2 in
     if take 2 s3 \<noteq> ''->'' then Inl (RangeError (''interval datetime separator must be '' @ [CHR 0x27] @ ''->'' @ [CHR 0x27]))
     else bindR (readDtime (skipWhitespace (drop 2 s3)) f) (\<lambda>(s4, t2).
     bindR (dtime_from_timetuple tzones t2 tz) (\<lambda>t_e.
     bindR (open_mark (skipWhitespace s4)) (\<lambda>(eo, _). mk_interval t_s t_e so eo))))))"

section \<open>Writing times\<close>

definition year_string :: "int \<Rightarrow> string" where
  "year_string y = (if y < 0 then CHR ''-'' # pad 4 (dec (nat (- y))) else pad 4 (dec (nat y)))"

definition dtime_to_string :: "int \<Rightarrow> zone \<Rightarrow> string \<Rightarrow> bool \<Rightarrow> bool \<Rightarrow> string res" where
  "dtime_to_string dt0 z tzstr abbr fractional =
     bindR (getoffset z dt0) (\<lambda>(offset, name).
     let dt = dt0 + offset;
         ymd = from_days (dt div day_ns);
         zd0 = dt sdiv den; nsec0 = dt - zd0 * den;
         nsec = (if nsec0 < 0 then nsec0 + den else nsec0);
         zd = (if nsec0 < 0 then zd0 - 1 else zd0);
         zrem = zd - zd div 86400 * 86400;
         h = zrem div 3600; hrem = zrem mod 3600; mn = hrem div 60; s = hrem mod 60
     in Inr (year_string (dyear ymd) @ ''-'' @ pad 2 (dec (nat (dmonth ymd))) @ ''-'' @ pad 2 (dec (nat (dday ymd))) @ '' '' @
             pad 2 (dec (nat h)) @ '':'' @ pad 2 (dec (nat mn)) @ '':'' @ pad 2 (dec (nat s)) @
             (if nsec \<noteq> 0 \<or> fractional then ''.'' @ pad 9 (dec (nat nsec)) else []) @ '' '' @ (if abbr then name else tzstr)))"

definition interval_to_string :: "interval \<Rightarrow> zone \<Rightarrow> string \<Rightarrow> bool \<Rightarrow> bool \<Rightarrow> string res" where
  "interval_to_string i z tzstr abbr fractional =
     bindR (dtime_to_string (istart i) z tzstr abbr fractional) (\<lambda>s. bindR (dtime_to_string (iend i) z tzstr abbr fractional) (\<lambda>e.
       Inr ((if sopen i then ''-'' else ''+'') @ s @ '' -> '' @ e @ (if eopen i then ''-'' else ''+''))))"

section \<open>Calendar functions\<close>

datatype Period_t = NANO | MICRO | MILLI | SECOND | MINUTE | HOUR | DAY | WEEK | MONTH | YEAR

definition unqualified_period_from_string :: "string \<Rightarrow> Period_t res" where
  "unqualified_period_from_string s =
     (if s = ''year'' \<or> s = ''years'' then Inr YEAR
      else if s = ''month'' \<or> s = ''months'' then Inr MONTH
      else if s = ''week'' \<or> s = ''weeks'' then Inr WEEK
      else if s = ''day'' \<or> s = ''days'' then Inr DAY
      else if s = ''hour'' \<or> s = ''hours'' then Inr HOUR
      else if s = ''minute'' \<or> s = ''minutes'' then Inr MINUTE
      else if s = ''second'' \<or> s = ''seconds'' then Inr SECOND
      else if s = ''millisecond'' \<or> s = ''milliseconds'' then Inr MILLI
      else if s = ''microsecond'' \<or> s = ''microseconds'' then Inr MICRO
      else Inl (OutOfRange ''unknown period string''))"

definition average_duration :: "Period_t \<Rightarrow> int" where
  "average_duration p =
     (case p of NANO \<Rightarrow> 1 | MICRO \<Rightarrow> 1000 | MILLI \<Rightarrow> 1000000 | SECOND \<Rightarrow> den | MINUTE \<Rightarrow> 60 * den | HOUR \<Rightarrow> 3600 * den
      | DAY \<Rightarrow> 24 * 3600 * den | WEEK \<Rightarrow> 7 * 24 * 3600 * den | MONTH \<Rightarrow> 31 * 24 * 3600 * den | YEAR \<Rightarrow> 365 * 24 * 3600 * den)"

text \<open>\<open>time_point_cast\<close> to a coarser unit and back truncates towards 1970.\<close>

definition cast_unit :: "int \<Rightarrow> int \<Rightarrow> int" where
  "cast_unit u t = t sdiv u * u"

definition floor_unit :: "int \<Rightarrow> Period_t \<Rightarrow> int res" where
  "floor_unit t p =
     (if p \<in> {HOUR, MINUTE, SECOND, MILLI, MICRO, NANO} then Inr (cast_unit (average_duration p) t)
      else Inl (OutOfRange ''unknown duration type''))"

definition ceiling_unit :: "int \<Rightarrow> Period_t \<Rightarrow> int res" where
  "ceiling_unit t p = floor_unit (t + average_duration p) p"

definition local_days :: "zone \<Rightarrow> int \<Rightarrow> int \<Rightarrow> (int \<times> int) res" where
  "local_days z t dir = bindR (getoffset_dir z t (- 1) dir) (\<lambda>(offset, pos). Inr ((t + offset) div day_ns, pos))"

definition back_to_utc :: "zone \<Rightarrow> int \<Rightarrow> int \<Rightarrow> int \<Rightarrow> int res" where
  "back_to_utc z n pos dir = bindR (getoffset_dir z (n * day_ns) pos dir) (\<lambda>(offset, _). Inr (n * day_ns - offset))"

definition floor_tz :: "int \<Rightarrow> Period_t \<Rightarrow> zone \<Rightarrow> int res" where
  "floor_tz t p z =
     bindR (local_days z t (- 1)) (\<lambda>(n, pos).
       let ymd = from_days n in
       if p = DAY then back_to_utc z n pos (- 1)
       else if p = MONTH then back_to_utc z (to_days (mk_date (dyear ymd) (dmonth ymd) 1)) pos (- 1)
       else if p = YEAR then back_to_utc z (to_days (mk_date (dyear ymd) 1 1)) pos (- 1)
       else Inl (OutOfRange ''unknown duration type''))"

definition ceiling_tz :: "int \<Rightarrow> Period_t \<Rightarrow> zone \<Rightarrow> int res" where
  "ceiling_tz t p z =
     bindR (local_days z t 1) (\<lambda>(n, pos).
       let ymd = from_days n in
       if p = DAY then back_to_utc z (to_days (mk_date (dyear ymd) (dmonth ymd) (dday ymd + 1))) pos 1
       else if p = MONTH then back_to_utc z (to_days (mk_date (dyear ymd) (if dmonth ymd + 1 = 13 then 1 else dmonth ymd + 1) 1)) pos 1
       else if p = YEAR then back_to_utc z (to_days (mk_date (dyear ymd + 1) 1 1)) pos 1
       else Inl (OutOfRange ''unknown duration type''))"

definition on_interval :: "(int \<Rightarrow> int res) \<Rightarrow> interval \<Rightarrow> interval res" where
  "on_interval f i = bindR (f (istart i)) (\<lambda>s. bindR (f (iend i)) (\<lambda>e. mk_interval s e (sopen i) (eopen i)))"

definition floor_interval :: "interval \<Rightarrow> Period_t \<Rightarrow> interval res" where
  "floor_interval i p = on_interval (\<lambda>t. floor_unit t p) i"

definition floor_tz_interval :: "interval \<Rightarrow> Period_t \<Rightarrow> zone \<Rightarrow> interval res" where
  "floor_tz_interval i p z = on_interval (\<lambda>t. floor_tz t p z) i"

definition ceiling_interval :: "interval \<Rightarrow> Period_t \<Rightarrow> interval res" where
  "ceiling_interval i p = bindR (interval_plus i (average_duration p)) (\<lambda>j. floor_interval j p)"

definition ceiling_tz_interval :: "interval \<Rightarrow> Period_t \<Rightarrow> zone \<Rightarrow> interval res" where
  "ceiling_tz_interval i p z = on_interval (\<lambda>t. ceiling_tz t p z) i"

definition tz_plus_interval :: "zone \<Rightarrow> interval \<Rightarrow> period \<Rightarrow> interval res" where
  "tz_plus_interval z i p = on_interval (\<lambda>t. tz_plus z t p) i"

definition tz_minus_interval :: "zone \<Rightarrow> interval \<Rightarrow> period \<Rightarrow> interval res" where
  "tz_minus_interval z i p = bindR (period_neg p) (tz_plus_interval z i)"

definition dayweek :: "int \<Rightarrow> zone \<Rightarrow> int res" where
  "dayweek t z = bindR (local_days z t 1) (\<lambda>(n, _). Inr (weekday_from_days n))"

definition daymonth :: "int \<Rightarrow> zone \<Rightarrow> int res" where
  "daymonth t z = bindR (local_days z t 1) (\<lambda>(n, _). Inr (dday (from_days n)))"

definition month_of :: "int \<Rightarrow> zone \<Rightarrow> int res" where
  "month_of t z = bindR (local_days z t 1) (\<lambda>(n, _). Inr (dmonth (from_days n)))"

definition year_of :: "int \<Rightarrow> zone \<Rightarrow> int res" where
  "year_of t z = bindR (local_days z t 1) (\<lambda>(n, _). Inr (dyear (from_days n)))"

section \<open>Reading the pieces that were written\<close>

lemma dec_length: "n < 10 ^ w \<Longrightarrow> 0 < w \<Longrightarrow> length (dec n) \<le> w"
proof (induction n arbitrary: w rule: dec.induct)
  case (1 n)
  show ?case
  proof (cases "n < 10")
    case False
    then obtain v where v: "w = Suc v" "0 < v" using 1(2,3) by (cases w) (force, metis Suc_pred gr0I less_one mult.right_neutral power_0 power_Suc)
    then have "n div 10 < 10 ^ v" using 1(2) by (simp add: div_less_iff_less_mult mult.commute)
    then show ?thesis using False v 1(1) [OF False, of v] by (simp add: dec_high)
  qed (use 1(3) in \<open>simp add: dec_low\<close>)
qed

lemma pad_length: "n < 10 ^ w \<Longrightarrow> 0 < w \<Longrightarrow> length (pad w (dec n)) = w"
  using dec_length [of n w] by (simp add: pad_def)

lemma int_loop_digits: "list_all isdigit ds \<Longrightarrow> int_loop (length ds) r i (ds @ s) = (dec_val r ds, i + length ds, s)"
proof (induction ds arbitrary: r i)
  case Nil
  then show ?case by (cases s) (simp_all add: dec_val_def)
next
  case (Cons c ds)
  have "dec_val r (c # ds) = dec_val (10 * r + digit_val c) ds" by (simp add: dec_val_def)
  then show ?case using Cons by simp
qed

lemma readInt_pad:
  assumes "n < 10 ^ w" "0 < w" "m \<le> w" "p = 0 \<or> p = w"
  shows "readInt m w p (pad w (dec n) @ r) = Inr (int n, r)"
  using int_loop_digits [OF pad_digits(2) [of w n], of 0 0 r] pad_length [OF assms(1,2)] pad_digits(3) [of w n] assms(3,4)
  by (auto simp: readInt_def)

lemma readString_ok:
  assumes "name \<noteq> []" "list_all zone_char name" "r = [] \<or> \<not> zone_char (hd r)"
  shows "readString (name @ r) = Inr (name, r)"
proof -
  have "takeWhile zone_char (name @ r) = name" "dropWhile zone_char (name @ r) = r"
    using assms(2,3) by (cases r; simp add: takeWhile_append2 dropWhile_append2 list_all_iff)+
  then show ?thesis using assms(1) by (simp add: readString_def)
qed

definition plain :: "char \<Rightarrow> bool" where
  "plain c \<longleftrightarrow> c \<noteq> CHR ''['' \<and> c \<noteq> CHR '']'' \<and> c \<noteq> CHR ''%''"

lemma loop_lit: "plain c \<Longrightarrow> dtime_loop (c # s) (c # f) opt t = dtime_loop s f opt t"
  by (subst dtime_loop.simps) (simp add: plain_def)

lemma loop_open: "s \<noteq> [] \<Longrightarrow> dtime_loop s (CHR ''['' # f) opt t = dtime_loop s f True t"
  and loop_close: "s \<noteq> [] \<Longrightarrow> dtime_loop s (CHR '']'' # f) opt t = dtime_loop s f False t"
  by (subst dtime_loop.simps, simp)+

lemma loop_skip: "plain c \<Longrightarrow> c \<noteq> d \<Longrightarrow> dtime_loop (d # s) (c # f) True t = dtime_loop (d # s) (skipOptional (c # f)) False t"
  by (subst dtime_loop.simps) (simp add: plain_def)

lemma loop_field: "s \<noteq> [] \<Longrightarrow> read_field c s t = Inr (s', t') \<Longrightarrow> dtime_loop s (CHR ''%'' # c # f) opt t = dtime_loop s' f opt t'"
  by (subst dtime_loop.simps) simp

lemma loop_end: "dtime_loop s [] opt t = Inr (s, t)"
  by (subst dtime_loop.simps) simp

lemma field_read:
  "n < 10000 \<Longrightarrow> read_field (CHR ''Y'') (pad 4 (dec n) @ r) t = Inr (r, t\<lparr>ty := int n\<rparr>)"
  "n < 100 \<Longrightarrow> read_field (CHR ''m'') (pad 2 (dec n) @ r) t = Inr (r, t\<lparr>tm := int n\<rparr>)"
  "n < 100 \<Longrightarrow> read_field (CHR ''d'') (pad 2 (dec n) @ r) t = Inr (r, t\<lparr>td := int n\<rparr>)"
  "n < 100 \<Longrightarrow> read_field (CHR ''H'') (pad 2 (dec n) @ r) t = Inr (r, t\<lparr>th := int n\<rparr>)"
  "n < 100 \<Longrightarrow> read_field (CHR ''M'') (pad 2 (dec n) @ r) t = Inr (r, t\<lparr>tmn := int n\<rparr>)"
  "n < 100 \<Longrightarrow> read_field (CHR ''S'') (pad 2 (dec n) @ r) t = Inr (r, t\<lparr>tsec := int n\<rparr>)"
  "n < 1000000000 \<Longrightarrow> read_field (CHR ''s'') (pad 9 (dec n) @ r) t = Inr (r, t\<lparr>tnsec := int n\<rparr>)"
  using readInt_pad [of n 4 4 0 r] readInt_pad [of n 2 1 0 r] readInt_pad [of n 9 0 9 r] by (simp_all add: read_field_def)

text \<open>The text of a time, from its numbers.\<close>

definition time_text :: "timetuple \<Rightarrow> bool \<Rightarrow> string" where
  "time_text t fractional =
     pad 4 (dec (nat (ty t))) @ ''-'' @ pad 2 (dec (nat (tm t))) @ ''-'' @ pad 2 (dec (nat (td t))) @ '' '' @
     pad 2 (dec (nat (th t))) @ '':'' @ pad 2 (dec (nat (tmn t))) @ '':'' @ pad 2 (dec (nat (tsec t))) @
     (if tnsec t \<noteq> 0 \<or> fractional then ''.'' @ pad 9 (dec (nat (tnsec t))) else []) @ '' '' @ ttz t"

definition tuple_wf :: "timetuple \<Rightarrow> bool" where
  "tuple_wf t \<longleftrightarrow> 0 \<le> ty t \<and> ty t < 10000 \<and> 0 \<le> tm t \<and> tm t < 100 \<and> 0 \<le> td t \<and> td t < 100 \<and> 0 \<le> th t \<and> th t < 100 \<and> 0 \<le> tmn t \<and> tmn t < 100 \<and>
     0 \<le> tsec t \<and> tsec t < 100 \<and> 0 \<le> tnsec t \<and> tnsec t < 1000000000 \<and> ttz t \<noteq> [] \<and> list_all zone_char (ttz t)"

lemma pad_append_not_Nil: "pad w (dec n) @ r \<noteq> []"
  using pad_digits(1) by simp

lemma read_time_text:
  assumes wf: "tuple_wf t" and r: "r = [] \<or> \<not> zone_char (hd r)"
  shows "readDtime (time_text t fractional @ r) default_format = Inr (r, t)"
proof -
  have z: "dtime_loop (ttz t @ r) ''%Z'' opt u = Inr (r, u\<lparr>ttz := ttz t\<rparr>)" for opt u
    using wf readString_ok [OF _ _ r] by (simp add: loop_field loop_end read_field_def tuple_wf_def)
  have frac: "dtime_loop ((if tnsec t \<noteq> 0 \<or> fractional then ''.'' @ pad 9 (dec (nat (tnsec t))) else []) @ '' '' @ ttz t @ r) ''[.%s] %Z'' opt u =
      Inr (r, u\<lparr>tnsec := (if tnsec t \<noteq> 0 \<or> fractional then tnsec t else tnsec u), ttz := ttz t\<rparr>)" for opt u
    using wf by (simp add: loop_open loop_lit loop_close loop_skip plain_def loop_field [OF pad_append_not_Nil field_read(7)] z tuple_wf_def nat_less_iff)
  have "ty t < 10000 \<Longrightarrow> nat (ty t) < 10000" by simp
  then show ?thesis
    unfolding readDtime_def default_format_def time_text_def using wf
    by (simp add: loop_field [OF pad_append_not_Nil field_read(1)] loop_field [OF pad_append_not_Nil field_read(2)]
        loop_field [OF pad_append_not_Nil field_read(3)] loop_field [OF pad_append_not_Nil field_read(4)] loop_field [OF pad_append_not_Nil field_read(5)]
        loop_field [OF pad_append_not_Nil field_read(6)] loop_lit plain_def frac [simplified] tuple_wf_def nat_less_iff)
qed

section \<open>Writing and reading a time\<close>

lemma from_days_valid:
  assumes "day_range n"
  shows "valid_date (from_days n)" and "to_days (from_days n) = n"
proof -
  obtain y doy where yd: "n = first_day y + doy" "0 \<le> doy" "doy \<le> 365" "year_start y + doy < year_start (y + 1)" "- 32700 < y" "y < 32700"
    using day_of_year [OF assms] .
  then have "from_days n = dated y (month_day doy)" by (simp add: from_days_split)
  then show "valid_date (from_days n)" "to_days (from_days n) = n" using dated_valid [of doy y] yd by simp_all
qed

lemma valid_date_bounds: "valid_date d \<Longrightarrow> 1 \<le> dmonth d \<and> dmonth d \<le> 12 \<and> 1 \<le> dday d \<and> dday d \<le> 31"
  using last_day_len [of "dmonth d" "dyear d"] by (auto simp: valid_date_def month_len_def split: if_splits)

lemma mk_date_valid: "valid_date d \<Longrightarrow> mk_date (dyear d) (dmonth d) (dday d) = d"
proof -
  assume v: "valid_date d"
  have "to_short (dyear d) = dyear d" using v by (intro to_short_id) (simp_all add: valid_date_def)
  moreover have "to_uchar (dmonth d) = dmonth d" "to_uchar (dday d) = dday d" using valid_date_bounds [OF v] by (simp_all add: to_uchar_id)
  ultimately show ?thesis by (simp add: mk_date_def)
qed

text \<open>The steps of the code that split a time into seconds and nanoseconds give the floor, also before 1970.\<close>

lemma seconds_floor:
  fixes l :: int
  defines "q \<equiv> l sdiv den"
  shows "(if l - q * den < 0 then q - 1 else q) = l div den" and "(if l - q * den < 0 then l - q * den + den else l - q * den) = l mod den"
proof -
  have m: "l div den * den = l - l mod den" "0 \<le> l mod den" "l mod den < den" by (simp_all add: den_def minus_mod_eq_div_mult)
  have "q = l div den \<or> (q = l div den + 1 \<and> l mod den \<noteq> 0)"
    by (auto simp: q_def signed_divide_int_eq_divide_int mod_eq_0_iff_dvd)
  then have "(if l - q * den < 0 then q - 1 else q) = l div den \<and> (if l - q * den < 0 then l - q * den + den else l - q * den) = l mod den"
  proof
    assume q: "q = l div den + 1 \<and> l mod den \<noteq> 0"
    then have "q * den = l - l mod den + den" using m(1) by (simp add: distrib_right)
    then show ?thesis using q m by simp
  qed (use m in simp)
  then show "(if l - q * den < 0 then q - 1 else q) = l div den" "(if l - q * den < 0 then l - q * den + den else l - q * den) = l mod den" by blast+
qed

lemma day_split: "l div den div 86400 = l div day_ns"
  by (simp add: den_def day_ns_def flip: zdiv_zmult2_eq)

definition clock_tuple :: "int \<Rightarrow> string \<Rightarrow> timetuple" where
  "clock_tuple l tz =
     (let d = from_days (l div day_ns); r = l div den mod 86400 in
      \<lparr>ty = dyear d, tm = dmonth d, td = dday d, th = r div 3600, tmn = r mod 3600 div 60, tsec = r mod 3600 mod 60, tnsec = l mod den, ttz = tz\<rparr>)"

lemma clock_ranges:
  fixes r :: int
  assumes "0 \<le> r" "r < 86400"
  shows "0 \<le> r div 3600 \<and> r div 3600 \<le> 23 \<and> 0 \<le> r mod 3600 div 60 \<and> r mod 3600 div 60 \<le> 59 \<and> 0 \<le> r mod 3600 mod 60 \<and> r mod 3600 mod 60 \<le> 59"
    and "r div 3600 * 3600 + r mod 3600 div 60 * 60 + r mod 3600 mod 60 = r"
proof -
  have a: "r mod 3600 div 60 * 60 + r mod 3600 mod 60 = r mod 3600" "r div 3600 * 3600 + r mod 3600 = r" by simp_all
  have "0 \<le> r mod 3600" "r mod 3600 < 3600" "0 \<le> r mod 3600 mod 60" "r mod 3600 mod 60 < 60" by simp_all
  then show "0 \<le> r div 3600 \<and> r div 3600 \<le> 23 \<and> 0 \<le> r mod 3600 div 60 \<and> r mod 3600 div 60 \<le> 59 \<and> 0 \<le> r mod 3600 mod 60 \<and> r mod 3600 mod 60 \<le> 59"
    using a assms by linarith
  show "r div 3600 * 3600 + r mod 3600 div 60 * 60 + r mod 3600 mod 60 = r" using a by linarith
qed

lemma to_string_text:
  assumes "getoffset z dt = Inr (off, abb)" "0 \<le> dyear (from_days ((dt + off) div day_ns))"
  shows "dtime_to_string dt z tz False fractional = Inr (time_text (clock_tuple (dt + off) tz) fractional)"
proof -
  have "l div den - l div den div 86400 * 86400 = l div den mod 86400" for l by (simp add: minus_div_mult_eq_mod)
  then show ?thesis using assms seconds_floor [of "dt + off"]
    by (simp add: dtime_to_string_def time_text_def clock_tuple_def year_string_def Let_def)
qed

lemma clock_tuple_wf:
  assumes "day_range (l div day_ns)" "0 \<le> dyear (from_days (l div day_ns))" "dyear (from_days (l div day_ns)) < 10000" "tz \<noteq> []" "list_all zone_char tz"
  shows "tuple_wf (clock_tuple l tz)"
  using assms valid_date_bounds [OF from_days_valid(1) [OF assms(1)]] clock_ranges(1) [of "l div den mod 86400"]
  by (simp add: tuple_wf_def clock_tuple_def Let_def den_def)

text \<open>The numbers of a local time that one offset only has give its instant.\<close>

lemma from_numbers_clock:
  assumes dr: "day_range (l div day_ns)" and t: "t = clock_tuple l tz" and rv: "getReverseOffset z l = Inr {off}"
  shows "dtime_from_numbers (ty t) (tm t) (td t) (th t) (tmn t) (tsec t) (tnsec t) z = Inr (l - off)"
proof -
  define d r where "d = from_days (l div day_ns)" and "r = l div den mod 86400"
  have v: "valid_date d" "to_days d = l div day_ns" using from_days_valid [OF dr] by (simp_all add: d_def)
  have n: "0 \<le> l mod den" "l mod den < den" "0 \<le> r" "r < 86400" by (simp_all add: den_def r_def)
  have nano: "l mod den \<le> 999999999" using n(2) unfolding den_def by linarith
  have secs: "l div day_ns * 86400 + r = l div den" by (simp add: r_def flip: day_split)
  have "day_ns = 86400 * den" by (simp add: day_ns_def den_def)
  then have "l div day_ns * day_ns + r * den + l mod den = (l div day_ns * 86400 + r) * den + l mod den" by (simp add: algebra_simps)
  also have "\<dots> = l" unfolding secs by simp
  finally have "to_days (mk_date (dyear d) (dmonth d) (dday d)) * day_ns + (r div 3600 * 3600 + r mod 3600 div 60 * 60 + r mod 3600 mod 60) * den + l mod den = l"
    using mk_date_valid [OF v(1)] v(2) clock_ranges(2) [OF n(3,4)] by simp
  then have "dtime_from_numbers (dyear d) (dmonth d) (dday d) (r div 3600) (r mod 3600 div 60) (r mod 3600 mod 60) (l mod den) z = Inr (l - off)"
    using rv nano valid_date_bounds [OF v(1)] clock_ranges(1) [OF n(3,4)]
    by (simp add: dtime_from_numbers_def Let_def den_def [symmetric])
  then show ?thesis by (simp add: t clock_tuple_def Let_def flip: d_def r_def)
qed

text \<open>A time that can be written and read back: away from the transitions, its year has four digits, and no other instant has its local time.\<close>

definition readable :: "tzstate \<Rightarrow> int \<Rightarrow> bool" where
  "readable s dt \<longleftrightarrow>
     (let l = local_time s dt in
      clear_of s dt \<and> day_range (l div day_ns) \<and> 0 \<le> dyear (from_days (l div day_ns)) \<and> dyear (from_days (l div day_ns)) < 10000 \<and>
      TIME_MIN \<le> l sdiv den \<and> (\<forall>c. offset_at s (l sdiv den - c) = c \<longrightarrow> c = offset_at s (dt div den)))"

lemma local_offset_kept:
  assumes "clear_of s dt"
  shows "offset_at s (local_time s dt sdiv den - offset_at s (dt div den)) = offset_at s (dt div den)"
proof -
  define off where "off = offset_at s (dt div den)"
  have "(a \<le> local_time s dt sdiv den - off) = (a \<le> dt div den)" if "a \<in> set (ats s)" for a
  proof -
    have "den \<le> \<bar>dt - a * den\<bar>" using assms that by (simp add: clear_of_def)
    then have "a \<le> dt div den \<longleftrightarrow> a * den < dt" "a + off \<le> local_time s dt sdiv den \<longleftrightarrow> (a + off) * den < local_time s dt"
      using clear_compare(3) [of dt a] clear_compare(2) [of "local_time s dt" "a + off"] by (simp_all add: local_time_def off_def algebra_simps)
    then show ?thesis by (auto simp: local_time_def off_def algebra_simps)
  qed
  then have "offset_at s (local_time s dt sdiv den - off) = offset_at s (dt div den)" unfolding offset_at_def offset_in_def transitions_def
    by (intro fold_cong) (auto simp: timecnt_def)
  then show ?thesis by (simp add: off_def)
qed

lemma readable_text:
  assumes wf: "zone_wf s" and rd: "readable s dt" and tz: "tzones name = Some (mk_zone s)" "name \<noteq> []" "list_all zone_char name"
  shows "\<exists>t txt. dtime_to_string dt (mk_zone s) name False fractional = Inr txt \<and> txt = time_text t fractional \<and> tuple_wf t \<and> dtime_from_timetuple tzones t tz0 = Inr dt"
proof -
  define l off where "l = local_time s dt" and "off = offset_at s (dt div den)"
  have l: "l = dt + off * den" by (simp add: l_def local_time_def off_def)
  have r: "clear_of s dt" "day_range (l div day_ns)" "0 \<le> dyear (from_days (l div day_ns))" "dyear (from_days (l div day_ns)) < 10000"
    "TIME_MIN \<le> l sdiv den" "\<forall>c. offset_at s (l sdiv den - c) = c \<longrightarrow> c = off"
    using rd by (simp_all add: readable_def Let_def l_def off_def)
  obtain abb where g: "getoffset (mk_zone s) dt = Inr (off * den, abb)"
    using getoffset_pos_ok [of "mk_zone s" dt] last_before_offset [of s dt] wf r(1) by (auto simp: mk_zone_def off_def)
  have "{c. offset_at s (l sdiv den - c) = c} = {off}" using r(6) local_offset_kept [OF r(1), folded l_def off_def] by blast
  then obtain ts where ts: "rl_floor (buildRl s) (l sdiv den) = Some ts" "gmtoff s ` ts = {off}" using buildRl_ok [OF wf r(5)] by auto
  have "(\<lambda>i. gmtoff s i * den) ` ts = (\<lambda>c. c * den) ` gmtoff s ` ts" by auto
  then have rv: "getReverseOffset (mk_zone s) l = Inr {off * den}" using ts by (simp add: getReverseOffset_def mk_zone_def)
  have "dtime_to_string dt (mk_zone s) name False fractional = Inr (time_text (clock_tuple l name) fractional)"
    using to_string_text [OF g] r(3) by (simp add: l)
  moreover have "tuple_wf (clock_tuple l name)" using clock_tuple_wf r(2-4) tz(2,3) by blast
  moreover have "dtime_from_timetuple tzones (clock_tuple l name) tz0 = Inr dt"
    using from_numbers_clock [OF r(2) refl rv, of name] tz(1,2) by (simp add: dtime_from_timetuple_def zones_find_def clock_tuple_def Let_def l)
  ultimately show ?thesis by blast
qed



section \<open>Examples\<close>

lemma example_readable: "readable zone_example (5000000 * den + 5)" "readable zone_example (30000000 * den)"
proof -
  have u: "{c. offset_at zone_example (l - c) = c} \<subseteq> {3600, 7200}" for l
    by (auto simp: offset_at_def offset_in_def transitions_def zone_example_def timecnt_def types_at_def gmtoff_def ttis_at_def numeral_2_eq_2 split: if_splits)
  have r: "readable zone_example dt" if "clear_of zone_example dt" "day_range (local_time zone_example dt div day_ns)"
    "0 \<le> dyear (from_days (local_time zone_example dt div day_ns))" "dyear (from_days (local_time zone_example dt div day_ns)) < 10000"
    "TIME_MIN \<le> local_time zone_example dt sdiv den"
    "\<forall>c\<in>set [3600, 7200]. offset_at zone_example (local_time zone_example dt sdiv den - c) = c \<longrightarrow> c = offset_at zone_example (dt div den)" for dt
    using that u [of "local_time zone_example dt sdiv den"] unfolding readable_def Let_def by auto
  show "readable zone_example (5000000 * den + 5)" by (rule r; code_simp)
  show "readable zone_example (30000000 * den)" by (rule r; code_simp)
qed



text \<open>A zone name is read up to the first character that is not a letter, a digit, a slash or an underscore, so that a name with a hyphen is cut.\<close>

lemma zone_name_cut: "readString ''America/Port-au-Prince'' = Inr (''America/Port'', ''-au-Prince'')"
  by code_simp

text \<open>The ceiling to a month in December is January of the same year, before the time itself.\<close>

lemma utc_offset: "getoffset_dir (mk_zone zone_utc) t (- 1) dir = Inr (0, - 1)"
  by (simp add: getoffset_dir_def getoffset_pos_def zone_utc_def mk_zone_def timecnt_def gmtoff_def ttis_at_def)

lemma ceiling_december:
  "ceiling_tz (to_days (mk_date 2015 12 15) * day_ns) MONTH (mk_zone zone_utc) = Inr (to_days (mk_date 2015 1 1) * day_ns)"
  "to_days (mk_date 2015 1 1) < to_days (mk_date 2015 12 15)"
proof -
  have "to_days (mk_date 2015 12 15) * day_ns div day_ns = to_days (mk_date 2015 12 15)" by (simp add: day_ns_def den_def)
  moreover have "from_days (to_days (mk_date 2015 12 15)) = mk_date 2015 12 15" "dyear (mk_date 2015 12 15) = 2015" "dmonth (mk_date 2015 12 15) = 12" by code_simp+
  ultimately show "ceiling_tz (to_days (mk_date 2015 12 15) * day_ns) MONTH (mk_zone zone_utc) = Inr (to_days (mk_date 2015 1 1) * day_ns)"
    by (simp add: ceiling_tz_def local_days_def back_to_utc_def utc_offset)
qed code_simp

text \<open>Before 1970 the floor to an hour is after the time, and a time on the hour is moved by its ceiling.\<close>

lemma floor_before_1970:
  "floor_unit (- 1) HOUR = Inr 0" "ceiling_unit (2 * 3600 * den) HOUR = Inr (3 * 3600 * den)"
  by code_simp+

end
