(* ===== verification/Ast.thy ===== *)
theory Ast
  imports Intervals Durations
begin

text \<open>
  The abstract syntax (\<open>src/src/ast.hpp\<close>, \<open>src/src/ast.cpp\<close>): the node types, structural equality, the bound variables of a request,
  and the loop that a \<open>for\<close> is turned into. A pointer that may be null is an \<open>option\<close>, a linked list of nodes is a list, the one-element
  array of a literal is its element, and locations in the text of the program are left out. Operators are the numbers of their tokens.
\<close>

section \<open>Nodes\<close>

datatype E =
    Empty | Null | Next | Break | Ellipsis
  | Bool bool
  | Double "64 word"
  | Dtime dtime
  | IntervalE interval
  | Symbol string bool
  | String string
  | Boundvar string
  | Escape E
  | Invoke string
  | Unop nat E
  | Binop nat E E E
  | El "E list"
  | While E E
  | IfElse E E E
  | For E
  | LeftAssign E E
  | SpecialAssign E E
  | Request E E
  | TaggedExpr string bool E
  | Function "E list option" E
  | Funcall E "E list option"
  | Code E
  | Arg bool E

text \<open>The enumeration \<open>Etype\<close>.\<close>

fun etype :: "E \<Rightarrow> nat" where
  "etype Empty = 0" | "etype Null = 1" | "etype Next = 2" | "etype Break = 3" | "etype Ellipsis = 4"
| "etype (Bool _) = 5" | "etype (Double _) = 6" | "etype (Dtime _) = 7" | "etype (IntervalE _) = 8"
| "etype (Symbol _ _) = 9" | "etype (String _) = 10" | "etype (Boundvar _) = 11" | "etype (Escape _) = 12" | "etype (Invoke _) = 13"
| "etype (Unop _ _) = 14" | "etype (Binop _ _ _ _) = 15" | "etype (El _) = 16" | "etype (While _ _) = 17" | "etype (IfElse _ _ _) = 18"
| "etype (For _) = 19" | "etype (LeftAssign _ _) = 20" | "etype (SpecialAssign _ _) = 21" | "etype (Request _ _) = 22"
| "etype (TaggedExpr _ _ _) = 23" | "etype (Function _ _) = 24" | "etype (Funcall _ _) = 25" | "etype (Code _) = 26" | "etype (Arg _ _) = 27"

section \<open>Structural equality\<close>

text \<open>A conjunction that is evaluated from the left.\<close>

definition andR :: "bool res \<Rightarrow> bool res \<Rightarrow> bool res" where
  "andR a b = bindR a (\<lambda>x. if x then b else Inr False)"

text \<open>The comparison of two doubles is \<open>deq\<close>. References to a null list are followed without a test; intervals have no case.\<close>

fun isEqual :: "(64 word \<Rightarrow> 64 word \<Rightarrow> bool) \<Rightarrow> E \<Rightarrow> E \<Rightarrow> bool res"
  and isEqual_list :: "(64 word \<Rightarrow> 64 word \<Rightarrow> bool) \<Rightarrow> E list \<Rightarrow> E list \<Rightarrow> bool res"
  and isEqual_ptr :: "(64 word \<Rightarrow> 64 word \<Rightarrow> bool) \<Rightarrow> E list option \<Rightarrow> E list option \<Rightarrow> bool res" where
  "isEqual deq Empty e = Inr (e = Empty)"
| "isEqual deq Null e = Inr (e = Null)"
| "isEqual deq Next e = Inr (e = Next)"
| "isEqual deq Break e = Inr (e = Break)"
| "isEqual deq Ellipsis e = Inr (e = Ellipsis)"
| "isEqual deq (Bool a) e = (case e of Bool b \<Rightarrow> Inr (a = b) | _ \<Rightarrow> Inr False)"
| "isEqual deq (Double a) e = (case e of Double b \<Rightarrow> Inr (deq a b) | _ \<Rightarrow> Inr False)"
| "isEqual deq (Dtime a) e = (case e of Dtime b \<Rightarrow> Inr (a = b) | _ \<Rightarrow> Inr False)"
| "isEqual deq (IntervalE a) e = (case e of IntervalE b \<Rightarrow> Inl (DomainError ''ast::isEqual: unknow etype 8'') | _ \<Rightarrow> Inr False)"
| "isEqual deq (Symbol a r) e = (case e of Symbol b q \<Rightarrow> Inr (a = b) | _ \<Rightarrow> Inr False)"
| "isEqual deq (String a) e = (case e of String b \<Rightarrow> Inr (a = b) | _ \<Rightarrow> Inr False)"
| "isEqual deq (Invoke a) e = (case e of Invoke b \<Rightarrow> Inr (a = b) | _ \<Rightarrow> Inr False)"
| "isEqual deq (Boundvar a) e = (case e of Boundvar b \<Rightarrow> Inr (a = b) | _ \<Rightarrow> Inr False)"
| "isEqual deq (Escape a) e = (case e of Escape b \<Rightarrow> isEqual deq a b | _ \<Rightarrow> Inr False)"
| "isEqual deq (Unop p a) e = (case e of Unop q b \<Rightarrow> (if p = q then isEqual deq a b else Inr False) | _ \<Rightarrow> Inr False)"
| "isEqual deq (Binop p a b c) e = (case e of Binop q x y z \<Rightarrow> (if p = q then andR (isEqual deq a x) (isEqual deq b y) else Inr False) | _ \<Rightarrow> Inr False)"
| "isEqual deq (El as) e = (case e of El bs \<Rightarrow> isEqual_list deq as bs | _ \<Rightarrow> Inr False)"
| "isEqual deq (While a b) e = (case e of While x y \<Rightarrow> andR (isEqual deq a x) (isEqual deq b y) | _ \<Rightarrow> Inr False)"
| "isEqual deq (IfElse a b c) e = (case e of IfElse x y z \<Rightarrow> andR (isEqual deq a x) (andR (isEqual deq b y) (isEqual deq c z)) | _ \<Rightarrow> Inr False)"
| "isEqual deq (For a) e = (case e of For b \<Rightarrow> isEqual deq a b | _ \<Rightarrow> Inr False)"
| "isEqual deq (LeftAssign a b) e = (case e of LeftAssign x y \<Rightarrow> andR (isEqual deq a x) (isEqual deq b y) | _ \<Rightarrow> Inr False)"
| "isEqual deq (SpecialAssign a b) e = (case e of SpecialAssign x y \<Rightarrow> andR (isEqual deq a x) (isEqual deq b y) | _ \<Rightarrow> Inr False)"
| "isEqual deq (Request a b) e = (case e of Request x y \<Rightarrow> andR (isEqual deq a x) (isEqual deq b y) | _ \<Rightarrow> Inr False)"
| "isEqual deq (TaggedExpr s r a) e = (case e of TaggedExpr t q b \<Rightarrow> (if s = t then isEqual deq a b else Inr False) | _ \<Rightarrow> Inr False)"
| "isEqual deq (Arg r a) e = (case e of Arg q b \<Rightarrow> isEqual deq a b | _ \<Rightarrow> Inr False)"
| "isEqual deq (Function as a) e = (case e of Function bs b \<Rightarrow> andR (isEqual_ptr deq as bs) (isEqual deq a b) | _ \<Rightarrow> Inr False)"
| "isEqual deq (Funcall a as) e = (case e of Funcall b bs \<Rightarrow> andR (isEqual deq a b) (isEqual_ptr deq as bs) | _ \<Rightarrow> Inr False)"
| "isEqual deq (Code a) e = (case e of Code b \<Rightarrow> isEqual deq a b | _ \<Rightarrow> Inr False)"
| "isEqual_list deq [] bs = Inr (bs = [])"
| "isEqual_list deq (a # as) bs =
     (case bs of [] \<Rightarrow> Inr False
      | b # bs' \<Rightarrow> if length as = length bs' then andR (isEqual deq a b) (isEqual_list deq as bs') else Inr False)"
| "isEqual_ptr deq None bs = Inl UB"
| "isEqual_ptr deq (Some as) bs = (case bs of None \<Rightarrow> Inl UB | Some bs' \<Rightarrow> isEqual_list deq as bs')"

section \<open>Bound variables\<close>

text \<open>The variables of the inner request of a request belong to the other side. Escapes and invocations have no case.\<close>

fun getBoundVars :: "E \<Rightarrow> string set \<Rightarrow> string set res" where
  "getBoundVars (Boundvar s) ss = Inr (insert s ss)"
| "getBoundVars (Unop _ e) ss = getBoundVars e ss"
| "getBoundVars (Binop _ l r _) ss = bindR (getBoundVars l ss) (getBoundVars r)"
| "getBoundVars (El es) ss = foldR getBoundVars es ss"
| "getBoundVars (While a b) ss = bindR (getBoundVars a ss) (getBoundVars b)"
| "getBoundVars (IfElse a b c) ss = bindR (getBoundVars a ss) (\<lambda>s. bindR (getBoundVars b s) (getBoundVars c))"
| "getBoundVars (For e) ss = getBoundVars e ss"
| "getBoundVars (LeftAssign a b) ss = bindR (getBoundVars a ss) (getBoundVars b)"
| "getBoundVars (SpecialAssign a b) ss = bindR (getBoundVars a ss) (getBoundVars b)"
| "getBoundVars (Request a b) ss = getBoundVars a ss"
| "getBoundVars (TaggedExpr _ _ e) ss = getBoundVars e ss"
| "getBoundVars (Arg _ e) ss = getBoundVars e ss"
| "getBoundVars (Function fl b) ss = (case fl of None \<Rightarrow> Inl UB | Some l \<Rightarrow> bindR (getBoundVars (El l) ss) (getBoundVars b))"
| "getBoundVars (Funcall e fl) ss = bindR (getBoundVars e ss) (\<lambda>s. case fl of None \<Rightarrow> Inl UB | Some l \<Rightarrow> getBoundVars (El l) s)"
| "getBoundVars (Code e) ss = getBoundVars e ss"
| "getBoundVars (Escape e) ss = Inl (DomainError ''ast::getBoundVars: unknown etype 12'')"
| "getBoundVars (Invoke s) ss = Inl (DomainError ''ast::getBoundVars: unknown etype 13'')"
| "getBoundVars _ ss = Inr ss"

section \<open>Loops over the elements of a vector\<close>

text \<open>A new symbol: the prefix and the next number of a counter.\<close>

definition gensym :: "string \<Rightarrow> nat \<Rightarrow> string \<times> nat" where
  "gensym p n = (p @ dec (n + 1), n + 1)"

definition one :: "64 word" where
  "one = 0x3FF0000000000000"

text \<open>The constructor of \<open>For\<close>; \<open>LE\<close> and \<open>PLUS\<close> are the numbers of the tokens in the generated parser.\<close>

definition mk_For :: "nat \<Rightarrow> nat \<Rightarrow> E \<Rightarrow> E \<Rightarrow> E \<Rightarrow> nat \<Rightarrow> E \<times> nat" where
  "mk_For LE PLUS s inexpr body n =
     (let (foridx, n1) = gensym ''?foridx'' n; (inname, n2) = gensym ''?inexpr'' n1;
          index = Symbol foridx False; inexprSymbol = Symbol inname False;
          lengthExpr = Funcall (Symbol ''length'' False) (Some [Arg False inexprSymbol]);
          whileCond = Binop LE index lengthExpr Null;
          dblsubset = Funcall (Symbol ''dblsubset'' False) (Some [Arg False inexprSymbol, Arg False index]);
          increment = Binop PLUS index (Double one) Null;
          whileBody = El [LeftAssign s dblsubset, body, LeftAssign index increment]
      in (For (El [LeftAssign inexprSymbol inexpr, LeftAssign index (Double one), While whileCond whileBody]), n2))"

section \<open>What equality compares\<close>

text \<open>The parts that \<open>isEqual\<close> looks at: without the reference marks and the attributes of binary operators.\<close>

fun erase_marks :: "E \<Rightarrow> E" where
  "erase_marks (Symbol s r) = Symbol s False"
| "erase_marks (Escape e) = Escape (erase_marks e)"
| "erase_marks (Unop p e) = Unop p (erase_marks e)"
| "erase_marks (Binop p l r a) = Binop p (erase_marks l) (erase_marks r) Null"
| "erase_marks (El es) = El (map erase_marks es)"
| "erase_marks (While a b) = While (erase_marks a) (erase_marks b)"
| "erase_marks (IfElse a b c) = IfElse (erase_marks a) (erase_marks b) (erase_marks c)"
| "erase_marks (For e) = For (erase_marks e)"
| "erase_marks (LeftAssign a b) = LeftAssign (erase_marks a) (erase_marks b)"
| "erase_marks (SpecialAssign a b) = SpecialAssign (erase_marks a) (erase_marks b)"
| "erase_marks (Request a b) = Request (erase_marks a) (erase_marks b)"
| "erase_marks (TaggedExpr s r e) = TaggedExpr s False (erase_marks e)"
| "erase_marks (Function fl e) = Function (map_option (map erase_marks) fl) (erase_marks e)"
| "erase_marks (Funcall e fl) = Funcall (erase_marks e) (map_option (map erase_marks) fl)"
| "erase_marks (Code e) = Code (erase_marks e)"
| "erase_marks (Arg r e) = Arg False (erase_marks e)"
| "erase_marks e = e"

text \<open>Trees without intervals and without null lists.\<close>

fun comparable :: "E \<Rightarrow> bool" where
  "comparable (IntervalE i) = False"
| "comparable (Escape e) = comparable e"
| "comparable (Unop p e) = comparable e"
| "comparable (Binop p l r a) = (comparable l \<and> comparable r)"
| "comparable (El es) = list_all comparable es"
| "comparable (While a b) = (comparable a \<and> comparable b)"
| "comparable (IfElse a b c) = (comparable a \<and> comparable b \<and> comparable c)"
| "comparable (For e) = comparable e"
| "comparable (LeftAssign a b) = (comparable a \<and> comparable b)"
| "comparable (SpecialAssign a b) = (comparable a \<and> comparable b)"
| "comparable (Request a b) = (comparable a \<and> comparable b)"
| "comparable (TaggedExpr s r e) = comparable e"
| "comparable (Function fl e) = (fl \<noteq> None \<and> pred_option (list_all comparable) fl \<and> comparable e)"
| "comparable (Funcall e fl) = (comparable e \<and> fl \<noteq> None \<and> pred_option (list_all comparable) fl)"
| "comparable (Code e) = comparable e"
| "comparable (Arg r e) = comparable e"
| "comparable e = True"

lemma andR_simps [simp]: "andR (Inr a) (Inr b) = Inr (a \<and> b)"
  by (simp add: andR_def)

lemma map_eq_Cons_lengths: "map f xs = map g ys \<Longrightarrow> length xs = length ys"
  by (metis length_map)

lemma erased_leaf:
  "(Empty = erase_marks e) = (e = Empty)" "(Null = erase_marks e) = (e = Null)" "(Next = erase_marks e) = (e = Next)"
  "(Break = erase_marks e) = (e = Break)" "(Ellipsis = erase_marks e) = (e = Ellipsis)"
  by (cases e; simp)+

lemma isEqual_erased:
  "comparable a \<Longrightarrow> comparable b \<Longrightarrow> isEqual (=) a b = Inr (erase_marks a = erase_marks b)"
  "list_all comparable as \<Longrightarrow> list_all comparable bs \<Longrightarrow> isEqual_list (=) as bs = Inr (map erase_marks as = map erase_marks bs)"
  "fl \<noteq> None \<Longrightarrow> pred_option (list_all comparable) fl \<Longrightarrow> gl \<noteq> None \<Longrightarrow> pred_option (list_all comparable) gl \<Longrightarrow>
     isEqual_ptr (=) fl gl = Inr (map_option (map erase_marks) fl = map_option (map erase_marks) gl)"
proof (induction "(=) :: 64 word \<Rightarrow> 64 word \<Rightarrow> bool" a b and "(=) :: 64 word \<Rightarrow> 64 word \<Rightarrow> bool" as bs and "(=) :: 64 word \<Rightarrow> 64 word \<Rightarrow> bool" fl gl
    rule: isEqual_isEqual_list_isEqual_ptr.induct)
qed (simp add: erased_leaf split: E.split list.split option.split; auto dest: map_eq_Cons_lengths)+

end
