(* ===== verification/Anf.thy ===== *)
theory Anf
  imports Ast
begin

text \<open>
  The normal form in which programs are interpreted (\<open>src/src/anf.cpp\<close>): operands become atomic, and what they were is assigned to new
  symbols in statements that are put before. The code inserts these statements into linked lists at a moving position, one list for the
  block of the statement and one for the top level; here a function returns them in order, each with its destination. When both lists are
  the same, as at the top level, all of them are inserted in this order. New symbols are numbered by a counter.
\<close>

section \<open>Normalisation\<close>

fun isAtomic :: "E \<Rightarrow> bool" where
  "isAtomic (Bool _) = True" | "isAtomic (Double _) = True" | "isAtomic (Binop _ _ _ _) = True" | "isAtomic (Symbol _ _) = True"
| "isAtomic (Boundvar _) = True" | "isAtomic Null = True" | "isAtomic Next = True" | "isAtomic Break = True" | "isAtomic Ellipsis = True"
| "isAtomic (String _) = True" | "isAtomic (Dtime _) = True" | "isAtomic (IntervalE _) = True" | "isAtomic (TaggedExpr _ _ _) = True"
| "isAtomic (Arg _ _) = True" | "isAtomic _ = False"

fun strip :: "E \<Rightarrow> E" where
  "strip (El [x]) = x"
| "strip e = e"

definition is_Funcall :: "E \<Rightarrow> bool" where
  "is_Funcall e \<longleftrightarrow> etype e = 25"

definition is_LeftAssign :: "E \<Rightarrow> bool" where
  "is_LeftAssign e \<longleftrightarrow> etype e = 20"

definition is_SpecialAssign :: "E \<Rightarrow> bool" where
  "is_SpecialAssign e \<longleftrightarrow> etype e = 21"

fun assigned :: "E \<Rightarrow> E" where
  "assigned (LeftAssign a b) = a"
| "assigned (SpecialAssign a b) = a"
| "assigned e = e"

datatype dest = Local | Top

type_synonym emits = "(dest \<times> E) list"
type_synonym 'a norm_res = "('a \<times> emits \<times> nat) res"

text \<open>A loop over a list whose body normalises an element.\<close>

fun mapN :: "('a \<Rightarrow> nat \<Rightarrow> 'b norm_res) \<Rightarrow> 'a list \<Rightarrow> nat \<Rightarrow> 'b list norm_res" where
  "mapN f [] n = Inr ([], [], n)"
| "mapN f (x # xs) n = bindR (f x n) (\<lambda>(y, em, n1). bindR (mapN f xs n1) (\<lambda>(ys, em', n2). Inr (y # ys, em @ em', n2)))"

lemma mapN_cong [fundef_cong]: "xs = ys \<Longrightarrow> n = m \<Longrightarrow> (\<And>x k. x \<in> set ys \<Longrightarrow> f x k = g x k) \<Longrightarrow> mapN f xs n = mapN g ys m"
proof (induction xs arbitrary: ys n m)
  case (Cons x xs)
  then have "mapN f xs k = mapN g xs k" for k by auto
  then show ?case using Cons by auto
qed simp

definition locals :: "emits \<Rightarrow> E list" where
  "locals em = map snd (filter (\<lambda>x. fst x = Local) em)"

definition tops :: "emits \<Rightarrow> emits" where
  "tops em = filter (\<lambda>x. fst x = Top) em"

text \<open>A statement with the statements that go before it in its block.\<close>

definition in_block :: "E norm_res \<Rightarrow> E list norm_res" where
  "in_block r = bindR r (\<lambda>(e, em, n). Inr (locals em @ [e], tops em, n))"

definition wrapN :: "('a \<Rightarrow> 'b) \<Rightarrow> 'a norm_res \<Rightarrow> 'b norm_res" where
  "wrapN f r = bindR r (\<lambda>(x, em, n). Inr (f x, em, n))"

definition thenN :: "'a norm_res \<Rightarrow> ('a \<Rightarrow> nat \<Rightarrow> 'b norm_res) \<Rightarrow> 'b norm_res" where
  "thenN r f = bindR r (\<lambda>(x, em, n). bindR (f x n) (\<lambda>(y, em', n'). Inr (y, em @ em', n')))"

lemma thenN_cong [fundef_cong]: "r = r' \<Longrightarrow> (\<And>x em n. r' = Inr (x, em, n) \<Longrightarrow> f x n = f' x n) \<Longrightarrow> thenN r f = thenN r' f'"
  by (cases r') (auto simp: thenN_def)

abbreviation domain_err :: "string \<Rightarrow> 'a res" where
  "domain_err m \<equiv> Inl (DomainError m)"

text \<open>Stripping makes a tree no larger, and the elements of a block are smaller than the block.\<close>

lemma size_strip: "2 * size (strip e) < Suc (2 * size e)"
  by (cases e rule: strip.cases) simp_all

lemma size_elem: "c \<in> set l \<Longrightarrow> 2 * size c + 1 < 2 * size_list size l"
  by (induction l) auto

lemma size_block: "c \<in> set (case e of El es \<Rightarrow> es | _ \<Rightarrow> [e]) \<Longrightarrow> 2 * size c < Suc (2 * size e)"
  by (cases e) (auto dest: size_elem)

function (sequential) norm :: "bool \<Rightarrow> E \<Rightarrow> nat \<Rightarrow> E norm_res"
  and normName :: "bool \<Rightarrow> E \<Rightarrow> nat \<Rightarrow> E norm_res"
  and normTerm :: "bool \<Rightarrow> E \<Rightarrow> nat \<Rightarrow> E norm_res" where
  "norm bnd (Funcall f fl) n =
     thenN (normName bnd f n) (\<lambda>f' n1.
       case fl of None \<Rightarrow> Inr (Funcall f' None, [], n1)
       | Some l \<Rightarrow> wrapN (\<lambda>l'. Funcall f' (Some l'))
           (mapN (\<lambda>a k. case a of
               TaggedExpr s r e \<Rightarrow> wrapN (TaggedExpr s r) (normTerm bnd e k)
             | Arg r e \<Rightarrow> wrapN (Arg r) (normTerm bnd e k)
             | _ \<Rightarrow> domain_err ''anf::norm: argument is not a tagged expression or an arg'') l n1))"
| "norm bnd (LeftAssign a b) n =
     wrapN (LeftAssign a) (if is_Funcall b then norm bnd b n else normName bnd b n)"
| "norm bnd (SpecialAssign a b) n =
     (if is_Funcall b then bindR (norm bnd b n) (\<lambda>_. Inl UB) else wrapN (SpecialAssign a) (normName bnd b n))"
| "norm bnd (Unop p e) n = wrapN (Unop p) (normName bnd e n)"
| "norm bnd (Binop p l r a) n =
     thenN (normName bnd l n) (\<lambda>l' n1. thenN (normName bnd r n1) (\<lambda>r' n2. wrapN (Binop p l' r') (normName bnd a n2)))"
| "norm bnd (El es) n = wrapN El (mapN (\<lambda>e k. normTerm bnd e k) es n)"
| "norm bnd (Function fl b) n =
     thenN (case fl of None \<Rightarrow> Inr (None, [], n)
       | Some l \<Rightarrow> wrapN Some (mapN (\<lambda>a k. case a of
               TaggedExpr s r e \<Rightarrow> wrapN (\<lambda>e'. TaggedExpr s r (strip e')) (normTerm bnd e k)
             | Symbol s r \<Rightarrow> Inr (a, [], k)
             | Ellipsis \<Rightarrow> Inr (a, [], k)
             | _ \<Rightarrow> domain_err ''anf::norm: formlist has invalid type element'') l n))
       (\<lambda>fl' n1. wrapN (Function fl') (normTerm bnd b n1))"
| "norm bnd (IfElse c a b) n =
     thenN (normName bnd c n) (\<lambda>c' n1. thenN (normTerm bnd a n1) (\<lambda>a' n2. wrapN (IfElse c' a') (normTerm bnd b n2)))"
| "norm bnd (While a b) n = thenN (normTerm bnd a n) (\<lambda>a' n1. wrapN (While a') (normTerm bnd b n1))"
| "norm bnd (For e) n = wrapN For (normTerm bnd e n)"
| "norm bnd (Request a b) n =
     thenN (normName bnd a n) (\<lambda>a' n1.
       bindR (normTerm bnd b n1) (\<lambda>(b', em, n2). Inr (Request a' b', map (\<lambda>x. (Local, snd x)) em, n2)))"
| "norm bnd (Escape e) n =
     (if bnd then
        bindR (normTerm True e n) (\<lambda>(e', em, n1).
          let (s, n2) = gensym ''?bnd'' n1 in Inr (Boundvar s, em @ [(Top, LeftAssign (Symbol s False) e')], n2))
      else let (s, n2) = gensym ''?bnd'' n in Inr (Boundvar s, [], n2))"
| "norm bnd (Code e) n = wrapN Code (normName bnd e n)"
| "norm bnd e n = Inr (e, [], n)"
| "normName bnd e0 n =
     (let e = strip e0 in
      if is_LeftAssign e then
        bindR (norm bnd e n) (\<lambda>(la, em, n1).
          let (s, n2) = gensym ''?anf'' n1 in
          Inr (Symbol s False, em @ [(Local, la), (Local, LeftAssign (Symbol s False) (assigned la))], n2))
      else if is_SpecialAssign e then Inr (assigned e, [(Local, e)], n)
      else if \<not> isAtomic e then
        let (s, n1) = gensym ''?anf'' n in
        bindR (norm bnd e n1) (\<lambda>(e', em, n2). Inr (Symbol s False, em @ [(Local, LeftAssign (Symbol s False) e')], n2))
      else norm bnd e n)"
| "normTerm bnd e n =
     (let es = (case e of El es \<Rightarrow> es | _ \<Rightarrow> [e]) in
      wrapN (\<lambda>ls. strip (El (concat ls))) (mapN (\<lambda>c k. in_block (norm bnd c k)) es n))"
  by pat_completeness auto

termination
proof (relation "measure (\<lambda>x. case x of Inl (bnd, e, n) \<Rightarrow> 2 * size e | Inr (Inl (bnd, e, n)) \<Rightarrow> 2 * size e + 1 | Inr (Inr (bnd, e, n)) \<Rightarrow> 2 * size e + 1)", goal_cases)
qed (auto simp: size_strip size_block dest: size_elem)

declare normName.simps [simp del] normTerm.simps [simp del]

text \<open>At the top level both lists are that of the program.\<close>

definition convertToANF :: "bool \<Rightarrow> E list \<Rightarrow> nat \<Rightarrow> E list norm_res" where
  "convertToANF bnd es n =
     wrapN concat (mapN (\<lambda>c k. bindR (norm bnd c k) (\<lambda>(e, em, k'). Inr (map snd em @ [e], [], k'))) es n)"

section \<open>The normal form\<close>

text \<open>Operands, conditions and the functions of calls are atomic, no assignment is assigned, and no escape is left.\<close>

definition not_assign :: "E \<Rightarrow> bool" where
  "not_assign e \<longleftrightarrow> \<not> is_LeftAssign e \<and> \<not> is_SpecialAssign e"

fun nf :: "E \<Rightarrow> bool" where
  "nf (Escape e) = False"
| "nf (Unop p e) = (isAtomic e \<and> nf e)"
| "nf (Binop p l r a) = (isAtomic l \<and> isAtomic r \<and> isAtomic a \<and> nf l \<and> nf r \<and> nf a)"
| "nf (El es) = list_all nf es"
| "nf (While a b) = (nf a \<and> nf b)"
| "nf (IfElse c a b) = (isAtomic c \<and> nf c \<and> nf a \<and> nf b)"
| "nf (For e) = nf e"
| "nf (LeftAssign a b) = (nf b \<and> not_assign b)"
| "nf (SpecialAssign a b) = (isAtomic b \<and> nf b)"
| "nf (Request a b) = (isAtomic a \<and> nf a \<and> nf b)"
| "nf (TaggedExpr s r e) = nf e"
| "nf (Function fl e) = (pred_option (list_all nf) fl \<and> nf e)"
| "nf (Funcall e fl) = (isAtomic e \<and> nf e \<and> pred_option (list_all nf) fl)"
| "nf (Code e) = (isAtomic e \<and> nf e)"
| "nf (Arg r e) = nf e"
| "nf e = True"

text \<open>The programs for which this is shown: arguments and formal parameters are what the parser makes of them, the target of an assignment is
  in normal form, an escape is not an assignment, and a global assignment is neither an operand nor assigns the result of a call.\<close>

fun src :: "E \<Rightarrow> bool" and operand :: "E \<Rightarrow> bool" where
  "src (Escape e) = (src e \<and> not_assign (strip e))"
| "src (Unop p e) = operand e"
| "src (Binop p l r a) = (operand l \<and> operand r \<and> operand a)"
| "src (El es) = list_all src es"
| "src (While a b) = (src a \<and> src b)"
| "src (IfElse c a b) = (operand c \<and> src a \<and> src b)"
| "src (For e) = src e"
| "src (LeftAssign a b) = (nf a \<and> not_assign a \<and> operand b)"
| "src (SpecialAssign a b) = (\<not> is_Funcall b \<and> operand b)"
| "src (Request a b) = (operand a \<and> src b)"
| "src (Function fl e) = (pred_option (list_all (\<lambda>a. case a of TaggedExpr s r d \<Rightarrow> src d | Symbol s r \<Rightarrow> True | Ellipsis \<Rightarrow> True | _ \<Rightarrow> False)) fl \<and> src e)"
| "src (Funcall e fl) = (operand e \<and> pred_option (list_all (\<lambda>a. case a of TaggedExpr s r d \<Rightarrow> src d | Arg r d \<Rightarrow> src d | _ \<Rightarrow> False)) fl)"
| "src (Code e) = operand e"
| "src (TaggedExpr s r e) = False"
| "src (Arg r e) = False"
| "src e = True"
| "operand (El [x]) = (src x \<and> \<not> is_SpecialAssign x)"
| "operand e = (src e \<and> \<not> is_SpecialAssign e)"

lemma operand_strip: "operand e = (src (strip e) \<and> \<not> is_SpecialAssign (strip e))"
  by (cases e rule: strip.cases) simp_all

lemma isAtomic_etype: "isAtomic e \<longleftrightarrow> etype e \<in> {1, 2, 3, 4, 5, 6, 7, 8, 9, 10, 11, 15, 23, 27}"
  by (cases e) simp_all

section \<open>Normalisation gives the normal form\<close>

text \<open>A step that succeeds with a result in \<open>Q\<close> and puts only normal forms before.\<close>

definition nfR :: "('a \<Rightarrow> bool) \<Rightarrow> 'a norm_res \<Rightarrow> bool" where
  "nfR Q r \<longleftrightarrow> (\<exists>x em n. r = Inr (x, em, n) \<and> Q x \<and> (\<forall>y\<in>set em. nf (snd y)))"

lemma nfR_Inr: "Q x \<Longrightarrow> \<forall>y\<in>set em. nf (snd y) \<Longrightarrow> nfR Q (Inr (x, em, n))"
  by (simp add: nfR_def)

lemma nfR_wrap: "nfR (\<lambda>x. Q (f x)) r \<Longrightarrow> nfR Q (wrapN f r)"
  by (auto simp: nfR_def wrapN_def)

lemma nfR_then: "nfR P r \<Longrightarrow> (\<And>x n. P x \<Longrightarrow> nfR Q (f x n)) \<Longrightarrow> nfR Q (thenN r f)"
proof -
  assume r: "nfR P r" and f: "\<And>x n. P x \<Longrightarrow> nfR Q (f x n)"
  obtain x em n where x: "r = Inr (x, em, n)" "P x" "\<forall>y\<in>set em. nf (snd y)" using r by (auto simp: nfR_def)
  obtain y em' n' where "f x n = Inr (y, em', n')" "Q y" "\<forall>y\<in>set em'. nf (snd y)" using f [OF x(2), of n] by (auto simp: nfR_def)
  then show ?thesis using x by (auto simp: nfR_def thenN_def)
qed

lemma nfR_map: "(\<And>x n. x \<in> set xs \<Longrightarrow> nfR P (f x n)) \<Longrightarrow> nfR (list_all P) (mapN f xs n)"
proof (induction xs arbitrary: n)
  case (Cons x xs)
  obtain y em n1 where y: "f x n = Inr (y, em, n1)" "P y" "\<forall>z\<in>set em. nf (snd z)" using Cons(2) [of x n] by (auto simp: nfR_def)
  obtain ys em' n2 where "mapN f xs n1 = Inr (ys, em', n2)" "list_all P ys" "\<forall>z\<in>set em'. nf (snd z)" using Cons(1) [of n1] Cons(2) by (force simp: nfR_def)
  then show ?case using y by (auto simp: nfR_def)
qed (simp add: nfR_def)

lemma nfR_relabel: "nfR P r \<Longrightarrow> (\<And>x. P x \<Longrightarrow> Q (f x)) \<Longrightarrow> nfR Q (bindR r (\<lambda>(x, em, n). Inr (f x, map (\<lambda>y. (Local, snd y)) em, n)))"
  by (auto simp: nfR_def)

lemma nfR_mono: "nfR P r \<Longrightarrow> (\<And>x. P x \<Longrightarrow> Q x) \<Longrightarrow> nfR Q r"
  by (auto simp: nfR_def)

text \<open>What is shown of the three functions.\<close>

definition same_kind :: "E \<Rightarrow> E \<Rightarrow> bool" where
  "same_kind e e' \<longleftrightarrow> etype e' = (if etype e = 12 then 11 else etype e)"

definition norm_ok :: "E \<Rightarrow> bool" where
  "norm_ok e \<longleftrightarrow> (\<forall>bnd n.
     (src e \<longrightarrow> nfR (\<lambda>x. nf x \<and> same_kind e x) (norm bnd e n)) \<and>
     (operand e \<longrightarrow> nfR (\<lambda>x. nf x \<and> isAtomic x) (normName bnd e n)) \<and>
     (src e \<longrightarrow> nfR (\<lambda>x. nf x \<and> (not_assign (strip e) \<longrightarrow> not_assign x)) (normTerm bnd e n)))"

lemma norm_okD:
  assumes "norm_ok e"
  shows "src e \<Longrightarrow> nfR (\<lambda>x. nf x \<and> same_kind e x) (norm bnd e n)" "operand e \<Longrightarrow> nfR (\<lambda>x. nf x \<and> isAtomic x) (normName bnd e n)"
    "src e \<Longrightarrow> nfR (\<lambda>x. nf x \<and> (not_assign (strip e) \<longrightarrow> not_assign x)) (normTerm bnd e n)"
  using assms by (simp_all add: norm_ok_def)

lemma norm_ok_term: "norm_ok e \<Longrightarrow> src e \<Longrightarrow> nfR nf (normTerm bnd e n)"
  by (rule nfR_mono [OF norm_okD(3)]) simp_all

lemma nf_strip: "nf e \<Longrightarrow> nf (strip e)"
  by (cases e rule: strip.cases) simp_all

lemma smaller_elem: "x \<in> set l \<Longrightarrow> size x < size_list size l"
  using size_elem [of x l] by simp

text \<open>One statement, when the claim holds of everything smaller.\<close>

lemma norm_call:
  assumes IH: "\<And>x. size x < size e \<Longrightarrow> norm_ok x" and e: "src e" and Funcall: "e = Funcall f fl"
  shows "nfR (\<lambda>x. nf x \<and> same_kind e x) (norm bnd e n)"
proof -
  have nt: "nfR nf (normTerm bnd x k)" if "size x < size e" "src x" for x k using norm_ok_term [OF IH] that .
  have arg: "nfR nf (case a of TaggedExpr s r d \<Rightarrow> wrapN (TaggedExpr s r) (normTerm bnd d k) | Arg r d \<Rightarrow> wrapN (Arg r) (normTerm bnd d k)
      | _ \<Rightarrow> domain_err ''anf::norm: argument is not a tagged expression or an arg'')" if "fl = Some l" "a \<in> set l" for l a k
  proof -
    have "size a < size e" using that Funcall smaller_elem [of a l] by auto
    moreover have "case a of TaggedExpr s r d \<Rightarrow> src d | Arg r d \<Rightarrow> src d | _ \<Rightarrow> False" using e Funcall that by (simp add: list_all_iff)
    ultimately show ?thesis by (cases a) (auto intro!: nfR_wrap nt)
  qed
  have "nfR (\<lambda>x. nf x \<and> isAtomic x) (normName bnd f n)" using e Funcall by (intro norm_okD(2) [OF IH]) simp_all
  then show ?thesis unfolding Funcall norm.simps
    by (rule nfR_then) (auto intro!: nfR_Inr nfR_wrap nfR_mono [OF nfR_map [OF arg]] simp: same_kind_def split: option.split)
qed

lemma norm_function:
  assumes IH: "\<And>x. size x < size e \<Longrightarrow> norm_ok x" and e: "src e" and Function: "e = Function fl b"
  shows "nfR (\<lambda>x. nf x \<and> same_kind e x) (norm bnd e n)"
proof -
  have nt: "nfR nf (normTerm bnd x k)" if "size x < size e" "src x" for x k using norm_ok_term [OF IH] that .
  have formal: "nfR nf (case a of TaggedExpr s r d \<Rightarrow> wrapN (\<lambda>e'. TaggedExpr s r (strip e')) (normTerm bnd d k) | Symbol s r \<Rightarrow> Inr (a, [], k) | Ellipsis \<Rightarrow> Inr (a, [], k)
      | _ \<Rightarrow> domain_err ''anf::norm: formlist has invalid type element'')" if "fl = Some l" "a \<in> set l" for l a k
  proof -
    have "size a < size e" using that Function smaller_elem [of a l] by auto
    moreover have "case a of TaggedExpr s r d \<Rightarrow> src d | Symbol s r \<Rightarrow> True | Ellipsis \<Rightarrow> True | _ \<Rightarrow> False" using e Function that by (simp add: list_all_iff)
    ultimately show ?thesis by (cases a) (auto intro!: nfR_Inr nfR_wrap nfR_mono [OF nt] simp: nf_strip)
  qed
  have b: "nfR nf (normTerm bnd b k)" for k using e Function by (intro nt) simp_all
  show ?thesis unfolding Function norm.simps
    by (rule nfR_then [where P = "pred_option (list_all nf)"])
      (auto intro!: nfR_Inr nfR_wrap nfR_mono [OF nfR_map [OF formal]] nfR_mono [OF b] simp: same_kind_def split: option.split)
qed

lemma norm_assign:
  assumes IH: "\<And>x. size x < size e \<Longrightarrow> norm_ok x" and e: "src e" and LeftAssign: "e = LeftAssign a b"
  shows "nfR (\<lambda>x. nf x \<and> same_kind e x) (norm bnd e n)"
proof -
  have nm: "nfR (\<lambda>y. nf y \<and> isAtomic y) (normName bnd x k)" if "size x < size e" "operand x" for x k using norm_okD(2) [OF IH] that .
  have "nfR (\<lambda>x. nf x \<and> not_assign x) (if is_Funcall b then norm bnd b n else normName bnd b n)"
  proof (cases "is_Funcall b")
    case True
    then have "src b" "size b < size e" using e LeftAssign by (cases b; simp add: is_Funcall_def)+
    then have "nfR (\<lambda>x. nf x \<and> same_kind b x) (norm bnd b n)" by (intro norm_okD(1) [OF IH])
    then show ?thesis using True by (auto elim!: nfR_mono simp: same_kind_def is_Funcall_def not_assign_def is_LeftAssign_def is_SpecialAssign_def)
  next
    case False
    then show ?thesis using e LeftAssign
      by (auto intro!: nfR_mono [OF nm [of b]] simp: not_assign_def isAtomic_etype is_LeftAssign_def is_SpecialAssign_def)
  qed
  then show ?thesis unfolding LeftAssign norm.simps by (intro nfR_wrap) (auto elim!: nfR_mono simp: same_kind_def)
qed

lemma norm_step:
  assumes IH: "\<And>x. size x < size e \<Longrightarrow> norm_ok x" and e: "src e"
  shows "nfR (\<lambda>x. nf x \<and> same_kind e x) (norm bnd e n)"
proof -
  have nm: "nfR (\<lambda>y. nf y \<and> isAtomic y) (normName bnd x k)" if "size x < size e" "operand x" for x k using norm_okD(2) [OF IH] that .
  have nt: "nfR nf (normTerm bnd x k)" if "size x < size e" "src x" for x k using norm_ok_term [OF IH] that .
  show ?thesis
  proof (cases e)
  case (Request a b)
  have a: "nfR (\<lambda>x. nf x \<and> isAtomic x) (normName bnd a n)" using e Request by (intro norm_okD(2) [OF IH]) simp_all
  have b: "nfR nf (normTerm bnd b k)" for k using e Request by (intro nt) simp_all
  show ?thesis unfolding Request norm.simps by (intro nfR_then [OF a] nfR_relabel [OF b]) (simp add: same_kind_def)
next
  case (Escape x)
  have "nfR (\<lambda>y. nf y \<and> (not_assign (strip x) \<longrightarrow> not_assign y)) (normTerm True x n)" using e Escape by (intro norm_okD(3) [OF IH]) simp_all
  then show ?thesis using e by (auto simp: Escape nfR_def same_kind_def gensym_def)
next
  case (Binop p l r a)
  then show ?thesis using e
    by (auto intro!: nfR_then [OF nm [of l]] nfR_then [OF nm [of r]] nfR_wrap nfR_mono [OF nm [of a]] simp: same_kind_def)
next
  case (IfElse c a b)
  then show ?thesis using e
    by (auto intro!: nfR_then [OF nm [of c]] nfR_then [OF nt [of a]] nfR_wrap nfR_mono [OF nt [of b]] simp: same_kind_def)
next
  case (While a b)
  then show ?thesis using e by (auto intro!: nfR_then [OF nt [of a]] nfR_wrap nfR_mono [OF nt [of b]] simp: same_kind_def)
next
  case (El es)
  have "nfR nf (normTerm bnd x k)" if "x \<in> set es" for x k using that e El smaller_elem [OF that] by (intro nt) (auto simp: list_all_iff)
  then show ?thesis unfolding El norm.simps by (intro nfR_wrap nfR_mono [OF nfR_map]) (auto simp: same_kind_def)
qed (use e norm_call [OF IH e] norm_function [OF IH e] norm_assign [OF IH e] in \<open>auto intro!: nfR_Inr nfR_wrap nfR_mono [OF nm] nfR_mono [OF nt] simp: same_kind_def\<close>)
qed

lemma name_step:
  assumes st: "\<And>bnd n. src (strip e) \<Longrightarrow> nfR (\<lambda>x. nf x \<and> same_kind (strip e) x) (norm bnd (strip e) n)" and e: "operand e"
  shows "nfR (\<lambda>x. nf x \<and> isAtomic x) (normName bnd e n)"
proof -
  define d where "d = strip e"
  have d: "src d" "\<not> is_SpecialAssign d" using e by (simp_all add: d_def operand_strip)
  have r: "nfR (\<lambda>x. nf x \<and> same_kind d x) (norm bnd d k)" for k using st d(1) by (simp add: d_def)
  show ?thesis
  proof (cases "is_LeftAssign d")
    case True
    then obtain a b where ab: "d = LeftAssign a b" by (cases d) (simp_all add: is_LeftAssign_def)
    obtain b' em n' where la: "norm bnd d n = Inr (LeftAssign a b', em, n')" "nf (LeftAssign a b')" "\<forall>y\<in>set em. nf (snd y)"
      using r [of n] by (auto simp: nfR_def ab wrapN_def bindR_eq_Inr)
    then show ?thesis using d(1) True by (simp add: normName.simps d_def [symmetric] Let_def gensym_def nfR_def ab)
  next
    case False
    then have plain: "same_kind d x \<Longrightarrow> not_assign x" for x using d(2) by (auto simp: not_assign_def same_kind_def is_LeftAssign_def is_SpecialAssign_def split: if_splits)
    show ?thesis
    proof (cases "isAtomic d")
      case True
      then have "normName bnd e n = norm bnd d n" using False d(2) by (simp add: normName.simps d_def [symmetric] Let_def)
      moreover have "isAtomic x" if "same_kind d x" for x using True that by (auto simp: isAtomic_etype same_kind_def)
      ultimately show ?thesis using nfR_mono [OF r [of n]] by auto
    next
      case na: False
      obtain x em n' where "norm bnd d (n + 1) = Inr (x, em, n')" "nf x" "same_kind d x" "\<forall>y\<in>set em. nf (snd y)" using r [of "n + 1"] by (auto simp: nfR_def)
      then show ?thesis using na False d(2) plain by (simp add: normName.simps d_def [symmetric] Let_def gensym_def nfR_def)
    qed
  qed
qed

lemma nf_single: "nf (strip (El ls)) \<longleftrightarrow> list_all nf ls"
  by (cases ls rule: remdups_adj.cases) auto

lemma strip_El: "length ls \<noteq> 1 \<Longrightarrow> not_assign (strip (El ls))"
  by (cases ls rule: remdups_adj.cases) (auto simp: not_assign_def is_LeftAssign_def is_SpecialAssign_def)

lemma block_step:
  assumes "nfR (\<lambda>x. nf x \<and> same_kind c x) (norm bnd c n)"
  shows "nfR (\<lambda>ls. list_all nf ls \<and> (\<exists>ks x. ls = ks @ [x] \<and> same_kind c x)) (in_block (norm bnd c n))"
  using assms by (auto simp: nfR_def in_block_def locals_def tops_def list_all_iff)

lemma mapN_length: "mapN f xs n = Inr (ys, em, n') \<Longrightarrow> length ys = length xs"
  by (induction xs arbitrary: n ys em) (auto simp: bindR_eq_Inr)

lemma length_concat_ge: "list_all (\<lambda>l. l \<noteq> []) ls \<Longrightarrow> length ls \<le> length (concat ls)"
  by (induction ls) (auto simp: Suc_le_eq add_strict_increasing)

lemma term_step:
  assumes st: "\<And>c bnd n. c \<in> set (case e of El es \<Rightarrow> es | _ \<Rightarrow> [e]) \<Longrightarrow> nfR (\<lambda>x. nf x \<and> same_kind c x) (norm bnd c n)"
  shows "nfR (\<lambda>x. nf x \<and> (not_assign (strip e) \<longrightarrow> not_assign x)) (normTerm bnd e n)"
proof -
  define es where "es = (case e of El es \<Rightarrow> es | _ \<Rightarrow> [e])"
  have one: "nfR (\<lambda>ls. list_all nf ls \<and> (\<exists>ks x. ls = ks @ [x] \<and> same_kind c x)) (in_block (norm bnd c k))" if "c \<in> set es" for c k
    using block_step [OF st, of c bnd k] that by (simp add: es_def)
  have "nfR (\<lambda>ls. nf (strip (El (concat ls))) \<and> (not_assign (strip e) \<longrightarrow> not_assign (strip (El (concat ls))))) (mapN (\<lambda>c k. in_block (norm bnd c k)) es n)"
  proof (cases "length es = 1")
    case True
    then obtain c where c: "es = [c]" by (auto simp: length_Suc_conv)
    then have "strip e = c" by (cases e) (auto simp: es_def)
    moreover have "not_assign (strip (El (ks @ [x])))" if "same_kind c x" "not_assign c" for ks x
      using that strip_El [of "ks @ [x]"] by (cases ks) (auto simp: same_kind_def not_assign_def is_LeftAssign_def is_SpecialAssign_def split: if_splits)
    ultimately show ?thesis using one [of c n] c by (fastforce simp: nfR_def nf_single)
  next
    case False
    have "nfR (list_all (\<lambda>l. list_all nf l \<and> l \<noteq> [])) (mapN (\<lambda>c k. in_block (norm bnd c k)) es n)"
      by (intro nfR_map nfR_mono [OF one]) auto
    then obtain ls em n' where ls: "mapN (\<lambda>c k. in_block (norm bnd c k)) es n = Inr (ls, em, n')" "\<forall>y\<in>set em. nf (snd y)"
      "list_all (\<lambda>l. list_all nf l \<and> l \<noteq> []) ls" unfolding nfR_def by blast
    have "length ls \<le> length (concat ls)" using ls(3) by (intro length_concat_ge) (simp add: list_all_iff)
    then have "length (concat ls) \<noteq> 1" using False mapN_length [OF ls(1)] by (cases ls) auto
    then show ?thesis using ls strip_El [of "concat ls"] by (auto simp: nfR_def nf_single list_all_iff)
  qed
  then show ?thesis unfolding normTerm.simps es_def [symmetric] Let_def by (rule nfR_wrap)
qed

lemma norm_ok_all: "norm_ok e"
proof (induction e rule: measure_induct_rule [where f = size])
  case (less e)
  have st: "nfR (\<lambda>x. nf x \<and> same_kind c x) (norm bnd c n)" if "size c \<le> size e" "src c" for c bnd n
    using norm_step [of c bnd n] less that by (metis order.strict_trans2)
  have "src e \<Longrightarrow> c \<in> set (case e of El es \<Rightarrow> es | _ \<Rightarrow> [e]) \<Longrightarrow> src c \<and> size c \<le> size e" for c
    using size_block [of c e] by (cases e) (auto simp: list_all_iff)
  then show ?case unfolding norm_ok_def
    using st name_step [of e] term_step [of e] size_strip [of e] by (simp add: operand_strip)
qed


section \<open>Examples\<close>

text \<open>Programs of the tests in \<open>src/tests/anf\<close>, with the number of the plus token left as 43.\<close>

definition call1 :: "string \<Rightarrow> string \<Rightarrow> E" where
  "call1 f x = Funcall (Symbol f False) (Some [Arg False (Symbol x False)])"

definition sym :: "string \<Rightarrow> E" where
  "sym s = Symbol s False"


text \<open>A block with several statements as an operand: the statements of the operand stay in its block.\<close>

lemma anf_nested_block:
  "convertToANF True [LeftAssign (sym ''x'') (Binop 43 (El [Binop 43 (call1 ''f'' ''x'') (call1 ''f'' ''y'') Null, sym ''a'']) (sym ''b'') Null)] 0 =
     Inr ([LeftAssign (sym ''?anf1'') (El [El [LeftAssign (sym ''?anf2'') (call1 ''f'' ''x''), LeftAssign (sym ''?anf3'') (call1 ''f'' ''y''),
             Binop 43 (sym ''?anf2'') (sym ''?anf3'') Null], sym ''a'']),
           LeftAssign (sym ''x'') (Binop 43 (sym ''?anf1'') (sym ''b'') Null)], [], 3)"
  by code_simp

text \<open>A global assignment of a call falls through to the case of a unary operator and reads the node as one; a global assignment that is an
  operand is put before the statement as it is, with the call in its operand; and an escaped assignment is assigned.\<close>

lemma special_assign_call: "norm True (SpecialAssign (sym ''a'') (call1 ''f'' ''x'')) 0 = Inl UB"
  by code_simp

lemma special_assign_operand:
  "convertToANF True [Unop 45 (SpecialAssign (sym ''a'') (Unop 45 (call1 ''f'' ''x'')))] 0 =
     Inr ([SpecialAssign (sym ''a'') (Unop 45 (call1 ''f'' ''x'')), Unop 45 (sym ''a'')], [], 0)"
  "\<not> nf (SpecialAssign (sym ''a'') (Unop 45 (call1 ''f'' ''x'')))"
  by (code_simp, simp add: call1_def)

lemma escaped_assign:
  "convertToANF True [Escape (LeftAssign (sym ''a'') Null)] 0 = Inr ([LeftAssign (sym ''?bnd1'') (LeftAssign (sym ''a'') Null), Boundvar ''?bnd1''], [], 1)"
  by code_simp

end
