(* ===== verification/Encode_Code.thy ===== *)
theory Encode_Code
  imports Ast Vector_Buffer
begin

text \<open>
  Encoding of expressions (\<open>writeCode\<close>, \<open>readCode\<close> and \<open>codeLength\<close> of \<open>src/src/encode.cpp\<close>). Writing gives a list of items, one for each
  \<open><<\<close> of the code: a value of fixed size, or the characters of a string with their padding; how items are put into chunks is the matter of
  the theory \<open>Encode\<close>. Reading takes the rest of a buffer. The arguments of a constructor call are evaluated in an order that the language
  leaves open; \<open>lr\<close> says that it is from left to right. Numbers are little-endian, as on the platforms of the code. Every level of reading
  takes a type number from the buffer, so that the length of the buffer is enough fuel: where it ends, the buffer has ended before.
\<close>

section \<open>Items\<close>

text \<open>\<open>Room\<close> writes nothing: it starts a new chunk when less than 16 bytes would be left.\<close>

datatype item = Fixed "byte list" | Chars string | Room

definition STRALIGN :: nat where
  "STRALIGN = 8"

definition getAlignedLength :: "nat \<Rightarrow> nat \<Rightarrow> nat" where
  "getAlignedLength n a = (let rem = n mod a in (if rem \<noteq> 0 then n + a - rem else n) mod 2 ^ 32)"

definition char_byte :: "char \<Rightarrow> byte" where
  "char_byte c = of_nat (of_char c)"

definition byte_char :: "byte \<Rightarrow> char" where
  "byte_char b = char_of (unat b)"

fun flat_item :: "item \<Rightarrow> byte list" where
  "flat_item (Fixed bs) = bs"
| "flat_item (Chars s) = map char_byte s @ replicate (getAlignedLength (length s) STRALIGN - length s) 0"
| "flat_item Room = []"

abbreviation flat_items :: "item list \<Rightarrow> byte list" where
  "flat_items is \<equiv> concat (map flat_item is)"

abbreviation u64_item :: "nat \<Rightarrow> item" where
  "u64_item n \<equiv> Fixed (put_u64 n)"

definition put_string :: "string \<Rightarrow> item list" where
  "put_string s = [u64_item (length s), Chars s]"

definition put_interval :: "interval \<Rightarrow> item list" where
  "put_interval i =
     [Fixed (put dtime_flat (istart i)), Fixed (put dtime_flat (iend i)),
      Fixed (put_le 4 (if sopen i then 1 else 0)), Fixed (put_le 4 (if eopen i then 1 else 0))]"

definition sizes :: "nat res list \<Rightarrow> nat res" where
  "sizes rs = foldR (\<lambda>r n. bindR r (\<lambda>k. Inr (n + k))) rs 0"

section \<open>Length and writing\<close>

fun codeLength :: "E \<Rightarrow> nat res" where
  "codeLength Empty = Inr 8" | "codeLength Null = Inr 8" | "codeLength Break = Inr 8" | "codeLength Next = Inr 8"
| "codeLength (Bool b) = Inr 16" | "codeLength (Double d) = Inr 16" | "codeLength (Dtime t) = Inr 16" | "codeLength (IntervalE i) = Inr 32"
| "codeLength (Symbol s r) = Inr (16 + getAlignedLength (length s) STRALIGN + 8)"
| "codeLength (String s) = Inr (16 + getAlignedLength (length s) STRALIGN)"
| "codeLength (Boundvar s) = Inr (16 + getAlignedLength (length s) STRALIGN)"
| "codeLength (Unop p e) = sizes [Inr 16, codeLength e]"
| "codeLength (Binop p l r a) = sizes [Inr 16, codeLength l, codeLength r]"
| "codeLength (El es) = bindR (sizes (map codeLength es)) (\<lambda>n. Inr ((16 + n) mod 2 ^ 32))"
| "codeLength (While a b) = sizes [Inr 8, codeLength a, codeLength b]"
| "codeLength (IfElse a b c) = sizes [Inr 8, codeLength a, codeLength b, codeLength c]"
| "codeLength (For e) = sizes [Inr 8, codeLength e]"
| "codeLength (LeftAssign a b) = sizes [Inr 8, codeLength a, codeLength b]"
| "codeLength (SpecialAssign a b) = sizes [Inr 8, codeLength a, codeLength b]"
| "codeLength (Request a b) = sizes [Inr 8, codeLength a, codeLength b]"
| "codeLength (TaggedExpr s r e) = sizes [Inr 8, Inr (16 + getAlignedLength (length s) STRALIGN + 8), codeLength e]"
| "codeLength (Arg r e) = sizes [Inr 16, codeLength e]"
| "codeLength (Function fl e) = (case fl of None \<Rightarrow> Inl UB | Some l \<Rightarrow> sizes [Inr 8, codeLength (El l), codeLength e])"
| "codeLength (Funcall e fl) = (case fl of None \<Rightarrow> bindR (codeLength e) (\<lambda>_. Inl UB) | Some l \<Rightarrow> sizes [Inr 8, codeLength e, codeLength (El l)])"
| "codeLength e = Inl (DomainError (''codeLength: unknow type '' @ dec (etype e)))"

definition items :: "item list res list \<Rightarrow> item list res" where
  "items rs = foldR (\<lambda>r xs. bindR r (\<lambda>ys. Inr (xs @ ys))) rs []"

definition symbol_items :: "string \<Rightarrow> bool \<Rightarrow> item list" where
  "symbol_items s r = u64_item 9 # put_string s @ [u64_item (if r then 1 else 0)]"

fun writeCode :: "E \<Rightarrow> item list res" where
  "writeCode Empty = Inr [u64_item 0]" | "writeCode Null = Inr [u64_item 1]" | "writeCode Next = Inr [u64_item 2]" | "writeCode Break = Inr [u64_item 3]"
| "writeCode (Bool b) = Inr [u64_item 5, u64_item (if b then 1 else 0)]"
| "writeCode (Double d) = Inr [u64_item 6, Fixed (put double_flat d)]"
| "writeCode (Dtime t) = Inr [u64_item 7, Fixed (put dtime_flat t)]"
| "writeCode (IntervalE i) = Inr (u64_item 8 # put_interval i)"
| "writeCode (Symbol s r) = Inr (symbol_items s r)"
| "writeCode (String s) = Inr (u64_item 10 # put_string s)"
| "writeCode (Boundvar s) = Inr (u64_item 11 # put_string s)"
| "writeCode (Unop p e) = items [Inr [u64_item 14, u64_item p], writeCode e]"
| "writeCode (Binop p l r a) = items [Inr [u64_item 15, u64_item p], writeCode l, writeCode r]"
| "writeCode (El es) = items (Inr [u64_item 16, u64_item (length es mod 2 ^ 32)] # map writeCode es)"
| "writeCode (While a b) = items [Inr [u64_item 17], writeCode a, writeCode b]"
| "writeCode (IfElse a b c) = items [Inr [u64_item 18], writeCode a, writeCode b, writeCode c]"
| "writeCode (For e) = items [Inr [u64_item 19], writeCode e]"
| "writeCode (LeftAssign a b) = items [Inr [u64_item 20], writeCode a, writeCode b]"
| "writeCode (SpecialAssign a b) = items [Inr [u64_item 21], writeCode a, writeCode b]"
| "writeCode (Request a b) = items [Inr [u64_item 22], writeCode a, writeCode b]"
| "writeCode (TaggedExpr s r e) = items [Inr (u64_item 23 # symbol_items s r), writeCode e]"
| "writeCode (Arg r e) = items [Inr [u64_item 27, u64_item (if r then 1 else 0)], writeCode e]"
| "writeCode (Function fl e) = (case fl of None \<Rightarrow> Inl UB | Some l \<Rightarrow> items [Inr [u64_item 24], writeCode (El l), writeCode e])"
| "writeCode (Funcall e fl) = (case fl of None \<Rightarrow> bindR (writeCode e) (\<lambda>_. Inl UB) | Some l \<Rightarrow> items [Inr [u64_item 25], writeCode e, writeCode (El l)])"
| "writeCode e = Inl (DomainError (''writeCode: unknow type '' @ dec (etype e)))"

section \<open>Reading\<close>

type_synonym 'a reader = "byte list \<Rightarrow> ('a \<times> byte list) res"

definition read_bytes :: "nat \<Rightarrow> byte list reader" where
  "read_bytes k bs = (if length bs < k then Inl UB else Inr (take k bs, drop k bs))"

definition read_u64 :: "nat reader" where
  "read_u64 bs = bindR (read_bytes 8 bs) (\<lambda>(b, r). Inr (get_le b, r))"

definition read_bool :: "bool reader" where
  "read_bool bs = bindR (read_u64 bs) (\<lambda>(n, r). Inr (n \<noteq> 0, r))"

definition read_dtime :: "int reader" where
  "read_dtime bs = bindR (read_bytes 8 bs) (\<lambda>(b, r). Inr (get dtime_flat b, r))"

definition read_interval :: "interval reader" where
  "read_interval bs =
     bindR (read_dtime bs) (\<lambda>(s, r1). bindR (read_dtime r1) (\<lambda>(e, r2).
     bindR (read_bytes 4 r2) (\<lambda>(so, r3). bindR (read_bytes 4 r3) (\<lambda>(eo, r4).
     bindR (mk_interval s e (get_le so \<noteq> 0) (get_le eo \<noteq> 0)) (\<lambda>i. Inr (i, r4))))))"

definition read_string :: "string reader" where
  "read_string bs =
     bindR (read_u64 bs) (\<lambda>(l, r).
       let n = l mod 2 ^ 32 in
       if length r < n then Inl UB else Inr (map byte_char (take n r), drop (getAlignedLength n STRALIGN) r))"

text \<open>A string literal has the fixed size of \<open>zstring\<close>: 127 characters up to the first zero, and the position moves by this length.\<close>

definition read_zstring :: "string reader" where
  "read_zstring bs =
     bindR (read_u64 bs) (\<lambda>(l, r).
       let n = l mod 2 ^ 32 in
       if length r < min n 127 then Inl UB
       else let s = takeWhile (\<lambda>c. c \<noteq> CHR 0x00) (map byte_char (take (min n 127) r)) in
         Inr (s, drop (getAlignedLength (length s) STRALIGN) r))"

definition args2 :: "bool \<Rightarrow> E reader \<Rightarrow> (E \<times> E) reader" where
  "args2 lr f bs =
     bindR (f bs) (\<lambda>(x, r1). bindR (f r1) (\<lambda>(y, r2). Inr (if lr then (x, y) else (y, x), r2)))"

definition args3 :: "bool \<Rightarrow> E reader \<Rightarrow> (E \<times> E \<times> E) reader" where
  "args3 lr f bs =
     bindR (f bs) (\<lambda>(x, r1). bindR (f r1) (\<lambda>(y, r2). bindR (f r2) (\<lambda>(z, r3). Inr (if lr then (x, y, z) else (z, y, x), r3))))"

fun read_list :: "E reader \<Rightarrow> nat \<Rightarrow> E list reader" where
  "read_list f 0 bs = Inr ([], bs)"
| "read_list f (Suc k) bs = bindR (f bs) (\<lambda>(x, r1). bindR (read_list f k r1) (\<lambda>(xs, r2). Inr (x # xs, r2)))"

definition as_list :: "string \<Rightarrow> E \<Rightarrow> E list res" where
  "as_list m e = (case e of El l \<Rightarrow> Inr l | _ \<Rightarrow> Inl (InvalidArgument (m @ dec (etype e))))"

fun readCode :: "bool \<Rightarrow> nat \<Rightarrow> E reader" where
  "readCode lr 0 bs = Inl UB"
| "readCode lr (Suc k) bs =
     bindR (read_u64 bs) (\<lambda>(t, r).
       if t = 1 then Inr (Null, r)
       else if t = 3 then Inr (Break, r)
       else if t = 2 then Inr (Next, r)
       else if t = 5 then bindR (read_bool r) (\<lambda>(b, r'). Inr (Bool b, r'))
       else if t = 6 then bindR (read_bytes 8 r) (\<lambda>(b, r'). Inr (Double (get double_flat b), r'))
       else if t = 7 then bindR (read_dtime r) (\<lambda>(d, r'). Inr (Dtime d, r'))
       else if t = 8 then bindR (read_interval r) (\<lambda>(i, r'). Inr (IntervalE i, r'))
       else if t = 9 then bindR (read_string r) (\<lambda>(s, r'). bindR (read_bool r') (\<lambda>(b, r''). Inr (Symbol s b, r'')))
       else if t = 10 then bindR (read_zstring r) (\<lambda>(s, r'). Inr (String s, r'))
       else if t = 11 then bindR (read_string r) (\<lambda>(s, r'). Inr (Boundvar s, r'))
       else if t = 14 then bindR (read_u64 r) (\<lambda>(p, r'). bindR (readCode lr k r') (\<lambda>(e, r''). Inr (Unop (p mod 2 ^ 32) e, r'')))
       else if t = 15 then bindR (read_u64 r) (\<lambda>(p, r'). bindR (args2 lr (readCode lr k) r') (\<lambda>((a, b), r''). Inr (Binop (p mod 2 ^ 32) a b Null, r'')))
       else if t = 16 then bindR (read_u64 r) (\<lambda>(n, r'). bindR (read_list (readCode lr k) (n mod 2 ^ 32) r') (\<lambda>(l, r''). Inr (El l, r'')))
       else if t = 17 then bindR (args2 lr (readCode lr k) r) (\<lambda>((a, b), r'). Inr (While a b, r'))
       else if t = 18 then bindR (args3 lr (readCode lr k) r) (\<lambda>((a, b, c), r'). Inr (IfElse a b c, r'))
       else if t = 19 then bindR (readCode lr k r) (\<lambda>(e, r'). Inr (For e, r'))
       else if t = 20 then bindR (args2 lr (readCode lr k) r) (\<lambda>((a, b), r'). Inr (LeftAssign a b, r'))
       else if t = 21 then bindR (args2 lr (readCode lr k) r) (\<lambda>((a, b), r'). Inr (SpecialAssign a b, r'))
       else if t = 22 then bindR (args2 lr (readCode lr k) r) (\<lambda>((a, b), r'). Inr (Request a b, r'))
       else if t = 23 then
         bindR (readCode lr k r) (\<lambda>(sym, r'). case sym of
             Symbol s b \<Rightarrow> bindR (readCode lr k r') (\<lambda>(e, r''). Inr (TaggedExpr s b e, r''))
           | _ \<Rightarrow> Inl (InvalidArgument (''readCode: first arg of TaggedExpr must be Symbol, found: '' @ dec (etype sym))))
       else if t = 27 then bindR (read_bool r) (\<lambda>(b, r'). bindR (readCode lr k r') (\<lambda>(e, r''). Inr (Arg b e, r'')))
       else if t = 24 then
         bindR (readCode lr k r) (\<lambda>(el, r'). bindR (as_list ''readCode: first arg of Function must be El, found: '' el) (\<lambda>l.
           bindR (readCode lr k r') (\<lambda>(b, r''). Inr (Function (Some l) b, r''))))
       else if t = 25 then
         bindR (readCode lr k r) (\<lambda>(e, r'). bindR (readCode lr k r') (\<lambda>(el, r'').
           bindR (as_list ''readCode: second arg of ExprSublist must be El, found: '' el) (\<lambda>l. Inr (Funcall e (Some l), r''))))
       else Inl (DomainError (''readCode: unknow type '' @ dec t)))"

declare readCode.simps(2) [simp del]

text \<open>The whole buffer of a request.\<close>

definition readCode_buffer :: "bool \<Rightarrow> byte list \<Rightarrow> E res" where
  "readCode_buffer lr bs = bindR (readCode lr (length bs + 1) bs) (\<lambda>(e, _). Inr e)"

section \<open>What is sent and what arrives\<close>

text \<open>Expressions that can be sent, with the ranges of the machine types; a string literal is a \<open>zstring\<close>.\<close>

definition dtime_range :: "int \<Rightarrow> bool" where
  "dtime_range t \<longleftrightarrow> - (2 ^ 63) \<le> t \<and> t < 2 ^ 63"

definition short_string :: "string \<Rightarrow> bool" where
  "short_string s \<longleftrightarrow> length s < 2 ^ 32 - 8"

fun sendable :: "E \<Rightarrow> bool" where
  "sendable Null = True" | "sendable Next = True" | "sendable Break = True" | "sendable (Bool b) = True" | "sendable (Double d) = True"
| "sendable (Dtime t) = dtime_range t"
| "sendable (IntervalE i) = (dtime_range (istart i) \<and> dtime_range (iend i) \<and> istart i \<le> iend i)"
| "sendable (Symbol s r) = short_string s" | "sendable (Boundvar s) = short_string s"
| "sendable (String s) = (length s \<le> 127 \<and> CHR 0x00 \<notin> set s)"
| "sendable (Unop p e) = (p < 2 ^ 32 \<and> sendable e)"
| "sendable (Binop p l r a) = (p < 2 ^ 32 \<and> sendable l \<and> sendable r)"
| "sendable (El es) = (length es < 2 ^ 32 \<and> list_all sendable es)"
| "sendable (While a b) = (sendable a \<and> sendable b)"
| "sendable (IfElse a b c) = (sendable a \<and> sendable b \<and> sendable c)"
| "sendable (For e) = sendable e"
| "sendable (LeftAssign a b) = (sendable a \<and> sendable b)"
| "sendable (SpecialAssign a b) = (sendable a \<and> sendable b)"
| "sendable (Request a b) = (sendable a \<and> sendable b)"
| "sendable (TaggedExpr s r e) = (short_string s \<and> sendable e)"
| "sendable (Arg r e) = sendable e"
| "sendable (Function fl e) = (case fl of None \<Rightarrow> False | Some l \<Rightarrow> sendable (El l) \<and> sendable e)"
| "sendable (Funcall e fl) = (case fl of None \<Rightarrow> False | Some l \<Rightarrow> sendable e \<and> sendable (El l))"
| "sendable e = False"

text \<open>The attribute of a binary operator is not sent; the receiver sets it to \<open>NULL\<close>.\<close>

fun received :: "E \<Rightarrow> E" where
  "received (Unop p e) = Unop p (received e)"
| "received (Binop p l r a) = Binop p (received l) (received r) Null"
| "received (El es) = El (map received es)"
| "received (While a b) = While (received a) (received b)"
| "received (IfElse a b c) = IfElse (received a) (received b) (received c)"
| "received (For e) = For (received e)"
| "received (LeftAssign a b) = LeftAssign (received a) (received b)"
| "received (SpecialAssign a b) = SpecialAssign (received a) (received b)"
| "received (Request a b) = Request (received a) (received b)"
| "received (TaggedExpr s r e) = TaggedExpr s r (received e)"
| "received (Arg r e) = Arg r (received e)"
| "received (Function fl e) = Function (map_option (map received) fl) (received e)"
| "received (Funcall e fl) = Funcall (received e) (map_option (map received) fl)"
| "received e = e"

section \<open>Reading back the pieces\<close>

lemma read_bytes_append [simp]: "length a = k \<Longrightarrow> read_bytes k (a @ r) = Inr (a, r)"
  by (simp add: read_bytes_def)

lemma put_u64_not_Nil [simp]: "put_u64 n \<noteq> []"
  by (metis list.size(3) put_le_length zero_neq_numeral)

lemma read_u64_put [simp]: "n < 2 ^ 64 \<Longrightarrow> read_u64 (put_u64 n @ r) = Inr (n, r)"
  by (simp add: read_u64_def)

lemma read_bool_put [simp]: "read_bool (put_u64 (if b then 1 else 0) @ r) = Inr (b, r)"
  by (simp add: read_bool_def)

lemma read_dtime_put [simp]: "dtime_range t \<Longrightarrow> read_dtime (put dtime_flat t @ r) = Inr (t, r)"
  using dtime_roundtrip [of t] by (simp add: read_dtime_def dtime_range_def dtime_flat_def)

lemma read_interval_put:
  "dtime_range (istart i) \<Longrightarrow> dtime_range (iend i) \<Longrightarrow> istart i \<le> iend i \<Longrightarrow> read_interval (flat_items (put_interval i) @ r) = Inr (i, r)"
  by (cases i) (simp add: read_interval_def put_interval_def mk_interval_def get_put_le)

lemma byte_char_char_byte [simp]: "byte_char (char_byte c) = c"
  by (simp add: byte_char_def char_byte_def unat_of_nat)

lemma aligned: "n < 2 ^ 32 - 8 \<Longrightarrow> n \<le> getAlignedLength n STRALIGN \<and> getAlignedLength n STRALIGN < n + 8"
proof -
  assume n: "n < 2 ^ 32 - 8"
  define m where "m = n mod 8"
  have "m < 8" by (simp add: m_def)
  then show ?thesis using n by (auto simp: getAlignedLength_def STRALIGN_def Let_def m_def [symmetric])
qed

lemma flat_string: "n = length s \<Longrightarrow> n < 2 ^ 32 - 8 \<Longrightarrow> flat_items (put_string s) @ r = put_u64 n @ map char_byte s @ replicate (getAlignedLength n STRALIGN - n) 0 @ r"
  by (simp add: put_string_def)

lemma drop_string: "n = length s \<Longrightarrow> n < 2 ^ 32 - 8 \<Longrightarrow> drop (getAlignedLength n STRALIGN) (map char_byte s @ replicate (getAlignedLength n STRALIGN - n) 0 @ r) = r"
  using aligned [of n] by simp

lemma read_string_put: "short_string s \<Longrightarrow> read_string (flat_items (put_string s) @ r) = Inr (s, r)"
  unfolding short_string_def by (simp only: flat_string [OF refl] read_string_def) (simp add: o_def drop_string [OF refl] del: drop_append)

lemma read_zstring_put: "length s \<le> 127 \<Longrightarrow> CHR 0x00 \<notin> set s \<Longrightarrow> read_zstring (flat_items (put_string s) @ r) = Inr (s, r)"
proof -
  assume s: "length s \<le> 127" "CHR 0x00 \<notin> set s"
  then have tw: "takeWhile (\<lambda>c. c \<noteq> CHR 0x00) s = s" by (intro takeWhile_eq_all_conv [THEN iffD2]) auto
  have "length s < 2 ^ 32 - 8" using s(1) by simp
  then show ?thesis using s(1)
    by (simp only: flat_string [OF refl] read_zstring_def) (simp add: o_def Let_def tw drop_string [OF refl] del: drop_append)
qed

lemma string_length: "short_string s \<Longrightarrow> length (flat_items (put_string s)) = 8 + getAlignedLength (length s) STRALIGN"
  using aligned [of "length s"] by (simp add: put_string_def short_string_def)

section \<open>Round trip\<close>

definition code_ok :: "E \<Rightarrow> bool" where
  "code_ok e \<longleftrightarrow> (\<exists>is. writeCode e = Inr is \<and> 8 \<le> length (flat_items is) \<and>
     (length (flat_items is) < 2 ^ 32 \<longrightarrow> codeLength e = Inr (length (flat_items is))) \<and>
     (\<forall>k r. length (flat_items is) \<le> 8 * k \<longrightarrow> readCode True k (flat_items is @ r) = Inr (received e, r)))"

lemma code_okI:
  assumes "writeCode e = Inr is" "8 \<le> length (flat_items is)" "length (flat_items is) < 2 ^ 32 \<Longrightarrow> codeLength e = Inr (length (flat_items is))"
    and "\<And>k r. length (flat_items is) \<le> 8 * Suc k \<Longrightarrow> readCode True (Suc k) (flat_items is @ r) = Inr (received e, r)"
  shows "code_ok e"
proof -
  have "readCode True k (flat_items is @ r) = Inr (received e, r)" if "length (flat_items is) \<le> 8 * k" for k r
    using assms(2,4) that by (cases k) auto
  then show ?thesis unfolding code_ok_def using assms(1-3) by blast
qed

lemma code_okE:
  assumes "code_ok e"
  obtains "is" where "writeCode e = Inr is" "8 \<le> length (flat_items is)" "length (flat_items is) < 2 ^ 32 \<Longrightarrow> codeLength e = Inr (length (flat_items is))"
    "\<And>k r. length (flat_items is) \<le> 8 * k \<Longrightarrow> readCode True k (flat_items is @ r) = Inr (received e, r)"
  using assms unfolding code_ok_def by blast

text \<open>A run of expressions, and a node with a head and a run of expressions below.\<close>

lemma code_run:
  assumes "list_all code_ok es"
  shows "\<exists>is. (\<forall>acc. foldR (\<lambda>r xs. bindR r (\<lambda>ys. Inr (xs @ ys))) (map writeCode es) acc = Inr (acc @ is)) \<and>
    (length (flat_items is) < 2 ^ 32 \<longrightarrow> (\<forall>n. foldR (\<lambda>r n. bindR r (\<lambda>k. Inr (n + k))) (map codeLength es) n = Inr (n + length (flat_items is)))) \<and>
    (\<forall>k r. length (flat_items is) \<le> 8 * k \<longrightarrow> read_list (readCode True k) (length es) (flat_items is @ r) = Inr (map received es, r))"
  using assms
proof (induction es)
  case Nil
  then show ?case by (intro exI [of _ "[]"]) simp
next
  case (Cons e es)
  obtain "is" where e: "writeCode e = Inr is" "length (flat_items is) < 2 ^ 32 \<Longrightarrow> codeLength e = Inr (length (flat_items is))"
    "\<And>k r. length (flat_items is) \<le> 8 * k \<Longrightarrow> readCode True k (flat_items is @ r) = Inr (received e, r)"
    using Cons(2) by (auto elim: code_okE)
  obtain js where es: "\<forall>acc. foldR (\<lambda>r xs. bindR r (\<lambda>ys. Inr (xs @ ys))) (map writeCode es) acc = Inr (acc @ js)"
    "length (flat_items js) < 2 ^ 32 \<longrightarrow> (\<forall>n. foldR (\<lambda>r n. bindR r (\<lambda>k. Inr (n + k))) (map codeLength es) n = Inr (n + length (flat_items js)))"
    "\<forall>k r. length (flat_items js) \<le> 8 * k \<longrightarrow> read_list (readCode True k) (length es) (flat_items js @ r) = Inr (map received es, r)"
    using Cons by auto
  show ?case using e es by (intro exI [of _ "is @ js"]) simp
qed

lemma code_node:
  assumes es: "list_all code_ok es" and w: "writeCode d = items (Inr hs # map writeCode es)"
    and l: "\<And>n. sizes (map codeLength es) = Inr n \<Longrightarrow> length (flat_items hs) + n < 2 ^ 32 \<Longrightarrow> codeLength d = Inr (length (flat_items hs) + n)"
    and h: "8 \<le> length (flat_items hs)"
    and rd: "\<And>k r r'. read_list (readCode True k) (length es) r = Inr (map received es, r') \<Longrightarrow> readCode True (Suc k) (flat_items hs @ r) = Inr (received d, r')"
  shows "code_ok d"
proof -
  obtain "is" where run: "\<forall>acc. foldR (\<lambda>r xs. bindR r (\<lambda>ys. Inr (xs @ ys))) (map writeCode es) acc = Inr (acc @ is)"
    "length (flat_items is) < 2 ^ 32 \<longrightarrow> (\<forall>n. foldR (\<lambda>r n. bindR r (\<lambda>k. Inr (n + k))) (map codeLength es) n = Inr (n + length (flat_items is)))"
    "\<forall>k r. length (flat_items is) \<le> 8 * k \<longrightarrow> read_list (readCode True k) (length es) (flat_items is @ r) = Inr (map received es, r)"
    using code_run [OF es] by blast
  show ?thesis
  proof (rule code_okI)
    show "writeCode d = Inr (hs @ is)" using w run(1) by (simp add: items_def)
    show "8 \<le> length (flat_items (hs @ is))" using h by simp
    show "codeLength d = Inr (length (flat_items (hs @ is)))" if "length (flat_items (hs @ is)) < 2 ^ 32"
      using that l [of "length (flat_items is)"] run(2) by (simp add: sizes_def)
    show "readCode True (Suc k) (flat_items (hs @ is) @ r) = Inr (received d, r)" if "length (flat_items (hs @ is)) \<le> 8 * Suc k" for k r
      using that h run(3) by (simp add: rd)
  qed
qed

lemma sizes_Cons [simp]: "sizes rs = Inr n \<Longrightarrow> sizes (Inr h # rs) = Inr (h + n)"
proof -
  have "foldR (\<lambda>r n. bindR r (\<lambda>k. Inr (n + k))) rs a = Inr b \<Longrightarrow> foldR (\<lambda>r n. bindR r (\<lambda>k. Inr (n + k))) rs (h + a) = Inr (h + b)" for a b
  proof (induction rs arbitrary: a)
    case (Cons r rs)
    then show ?case by (cases r) (auto simp: add.assoc)
  qed simp
  from this [of 0] show "sizes rs = Inr n \<Longrightarrow> sizes (Inr h # rs) = Inr (h + n)" by (auto simp: sizes_def)
qed

lemmas read_node = readCode.simps(2) args2_def args3_def bindR_eq_Inr as_list_def symbol_items_def read_string_put read_zstring_put read_interval_put

text \<open>A leaf is its head.\<close>

lemma code_leaf:
  assumes "writeCode d = Inr hs" "codeLength d = Inr (length (flat_items hs))" "8 \<le> length (flat_items hs)"
    and "\<And>k r. readCode True (Suc k) (flat_items hs @ r) = Inr (received d, r)"
  shows "code_ok d"
  using assms by (intro code_node [of "[]" d hs]) (auto simp: items_def sizes_def)

lemma flat_put: "get double_flat (put double_flat d) = d" "length (put double_flat d) = 8" "length (put dtime_flat t) = 8"
  using double_codec.get_put [of d] by (simp_all add: double_flat_def dtime_flat_def)

lemma code_string:
  assumes "short_string s"
  shows "code_ok (Symbol s r)" "code_ok (Boundvar s)"
  using assms string_length [OF assms] by (auto intro!: code_leaf [OF writeCode.simps(9)] code_leaf [OF writeCode.simps(11)] simp: read_node)

lemma code_list:
  assumes "list_all code_ok es" "length es < 2 ^ 32"
  shows "code_ok (El es)"
  using assms by (intro code_node [of es _ "[u64_item 16, u64_item (length es)]"]) (auto simp: readCode.simps(2))

lemma code_all: "sendable e \<Longrightarrow> code_ok e"
proof (induction e)
  case (El es)
  then show ?case
    by (intro code_list) (auto simp: list_all_iff)
next
  case (Unop p e)
  then show ?case
    by (intro code_node [of "[e]" _ "[u64_item 14, u64_item p]"]) (auto simp: read_node)
next
  case (Binop p l r a)
  then show ?case
    by (intro code_node [of "[l, r]" _ "[u64_item 15, u64_item p]"]) (auto simp: read_node)
next
  case (While a b)
  then show ?case by (intro code_node [of "[a, b]" _ "[u64_item 17]"]) (auto simp: read_node)
next
  case (IfElse a b c)
  then show ?case by (intro code_node [of "[a, b, c]" _ "[u64_item 18]"]) (auto simp: read_node)
next
  case (For e)
  then show ?case by (intro code_node [of "[e]" _ "[u64_item 19]"]) (auto simp: read_node)
next
  case (LeftAssign a b)
  then show ?case by (intro code_node [of "[a, b]" _ "[u64_item 20]"]) (auto simp: read_node)
next
  case (SpecialAssign a b)
  then show ?case by (intro code_node [of "[a, b]" _ "[u64_item 21]"]) (auto simp: read_node)
next
  case (Request a b)
  then show ?case by (intro code_node [of "[a, b]" _ "[u64_item 22]"]) (auto simp: read_node)
next
  case (Arg r e)
  then show ?case by (intro code_node [of "[e]" _ "[u64_item 27, u64_item (if r then 1 else 0)]"]) (auto simp: read_node)
next
  case (TaggedExpr s r e)
  then show ?case using code_string(1) [of s r]
    by (intro code_node [of "[Symbol s r, e]" _ "[u64_item 23]"]) (auto simp: read_node items_def)
next
  case (Function fl b)
  then obtain l where l: "fl = Some l" "length l < 2 ^ 32" "list_all code_ok l" by (cases fl) (auto simp: list_all_iff)
  then have "code_ok (El l)" by (intro code_list)
  then show ?case using Function l(1) by (intro code_node [of "[El l, b]" _ "[u64_item 24]"]) (auto simp: read_node)
next
  case (Funcall f fl)
  then obtain l where l: "fl = Some l" "length l < 2 ^ 32" "list_all code_ok l" by (cases fl) (auto simp: list_all_iff)
  then have "code_ok (El l)" by (intro code_list)
  then show ?case using Funcall l(1) by (intro code_node [of "[f, El l]" _ "[u64_item 25]"]) (auto simp: read_node)
next
  case (IntervalE i)
  then show ?case by (intro code_leaf [OF writeCode.simps(8)]) (simp_all add: read_node, simp_all add: put_interval_def flat_put)
next
  case (String s)
  then show ?case using string_length [of s] by (intro code_leaf [OF writeCode.simps(10)]) (simp_all add: read_node short_string_def)
qed ((simp add: code_string; fail) | (rule code_leaf, rule writeCode.simps, simp_all add: read_node flat_put))+


definition code_example :: E where
  "code_example = LeftAssign (Symbol ''x'' False) (Binop 43 (Symbol ''a'' False) (Dtime (- 5)) Null)"


text \<open>With the other order of evaluation the operands of an operator are exchanged. An empty expression can be written and not be read.\<close>

lemma operands_exchanged:
  "writeCode (Binop 45 (Bool True) Null Null) = Inr is \<Longrightarrow> readCode False (Suc (Suc k)) (flat_items is) = Inr (Binop 45 Null (Bool True) Null, [])"
  using read_u64_put [of 1 "[]"] read_bool_put [of True] by (auto simp: items_def readCode.simps(2) args2_def)

lemma empty_not_read: "bindR (writeCode Empty) (\<lambda>is. readCode_buffer True (flat_items is)) = Inl (DomainError ''readCode: unknow type 0'')"
  by code_simp

end
