(* ===== verification/Encode.thy ===== *)
theory Encode
  imports Encode_Code
begin

text \<open>
  Messages in chunks (\<open>struct Encode\<close> of \<open>src/src/encode.hpp\<close> and \<open>src/src/encode.cpp\<close>) and the reassembly of the code of a request
  (\<open>ReqState::readData\<close> in \<open>src/src/interp_ctx.cpp\<close>). The buffer holds \<open>CHUNKSZ\<close> bytes; the first 16 are left to the network layer, and
  every chunk repeats the message type and the two numbers of the request. A full chunk is handed to the network, which is taken to
  accept it whole. The loop that writes a string need not end; not to end is \<open>None\<close>.
\<close>

section \<open>The encoder\<close>

definition CHUNKSZ :: nat where
  "CHUNKSZ = 131072"

definition INIT_OFFSET :: nat where
  "INIT_OFFSET = 16"

record encoder =
  ehead :: "byte list"
  ebuf :: "byte list"
  sent :: "byte list list"

definition enc_offset :: "encoder \<Rightarrow> nat" where
  "enc_offset e = INIT_OFFSET + length (ebuf e)"

definition head_bytes :: "nat \<Rightarrow> nat \<Rightarrow> nat \<Rightarrow> byte list" where
  "head_bytes msgt reqid sourceid = put_u64 msgt @ put_u64 reqid @ put_u64 sourceid"

definition mk_encoder :: "nat \<Rightarrow> nat \<Rightarrow> nat \<Rightarrow> encoder" where
  "mk_encoder msgt reqid sourceid = (let h = head_bytes msgt reqid sourceid in \<lparr>ehead = h, ebuf = h, sent = []\<rparr>)"

definition enc_flush :: "encoder \<Rightarrow> encoder" where
  "enc_flush e = e\<lparr>sent := sent e @ [ebuf e], ebuf := ehead e\<rparr>"

definition enc_flush_end :: "encoder \<Rightarrow> encoder" where
  "enc_flush_end e = e\<lparr>sent := sent e @ [ebuf e], ebuf := []\<rparr>"

definition put_fixed :: "byte list \<Rightarrow> encoder \<Rightarrow> encoder" where
  "put_fixed bs e =
     (let e' = (if enc_offset e + length bs > CHUNKSZ then enc_flush e else e) in e'\<lparr>ebuf := ebuf e' @ bs\<rparr>)"

text \<open>The characters are copied from the start of the string each time; when they do not fit, the buffer is sent as it was before them.\<close>

partial_function (option) chars_loop :: "string \<Rightarrow> nat \<Rightarrow> encoder \<Rightarrow> encoder option" where
  "chars_loop s stringOffset e =
     (if stringOffset < length s then
        let nmax = CHUNKSZ - enc_offset e; remaining = length s - stringOffset in
        if remaining < nmax then Some (e\<lparr>ebuf := ebuf e @ flat_item (Chars (take remaining s))\<rparr>)
        else chars_loop s (stringOffset + nmax) (e\<lparr>sent := sent e @ [ebuf e]\<rparr>)
      else Some e)"

definition enc_room :: "encoder \<Rightarrow> encoder" where
  "enc_room e = (if enc_offset e + 16 \<ge> CHUNKSZ then enc_flush e else e)"

fun put_item :: "item \<Rightarrow> encoder \<Rightarrow> encoder option" where
  "put_item (Fixed bs) e = Some (put_fixed bs e)"
| "put_item (Chars s) e = chars_loop s 0 e"
| "put_item Room e = Some (enc_room e)"

fun put_items :: "item list \<Rightarrow> encoder \<Rightarrow> encoder option" where
  "put_items [] e = Some e"
| "put_items (i # is) e = (case put_item i e of None \<Rightarrow> None | Some e' \<Rightarrow> put_items is e')"

text \<open>\<open>operator <<(const E*)\<close>: the length of the code, then the code.\<close>

definition code_items :: "E \<Rightarrow> item list res" where
  "code_items e = bindR (codeLength e) (\<lambda>n. bindR (writeCode e) (\<lambda>is. Inr (u64_item n # is)))"

section \<open>Reassembly of the code of a request\<close>

datatype IncomingReqState = CTX_REQ_IDLE | CTX_REQ_CODE | CTX_REQ_VALUE | CTX_REQ_DONE

record req_state =
  rq_state :: IncomingReqState
  rq_code :: "E option"
  codeLen :: nat
  codeBuf :: "byte list"

definition mk_req_state :: req_state where
  "mk_req_state = \<lparr>rq_state = CTX_REQ_IDLE, rq_code = None, codeLen = 0, codeBuf = []\<rparr>"

text \<open>The cases \<open>CTX_REQ_IDLE\<close> and \<open>CTX_REQ_CODE\<close>: the new state and what is left of the buffer for the values.\<close>

definition read_idle :: "byte list \<Rightarrow> 'a req_state_scheme \<Rightarrow> ('a req_state_scheme \<times> byte list) res" where
  "read_idle buf s =
     (if rq_state s = CTX_REQ_IDLE then
        bindR (read_u64 buf) (\<lambda>(n, r). Inr (s\<lparr>codeLen := n, rq_state := CTX_REQ_CODE\<rparr>, r))
      else Inr (s, buf))"

definition read_code :: "bool \<Rightarrow> byte list \<Rightarrow> 'a req_state_scheme \<Rightarrow> ('a req_state_scheme \<times> byte list) res" where
  "read_code lr buf s =
     (let have = length (codeBuf s); len = length buf;
          lenToCopy = (if have + len \<ge> codeLen s then codeLen s - have else len);
          cb = codeBuf s @ take lenToCopy buf
      in if length cb = codeLen s then
           bindR (readCode_buffer lr cb) (\<lambda>e.
             Inr (s\<lparr>rq_code := Some e, codeBuf := [], codeLen := 0, rq_state := CTX_REQ_VALUE\<rparr>, drop lenToCopy buf))
         else Inr (s\<lparr>codeBuf := cb\<rparr>, []))"

definition read_request_code :: "bool \<Rightarrow> byte list \<Rightarrow> 'a req_state_scheme \<Rightarrow> ('a req_state_scheme \<times> byte list) res" where
  "read_request_code lr buf s = bindR (read_idle buf s) (\<lambda>(s', r). read_code lr r s')"

text \<open>The chunks of a message up to the end of the code.\<close>

fun read_chunks :: "bool \<Rightarrow> byte list list \<Rightarrow> req_state \<Rightarrow> (req_state \<times> byte list) res" where
  "read_chunks lr [] s = Inr (s, [])"
| "read_chunks lr (c # cs) s =
     bindR (read_request_code lr c s) (\<lambda>(s', r). if rq_state s' = CTX_REQ_VALUE then Inr (s', r @ concat cs) else read_chunks lr cs s')"

section \<open>The stream of a message\<close>

text \<open>The payloads of the chunks, without the repeated head; the chunks concatenated are the items written one after the other.\<close>

definition payloads :: "encoder \<Rightarrow> byte list list" where
  "payloads e = map (drop 24) (sent e @ [ebuf e])"

definition enc_wf :: "encoder \<Rightarrow> bool" where
  "enc_wf e \<longleftrightarrow> length (ehead e) = 24 \<and> take 24 (ebuf e) = ehead e"

text \<open>Every string is written where it fits into the chunk.\<close>

fun fits :: "item list \<Rightarrow> encoder \<Rightarrow> bool" where
  "fits [] e = True"
| "fits (Fixed bs # is) e = fits is (put_fixed bs e)"
| "fits (Chars s # is) e = (length s < CHUNKSZ - enc_offset e \<and> fits is (e\<lparr>ebuf := ebuf e @ flat_item (Chars s)\<rparr>))"
| "fits (Room # is) e = fits is (enc_room e)"

lemma enc_wf_length: "enc_wf e \<Longrightarrow> 24 \<le> length (ebuf e)"
  by (auto simp: enc_wf_def dest: arg_cong [where f = length])

lemma mk_encoder_wf: "enc_wf (mk_encoder m r s)" "payloads (mk_encoder m r s) = [[]]"
  by (simp_all add: enc_wf_def mk_encoder_def head_bytes_def payloads_def Let_def)

lemma append_ok:
  assumes "enc_wf e"
  shows "enc_wf (e\<lparr>ebuf := ebuf e @ bs\<rparr>)" "concat (payloads (e\<lparr>ebuf := ebuf e @ bs\<rparr>)) = concat (payloads e) @ bs"
    "\<exists>p. hd (payloads (e\<lparr>ebuf := ebuf e @ bs\<rparr>)) = hd (payloads e) @ p"
  using assms enc_wf_length [OF assms] by (auto simp: enc_wf_def payloads_def hd_append)

lemma flush_ok:
  assumes "enc_wf e"
  shows "enc_wf (enc_flush e)" "concat (payloads (enc_flush e)) = concat (payloads e)" "hd (payloads (enc_flush e)) = hd (payloads e)"
  using assms by (auto simp: enc_wf_def payloads_def enc_flush_def hd_append)

lemma put_fixed_ok:
  assumes "enc_wf e"
  shows "enc_wf (put_fixed bs e)" "concat (payloads (put_fixed bs e)) = concat (payloads e) @ bs" "\<exists>p. hd (payloads (put_fixed bs e)) = hd (payloads e) @ p"
  using append_ok [OF assms, of bs] append_ok [OF flush_ok(1) [OF assms], of bs] flush_ok [OF assms] by (simp_all add: put_fixed_def Let_def)

lemma chars_loop_fits: "length s < CHUNKSZ - enc_offset e \<Longrightarrow> chars_loop s 0 e = Some (e\<lparr>ebuf := ebuf e @ flat_item (Chars s)\<rparr>)"
  by (subst chars_loop.simps) (auto simp: Let_def getAlignedLength_def)

lemma put_items_ok:
  assumes "enc_wf e" "fits is e"
  shows "\<exists>e'. put_items is e = Some e' \<and> enc_wf e' \<and> concat (payloads e') = concat (payloads e) @ flat_items is \<and> (\<exists>p. hd (payloads e') = hd (payloads e) @ p)"
  using assms
proof (induction "is" e rule: fits.induct)
  case (2 bs "is" e)
  then show ?case using put_fixed_ok [OF 2(2), of bs] by fastforce
next
  case (3 s "is" e)
  then show ?case using append_ok [OF 3(2), of "flat_item (Chars s)"] chars_loop_fits [of s e] by fastforce
next
  case (4 "is" e)
  then show ?case using flush_ok [OF 4(2)] by (auto simp: enc_room_def)
qed simp

lemma fits_small: "enc_offset e + length (flat_items is) < CHUNKSZ \<Longrightarrow> length (ehead e) \<le> length (ebuf e) \<Longrightarrow> fits is e"
proof (induction "is" e rule: fits.induct)
  case (3 s "is" e)
  then show ?case by (simp add: enc_offset_def)
qed (simp_all add: put_fixed_def enc_offset_def enc_room_def enc_flush_def)

section \<open>Reassembly\<close>

text \<open>A chunk while the code is incomplete: the code grows by a prefix of the chunk, or is complete.\<close>

lemma read_code_grow:
  assumes "length (codeBuf s) + length c < codeLen s"
  shows "read_code lr c s = Inr (s\<lparr>codeBuf := codeBuf s @ c\<rparr>, [])"
  using assms by (simp add: read_code_def Let_def)

lemma read_code_complete:
  assumes "codeBuf s @ c = code @ r" "codeLen s = length code" "length (codeBuf s) \<le> length code" "length code \<le> length (codeBuf s) + length c"
    and "readCode_buffer lr code = Inr e"
  shows "read_code lr c s = Inr (s\<lparr>rq_code := Some e, codeBuf := [], codeLen := 0, rq_state := CTX_REQ_VALUE\<rparr>, r)"
proof -
  define m where "m = length code - length (codeBuf s)"
  have "take (length code) (codeBuf s @ c) = code" "drop (length code) (codeBuf s @ c) = r" unfolding assms(1) by simp_all
  then have "codeBuf s @ take m c = code" "drop m c = r" using assms(3) by (simp_all add: m_def)
  moreover have "length (codeBuf s) + min (length c) m = length code" using assms(3,4) by (simp add: m_def)
  ultimately show ?thesis using assms(2-5) by (simp add: read_code_def Let_def flip: m_def)
qed

lemma cut_prefix: "xs @ ys = us @ ts \<Longrightarrow> length us \<le> length xs \<Longrightarrow> \<exists>q. xs = us @ q \<and> ts = q @ ys"
  by (auto simp: append_eq_append_conv2)

lemma read_chunks_code:
  assumes "rq_state s = CTX_REQ_CODE" "codeBuf s @ concat cs = code @ r" "codeLen s = length code" "length (codeBuf s) < length code"
    and "readCode_buffer lr code = Inr e"
  shows "\<exists>s'. read_chunks lr cs s = Inr (s', r) \<and> rq_code s' = Some e \<and> rq_state s' = CTX_REQ_VALUE"
  using assms
proof (induction cs arbitrary: s)
  case Nil
  then show ?case by (auto dest: arg_cong [where f = length])
next
  case (Cons c cs)
  have idle: "read_request_code lr c s = read_code lr c s" using Cons(2) by (simp add: read_request_code_def read_idle_def)
  show ?case
  proof (cases "length (codeBuf s) + length c < length code")
    case True
    define t where "t = s\<lparr>codeBuf := codeBuf s @ c\<rparr>"
    have "\<exists>s'. read_chunks lr cs t = Inr (s', r) \<and> rq_code s' = Some e \<and> rq_state s' = CTX_REQ_VALUE"
      using Cons True by (intro Cons.IH) (simp_all add: t_def)
    then show ?thesis using True idle read_code_grow [of s c lr] Cons(2,4) by (simp add: t_def)
  next
    case False
    obtain q where q: "codeBuf s @ c = code @ q" "r = q @ concat cs"
      using Cons(3) False cut_prefix [of "codeBuf s @ c" "concat cs" code r] by auto
    then show ?thesis using idle read_code_complete [OF q(1) Cons(4) _ _ Cons(6)] Cons(5) False by simp
  qed
qed

text \<open>An expression that is sent in chunks is put together again: the chunks of the message, without the heads that are repeated, are the
  length and the code one after the other, and reading them chunk by chunk ends with the expression, wherever the chunks are cut.\<close>
theorem request_code_reassembled:
  assumes "sendable e" "writeCode e = Inr is" "length (flat_items is) < 2 ^ 32"
    and "fits (u64_item (length (flat_items is)) # is) (mk_encoder m r s)"
  shows "\<exists>enc st. code_items e = Inr (u64_item (length (flat_items is)) # is) \<and>
    put_items (u64_item (length (flat_items is)) # is) (mk_encoder m r s) = Some enc \<and>
    concat (map (drop 24) (sent (enc_flush enc))) = put_u64 (length (flat_items is)) @ flat_items is \<and>
    read_chunks True (map (drop 24) (sent (enc_flush enc))) mk_req_state = Inr (st, []) \<and> rq_code st = Some (received e) \<and> rq_state st = CTX_REQ_VALUE"
proof -
  define n where "n = length (flat_items is)"
  obtain len: "codeLength e = Inr n" and rd: "readCode_buffer True (flat_items is) = Inr (received e)" and pos: "8 \<le> n"
  proof -
    obtain js where "writeCode e = Inr js" "8 \<le> length (flat_items js)" "length (flat_items js) < 2 ^ 32 \<Longrightarrow> codeLength e = Inr (length (flat_items js))"
      "\<And>k r. length (flat_items js) \<le> 8 * k \<Longrightarrow> readCode True k (flat_items js @ r) = Inr (received e, r)"
      using code_all [OF assms(1)] by (auto elim: code_okE)
    moreover from this(4) [of "n + 1" "[]"] have "readCode_buffer True (flat_items is) = Inr (received e)" using assms(2) calculation(1) by (simp add: n_def readCode_buffer_def)
    ultimately show thesis using assms(2,3) that by (simp add: n_def)
  qed
  define e0 where "e0 = put_fixed (put_u64 n) (mk_encoder m r s)"
  have e0: "enc_wf e0" "payloads e0 = [put_u64 n]" using put_fixed_ok(1) [OF mk_encoder_wf(1), of "put_u64 n" m r s]
    by (simp_all add: e0_def, simp add: put_fixed_def mk_encoder_def head_bytes_def enc_offset_def INIT_OFFSET_def CHUNKSZ_def payloads_def Let_def)
  obtain enc p where enc: "put_items is e0 = Some enc" "concat (payloads enc) = put_u64 n @ flat_items is" "hd (payloads enc) = put_u64 n @ p"
    using put_items_ok [OF e0(1), of "is"] assms(4) e0(2) by (auto simp: e0_def n_def)
  have cs: "map (drop 24) (sent (enc_flush enc)) = payloads enc" by (simp add: enc_flush_def payloads_def)
  obtain ps where ps: "payloads enc = (put_u64 n @ p) # ps" using enc(3) by (cases "payloads enc") (simp_all add: payloads_def)
  then have code: "p @ concat ps = flat_items is" using enc(2) by simp
  have n64: "n < 2 ^ 64" using assms(3) by (simp add: n_def)
  define s1 where "s1 = mk_req_state\<lparr>codeLen := n, rq_state := CTX_REQ_CODE\<rparr>"
  have first: "read_chunks True ((put_u64 n @ p) # ps) mk_req_state = read_chunks True (p # ps) s1"
    using n64 by (simp add: read_request_code_def read_idle_def mk_req_state_def s1_def)
  obtain st where st: "read_chunks True (p # ps) s1 = Inr (st, [])" "rq_code st = Some (received e)" "rq_state st = CTX_REQ_VALUE"
  proof -
    have "rq_state s1 = CTX_REQ_CODE" "codeBuf s1 @ concat (p # ps) = flat_items is @ []" "codeLen s1 = length (flat_items is)" using code
      by (simp_all add: s1_def mk_req_state_def n_def)
    moreover have "codeBuf s1 = []" by (simp add: s1_def mk_req_state_def)
    then have "length (codeBuf s1) < length (flat_items is)" using pos by (simp only: n_def [symmetric] list.size)
    ultimately show thesis using read_chunks_code [OF _ _ _ _ rd] that by blast
  qed
  have "code_items e = Inr (u64_item n # is)" "put_items (u64_item n # is) (mk_encoder m r s) = Some enc"
    using len assms(2) enc(1) by (simp_all add: code_items_def e0_def)
  then show ?thesis using enc(2) st first unfolding n_def [symmetric] ps [symmetric] cs [symmetric] by (intro exI [of _ enc] exI [of _ st]) simp
qed

section \<open>Bounds of the buffer\<close>

text \<open>Items in groups of eight bytes; with them the position in the buffer is a multiple of eight after every group, and never beyond the end.\<close>

fun aligned_items :: "item list \<Rightarrow> bool" where
  "aligned_items [] = True"
| "aligned_items (Chars s # is) = (length s < 2 ^ 32 - 8 \<and> aligned_items is)"
| "aligned_items (Room # is) = aligned_items is"
| "aligned_items [Fixed a] = (length a = 8)"
| "aligned_items (Fixed a # Room # is) = (length a = 8 \<and> aligned_items (Room # is))"
| "aligned_items (Fixed a # Chars s # is) = (length a = 8 \<and> aligned_items (Chars s # is))"
| "aligned_items (Fixed a # Fixed b # is) = (if length a = 4 then length b = 4 \<and> aligned_items is else length a = 8 \<and> aligned_items (Fixed b # is))"

definition enc_bounded :: "encoder \<Rightarrow> bool" where
  "enc_bounded e \<longleftrightarrow> enc_wf e \<and> enc_offset e \<le> CHUNKSZ \<and> enc_offset e mod 8 = 0 \<and> (\<forall>c\<in>set (sent e). INIT_OFFSET + length c \<le> CHUNKSZ)"

lemma aligned_dvd: "n < 2 ^ 32 - 8 \<Longrightarrow> getAlignedLength n STRALIGN mod 8 = 0"
proof -
  assume n: "n < 2 ^ 32 - 8"
  then have "(n + 8 - n mod 8) mod 2 ^ 32 = n + 8 - n mod 8" by (intro mod_less) simp
  moreover have "(n + 8 - n mod 8) mod 8 = 0" by presburger
  ultimately show ?thesis using n by (simp add: getAlignedLength_def STRALIGN_def Let_def)
qed

lemma flush_bounded: "enc_bounded e \<Longrightarrow> enc_bounded (enc_flush e)"
  using flush_ok(1) [of e] by (auto simp: enc_bounded_def enc_flush_def enc_offset_def INIT_OFFSET_def CHUNKSZ_def enc_wf_def)

lemma put_fixed_bounded: "enc_bounded e \<Longrightarrow> length bs = 8 \<Longrightarrow> enc_bounded (put_fixed bs e)"
proof -
  have app: "enc_bounded (x\<lparr>ebuf := ebuf x @ bs\<rparr>)" if "enc_bounded x" "enc_offset x + length bs \<le> CHUNKSZ" "length bs = 8" for x
    using that append_ok(1) [of x bs] by (auto simp: enc_bounded_def enc_offset_def mod_eq_0_iff_dvd simp flip: add.assoc)
  assume e: "enc_bounded e" "length bs = 8"
  moreover have "enc_offset (enc_flush e) + length bs \<le> CHUNKSZ" using e by (simp add: enc_bounded_def enc_flush_def enc_offset_def INIT_OFFSET_def CHUNKSZ_def enc_wf_def)
  ultimately show ?thesis using app flush_bounded [of e] by (simp add: put_fixed_def Let_def)
qed

lemma put_pair_bounded: "enc_bounded e \<Longrightarrow> length a = 4 \<Longrightarrow> length b = 4 \<Longrightarrow> put_fixed b (put_fixed a e) = put_fixed (a @ b) e"
proof -
  assume e: "enc_bounded e" and l: "length a = 4" "length b = 4"
  have "enc_offset e mod 8 = 0" "enc_offset e \<le> CHUNKSZ" using e by (simp_all add: enc_bounded_def)
  then have "enc_offset e + 4 \<le> CHUNKSZ \<longleftrightarrow> enc_offset e + 8 \<le> CHUNKSZ" unfolding CHUNKSZ_def by presburger
  moreover have "length (ehead e) = 24" using e by (simp add: enc_bounded_def enc_wf_def)
  ultimately show ?thesis using l by (auto simp: put_fixed_def Let_def enc_offset_def enc_flush_def INIT_OFFSET_def CHUNKSZ_def)
qed

lemma chars_bounded:
  assumes "chars_loop s k e = Some e'" "enc_bounded e" "length s < 2 ^ 32 - 8"
  shows "enc_bounded e'"
proof -
  have "enc_bounded e \<longrightarrow> length s < 2 ^ 32 - 8 \<longrightarrow> enc_bounded e'"
  proof (rule chars_loop.raw_induct [OF _ assms(1)])
    fix f s k e e'
    assume ih: "\<And>s k e e'. f s k e = Some e' \<Longrightarrow> enc_bounded e \<longrightarrow> length s < 2 ^ 32 - 8 \<longrightarrow> enc_bounded e'"
      and eq: "(if k < length s then let nmax = CHUNKSZ - enc_offset e; remaining = length s - k in
          if remaining < nmax then Some (e\<lparr>ebuf := ebuf e @ flat_item (Chars (take remaining s))\<rparr>)
          else f s (k + nmax) (e\<lparr>sent := sent e @ [ebuf e]\<rparr>) else Some e) = Some e'"
    show "enc_bounded e \<longrightarrow> length s < 2 ^ 32 - 8 \<longrightarrow> enc_bounded e'"
    proof (intro impI)
      assume e: "enc_bounded e" and s: "length s < 2 ^ 32 - 8"
      define rem where "rem = length s - k"
      show "enc_bounded e'"
      proof (cases "k < length s \<and> rem < CHUNKSZ - enc_offset e")
        case True
        then have e': "e' = e\<lparr>ebuf := ebuf e @ flat_item (Chars (take rem s))\<rparr>" using eq by (simp add: rem_def Let_def)
        define al where "al = length (flat_item (Chars (take rem s)))"
        have "rem < 2 ^ 32 - 8" "length (take rem s) = rem" using s by (auto simp: rem_def)
        then have al: "al = getAlignedLength rem STRALIGN" using aligned [of rem] by (simp add: al_def)
        have "al mod 8 = 0 \<and> al < rem + 8" using \<open>rem < 2 ^ 32 - 8\<close> aligned [of rem] aligned_dvd [of rem] by (simp add: al)
        moreover have "enc_offset e mod 8 = 0" "enc_offset e \<le> CHUNKSZ" "rem < CHUNKSZ - enc_offset e" using e True by (simp_all add: enc_bounded_def)
        then obtain p q where pq: "enc_offset e = 8 * p" "al = 8 * q" "8 * p + rem < 131072" "8 * q < rem + 8"
          using calculation unfolding CHUNKSZ_def by (auto elim!: dvdE simp: mod_eq_0_iff_dvd)
        have "p + q < 16385" using pq(3,4) by presburger
        then have "enc_offset e + al \<le> CHUNKSZ" "(enc_offset e + al) mod 8 = 0" using pq(1,2) by (auto simp: CHUNKSZ_def)
        then show ?thesis using e append_ok(1) [of e] unfolding e' by (simp add: enc_bounded_def enc_offset_def al_def add.assoc)
      next
        case False
        have "enc_bounded (e\<lparr>sent := sent e @ [ebuf e]\<rparr>)" using e by (auto simp: enc_bounded_def enc_offset_def enc_wf_def)
        then show ?thesis using eq ih s e False by (auto simp: rem_def Let_def split: if_splits)
      qed
    qed
  qed
  then show ?thesis using assms by blast
qed


lemma mk_encoder_bounded: "enc_bounded (mk_encoder m r s)"
  using mk_encoder_wf(1) [of m r s] by (simp add: enc_bounded_def mk_encoder_def head_bytes_def enc_offset_def INIT_OFFSET_def CHUNKSZ_def Let_def)

text \<open>What \<open>writeCode\<close> writes is aligned.\<close>

lemma aligned_append: "aligned_items xs \<Longrightarrow> aligned_items ys \<Longrightarrow> aligned_items (xs @ ys)"
proof (induction xs rule: aligned_items.induct)
  case (4 a)
  then show ?case by (cases ys rule: aligned_items.cases) auto
qed (auto split: if_splits)

lemma aligned_run:
  assumes "list_all (\<lambda>e. \<forall>is. writeCode e = Inr is \<longrightarrow> aligned_items is) es" "aligned_items hs" "items (Inr hs # map writeCode es) = Inr is"
  shows "aligned_items is"
proof -
  have "foldR (\<lambda>r xs. bindR r (\<lambda>ys. Inr (xs @ ys))) (map writeCode es) acc = Inr is \<Longrightarrow> aligned_items acc \<Longrightarrow> aligned_items is" for acc
    using assms(1) by (induction es arbitrary: acc) (auto simp: bindR_eq_Inr intro: aligned_append)
  then show ?thesis using assms(2,3) by (simp add: items_def)
qed

lemma aligned_leaf [simp]: "aligned_items [u64_item n]" "aligned_items [u64_item n, u64_item m]" "short_string s \<Longrightarrow> aligned_items (u64_item n # symbol_items s r)"
  "short_string s \<Longrightarrow> aligned_items (symbol_items s r)" "short_string s \<Longrightarrow> aligned_items (u64_item n # put_string s)" "aligned_items (u64_item n # put_interval i)"
  by (simp_all add: symbol_items_def put_string_def short_string_def put_interval_def flat_put)

lemma aligned1: "(\<And>is. writeCode a = Inr is \<Longrightarrow> aligned_items is) \<Longrightarrow> aligned_items hs \<Longrightarrow> items [Inr hs, writeCode a] = Inr is \<Longrightarrow> aligned_items is"
  using aligned_run [of "[a]" hs "is"] by simp

lemma aligned2: "(\<And>is. writeCode a = Inr is \<Longrightarrow> aligned_items is) \<Longrightarrow> (\<And>is. writeCode b = Inr is \<Longrightarrow> aligned_items is) \<Longrightarrow> aligned_items hs \<Longrightarrow>
    items [Inr hs, writeCode a, writeCode b] = Inr is \<Longrightarrow> aligned_items is"
  using aligned_run [of "[a, b]" hs "is"] by simp

lemma aligned3: "(\<And>is. writeCode a = Inr is \<Longrightarrow> aligned_items is) \<Longrightarrow> (\<And>is. writeCode b = Inr is \<Longrightarrow> aligned_items is) \<Longrightarrow>
    (\<And>is. writeCode c = Inr is \<Longrightarrow> aligned_items is) \<Longrightarrow> aligned_items hs \<Longrightarrow> items [Inr hs, writeCode a, writeCode b, writeCode c] = Inr is \<Longrightarrow> aligned_items is"
  using aligned_run [of "[a, b, c]" hs "is"] by simp

lemma aligned_list:
  assumes "\<And>e is. e \<in> set es \<Longrightarrow> writeCode e = Inr is \<Longrightarrow> aligned_items is" "writeCode (El es) = Inr is"
  shows "aligned_items is"
proof (rule aligned_run [of es "[u64_item 16, u64_item (length es mod 2 ^ 32)]"])
  show "items (Inr [u64_item 16, u64_item (length es mod 2 ^ 32)] # map writeCode es) = Inr is" using assms(2) by simp
qed (use assms(1) in \<open>simp_all add: list_all_iff\<close>)

lemma code_aligned: "sendable e \<Longrightarrow> writeCode e = Inr is \<Longrightarrow> aligned_items is"
proof (induction e arbitrary: "is")
  case (El es)
  show ?case by (rule aligned_list [OF El(1) El(3)]) (use El(2) in \<open>simp_all add: list_all_iff\<close>)
next
  case (Unop p e)
  show ?case by (rule aligned1 [OF Unop(1) aligned_leaf(2)]) (use Unop(2,3) in simp_all)
next
  case (Binop p l r a)
  show ?case by (rule aligned2 [OF Binop(1) Binop(2) aligned_leaf(2)]) (use Binop(4,5) in simp_all)
next
  case (While a b)
  show ?case by (rule aligned2 [OF While(1) While(2) aligned_leaf(1)]) (use While(3,4) in simp_all)
next
  case (IfElse a b c)
  show ?case by (rule aligned3 [OF IfElse(1) IfElse(2) IfElse(3) aligned_leaf(1)]) (use IfElse(4,5) in simp_all)
next
  case (For e)
  show ?case by (rule aligned1 [OF For(1) aligned_leaf(1)]) (use For(2,3) in simp_all)
next
  case (LeftAssign a b)
  show ?case by (rule aligned2 [OF LeftAssign(1) LeftAssign(2) aligned_leaf(1)]) (use LeftAssign(3,4) in simp_all)
next
  case (SpecialAssign a b)
  show ?case by (rule aligned2 [OF SpecialAssign(1) SpecialAssign(2) aligned_leaf(1)]) (use SpecialAssign(3,4) in simp_all)
next
  case (Request a b)
  show ?case by (rule aligned2 [OF Request(1) Request(2) aligned_leaf(1)]) (use Request(3,4) in simp_all)
next
  case (TaggedExpr s r e)
  show ?case by (rule aligned1 [OF TaggedExpr(1) aligned_leaf(3)]) (use TaggedExpr(2,3) in simp_all)
next
  case (Arg r e)
  show ?case by (rule aligned1 [OF Arg(1) aligned_leaf(2)]) (use Arg(2,3) in simp_all)
next
  case (Function fl b)
  then obtain l where l: "fl = Some l" by (cases fl) auto
  have el: "aligned_items js" if "writeCode (El l) = Inr js" for js
    by (rule aligned_list [OF Function(1) that]) (use Function(3) in \<open>simp_all add: l list_all_iff\<close>)
  show ?case by (rule aligned2 [OF el Function(2) aligned_leaf(1)]) (use Function(3,4) in \<open>simp_all add: l del: writeCode.simps(14)\<close>)
next
  case (Funcall f fl)
  then obtain l where l: "fl = Some l" by (cases fl) auto
  have el: "aligned_items js" if "writeCode (El l) = Inr js" for js
    by (rule aligned_list [OF Funcall(2) that]) (use Funcall(3) in \<open>simp_all add: l list_all_iff\<close>)
  show ?case by (rule aligned2 [OF Funcall(1) el aligned_leaf(1)]) (use Funcall(3,4) in \<open>simp_all add: l del: writeCode.simps(14)\<close>)
qed (auto simp: flat_put short_string_def)

section \<open>Examples\<close>

theorem request_code_reassembled_witness:
  "\<exists>is enc st. writeCode code_example = Inr is \<and> put_items (u64_item (length (flat_items is)) # is) (mk_encoder 0 7 3) = Some enc \<and>
     read_chunks True (map (drop 24) (sent (enc_flush enc))) mk_req_state = Inr (st, []) \<and> rq_code st = Some code_example"
proof -
  obtain "is" where i: "writeCode code_example = Inr is" "length (flat_items is) < 1000"
    by (simp add: code_example_def items_def symbol_items_def put_string_def getAlignedLength_def STRALIGN_def flat_put)
  have "fits (u64_item (length (flat_items is)) # is) (mk_encoder 0 7 3)"
    using i(2) by (intro fits_small) (simp_all add: mk_encoder_def head_bytes_def enc_offset_def INIT_OFFSET_def CHUNKSZ_def Let_def)
  moreover have "sendable code_example" "received code_example = code_example" by (simp_all add: code_example_def short_string_def dtime_range_def)
  ultimately show ?thesis using request_code_reassembled [of code_example "is" 0 7 3] i by auto
qed


text \<open>When the length of a string ends exactly at the end of the buffer, the loop does not end; and a string that does not fit is sent without its
  characters, the rest of the buffer being sent as it was.\<close>

lemma string_at_end_hangs:
  assumes "enc_offset e = CHUNKSZ" "s \<noteq> []"
  shows "chars_loop s 0 e = None"
proof -
  have "\<not> (enc_offset e = CHUNKSZ \<and> k < length s)" if "chars_loop s k e = Some e'" for s k e e'
  proof (rule chars_loop.raw_induct [OF _ that])
    fix f s k e and e' :: encoder
    assume ih: "\<And>s k e e'. f s k e = Some e' \<Longrightarrow> \<not> (enc_offset e = CHUNKSZ \<and> k < length s)"
      and eq: "(if k < length s then let nmax = CHUNKSZ - enc_offset e; remaining = length s - k in
          if remaining < nmax then Some (e\<lparr>ebuf := ebuf e @ flat_item (Chars (take remaining s))\<rparr>)
          else f s (k + nmax) (e\<lparr>sent := sent e @ [ebuf e]\<rparr>) else Some e) = Some e'"
    show "\<not> (enc_offset e = CHUNKSZ \<and> k < length s)"
      using eq ih [of s k "e\<lparr>sent := sent e @ [ebuf e]\<rparr>" e'] by (auto simp: enc_offset_def)
  qed
  then show ?thesis using assms by (cases "chars_loop s 0 e") auto
qed

lemma string_lost:
  assumes "CHUNKSZ - enc_offset e = length s" "s \<noteq> []"
  shows "chars_loop s 0 e = Some (e\<lparr>sent := sent e @ [ebuf e]\<rparr>)"
  using assms by (subst chars_loop.simps, simp, subst chars_loop.simps, simp)

end
