(* ===== verification/Zstring.thy ===== *)
theory Zstring
  imports Prelude
begin

text \<open>
  Strings of a fixed size (\<open>ZString\<close> in \<open>src/src/string.hpp\<close>, at its default size, which is the only one used). A string is an array of cells; a cell that
  has not been written is \<open>None\<close>, and what depends on its content is \<open>UB\<close>. The C functions on strings are given on cells as well, so that copying
  without a final zero is visible. The main result is that the operations agree with those of strings as long as at most 126 characters are
  involved: the last of the 128 cells is never written by the constructors that copy with \<open>strncpy\<close>.
\<close>

section \<open>C strings\<close>

type_synonym mem = "char option list"

abbreviation NUL :: char where
  "NUL \<equiv> CHR 0x00"

definition c_mem :: "string \<Rightarrow> mem" where
  "c_mem s = map Some s @ [Some NUL]"

fun c_string :: "mem \<Rightarrow> string res" where
  "c_string [] = Inl UB"
| "c_string (None # m) = Inl UB"
| "c_string (Some c # m) = (if c = NUL then Inr [] else bindR (c_string m) (\<lambda>s. Inr (c # s)))"

definition strlen :: "mem \<Rightarrow> nat res" where
  "strlen m = bindR (c_string m) (\<lambda>s. Inr (length s))"

fun ncpy_cells :: "nat \<Rightarrow> mem \<Rightarrow> mem res" where
  "ncpy_cells 0 m = Inr []"
| "ncpy_cells (Suc n) [] = Inl UB"
| "ncpy_cells (Suc n) (None # m) = Inl UB"
| "ncpy_cells (Suc n) (Some c # m) = (if c = NUL then Inr (replicate (Suc n) (Some NUL)) else bindR (ncpy_cells n m) (\<lambda>w. Inr (Some c # w)))"

text \<open>\<open>strncpy(&dst[at], src, n)\<close>.\<close>

definition strncpy :: "mem \<Rightarrow> nat \<Rightarrow> mem \<Rightarrow> nat \<Rightarrow> mem res" where
  "strncpy dst at src n =
     bindR (ncpy_cells n src) (\<lambda>w. if at + n \<le> length dst then Inr (take at dst @ w @ drop (at + n) dst) else Inl UB)"

text \<open>The sign of the difference of the first characters that differ, as unsigned numbers.\<close>

fun strncmp :: "nat \<Rightarrow> mem \<Rightarrow> mem \<Rightarrow> int res" where
  "strncmp 0 a b = Inr 0"
| "strncmp (Suc n) (Some c # a) (Some d # b) =
     (if c \<noteq> d then Inr (if (of_char c :: nat) < of_char d then - 1 else 1) else if c = NUL then Inr 0 else strncmp n a b)"
| "strncmp (Suc n) a b = Inl UB"

section \<open>The type\<close>

definition STRING_SIZE :: nat where
  "STRING_SIZE = 128"

definition fresh :: mem where
  "fresh = replicate STRING_SIZE None"

definition zs_empty :: mem where
  "zs_empty = fresh[0 := Some NUL]"

definition zs_of_chars :: "mem \<Rightarrow> mem res" where
  "zs_of_chars s = strncpy fresh 0 s (STRING_SIZE - 1)"

definition zs_of_string :: "string \<Rightarrow> mem res" where
  "zs_of_string s = zs_of_chars (c_mem s)"

definition zs_of_range :: "string \<Rightarrow> mem" where
  "zs_of_range s = (let n = min (length s) (STRING_SIZE - 1) in (map Some (take n s) @ drop n fresh)[n := Some NUL])"

definition zs_copy :: "mem \<Rightarrow> mem res" where
  "zs_copy z = strncpy fresh 0 z (STRING_SIZE - 1)"

definition zs_fill :: "char \<Rightarrow> nat \<Rightarrow> mem" where
  "zs_fill c n = (let len = min n (STRING_SIZE - 1) in (replicate len (Some c) @ drop len fresh)[len := Some NUL])"

definition zs_assign :: "mem \<Rightarrow> mem \<Rightarrow> mem res" where
  "zs_assign z s = strncpy z 0 s (STRING_SIZE - 1)"

definition zs_str :: "mem \<Rightarrow> string res" where
  "zs_str z = c_string z"

definition zs_size :: "mem \<Rightarrow> nat res" where
  "zs_size z = strlen z"

definition zs_at :: "mem \<Rightarrow> nat \<Rightarrow> char res" where
  "zs_at z pos =
     bindR (zs_size z) (\<lambda>n. if pos < n then (case z ! pos of None \<Rightarrow> Inl UB | Some c \<Rightarrow> Inr c)
                            else Inl (RangeError ''zstring out of boundary subset''))"

function zs_find :: "mem \<Rightarrow> char \<Rightarrow> nat \<Rightarrow> nat res" where
  "zs_find z c pos =
     bindR (zs_size z) (\<lambda>n. if pos < n \<and> pos < STRING_SIZE \<and> z ! pos \<noteq> Some c then zs_find z c (pos + 1) else Inr pos)"
  by pat_completeness auto
termination by (relation "measure (\<lambda>(z, c, pos). STRING_SIZE - pos)") auto

text \<open>The second string is copied behind the first.\<close>

definition zs_append :: "mem \<Rightarrow> mem \<Rightarrow> mem res" where
  "zs_append s1 s2 = bindR (zs_copy s1) (\<lambda>s. bindR (zs_size s) (\<lambda>n. strncpy s n s2 (STRING_SIZE - n - 1)))"

definition zs_eq :: "mem \<Rightarrow> mem \<Rightarrow> bool res" where
  "zs_eq a b = bindR (strncmp STRING_SIZE a b) (\<lambda>k. Inr (k = 0))"

definition zs_le :: "mem \<Rightarrow> mem \<Rightarrow> bool res" where
  "zs_le a b = bindR (strncmp STRING_SIZE a b) (\<lambda>k. Inr (k \<le> 0))"

definition zs_lt :: "mem \<Rightarrow> mem \<Rightarrow> bool res" where
  "zs_lt a b = bindR (strncmp STRING_SIZE a b) (\<lambda>k. Inr (k < 0))"

text \<open>A string that is stored in a \<open>zstring\<close> and taken out again.\<close>

definition zstr :: "string \<Rightarrow> string res" where
  "zstr s = bindR (zs_of_string s) zs_str"

section \<open>Strings that are represented\<close>

definition plain :: "string \<Rightarrow> bool" where
  "plain s \<longleftrightarrow> NUL \<notin> set s \<and> length s < STRING_SIZE - 1"

definition rep :: "mem \<Rightarrow> string \<Rightarrow> bool" where
  "rep z s \<longleftrightarrow> length z = STRING_SIZE \<and> plain s \<and> (\<exists>m. z = c_mem s @ m)"

lemma c_string_mem: "c_string (c_mem s @ m) = Inr (takeWhile (\<lambda>c. c \<noteq> NUL) s)"
  by (induction s) (auto simp: c_mem_def)

lemma plain_until: "plain s \<Longrightarrow> takeWhile (\<lambda>c. c \<noteq> NUL) s = s"
  by (auto simp: plain_def takeWhile_eq_all_conv)

lemma c_string_rep: "rep z s \<Longrightarrow> c_string z = Inr s"
  by (auto simp: rep_def c_string_mem plain_until)

lemma ncpy_mem:
  "ncpy_cells n (c_mem s @ m) = (let c = takeWhile (\<lambda>c. c \<noteq> NUL) s in Inr (take n (map Some c @ replicate n (Some NUL))))"
proof (induction n arbitrary: s)
  case (Suc n)
  then show ?case by (cases s) (auto simp: c_mem_def Let_def replicate_append_same take_map simp flip: replicate_Suc)
qed simp

lemma ncpy_short: "NUL \<notin> set s \<Longrightarrow> length s < n \<Longrightarrow> ncpy_cells n (c_mem s @ m) = Inr (c_mem s @ replicate (n - length s - 1) (Some NUL))"
proof (induction s arbitrary: n)
  case Nil
  then show ?case by (cases n) (auto simp: c_mem_def)
next
  case (Cons c s)
  then show ?case by (cases n) (auto simp: c_mem_def)
qed

text \<open>Copying into a string that is at least as long as the text before it.\<close>

lemma strncpy_rep:
  assumes "length dst = STRING_SIZE" "take (length s) dst = map Some s" "plain (s @ t)"
  shows "\<exists>y. strncpy dst (length s) (c_mem t @ m) (STRING_SIZE - length s - 1) = Inr y \<and> rep y (s @ t)"
proof -
  have t: "NUL \<notin> set t" "length t < STRING_SIZE - length s - 1" using assms(3) by (auto simp: plain_def)
  then have "strncpy dst (length s) (c_mem t @ m) (STRING_SIZE - length s - 1) =
      Inr (c_mem (s @ t) @ replicate (STRING_SIZE - length s - 1 - length t - 1) (Some NUL) @ drop (STRING_SIZE - 1) dst)"
    using assms(1,2) ncpy_short [OF t] by (simp add: strncpy_def c_mem_def)
  then show ?thesis using assms(1,3) t by (auto simp: rep_def c_mem_def)
qed

lemma copy_rep:
  assumes "length dst = STRING_SIZE" "rep z s"
  shows "\<exists>y. strncpy dst 0 z (STRING_SIZE - 1) = Inr y \<and> rep y s"
  using strncpy_rep [OF assms(1), of "[]" s] assms(2) by (auto simp: rep_def)

lemma zs_of_string_rep: "plain s \<Longrightarrow> \<exists>z. zs_of_string s = Inr z \<and> rep z s"
  using strncpy_rep [of fresh "[]" s "[]"] by (simp add: zs_of_string_def zs_of_chars_def fresh_def)

lemma zs_append_rep:
  assumes "rep z s" "rep w t" "plain (s @ t)"
  shows "\<exists>y. zs_append z w = Inr y \<and> rep y (s @ t)"
proof -
  obtain y where y: "zs_copy z = Inr y" "rep y s" using copy_rep [of fresh z s] assms(1) by (auto simp: zs_copy_def fresh_def)
  have "take (length s) y = map Some s" using y(2) by (auto simp: rep_def c_mem_def)
  moreover obtain m where "w = c_mem t @ m" using assms(2) by (auto simp: rep_def)
  ultimately show ?thesis using strncpy_rep [of y s t m] y assms(3) c_string_rep [OF y(2)]
    by (auto simp: zs_append_def zs_size_def strlen_def rep_def)
qed

lemma rep_nth: "rep z s \<Longrightarrow> i < length s \<Longrightarrow> z ! i = Some (s ! i)"
  by (auto simp: rep_def c_mem_def nth_append)

lemma zs_size_rep: "rep z s \<Longrightarrow> zs_size z = Inr (length s)"
  by (simp add: zs_size_def strlen_def c_string_rep)

lemma zs_find_rep:
  assumes "rep z s"
  shows "zs_find z c pos = Inr (pos + length (takeWhile (\<lambda>d. d \<noteq> c) (drop pos s)))"
proof (induction "length s - pos" arbitrary: pos)
  case 0
  then show ?case using zs_size_rep [OF assms] by (subst zs_find.simps) simp
next
  case (Suc k)
  then have lt: "pos < length s" by simp
  then have "drop pos s = s ! pos # drop (Suc pos) s" by (simp add: Cons_nth_drop_Suc)
  moreover have "length s < STRING_SIZE" using assms by (auto simp: rep_def plain_def STRING_SIZE_def)
  ultimately show ?case using Suc.hyps(1) [of "Suc pos"] Suc.hyps(2) zs_size_rep [OF assms] rep_nth [OF assms lt] lt
    by (subst zs_find.simps) auto
qed

text \<open>The characters as unsigned numbers.\<close>

abbreviation codes :: "string \<Rightarrow> nat list" where
  "codes \<equiv> map of_char"

lemma of_char_pos: "c \<noteq> NUL \<Longrightarrow> 0 < (of_char c :: nat)"
proof (rule ccontr)
  assume c: "c \<noteq> NUL" "\<not> 0 < (of_char c :: nat)"
  then have "(of_char c :: nat) = of_char NUL" by simp
  then show False using c(1) by (simp only: of_char_eq_iff)
qed

lemma strncmp_mem:
  assumes "NUL \<notin> set s" "NUL \<notin> set t" "length s < n" "length t < n"
  shows "strncmp n (c_mem s @ a) (c_mem t @ b) =
    Inr (if s = t then 0 else if ord_class.lexordp (codes s) (codes t) then - 1 else 1)"
  using assms
proof (induction n arbitrary: s t)
  case (Suc n)
  show ?case
  proof (cases s; cases t)
    fix c s' d t' assume "s = c # s'" "t = d # t'"
    moreover have "c \<noteq> d \<Longrightarrow> (of_char c :: nat) < of_char d \<or> (of_char d :: nat) < of_char c" by (metis nat_neq_iff of_char_eq_iff)
    ultimately show ?thesis using Suc.IH [of s' t'] Suc.prems by (cases "c = d") (auto simp: c_mem_def)
  next
    fix d t' assume "s = []" "t = d # t'"
    then show ?thesis using Suc.prems of_char_pos [of d] by (auto simp: c_mem_def)
  next
    fix c s' assume "s = c # s'" "t = []"
    then show ?thesis using Suc.prems of_char_pos [of c] by (auto simp: c_mem_def)
  qed (simp add: c_mem_def)
qed simp

lemma strncmp_rep:
  assumes "rep z s" "rep w t"
  shows "strncmp STRING_SIZE z w = Inr (if s = t then 0 else if ord_class.lexordp (codes s) (codes t) then - 1 else 1)"
proof -
  obtain a b where "z = c_mem s @ a" "w = c_mem t @ b" using assms by (auto simp: rep_def)
  then show ?thesis using strncmp_mem [of s t STRING_SIZE a b] assms by (auto simp: rep_def plain_def STRING_SIZE_def)
qed

lemma lexordp_irrefl_nat: "\<not> ord_class.lexordp xs (xs :: nat list)"
  by (induction xs) auto

lemma update_replicate: "0 < n \<Longrightarrow> (replicate n x)[0 := y] = y # replicate (n - 1) x"
  by (cases n) simp_all

lemma zs_of_range_cells: "zs_of_range s = (let n = min (length s) (STRING_SIZE - 1) in c_mem (take n s) @ replicate (STRING_SIZE - n - 1) None)"
  by (auto simp: zs_of_range_def Let_def c_mem_def fresh_def list_update_append STRING_SIZE_def update_replicate min_def)

lemma zs_fill_cells: "zs_fill c n = zs_of_range (replicate n c)"
  by (simp add: zs_fill_def zs_of_range_def Let_def map_replicate min_def)

lemma zs_of_range_rep: "plain s \<Longrightarrow> rep (zs_of_range s) s"
  by (auto simp: rep_def zs_of_range_cells Let_def plain_def c_mem_def min_def)

section \<open>Agreement with strings\<close>

text \<open>C38. A string of at most 126 characters other than zero is represented after construction, and on representations size, subscript, search, comparison,
  assignment and concatenation are those of strings (the order is that of the unsigned codes), as long as the result has at most 126 characters.\<close>

theorem zstring_refines_string:
  assumes "rep z s" "rep w t"
  shows "(plain u \<longrightarrow> (\<exists>y. zs_of_string u = Inr y \<and> rep y u)) \<and>
    zs_str z = Inr s \<and> zs_size z = Inr (length s) \<and>
    zs_at z i = (if i < length s then Inr (s ! i) else Inl (RangeError ''zstring out of boundary subset'')) \<and>
    zs_find z c i = Inr (i + length (takeWhile (\<lambda>d. d \<noteq> c) (drop i s))) \<and>
    zs_eq z w = Inr (s = t) \<and> zs_lt z w = Inr (ord_class.lexordp (codes s) (codes t)) \<and>
    zs_le z w = Inr (s = t \<or> ord_class.lexordp (codes s) (codes t)) \<and>
    (\<exists>y. zs_assign z w = Inr y \<and> rep y t) \<and>
    (plain (s @ t) \<longrightarrow> (\<exists>y. zs_append z w = Inr y \<and> rep y (s @ t)))"
proof (intro conjI)
  show "plain u \<longrightarrow> (\<exists>y. zs_of_string u = Inr y \<and> rep y u)" using zs_of_string_rep by blast
  show "zs_str z = Inr s" by (simp add: zs_str_def c_string_rep [OF assms(1)])
  show "zs_size z = Inr (length s)" by (rule zs_size_rep [OF assms(1)])
  show "zs_at z i = (if i < length s then Inr (s ! i) else Inl (RangeError ''zstring out of boundary subset''))"
    by (simp add: zs_at_def zs_size_rep [OF assms(1)] rep_nth [OF assms(1)])
  show "zs_find z c i = Inr (i + length (takeWhile (\<lambda>d. d \<noteq> c) (drop i s)))" by (rule zs_find_rep [OF assms(1)])
  show "zs_eq z w = Inr (s = t)" "zs_lt z w = Inr (ord_class.lexordp (codes s) (codes t))"
    "zs_le z w = Inr (s = t \<or> ord_class.lexordp (codes s) (codes t))"
    using lexordp_irrefl_nat [of "codes t"] by (simp_all add: zs_eq_def zs_lt_def zs_le_def strncmp_rep [OF assms])
  show "\<exists>y. zs_assign z w = Inr y \<and> rep y t" using copy_rep [OF _ assms(2), of z] assms(1) by (simp add: zs_assign_def rep_def)
  show "plain (s @ t) \<longrightarrow> (\<exists>y. zs_append z w = Inr y \<and> rep y (s @ t))" using zs_append_rep [OF assms] by blast
qed

theorem zstring_refines_string_witness:
  "\<exists>y. zs_append (zs_of_range ''ab'') (zs_fill CHR ''c'' 2) = Inr y \<and> zs_lt (zs_of_range ''ab'') (zs_fill CHR ''c'' 2) = Inr True \<and> rep y ''abcc''"
proof -
  have "rep (zs_of_range ''ab'') ''ab''" "rep (zs_fill CHR ''c'' 2) ''cc''" "plain ''abcc''"
    unfolding zs_fill_cells by (auto simp: plain_def STRING_SIZE_def numeral_2_eq_2 intro!: zs_of_range_rep)
  from zstring_refines_string [OF this(1,2), of "[]" 0 "CHR ''a''"] this(3) show ?thesis by auto
qed

text \<open>The constructors from a range and from a character write the final zero themselves.\<close>

lemma zs_of_range_long: "NUL \<notin> set s \<Longrightarrow> zs_str (zs_of_range s) = Inr (take (STRING_SIZE - 1) s)"
proof -
  assume s: "NUL \<notin> set s"
  define n where "n = min (length s) (STRING_SIZE - 1)"
  have "takeWhile (\<lambda>c. c \<noteq> NUL) (take n s) = take n s" using s set_take_subset [of n s] by (auto simp: takeWhile_eq_all_conv)
  then show ?thesis using c_string_mem [of "take n s"] by (simp add: zs_str_def zs_of_range_cells Let_def n_def min_def)
qed

text \<open>A constructor that copies with \<open>strncpy\<close> leaves a string of 127 characters or more without a final zero.\<close>

lemma zstr_eq: "zstr s = (let c = takeWhile (\<lambda>c. c \<noteq> NUL) s in if length c < STRING_SIZE - 1 then Inr c else Inl UB)"
proof -
  define c where "c = takeWhile (\<lambda>c. c \<noteq> NUL) s"
  have nul: "NUL \<notin> set c" using set_takeWhileD unfolding c_def by metis
  then have all: "takeWhile (\<lambda>c. c \<noteq> NUL) c = c" by (auto simp: takeWhile_eq_all_conv)
  have long: "c_string (map Some w @ None # m) = Inl UB" if "NUL \<notin> set w" for w m using that by (induction w) auto
  have z: "zs_of_string s = Inr (take (STRING_SIZE - 1) (map Some c @ replicate (STRING_SIZE - 1) (Some NUL)) @ [None])"
    using ncpy_mem [of "STRING_SIZE - 1" s "[]"]
    by (simp add: zs_of_string_def zs_of_chars_def strncpy_def c_def fresh_def Let_def STRING_SIZE_def)
  show ?thesis
  proof (cases "length c < STRING_SIZE - 1")
    case True
    then obtain k where "STRING_SIZE - 1 - length c = Suc k" by (metis Suc_diff_Suc)
    then have "take (STRING_SIZE - 1) (map Some c @ replicate (STRING_SIZE - 1) (Some NUL)) @ [None] = c_mem c @ replicate k (Some NUL) @ [None]"
      using True by (simp add: c_mem_def)
    then show ?thesis using True z c_string_mem [of c] all by (simp add: zstr_def zs_str_def c_def [symmetric] Let_def)
  next
    case False
    then show ?thesis using z long [of "take (STRING_SIZE - 1) c" "[]"] nul set_take_subset [of "STRING_SIZE - 1" c]
      by (auto simp: zstr_def zs_str_def c_def [symmetric] take_map)
  qed
qed

lemma zstr_plain: "zstr s = Inr s \<longleftrightarrow> plain s"
proof
  assume "zstr s = Inr s"
  then have "length (takeWhile (\<lambda>c. c \<noteq> NUL) s) < STRING_SIZE - 1 \<and> takeWhile (\<lambda>c. c \<noteq> NUL) s = s"
    unfolding zstr_eq Let_def by (metis Inl_Inr_False sum.inject(2))
  then show "plain s" using set_takeWhileD [of NUL "\<lambda>c. c \<noteq> NUL" s] by (metis plain_def)
next
  assume "plain s"
  then show "zstr s = Inr s" unfolding zstr_eq Let_def plain_until [OF \<open>plain s\<close>] by (simp add: plain_def)
qed

end
