(* ===== verification/Encode_Value.thy ===== *)
theory Encode_Value
  imports Encode Period Array Zstring
begin

text \<open>
  Encoding of values (\<open>operator <<\<close> for \<open>val::Value\<close> and \<open>Array\<close>, \<open>readValue\<close>, \<open>readArray\<close> and what they call in \<open>src/src/encode.cpp\<close> and
  \<open>src/src/encode.hpp\<close>). A value is decoded with a stack of partly built values, so that it may be split over buffers; \<open>idx\<close> is one above the
  value that is being completed, and equals the height of the stack when a new value is to be read. An array is held as far as it is
  transmitted: extents, names, flags and the elements column after column. Reading takes the rest of a buffer; a loop that does not end is
  \<open>None\<close>.
\<close>

section \<open>Values\<close>

datatype elt = EDouble "64 word" | EBool bool | EInt int | EInterval interval | EPeriod period | EString string

datatype atype = ADouble | ABool | ATime | ADuration | AInterval | APeriod | AString

record varr =
  vdim :: "nat list"
  vnames :: "string list list"
  vflags :: "bool list"
  vdata :: "elt list"

datatype val =
    StdString string
  | StdInt "nat list"
  | VArr atype varr
  | VZts varr varr
  | VList "(string \<times> val) list"
  | VNull
  | VOther nat
  | VNamed val val
  | VError string

fun vt_array :: "atype \<Rightarrow> nat" where
  "vt_array ADouble = 2" | "vt_array ABool = 3" | "vt_array ATime = 4" | "vt_array ADuration = 5" | "vt_array AInterval = 6"
| "vt_array APeriod = 7" | "vt_array AString = 8"

text \<open>The enumeration \<open>ValType\<close>; \<open>VOther\<close> stands for expressions, functions, futures, connections and timers.\<close>

fun which :: "val \<Rightarrow> nat" where
  "which (StdString s) = 0" | "which (StdInt xs) = 1" | "which (VArr t a) = vt_array t" | "which (VZts a i) = 9" | "which (VList l) = 10"
| "which VNull = 11" | "which (VOther n) = n" | "which (VNamed a b) = 18" | "which (VError s) = 19"

definition isTransmissible :: "val \<Rightarrow> bool" where
  "isTransmissible v \<longleftrightarrow> \<not> (which v = 14 \<or> which v = 13 \<or> which v = 15 \<or> which v = 16 \<or> which v = 17)"

fun any_of :: "(val \<Rightarrow> bool) \<Rightarrow> val \<Rightarrow> bool" where
  "any_of p (VList l) = list_ex (\<lambda>x. any_of p (snd x)) l"
| "any_of p v = p v"

section \<open>Writing\<close>

definition put_i32 :: "int \<Rightarrow> byte list" where
  "put_i32 i = put_le 4 (nat (i mod 2 ^ 32))"

definition get_i32 :: "byte list \<Rightarrow> int" where
  "get_i32 u = (let n = int (get_le u) in if n < 2 ^ 31 then n else n - 2 ^ 32)"

fun put_elt :: "elt \<Rightarrow> item list" where
  "put_elt (EDouble w) = [Fixed (put double_flat w)]"
| "put_elt (EBool b) = [u64_item (if b then 1 else 0)]"
| "put_elt (EInt i) = [Fixed (put dtime_flat i)]"
| "put_elt (EInterval i) = put_interval i"
| "put_elt (EPeriod p) = [Fixed (put_i32 (months p)), Fixed (put_i32 (days p)), Fixed (put dtime_flat (dur p))]"
| "put_elt (EString s) = put_string s"

definition varr_rows :: "varr \<Rightarrow> nat" where
  "varr_rows a = (if vdim a = [] then 0 else hd (vdim a))"

definition varr_size :: "varr \<Rightarrow> nat" where
  "varr_size a = size_mul (ncols_of (vdim a)) (varr_rows a)"

text \<open>What is written is a list of pieces, each the items that decoding takes as a unit. The operator for \<open>Value\<close> begins with the test for room.\<close>

definition int_pieces :: "nat list \<Rightarrow> item list list" where
  "int_pieces xs = [Room # u64_item 1 # u64_item (length xs) # map u64_item xs]"

definition str_pieces :: "string \<Rightarrow> item list list" where
  "str_pieces s = [Room # u64_item 0 # put_string s]"

definition named_pieces :: "item list list \<Rightarrow> item list list \<Rightarrow> item list list" where
  "named_pieces n v = [Room, u64_item 18, u64_item 2] # n @ v"

definition list_pieces :: "(string \<times> item list list) list \<Rightarrow> item list list" where
  "list_pieces l = [Room, u64_item 10, u64_item (length l)] # concat (map (\<lambda>(n, v). named_pieces (str_pieces n) v) l)"

definition convertToList :: "string list list \<Rightarrow> item list list" where
  "convertToList ns = list_pieces (map (\<lambda>n. ('''', list_pieces (map (\<lambda>s. ('''', str_pieces s)) n))) ns)"

text \<open>\<open>operator <<(const Array<T>&)\<close> after the type number.\<close>

definition array_pieces :: "nat \<Rightarrow> varr \<Rightarrow> item list list" where
  "array_pieces vt a =
     [u64_item vt, u64_item (varr_size a)] #
     list_pieces [('''', int_pieces (vdim a)), ('''', convertToList (vnames a)), ('''', int_pieces (map (\<lambda>b. if b then 1 else 0) (vflags a)))] @
     map put_elt (vdata a)"

definition room_first :: "item list list \<Rightarrow> item list list" where
  "room_first ps = (Room # hd ps) # tl ps"

fun writeValue :: "val \<Rightarrow> item list list res" where
  "writeValue (VList l) = bindR (foldR (\<lambda>(n, v) ps. bindR (writeValue v) (\<lambda>p. Inr (ps @ [(n, p)]))) l []) (\<lambda>ps. Inr (list_pieces ps))"
| "writeValue (StdString s) = Inr (str_pieces s)"
| "writeValue (StdInt xs) = Inr (int_pieces xs)"
| "writeValue (VArr t a) = Inr (room_first (array_pieces (vt_array t) a))"
| "writeValue (VZts a i) = Inr ([Room, u64_item 9, u64_item 2] # array_pieces 2 a @ array_pieces 4 i)"
| "writeValue VNull = Inr [[Room, u64_item 11, u64_item 0]]"
| "writeValue (VNamed n v) = bindR (writeValue n) (\<lambda>pn. bindR (writeValue v) (\<lambda>pv. Inr (named_pieces pn pv)))"
| "writeValue (VError s) = Inr [Room # u64_item 19 # put_string s]"
| "writeValue (VOther k) =
     Inl (DomainError ((if k \<in> {13, 14, 15, 16} then ''Encode::operator <<(const Value& v): not implemented for ''
                        else ''Encode::operator <<(const Value& v): unknown type '') @ dec k))"

section \<open>Reading: the parts\<close>

record vstate =
  vval :: val
  vexp :: nat
  vn :: nat
  vstage :: nat

definition isAtomicVal :: "nat \<Rightarrow> bool res" where
  "isAtomicVal t =
     (if t \<in> {0, 1, 19} then Inr True
      else if t \<in> {10, 13, 14, 8, 2, 3, 4, 5, 6, 7, 9, 15, 16, 18} then Inr False
      else Inl (DomainError ''encode isAtomic: unknow type''))"

definition isArrayVal :: "nat \<Rightarrow> bool" where
  "isArrayVal t \<longleftrightarrow> t \<in> {2, 3, 4, 5, 6, 7, 8, 9}"

definition empty_varr :: "nat list \<Rightarrow> varr" where
  "empty_varr d = \<lparr>vdim = d, vnames = map (\<lambda>_. []) d, vflags = replicate (ncols_of d) True, vdata = []\<rparr>"

definition make_value :: "nat \<Rightarrow> val res" where
  "make_value t =
     (if t = 1 then Inr (StdInt []) else if t = 0 then Inr (StdString '''') else if t = 11 then Inr VNull else if t = 10 then Inr (VList [])
      else if t = 2 then Inr (VArr ADouble (empty_varr [0, 1])) else if t = 3 then Inr (VArr ABool (empty_varr [0, 1]))
      else if t = 8 then Inr (VArr AString (empty_varr [0, 1])) else if t = 4 then Inr (VArr ATime (empty_varr [0, 1]))
      else if t = 5 then Inr (VArr ADuration (empty_varr [0, 1])) else if t = 6 then Inr (VArr AInterval (empty_varr [0, 1]))
      else if t = 7 then Inr (VArr APeriod (empty_varr [0, 1])) else if t = 9 then Inr (VZts (empty_varr [0, 1]) (empty_varr [0]))
      else if t = 18 then Inr (VNamed (StdString '''') (StdString '''')) else if t = 19 then Inr (VError '''')
      else Inl (DomainError (''make_value: unknow type '' @ dec t)))"

text \<open>Taking a value of the variant as a given type throws when it has another.\<close>

fun as_ints :: "val \<Rightarrow> nat list res" where
  "as_ints (StdInt xs) = Inr xs"
| "as_ints v = Inl (InvalidArgument ''get'')"

fun as_str :: "val \<Rightarrow> string res" where
  "as_str (StdString s) = Inr s"
| "as_str v = Inl (InvalidArgument ''get'')"

fun as_vals :: "val \<Rightarrow> val list res" where
  "as_vals (VList l) = Inr (map snd l)"
| "as_vals v = Inl (InvalidArgument ''get'')"

definition val_at :: "val list \<Rightarrow> nat \<Rightarrow> val res" where
  "val_at l i = (if i < length l then Inr (l ! i) else Inl (OutOfRange ''subscript out of bounds''))"

fun mapR :: "('a \<Rightarrow> 'b res) \<Rightarrow> 'a list \<Rightarrow> 'b list res" where
  "mapR f [] = Inr []"
| "mapR f (x # xs) = bindR (f x) (\<lambda>y. bindR (mapR f xs) (\<lambda>ys. Inr (y # ys)))"

definition convertFromList :: "val \<Rightarrow> (nat list \<times> string list list \<times> nat list) res" where
  "convertFromList v =
     bindR (as_vals v) (\<lambda>lst.
     bindR (bindR (val_at lst 0) as_ints) (\<lambda>dim.
     bindR (bindR (val_at lst 1) as_vals) (\<lambda>namesList.
     bindR (mapR (\<lambda>subl. bindR (as_vals subl) (mapR (\<lambda>s. bindR (as_str s) zstr))) namesList) (\<lambda>names.
     bindR (bindR (val_at lst 2) as_ints) (\<lambda>ord. Inr (dim, names, ord))))))"

text \<open>The constructor of an array whose elements are not initialised, and the flags of its columns.\<close>

definition noinit_varr :: "(nat \<Rightarrow> elt) \<Rightarrow> nat list \<Rightarrow> string list list \<Rightarrow> varr res" where
  "noinit_varr junk d ns =
     (if d = [] then Inr \<lparr>vdim = [], vnames = [], vflags = [], vdata = []\<rparr>
      else if ns \<noteq> [] \<and> length ns \<noteq> length d then Inl (RangeError ''length of dimnames must match that of dims'')
      else if list_ex (\<lambda>j. ns \<noteq> [] \<and> ns ! j \<noteq> [] \<and> length (ns ! j) \<noteq> d ! j) [0..<length d]
      then Inl (RangeError ''length of 'dimnames' not equal to array extent'')
      else Inr \<lparr>vdim = d, vnames = (if ns = [] then map (\<lambda>_. []) d else ns), vflags = replicate (ncols_of d) True,
                vdata = map junk [0..<ncols_of d * hd d]\<rparr>)"

definition set_flags :: "nat list \<Rightarrow> varr \<Rightarrow> varr res" where
  "set_flags ord a =
     foldR (\<lambda>j b. if j < length (vflags b) then Inr (b\<lparr>vflags := (vflags b)[j := ord ! j \<noteq> 0]\<rparr>)
                  else Inl (OutOfRange ''getcol: column out of range'')) [0..<length ord] a"

section \<open>Reading: the elements\<close>

text \<open>Elements whose representation is copied as it is.\<close>

fun elt_width :: "atype \<Rightarrow> nat" where
  "elt_width AInterval = 24" | "elt_width APeriod = 16" | "elt_width _ = 8"

definition get_elt :: "atype \<Rightarrow> byte list \<Rightarrow> elt" where
  "get_elt t u =
     (case t of ADouble \<Rightarrow> EDouble (get double_flat u)
      | AInterval \<Rightarrow> EInterval (Interval (get dtime_flat (take 8 u)) (get dtime_flat (take 8 (drop 8 u)))
          (get_le (take 4 (drop 16 u)) \<noteq> 0) (get_le (take 4 (drop 20 u)) \<noteq> 0))
      | APeriod \<Rightarrow> EPeriod \<lparr>months = get_i32 (take 4 u), days = get_i32 (take 4 (drop 4 u)), dur = get dtime_flat (take 8 (drop 8 u))\<rparr>
      | _ \<Rightarrow> EInt (get dtime_flat u))"

fun split_elts :: "atype \<Rightarrow> nat \<Rightarrow> byte list \<Rightarrow> elt list" where
  "split_elts t 0 u = []"
| "split_elts t (Suc k) u = get_elt t (take (elt_width t) u) # split_elts t k (drop (elt_width t) u)"

type_synonym elts_res = "(byte list \<times> varr \<times> nat) res"

partial_function (option) fast_loop :: "atype \<Rightarrow> nat \<Rightarrow> nat \<Rightarrow> byte list \<Rightarrow> varr \<Rightarrow> nat \<Rightarrow> nat \<Rightarrow> nat \<Rightarrow> elts_res option" where
  "fast_loop t rows exp u a n col coloff =
     (if n < exp \<and> u \<noteq> [] then
        let ncopy = min (min (exp - n) (length u div elt_width t)) (rows - coloff); p = col * rows + coloff in
        if p + ncopy > length (vdata a) then Some (Inl (OutOfRange ''getcol: column out of range''))
        else
          let a' = a\<lparr>vdata := take p (vdata a) @ split_elts t ncopy u @ drop (p + ncopy) (vdata a)\<rparr>;
              u' = drop (elt_width t * ncopy) u in
          if coloff + ncopy = rows then fast_loop t rows exp u' a' (n + ncopy) (col + 1) 0
          else fast_loop t rows exp u' a' (n + ncopy) col coloff
      else Some (Inr (u, a, n)))"

text \<open>Elements that are read one by one: logical values, and strings of a fixed size. Reading may go beyond the buffer.\<close>

definition getEltFromBuffer :: "atype \<Rightarrow> byte list \<Rightarrow> (elt \<times> byte list) res" where
  "getEltFromBuffer t u =
     bindR (read_u64 u) (\<lambda>(l, r).
       if t = ABool then Inr (EBool (l \<noteq> 0), r)
       else if length r < l then Inl UB
       else bindR (zstr (map byte_char (take l r))) (\<lambda>s. Inr (EString s, drop (getAlignedLength l STRALIGN) r)))"

function slow_loop :: "(elt \<Rightarrow> elt \<Rightarrow> bool) \<Rightarrow> atype \<Rightarrow> nat \<Rightarrow> nat \<Rightarrow> byte list \<Rightarrow> varr \<Rightarrow> nat \<Rightarrow> nat \<Rightarrow> nat \<Rightarrow> elts_res" where
  "slow_loop cmp t rows exp u a n col coloff =
     (if n < exp \<and> u \<noteq> [] then
        bindR (getEltFromBuffer t u) (\<lambda>(x, u').
          let p = col * rows + coloff in
          if p \<ge> length (vdata a) then Inl (OutOfRange ''getcol: column out of range'')
          else
            let f = vflags a ! col; f' = (if f \<and> coloff > 0 then cmp (vdata a ! (p - 1)) x else f);
                a' = a\<lparr>vdata := (vdata a)[p := x], vflags := (vflags a)[col := f']\<rparr> in
            if coloff + 1 = rows then slow_loop cmp t rows exp u' a' (n + 1) (col + 1) 0
            else slow_loop cmp t rows exp u' a' (n + 1) col (coloff + 1))
      else Inr (u, a, n))"
  by pat_completeness auto
termination by (relation "measure (\<lambda>(cmp, t, rows, exp, u, a, n, col, coloff). exp - n)") auto

definition readElts :: "(elt \<Rightarrow> elt \<Rightarrow> bool) \<Rightarrow> atype \<Rightarrow> nat \<Rightarrow> byte list \<Rightarrow> varr \<Rightarrow> nat \<Rightarrow> elts_res option" where
  "readElts cmp t exp u a n =
     (case vdim a of [] \<Rightarrow> Some (Inl (OutOfRange ''getdim: dimension out of range''))
      | rows # _ \<Rightarrow>
          if rows = 0 then Some (Inl UB)
          else if t = ABool \<or> t = AString then Some (slow_loop cmp t rows exp u a n (n div rows) (n mod rows))
          else fast_loop t rows exp u a n (n div rows) (n mod rows))"

end
