(* ===== verification/Decode_Value.thy ===== *)
theory Decode_Value
  imports Encode_Value
begin

text \<open>
  Decoding of values over several buffers (\<open>readArray\<close> and \<open>readValue\<close> of \<open>src/src/encode.cpp\<close>): a pass through the loop of \<open>readValue\<close> either
  goes on with the rest of the buffer, the stack and the index, or returns. The comparison of elements and the initial content of
  memory are parameters. The main result is that a value that is written in pieces is read back, however the pieces are distributed over buffers.
\<close>

section \<open>One pass\<close>

datatype outcome = Loop "byte list" "vstate list" nat | Return "vstate list" nat

definition liftR :: "'a res \<Rightarrow> ('a \<Rightarrow> 'b res option) \<Rightarrow> 'b res option" where
  "liftR r f = (case r of Inl e \<Rightarrow> Some (Inl e) | Inr x \<Rightarrow> f x)"

definition stack_at :: "vstate list \<Rightarrow> nat \<Rightarrow> vstate res" where
  "stack_at ss i = (if i < length ss then Inr (ss ! i) else Inl UB)"

function read_ints :: "nat \<Rightarrow> byte list \<Rightarrow> nat list \<Rightarrow> nat \<Rightarrow> (byte list \<times> nat list \<times> nat) res" where
  "read_ints exp u xs n =
     (if n < exp \<and> u \<noteq> [] then bindR (read_u64 u) (\<lambda>(x, u'). read_ints exp u' (xs @ [x]) (n + 1)) else Inr (u, xs, n))"
  by pat_completeness auto
termination by (relation "measure (\<lambda>(exp, u, xs, n). exp - n)") auto

text \<open>A string or an error message; \<open>mk\<close> makes the value from the text read so far.\<close>

definition read_text :: "(string \<Rightarrow> val res) \<Rightarrow> string \<Rightarrow> byte list \<Rightarrow> vstate list \<Rightarrow> nat \<Rightarrow> vstate \<Rightarrow> outcome res" where
  "read_text mk old u ss idx vs =
     (let s = map byte_char (take (min (vexp vs) (length u)) u); alen = getAlignedLength (length s) STRALIGN in
      bindR (mk (if vstage vs = 0 then s else old @ s)) (\<lambda>v.
        let vs' = vs\<lparr>vval := v, vstage := (if vstage vs = 0 then 1 else vstage vs), vn := vn vs + alen\<rparr>
        in Inr (Loop (drop alen u) (ss[idx - 1 := vs']) (if vn vs' \<ge> vexp vs' then idx - 1 else idx))))"

definition readArray :: "(elt \<Rightarrow> elt \<Rightarrow> bool) \<Rightarrow> (nat \<Rightarrow> elt) \<Rightarrow> atype \<Rightarrow> varr \<Rightarrow> vstate \<Rightarrow> vstate list \<Rightarrow> nat \<Rightarrow> byte list \<Rightarrow> outcome res option" where
  "readArray cmp junk t a vs ss idx u =
     (if vstage vs = 0 then
        liftR (bindR (stack_at ss idx) (\<lambda>h. bindR (convertFromList (vval h)) (\<lambda>(dim, names, ord). bindR (noinit_varr junk dim names) (set_flags ord))))
          (\<lambda>b. let ss' = ss[idx - 1 := vs\<lparr>vval := VArr t b, vstage := 1\<rparr>] in
               Some (Inr (if vn vs = vexp vs then Loop u (butlast ss') (idx - 1) else Loop u ss' idx)))
      else if vstage vs = 1 then
        (case readElts cmp t (vexp vs) u a (vn vs) of None \<Rightarrow> None
         | Some r \<Rightarrow> liftR r (\<lambda>(u', b, n).
             let ss' = ss[idx - 1 := vs\<lparr>vval := VArr t b, vn := n\<rparr>] in
             Some (Inr (if u' = [] \<and> n < vexp vs then Return ss' idx
                        else if n = vexp vs then Loop u' (butlast ss') (idx - 1) else Loop u' ss' idx))))
      else Some (Inl (DomainError ''invalid stage for array'')))"

fun list_entry :: "val \<Rightarrow> (string \<times> val) res" where
  "list_entry (VNamed n v) = bindR (as_str n) (\<lambda>s. bindR (zstr s) (\<lambda>z. Inr (z, v)))"
| "list_entry v = Inr ('''', v)"

fun as_array :: "atype \<Rightarrow> val \<Rightarrow> varr res" where
  "as_array t (VArr t' a) = (if t = t' then Inr a else Inl (InvalidArgument ''get''))"
| "as_array t v = Inl (InvalidArgument ''get'')"

definition process :: "(elt \<Rightarrow> elt \<Rightarrow> bool) \<Rightarrow> (nat \<Rightarrow> elt) \<Rightarrow> byte list \<Rightarrow> vstate list \<Rightarrow> nat \<Rightarrow> outcome res option" where
  "process cmp junk u ss idx =
     (if idx = 0 then Some (Inl UB)
      else liftR (stack_at ss (idx - 1)) (\<lambda>vs.
        if u = [] \<and> vn vs \<noteq> vexp vs \<and> idx = length ss then Some (Inr (Return ss idx))
        else case vval vs of
          StdInt xs \<Rightarrow> liftR (read_ints (vexp vs) u xs (vn vs)) (\<lambda>(u', xs', n).
            Some (Inr (Loop u' (ss[idx - 1 := vs\<lparr>vval := StdInt xs', vn := n\<rparr>]) (if n \<ge> vexp vs then idx - 1 else idx))))
        | StdString s \<Rightarrow> Some (read_text (\<lambda>x. Inr (StdString x)) s u ss idx vs)
        | VError s \<Rightarrow> Some (read_text (\<lambda>x. bindR (zstr x) (\<lambda>z. Inr (VError z))) s u ss idx vs)
        | VNull \<Rightarrow> Some (Inr (Loop u ss (idx - 1)))
        | VArr t a \<Rightarrow> readArray cmp junk t a vs ss idx u
        | VList l \<Rightarrow>
            if vn vs < vexp vs then
              if idx \<ge> length ss then Some (Inl (OutOfRange ''no element for list''))
              else liftR (list_entry (vval (ss ! idx))) (\<lambda>e.
                let vs' = vs\<lparr>vval := VList (l @ [e]), vn := vn vs + 1\<rparr> in
                Some (Inr (Loop u (butlast (ss[idx - 1 := vs'])) (if vn vs' = vexp vs' then idx - 1 else idx))))
            else Some (Inr (Loop u ss (if vn vs = vexp vs then idx - 1 else idx)))
        | VZts a i \<Rightarrow>
            if vstage vs = 0 then
              liftR (bindR (stack_at ss idx) (\<lambda>h. as_array ADouble (vval h))) (\<lambda>b.
                Some (Inr (Loop u (butlast (ss[idx - 1 := vs\<lparr>vval := VZts b i, vstage := 1, vn := vn vs + 1\<rparr>])) idx)))
            else if vstage vs = 1 then
              liftR (bindR (stack_at ss idx) (\<lambda>h. as_array ATime (vval h))) (\<lambda>j.
                Some (Inr (Loop u (butlast (ss[idx - 1 := vs\<lparr>vval := VZts a j, vn := vn vs + 1\<rparr>])) (idx - 1))))
            else Some (Inr (Loop u ss idx))
        | VNamed m v \<Rightarrow>
            if vexp vs \<noteq> 2 then Some (Inl (DomainError ''readValue: invalid VNamed exp''))
            else if vn vs = 0 then
              liftR (stack_at ss idx) (\<lambda>h. Some (Inr (Loop u (butlast (ss[idx - 1 := vs\<lparr>vval := VNamed (vval h) v, vn := 1\<rparr>])) idx)))
            else if vn vs = 1 then
              liftR (stack_at ss idx) (\<lambda>h. Some (Inr (Loop u (butlast (ss[idx - 1 := vs\<lparr>vval := VNamed m (vval h), vn := 2\<rparr>])) (idx - 1))))
            else Some (Inl (DomainError ''readValue: invalid VNamed n''))
        | VOther k \<Rightarrow> Some (Inl (DomainError (''readValue: unknow type '' @ dec k)))))"

definition one_pass :: "(elt \<Rightarrow> elt \<Rightarrow> bool) \<Rightarrow> (nat \<Rightarrow> elt) \<Rightarrow> byte list \<Rightarrow> vstate list \<Rightarrow> nat \<Rightarrow> outcome res option" where
  "one_pass cmp junk u ss idx =
     (if idx = length ss then
        liftR (bindR (read_u64 u) (\<lambda>(vt, u1). bindR (read_u64 u1) (\<lambda>(vtlen, u2). bindR (make_value vt) (\<lambda>v.
          bindR (if isArrayVal vt then Inr True else if vtlen = 0 then Inr False else bindR (isAtomicVal vt) (\<lambda>b. Inr (\<not> b))) (\<lambda>inner.
            Inr (u2, ss @ [\<lparr>vval = v, vexp = vtlen, vn = 0, vstage = 0\<rparr>], inner))))))
          (\<lambda>(u2, ss', inner). if inner then Some (Inr (Loop u2 ss' (idx + 1))) else process cmp junk u2 ss' (idx + 1))
      else process cmp junk u ss idx)"

partial_function (option) readValue :: "(elt \<Rightarrow> elt \<Rightarrow> bool) \<Rightarrow> (nat \<Rightarrow> elt) \<Rightarrow> byte list \<Rightarrow> vstate list \<Rightarrow> nat \<Rightarrow> (vstate list \<times> nat) res option" where
  "readValue cmp junk u ss idx =
     (if u \<noteq> [] \<or> (idx > 0 \<and> idx < length ss) then
        (case one_pass cmp junk u ss idx of None \<Rightarrow> None
         | Some r \<Rightarrow> (case r of Inl e \<Rightarrow> Some (Inl e)
             | Inr q \<Rightarrow> (case q of Return ss' i \<Rightarrow> Some (Inr (ss', i)) | Loop u' ss' i \<Rightarrow> readValue cmp junk u' ss' i)))
      else Some (Inr (ss, idx)))"

text \<open>Several buffers, one after the other.\<close>

fun read_buffers :: "(elt \<Rightarrow> elt \<Rightarrow> bool) \<Rightarrow> (nat \<Rightarrow> elt) \<Rightarrow> byte list list \<Rightarrow> vstate list \<Rightarrow> nat \<Rightarrow> (vstate list \<times> nat) res option" where
  "read_buffers cmp junk [] ss idx = Some (Inr (ss, idx))"
| "read_buffers cmp junk (u # us) ss idx =
     (case readValue cmp junk u ss idx of None \<Rightarrow> None
      | Some r \<Rightarrow> (case r of Inl e \<Rightarrow> Some (Inl e) | Inr (ss', i) \<Rightarrow> read_buffers cmp junk us ss' i))"

section \<open>Passes over pieces\<close>

declare read_ints.simps [simp del] slow_loop.simps [simp del]

lemma liftR_Inr [simp]: "liftR (Inr x) f = f x"
  by (simp add: liftR_def)

lemma pass_loop:
  assumes "u \<noteq> [] \<or> (idx > 0 \<and> idx < length ss)" "one_pass cmp junk u ss idx = Some (Inr (Loop u' ss' i))"
  shows "read_buffers cmp junk (u # us) ss idx = read_buffers cmp junk (u' # us) ss' i"
  using assms by (simp add: readValue.simps [of cmp junk u])

lemma pass_return:
  assumes "u \<noteq> [] \<or> (idx > 0 \<and> idx < length ss)" "one_pass cmp junk u ss idx = Some (Inr (Return ss' i))"
  shows "read_buffers cmp junk (u # us) ss idx = read_buffers cmp junk us ss' i"
  using assms by (simp add: readValue.simps [of cmp junk u])

lemma pass_skip: "idx = 0 \<or> idx \<ge> length ss \<Longrightarrow> read_buffers cmp junk ([] # us) ss idx = read_buffers cmp junk us ss idx"
  by (subst read_buffers.simps, subst readValue.simps) auto

text \<open>A group of pieces for each buffer; the next piece may be preceded by empty buffers.\<close>

abbreviation read_groups :: "(elt \<Rightarrow> elt \<Rightarrow> bool) \<Rightarrow> (nat \<Rightarrow> elt) \<Rightarrow> byte list list list \<Rightarrow> vstate list \<Rightarrow> nat \<Rightarrow> (vstate list \<times> nat) res option" where
  "read_groups cmp junk G ss idx \<equiv> read_buffers cmp junk (map concat G) ss idx"

lemma next_piece:
  assumes "concat G = p # r"
  shows "\<exists>g gs. concat (g # gs) = r \<and> read_groups cmp junk G ss (length ss) = read_buffers cmp junk ((p @ concat g) # map concat gs) ss (length ss)"
  using assms
proof (induction G)
  case (Cons h G)
  show ?case
  proof (cases h)
    case Nil
    then show ?thesis using Cons pass_skip [of "length ss" ss cmp junk "map concat G"] by simp
  next
    case (Cons q g)
    then show ?thesis using Cons.prems by (intro exI [of _ g] exI [of _ G]) simp
  qed
qed simp

text \<open>The absorption of a complete value by the one below it does not depend on the buffer.\<close>

lemma absorb:
  assumes "G \<noteq> []" "0 < idx" "idx < length ss" "\<And>u. process cmp junk u ss idx = Some (Inr (Loop u ss' i))"
  shows "read_groups cmp junk G ss idx = read_groups cmp junk G ss' i"
proof -
  obtain g gs where G: "G = g # gs" using assms(1) by (cases G) auto
  have "one_pass cmp junk (concat g) ss idx = Some (Inr (Loop (concat g) ss' i))" using assms(3,4) by (simp add: one_pass_def)
  then show ?thesis using pass_loop [OF disjI2, of idx ss] assms(2,3) by (simp add: G)
qed

text \<open>Pieces that are read as a value: it is put on top of the stack, complete.\<close>

definition reads_as :: "(elt \<Rightarrow> elt \<Rightarrow> bool) \<Rightarrow> (nat \<Rightarrow> elt) \<Rightarrow> val \<Rightarrow> byte list list \<Rightarrow> bool" where
  "reads_as cmp junk v ps \<longleftrightarrow>
     (\<forall>S G r. concat G = ps @ r \<longrightarrow>
       (\<exists>G' st. concat G' = r \<and> G' \<noteq> [] \<and> vval st = v \<and> vexp st \<le> vn st \<and>
          read_groups cmp junk G S (length S) = read_groups cmp junk G' (S @ [st]) (length S)))"

lemma reads_asD:
  assumes "reads_as cmp junk v ps" "concat G = ps @ r"
  obtains G' st where "concat G' = r" "G' \<noteq> []" "vval st = v" "vexp st \<le> vn st"
    "read_groups cmp junk G S (length S) = read_groups cmp junk G' (S @ [st]) (length S)"
  using assms unfolding reads_as_def by blast

lemma reads_asI:
  assumes "\<And>S G r. concat G = ps @ r \<Longrightarrow> \<exists>G' st. concat G' = r \<and> G' \<noteq> [] \<and> vval st = v \<and> vexp st \<le> vn st \<and>
          read_groups cmp junk G S (length S) = read_groups cmp junk G' (S @ [st]) (length S)"
  shows "reads_as cmp junk v ps"
  using assms unfolding reads_as_def by blast

abbreviation head_piece :: "nat \<Rightarrow> nat \<Rightarrow> byte list" where
  "head_piece t n \<equiv> put_u64 t @ put_u64 n"

lemma push_pass:
  assumes "t < 2 ^ 64" "n < 2 ^ 64" "make_value t = Inr v" "(if isArrayVal t then Inr True else if n = 0 then Inr False else bindR (isAtomicVal t) (\<lambda>b. Inr (\<not> b))) = Inr inner"
  shows "one_pass cmp junk (head_piece t n @ u) ss (length ss) =
    (if inner then Some (Inr (Loop u (ss @ [\<lparr>vval = v, vexp = n, vn = 0, vstage = 0\<rparr>]) (length ss + 1)))
     else process cmp junk u (ss @ [\<lparr>vval = v, vexp = n, vn = 0, vstage = 0\<rparr>]) (length ss + 1))"
  unfolding one_pass_def using assms by (simp del: put_le.simps)

text \<open>The head of a value with parts.\<close>

lemma head_step:
  assumes "concat G = head_piece t n # r" "t < 2 ^ 64" "n < 2 ^ 64" "make_value t = Inr v" "isArrayVal t \<or> (n \<noteq> 0 \<and> isAtomicVal t = Inr False)"
  obtains G' where "concat G' = r" "G' \<noteq> []"
    "read_groups cmp junk G S (length S) = read_groups cmp junk G' (S @ [\<lparr>vval = v, vexp = n, vn = 0, vstage = 0\<rparr>]) (length S + 1)"
proof -
  obtain g gs where g: "concat (g # gs) = r"
    "read_groups cmp junk G S (length S) = read_buffers cmp junk ((head_piece t n @ concat g) # map concat gs) S (length S)"
    using next_piece [OF assms(1), of cmp junk S] by blast
  have "(if isArrayVal t then Inr True else if n = 0 then Inr False else bindR (isAtomicVal t) (\<lambda>b. Inr (\<not> b))) = (Inr True :: bool res)"
    using assms(5) by auto
  note pass = push_pass [OF assms(2-4) this, of cmp junk "concat g" S]
  have "head_piece t n @ concat g \<noteq> []" by (metis append_is_Nil_conv list.size(3) put_le_length zero_neq_numeral)
  then show thesis using that [of "g # gs"] g pass_loop [OF disjI1, of "head_piece t n @ concat g" cmp junk S "length S"] pass by simp
qed

text \<open>A value without parts, read in the pass that takes its head.\<close>

lemma leaf_reads:
  assumes "t < 2 ^ 64" "n < 2 ^ 64" "make_value t = Inr v" "\<not> isArrayVal t" "n = 0 \<or> isAtomicVal t = Inr True"
    and "vval st = w" "vexp st \<le> vn st"
    and "\<And>u S. process cmp junk (q @ u) (S @ [\<lparr>vval = v, vexp = n, vn = 0, vstage = 0\<rparr>]) (length S + 1) = Some (Inr (Loop u (S @ [st]) (length S)))"
  shows "reads_as cmp junk w [head_piece t n @ q]"
proof (rule reads_asI)
  fix S G r
  assume "concat G = [head_piece t n @ q] @ r"
  then obtain g gs where g: "concat (g # gs) = r"
    "read_groups cmp junk G S (length S) = read_buffers cmp junk ((head_piece t n @ q @ concat g) # map concat gs) S (length S)"
    using next_piece [of G "head_piece t n @ q" r cmp junk S] by auto
  have "(if isArrayVal t then Inr True else if n = 0 then Inr False else bindR (isAtomicVal t) (\<lambda>b. Inr (\<not> b))) = (Inr False :: bool res)"
    using assms(4,5) by auto
  note pass = push_pass [OF assms(1-3) this, of cmp junk "q @ concat g" S]
  have "head_piece t n @ q @ concat g \<noteq> []" by (metis append_is_Nil_conv list.size(3) put_le_length zero_neq_numeral)
  then show "\<exists>G' st'. concat G' = r \<and> G' \<noteq> [] \<and> vval st' = w \<and> vexp st' \<le> vn st' \<and>
      read_groups cmp junk G S (length S) = read_groups cmp junk G' (S @ [st']) (length S)"
    using g pass_loop [OF disjI1, of "head_piece t n @ q @ concat g" cmp junk S "length S"] pass assms(6-8)
    by (intro exI [of _ "g # gs"] exI [of _ st]) simp
qed

section \<open>Values that are not arrays\<close>

lemma zstr_short: "plain s \<Longrightarrow> length s \<le> 127"
  by (simp add: plain_def STRING_SIZE_def)

lemma zstr_keeps [simp]: "plain s \<Longrightarrow> zstr s = Inr s"
  by (simp add: zstr_plain)

lemma zstr_short_string: "plain s \<Longrightarrow> short_string s"
  using zstr_short [of s] by (simp add: short_string_def)

lemma read_ints_ok:
  "list_all (\<lambda>x. x < 2 ^ 64) xs \<Longrightarrow> read_ints (n + length xs) (concat (map put_u64 xs) @ u) ys n = Inr (u, ys @ xs, n + length xs)"
proof (induction xs arbitrary: ys n)
  case Nil
  then show ?case by (simp add: read_ints.simps)
next
  case (Cons x xs)
  have "put_u64 x @ concat (map put_u64 xs) @ u \<noteq> []" by (metis append_is_Nil_conv list.size(3) put_le_length zero_neq_numeral)
  then show ?case using Cons.IH [where ys = "ys @ [x]" and n = "n + 1"] Cons.prems by (subst read_ints.simps) (simp del: put_le.simps)
qed

lemma reads_int:
  assumes "list_all (\<lambda>x. x < 2 ^ 64) xs" "length xs < 2 ^ 64"
  shows "reads_as cmp junk (StdInt xs) (map flat_items (int_pieces xs))"
proof -
  have flat: "map flat_items (int_pieces xs) = [head_piece 1 (length xs) @ concat (map put_u64 xs)]"
    by (simp add: int_pieces_def o_def del: put_le.simps)
  have nz: "concat (map put_u64 xs) @ u = [] \<Longrightarrow> xs = []" for u by (cases xs) (auto dest: arg_cong [where f = length])
  show ?thesis unfolding flat
    by (rule leaf_reads [where v = "StdInt []" and st = "\<lparr>vval = StdInt xs, vexp = length xs, vn = length xs, vstage = 0\<rparr>"])
      (use assms read_ints_ok [OF assms(1), of 0 _ "[]"] nz in \<open>auto simp: make_value_def isArrayVal_def isAtomicVal_def process_def stack_at_def\<close>)
qed

lemma text_pass:
  assumes "short_string s" "mk s = Inr w"
  shows "read_text mk old (flat_item (Chars s) @ u) (S @ [\<lparr>vval = v, vexp = length s, vn = 0, vstage = 0\<rparr>]) (Suc (length S)) \<lparr>vval = v, vexp = length s, vn = 0, vstage = 0\<rparr> =
    Inr (Loop u (S @ [\<lparr>vval = w, vexp = length s, vn = getAlignedLength (length s) STRALIGN, vstage = 1\<rparr>]) (length S))"
proof -
  have al: "length s \<le> getAlignedLength (length s) STRALIGN" using aligned [of "length s"] assms by (simp add: short_string_def)
  then have "length (flat_item (Chars s)) = getAlignedLength (length s) STRALIGN" by simp
  then have "drop (getAlignedLength (length s) STRALIGN) (flat_item (Chars s) @ u) = u" by (simp del: flat_item.simps)
  then show ?thesis using al assms(2) by (simp add: read_text_def Let_def o_def)
qed

lemma flat_string_piece: "flat_items (u64_item t # put_string s) = head_piece t (length s) @ flat_item (Chars s)"
  by (simp add: put_string_def del: put_le.simps)

lemma reads_text:
  assumes "short_string s" "t \<in> {0, 19}" "make_value t = Inr v" "mk s = Inr w"
    and "\<And>u S. process cmp junk (flat_item (Chars s) @ u) (S @ [\<lparr>vval = v, vexp = length s, vn = 0, vstage = 0\<rparr>]) (Suc (length S)) =
      Some (read_text mk '''' (flat_item (Chars s) @ u) (S @ [\<lparr>vval = v, vexp = length s, vn = 0, vstage = 0\<rparr>]) (Suc (length S)) \<lparr>vval = v, vexp = length s, vn = 0, vstage = 0\<rparr>)"
  shows "reads_as cmp junk w [flat_items (u64_item t # put_string s)]"
  unfolding flat_string_piece
proof (rule leaf_reads [where v = v and st = "\<lparr>vval = w, vexp = length s, vn = getAlignedLength (length s) STRALIGN, vstage = 1\<rparr>"])
  show "t < 2 ^ 64" "\<not> isArrayVal t" "length s = 0 \<or> isAtomicVal t = Inr True" using assms(2) by (auto simp: isArrayVal_def isAtomicVal_def)
  show "length s < 2 ^ 64" using assms(1) by (simp add: short_string_def)
qed (use assms(1,3-5) aligned [of "length s"] in \<open>simp_all add: text_pass short_string_def del: flat_item.simps\<close>)

lemma text_waits: "flat_item (Chars s) = [] \<longleftrightarrow> s = ''''"
  by (auto simp: getAlignedLength_def)

lemma reads_str: "short_string s \<Longrightarrow> reads_as cmp junk (StdString s) (map flat_items (str_pieces s))"
proof -
  assume "short_string s"
  then have "reads_as cmp junk (StdString s) [flat_items (u64_item 0 # put_string s)]"
    by (rule reads_text [where v = "StdString ''''" and mk = "\<lambda>x. Inr (StdString x)"]) (auto simp: make_value_def process_def stack_at_def text_waits simp del: flat_item.simps)
  then show ?thesis by (simp add: str_pieces_def)
qed

lemma reads_error:
  assumes "plain s" "short_string s"
  shows "reads_as cmp junk (VError s) [flat_items (u64_item 19 # put_string s)]"
proof -
  show ?thesis
    by (rule reads_text [where v = "VError ''''" and mk = "\<lambda>x. bindR (zstr x) (\<lambda>z. Inr (VError z))"])
      (use assms(2) zstr_keeps [OF assms(1)] in \<open>auto simp: make_value_def process_def stack_at_def text_waits simp del: flat_item.simps\<close>)
qed

lemma reads_null: "reads_as cmp junk VNull [head_piece 11 0]"
  using leaf_reads [of 11 0 VNull "\<lparr>vval = VNull, vexp = 0, vn = 0, vstage = 0\<rparr>" VNull cmp junk "[]"]
  by (simp add: make_value_def isArrayVal_def process_def stack_at_def)

lemma stack_simps [simp]:
  "stack_at (S @ [x]) (length S) = Inr x" "stack_at (S @ [x, y]) (length S) = Inr x" "stack_at (S @ [x, y]) (Suc (length S)) = Inr y"
  "(S @ [x, y])[length S := z] = S @ [z, y]" "butlast (S @ [x, y]) = S @ [x]" "(S @ [x, y]) ! Suc (length S) = y"
  by (simp_all add: stack_at_def nth_append butlast_append)

lemma reads_named:
  assumes a: "reads_as cmp junk a ps" and b: "reads_as cmp junk b qs"
  shows "reads_as cmp junk (VNamed a b) (head_piece 18 2 # ps @ qs)"
proof (rule reads_asI)
  fix S G r
  assume G: "concat G = (head_piece 18 2 # ps @ qs) @ r"
  define N where "N m v k = \<lparr>vval = VNamed m v, vexp = 2, vn = k, vstage = 0\<rparr>" for m v k
  obtain G1 where G1: "concat G1 = ps @ qs @ r"
    "read_groups cmp junk G S (length S) = read_groups cmp junk G1 (S @ [N (StdString '''') (StdString '''') 0]) (length (S @ [N (StdString '''') (StdString '''') 0]))"
    by (rule head_step [of G 18 2 "ps @ qs @ r" "VNamed (StdString '''') (StdString '''')" cmp junk S])
      (use G in \<open>auto simp: make_value_def isAtomicVal_def isArrayVal_def N_def intro: that\<close>)
  obtain G2 sa where G2: "concat G2 = qs @ r" "G2 \<noteq> []" "vval sa = a"
    "read_groups cmp junk G1 (S @ [N (StdString '''') (StdString '''') 0]) (length (S @ [N (StdString '''') (StdString '''') 0])) =
     read_groups cmp junk G2 (S @ [N (StdString '''') (StdString '''') 0, sa]) (Suc (length S))"
    by (rule reads_asD [OF a G1(1), of "S @ [N (StdString '''') (StdString '''') 0]"]) (auto intro: that)
  have abs1: "read_groups cmp junk G2 (S @ [N (StdString '''') (StdString '''') 0, sa]) (Suc (length S)) =
     read_groups cmp junk G2 (S @ [N a (StdString '''') 1]) (length (S @ [N a (StdString '''') 1]))"
    using G2(2,3) by (intro absorb) (auto simp: process_def N_def)
  obtain G3 sb where G3: "concat G3 = r" "G3 \<noteq> []" "vval sb = b"
    "read_groups cmp junk G2 (S @ [N a (StdString '''') 1]) (length (S @ [N a (StdString '''') 1])) =
     read_groups cmp junk G3 (S @ [N a (StdString '''') 1, sb]) (Suc (length S))"
    by (rule reads_asD [OF b G2(1), of "S @ [N a (StdString '''') 1]"]) (auto intro: that)
  have abs2: "read_groups cmp junk G3 (S @ [N a (StdString '''') 1, sb]) (Suc (length S)) = read_groups cmp junk G3 (S @ [N a b 2]) (length S)"
    using G3(2,3) by (intro absorb) (auto simp: process_def N_def)
  show "\<exists>G' st. concat G' = r \<and> G' \<noteq> [] \<and> vval st = VNamed a b \<and> vexp st \<le> vn st \<and>
      read_groups cmp junk G S (length S) = read_groups cmp junk G' (S @ [st]) (length S)"
    using G1(2) G2(4) abs1 G3(4) abs2 G3(1,2) by (intro exI [of _ G3] exI [of _ "N a b 2"]) (simp add: N_def)
qed

text \<open>The elements of a list, each with its name.\<close>

lemma list_run:
  assumes "list_all2 (\<lambda>(n, v) (m, ps). n = m \<and> plain n \<and> reads_as cmp junk v ps) l pl" "l \<noteq> []"
    and "concat G = concat (map (\<lambda>(n, ps). head_piece 18 2 # map flat_items (str_pieces n) @ ps) pl) @ r"
  shows "\<exists>G'. concat G' = r \<and> G' \<noteq> [] \<and>
    read_groups cmp junk G (S @ [\<lparr>vval = VList d, vexp = k + length l, vn = k, vstage = 0\<rparr>]) (Suc (length S)) =
    read_groups cmp junk G' (S @ [\<lparr>vval = VList (d @ l), vexp = k + length l, vn = k + length l, vstage = 0\<rparr>]) (length S)"
  using assms
proof (induction l arbitrary: pl G d k)
  case (Cons x l)
  obtain n v where x: "x = (n, v)" by fastforce
  obtain ps pl' where pl: "pl = (n, ps) # pl'" "plain n" "reads_as cmp junk v ps" and rest: "list_all2 (\<lambda>(n, v) (m, ps). n = m \<and> plain n \<and> reads_as cmp junk v ps) l pl'"
    using Cons.prems(1) x by (auto simp: list_all2_Cons1)
  define e where "e = k + length (x # l)"
  define L where "L q j = \<lparr>vval = VList q, vexp = e, vn = j, vstage = 0\<rparr>" for q j
  have "concat G = (head_piece 18 2 # map flat_items (str_pieces n) @ ps) @ concat (map (\<lambda>(n, ps). head_piece 18 2 # map flat_items (str_pieces n) @ ps) pl') @ r"
    using Cons.prems(3) pl(1) by simp
  then obtain G1 sn where G1: "concat G1 = concat (map (\<lambda>(n, ps). head_piece 18 2 # map flat_items (str_pieces n) @ ps) pl') @ r" "G1 \<noteq> []" "vval sn = VNamed (StdString n) v"
    "read_groups cmp junk G (S @ [L d k]) (length (S @ [L d k])) = read_groups cmp junk G1 (S @ [L d k, sn]) (Suc (length S))"
    by (rule reads_asD [OF reads_named [OF reads_str [OF zstr_short_string [OF pl(2)]] pl(3)], of G _ "S @ [L d k]"]) (auto intro: that)
  have step: "read_groups cmp junk G1 (S @ [L d k, sn]) (Suc (length S)) =
     read_groups cmp junk G1 (S @ [L (d @ [x]) (Suc k)]) (if Suc k = e then length S else Suc (length S))"
    using G1(2,3) pl(2) by (intro absorb) (auto simp: process_def L_def x e_def)
  show ?case
  proof (cases "l = []")
    case True
    then show ?thesis using G1 step rest by (intro exI [of _ G1]) (auto simp: L_def e_def)
  next
    case False
    then obtain G' where "concat G' = r" "G' \<noteq> []" "read_groups cmp junk G1 (S @ [L (d @ [x]) (Suc k)]) (Suc (length S)) = read_groups cmp junk G' (S @ [L (d @ x # l) e]) (length S)"
      using Cons.IH [OF rest False G1(1), of "d @ [x]" "Suc k"] by (auto simp: L_def e_def)
    then show ?thesis using G1(4) step False by (intro exI [of _ G']) (auto simp: L_def e_def)
  qed
qed simp

lemma reads_list:
  assumes l: "list_all2 (\<lambda>(n, v) (m, ps). n = m \<and> plain n \<and> reads_as cmp junk v ps) l pl" and len: "length l < 2 ^ 64"
  shows "reads_as cmp junk (VList l) (head_piece 10 (length l) # concat (map (\<lambda>(n, ps). head_piece 18 2 # map flat_items (str_pieces n) @ ps) pl))"
proof (cases "l = []")
  case True
  then show ?thesis using l leaf_reads [of 10 0 "VList []" "\<lparr>vval = VList [], vexp = 0, vn = 0, vstage = 0\<rparr>" "VList []" cmp junk "[]"]
    by (simp add: make_value_def isArrayVal_def process_def)
next
  case False
  show ?thesis
  proof (rule reads_asI)
    fix S G r
    assume G: "concat G = (head_piece 10 (length l) # concat (map (\<lambda>(n, ps). head_piece 18 2 # map flat_items (str_pieces n) @ ps) pl)) @ r"
    obtain G1 where G1: "concat G1 = concat (map (\<lambda>(n, ps). head_piece 18 2 # map flat_items (str_pieces n) @ ps) pl) @ r"
      "read_groups cmp junk G S (length S) = read_groups cmp junk G1 (S @ [\<lparr>vval = VList [], vexp = length l, vn = 0, vstage = 0\<rparr>]) (length S + 1)"
      by (rule head_step [of G 10 "length l" _ "VList []" cmp junk S])
        (use G len False in \<open>auto simp: make_value_def isAtomicVal_def isArrayVal_def intro: that\<close>)
    obtain G' where G': "concat G' = r" "G' \<noteq> []"
      "read_groups cmp junk G1 (S @ [\<lparr>vval = VList [], vexp = length l, vn = 0, vstage = 0\<rparr>]) (length S + 1) =
       read_groups cmp junk G' (S @ [\<lparr>vval = VList l, vexp = length l, vn = length l, vstage = 0\<rparr>]) (length S)"
      using list_run [OF l False G1(1), of S "[]" 0] by auto
    then show "\<exists>G' st. concat G' = r \<and> G' \<noteq> [] \<and> vval st = VList l \<and> vexp st \<le> vn st \<and>
        read_groups cmp junk G S (length S) = read_groups cmp junk G' (S @ [st]) (length S)"
      using G1(2) by (intro exI [of _ G'] exI [of _ "\<lparr>vval = VList l, vexp = length l, vn = length l, vstage = 0\<rparr>"]) simp
  qed
qed

section \<open>Elements of arrays\<close>

definition i32_range :: "int \<Rightarrow> bool" where
  "i32_range i \<longleftrightarrow> - (2 ^ 31) \<le> i \<and> i < 2 ^ 31"

fun elt_ok :: "atype \<Rightarrow> elt \<Rightarrow> bool" where
  "elt_ok ADouble (EDouble w) = True"
| "elt_ok ABool (EBool b) = True"
| "elt_ok ATime (EInt i) = dtime_range i"
| "elt_ok ADuration (EInt i) = dtime_range i"
| "elt_ok AInterval (EInterval i) = (dtime_range (istart i) \<and> dtime_range (iend i))"
| "elt_ok APeriod (EPeriod p) = (i32_range (months p) \<and> i32_range (days p) \<and> dtime_range (dur p))"
| "elt_ok AString (EString s) = (plain s)"
| "elt_ok t e = False"

abbreviation elt_bytes :: "elt \<Rightarrow> byte list" where
  "elt_bytes e \<equiv> flat_items (put_elt e)"

definition by_copy :: "atype \<Rightarrow> bool" where
  "by_copy t \<longleftrightarrow> t \<noteq> ABool \<and> t \<noteq> AString"

lemma get_dtime: "dtime_range i \<Longrightarrow> get dtime_flat (put dtime_flat i) = i"
  using dtime_roundtrip [of i] by (simp add: dtime_range_def dtime_flat_def)

lemma get_put_i32: "i32_range i \<Longrightarrow> get_i32 (put_i32 i) = i"
proof -
  assume i: "i32_range i"
  have "nat (i mod 2 ^ 32) mod 256 ^ 4 = nat (i mod 2 ^ 32)" by (intro mod_less) (simp add: nat_less_iff)
  then have get: "int (get_le (put_i32 i)) = i mod 4294967296" by (simp add: put_i32_def get_put_le)
  have neg: "i mod 4294967296 = i + 4294967296" if "i < 0"
    using that i mod_pos_pos_trivial [of "i + 4294967296" 4294967296] by (simp add: i32_range_def)
  show ?thesis unfolding get_i32_def get using i neg by (cases "i < 0") (simp_all add: Let_def i32_range_def)
qed

lemma put_i32_length [simp]: "length (put_i32 i) = 4"
  by (simp add: put_i32_def)

lemma elt_bytes_length: "elt_ok t e \<Longrightarrow> by_copy t \<Longrightarrow> length (elt_bytes e) = elt_width t"
  by (cases t; cases e) (simp_all add: by_copy_def put_interval_def flat_put)

lemma get_elt_ok: "elt_ok t e \<Longrightarrow> by_copy t \<Longrightarrow> get_elt t (elt_bytes e) = e"
proof (cases e)
  case (EInterval i)
  assume "elt_ok t e" "by_copy t"
  with EInterval show ?thesis by (cases t; cases i) (simp_all add: by_copy_def get_elt_def put_interval_def flat_put get_dtime get_put_le)
next
  case (EPeriod p)
  assume "elt_ok t e" "by_copy t"
  with EPeriod show ?thesis by (cases t; cases p) (simp_all add: by_copy_def get_elt_def flat_put get_dtime get_put_i32)
qed (cases t; simp add: by_copy_def get_elt_def flat_put get_dtime)+

lemma split_elts_ok:
  "list_all (elt_ok t) es \<Longrightarrow> by_copy t \<Longrightarrow> split_elts t (length es) (concat (map elt_bytes es) @ w) = es"
proof (induction es)
  case (Cons e es)
  then show ?case using elt_bytes_length [of t e] get_elt_ok [of t e] by simp
qed simp

lemma elts_length: "list_all (elt_ok t) es \<Longrightarrow> by_copy t \<Longrightarrow> length (concat (map elt_bytes es)) = elt_width t * length es"
  by (induction es) (simp_all add: elt_bytes_length)

lemma getElt_ok: "elt_ok t e \<Longrightarrow> \<not> by_copy t \<Longrightarrow> getEltFromBuffer t (elt_bytes e @ w) = Inr (e, w)"
proof (cases e)
  case (EString s)
  assume e: "elt_ok t e" "\<not> by_copy t"
  with EString have t: "t = AString" and s: "plain s" by (cases t; simp)+
  have len: "length s < 2 ^ 32 - 8" using zstr_short [OF s] by simp
  show ?thesis unfolding EString put_elt.simps flat_string [OF refl len]
    using s len drop_string [OF refl len, of w] by (simp add: getEltFromBuffer_def t o_def del: drop_append put_le.simps)
qed (cases t; simp add: by_copy_def getEltFromBuffer_def del: put_le.simps)+

text \<open>An array of which \<open>n\<close> elements have been read; \<open>D\<close> is what the memory held before.\<close>

definition part :: "varr \<Rightarrow> elt list \<Rightarrow> nat \<Rightarrow> varr" where
  "part a D n = a\<lparr>vdata := take n (vdata a) @ drop n D\<rparr>"

lemma part_simps [simp]:
  "vdim (part a D n) = vdim a" "vflags (part a D n) = vflags a" "length D = length (vdata a) \<Longrightarrow> length (vdata (part a D n)) = length (vdata a)"
  by (simp_all add: part_def)

lemma part_all: "length D = length (vdata a) \<Longrightarrow> part a D (length (vdata a)) = a"
  by (simp add: part_def)

lemma part_write:
  assumes "length D = length (vdata a)" "n + c \<le> length (vdata a)" "es = take c (drop n (vdata a))"
  shows "(part a D n)\<lparr>vdata := take n (vdata (part a D n)) @ es @ drop (n + c) (vdata (part a D n))\<rparr> = part a D (n + c)"
proof -
  have "take n (vdata (part a D n)) = take n (vdata a)" using assms(2) by (simp add: part_def)
  moreover have "drop (n + c) (vdata (part a D n)) = drop (n + c) D" using assms(2) by (simp add: part_def add.commute)
  ultimately show ?thesis using assms(3) by (simp add: part_def take_add)
qed

lemma fast_end: "n = N \<or> u = [] \<Longrightarrow> fast_loop t rows N u b n col coloff = Some (Inr (u, b, n))"
  by (subst fast_loop.simps) auto

lemma fast_ok:
  assumes t: "by_copy t" "list_all (elt_ok t) (vdata a)" "0 < rows" and D: "length D = length (vdata a)"
  shows "n + k \<le> length (vdata a) \<Longrightarrow> n + k = length (vdata a) \<or> w = [] \<Longrightarrow>
    fast_loop t rows (length (vdata a)) (concat (map elt_bytes (take k (drop n (vdata a)))) @ w) (part a D n) n (n div rows) (n mod rows) =
    Some (Inr (w, part a D (n + k), n + k))"
proof (induction k arbitrary: n rule: less_induct)
  case (less k)
  define N where "N = length (vdata a)"
  define es where "es = take k (drop n (vdata a))"
  define u where "u = concat (map elt_bytes es) @ w"
  show ?case
  proof (cases "k = 0")
    case True
    then show ?thesis using less.prems fast_end [of n "length (vdata a)" w] by auto
  next
    case False
    define c where "c = min k (rows - n mod rows)"
    have c: "0 < c" "c \<le> k" using False t(3) mod_less_divisor [of rows n] by (auto simp: c_def)
    have es: "list_all (elt_ok t) es" "length es = k" using t(2) less.prems(1) by (auto simp: es_def list_all_iff dest: in_set_takeD in_set_dropD)
    have wd: "0 < elt_width t" by (cases t) simp_all
    have lenu: "length u = elt_width t * k + length w" using elts_length [OF es(1) t(1)] es(2) by (simp add: u_def)
    have ncopy: "min (min (N - n) (length u div elt_width t)) (rows - n mod rows) = c"
      using less.prems wd unfolding lenu c_def N_def by auto
    have u: "u = concat (map elt_bytes (take c es)) @ concat (map elt_bytes (drop c es)) @ w"
      unfolding u_def by (metis append.assoc append_take_drop_id concat_append map_append)
    have esc: "list_all (elt_ok t) (take c es)" "length (take c es) = c" using es c by (auto simp: list_all_iff dest: in_set_takeD)
    have split: "split_elts t c u = take c (drop n (vdata a))"
      using split_elts_ok [OF esc(1) t(1)] esc(2) c(2) unfolding u by (simp add: es_def min_def)
    have drop: "drop (elt_width t * c) u = concat (map elt_bytes (take (k - c) (drop (n + c) (vdata a)))) @ w"
      using elts_length [OF esc(1) t(1)] esc(2) unfolding u by (simp add: es_def drop_take add.commute)
    have "u \<noteq> []" using lenu wd False by auto
    moreover have "n < N" "n + c \<le> N" using less.prems(1) c by (simp_all add: N_def)
    ultimately have step: "fast_loop t rows N u (part a D n) n (n div rows) (n mod rows) =
      (if n mod rows + c = rows then fast_loop t rows N (drop (elt_width t * c) u) (part a D (n + c)) (n + c) (n div rows + 1) 0
       else fast_loop t rows N (drop (elt_width t * c) u) (part a D (n + c)) (n + c) (n div rows) (n mod rows))"
      using ncopy D part_write [OF D, of n c] split by (subst fast_loop.simps) (simp add: N_def Let_def)
    show ?thesis
    proof (cases "n mod rows + c = rows")
      case True
      define q m where "q = n div rows" and "m = n mod rows"
      have "n = q * rows + m" "m + c = rows" using True by (simp_all add: q_def m_def)
      then have e: "n + c = (q + 1) * rows" by simp
      have "(n + c) div rows = n div rows + 1" "(n + c) mod rows = 0" unfolding e q_def [symmetric] using t(3) by simp_all
      moreover have "fast_loop t rows N (drop (elt_width t * c) u) (part a D (n + c)) (n + c) ((n + c) div rows) ((n + c) mod rows) = Some (Inr (w, part a D (n + k), n + k))"
        using less.IH [of "k - c" "n + c"] c False less.prems unfolding drop by (simp add: N_def)
      ultimately show ?thesis using step True by (simp add: es_def u_def N_def)
    next
      case False
      then have "c = k" using c_def mod_less_divisor [OF t(3), of n] by (auto simp: min_def split: if_splits)
      then show ?thesis using step False drop less.prems fast_end [of "n + k" N w] by (simp add: es_def u_def N_def)
    qed
  qed
qed

text \<open>A flag that is set says that the column ascends.\<close>

definition flags_sound :: "(elt \<Rightarrow> elt \<Rightarrow> bool) \<Rightarrow> nat \<Rightarrow> varr \<Rightarrow> bool" where
  "flags_sound cmp rows a \<longleftrightarrow>
     (\<forall>p<length (vdata a). vflags a ! (p div rows) \<and> 0 < p mod rows \<longrightarrow> cmp (vdata a ! (p - 1)) (vdata a ! p))"

lemma slow_end: "n = N \<or> u = [] \<Longrightarrow> slow_loop cmp t rows N u b n col coloff = Inr (u, b, n)"
  by (subst slow_loop.simps) auto

lemma elt_bytes_not_Nil: "elt_ok t e \<Longrightarrow> elt_bytes e \<noteq> []"
proof -
  assume "elt_ok t e"
  then have "0 < length (elt_bytes e)" by (cases t; cases e) (simp_all add: put_interval_def put_string_def flat_put)
  then show ?thesis by auto
qed

lemma part_next:
  assumes "length D = length (vdata a)" "n < length (vdata a)"
  shows "(part a D n)\<lparr>vdata := (vdata (part a D n))[n := vdata a ! n]\<rparr> = part a D (Suc n)"
proof -
  have "(take n (vdata a) @ drop n D)[n := vdata a ! n] = take (Suc n) (vdata a) @ drop (Suc n) D"
    using assms Cons_nth_drop_Suc [of n D] by (simp add: list_update_append take_Suc_conv_app_nth flip: Cons_nth_drop_Suc)
  then show ?thesis by (simp add: part_def)
qed

lemma slow_ok:
  assumes t: "\<not> by_copy t" "list_all (elt_ok t) (vdata a)" "0 < rows" and D: "length D = length (vdata a)" and f: "flags_sound cmp rows a"
  shows "n + k \<le> length (vdata a) \<Longrightarrow> n + k = length (vdata a) \<or> w = [] \<Longrightarrow>
    slow_loop cmp t rows (length (vdata a)) (concat (map elt_bytes (take k (drop n (vdata a)))) @ w) (part a D n) n (n div rows) (n mod rows) =
    Inr (w, part a D (n + k), n + k)"
proof (induction k arbitrary: n)
  case 0
  then show ?case using slow_end [of n "length (vdata a)" w] by auto
next
  case (Suc k)
  define X where "X = vdata a"
  have n: "n < length X" using Suc.prems(1) by (simp add: X_def)
  have take: "take (Suc k) (drop n X) = X ! n # take k (drop (Suc n) X)" using n by (simp flip: Cons_nth_drop_Suc)
  have e: "elt_ok t (X ! n)" using t(2) n by (simp add: list_all_length X_def)
  define u where "u = concat (map elt_bytes (take k (drop (Suc n) X))) @ w"
  have get: "getEltFromBuffer t (elt_bytes (X ! n) @ u) = Inr (X ! n, u)" using getElt_ok [OF e t(1)] by blast
  have p: "n div rows * rows + n mod rows = n" by (rule div_mult_mod_eq)
  have prev: "vdata (part a D n) ! (n - 1) = X ! (n - 1)" if "0 < n mod rows"
    using that n by (cases n) (simp_all add: part_def nth_append X_def)
  have flag: "(if vflags a ! (n div rows) \<and> 0 < n mod rows then cmp (X ! (n - 1)) (X ! n) else vflags a ! (n div rows)) = vflags a ! (n div rows)"
    using f n by (auto simp: flags_sound_def X_def)
  have upd: "(part a D n)\<lparr>vdata := (vdata (part a D n))[n := X ! n], vflags := vflags a\<rparr> = part a D (Suc n)"
    using part_next [OF D, of n] n by (simp add: X_def part_def)
  have step: "slow_loop cmp t rows (length X) (elt_bytes (X ! n) @ u) (part a D n) n (n div rows) (n mod rows) =
    (if n mod rows + 1 = rows then slow_loop cmp t rows (length X) u (part a D (Suc n)) (Suc n) (n div rows + 1) 0
     else slow_loop cmp t rows (length X) u (part a D (Suc n)) (Suc n) (n div rows) (n mod rows + 1))"
    using n e elt_bytes_not_Nil [OF e] get p prev flag upd D
    by (subst slow_loop.simps) (simp add: Let_def X_def [symmetric] cong: if_cong)
  have "Suc n div rows = (if n mod rows + 1 = rows then n div rows + 1 else n div rows)" "Suc n mod rows = (if n mod rows + 1 = rows then 0 else n mod rows + 1)"
    using t(3) by (simp_all add: div_Suc mod_Suc)
  then show ?case using Suc.IH [of "Suc n"] Suc.prems step take by (cases "n mod rows + 1 = rows") (simp_all add: u_def X_def)
qed

section \<open>Arrays and series\<close>

definition varr_ok :: "(elt \<Rightarrow> elt \<Rightarrow> bool) \<Rightarrow> atype \<Rightarrow> varr \<Rightarrow> bool" where
  "varr_ok cmp t a \<longleftrightarrow>
     vdim a \<noteq> [] \<and> length (vdim a) < 2 ^ 64 \<and> list_all (\<lambda>x. x < 2 ^ 64) (vdim a) \<and> length (vnames a) = length (vdim a) \<and>
     (\<forall>j<length (vdim a). vnames a ! j = [] \<or> length (vnames a ! j) = vdim a ! j) \<and>
     list_all (\<lambda>ns. length ns < 2 ^ 64 \<and> list_all (\<lambda>s. plain s) ns) (vnames a) \<and>
     length (vflags a) = ncols_of (vdim a) \<and> length (vflags a) < 2 ^ 64 \<and>
     length (vdata a) = ncols_of (vdim a) * hd (vdim a) \<and> length (vdata a) < 2 ^ 64 \<and> list_all (elt_ok t) (vdata a) \<and>
     (\<not> by_copy t \<longrightarrow> flags_sound cmp (hd (vdim a)) a)"

lemma readElts_ok:
  assumes a: "varr_ok cmp t a" and D: "length D = length (vdata a)" and n: "n < length (vdata a)" "n + k \<le> length (vdata a)" "n + k = length (vdata a) \<or> w = []"
  shows "readElts cmp t (length (vdata a)) (concat (map elt_bytes (take k (drop n (vdata a)))) @ w) (part a D n) n = Some (Inr (w, part a D (n + k), n + k))"
proof -
  obtain rows ds where d: "vdim a = rows # ds" using a by (cases "vdim a") (auto simp: varr_ok_def)
  have r: "0 < rows" using a n(1) d by (cases rows) (auto simp: varr_ok_def)
  have e: "list_all (elt_ok t) (vdata a)" using a by (simp add: varr_ok_def)
  show ?thesis
  proof (cases "by_copy t")
    case True
    then show ?thesis using fast_ok [OF True e r D n(2,3)] d r by (auto simp: readElts_def by_copy_def)
  next
    case False
    then have "flags_sound cmp rows a" using a d by (simp add: varr_ok_def)
    then show ?thesis using slow_ok [OF False e r D _ n(2,3), of cmp] False d r by (auto simp: readElts_def by_copy_def)
  qed
qed

lemma elts_run:
  assumes a: "varr_ok cmp t a" and D: "length D = length (vdata a)"
  shows "n < length (vdata a) \<Longrightarrow> concat G = map elt_bytes (drop n (vdata a)) @ r \<Longrightarrow>
    \<exists>G'. concat G' = r \<and> G' \<noteq> [] \<and>
      read_groups cmp junk G (S @ [\<lparr>vval = VArr t (part a D n), vexp = length (vdata a), vn = n, vstage = 1\<rparr>, H]) (Suc (length S)) =
      read_groups cmp junk G' (S @ [\<lparr>vval = VArr t a, vexp = length (vdata a), vn = length (vdata a), vstage = 1\<rparr>]) (length S)"
proof (induction G arbitrary: n)
  case (Cons g G)
  define N where "N = length (vdata a)"
  define A where "A m = \<lparr>vval = VArr t (part a D m), vexp = N, vn = m, vstage = 1\<rparr>" for m
  have n: "n < N" using Cons.prems(1) by (simp add: N_def)
  have pass: "one_pass cmp junk u (S @ [A n, H]) (Suc (length S)) = readArray cmp junk t (part a D n) (A n) (S @ [A n, H]) (Suc (length S)) u" for u
    by (simp add: one_pass_def process_def A_def)
  show ?case
  proof (cases "length g < N - n")
    case True
    define k where "k = length g"
    have nk: "n + k < N" using True by (simp add: k_def)
    have g: "g = map elt_bytes (take k (drop n (vdata a)))" "concat G = map elt_bytes (drop (n + k) (vdata a)) @ r"
      using arg_cong [OF Cons.prems(2), of "take k"] arg_cong [OF Cons.prems(2), of "drop k"] True
      by (simp_all add: k_def N_def take_map drop_map add.commute)
    have "readElts cmp t N (concat g) (part a D n) n = Some (Inr ([], part a D (n + k), n + k))"
      using readElts_ok [OF a D, of n k "[]"] n nk by (simp add: N_def g(1) [symmetric])
    then have "one_pass cmp junk (concat g) (S @ [A n, H]) (Suc (length S)) = Some (Inr (Return (S @ [A (n + k), H]) (Suc (length S))))"
      unfolding pass using nk by (simp add: readArray_def A_def Let_def)
    then have "read_groups cmp junk (g # G) (S @ [A n, H]) (Suc (length S)) = read_groups cmp junk G (S @ [A (n + k), H]) (Suc (length S))"
      using pass_return [OF disjI2, of "Suc (length S)" "S @ [A n, H]"] by simp
    then show ?thesis using Cons.IH [of "n + k"] g(2) nk by (simp add: A_def N_def)
  next
    case False
    define g' where "g' = drop (N - n) g"
    have "take (N - n) g = map elt_bytes (drop n (vdata a))" and r: "r = g' @ concat G"
      using arg_cong [OF Cons.prems(2), of "take (N - n)"] arg_cong [OF Cons.prems(2), of "drop (N - n)"] False
      by (simp_all add: g'_def N_def)
    then have g: "g = map elt_bytes (drop n (vdata a)) @ g'" using append_take_drop_id [of "N - n" g] by (simp add: g'_def)
    have "readElts cmp t N (concat g) (part a D n) n = Some (Inr (concat g', a, N))"
      using readElts_ok [OF a D, of n "N - n" "concat g'"] n part_all [OF D] unfolding g by (simp add: N_def)
    then have "one_pass cmp junk (concat g) (S @ [A n, H]) (Suc (length S)) = Some (Inr (Loop (concat g') (S @ [\<lparr>vval = VArr t a, vexp = N, vn = N, vstage = 1\<rparr>]) (length S)))"
      unfolding pass by (simp add: readArray_def A_def Let_def)
    then have "read_groups cmp junk (g # G) (S @ [A n, H]) (Suc (length S)) = read_groups cmp junk (g' # G) (S @ [\<lparr>vval = VArr t a, vexp = N, vn = N, vstage = 1\<rparr>]) (length S)"
      using pass_loop [OF disjI2, of "Suc (length S)" "S @ [A n, H]"] by simp
    then show ?thesis using r by (intro exI [of _ "g' # G"]) (simp add: A_def N_def)
  qed
qed simp

lemma list_pieces_flat:
  "map flat_items (list_pieces pl) =
     head_piece 10 (length pl) # concat (map (\<lambda>(n, ps). head_piece 18 2 # map flat_items (str_pieces n) @ ps) (map (map_prod id (map flat_items)) pl))"
  by (simp add: list_pieces_def named_pieces_def map_concat o_def case_prod_beta map_prod_def del: put_le.simps)

lemma reads_list_pieces:
  assumes "list_all2 (\<lambda>(n, v) (m, ps). n = m \<and> plain n \<and> reads_as cmp junk v (map flat_items ps)) l pl" "length l < 2 ^ 64"
  shows "reads_as cmp junk (VList l) (map flat_items (list_pieces pl))"
proof -
  have "list_all2 (\<lambda>(n, v) (m, ps). n = m \<and> plain n \<and> reads_as cmp junk v ps) l (map (map_prod id (map flat_items)) pl)"
    using assms(1) by (auto simp: list_all2_map2 elim!: list_all2_mono)
  then show ?thesis unfolding list_pieces_flat list_all2_lengthD [OF assms(1), symmetric] by (rule reads_list [OF _ assms(2)])
qed

definition names_val :: "string list list \<Rightarrow> val" where
  "names_val ns = VList (map (\<lambda>n. ('''', VList (map (\<lambda>s. ('''', StdString s)) n))) ns)"

lemma reads_names:
  assumes "length ns < 2 ^ 64" "list_all (\<lambda>n. length n < 2 ^ 64 \<and> list_all (\<lambda>s. plain s) n) ns"
  shows "reads_as cmp junk (names_val ns) (map flat_items (convertToList ns))"
proof -
  have e: "plain ''''" by (simp add: plain_def STRING_SIZE_def)
  have "reads_as cmp junk (VList (map (\<lambda>s. ('''', StdString s)) n)) (map flat_items (list_pieces (map (\<lambda>s. ('''', str_pieces s)) n)))" if "n \<in> set ns" for n
    using assms(2) that e by (intro reads_list_pieces) (auto simp: list_all_iff list_all2_map1 list_all2_map2 list.rel_refl_strong zstr_short_string reads_str intro!: list.rel_refl_strong)
  then show ?thesis unfolding names_val_def convertToList_def using assms(1) e
    by (intro reads_list_pieces) (auto simp: list_all2_map1 list_all2_map2 intro!: list.rel_refl_strong)
qed

definition header_val :: "varr \<Rightarrow> val" where
  "header_val a = VList [('''', StdInt (vdim a)), ('''', names_val (vnames a)), ('''', StdInt (map (\<lambda>b. if b then 1 else 0) (vflags a)))]"

lemma reads_header:
  assumes "varr_ok cmp t a"
  shows "reads_as cmp junk (header_val a)
    (map flat_items (list_pieces [('''', int_pieces (vdim a)), ('''', convertToList (vnames a)), ('''', int_pieces (map (\<lambda>b. if b then 1 else 0) (vflags a)))]))"
  unfolding header_val_def using assms
  by (intro reads_list_pieces) (auto simp: varr_ok_def plain_def STRING_SIZE_def list_all_iff intro!: reads_int reads_names)

lemma mapR_ok: "(\<And>x. x \<in> set xs \<Longrightarrow> f x = Inr (g x)) \<Longrightarrow> mapR f xs = Inr (map g xs)"
  by (induction xs) auto

lemma convert_header:
  assumes "list_all (list_all (\<lambda>s. plain s)) (vnames a)"
  shows "convertFromList (header_val a) = Inr (vdim a, vnames a, map (\<lambda>b. if b then 1 else 0) (vflags a))"
proof -
  have sub: "mapR (\<lambda>s. bindR (as_str s) zstr) (map (StdString) n) = Inr n" if "n \<in> set (vnames a)" for n
    using assms that by (subst mapR_ok [where g = "\<lambda>v. case v of StdString s \<Rightarrow> s"]) (auto simp: list_all_iff o_def)
  have "mapR (\<lambda>subl. bindR (as_vals subl) (mapR (\<lambda>s. bindR (as_str s) zstr))) (map (\<lambda>n. VList (map (\<lambda>s. ('''', StdString s)) n)) ns) = Inr ns"
    if "set ns \<subseteq> set (vnames a)" for ns using that
    by (induction ns) (auto simp: sub o_def)
  then show ?thesis by (simp add: convertFromList_def header_val_def names_val_def val_at_def o_def)
qed

lemma set_flags_ok:
  assumes "length ord = length (vflags b)"
  shows "set_flags ord b = Inr (b\<lparr>vflags := map (\<lambda>x. x \<noteq> 0) ord\<rparr>)"
proof -
  have "foldR (\<lambda>j b. if j < length (vflags b) then Inr (b\<lparr>vflags := (vflags b)[j := ord ! j \<noteq> 0]\<rparr>) else Inl (OutOfRange ''getcol: column out of range'')) [0..<k] b =
    Inr (b\<lparr>vflags := map (\<lambda>x. x \<noteq> 0) (take k ord) @ drop k (vflags b)\<rparr>)" if "k \<le> length ord" for k
    using that
  proof (induction k)
    case (Suc k)
    then have k: "k < length (vflags b)" "k < length ord" using assms by simp_all
    have "drop k (vflags b) = vflags b ! k # drop (Suc k) (vflags b)" by (rule Cons_nth_drop_Suc [OF k(1), symmetric])
    then show ?case using Suc k by (simp add: foldR_append list_update_append take_Suc_conv_app_nth)
  qed simp
  from this [of "length ord"] show ?thesis using assms by (simp add: set_flags_def)
qed

lemma new_array:
  assumes "varr_ok cmp t a"
  shows "bindR (noinit_varr junk (vdim a) (vnames a)) (set_flags (map (\<lambda>b. if b then 1 else 0) (vflags a))) = Inr (part a (map junk [0..<length (vdata a)]) 0)"
proof -
  have "noinit_varr junk (vdim a) (vnames a) = Inr \<lparr>vdim = vdim a, vnames = vnames a, vflags = replicate (ncols_of (vdim a)) True, vdata = map junk [0..<length (vdata a)]\<rparr>"
    using assms by (auto simp: noinit_varr_def varr_ok_def list_ex_iff)
  then show ?thesis using assms by (cases a) (simp add: set_flags_ok varr_ok_def part_def o_def cong: map_cong)
qed

lemma varr_size_ok: "varr_ok cmp t a \<Longrightarrow> varr_size a = length (vdata a)"
  by (auto simp: varr_ok_def varr_size_def varr_rows_def size_mul_def)

lemma make_array: "make_value (vt_array t) = Inr (VArr t (empty_varr [0, 1]))" "isArrayVal (vt_array t)" "vt_array t < 2 ^ 64"
  by (cases t; simp add: make_value_def isArrayVal_def)+

lemma reads_array:
  assumes a: "varr_ok cmp t a"
  shows "reads_as cmp junk (VArr t a) (map flat_items (array_pieces (vt_array t) a))"
proof (rule reads_asI)
  fix S G r
  define N where "N = length (vdata a)"
  define D where "D = map junk [0..<N]"
  define hp where "hp = map flat_items (list_pieces [('''', int_pieces (vdim a)), ('''', convertToList (vnames a)), ('''', int_pieces (map (\<lambda>b. if b then 1 else 0) (vflags a)))])"
  define A0 where "A0 = \<lparr>vval = VArr t (empty_varr [0, 1]), vexp = N, vn = 0, vstage = 0\<rparr>"
  define A1 where "A1 = \<lparr>vval = VArr t (part a D 0), vexp = N, vn = 0, vstage = 1\<rparr>"
  define A2 where "A2 = \<lparr>vval = VArr t a, vexp = N, vn = N, vstage = 1\<rparr>"
  assume "concat G = map flat_items (array_pieces (vt_array t) a) @ r"
  then have G: "concat G = head_piece (vt_array t) N # hp @ map elt_bytes (vdata a) @ r"
    using varr_size_ok [OF a] by (simp add: array_pieces_def hp_def N_def del: put_le.simps)
  have N: "N < 2 ^ 64" using a by (simp add: varr_ok_def N_def)
  obtain G1 where G1: "concat G1 = hp @ map elt_bytes (vdata a) @ r" "read_groups cmp junk G S (length S) = read_groups cmp junk G1 (S @ [A0]) (length (S @ [A0]))"
    by (rule head_step [OF G make_array(3) N make_array(1) disjI1 [OF make_array(2)], of cmp junk S]) (auto simp: A0_def intro: that)
  have hd: "reads_as cmp junk (header_val a) hp" unfolding hp_def by (rule reads_header [OF a])
  obtain G2 H where G2: "concat G2 = map elt_bytes (vdata a) @ r" "G2 \<noteq> []" "vval H = header_val a"
    "read_groups cmp junk G1 (S @ [A0]) (length (S @ [A0])) = read_groups cmp junk G2 (S @ [A0, H]) (Suc (length S))"
    by (rule reads_asD [OF hd G1(1), of "S @ [A0]"]) (auto intro: that)
  have names: "list_all (list_all (\<lambda>s. plain s)) (vnames a)" using a by (auto simp: varr_ok_def list_all_iff)
  have step: "process cmp junk u (S @ [A0, H]) (Suc (length S)) = Some (Inr (if N = 0 then Loop u (S @ [A1]) (length S) else Loop u (S @ [A1, H]) (Suc (length S))))" for u
    using new_array [OF a, of junk] convert_header [OF names] G2(3) by (simp add: process_def readArray_def A0_def A1_def D_def N_def Let_def)
  show "\<exists>G' st. concat G' = r \<and> G' \<noteq> [] \<and> vval st = VArr t a \<and> vexp st \<le> vn st \<and>
      read_groups cmp junk G S (length S) = read_groups cmp junk G' (S @ [st]) (length S)"
  proof (cases "N = 0")
    case True
    have "A1 = A2" using True part_all [of D a] by (simp add: A1_def A2_def D_def N_def)
    moreover have "read_groups cmp junk G2 (S @ [A0, H]) (Suc (length S)) = read_groups cmp junk G2 (S @ [A1]) (length S)"
      using step True G2(2) by (intro absorb) simp_all
    ultimately show ?thesis using G1(2) G2 True by (intro exI [of _ G2] exI [of _ A2]) (simp add: A2_def N_def)
  next
    case False
    have "read_groups cmp junk G2 (S @ [A0, H]) (Suc (length S)) = read_groups cmp junk G2 (S @ [A1, H]) (Suc (length S))"
      using step False G2(2) by (intro absorb) simp_all
    moreover obtain G3 where "concat G3 = r" "G3 \<noteq> []" "read_groups cmp junk G2 (S @ [A1, H]) (Suc (length S)) = read_groups cmp junk G3 (S @ [A2]) (length S)"
      using elts_run [OF a, of D 0 G2 r junk S H] G2(1) False by (auto simp: A1_def A2_def D_def N_def)
    ultimately show ?thesis using G1(2) G2(4) by (intro exI [of _ G3] exI [of _ A2]) (simp add: A2_def)
  qed
qed

lemma reads_zts:
  assumes "varr_ok cmp ADouble a" "varr_ok cmp ATime i"
  shows "reads_as cmp junk (VZts a i) (head_piece 9 2 # map flat_items (array_pieces 2 a) @ map flat_items (array_pieces 4 i))"
proof (rule reads_asI)
  fix S G r
  define Z where "Z x y k n = \<lparr>vval = VZts x y, vexp = 2, vn = n, vstage = k\<rparr>" for x y k n
  define Z0 where "Z0 = Z (empty_varr [0, 1]) (empty_varr [0]) 0 0"
  define Z1 where "Z1 = Z a (empty_varr [0]) 1 1"
  assume "concat G = (head_piece 9 2 # map flat_items (array_pieces 2 a) @ map flat_items (array_pieces 4 i)) @ r"
  then have G: "concat G = head_piece 9 2 # map flat_items (array_pieces 2 a) @ map flat_items (array_pieces 4 i) @ r" by simp
  obtain G1 where G1: "concat G1 = map flat_items (array_pieces 2 a) @ map flat_items (array_pieces 4 i) @ r"
    "read_groups cmp junk G S (length S) = read_groups cmp junk G1 (S @ [Z0]) (length (S @ [Z0]))"
    by (rule head_step [OF G, of "VZts (empty_varr [0, 1]) (empty_varr [0])" cmp junk S]) (auto simp: make_value_def isArrayVal_def Z0_def Z_def intro: that)
  have ra: "reads_as cmp junk (VArr ADouble a) (map flat_items (array_pieces 2 a))" "reads_as cmp junk (VArr ATime i) (map flat_items (array_pieces 4 i))"
    using reads_array [OF assms(1)] reads_array [OF assms(2)] by simp_all
  obtain G2 sa where G2: "concat G2 = map flat_items (array_pieces 4 i) @ r" "G2 \<noteq> []" "vval sa = VArr ADouble a"
    "read_groups cmp junk G1 (S @ [Z0]) (length (S @ [Z0])) = read_groups cmp junk G2 (S @ [Z0, sa]) (Suc (length S))"
    by (rule reads_asD [OF ra(1) G1(1), of "S @ [Z0]"]) (auto intro: that)
  have abs1: "read_groups cmp junk G2 (S @ [Z0, sa]) (Suc (length S)) = read_groups cmp junk G2 (S @ [Z1]) (length (S @ [Z1]))"
    using G2(2,3) by (intro absorb) (auto simp: process_def Z0_def Z1_def Z_def)
  obtain G3 si where G3: "concat G3 = r" "G3 \<noteq> []" "vval si = VArr ATime i"
    "read_groups cmp junk G2 (S @ [Z1]) (length (S @ [Z1])) = read_groups cmp junk G3 (S @ [Z1, si]) (Suc (length S))"
    by (rule reads_asD [OF ra(2) G2(1), of "S @ [Z1]"]) (auto intro: that)
  have abs2: "read_groups cmp junk G3 (S @ [Z1, si]) (Suc (length S)) = read_groups cmp junk G3 (S @ [Z a i 1 2]) (length S)"
    using G3(2,3) by (intro absorb) (auto simp: process_def Z1_def Z_def)
  show "\<exists>G' st. concat G' = r \<and> G' \<noteq> [] \<and> vval st = VZts a i \<and> vexp st \<le> vn st \<and>
      read_groups cmp junk G S (length S) = read_groups cmp junk G' (S @ [st]) (length S)"
    using G1(2) G2(4) abs1 G3(4) abs2 G3(1,2) by (intro exI [of _ G3] exI [of _ "Z a i 1 2"]) (simp add: Z_def)
qed

section \<open>Every value\<close>

fun val_ok :: "(elt \<Rightarrow> elt \<Rightarrow> bool) \<Rightarrow> val \<Rightarrow> bool" where
  "val_ok cmp (VList l) \<longleftrightarrow> length l < 2 ^ 64 \<and> list_all (\<lambda>x. plain (fst x) \<and> val_ok cmp (snd x)) l"
| "val_ok cmp (StdString s) \<longleftrightarrow> short_string s"
| "val_ok cmp (StdInt xs) \<longleftrightarrow> length xs < 2 ^ 64 \<and> list_all (\<lambda>x. x < 2 ^ 64) xs"
| "val_ok cmp (VArr t a) \<longleftrightarrow> varr_ok cmp t a"
| "val_ok cmp (VZts a i) \<longleftrightarrow> varr_ok cmp ADouble a \<and> varr_ok cmp ATime i"
| "val_ok cmp VNull \<longleftrightarrow> True"
| "val_ok cmp (VNamed n v) \<longleftrightarrow> val_ok cmp n \<and> val_ok cmp v"
| "val_ok cmp (VError s) \<longleftrightarrow> plain s"
| "val_ok cmp (VOther k) \<longleftrightarrow> False"

lemma write_list:
  assumes "\<And>n v. (n, v) \<in> set l \<Longrightarrow> \<exists>p. f v = Inr p \<and> P v p"
  shows "\<exists>ps. foldR (\<lambda>(n, v) qs. bindR (f v) (\<lambda>p. Inr (qs @ [(n, p)]))) l qs = Inr (qs @ ps) \<and> list_all2 (\<lambda>(n, v) (m, p). n = m \<and> P v p) l ps"
  using assms
proof (induction l arbitrary: qs)
  case (Cons x l)
  obtain n v p where x: "x = (n, v)" "f v = Inr p" "P v p" using Cons.prems [of "fst x" "snd x"] by (cases x) auto
  obtain ps where "foldR (\<lambda>(n, v) qs. bindR (f v) (\<lambda>p. Inr (qs @ [(n, p)]))) l (qs @ [(n, p)]) = Inr ((qs @ [(n, p)]) @ ps)"
    "list_all2 (\<lambda>(n, v) (m, p). n = m \<and> P v p) l ps" using Cons.IH [of "qs @ [(n, p)]"] Cons.prems by auto
  then show ?case using x by (intro exI [of _ "(n, p) # ps"]) simp
qed simp

lemma room_flat: "map flat_items (room_first (array_pieces t a)) = map flat_items (array_pieces t a)"
  by (simp add: room_first_def array_pieces_def)

lemma written_reads: "val_ok cmp v \<Longrightarrow> \<exists>ps. writeValue v = Inr ps \<and> reads_as cmp junk v (map flat_items ps)"
proof (induction v rule: writeValue.induct)
  case (1 l)
  have "\<exists>p. writeValue v = Inr p \<and> reads_as cmp junk v (map flat_items p)" if "(n, v) \<in> set l" for n v
    using 1(1) [OF that refl] 1(2) that by (auto simp: list_all_iff)
  then obtain ps where
    ps: "foldR (\<lambda>(n, v) qs. bindR (writeValue v) (\<lambda>p. Inr (qs @ [(n, p)]))) l [] = Inr ps"
    "list_all2 (\<lambda>(n, v) (m, p). n = m \<and> reads_as cmp junk v (map flat_items p)) l ps" using write_list [of l writeValue "\<lambda>v p. reads_as cmp junk v (map flat_items p)" "[]"] by auto
  have "\<And>n v. (n, v) \<in> set l \<Longrightarrow> plain n" using 1(2) by (auto simp: list_all_iff)
  then have "list_all2 (\<lambda>(n, v) (m, p). n = m \<and> plain n \<and> reads_as cmp junk v (map flat_items p)) l ps"
    by (intro list.rel_mono_strong [OF ps(2)]) auto
  then show ?case using ps(1) 1(2) reads_list_pieces by auto
next
  case (7 n v)
  then obtain pn pv where w: "writeValue n = Inr pn" "writeValue v = Inr pv" and r: "reads_as cmp junk n (map flat_items pn)" "reads_as cmp junk v (map flat_items pv)"
    by auto
  show ?case using w reads_named [OF r] by (simp add: named_pieces_def del: put_le.simps)
next
  case (5 a i)
  then show ?case using reads_zts [of cmp a i junk] by (simp del: put_le.simps)
next
  case 6
  then show ?case using reads_null [of cmp junk] by (simp del: put_le.simps)
next
  case (8 s)
  then show ?case using reads_error [of s cmp junk] zstr_short_string [of s] by (simp add: o_def)
qed (auto simp: reads_str reads_int reads_array room_flat)

lemma no_more:
  "concat G = [] \<Longrightarrow> read_groups cmp junk G ss 0 = Some (Inr (ss, 0))"
  by (induction G) (simp_all add: pass_skip del: read_buffers.simps(2))

text \<open>C37. A value is written without error, and however the pieces it is written in are distributed over buffers, reading the buffers one after
  the other ends with this value, complete, alone on the stack.\<close>

theorem value_roundtrip:
  assumes "val_ok cmp v"
  shows "\<exists>ps. writeValue v = Inr ps \<and>
    (\<forall>G. concat G = map flat_items ps \<longrightarrow>
      (\<exists>st. read_buffers cmp junk (map concat G) [] 0 = Some (Inr ([st], 0)) \<and> vval st = v \<and> vexp st \<le> vn st))"
proof -
  obtain ps where ps: "writeValue v = Inr ps" "reads_as cmp junk v (map flat_items ps)" using written_reads [OF assms] by blast
  have "\<exists>st. read_groups cmp junk G [] 0 = Some (Inr ([st], 0)) \<and> vval st = v \<and> vexp st \<le> vn st" if G: "concat G = map flat_items ps" for G
  proof -
    obtain G' st where "concat G' = []" "vval st = v" "vexp st \<le> vn st" "read_groups cmp junk G [] (length ([] :: vstate list)) = read_groups cmp junk G' [st] 0"
      by (rule reads_asD [OF ps(2), of G "[]" "[]"]) (use G in \<open>auto intro: that\<close>)
    then show ?thesis using no_more [of G' cmp junk "[st]"] by auto
  qed
  then show ?thesis using ps(1) by blast
qed

definition example_series :: val where
  "example_series = VZts \<lparr>vdim = [2, 1], vnames = [[], [''px'']], vflags = [True], vdata = [EDouble 5, EDouble 7]\<rparr>
                         \<lparr>vdim = [2], vnames = [[]], vflags = [True], vdata = [EInt 10, EInt (- 3)]\<rparr>"

definition example_value :: val where
  "example_value = VList [(''z'', example_series), ('''', VArr AString \<lparr>vdim = [1], vnames = [[]], vflags = [True], vdata = [EString ''ab'']\<rparr>), (''n'', VNull)]"

theorem value_roundtrip_witness:
  "val_ok (\<lambda>x y. True) example_value \<and>
   (\<exists>st. read_buffers (\<lambda>x y. True) (\<lambda>k. EInt 0) (map flat_items (projr (writeValue example_value))) [] 0 = Some (Inr ([st], 0)) \<and> vval st = example_value)"
proof -
  have ok: "val_ok (\<lambda>x y. True) example_value"
    by (simp add: example_value_def example_series_def varr_ok_def plain_def STRING_SIZE_def less_Suc_eq ncols_of_def dtime_range_def by_copy_def flags_sound_def short_string_def)
  obtain ps where ps: "writeValue example_value = Inr ps" and G: "\<And>G. concat G = map flat_items ps \<Longrightarrow>
      \<exists>st. read_buffers (\<lambda>x y. True) (\<lambda>k. EInt 0) (map concat G) [] 0 = Some (Inr ([st], 0)) \<and> vval st = example_value \<and> vexp st \<le> vn st"
    using value_roundtrip [OF ok, of "\<lambda>k. EInt 0"] by blast
  have "concat (map (\<lambda>p. [p]) (map flat_items ps)) = map flat_items ps" "map concat (map (\<lambda>p. [p]) (map flat_items ps)) = map flat_items ps"
    by (simp_all add: o_def)
  with G [of "map (\<lambda>p. [p]) (map flat_items ps)"] show ?thesis unfolding ps sum.sel using ok by metis
qed

section \<open>Values that are cut elsewhere\<close>

text \<open>The numbers of an integer vector are one piece: when they are split, the index that is kept says that a new value is expected, and the next number is
  taken as a type.\<close>

lemma split_ints_misread:
  "read_buffers cmp junk [head_piece 1 2 @ put_u64 5, put_u64 7] [] 0 = Some (Inl UB)"
proof -
  define S where "S = [\<lparr>vval = StdInt [5], vexp = 2, vn = 1, vstage = 0\<rparr>]"
  have ne: "put_u64 k \<noteq> []" for k by (metis list.size(3) put_le_length zero_neq_numeral)
  have "one_pass cmp junk (head_piece 1 2 @ put_u64 5) [] 0 = Some (Inr (Loop [] S 1))"
    using push_pass [of 1 2 "StdInt []" False cmp junk "put_u64 5" "[]"] read_u64_put [of 5 "[]"]
    by (simp add: make_value_def isArrayVal_def isAtomicVal_def process_def stack_at_def read_ints.simps [of 2] S_def ne del: put_le.simps)
  then have "read_buffers cmp junk [head_piece 1 2 @ put_u64 5, put_u64 7] [] 0 = read_buffers cmp junk [put_u64 7] S 1"
    using pass_loop [OF disjI1, of "head_piece 1 2 @ put_u64 5" cmp junk "[]" 0 "[]" S 1 "[put_u64 7]"] pass_skip [of 1 S cmp junk "[put_u64 7]"] ne by (simp add: S_def del: put_le.simps)
  also have "\<dots> = Some (Inl UB)"
  proof -
    have "read_u64 (put_u64 7) = Inr (7, [])" using read_u64_put [of 7 "[]"] by simp
    then show ?thesis
      by (simp add: readValue.simps [of _ _ "put_u64 7"] one_pass_def S_def ne read_u64_def [of "[]"] read_bytes_def liftR_def del: put_le.simps)
  qed
  finally show ?thesis .
qed

text \<open>A part of an element that is copied is never completed: with less than one element left in the buffer the loop goes on without an end.\<close>

lemma split_element_hangs:
  assumes "n < N" "u \<noteq> []" "length u < elt_width t" "coloff < rows" "col * rows + coloff \<le> length (vdata a)"
  shows "fast_loop t rows N u a n col coloff = None"
proof (rule ccontr)
  assume "fast_loop t rows N u a n col coloff \<noteq> None"
  then obtain r where "fast_loop t rows N u a n col coloff = Some r" by auto
  then have "\<not> (n < N \<and> u \<noteq> [] \<and> length u < elt_width t \<and> coloff < rows \<and> col * rows + coloff \<le> length (vdata a))"
  proof (rule fast_loop.raw_induct [rotated, where P = "\<lambda>t rows N u a n col coloff r. \<not> (n < N \<and> u \<noteq> [] \<and> length u < elt_width t \<and> coloff < rows \<and> col * rows + coloff \<le> length (vdata a))"])
    fix loop t rows N u a n col coloff r
    assume IH: "\<And>t rows N u a n col coloff r. loop t rows N u a n col coloff = Some r \<Longrightarrow>
        \<not> (n < N \<and> u \<noteq> [] \<and> length u < elt_width t \<and> coloff < rows \<and> col * rows + coloff \<le> length (vdata (a :: varr)))"
      and body: "(if n < N \<and> u \<noteq> [] then let ncopy = min (min (N - n) (length u div elt_width t)) (rows - coloff); p = col * rows + coloff in
          if p + ncopy > length (vdata a) then Some (Inl (OutOfRange ''getcol: column out of range''))
          else let a' = a\<lparr>vdata := take p (vdata a) @ split_elts t ncopy u @ drop (p + ncopy) (vdata a)\<rparr>; u' = drop (elt_width t * ncopy) u in
            if coloff + ncopy = rows then loop t rows N u' a' (n + ncopy) (col + 1) 0 else loop t rows N u' a' (n + ncopy) col coloff
          else Some (Inr (u, a, n))) = Some r"
    show "\<not> (n < N \<and> u \<noteq> [] \<and> length u < elt_width t \<and> coloff < rows \<and> col * rows + coloff \<le> length (vdata a))"
    proof
      assume h: "n < N \<and> u \<noteq> [] \<and> length u < elt_width t \<and> coloff < rows \<and> col * rows + coloff \<le> length (vdata a)"
      then have "loop t rows N u a n col coloff = Some r" using body by (simp add: Let_def)
      with IH h show False by blast
    qed
  qed
  then show False using assms by simp
qed

end
