(* ===== verification/Requests.thy ===== *)
theory Requests
  imports Decode_Value
begin

text \<open>
  Requests and responses on their way (\<open>sendReq\<close> and \<open>sendRsp\<close> of \<open>src/src/msg_handler.cpp\<close>, \<open>ReqState\<close> and \<open>RspState\<close> of
  \<open>src/src/interp_ctx.hpp\<close> and \<open>src/src/interp_ctx.cpp\<close>). A request is an expression and the list of the variables it needs, written one after the other into chunks; the receiver
  keeps the state between chunks. The main results are that a request and a response are put together again from their chunks, as long as no
  chunk ends inside a piece of a value; a value that fits into one chunk is always such.
\<close>

section \<open>Sending\<close>

datatype MsgType = REQ | RSP | APPEND | APPEND_VECTOR

fun msg_number :: "MsgType \<Rightarrow> nat" where
  "msg_number REQ = 0" | "msg_number RSP = 1" | "msg_number APPEND = 2" | "msg_number APPEND_VECTOR = 3"

text \<open>The encoder after everything has been written; \<open>None\<close> when writing a string does not end.\<close>

definition req_encoder :: "nat \<Rightarrow> nat \<Rightarrow> E \<Rightarrow> (string \<times> val) list \<Rightarrow> encoder option res" where
  "req_encoder reqid sourceid e boundvars =
     bindR (code_items e) (\<lambda>is. bindR (writeValue (VList boundvars)) (\<lambda>ps.
       Inr (put_items (is @ concat ps) (mk_encoder (msg_number REQ) reqid sourceid))))"

definition rsp_encoder :: "nat \<Rightarrow> nat \<Rightarrow> val \<Rightarrow> encoder option res" where
  "rsp_encoder reqid sourceid rsp =
     bindR (writeValue rsp) (\<lambda>ps. Inr (put_items (concat ps) (mk_encoder (msg_number RSP) reqid sourceid)))"

definition sendReq :: "nat \<Rightarrow> nat \<Rightarrow> nat \<Rightarrow> E \<Rightarrow> (string \<times> val) list \<Rightarrow> byte list list option res" where
  "sendReq peerid reqid sourceid e boundvars =
     (if any_of (\<lambda>v. \<not> isTransmissible v) (VList boundvars) then Inl (RangeError ''untransmissible type'')
      else if peerid = 0 then Inl (RangeError ''send request failed: no connection to peer'')
      else bindR (req_encoder reqid sourceid e boundvars) (\<lambda>ec. Inr (map_option (\<lambda>x. sent (enc_flush x)) ec)))"

definition sendRsp :: "nat \<Rightarrow> nat \<Rightarrow> val \<Rightarrow> byte list list option res" where
  "sendRsp reqid sourceid rsp =
     bindR (rsp_encoder reqid sourceid rsp) (\<lambda>ec. Inr (map_option (\<lambda>x. sent (enc_flush_end x)) ec))"

section \<open>Receiving\<close>

record req = req_state +
  rq_reqid :: nat
  rq_sourceid :: nat
  valstack :: "vstate list"
  valstack_idx :: nat
  rq_time :: int

definition mk_req :: "nat \<Rightarrow> nat \<Rightarrow> int \<Rightarrow> req" where
  "mk_req reqid sourceid now =
     req_state.extend mk_req_state \<lparr>rq_reqid = reqid, rq_sourceid = sourceid, valstack = [], valstack_idx = 0, rq_time = now\<rparr>"

text \<open>The order of elements, the content of fresh memory and the order of evaluation are parameters, as in the theories before.\<close>

record env =
  e_cmp :: "elt \<Rightarrow> elt \<Rightarrow> bool"
  e_junk :: "nat \<Rightarrow> elt"
  e_lr :: bool

definition read_values :: "env \<Rightarrow> byte list \<Rightarrow> req \<Rightarrow> req res option" where
  "read_values w buf s =
     (case readValue (e_cmp w) (e_junk w) buf (valstack s) (valstack_idx s) of None \<Rightarrow> None
      | Some r \<Rightarrow> liftR r (\<lambda>(ss, i).
          let s' = s\<lparr>valstack := ss, valstack_idx := i\<rparr> in
          liftR (stack_at ss 0) (\<lambda>v. Some (Inr (if vn v = vexp v then s'\<lparr>rq_state := CTX_REQ_DONE\<rparr> else s')))))"

definition readData :: "env \<Rightarrow> byte list \<Rightarrow> req \<Rightarrow> req res option" where
  "readData w buf s =
     (case rq_state s of CTX_REQ_VALUE \<Rightarrow> read_values w buf s
      | CTX_REQ_DONE \<Rightarrow> Some (Inl (LogicError ''readData: unknown CTX state''))
      | _ \<Rightarrow> liftR (read_request_code (e_lr w) buf s) (\<lambda>(s', r).
          if rq_state s' = CTX_REQ_VALUE then read_values w r s' else Some (Inr s')))"

datatype IncomingRspState = CTX_RSP_IDLE | CTX_RSP | CTX_RSP_DONE

record 'f rsp_state =
  rs_ip :: string
  rs_port :: int
  rs_peerid :: nat
  rs_name :: string
  rs_state :: IncomingRspState
  rs_idx :: nat
  rs_stack :: "vstate list"
  rs_time :: int
  rs_future :: 'f

definition mk_rsp :: "string \<Rightarrow> int \<Rightarrow> nat \<Rightarrow> string \<Rightarrow> int \<Rightarrow> 'f \<Rightarrow> 'f rsp_state" where
  "mk_rsp ip port peerid name now f =
     \<lparr>rs_ip = ip, rs_port = port, rs_peerid = peerid, rs_name = name, rs_state = CTX_RSP_IDLE, rs_idx = 0, rs_stack = [], rs_time = now, rs_future = f\<rparr>"

definition rsp_readData :: "env \<Rightarrow> byte list \<Rightarrow> 'f rsp_state \<Rightarrow> 'f rsp_state res option" where
  "rsp_readData w buf s0 =
     (let s = (if rs_state s0 = CTX_RSP_IDLE then s0\<lparr>rs_state := CTX_RSP\<rparr> else s0) in
      case readValue (e_cmp w) (e_junk w) buf (rs_stack s) (rs_idx s) of None \<Rightarrow> None
      | Some r \<Rightarrow> liftR r (\<lambda>(ss, i).
          let s' = s\<lparr>rs_stack := ss, rs_idx := i\<rparr> in
          liftR (stack_at ss 0) (\<lambda>v. Some (Inr (if vn v \<ge> vexp v then s'\<lparr>rs_state := CTX_RSP_DONE\<rparr> else s')))))"

text \<open>Buffer after buffer.\<close>

fun req_buffers :: "env \<Rightarrow> byte list list \<Rightarrow> req \<Rightarrow> req res option" where
  "req_buffers w [] s = Some (Inr s)"
| "req_buffers w (u # us) s = (case readData w u s of None \<Rightarrow> None | Some r \<Rightarrow> liftR r (req_buffers w us))"

section \<open>Chunks that end between pieces\<close>

text \<open>A piece is kept together: it is appended to the chunk, or begins the next one.\<close>

definition kept :: "item list \<Rightarrow> encoder \<Rightarrow> encoder \<Rightarrow> bool" where
  "kept p e e' \<longleftrightarrow>
     ehead e' = ehead e \<and>
     (sent e' = sent e \<and> ebuf e' = ebuf e @ flat_items p \<or> sent e' = sent e @ [ebuf e] \<and> ebuf e' = ehead e @ flat_items p)"

fun whole :: "item list list \<Rightarrow> encoder \<Rightarrow> bool" where
  "whole [] e \<longleftrightarrow> True"
| "whole (p # ps) e \<longleftrightarrow> (case put_items p e of None \<Rightarrow> False | Some e' \<Rightarrow> kept p e e' \<and> whole ps e')"

lemma put_items_append: "put_items (xs @ ys) e = (case put_items xs e of None \<Rightarrow> None | Some e' \<Rightarrow> put_items ys e')"
  by (induction xs arbitrary: e) (auto split: option.splits)

lemma kept_wf: "kept p e e' \<Longrightarrow> enc_wf e \<Longrightarrow> enc_wf e'"
  using append_ok(1) [of e] by (auto simp: kept_def enc_wf_def)

definition filled :: "item list list \<Rightarrow> bool" where
  "filled ps \<longleftrightarrow> list_all (\<lambda>p. flat_items p \<noteq> []) ps"

lemma filled_simps [simp]:
  "filled []" "filled (p # ps) \<longleftrightarrow> flat_items p \<noteq> [] \<and> filled ps" "filled (ps @ qs) \<longleftrightarrow> filled ps \<and> filled qs"
  by (simp_all add: filled_def)

lemma whole_groups:
  assumes "whole ps e" "enc_wf e" "filled ps"
  shows "\<exists>e' g G. put_items (concat ps) e = Some e' \<and> enc_wf e' \<and> concat (g # G) = map flat_items ps \<and>
    payloads e' = butlast (payloads e) @ (last (payloads e) @ concat g) # map concat G \<and> list_all (\<lambda>h. concat h \<noteq> []) G"
  using assms
proof (induction ps arbitrary: e)
  case Nil
  then show ?case by (intro exI [of _ e] exI [of _ "[]"]) (simp add: payloads_def)
next
  case (Cons p ps)
  then obtain e1 where e1: "put_items p e = Some e1" "kept p e e1" "whole ps e1" by (auto split: option.splits)
  have wf1: "enc_wf e1" by (rule kept_wf [OF e1(2) Cons.prems(2)])
  obtain e' g G where r: "put_items (concat ps) e1 = Some e'" "enc_wf e'" "concat (g # G) = map flat_items ps"
    "payloads e' = butlast (payloads e1) @ (last (payloads e1) @ concat g) # map concat G" "list_all (\<lambda>h. concat h \<noteq> []) G"
    using Cons.IH [OF e1(3) wf1] Cons.prems(3) by auto
  have put: "put_items (concat (p # ps)) e = Some e'" using e1(1) r(1) by (simp add: put_items_append)
  have lens: "24 \<le> length (ebuf e)" "length (ehead e) = 24" using enc_wf_length [OF Cons.prems(2)] Cons.prems(2) by (auto simp: enc_wf_def)
  show ?case
  proof (cases "sent e1 = sent e")
    case True
    then have "ebuf e1 = ebuf e @ flat_items p" using e1(2) by (auto simp: kept_def)
    then show ?thesis using put r lens True
      by (intro exI [of _ e'] exI [of _ "flat_items p # g"] exI [of _ G]) (simp add: payloads_def)
  next
    case False
    then have "sent e1 = sent e @ [ebuf e]" "ebuf e1 = ehead e @ flat_items p" using e1(2) by (auto simp: kept_def)
    then show ?thesis using put r lens Cons.prems(3)
      by (intro exI [of _ e'] exI [of _ "[]"] exI [of _ "(flat_items p # g) # G"]) (simp add: payloads_def butlast_append)
  qed
qed

text \<open>What fits into the chunk is written without a new one.\<close>

lemma put_small: "enc_offset e + length (flat_items is) + 16 < CHUNKSZ \<Longrightarrow> put_items is e = Some (e\<lparr>ebuf := ebuf e @ flat_items is\<rparr>)"
proof (induction "is" arbitrary: e)
  case (Cons i "is")
  have "put_item i e = Some (e\<lparr>ebuf := ebuf e @ flat_item i\<rparr>)"
  proof (cases i)
    case (Chars s)
    then show ?thesis using Cons.prems chars_loop_fits [of s e] by simp
  qed (use Cons.prems in \<open>simp_all add: put_fixed_def enc_room_def\<close>)
  then show ?case using Cons.IH [of "e\<lparr>ebuf := ebuf e @ flat_item i\<rparr>"] Cons.prems by (simp add: enc_offset_def)
qed simp

lemma whole_small: "enc_offset e + length (flat_items (concat ps)) + 16 < CHUNKSZ \<Longrightarrow> whole ps e"
proof (induction ps arbitrary: e)
  case (Cons p ps)
  have "put_items p e = Some (e\<lparr>ebuf := ebuf e @ flat_items p\<rparr>)" using Cons.prems by (intro put_small) simp
  then show ?case using Cons.IH [of "e\<lparr>ebuf := ebuf e @ flat_items p\<rparr>"] Cons.prems by (simp add: kept_def enc_offset_def)
qed simp

lemma filled_list: "(\<And>x. x \<in> set l \<Longrightarrow> filled (snd x)) \<Longrightarrow> filled (list_pieces l)"
proof (induction l)
  case (Cons x l)
  then have "filled (snd x)" "filled (list_pieces l)" by simp_all
  then show ?case by (cases x) (simp add: list_pieces_def named_pieces_def str_pieces_def del: put_le.simps)
qed (simp add: list_pieces_def del: put_le.simps)

lemma filled_int: "filled (int_pieces xs)" and filled_str: "filled (str_pieces s)"
  by (simp_all add: int_pieces_def str_pieces_def del: put_le.simps)

lemma filled_names: "filled (convertToList ns)"
  unfolding convertToList_def by (intro filled_list) (auto intro!: filled_list filled_str)

lemma filled_array: "list_all (elt_ok t) (vdata a) \<Longrightarrow> filled (array_pieces k a)"
proof -
  assume e: "list_all (elt_ok t) (vdata a)"
  have "filled (list_pieces [('''', int_pieces (vdim a)), ('''', convertToList (vnames a)), ('''', int_pieces (map (\<lambda>b. if b then 1 else 0) (vflags a)))])"
    by (intro filled_list) (auto simp: filled_int filled_names)
  moreover have "filled (map put_elt (vdata a))" using e elt_bytes_not_Nil by (fastforce simp: list_all_iff filled_def)
  ultimately show ?thesis by (simp add: array_pieces_def del: put_le.simps)
qed

lemma pieces_not_Nil: "val_ok cmp v \<Longrightarrow> \<exists>ps. writeValue v = Inr ps \<and> filled ps"
proof (induction v rule: writeValue.induct)
  case (1 l)
  have "\<exists>p. writeValue v = Inr p \<and> filled p" if "(n, v) \<in> set l" for n v
    using 1(1) [OF that refl] 1(2) that by (auto simp: list_all_iff)
  then obtain ps where ps: "foldR (\<lambda>(n, v) qs. bindR (writeValue v) (\<lambda>p. Inr (qs @ [(n, p)]))) l [] = Inr ps"
    "list_all2 (\<lambda>(n, v) (m, p). n = m \<and> filled p) l ps" using write_list [of l writeValue "\<lambda>v p. filled p" "[]"] by auto
  have "filled (snd x)" if "x \<in> set ps" for x using ps(2) that by (auto simp: list_all2_conv_all_nth in_set_conv_nth case_prod_beta)
  then show ?case using ps(1) filled_list [of ps] by simp
next
  case (4 t a)
  then have "filled (array_pieces (vt_array t) a)" by (intro filled_array [of t]) (simp add: varr_ok_def)
  then show ?case by (simp add: room_first_def array_pieces_def del: put_le.simps)
next
  case (5 a i)
  then show ?case using filled_array [of ADouble a 2] filled_array [of ATime i 4] by (simp add: varr_ok_def del: put_le.simps)
qed (auto simp: filled_int filled_str named_pieces_def simp del: put_le.simps)

section \<open>When the list of variables is complete\<close>

text \<open>The list at the bottom of the stack is complete exactly when the index is back at zero.\<close>

definition top_inv :: "nat \<Rightarrow> vstate list \<Rightarrow> nat \<Rightarrow> bool" where
  "top_inv N ss idx \<longleftrightarrow>
     ss \<noteq> [] \<and> idx \<le> length ss \<and> (\<exists>l. vval (hd ss) = VList l) \<and> vexp (hd ss) = N \<and> vn (hd ss) \<le> N \<and> (idx = 0 \<longleftrightarrow> vn (hd ss) = N)"

fun after :: "outcome \<Rightarrow> vstate list \<times> nat" where
  "after (Loop u ss i) = (ss, i)"
| "after (Return ss i) = (ss, i)"

text \<open>A pass above the bottom leaves the bottom as it is.\<close>

definition bottom_kept :: "vstate list \<Rightarrow> outcome \<Rightarrow> bool" where
  "bottom_kept ss q \<longleftrightarrow> (case after q of (ss', i) \<Rightarrow> ss' \<noteq> [] \<and> hd ss' = hd ss \<and> 0 < i \<and> i \<le> length ss')"

lemma above_keep:
  assumes "2 \<le> idx" "idx \<le> length ss"
  shows "bottom_kept ss (Return (ss[idx - 1 := x]) idx)" "bottom_kept ss (Loop u (ss[idx - 1 := x]) idx)" "bottom_kept ss (Loop u (ss[idx - 1 := x]) (idx - 1))"
    "bottom_kept ss (Loop u (butlast (ss[idx - 1 := x])) (idx - 1))" "idx < length ss \<Longrightarrow> bottom_kept ss (Loop u (butlast (ss[idx - 1 := x])) idx)"
    "bottom_kept ss (Loop u ss idx)" "bottom_kept ss (Loop u ss (idx - 1))" "bottom_kept ss (Return ss idx)"
proof -
  have ss: "ss \<noteq> []" using assms by auto
  obtain k where "idx = Suc (Suc k)" using assms(1) by (metis add_2_eq_Suc le_Suc_ex)
  then have u: "ss[idx - 1 := x] \<noteq> []" "hd (ss[idx - 1 := x]) = hd ss" "length (ss[idx - 1 := x]) = length ss"
    using ss by (cases ss; simp)+
  have b: "butlast (ss[idx - 1 := x]) \<noteq> []" "hd (butlast (ss[idx - 1 := x])) = hd ss"
    using assms u by (auto simp: hd_conv_nth nth_butlast simp flip: length_greater_0_conv)
  show "bottom_kept ss (Return (ss[idx - 1 := x]) idx)" "bottom_kept ss (Loop u (ss[idx - 1 := x]) idx)" "bottom_kept ss (Loop u (ss[idx - 1 := x]) (idx - 1))"
    "bottom_kept ss (Loop u (butlast (ss[idx - 1 := x])) (idx - 1))" "idx < length ss \<Longrightarrow> bottom_kept ss (Loop u (butlast (ss[idx - 1 := x])) idx)"
    "bottom_kept ss (Loop u ss idx)" "bottom_kept ss (Loop u ss (idx - 1))" "bottom_kept ss (Return ss idx)"
    using ss u b assms by (auto simp: bottom_kept_def)
qed

lemma liftR_eq: "liftR r f = Some (Inr y) \<longleftrightarrow> (\<exists>x. r = Inr x \<and> f x = Some (Inr y))"
  by (auto simp: liftR_def split: sum.splits)

lemma stack_at_eq: "stack_at ss i = Inr x \<longleftrightarrow> i < length ss \<and> x = ss ! i"
  by (auto simp: stack_at_def)

lemma array_above:
  assumes "2 \<le> idx" "idx \<le> length ss" "readArray cmp junk t a vs ss idx u = Some (Inr q)"
  shows "bottom_kept ss q"
  using assms(3) above_keep [OF assms(1,2)] unfolding readArray_def
  by (auto simp: liftR_eq Let_def split: if_splits option.splits)

lemma process_above:
  assumes "2 \<le> idx" "idx \<le> length ss" "process cmp junk u ss idx = Some (Inr q)"
  shows "bottom_kept ss q"
proof -
  note keep = above_keep [OF assms(1,2)]
  obtain vs where vs: "vs = ss ! (idx - 1)" by simp
  show ?thesis
  proof (cases "u = [] \<and> vn vs \<noteq> vexp vs \<and> idx = length ss")
    case True
    then show ?thesis using assms keep(8) by (auto simp: process_def stack_at_def vs split: if_splits)
  next
    case False
    then show ?thesis using assms keep array_above [OF assms(1,2)]
      by (cases "vval vs")
        (auto simp: process_def stack_at_def vs liftR_eq Let_def read_text_def bindR_eq_Inr split: if_splits)
  qed
qed

lemma process_top:
  assumes "top_inv N ss idx" "process cmp junk u ss idx = Some (Inr q)"
  shows "top_inv N (fst (after q)) (snd (after q))"
proof -
  obtain l where l: "vval (hd ss) = VList l" and top: "ss \<noteq> []" "idx \<le> length ss" "vexp (hd ss) = N" "vn (hd ss) \<le> N" "idx = 0 \<longleftrightarrow> vn (hd ss) = N"
    using assms(1) by (auto simp: top_inv_def)
  have "process cmp junk u ss 0 = Some (Inl UB)" by (simp add: process_def)
  then have "idx \<noteq> 0" using assms(2) by (cases idx) simp_all
  then consider "idx = 1" | "2 \<le> idx" by linarith
  then show ?thesis
  proof cases
    case 1
    obtain v vs where ss: "ss = v # vs" using top(1) by (cases ss) auto
    have "vn v < N" using top(4,5) 1 ss by simp
    then show ?thesis using assms(2) 1 l top(3)
      by (auto simp: process_def stack_at_def ss liftR_eq Let_def top_inv_def Suc_le_eq split: if_splits)
  next
    case 2
    have "bottom_kept ss q" by (rule process_above [OF 2 top(2) assms(2)])
    moreover have "vn (hd ss) \<noteq> N" using top(5) \<open>idx \<noteq> 0\<close> by simp
    ultimately show ?thesis using l top(3,4) by (auto simp: bottom_kept_def top_inv_def split: prod.splits)
  qed
qed

lemma pass_top:
  assumes "top_inv N ss idx" "one_pass cmp junk u ss idx = Some (Inr q)"
  shows "top_inv N (fst (after q)) (snd (after q))"
proof (cases "idx = length ss")
  case True
  have new: "top_inv N (ss @ [x]) (Suc idx)" for x
    using assms(1) True by (auto simp: top_inv_def)
  obtain u2 x inner where "(if inner then Some (Inr (Loop u2 (ss @ [x]) (idx + 1))) else process cmp junk u2 (ss @ [x]) (idx + 1)) = Some (Inr q)"
    using assms(2) True unfolding one_pass_def by (auto simp: liftR_eq bindR_eq_Inr)
  then show ?thesis using new [of x] process_top [of N "ss @ [x]" "Suc idx"] by (auto split: if_splits)
next
  case False
  then show ?thesis using assms process_top by (simp add: one_pass_def)
qed

lemma readValue_top:
  assumes "readValue cmp junk u ss idx = Some (Inr (ss', i))" "top_inv N ss idx"
  shows "top_inv N ss' i"
proof -
  have "top_inv N ss idx \<longrightarrow> (\<forall>ss' i. r = Inr (ss', i) \<longrightarrow> top_inv N ss' i)" if "readValue cmp junk u ss idx = Some r" for r
  proof (rule readValue.raw_induct [OF _ that], intro impI allI)
    fix rec and cmp :: "elt \<Rightarrow> elt \<Rightarrow> bool" and junk u ss idx r ss' i
    assume ih: "\<And>cmp junk u ss idx r. rec cmp junk u ss idx = Some r \<Longrightarrow> top_inv N ss idx \<longrightarrow> (\<forall>ss' i. r = Inr (ss', i) \<longrightarrow> top_inv N ss' i)"
      and body: "(if u \<noteq> [] \<or> (idx > 0 \<and> idx < length ss) then
        (case one_pass cmp junk u ss idx of None \<Rightarrow> None
         | Some r \<Rightarrow> (case r of Inl e \<Rightarrow> Some (Inl e)
             | Inr q \<Rightarrow> (case q of Return ss' i \<Rightarrow> Some (Inr (ss', i)) | Loop u' ss' i \<Rightarrow> rec cmp junk u' ss' i)))
      else Some (Inr (ss, idx))) = Some r" and top: "top_inv N ss idx" and r: "r = Inr (ss', i)"
    show "top_inv N ss' i"
    proof (cases "u \<noteq> [] \<or> (idx > 0 \<and> idx < length ss)")
      case True
      then obtain q where q: "one_pass cmp junk u ss idx = Some (Inr q)" "(case q of Return ss' i \<Rightarrow> Some (Inr (ss', i)) | Loop u' ss' i \<Rightarrow> rec cmp junk u' ss' i) = Some r"
        using body r by (auto split: option.splits sum.splits)
      then show ?thesis using pass_top [OF top q(1)] ih r by (cases q) auto
    next
      case False
      then have "r = Inr (ss, idx)" using body by (simp only: if_False) simp
      then show ?thesis using top r by simp
    qed
  qed
  then show ?thesis using assms by blast
qed

text \<open>Nothing more can be read once the index is zero.\<close>

lemma zero_stuck: "ss \<noteq> [] \<Longrightarrow> u \<noteq> [] \<Longrightarrow> readValue cmp junk u ss 0 = Some (Inl UB)"
  by (subst readValue.simps) (simp add: one_pass_def process_def)

lemma zero_ends:
  assumes "ss \<noteq> []" "list_all (\<lambda>u. u \<noteq> []) us" "us \<noteq> []"
  shows "read_buffers cmp junk us ss 0 = Some (Inl UB)"
  using assms zero_stuck [OF assms(1)] by (cases us) auto

text \<open>The buffers with the values: the request is done with the last of them, and not before.\<close>

lemma value_phase:
  assumes "top_inv N (valstack s) (valstack_idx s)" "rq_state s = CTX_REQ_VALUE" "list_all (\<lambda>u. u \<noteq> []) us"
    and "read_buffers (e_cmp w) (e_junk w) (u # us) (valstack s) (valstack_idx s) = Some (Inr (ss', 0))"
  shows "req_buffers w (u # us) s = Some (Inr (s\<lparr>valstack := ss', valstack_idx := 0, rq_state := CTX_REQ_DONE\<rparr>))"
  using assms
proof (induction us arbitrary: s u)
  case Nil
  then have r: "readValue (e_cmp w) (e_junk w) u (valstack s) (valstack_idx s) = Some (Inr (ss', 0))" by (auto split: option.splits sum.splits)
  have "top_inv N ss' 0" by (rule readValue_top [OF r Nil(1)])
  then show ?case using r Nil(2) by (auto simp: readData_def read_values_def stack_at_def top_inv_def hd_conv_nth Let_def)
next
  case (Cons v us)
  then obtain ss i where r: "readValue (e_cmp w) (e_junk w) u (valstack s) (valstack_idx s) = Some (Inr (ss, i))"
    and rest: "read_buffers (e_cmp w) (e_junk w) (v # us) ss i = Some (Inr (ss', 0))" by (auto split: option.splits sum.splits)
  have top: "top_inv N ss i" by (rule readValue_top [OF r Cons.prems(1)])
  have "i \<noteq> 0"
  proof
    assume "i = 0"
    then show False using zero_ends [of ss "v # us"] rest top Cons.prems(3) by (simp add: top_inv_def del: read_buffers.simps)
  qed
  then have "readData w u s = Some (Inr (s\<lparr>valstack := ss, valstack_idx := i\<rparr>))"
    using r top Cons.prems(2) by (auto simp: readData_def read_values_def stack_at_def top_inv_def hd_conv_nth Let_def)
  then show ?case using Cons.IH [of "s\<lparr>valstack := ss, valstack_idx := i\<rparr>" v] top rest Cons.prems(2,3) by simp
qed

text \<open>The head of the list starts the values.\<close>

lemma head_values:
  assumes "n < 2 ^ 64"
  shows "readValue cmp junk (head_piece 10 n @ u) [] 0 =
    readValue cmp junk u [\<lparr>vval = VList [], vexp = n, vn = 0, vstage = 0\<rparr>] (if n = 0 then 0 else 1)"
proof -
  have mk: "make_value 10 = Inr (VList [])" by (simp add: make_value_def)
  have inner: "(if isArrayVal 10 then Inr True else if n = 0 then Inr False else bindR (isAtomicVal 10) (\<lambda>b. Inr (\<not> b))) = (Inr (n \<noteq> 0) :: bool res)"
    by (simp add: isArrayVal_def isAtomicVal_def)
  have "one_pass cmp junk (head_piece 10 n @ u) [] 0 = Some (Inr (Loop u [\<lparr>vval = VList [], vexp = n, vn = 0, vstage = 0\<rparr>] (if n = 0 then 0 else 1)))"
    using push_pass [OF _ assms mk inner, of cmp junk u "[]"] by (auto simp: process_def stack_at_def simp del: put_le.simps)
  moreover have "head_piece 10 n @ u \<noteq> []" by simp
  ultimately show ?thesis by (subst readValue.simps) (simp del: put_le.simps)
qed

lemma value_start:
  assumes "n < 2 ^ 64" "rq_state s = CTX_REQ_VALUE" "valstack s = []" "valstack_idx s = 0"
  shows "req_buffers w ((head_piece 10 n @ u) # us) s =
    req_buffers w (u # us) (s\<lparr>valstack := [\<lparr>vval = VList [], vexp = n, vn = 0, vstage = 0\<rparr>], valstack_idx := (if n = 0 then 0 else 1)\<rparr>)"
proof -
  define s1 where "s1 = s\<lparr>valstack := [\<lparr>vval = VList [], vexp = n, vn = 0, vstage = 0\<rparr>], valstack_idx := (if n = 0 then 0 else 1)\<rparr>"
  have "s1\<lparr>valstack := x, valstack_idx := y\<rparr> = s\<lparr>valstack := x, valstack_idx := y\<rparr>" for x y by (simp add: s1_def)
  moreover have "readValue (e_cmp w) (e_junk w) (head_piece 10 n @ u) (valstack s) (valstack_idx s) = readValue (e_cmp w) (e_junk w) u (valstack s1) (valstack_idx s1)"
    using head_values [OF assms(1), of "e_cmp w" "e_junk w" u] assms(3,4) by (simp add: s1_def del: put_le.simps append_assoc)
  ultimately have "read_values w (head_piece 10 n @ u) s = read_values w u s1" by (simp only: read_values_def)
  moreover have "rq_state s1 = CTX_REQ_VALUE" using assms(2) by (simp add: s1_def)
  ultimately show ?thesis using assms(2) by (simp add: readData_def flip: s1_def del: put_le.simps append_assoc)
qed

text \<open>The chunks up to the end of the code.\<close>

lemma code_phase:
  assumes "rq_state s = CTX_REQ_CODE" "codeBuf s @ concat pre @ q = code" "codeLen s = length code" "q \<noteq> []"
    and "readCode_buffer (e_lr w) code = Inr e"
  shows "req_buffers w (pre @ (q @ u) # us) s =
    req_buffers w (u # us) (s\<lparr>rq_code := Some e, codeBuf := [], codeLen := 0, rq_state := CTX_REQ_VALUE\<rparr>)"
  using assms
proof (induction pre arbitrary: s)
  case Nil
  have "read_code (e_lr w) (q @ u) s = Inr (s\<lparr>rq_code := Some e, codeBuf := [], codeLen := 0, rq_state := CTX_REQ_VALUE\<rparr>, u)"
    using Nil by (intro read_code_complete [where code = code]) auto
  then show ?case using Nil(1) by (simp add: readData_def read_request_code_def read_idle_def)
next
  case (Cons c pre)
  have "length (codeBuf s) + length c < codeLen s" using Cons.prems(2-4) by auto
  then have "readData w c s = Some (Inr (s\<lparr>codeBuf := codeBuf s @ c\<rparr>))"
    using Cons.prems(1) read_code_grow [of s c] by (simp add: readData_def read_request_code_def read_idle_def)
  then show ?case using Cons.IH [of "s\<lparr>codeBuf := codeBuf s @ c\<rparr>"] Cons.prems by simp
qed

lemma idle_phase:
  assumes "n < 2 ^ 64" "rq_state s = CTX_REQ_IDLE"
  shows "req_buffers w ((put_u64 n @ u) # us) s = req_buffers w (u # us) (s\<lparr>codeLen := n, rq_state := CTX_REQ_CODE\<rparr>)"
  using assms by (simp add: readData_def read_request_code_def read_idle_def del: put_le.simps)

lemma ok_transmissible: "val_ok cmp v \<Longrightarrow> \<not> any_of (\<lambda>v. \<not> isTransmissible v) v"
proof (induction cmp v rule: val_ok.induct)
  case (4 cmp t a)
  then show ?case by (cases t) (simp_all add: isTransmissible_def)
qed (auto simp: list_all_iff list_ex_iff isTransmissible_def)

section \<open>Requests are put together again\<close>

text \<open>No chunk ends inside a piece of a value, and the list of values begins in the chunk in which the code ends.\<close>

definition cut_between :: "nat \<Rightarrow> nat \<Rightarrow> E \<Rightarrow> (string \<times> val) list \<Rightarrow> bool" where
  "cut_between reqid sourceid e l =
     (case code_items e of Inl _ \<Rightarrow> False
      | Inr is \<Rightarrow> fits is (mk_encoder (msg_number REQ) reqid sourceid) \<and>
          (case put_items is (mk_encoder (msg_number REQ) reqid sourceid) of None \<Rightarrow> False
           | Some e1 \<Rightarrow> ebuf e1 \<noteq> ehead e1 \<and> enc_offset e1 + 16 < CHUNKSZ \<and>
               (case writeValue (VList l) of Inl _ \<Rightarrow> False | Inr ps \<Rightarrow> whole ps e1)))"

text \<open>The chunks that hold the code: the length, the code, and the last of them not empty.\<close>

lemma code_chunks:
  assumes "fits (u64_item n # is) (mk_encoder m r s)" "n = length (flat_items is)" "put_items (u64_item n # is) (mk_encoder m r s) = Some e1" "ebuf e1 \<noteq> ehead e1"
  shows "enc_wf e1 \<and> (\<exists>pre q. payloads e1 = (case pre of [] \<Rightarrow> [put_u64 n @ q] | p # ps \<Rightarrow> (put_u64 n @ p) # ps @ [q]) \<and> concat pre @ q = flat_items is \<and> (pre = [] \<or> q \<noteq> []))"
proof -
  define e0 where "e0 = put_fixed (put_u64 n) (mk_encoder m r s)"
  have e0: "enc_wf e0" "payloads e0 = [put_u64 n]" using put_fixed_ok(1) [OF mk_encoder_wf(1), of "put_u64 n" m r s]
    by (simp_all add: e0_def, simp add: put_fixed_def mk_encoder_def head_bytes_def enc_offset_def INIT_OFFSET_def CHUNKSZ_def payloads_def Let_def)
  obtain p where e1: "enc_wf e1" "concat (payloads e1) = put_u64 n @ flat_items is" "hd (payloads e1) = put_u64 n @ p"
    using put_items_ok [OF e0(1), of "is"] assms(1,3) e0(2) by (auto simp: e0_def)
  obtain ps where ps: "payloads e1 = (put_u64 n @ p) # ps" using e1(3) by (cases "payloads e1") (simp_all add: payloads_def)
  have last: "last (payloads e1) \<noteq> []"
  proof
    assume "last (payloads e1) = []"
    then have "length (ebuf e1) \<le> 24" by (simp add: payloads_def)
    then have "ebuf e1 = ehead e1" using e1(1) by (auto simp: enc_wf_def)
    then show False using assms(4) by simp
  qed
  show ?thesis
  proof (cases ps rule: rev_cases)
    case Nil
    then show ?thesis using e1 ps by (intro conjI exI [of _ "[]"] exI [of _ p]) simp_all
  next
    case (snoc ms q)
    then show ?thesis using e1 ps last by (intro conjI exI [of _ "p # ms"] exI [of _ q]) simp_all
  qed
qed

lemma code_received:
  assumes "sendable e" "writeCode e = Inr is" "length (flat_items is) < 2 ^ 32"
  shows "code_items e = Inr (u64_item (length (flat_items is)) # is)" "readCode_buffer True (flat_items is) = Inr (received e)" "8 \<le> length (flat_items is)"
proof -
  obtain js where js: "writeCode e = Inr js" "8 \<le> length (flat_items js)" "length (flat_items js) < 2 ^ 32 \<Longrightarrow> codeLength e = Inr (length (flat_items js))"
    "\<And>k r. length (flat_items js) \<le> 8 * k \<Longrightarrow> readCode True k (flat_items js @ r) = Inr (received e, r)"
    using code_all [OF assms(1)] by (auto elim: code_okE)
  show "readCode_buffer True (flat_items is) = Inr (received e)"
    using js(1) assms(2) js(4) [of "length (flat_items is) + 1" "[]"] by (simp add: readCode_buffer_def)
  show "code_items e = Inr (u64_item (length (flat_items is)) # is)" "8 \<le> length (flat_items is)"
    using js(1-3) assms(2,3) by (simp_all add: code_items_def)
qed

text \<open>The values after the code: the head of the list is in the chunk in which the code ends.\<close>

lemma value_chunks:
  assumes "enc_wf e1" "enc_offset e1 + 16 < CHUNKSZ" "val_ok cmp (VList l)" "writeValue (VList l) = Inr ps" "whole ps e1"
  shows "\<exists>e' g G st. put_items (concat ps) e1 = Some e' \<and>
    payloads e' = butlast (payloads e1) @ (last (payloads e1) @ head_piece 10 (length l) @ concat g) # map concat G \<and> list_all (\<lambda>h. concat h \<noteq> []) G \<and>
    read_buffers cmp junk ((head_piece 10 (length l) @ concat g) # map concat G) [] 0 = Some (Inr ([st], 0)) \<and> vval st = VList l"
proof -
  define p where "p = [Room, u64_item 10, u64_item (length l)]"
  define hd where "hd = head_piece 10 (length l)"
  obtain pl where pl: "length pl = length l" "ps = list_pieces pl"
    using assms(3,4) write_list [of l writeValue "\<lambda>v p. True" "[]"] written_reads [of cmp]
    by (fastforce simp: list_all_iff dest: list_all2_lengthD)
  then obtain qs where ps: "ps = p # qs" by (simp add: list_pieces_def p_def)
  define e2 where "e2 = e1\<lparr>ebuf := ebuf e1 @ hd\<rparr>"
  have put1: "put_items p e1 = Some e2"
    using assms(2) by (simp add: p_def hd_def e2_def enc_room_def put_fixed_def enc_offset_def del: put_le.simps)
  have fp: "flat_items p = hd" by (simp add: p_def hd_def del: put_le.simps)
  have wf2: "enc_wf e2" using append_ok(1) [OF assms(1)] by (simp add: e2_def)
  have "24 \<le> length (ebuf e1)" by (rule enc_wf_length [OF assms(1)])
  then have pay2: "payloads e2 = butlast (payloads e1) @ [last (payloads e1) @ hd]" by (simp add: payloads_def e2_def)
  have "filled ps" using pieces_not_Nil [OF assms(3)] assms(4) by simp
  then obtain e' g G where r: "put_items (concat qs) e2 = Some e'" "concat (g # G) = map flat_items qs"
    "payloads e' = butlast (payloads e2) @ (last (payloads e2) @ concat g) # map concat G" "list_all (\<lambda>h. concat h \<noteq> []) G"
    using whole_groups [OF _ wf2, of qs] assms(5) put1 ps by auto
  have cat: "concat ((hd # g) # G) = map flat_items ps @ []" using r(2) fp ps by simp
  have rd: "reads_as cmp junk (VList l) (map flat_items ps)" using written_reads [OF assms(3), of junk] assms(4) by simp
  obtain G' st where "concat G' = []" "vval st = VList l" "read_groups cmp junk ((hd # g) # G) [] (length ([] :: vstate list)) = read_groups cmp junk G' [st] 0"
    by (rule reads_asD [OF rd cat, of "[]"]) (auto intro: that simp del: read_buffers.simps)
  then have "read_buffers cmp junk ((hd @ concat g) # map concat G) [] 0 = Some (Inr ([st], 0))" using no_more [of G' cmp junk "[st]"] by simp
  then show ?thesis using put1 r pay2 ps \<open>vval st = VList l\<close> unfolding hd_def [symmetric]
    by (intro exI [of _ e'] exI [of _ g] exI [of _ G] exI [of _ st]) (simp add: put_items_append)
qed

lemma request_arrives:
  assumes "sendable e" "writeCode e = Inr is" "length (flat_items is) < 2 ^ 32" "val_ok (e_cmp w) (VList l)" "e_lr w" "peerid \<noteq> 0"
    and "cut_between reqid sourceid e l"
  shows "\<exists>chunks s. sendReq peerid reqid sourceid e l = Inr (Some chunks) \<and>
    req_buffers w (map (drop 24) chunks) (mk_req reqid sourceid now) = Some (Inr s) \<and>
    rq_state s = CTX_REQ_DONE \<and> rq_code s = Some (received e) \<and> length (valstack s) = 1 \<and> vval (hd (valstack s)) = VList l \<and>
    rq_reqid s = reqid \<and> rq_sourceid s = sourceid"
proof -
  define n where "n = length (flat_items is)"
  define N where "N = length l"
  note code = code_received [OF assms(1-3)]
  obtain e1 ps where e1: "fits (u64_item n # is) (mk_encoder (msg_number REQ) reqid sourceid)" "put_items (u64_item n # is) (mk_encoder (msg_number REQ) reqid sourceid) = Some e1"
    "ebuf e1 \<noteq> ehead e1" "enc_offset e1 + 16 < CHUNKSZ" and ps: "writeValue (VList l) = Inr ps" "whole ps e1"
    using assms(7) code(1) unfolding cut_between_def n_def by (auto split: option.splits sum.splits simp del: fits.simps put_items.simps writeValue.simps)
  obtain pre q where wf: "enc_wf e1" and pq: "payloads e1 = (case pre of [] \<Rightarrow> [put_u64 n @ q] | p # qs \<Rightarrow> (put_u64 n @ p) # qs @ [q])"
    "concat pre @ q = flat_items is" "pre = [] \<or> q \<noteq> []"
    using code_chunks [OF e1(1) n_def e1(2,3)] by auto
  have q: "q \<noteq> []"
  proof
    assume "q = []"
    then have "flat_items is = []" using pq(2,3) by simp
    then show False using code(3) by (simp only: list.size)
  qed
  obtain e' g G st where v: "put_items (concat ps) e1 = Some e'"
    "payloads e' = butlast (payloads e1) @ (last (payloads e1) @ head_piece 10 N @ concat g) # map concat G" "list_all (\<lambda>h. concat h \<noteq> []) G"
    "read_buffers (e_cmp w) (e_junk w) ((head_piece 10 N @ concat g) # map concat G) [] 0 = Some (Inr ([st], 0))" "vval st = VList l"
    using value_chunks [OF wf e1(4) assms(4) ps, of "e_junk w"] unfolding N_def by blast
  have send: "sendReq peerid reqid sourceid e l = Inr (Some (sent (enc_flush e')))"
    using ok_transmissible [OF assms(4)] assms(6) code(1) ps(1) e1(2) v(1)
    by (simp add: sendReq_def req_encoder_def put_items_append n_def del: any_of.simps put_items.simps writeValue.simps append_Cons)
  have N64: "N < 2 ^ 64" using assms(4) by (simp add: N_def)
  define s1 where "s1 = (mk_req reqid sourceid now)\<lparr>codeLen := n, rq_state := CTX_REQ_CODE\<rparr>"
  define s2 where "s2 = s1\<lparr>rq_code := Some (received e), codeBuf := [], codeLen := 0, rq_state := CTX_REQ_VALUE\<rparr>"
  define st0 where "st0 = \<lparr>vval = VList [], vexp = N, vn = 0, vstage = 0\<rparr>"
  define s3 where "s3 = s2\<lparr>valstack := [st0], valstack_idx := (if N = 0 then 0 else 1)\<rparr>"
  have req: "req_buffers w (map (drop 24) (sent (enc_flush e'))) (mk_req reqid sourceid now) = req_buffers w (pre @ (q @ head_piece 10 N @ concat g) # map concat G) s1"
  proof -
    have "map (drop 24) (sent (enc_flush e')) = payloads e'" by (simp add: enc_flush_def payloads_def)
    moreover have "n < 2 ^ 64" "rq_state (mk_req reqid sourceid now) = CTX_REQ_IDLE" using assms(3) by (simp_all add: n_def mk_req_def mk_req_state_def req_state.defs)
    ultimately show ?thesis using v(2) pq(1) idle_phase [of n "mk_req reqid sourceid now" w] unfolding s1_def
      by (cases pre) (simp_all del: put_le.simps req_buffers.simps)
  qed
  also have "\<dots> = req_buffers w ((head_piece 10 N @ concat g) # map concat G) s2"
    unfolding s2_def using assms(5) code(2) pq(2) q by (intro code_phase [where code = "flat_items is"]) (simp_all add: s1_def mk_req_def mk_req_state_def req_state.defs n_def)
  also have "\<dots> = req_buffers w (concat g # map concat G) s3"
    using value_start [OF N64, of s2 w "concat g" "map concat G"] by (simp add: s3_def st0_def s2_def s1_def mk_req_def mk_req_state_def req_state.defs)
  also have "\<dots> = Some (Inr (s3\<lparr>valstack := [st], valstack_idx := 0, rq_state := CTX_REQ_DONE\<rparr>))"
  proof (rule value_phase [where N = N])
    show "top_inv N (valstack s3) (valstack_idx s3)" by (simp add: top_inv_def s3_def st0_def)
    show "rq_state s3 = CTX_REQ_VALUE" by (simp add: s3_def s2_def)
    show "list_all (\<lambda>u. u \<noteq> []) (map concat G)" using v(3) by (simp add: list_all_iff)
    show "read_buffers (e_cmp w) (e_junk w) (concat g # map concat G) (valstack s3) (valstack_idx s3) = Some (Inr ([st], 0))"
      using v(4) head_values [OF N64, of "e_cmp w" "e_junk w" "concat g"] by (simp add: s3_def st0_def del: put_le.simps append_assoc)
  qed
  finally show ?thesis using send v(5) by (simp add: s3_def s2_def s1_def mk_req_def mk_req_state_def req_state.defs)
qed


text \<open>A request that fits into one chunk is always cut between pieces.\<close>

lemma small_cut_between:
  assumes "code_items e = Inr is" "is \<noteq> []" "length (flat_items is) > 0" "writeValue (VList l) = Inr ps" "length (flat_items is) + length (flat_items (concat ps)) < CHUNKSZ - 100"
  shows "cut_between reqid sourceid e l"
proof -
  define e0 where "e0 = mk_encoder (msg_number REQ) reqid sourceid"
  define e1 where "e1 = e0\<lparr>ebuf := ebuf e0 @ flat_items is\<rparr>"
  have off: "enc_offset e0 = 40" "ehead e0 = ebuf e0" by (simp_all add: e0_def mk_encoder_def head_bytes_def enc_offset_def INIT_OFFSET_def Let_def)
  have "enc_offset e0 + length (flat_items is) + 16 < CHUNKSZ" using assms(5) off by (simp add: CHUNKSZ_def)
  then have "put_items is e0 = Some e1" unfolding e1_def by (rule put_small)
  moreover have "fits is e0" using assms(5) off by (intro fits_small) (simp_all add: CHUNKSZ_def)
  moreover have o1: "enc_offset e1 = 40 + length (flat_items is)" using off(1) by (simp add: e1_def enc_offset_def)
  moreover have "whole ps e1" using assms(5) o1 by (intro whole_small) (simp add: CHUNKSZ_def)
  moreover have "ebuf e1 \<noteq> ehead e1" using assms(3) off(2) by (auto simp: e1_def)
  ultimately show ?thesis using assms(1,4,5) by (simp add: cut_between_def e0_def CHUNKSZ_def)
qed

definition example_env :: env where
  "example_env = \<lparr>e_cmp = (\<lambda>x y. True), e_junk = (\<lambda>k. EInt 0), e_lr = True\<rparr>"


section \<open>Responses\<close>

text \<open>A value that fits into one chunk.\<close>

lemma response_ok:
  assumes "val_ok (e_cmp w) v" "writeValue v = Inr ps" "length (flat_items (concat ps)) < CHUNKSZ - 60"
  shows "\<exists>s. sendRsp reqid sourceid v = Inr (Some [head_bytes (msg_number RSP) reqid sourceid @ flat_items (concat ps)]) \<and>
    rsp_readData w (flat_items (concat ps)) (mk_rsp ip port peerid name now f) = Some (Inr s) \<and>
    rs_state s = CTX_RSP_DONE \<and> vval (hd (rs_stack s)) = v \<and> rs_future s = f"
proof -
  define e0 where "e0 = mk_encoder (msg_number RSP) reqid sourceid"
  have "enc_offset e0 = 40" by (simp add: e0_def mk_encoder_def head_bytes_def enc_offset_def INIT_OFFSET_def Let_def)
  then have "put_items (concat ps) e0 = Some (e0\<lparr>ebuf := ebuf e0 @ flat_items (concat ps)\<rparr>)" using assms(3) by (intro put_small) (simp add: CHUNKSZ_def)
  then have send: "sendRsp reqid sourceid v = Inr (Some [head_bytes (msg_number RSP) reqid sourceid @ flat_items (concat ps)])"
    using assms(2) by (simp add: sendRsp_def rsp_encoder_def e0_def enc_flush_end_def mk_encoder_def Let_def)
  have cat: "concat [map flat_items ps] = map flat_items ps @ []" by simp
  have rd: "reads_as (e_cmp w) (e_junk w) v (map flat_items ps)" using written_reads [OF assms(1), of "e_junk w"] assms(2) by simp
  obtain G' st where st: "concat G' = []" "vval st = v" "vexp st \<le> vn st"
    "read_groups (e_cmp w) (e_junk w) [map flat_items ps] [] (length ([] :: vstate list)) = read_groups (e_cmp w) (e_junk w) G' [st] 0"
    by (rule reads_asD [OF rd cat, of "[]"]) (auto intro: that simp del: read_buffers.simps)
  have "concat (map flat_items ps) = flat_items (concat ps)" by (induction ps) simp_all
  then have "readValue (e_cmp w) (e_junk w) (flat_items (concat ps)) [] 0 = Some (Inr ([st], 0))"
    using st(4) no_more [OF st(1), of "e_cmp w" "e_junk w" "[st]"] by (auto split: option.splits sum.splits)
  then show ?thesis using send st(2,3) by (simp add: rsp_readData_def mk_rsp_def stack_at_def Let_def)
qed

section \<open>Where the conditions fail\<close>

text \<open>When the code fills its chunk, the values are read from an empty buffer into an empty stack, whose first element is then looked at.\<close>

lemma code_fills_chunk:
  assumes "rq_state s = CTX_REQ_CODE" "codeBuf s @ q = code" "codeLen s = length code" "readCode_buffer (e_lr w) code = Inr e" "valstack s = []" "valstack_idx s = 0"
  shows "readData w q s = Some (Inl UB)"
proof -
  have "read_code (e_lr w) q s = Inr (s\<lparr>rq_code := Some e, codeBuf := [], codeLen := 0, rq_state := CTX_REQ_VALUE\<rparr>, [])"
    using assms by (intro read_code_complete [where code = code]) auto
  then show ?thesis using assms(1,5,6) by (simp add: readData_def read_request_code_def read_idle_def read_values_def readValue.simps stack_at_def liftR_def)
qed

text \<open>The response with an array without elements is taken as complete before its extents and names have been read.\<close>

lemma response_done_early:
  "\<exists>s. rsp_readData w (head_piece 2 0) (mk_rsp ip port peerid name now f) = Some (Inr s) \<and>
     rs_state s = CTX_RSP_DONE \<and> vval (hd (rs_stack s)) = VArr ADouble (empty_varr [0, 1]) \<and> rs_idx s = 1"
proof -
  have "one_pass (e_cmp w) (e_junk w) (head_piece 2 0 @ []) [] 0 = Some (Inr (Loop [] [\<lparr>vval = VArr ADouble (empty_varr [0, 1]), vexp = 0, vn = 0, vstage = 0\<rparr>] 1))"
    using push_pass [of 2 0 "VArr ADouble (empty_varr [0, 1])" True "e_cmp w" "e_junk w" "[]" "[]"] by (simp add: make_value_def isArrayVal_def del: put_le.simps)
  then have "readValue (e_cmp w) (e_junk w) (head_piece 2 0) [] 0 = Some (Inr ([\<lparr>vval = VArr ADouble (empty_varr [0, 1]), vexp = 0, vn = 0, vstage = 0\<rparr>], 1))"
    by (subst readValue.simps) (simp add: readValue.simps [of _ _ "[]"] del: put_le.simps)
  then show ?thesis by (simp add: rsp_readData_def mk_rsp_def stack_at_def Let_def del: put_le.simps)
qed

end
