(* ===== verification/Context.thy ===== *)
theory Context
  imports Requests
begin

text \<open>
  Contexts of interpretation (\<open>InterpCtx\<close> and its subclasses in \<open>src/src/interp_ctx.hpp\<close> and \<open>src/src/interp_ctx.cpp\<close>): the requests that are being received, the
  states that are being interpreted and the responses they wait for. The interpreter itself is the parameter \<open>M\<close>: one step from a continuation with its stack of frames
  and the environments, with the exceptions that the loops distinguish and the requests that the step has sent. A state is referred to by its number, where the
  code keeps a pointer. The signal that interrupts is the parameter \<open>sig\<close>: whether it has arrived when the condition of the loop is tested for the
  n-th time. A loop that does not end is \<open>None\<close>.

  The virtual function \<open>interpret\<close> is the interface between receiving and interpreting: its contract is the locale \<open>interpreting\<close>, interpreted for the remote, the
  local and the timer context.
\<close>

section \<open>State\<close>

datatype 'k step_res = Next 'k | FutureExc | QuitExc | Exc string

record ('k, 'g, 'f) interp =
  i_next :: "'k \<Rightarrow> bool"
  i_step :: "'k \<Rightarrow> 'g \<Rightarrow> 'k step_res \<times> 'g \<times> (nat \<times> 'f rsp_state) list"
  i_error :: "string \<Rightarrow> 'g \<Rightarrow> 'g"
  i_ec :: "'k \<Rightarrow> 'g \<Rightarrow> 'k option"
  i_unwind :: "'k \<Rightarrow> 'k \<Rightarrow> 'g \<Rightarrow> 'g"
  i_clear :: "'k \<Rightarrow> 'g \<Rightarrow> 'g"
  i_where :: "'k \<Rightarrow> string \<Rightarrow> string"
  i_silent :: "'k \<Rightarrow> bool"
  i_last :: "'g \<Rightarrow> val"
  i_init :: "E \<Rightarrow> (string \<times> val) list \<Rightarrow> 'g \<Rightarrow> 'k \<times> 'g"
  i_deliver :: "'f \<Rightarrow> val \<Rightarrow> 'g \<Rightarrow> 'g option"

record ('k, 'f) istate =
  st_reqid :: nat
  st_sourceid :: nat
  st_peerid :: nat
  st_k :: 'k
  responses :: "nat \<rightharpoonup> 'f rsp_state"

text \<open>\<open>out\<close> holds the responses that have been sent, \<open>closed\<close> the peers that were disconnected because sending failed, \<open>console\<close> what was displayed, \<open>polling\<close> whether
  the keyboard is polled.\<close>

record ('k, 'g, 'f) ctx =
  requests :: "nat \<rightharpoonup> req"
  states :: "nat \<rightharpoonup> ('k, 'f) istate"
  current :: "nat option"
  genv :: 'g
  out :: "(nat \<times> nat \<times> nat \<times> val) list"
  closed :: "nat list"
  console :: "(val + string) list"
  polling :: bool

section \<open>Steps and responses\<close>

definition emplace_all :: "(nat \<times> 'v) list \<Rightarrow> (nat \<rightharpoonup> 'v) \<Rightarrow> (nat \<rightharpoonup> 'v)" where
  "emplace_all xs m = foldl (\<lambda>m (k, v). if m k = None then m(k \<mapsto> v) else m) m xs"

text \<open>\<open>MsgHandler::sendRsp\<close>: when the value cannot be written, the peer is disconnected and the exception passed on.\<close>

definition send_rsp :: "('k, 'f) istate \<Rightarrow> val \<Rightarrow> ('k, 'g, 'f) ctx \<Rightarrow> (('k, 'g, 'f) ctx \<times> unit res) option" where
  "send_rsp st v c =
     (case sendRsp (st_reqid st) (st_sourceid st) v of Inl e \<Rightarrow> Some (c\<lparr>closed := closed c @ [st_peerid st]\<rparr>, Inl e)
      | Inr None \<Rightarrow> None
      | Inr (Some chunks) \<Rightarrow> Some (c\<lparr>out := out c @ [(st_peerid st, st_reqid st, st_sourceid st, v)]\<rparr>, Inr ()))"

text \<open>A \<open>VError\<close> holds its text as a string of fixed size.\<close>

definition send_error :: "('k, 'f) istate \<Rightarrow> string \<Rightarrow> ('k, 'g, 'f) ctx \<Rightarrow> (('k, 'g, 'f) ctx \<times> unit res) option" where
  "send_error st msg c = (case zstr msg of Inl e \<Rightarrow> Some (c, Inl e) | Inr s \<Rightarrow> send_rsp st (VError s) c)"

definition erase_state :: "nat \<Rightarrow> ('k, 'g, 'f) ctx \<Rightarrow> ('k, 'g, 'f) ctx" where
  "erase_state rid c = c\<lparr>states := (states c)(rid := None), current := None\<rparr>"

text \<open>After a response has been sent.\<close>

definition done_with :: "nat \<Rightarrow> (('k, 'g, 'f) ctx \<times> unit res) option \<Rightarrow> (('k, 'g, 'f) ctx \<times> nat res) option" where
  "done_with rid r =
     (case r of None \<Rightarrow> None | Some (c, Inl e) \<Rightarrow> Some (c, Inl e) | Some (c, Inr _) \<Rightarrow> Some (erase_state rid c, Inr 0))"

text \<open>One evaluation inside the \<open>try\<close> block with the handler for exceptions: the loop goes on, waits for a future, has seen the request to quit, or has failed without
  an escape continuation.\<close>

datatype ('k, 'g, 'f) turn_res =
  Going "('k, 'g, 'f) ctx" | Waiting "('k, 'g, 'f) ctx" | Quitting "('k, 'g, 'f) ctx" | Failed string "('k, 'g, 'f) ctx"

definition set_state :: "nat \<Rightarrow> ('k, 'f) istate \<Rightarrow> 'g \<Rightarrow> ('k, 'g, 'f) ctx \<Rightarrow> ('k, 'g, 'f) ctx" where
  "set_state rid st g c = c\<lparr>states := (states c)(rid \<mapsto> st), genv := g\<rparr>"

definition on_exception :: "('k, 'g, 'f) interp \<Rightarrow> nat \<Rightarrow> ('k, 'f) istate \<Rightarrow> string \<Rightarrow> 'g \<Rightarrow> ('k, 'g, 'f) ctx \<Rightarrow> ('k, 'g, 'f) turn_res" where
  "on_exception M rid st msg g c =
     (let g1 = i_error M msg g in
      case i_ec M (st_k st) g1 of Some k \<Rightarrow> Going (set_state rid (st\<lparr>st_k := k\<rparr>) (i_unwind M (st_k st) k g1) c)
      | None \<Rightarrow> Failed msg (set_state rid st g1 c))"

definition one_turn :: "('k, 'g, 'f) interp \<Rightarrow> nat \<Rightarrow> ('k, 'f) istate \<Rightarrow> ('k, 'g, 'f) ctx \<Rightarrow> ('k, 'g, 'f) turn_res" where
  "one_turn M rid st c =
     (case i_step M (st_k st) (genv c) of (r, g, new) \<Rightarrow>
        let st1 = st\<lparr>responses := emplace_all new (responses st)\<rparr> in
        (case r of Next k \<Rightarrow> Going (set_state rid (st1\<lparr>st_k := k\<rparr>) g c)
         | FutureExc \<Rightarrow> Waiting (set_state rid st1 g c)
         | QuitExc \<Rightarrow> Quitting (set_state rid st1 g c)
         | Exc msg \<Rightarrow> on_exception M rid st1 msg g c))"

section \<open>The remote context\<close>

definition untransmissible :: "val \<Rightarrow> bool" where
  "untransmissible v \<longleftrightarrow> any_of (\<lambda>x. \<not> isTransmissible x) v"

text \<open>After the loop.\<close>

definition remote_end :: "('k, 'g, 'f) interp \<Rightarrow> bool \<Rightarrow> nat \<Rightarrow> ('k, 'f) istate \<Rightarrow> ('k, 'g, 'f) ctx \<Rightarrow> (('k, 'g, 'f) ctx \<times> nat res) option" where
  "remote_end M interrupted rid st c =
     (if interrupted then done_with rid (send_error st ''remote SIGINT'' c)
      else if i_silent M (st_k st) then
        done_with rid (send_rsp st (VArr ABool \<lparr>vdim = [1], vnames = [[]], vflags = [True], vdata = [EBool True]\<rparr>) c)
      else
        let v = i_last M (genv c) in
        if which v = 15 then Some (c, Inr 1)
        else if untransmissible v then
          (case send_error st (''remote: untransmissible type ('' @ dec (which v) @ '')'') c of None \<Rightarrow> None
           | Some (c1, Inl e) \<Rightarrow> Some (c1, Inl e) | Some (c1, Inr _) \<Rightarrow> Some (c1, Inr 0))
        else done_with rid (send_rsp st v c))"

partial_function (option) remote_loop ::
  "('k, 'g, 'f) interp \<Rightarrow> (nat \<Rightarrow> bool) \<Rightarrow> nat \<Rightarrow> nat \<Rightarrow> ('k, 'g, 'f) ctx \<Rightarrow> (('k, 'g, 'f) ctx \<times> nat res) option" where
  "remote_loop M sig n rid c =
     (case states c rid of None \<Rightarrow> Some (c, Inl UB)
      | Some st \<Rightarrow>
          if i_next M (st_k st) \<and> \<not> sig n then
            (case one_turn M rid st c of
               Going c1 \<Rightarrow> remote_loop M sig (n + 1) rid c1
             | Waiting c1 \<Rightarrow> Some (c1, Inr 1)
             | Quitting c1 \<Rightarrow> remote_loop M sig (n + 1) rid c1
             | Failed msg c1 \<Rightarrow>
                 done_with rid (send_error st (''remote: '' @ i_where M (st_k st) msg @ msg) (c1\<lparr>genv := i_clear M (st_k st) (genv c1)\<rparr>)))
          else remote_end M (sig n) rid st c)"

definition remote_interpret :: "('k, 'g, 'f) interp \<Rightarrow> (nat \<Rightarrow> bool) \<Rightarrow> nat \<Rightarrow> ('k, 'g, 'f) ctx \<Rightarrow> (('k, 'g, 'f) ctx \<times> nat res) option" where
  "remote_interpret M sig rid c = remote_loop M sig 0 rid (c\<lparr>current := Some rid\<rparr>)"

section \<open>The local context\<close>

text \<open>A value that a response has delivered and that is an error is thrown at the place where the evaluation goes on.\<close>

definition local_turn :: "('k, 'g, 'f) interp \<Rightarrow> val option \<Rightarrow> nat \<Rightarrow> ('k, 'f) istate \<Rightarrow> ('k, 'g, 'f) ctx \<Rightarrow> ('k, 'g, 'f) turn_res" where
  "local_turn M retval rid st c =
     (case retval of Some (VError s) \<Rightarrow> on_exception M rid st s (genv c) c | _ \<Rightarrow> one_turn M rid st c)"

definition local_end :: "('k, 'g, 'f) interp \<Rightarrow> bool \<Rightarrow> nat \<Rightarrow> ('k, 'f) istate \<Rightarrow> ('k, 'g, 'f) ctx \<Rightarrow> ('k, 'g, 'f) ctx \<times> nat res" where
  "local_end M interrupted rid st c =
     (let lv = i_last M (genv c); display = \<not> interrupted \<and> \<not> i_silent M (st_k st) in
      if display \<and> which lv = 15 then (c, Inr 1)
      else
        let c1 = (if \<not> display then c
                  else let c' = c\<lparr>console := console c @ [Inl lv]\<rparr> in
                    (case lv of VError s \<Rightarrow> c'\<lparr>genv := i_error M s (genv c')\<rparr> | _ \<Rightarrow> c')) in
        (erase_state rid (c1\<lparr>polling := True\<rparr>), Inr 0))"

partial_function (option) local_loop ::
  "('k, 'g, 'f) interp \<Rightarrow> (nat \<Rightarrow> bool) \<Rightarrow> nat \<Rightarrow> val option \<Rightarrow> nat \<Rightarrow> ('k, 'g, 'f) ctx \<Rightarrow> (('k, 'g, 'f) ctx \<times> nat res) option" where
  "local_loop M sig n retval rid c =
     (case states c rid of None \<Rightarrow> Some (c, Inl UB)
      | Some st \<Rightarrow>
          if i_next M (st_k st) \<and> \<not> sig n then
            (case local_turn M retval rid st c of
               Going c1 \<Rightarrow> local_loop M sig (n + 1) None rid c1
             | Waiting c1 \<Rightarrow> Some (c1, Inr 1)
             | Quitting c1 \<Rightarrow> Some (c1, Inl (EvalException ''QuitException''))
             | Failed msg c1 \<Rightarrow>
                 Some (erase_state rid (c1\<lparr>console := console c1 @ [Inr msg], genv := i_clear M (st_k st) (genv c1), polling := True\<rparr>), Inr 0))
          else Some (local_end M (sig n) rid st c))"

definition local_interpret ::
  "('k, 'g, 'f) interp \<Rightarrow> (nat \<Rightarrow> bool) \<Rightarrow> val option \<Rightarrow> nat \<Rightarrow> ('k, 'g, 'f) ctx \<Rightarrow> (('k, 'g, 'f) ctx \<times> nat res) option" where
  "local_interpret M sig retval rid c = local_loop M sig 0 retval rid (c\<lparr>current := Some rid\<rparr>)"

section \<open>The timer context\<close>

partial_function (option) timer_loop ::
  "('k, 'g, 'f) interp \<Rightarrow> (nat \<Rightarrow> bool) \<Rightarrow> nat \<Rightarrow> nat \<Rightarrow> ('k, 'g, 'f) ctx \<Rightarrow> (('k, 'g, 'f) ctx \<times> nat res) option" where
  "timer_loop M sig n rid c =
     (case states c rid of None \<Rightarrow> Some (c, Inl UB)
      | Some st \<Rightarrow>
          if i_next M (st_k st) \<and> \<not> sig n then
            (case one_turn M rid st c of
               Going c1 \<Rightarrow> timer_loop M sig (n + 1) rid c1
             | Waiting c1 \<Rightarrow> Some (c1, Inr 1)
             | Quitting c1 \<Rightarrow> timer_loop M sig (n + 1) rid c1
             | Failed msg c1 \<Rightarrow> Some (erase_state rid (c1\<lparr>genv := i_clear M (st_k st) (genv c1)\<rparr>), Inr 0))
          else Some (erase_state rid c, Inr 0))"

definition timer_interpret :: "('k, 'g, 'f) interp \<Rightarrow> (nat \<Rightarrow> bool) \<Rightarrow> nat \<Rightarrow> ('k, 'g, 'f) ctx \<Rightarrow> (('k, 'g, 'f) ctx \<times> nat res) option" where
  "timer_interpret M sig rid c = timer_loop M sig 0 rid (c\<lparr>current := Some rid\<rparr>)"

record timer =
  t_loop :: E
  t_once :: E
  loop_max :: nat
  loop_n :: nat
  done_first :: bool
  running :: bool

definition new_state :: "('k, 'g, 'f) interp \<Rightarrow> nat \<Rightarrow> nat \<Rightarrow> nat \<Rightarrow> E \<Rightarrow> (string \<times> val) list \<Rightarrow> ('k, 'g, 'f) ctx \<Rightarrow> ('k, 'g, 'f) ctx" where
  "new_state M reqid sourceid peerid e l c =
     (case i_init M e l (genv c) of (k, g) \<Rightarrow>
        c\<lparr>genv := g, states := (if states c reqid = None
            then (states c)(reqid \<mapsto> \<lparr>st_reqid = reqid, st_sourceid = sourceid, st_peerid = peerid, st_k = k, responses = Map.empty\<rparr>) else states c)\<rparr>)"

text \<open>\<open>reqid\<close> is the next number of the generator.\<close>

definition interpretTimer ::
  "('k, 'g, 'f) interp \<Rightarrow> (nat \<Rightarrow> bool) \<Rightarrow> nat \<Rightarrow> nat \<Rightarrow> timer \<Rightarrow> ('k, 'g, 'f) ctx \<Rightarrow> timer \<times> (('k, 'g, 'f) ctx \<times> nat res) option" where
  "interpretTimer M sig reqid fd t c =
     (if loop_max t > 0 \<and> loop_n t = loop_max t then (t\<lparr>running := False\<rparr>, Some (c, Inr 0))
      else
        let e = (if done_first t then t_loop t else t_once t);
            t' = (if done_first t then t\<lparr>loop_n := loop_n t + 1\<rparr> else t\<lparr>done_first := True\<rparr>)
        in (t', timer_interpret M sig reqid (new_state M reqid fd 0 e [] c)))"

definition processReqData ::
  "('k, 'g, 'f) interp \<Rightarrow> (nat \<Rightarrow> bool) \<Rightarrow> nat \<Rightarrow> nat \<Rightarrow> E \<Rightarrow> ('k, 'g, 'f) ctx \<Rightarrow> (('k, 'g, 'f) ctx \<times> nat res) option" where
  "processReqData M sig reqid peerid e c = local_interpret M sig None reqid (new_state M reqid 0 peerid e [] c)"

section \<open>Receiving\<close>

type_synonym ('k, 'g, 'f) interpreter = "val option \<Rightarrow> nat \<Rightarrow> ('k, 'g, 'f) ctx \<Rightarrow> (('k, 'g, 'f) ctx \<times> nat res) option"

text \<open>\<open>None\<close> in the result stands for the return value \<open>-1\<close>; the handler catches exceptions, not what has no meaning.\<close>

definition readReqData ::
  "('k, 'g, 'f) interp \<Rightarrow> ('k, 'g, 'f) interpreter \<Rightarrow> env \<Rightarrow> int \<Rightarrow> nat \<Rightarrow> nat \<Rightarrow> nat \<Rightarrow> byte list \<Rightarrow> ('k, 'g, 'f) ctx \<Rightarrow> (('k, 'g, 'f) ctx \<times> unit option res) option" where
  "readReqData M go w now peerid reqid sourceid buf c =
     (let req = (case requests c reqid of None \<Rightarrow> mk_req reqid sourceid now | Some q \<Rightarrow> q) in
      case readData w buf req of None \<Rightarrow> None
      | Some (Inl e) \<Rightarrow> if e = UB then Some (c, Inl UB) else Some (c\<lparr>requests := (requests c)(reqid := None)\<rparr>, Inr None)
      | Some (Inr q) \<Rightarrow>
          if rq_state q = CTX_REQ_DONE then
            (case vval (valstack q ! 0) of
               VList l \<Rightarrow>
                 let c1 = new_state M reqid sourceid peerid (the (rq_code q)) l (c\<lparr>requests := (requests c)(reqid := None)\<rparr>) in
                 (case go None reqid c1 of None \<Rightarrow> None
                  | Some (c2, Inl e) \<Rightarrow> Some (c2, Inl e)
                  | Some (c2, Inr _) \<Rightarrow> Some (c2, Inr (Some ())))
             | _ \<Rightarrow> Some (c\<lparr>requests := (requests c)(reqid \<mapsto> q)\<rparr>, Inl (InvalidArgument ''get'')))
          else Some (c\<lparr>requests := (requests c)(reqid \<mapsto> q)\<rparr>, Inr (Some ())))"

definition readRspData ::
  "('k, 'g, 'f) interp \<Rightarrow> ('k, 'g, 'f) interpreter \<Rightarrow> env \<Rightarrow> nat \<Rightarrow> nat \<Rightarrow> byte list \<Rightarrow> ('k, 'g, 'f) ctx \<Rightarrow> (('k, 'g, 'f) ctx \<times> nat res) option" where
  "readRspData M go w reqid sourceid buf c =
     (case states c sourceid of None \<Rightarrow> Some (c, Inr 0)
      | Some st \<Rightarrow>
          (case responses st reqid of None \<Rightarrow> Some (c\<lparr>states := (states c)(sourceid := None)\<rparr>, Inr 0)
           | Some rsp \<Rightarrow>
               (case rsp_readData w buf rsp of None \<Rightarrow> None
                | Some (Inl e) \<Rightarrow> Some (c, Inl e)
                | Some (Inr rsp') \<Rightarrow>
                    let c1 = c\<lparr>states := (states c)(sourceid \<mapsto> st\<lparr>responses := (responses st)(reqid \<mapsto> rsp')\<rparr>)\<rparr> in
                    if rs_state rsp' = CTX_RSP_DONE then
                      let v = vval (rs_stack rsp' ! 0) in
                      (case i_deliver M (rs_future rsp') v (genv c1) of
                         Some g \<Rightarrow> go (Some v) sourceid (c1\<lparr>genv := g\<rparr>)
                       | None \<Rightarrow> go None sourceid c1)
                    else Some (c1, Inr 1))))"

section \<open>Garbage collection\<close>

definition gc_requests :: "int \<Rightarrow> int \<Rightarrow> ('k, 'g, 'f) ctx \<Rightarrow> ('k, 'g, 'f) ctx" where
  "gc_requests now ttl c =
     c\<lparr>requests := (\<lambda>i. case requests c i of None \<Rightarrow> None | Some q \<Rightarrow> if now - rq_time q > ttl then None else Some q)\<rparr>"

definition expired_rsp :: "int \<Rightarrow> int \<Rightarrow> ('k, 'f) istate \<Rightarrow> 'f rsp_state option" where
  "expired_rsp now ttl st =
     find (\<lambda>rsp. now - rs_time rsp > ttl) (map (\<lambda>i. the (responses st i)) (sorted_list_of_set (dom (responses st))))"

text \<open>\<open>sendGcStateMessage\<close> of the remote and of the local context.\<close>

definition remote_gc_message :: "('k, 'f) istate \<Rightarrow> 'f rsp_state \<Rightarrow> ('k, 'g, 'f) ctx \<Rightarrow> (('k, 'g, 'f) ctx \<times> unit res) option" where
  "remote_gc_message st rsp c =
     send_error st (''remote: response time out from '' @ rs_ip rsp @ '':'' @ dec_int (rs_port rsp) @ '' ['' @ dec (rs_peerid rsp) @ '']'') c"

definition local_gc_message :: "('k, 'f) istate \<Rightarrow> 'f rsp_state \<Rightarrow> ('k, 'g, 'f) ctx \<Rightarrow> (('k, 'g, 'f) ctx \<times> unit res) option" where
  "local_gc_message st rsp c =
     Some (c\<lparr>console := console c @ [Inr (''Error: response timeout from '' @ rs_ip rsp @ '':'' @ dec_int (rs_port rsp) @ '' ['' @ dec (rs_peerid rsp) @ '']'')], polling := True\<rparr>, Inr ())"

fun gc_loop ::
  "(('k, 'f) istate \<Rightarrow> 'f rsp_state \<Rightarrow> ('k, 'g, 'f) ctx \<Rightarrow> (('k, 'g, 'f) ctx \<times> unit res) option) \<Rightarrow> int \<Rightarrow> int \<Rightarrow> nat list \<Rightarrow> ('k, 'g, 'f) ctx \<Rightarrow> (('k, 'g, 'f) ctx \<times> unit res) option" where
  "gc_loop message now ttl [] c = Some (c, Inr ())"
| "gc_loop message now ttl (i # is) c =
     (case states c i of None \<Rightarrow> gc_loop message now ttl is c
      | Some st \<Rightarrow>
          (case expired_rsp now ttl st of None \<Rightarrow> gc_loop message now ttl is c
           | Some rsp \<Rightarrow>
               if current c = Some i then
                 (case message st rsp c of None \<Rightarrow> None
                  | Some (c1, Inl e) \<Rightarrow> Some (c1, Inl e)
                  | Some (c1, Inr _) \<Rightarrow> gc_loop message now ttl is (erase_state i c1))
               else gc_loop message now ttl is (c\<lparr>states := (states c)(i := None)\<rparr>)))"

definition gc_states ::
  "(('k, 'f) istate \<Rightarrow> 'f rsp_state \<Rightarrow> ('k, 'g, 'f) ctx \<Rightarrow> (('k, 'g, 'f) ctx \<times> unit res) option) \<Rightarrow> int \<Rightarrow> int \<Rightarrow> ('k, 'g, 'f) ctx \<Rightarrow> (('k, 'g, 'f) ctx \<times> unit res) option" where
  "gc_states message now ttl c = gc_loop message now ttl (sorted_list_of_set (dom (states c))) c"

definition reset_ctx :: "('k, 'g, 'f) ctx \<Rightarrow> ('k, 'g, 'f) ctx" where
  "reset_ctx c = c\<lparr>requests := Map.empty, states := Map.empty, current := None\<rparr>"

section \<open>What interpretation leaves alone\<close>

definition same_others :: "nat \<Rightarrow> ('k, 'g, 'f) ctx \<Rightarrow> ('k, 'g, 'f) ctx \<Rightarrow> bool" where
  "same_others rid c c' \<longleftrightarrow> requests c' = requests c \<and> (\<forall>i. i \<noteq> rid \<longrightarrow> states c' i = states c i)"

lemma same_others_trans: "same_others rid a b \<Longrightarrow> same_others rid b c \<Longrightarrow> same_others rid a c"
  by (simp add: same_others_def)

text \<open>A turn changes the state it is about, and not who asked.\<close>

definition moved :: "nat \<Rightarrow> ('k, 'f) istate \<Rightarrow> ('k, 'g, 'f) ctx \<Rightarrow> ('k, 'g, 'f) ctx \<Rightarrow> bool" where
  "moved rid st c c' \<longleftrightarrow> same_others rid c c' \<and> out c' = out c \<and>
     (\<exists>st'. states c' rid = Some st' \<and> st_reqid st' = st_reqid st \<and> st_sourceid st' = st_sourceid st \<and> st_peerid st' = st_peerid st)"

fun turn_ctx :: "('k, 'g, 'f) turn_res \<Rightarrow> ('k, 'g, 'f) ctx" where
  "turn_ctx (Going c) = c" | "turn_ctx (Waiting c) = c" | "turn_ctx (Quitting c) = c" | "turn_ctx (Failed m c) = c"

lemma moved_set: "st_reqid st' = st_reqid st \<Longrightarrow> st_sourceid st' = st_sourceid st \<Longrightarrow> st_peerid st' = st_peerid st \<Longrightarrow> moved rid st c (set_state rid st' g c)"
  by (simp add: moved_def same_others_def set_state_def)

lemma on_exception_moved: "st_reqid st' = st_reqid st \<Longrightarrow> st_sourceid st' = st_sourceid st \<Longrightarrow> st_peerid st' = st_peerid st \<Longrightarrow>
    moved rid st c (turn_ctx (on_exception M rid st' msg g c))"
  by (auto simp: on_exception_def Let_def moved_set split: option.splits)

lemma one_turn_moved: "moved rid st c (turn_ctx (one_turn M rid st c))"
  by (auto simp: one_turn_def Let_def moved_set on_exception_moved split: prod.splits step_res.splits)

lemma local_turn_moved: "moved rid st c (turn_ctx (local_turn M rv rid st c))"
  by (auto simp: local_turn_def one_turn_moved on_exception_moved split: option.splits val.splits)

lemma turn_cases:
  assumes "moved rid st c (turn_ctx t)"
  shows "t = Going c1 \<Longrightarrow> moved rid st c c1" "t = Waiting c1 \<Longrightarrow> moved rid st c c1" "t = Quitting c1 \<Longrightarrow> moved rid st c c1" "t = Failed msg c1 \<Longrightarrow> moved rid st c c1"
  using assms by auto

lemma erase_others: "same_others rid c c' \<Longrightarrow> same_others rid c (erase_state rid c')"
  by (simp add: same_others_def erase_state_def)

text \<open>The contract of \<open>interpret\<close>, and what receiving gives on top of it: requests and states with other numbers are not touched.\<close>

locale interpreting =
  fixes M :: "('k, 'g, 'f) interp" and go :: "('k, 'g, 'f) interpreter"
  assumes keeps_others: "go rv rid c = Some (c', r) \<Longrightarrow> same_others rid c c'"
begin

lemma request_isolated:
  assumes "readReqData M go w now peerid reqid sourceid buf c = Some (c', r)" "i \<noteq> reqid"
  shows "requests c' i = requests c i \<and> states c' i = states c i"
proof -
  have new: "requests (new_state M reqid sourceid peerid e l (c\<lparr>requests := (requests c)(reqid := None)\<rparr>)) i = requests c i"
    "states (new_state M reqid sourceid peerid e l (c\<lparr>requests := (requests c)(reqid := None)\<rparr>)) i = states c i" for e l
    using assms(2) by (auto simp: new_state_def split: prod.splits)
  show ?thesis using assms(1) new assms(2) keeps_others unfolding readReqData_def
    by (fastforce simp: Let_def same_others_def split: option.splits sum.splits if_splits val.splits prod.splits)
qed

lemma response_isolated:
  assumes "readRspData M go w reqid sourceid buf c = Some (c', r)" "i \<noteq> sourceid"
  shows "requests c' = requests c \<and> states c' i = states c i"
  using assms keeps_others unfolding readRspData_def
  by (fastforce simp: Let_def same_others_def split: option.splits sum.splits if_splits)

end

section \<open>The remote context answers once\<close>

definition answered :: "('k, 'g, 'f) interp \<Rightarrow> nat \<Rightarrow> ('k, 'f) istate \<Rightarrow> ('k, 'g, 'f) ctx \<Rightarrow> ('k, 'g, 'f) ctx \<Rightarrow> nat res \<Rightarrow> bool" where
  "answered M rid st c c' r \<longleftrightarrow> same_others rid c c' \<and>
     (if r = Inr 0
      then (\<exists>v. out c' = out c @ [(st_peerid st, st_reqid st, st_sourceid st, v)]) \<and> (states c' rid = None \<or> untransmissible (i_last M (genv c')))
      else out c' = out c \<and> states c' rid \<noteq> None)"

lemma answered_moved:
  assumes "moved rid st c c1" "states c1 rid = Some st1" "answered M rid st1 c1 c' r"
  shows "answered M rid st c c' r"
  using assms same_others_trans [of rid c c1 c'] by (auto simp: moved_def answered_def)

text \<open>A response is sent, and the state is erased, or sending has thrown.\<close>

lemma send_rsp_cases:
  assumes "send_rsp st v c = Some (c1, r)"
  shows "same_others rid c c1 \<and> states c1 = states c \<and> genv c1 = genv c \<and>
    (case r of Inl e \<Rightarrow> out c1 = out c | Inr _ \<Rightarrow> out c1 = out c @ [(st_peerid st, st_reqid st, st_sourceid st, v)])"
  using assms by (auto simp: send_rsp_def same_others_def split: sum.splits option.splits)

lemma send_error_cases:
  assumes "send_error st msg c = Some (c1, r)"
  shows "same_others rid c c1 \<and> states c1 = states c \<and> genv c1 = genv c \<and>
    (case r of Inl e \<Rightarrow> out c1 = out c | Inr _ \<Rightarrow> \<exists>v. out c1 = out c @ [(st_peerid st, st_reqid st, st_sourceid st, v)])"
proof (cases "zstr msg")
  case (Inl e)
  then show ?thesis using assms by (auto simp: send_error_def same_others_def)
next
  case (Inr s)
  then show ?thesis using assms send_rsp_cases [of st "VError s" c c1 r rid] by (auto simp: send_error_def split: sum.splits)
qed

lemma done_answered:
  assumes "done_with rid x = Some (c', r)" "\<And>c1 q. x = Some (c1, q) \<Longrightarrow> same_others rid c c1 \<and> states c1 = states c \<and>
      (case q of Inl e \<Rightarrow> out c1 = out c | Inr _ \<Rightarrow> \<exists>v. out c1 = out c @ [(st_peerid st, st_reqid st, st_sourceid st, v)])"
    and "states c rid = Some st"
  shows "answered M rid st c c' r"
proof -
  obtain c1 q where x: "x = Some (c1, q)" using assms(1) by (auto simp: done_with_def split: option.splits)
  note f = assms(2) [OF x]
  show ?thesis using assms(1,3) f x erase_others [of rid c c1]
    by (cases q) (auto simp: done_with_def answered_def erase_state_def)
qed

lemma remote_end_answered:
  assumes "remote_end M i rid st c = Some (c', r)" "states c rid = Some st"
  shows "answered M rid st c c' r"
proof -
  have rsp: "answered M rid st c c' r" if "done_with rid (send_rsp st v c) = Some (c', r)" for v
    using that assms(2) send_rsp_cases [of st v c _ _ rid] by (intro done_answered [OF that]) (fastforce split: sum.splits)+
  have err: "answered M rid st c c' r" if "done_with rid (send_error st msg c) = Some (c', r)" for msg
    using that assms(2) send_error_cases [of st msg c _ _ rid] by (intro done_answered [OF that]) (auto split: sum.splits)
  consider "i \<or> i_silent M (st_k st)" | "\<not> (i \<or> i_silent M (st_k st))" "which (i_last M (genv c)) = 15"
    | "\<not> (i \<or> i_silent M (st_k st))" "which (i_last M (genv c)) \<noteq> 15" "untransmissible (i_last M (genv c))"
    | "\<not> (i \<or> i_silent M (st_k st))" "which (i_last M (genv c)) \<noteq> 15" "\<not> untransmissible (i_last M (genv c))" by blast
  then show ?thesis
  proof cases
    case 3
    define msg where "msg = ''remote: untransmissible type ('' @ dec (which (i_last M (genv c))) @ '')''"
    obtain q where q: "send_error st msg c = Some (c', q)" "r = (case q of Inl e \<Rightarrow> Inl e | Inr _ \<Rightarrow> Inr 0)"
      using assms(1) 3 by (auto simp: remote_end_def Let_def msg_def split: option.splits sum.splits)
    show ?thesis using send_error_cases [OF q(1), of rid] q(2) assms(2) 3(3) by (cases q) (auto simp: answered_def)
  next
    case 2
    then show ?thesis using assms by (auto simp: remote_end_def Let_def answered_def same_others_def)
  qed (use assms(1) rsp err in \<open>auto simp: remote_end_def Let_def split: if_splits\<close>)
qed

lemma remote_loop_answered:
  assumes "remote_loop M sig n rid c = Some (c', r)" "states c rid = Some st"
  shows "answered M rid st c c' r"
proof -
  have "\<forall>st. states c rid = Some st \<longrightarrow> answered M rid st c (fst x) (snd x)" if "remote_loop M sig n rid c = Some x" for x
  proof (rule remote_loop.raw_induct [OF _ that], intro allI impI)
    fix rec and M :: "('k, 'g, 'f) interp" and sig :: "nat \<Rightarrow> bool" and n rid and c :: "('k, 'g, 'f) ctx" and x st
    assume ih: "\<And>M sig n rid c x. rec M sig n rid c = Some x \<Longrightarrow> \<forall>st. states c rid = Some st \<longrightarrow> answered M rid st c (fst x) (snd x)"
      and body: "(case states c rid of None \<Rightarrow> Some (c, Inl UB)
        | Some st \<Rightarrow>
          if i_next M (st_k st) \<and> \<not> sig n then
            (case one_turn M rid st c of Going c1 \<Rightarrow> rec M sig (n + 1) rid c1 | Waiting c1 \<Rightarrow> Some (c1, Inr 1) | Quitting c1 \<Rightarrow> rec M sig (n + 1) rid c1
             | Failed msg c1 \<Rightarrow> done_with rid (send_error st (''remote: '' @ i_where M (st_k st) msg @ msg) (c1\<lparr>genv := i_clear M (st_k st) (genv c1)\<rparr>)))
          else remote_end M (sig n) rid st c) = Some x"
      and st: "states c rid = Some st"
    note moved = turn_cases [OF one_turn_moved [of rid st c M]]
    have rec: "answered M rid st c (fst x) (snd x)" if mv: "moved rid st c c1" and rc: "rec M sig (n + 1) rid c1 = Some x" for c1
    proof -
      obtain st1 where st1: "states c1 rid = Some st1" using mv by (auto simp: moved_def)
      show ?thesis using answered_moved [OF mv st1] ih [OF rc] st1 by blast
    qed
    show "answered M rid st c (fst x) (snd x)"
    proof (cases "i_next M (st_k st) \<and> \<not> sig n")
      case False
      then show ?thesis using body st remote_end_answered [of M "sig n" rid st c "fst x" "snd x"] by (simp split: if_splits)
    next
      case True
      show ?thesis
      proof (cases "one_turn M rid st c")
        case (Failed msg c1)
        define c2 where "c2 = c1\<lparr>genv := i_clear M (st_k st) (genv c1)\<rparr>"
        have "moved rid st c c2" using moved(4) [OF Failed] by (simp add: moved_def same_others_def c2_def)
        then obtain st2 where st2: "moved rid st c c2" "states c2 rid = Some st2" "st_reqid st2 = st_reqid st" "st_sourceid st2 = st_sourceid st" "st_peerid st2 = st_peerid st"
          by (auto simp: moved_def)
        have "done_with rid (send_error st (''remote: '' @ i_where M (st_k st) msg @ msg) c2) = Some (fst x, snd x)"
          using body st True Failed by (simp add: c2_def)
        then have "answered M rid st2 c2 (fst x) (snd x)"
        proof (rule done_answered)
          fix c3 q assume "send_error st (''remote: '' @ i_where M (st_k st) msg @ msg) c2 = Some (c3, q)"
          from send_error_cases [OF this, of rid] st2(3-5) show "same_others rid c2 c3 \<and> states c3 = states c2 \<and>
              (case q of Inl e \<Rightarrow> out c3 = out c2 | Inr _ \<Rightarrow> \<exists>v. out c3 = out c2 @ [(st_peerid st2, st_reqid st2, st_sourceid st2, v)])" by (cases q) simp_all
        qed (rule st2(2))
        then show ?thesis by (rule answered_moved [OF st2(1,2)])
      next
        case (Waiting c1)
        then show ?thesis using body st True moved(2) [OF Waiting] by (auto simp: answered_def moved_def)
      qed (use body st True rec moved in auto)
    qed
  qed
  from this [OF assms(1)] assms(2) show ?thesis by simp
qed

text \<open>What every loop leaves alone, without regard to what it answers.\<close>

lemma remote_keeps: "remote_loop M sig n rid c = Some (c', r) \<Longrightarrow> same_others rid c c'"
proof (cases "states c rid")
  case None
  assume "remote_loop M sig n rid c = Some (c', r)"
  then show ?thesis using None by (simp add: remote_loop.simps [of M] same_others_def)
next
  case (Some st)
  assume "remote_loop M sig n rid c = Some (c', r)"
  then show ?thesis using remote_loop_answered [of M sig n rid c c' r st] Some by (simp add: answered_def)
qed

lemma local_end_keeps: "same_others rid c (fst (local_end M i rid st c))"
  by (auto simp: local_end_def Let_def same_others_def erase_state_def split: val.splits)

lemma local_keeps:
  assumes "local_loop M sig n rv rid c = Some x"
  shows "same_others rid c (fst x)"
proof (rule local_loop.raw_induct [OF _ assms])
  fix rec and M :: "('k, 'g, 'f) interp" and sig :: "nat \<Rightarrow> bool" and n rv rid and c :: "('k, 'g, 'f) ctx" and x
  assume ih: "\<And>M sig n rv rid c x. rec M sig n rv rid c = Some x \<Longrightarrow> same_others rid c (fst x)"
    and body: "(case states c rid of None \<Rightarrow> Some (c, Inl UB)
      | Some st \<Rightarrow>
          if i_next M (st_k st) \<and> \<not> sig n then
            (case local_turn M rv rid st c of
               Going c1 \<Rightarrow> rec M sig (n + 1) None rid c1
             | Waiting c1 \<Rightarrow> Some (c1, Inr 1)
             | Quitting c1 \<Rightarrow> Some (c1, Inl (EvalException ''QuitException''))
             | Failed msg c1 \<Rightarrow>
                 Some (erase_state rid (c1\<lparr>console := console c1 @ [Inr msg], genv := i_clear M (st_k st) (genv c1), polling := True\<rparr>), Inr 0))
          else Some (local_end M (sig n) rid st c)) = Some x"
  show "same_others rid c (fst x)"
  proof (cases "states c rid")
    case None
    then show ?thesis using body by (auto simp: same_others_def)
  next
    case (Some st)
    have turn: "same_others rid c (turn_ctx (local_turn M rv rid st c))" using local_turn_moved [of rid st c M rv] by (simp add: moved_def)
    show ?thesis using body Some turn ih same_others_trans local_end_keeps [of rid c M "sig n" st]
      by (cases "local_turn M rv rid st c") (auto simp: erase_state_def same_others_def split: if_splits)
  qed
qed

lemma timer_keeps:
  assumes "timer_loop M sig n rid c = Some x"
  shows "same_others rid c (fst x)"
proof (rule timer_loop.raw_induct [OF _ assms])
  fix rec and M :: "('k, 'g, 'f) interp" and sig :: "nat \<Rightarrow> bool" and n rid and c :: "('k, 'g, 'f) ctx" and x
  assume ih: "\<And>M sig n rid c x. rec M sig n rid c = Some x \<Longrightarrow> same_others rid c (fst x)"
    and body: "(case states c rid of None \<Rightarrow> Some (c, Inl UB)
      | Some st \<Rightarrow>
          if i_next M (st_k st) \<and> \<not> sig n then
            (case one_turn M rid st c of
               Going c1 \<Rightarrow> rec M sig (n + 1) rid c1
             | Waiting c1 \<Rightarrow> Some (c1, Inr 1)
             | Quitting c1 \<Rightarrow> rec M sig (n + 1) rid c1
             | Failed msg c1 \<Rightarrow> Some (erase_state rid (c1\<lparr>genv := i_clear M (st_k st) (genv c1)\<rparr>), Inr 0))
          else Some (erase_state rid c, Inr 0)) = Some x"
  show "same_others rid c (fst x)"
  proof (cases "states c rid")
    case None
    then show ?thesis using body by (auto simp: same_others_def)
  next
    case (Some st)
    have turn: "same_others rid c (turn_ctx (one_turn M rid st c))" using one_turn_moved [of rid st c M] by (simp add: moved_def)
    show ?thesis using body Some turn ih same_others_trans
      by (cases "one_turn M rid st c") (auto simp: erase_state_def same_others_def split: if_splits)
  qed
qed

lemma current_others: "same_others rid (c\<lparr>current := x\<rparr>) c' \<longleftrightarrow> same_others rid c c'"
  by (simp add: same_others_def)

interpretation remote: interpreting M "\<lambda>rv. remote_interpret M sig" for M sig
  by unfold_locales (auto simp: remote_interpret_def current_others dest: remote_keeps)

interpretation local: interpreting M "local_interpret M sig" for M sig
  by unfold_locales (auto simp: local_interpret_def current_others dest: local_keeps)

interpretation timers: interpreting M "\<lambda>rv. timer_interpret M sig" for M sig
  by unfold_locales (auto simp: timer_interpret_def current_others dest: timer_keeps)

section \<open>Requests that come to an end\<close>

text \<open>So many turns that go on.\<close>

fun run :: "('k, 'g, 'f) interp \<Rightarrow> nat \<Rightarrow> nat \<Rightarrow> ('k, 'g, 'f) ctx \<Rightarrow> ('k, 'g, 'f) ctx option" where
  "run M 0 rid c = Some c"
| "run M (Suc n) rid c =
     (case states c rid of None \<Rightarrow> None
      | Some st \<Rightarrow> if i_next M (st_k st) then (case one_turn M rid st c of Going c1 \<Rightarrow> run M n rid c1 | _ \<Rightarrow> None) else None)"

lemma run_loop:
  assumes "run M n rid c = Some c1" "\<And>i. \<not> sig i"
  shows "remote_loop M sig m rid c = remote_loop M sig (m + n) rid c1"
proof -
  have sig: "sig = (\<lambda>_. False)" using assms(2) by auto
  show ?thesis using assms(1) unfolding sig
  proof (induction n arbitrary: c m)
    case (Suc n)
    then show ?case by (subst remote_loop.simps) (auto split: option.splits if_splits turn_res.splits)
  qed simp
qed

lemma run_moved:
  assumes "run M n rid c = Some c1" "states c rid = Some st"
  shows "moved rid st c c1"
  using assms
proof (induction n arbitrary: c st)
  case 0
  then show ?case by (simp add: moved_def same_others_def)
next
  case (Suc n)
  obtain c2 where c2: "one_turn M rid st c = Going c2" "run M n rid c2 = Some c1"
    using Suc.prems by (auto split: if_splits turn_res.splits)
  have m: "moved rid st c c2" using turn_cases(1) [OF one_turn_moved c2(1)] .
  then obtain st2 where st2: "states c2 rid = Some st2" by (auto simp: moved_def)
  show ?case using Suc.IH [OF c2(2) st2] m st2 by (auto simp: moved_def same_others_def)
qed

lemma run_answered:
  assumes "run M n rid (c\<lparr>current := Some rid\<rparr>) = Some c1" "states c rid = Some st" "states c1 rid = Some st1" "\<not> i_next M (st_k st1)" "\<not> i_silent M (st_k st1)"
    and "v = i_last M (genv c1)" "which v \<noteq> 15" "\<not> untransmissible v" "sendRsp (st_reqid st) (st_sourceid st) v = Inr (Some chunks)" "\<And>i. \<not> sig i"
  shows "\<exists>c'. remote_interpret M sig rid c = Some (c', Inr 0) \<and> out c' = out c @ [(st_peerid st, st_reqid st, st_sourceid st, v)] \<and>
    states c' rid = None \<and> same_others rid c c'"
proof -
  have m: "moved rid st (c\<lparr>current := Some rid\<rparr>) c1" using assms(2) by (intro run_moved [OF assms(1)]) simp
  then have ids: "st_reqid st1 = st_reqid st" "st_sourceid st1 = st_sourceid st" "st_peerid st1 = st_peerid st" and o: "out c1 = out c" and s: "same_others rid c c1"
    using assms(3) by (auto simp: moved_def same_others_def)
  have "remote_interpret M sig rid c = remote_loop M sig n rid c1" using run_loop [OF assms(1,10), where m = 0] by (simp add: remote_interpret_def)
  also have "\<dots> = remote_end M (sig n) rid st1 c1" using assms(3,4) by (simp add: remote_loop.simps [of M])
  also have "\<dots> = Some (erase_state rid (c1\<lparr>out := out c1 @ [(st_peerid st, st_reqid st, st_sourceid st, v)]\<rparr>), Inr 0)"
    using assms(5-10) ids by (simp add: remote_end_def send_rsp_def done_with_def)
  finally show ?thesis using o s by (simp add: erase_state_def same_others_def)
qed

text \<open>The chunks of a request, one after the other.\<close>

fun ctx_reads ::
  "('k, 'g, 'f) interp \<Rightarrow> ('k, 'g, 'f) interpreter \<Rightarrow> env \<Rightarrow> int \<Rightarrow> nat \<Rightarrow> nat \<Rightarrow> nat \<Rightarrow> byte list list \<Rightarrow> ('k, 'g, 'f) ctx \<Rightarrow> (('k, 'g, 'f) ctx \<times> unit option res) option" where
  "ctx_reads M go w now peerid reqid sourceid [] c = Some (c, Inr (Some ()))"
| "ctx_reads M go w now peerid reqid sourceid (u # us) c =
     (case readReqData M go w now peerid reqid sourceid u c of
        Some (c1, Inr (Some _)) \<Rightarrow> ctx_reads M go w now peerid reqid sourceid us c1 | r \<Rightarrow> r)"

lemma done_then_error: "rq_state q = CTX_REQ_DONE \<Longrightarrow> us \<noteq> [] \<Longrightarrow> req_buffers w us q \<noteq> Some (Inr q')"
  by (cases us) (simp_all add: readData_def liftR_def)

lemma ctx_reads_request:
  assumes "us \<noteq> []" "req_buffers w us q0 = Some (Inr q)" "rq_state q = CTX_REQ_DONE" "rq_code q = Some e" "vval (valstack q ! 0) = VList l"
    and "(case requests c reqid of None \<Rightarrow> mk_req reqid sourceid now | Some q \<Rightarrow> q) = q0"
    and "go None reqid (new_state M reqid sourceid peerid e l (c\<lparr>requests := (requests c)(reqid := None)\<rparr>)) = Some (c2, Inr k)"
  shows "ctx_reads M go w now peerid reqid sourceid us c = Some (c2, Inr (Some ()))"
  using assms
proof (induction us arbitrary: c q0)
  case (Cons u us)
  obtain q1 where q1: "readData w u q0 = Some (Inr q1)" "req_buffers w us q1 = Some (Inr q)"
    using Cons.prems(2) by (auto simp: liftR_eq split: option.splits)
  show ?case
  proof (cases "us = []")
    case True
    then have "q1 = q" using q1(2) by simp
    then have "readReqData M go w now peerid reqid sourceid u c = Some (c2, Inr (Some ()))"
      using q1(1) Cons.prems(3-7) unfolding readReqData_def Let_def by (simp del: fun_upd_apply)
    then show ?thesis using True by simp
  next
    case False
    define c1 where "c1 = c\<lparr>requests := (requests c)(reqid \<mapsto> q1)\<rparr>"
    have "rq_state q1 \<noteq> CTX_REQ_DONE" using done_then_error [OF _ False, of q1 w q] q1(2) by blast
    then have "readReqData M go w now peerid reqid sourceid u c = Some (c1, Inr (Some ()))"
      using q1(1) Cons.prems(6) unfolding readReqData_def Let_def c1_def by simp
    moreover have c1: "c1\<lparr>requests := (requests c1)(reqid := None)\<rparr> = c\<lparr>requests := (requests c)(reqid := None)\<rparr>"
      "(case requests c1 reqid of None \<Rightarrow> mk_req reqid sourceid now | Some q \<Rightarrow> q) = q1" by (simp_all add: c1_def)
    have "ctx_reads M go w now peerid reqid sourceid us c1 = Some (c2, Inr (Some ()))"
      by (rule Cons.IH [OF False q1(2) Cons.prems(3-5) c1(2)]) (use Cons.prems(7) in \<open>simp only: c1(1)\<close>)
    ultimately show ?thesis by simp
  qed
qed simp

section \<open>Properties\<close>

text \<open>C5. When the remote context has interpreted a request to the end, exactly one response has been sent, to the peer that asked and with the numbers of its request, and the
  state is gone unless the result could not be transmitted; when it waits or has thrown, no response has been sent and the state is still
  there. Other requests and states are as before.\<close>

theorem remote_answers_once:
  assumes "remote_interpret M sig rid c = Some (c', r)" "states c rid = Some st"
  shows "(if r = Inr 0
      then (\<exists>v. out c' = out c @ [(st_peerid st, st_reqid st, st_sourceid st, v)]) \<and> (states c' rid = None \<or> untransmissible (i_last M (genv c')))
      else out c' = out c \<and> states c' rid \<noteq> None) \<and>
    requests c' = requests c \<and> (\<forall>i. i \<noteq> rid \<longrightarrow> states c' i = states c i)"
  using remote_loop_answered [of M sig 0 rid "c\<lparr>current := Some rid\<rparr>" c' r st] assms
  by (simp add: remote_interpret_def answered_def same_others_def split: if_splits)


text \<open>An interpreter that counts down and ends with a string.\<close>

definition count_interp :: "(nat, nat, unit) interp" where
  "count_interp = \<lparr>i_next = (\<lambda>k. k > 0), i_step = (\<lambda>k g. (Next (k - 1), g + 1, [])), i_error = (\<lambda>m g. g), i_ec = (\<lambda>k g. None), i_unwind = (\<lambda>k l g. g),
     i_clear = (\<lambda>k g. g), i_where = (\<lambda>k m. ''''), i_silent = (\<lambda>k. False), i_last = (\<lambda>g. StdInt [g]), i_init = (\<lambda>e l g. (2, g)), i_deliver = (\<lambda>f v g. None)\<rparr>"

definition count_ctx :: "(nat, nat, unit) ctx" where
  "count_ctx = \<lparr>requests = Map.empty, states = [7 \<mapsto> \<lparr>st_reqid = 7, st_sourceid = 1, st_peerid = 3, st_k = 2, responses = Map.empty\<rparr>], current = None, genv = 0,
     out = [], closed = [], console = [], polling = False\<rparr>"

lemma count_run:
  "\<exists>c1 st1. run count_interp 2 7 (count_ctx\<lparr>current := Some 7\<rparr>) = Some c1 \<and> states c1 7 = Some st1 \<and> \<not> i_next count_interp (st_k st1) \<and>
     i_last count_interp (genv c1) = StdInt [2]"
  by (simp add: numeral_2_eq_2 count_interp_def count_ctx_def one_turn_def set_state_def emplace_all_def)

lemma count_sends: "\<exists>chunks. sendRsp 7 1 (StdInt [2]) = Inr (Some chunks)"
  using response_ok [of example_env "StdInt [2]" "int_pieces [2]" 7 1 "[]" 0 0 "[]" 0 "()"] by (auto simp: int_pieces_def CHUNKSZ_def simp del: put_le.simps)


theorem remote_answers_once_witness:
  "\<exists>c'. remote_interpret count_interp (\<lambda>i. i > 0) 7 count_ctx = Some (c', Inr 0) \<and> (\<exists>v. out c' = [(3, 7, 1, v)])"
proof -
  define st where "st = \<lparr>st_reqid = 7, st_sourceid = 1, st_peerid = 3, st_k = 2 :: nat, responses = Map.empty :: nat \<rightharpoonup> unit rsp_state\<rparr>"
  have "zstr ''remote SIGINT'' = Inr ''remote SIGINT''" by (simp add: plain_def STRING_SIZE_def)
  moreover have ok: "val_ok (e_cmp example_env) (VError ''remote SIGINT'')" by (simp add: plain_def STRING_SIZE_def)
  have len: "length (flat_items (concat [Room # u64_item 19 # put_string ''remote SIGINT''])) < CHUNKSZ - 60"
    by (simp add: put_string_def CHUNKSZ_def getAlignedLength_def STRALIGN_def)
  obtain chunks where "sendRsp 7 1 (VError ''remote SIGINT'') = Inr (Some chunks)"
    using response_ok [OF ok writeValue.simps(8) len, of 7 1 "[]" 0 0 "[]" 0 "()"] by (elim exE conjE) (rule that)
  ultimately obtain c' where c': "remote_interpret count_interp (\<lambda>i. i > 0) 7 count_ctx = Some (c', Inr 0)"
    by (simp add: remote_interpret_def remote_loop.simps count_interp_def count_ctx_def one_turn_def set_state_def emplace_all_def remote_end_def send_error_def send_rsp_def done_with_def)
  have "states count_ctx 7 = Some st" "out count_ctx = []" by (simp_all add: count_ctx_def st_def)
  then show ?thesis using remote_answers_once [OF c', of st] c' by (simp add: st_def)
qed



section \<open>Timers\<close>

text \<open>With a limit, the expression of the loop is evaluated at most so often, however often the timer expires.\<close>

lemma timer_limit:
  assumes "loop_max t > 0 \<longrightarrow> loop_n t \<le> loop_max t"
  shows "loop_max (fst (interpretTimer M sig reqid fd t c)) = loop_max t \<and> (loop_max t > 0 \<longrightarrow> loop_n (fst (interpretTimer M sig reqid fd t c)) \<le> loop_max t) \<and>
    loop_n (fst (interpretTimer M sig reqid fd t c)) \<le> loop_n t + 1"
  using assms by (auto simp: interpretTimer_def Let_def)

section \<open>What goes wrong\<close>

text \<open>A remote request to quit is caught and ignored without going on: when the step leaves everything as it was, the loop does not end.\<close>

lemma remote_quit_hangs:
  fixes M :: "('k, 'g, 'f) interp" and c :: "('k, 'g, 'f) ctx"
  assumes "states c rid = Some st" "i_next M (st_k st)" "i_step M (st_k st) (genv c) = (QuitExc, genv c, [])" "\<And>i. \<not> sig i"
  shows "remote_loop M sig n rid c = None"
proof (rule ccontr)
  define stuck where "stuck M sig rid c \<longleftrightarrow> (\<exists>st. states c rid = Some st \<and> i_next M (st_k st) \<and> i_step M (st_k st) (genv c) = (QuitExc, genv c, [])) \<and> (\<forall>i. \<not> sig i)"
    for M :: "('k, 'g, 'f) interp" and sig :: "nat \<Rightarrow> bool" and rid and c :: "('k, 'g, 'f) ctx"
  assume "remote_loop M sig n rid c \<noteq> None"
  then obtain x where "remote_loop M sig n rid c = Some x" by auto
  then have "\<not> stuck M sig rid c"
  proof (rule remote_loop.raw_induct [rotated])
    fix rec and M :: "('k, 'g, 'f) interp" and sig :: "nat \<Rightarrow> bool" and n rid and c :: "('k, 'g, 'f) ctx" and x
    assume ih: "\<And>M sig n rid c x. rec M sig n rid c = Some x \<Longrightarrow> \<not> stuck M sig rid c"
      and body: "(case states c rid of None \<Rightarrow> Some (c, Inl UB)
        | Some st \<Rightarrow>
          if i_next M (st_k st) \<and> \<not> sig n then
            (case one_turn M rid st c of Going c1 \<Rightarrow> rec M sig (n + 1) rid c1 | Waiting c1 \<Rightarrow> Some (c1, Inr 1) | Quitting c1 \<Rightarrow> rec M sig (n + 1) rid c1
             | Failed msg c1 \<Rightarrow> done_with rid (send_error st (''remote: '' @ i_where M (st_k st) msg @ msg) (c1\<lparr>genv := i_clear M (st_k st) (genv c1)\<rparr>)))
          else remote_end M (sig n) rid st c) = Some x"
    show "\<not> stuck M sig rid c"
    proof
      assume "stuck M sig rid c"
      then obtain st where st: "states c rid = Some st" "i_next M (st_k st)" "i_step M (st_k st) (genv c) = (QuitExc, genv c, [])" "\<And>i. \<not> sig i"
        by (auto simp: stuck_def)
      then have "one_turn M rid st c = Quitting (set_state rid st (genv c) c)" by (simp add: one_turn_def emplace_all_def)
      then have "rec M sig (n + 1) rid (set_state rid st (genv c) c) = Some x" using body st by simp
      moreover have "stuck M sig rid (set_state rid st (genv c) c)" using st by (simp add: stuck_def set_state_def)
      ultimately show False using ih by blast
    qed
  qed
  then show False using assms by (auto simp: stuck_def)
qed

text \<open>A result that cannot be transmitted is answered, but its state is never erased.\<close>

lemma untransmissible_kept:
  assumes "states c rid = Some st" "\<not> i_next M (st_k st)" "\<not> i_silent M (st_k st)" "\<not> sig 0" "i_last M (genv c) = VOther 13"
    and "sendRsp (st_reqid st) (st_sourceid st) (VError ''remote: untransmissible type (13)'') = Inr (Some chunks)"
  shows "\<exists>c'. remote_interpret M sig rid c = Some (c', Inr 0) \<and> states c' rid = Some st"
proof -
  have d: "dec 13 = ''13''" by code_simp
  have z: "zstr ''remote: untransmissible type (13)'' = Inr ''remote: untransmissible type (13)''" by (simp add: plain_def STRING_SIZE_def)
  show ?thesis using assms z
    by (simp add: remote_interpret_def remote_loop.simps remote_end_def Let_def untransmissible_def isTransmissible_def d send_error_def send_rsp_def)
qed

section \<open>Expired states\<close>

text \<open>In the local context, where the message is displayed, collection erases exactly the states with a response that is overdue.\<close>

lemma gc_local:
  "\<exists>c'. gc_loop local_gc_message now ttl is c = Some (c', Inr ()) \<and> requests c' = requests c \<and>
     (\<forall>i. states c' i = (case states c i of None \<Rightarrow> None
        | Some st \<Rightarrow> if i \<in> set is \<and> expired_rsp now ttl st \<noteq> None then None else Some st))"
proof (induction "is" arbitrary: c)
  case Nil
  then show ?case by (auto split: option.splits)
next
  case (Cons i "is")
  show ?case
  proof (cases "\<exists>st rsp. states c i = Some st \<and> expired_rsp now ttl st = Some rsp")
    case True
    then obtain st rsp where st: "states c i = Some st" "expired_rsp now ttl st = Some rsp" by blast
    obtain d where d: "gc_loop local_gc_message now ttl (i # is) c = gc_loop local_gc_message now ttl is d" "requests d = requests c" "states d = (states c)(i := None)"
      using st by (cases "current c = Some i") (auto simp: local_gc_message_def erase_state_def)
    obtain c' where c': "gc_loop local_gc_message now ttl is d = Some (c', Inr ())" "requests c' = requests d" "\<forall>j. states c' j = (case states d j of None \<Rightarrow> None
        | Some st \<Rightarrow> if j \<in> set is \<and> expired_rsp now ttl st \<noteq> None then None else Some st)" using Cons.IH [of d] by blast
    show ?thesis unfolding d(1) using c' d(2,3) st by (intro exI [of _ c']) (auto split: option.splits)
  next
    case False
    then have "gc_loop local_gc_message now ttl (i # is) c = gc_loop local_gc_message now ttl is c" by (auto split: option.splits)
    moreover obtain c' where c': "gc_loop local_gc_message now ttl is c = Some (c', Inr ())" "requests c' = requests c" "\<forall>j. states c' j = (case states c j of None \<Rightarrow> None
        | Some st \<Rightarrow> if j \<in> set is \<and> expired_rsp now ttl st \<noteq> None then None else Some st)" using Cons.IH [of c] by blast
    ultimately show ?thesis using False by (intro exI [of _ c']) (auto split: option.splits)
  qed
qed

lemma gc_requests_exact: "requests (gc_requests now ttl c) i = Some q \<longleftrightarrow> requests c i = Some q \<and> now - rq_time q \<le> ttl"
  by (auto simp: gc_requests_def split: option.splits)

end
