(* ===== verification/Net.thy ===== *)
theory Net
  imports Encode
begin

text \<open>
  The network layer (\<open>src/src/net_handler.cpp\<close>, \<open>src/src/net_handler.hpp\<close>): the tables of connections, the lists of complete buffers and of
  signals, and the thread that puts messages together from what the sockets hold. The kernel's side is part of the state: \<open>socks\<close> holds for
  every open descriptor the bytes that have arrived and not been read, \<open>edges\<close> the descriptors with an edge-triggered event, and the
  two counters are the event descriptors that wake the message handler. The thread is a state machine: \<open>thr\<close> is the descriptor whose event
  it handles, with the variable \<open>first_read\<close>; a turn is one pass through the \<open>while\<close> loop of \<open>run\<close>, whose condition never fails because the
  variable it tests is shadowed in its body. Failure of allocation is not represented, except for sizes that no allocation can have.
\<close>

section \<open>State\<close>

datatype Direction = INCOMING | OUTGOING
datatype Status = UP | DOWN

record 'a connection =
  conn_id :: nat
  conn_fd :: int
  conn_addr :: 'a
  conn_dir :: Direction

text \<open>A buffer of \<open>blen\<close> bytes with the bytes that have been read; their number is the \<open>offset\<close>.\<close>

record buf =
  buf_id :: nat
  blen :: nat
  btime :: int
  bdata :: "byte list"

record sock =
  avail :: "byte list"
  eof :: bool

record 'a net =
  fdToId :: "int \<rightharpoonup> nat"
  connections :: "nat \<rightharpoonup> 'a connection"
  gennb :: nat
  bufmap :: "nat \<rightharpoonup> buf"
  readybuflist :: "(nat \<times> buf) list"
  siglist :: "(nat \<times> Status) list"
  data_max :: nat
  sig_max :: nat
  data_count :: nat
  sig_count :: nat
  nbInMalformed :: nat
  nbInBuffersDrop :: nat
  socks :: "int \<rightharpoonup> sock"
  written :: "(int \<times> byte list) list"
  edges :: "int list"
  thr :: "(int \<times> bool) option"

definition emplace :: "'k \<Rightarrow> 'v \<Rightarrow> ('k \<rightharpoonup> 'v) \<Rightarrow> ('k \<rightharpoonup> 'v)" where
  "emplace k v m = (if m k = None then m(k \<mapsto> v) else m)"

section \<open>Tables of connections\<close>

definition createConnection :: "int \<Rightarrow> 'a \<Rightarrow> Direction \<Rightarrow> 'a net \<Rightarrow> nat \<times> 'a net" where
  "createConnection fd addr dir s =
     (let i = gennb s + 1 in
      (i, s\<lparr>gennb := i, fdToId := emplace fd i (fdToId s),
            connections := emplace i \<lparr>conn_id = i, conn_fd = fd, conn_addr = addr, conn_dir = dir\<rparr> (connections s)\<rparr>))"

definition getConnection :: "nat \<Rightarrow> 'a net \<Rightarrow> 'a connection res" where
  "getConnection i s = (case connections s i of None \<Rightarrow> Inl (OutOfRange ''map::at'') | Some c \<Rightarrow> Inr c)"

definition getId :: "int \<Rightarrow> 'a net \<Rightarrow> nat" where
  "getId fd s = (case fdToId s fd of None \<Rightarrow> 0 | Some i \<Rightarrow> i)"

definition getFd :: "nat \<Rightarrow> 'a net \<Rightarrow> int" where
  "getFd i s = (case connections s i of None \<Rightarrow> 0 | Some c \<Rightarrow> conn_fd c)"

definition deleteConnection :: "nat \<Rightarrow> 'a net \<Rightarrow> 'a net res" where
  "deleteConnection i s =
     (case connections s i of None \<Rightarrow> Inl UB
      | Some c \<Rightarrow> Inr (s\<lparr>fdToId := (fdToId s)(conn_fd c := None), connections := (connections s)(i := None)\<rparr>))"

section \<open>Lists of buffers and signals\<close>

definition addBufferToReadylist :: "nat \<Rightarrow> buf \<Rightarrow> 'a net \<Rightarrow> 'a net" where
  "addBufferToReadylist i b s =
     (if length (readybuflist s) = data_max s
      then s\<lparr>readybuflist := tl (readybuflist s) @ [(i, b)], nbInBuffersDrop := nbInBuffersDrop s + 1\<rparr>
      else s\<lparr>readybuflist := readybuflist s @ [(i, b)]\<rparr>)"

definition get_data :: "'a net \<Rightarrow> (nat \<times> buf) option \<times> 'a net" where
  "get_data s = (case readybuflist s of [] \<Rightarrow> (None, s) | x # xs \<Rightarrow> (Some x, s\<lparr>readybuflist := xs\<rparr>))"

text \<open>Erasing an element of \<open>bufmap\<close> invalidates the iterator that the loop then increments.\<close>

definition bufmgt_gc :: "int \<Rightarrow> int \<Rightarrow> 'a net \<Rightarrow> (nat \<times> 'a net) res" where
  "bufmgt_gc now ttl s =
     (if \<exists>b\<in>ran (bufmap s). now - btime b \<ge> ttl then Inl UB
      else let old = takeWhile (\<lambda>(i, b). now - btime b \<ge> ttl) (readybuflist s) in
        Inr (sum_list (map (\<lambda>(i, b). length (bdata b)) old), s\<lparr>readybuflist := drop (length old) (readybuflist s)\<rparr>))"

definition removeAllBuffersForId :: "nat \<Rightarrow> 'a net \<Rightarrow> 'a net" where
  "removeAllBuffersForId i s = s\<lparr>bufmap := (bufmap s)(i := None)\<rparr>"

definition add_sig :: "nat \<Rightarrow> Status \<Rightarrow> 'a net \<Rightarrow> 'a net" where
  "add_sig i st s =
     s\<lparr>siglist := (if length (siglist s) = sig_max s then tl (siglist s) else siglist s) @ [(i, st)]\<rparr>"

definition get_sig :: "'a net \<Rightarrow> (nat \<times> Status) option \<times> 'a net" where
  "get_sig s = (case siglist s of [] \<Rightarrow> (None, s) | x # xs \<Rightarrow> (Some x, s\<lparr>siglist := xs\<rparr>))"

section \<open>Connections come and go\<close>

definition open_sock :: "int \<Rightarrow> 'a net \<Rightarrow> 'a net" where
  "open_sock fd s = s\<lparr>socks := (socks s)(fd \<mapsto> \<lparr>avail = [], eof = False\<rparr>)\<rparr>"

text \<open>One incoming connection: \<open>accept\<close> has returned \<open>newfd\<close>.\<close>

definition acceptConnection :: "int \<Rightarrow> 'a \<Rightarrow> 'a net \<Rightarrow> nat \<times> 'a net" where
  "acceptConnection newfd addr s =
     (let (i, s1) = createConnection newfd addr INCOMING (open_sock newfd s); s2 = add_sig i UP s1
      in (i, s2\<lparr>sig_count := sig_count s2 + 1\<rparr>))"

definition net_connect :: "int \<Rightarrow> 'a \<Rightarrow> 'a net \<Rightarrow> nat \<times> 'a net" where
  "net_connect peerfd addr s = createConnection peerfd addr OUTGOING (open_sock peerfd s)"

definition disconnect :: "nat \<Rightarrow> 'a net \<Rightarrow> 'a net res" where
  "disconnect i s =
     (if i = 0 then Inr s
      else case getConnection i s of Inl _ \<Rightarrow> Inr s
        | Inr c \<Rightarrow>
            bindR (deleteConnection i (s\<lparr>socks := (socks s)(conn_fd c := None)\<rparr>)) (\<lambda>s1.
              let s2 = add_sig i DOWN (removeAllBuffersForId i s1) in Inr (s2\<lparr>sig_count := sig_count s2 + 1\<rparr>)))"

section \<open>Sending and receiving\<close>

definition MAGICNB :: nat where
  "MAGICNB = 0x9316481736403219"

text \<open>The first 16 bytes of the buffer of \<open>send\<close> are left free by the caller; here they are not part of \<open>body\<close>.\<close>

definition frame :: "byte list \<Rightarrow> byte list" where
  "frame body = put_u64 MAGICNB @ put_u64 (INIT_OFFSET + length body) @ body"

definition net_send :: "nat \<Rightarrow> byte list \<Rightarrow> 'a net \<Rightarrow> (nat \<times> 'a net) res" where
  "net_send i body s =
     (let fd = getFd i s in
      if fd > 0 then Inr (INIT_OFFSET + length body, s\<lparr>written := written s @ [(fd, frame body)]\<rparr>)
      else Inl (RangeError ''no connection to peer''))"

datatype recv_res = Received "byte list" | WouldBlock | RecvError

definition recv :: "int \<Rightarrow> nat \<Rightarrow> 'a net \<Rightarrow> recv_res \<times> 'a net" where
  "recv fd n s =
     (case socks s fd of None \<Rightarrow> (RecvError, s)
      | Some k \<Rightarrow>
          if n = 0 \<or> (avail k = [] \<and> eof k) then (Received [], s)
          else if avail k = [] then (WouldBlock, s)
          else (Received (take n (avail k)), s\<lparr>socks := (socks s)(fd \<mapsto> k\<lparr>avail := drop n (avail k)\<rparr>)\<rparr>))"

text \<open>\<open>NetHandler::read\<close>: the bytes when their number is positive.\<close>

definition net_read :: "nat \<Rightarrow> int \<Rightarrow> nat \<Rightarrow> 'a net \<Rightarrow> (byte list option \<times> 'a net) res" where
  "net_read i fd n s =
     (let (r, s1) = recv fd n s in
      case r of WouldBlock \<Rightarrow> Inr (None, s1)
      | RecvError \<Rightarrow> bindR (disconnect i s1) (\<lambda>s2. Inr (None, s2))
      | Received bs \<Rightarrow> if bs = [] then bindR (disconnect i s1) (\<lambda>s2. Inr (None, s2)) else Inr (Some bs, s1))"

section \<open>The reading thread\<close>

datatype pass = Proceed | Again | Leave

text \<open>No buffer is active for the connection: magic number and length of a new message.\<close>

definition start_msg :: "int \<Rightarrow> nat \<Rightarrow> int \<Rightarrow> bool \<Rightarrow> 'a net \<Rightarrow> (pass \<times> bool \<times> 'a net) res" where
  "start_msg now i fd first_read s =
     (case socks s fd of None \<Rightarrow> bindR (disconnect i s) (\<lambda>s1. Inr (Leave, first_read, s1))
      | Some k \<Rightarrow>
          if length (avail k) < 16 then
            if first_read \<and> length (avail k) = 0 then bindR (disconnect i s) (\<lambda>s1. Inr (Leave, first_read, s1))
            else Inr (Leave, first_read, s)
          else bindR (net_read i fd 8 s) (\<lambda>(m, s1).
            case m of None \<Rightarrow> Inr (Leave, False, s1)
            | Some magicnb \<Rightarrow>
                if get_le magicnb \<noteq> MAGICNB then Inr (Leave, False, s1\<lparr>nbInMalformed := nbInMalformed s1 + 1\<rparr>)
                else bindR (net_read i fd 8 s1) (\<lambda>(l, s2).
                  case l of None \<Rightarrow> Inr (Again, False, s2)
                  | Some lb \<Rightarrow>
                      let len = size_sub (get_le lb) 16 in
                      if len \<ge> 2 ^ 63 then Inl BadAlloc
                      else Inr (Proceed, False, s2\<lparr>bufmap := emplace i \<lparr>buf_id = i, blen = len, btime = now, bdata = []\<rparr> (bufmap s2)\<rparr>))))"

definition continue_msg :: "nat \<Rightarrow> int \<Rightarrow> 'a net \<Rightarrow> 'a net res" where
  "continue_msg i fd s =
     (case bufmap s i of None \<Rightarrow> Inl (OutOfRange ''unordered_map::at'')
      | Some msg \<Rightarrow>
          bindR (net_read i fd (blen msg - length (bdata msg)) s) (\<lambda>(r, s1).
            case r of None \<Rightarrow> Inr s1
            | Some bs \<Rightarrow>
                let msg' = msg\<lparr>bdata := bdata msg @ bs\<rparr> in
                if length (bdata msg') = blen msg' then
                  let s2 = addBufferToReadylist i msg' s1 in
                  Inr (s2\<lparr>bufmap := (bufmap s2)(i := None), data_count := data_count s2 + 1\<rparr>)
                else Inr (s1\<lparr>bufmap := (bufmap s1)(i \<mapsto> msg')\<rparr>)))"

text \<open>One pass; the loop goes on with the value of \<open>first_read\<close>, or is left.\<close>

definition data_pass :: "int \<Rightarrow> int \<Rightarrow> bool \<Rightarrow> 'a net \<Rightarrow> (bool option \<times> 'a net) res" where
  "data_pass now fd first_read s =
     (let i = getId fd s in
      bindR (case bufmap s i of None \<Rightarrow> start_msg now i fd first_read s | Some _ \<Rightarrow> Inr (Proceed, first_read, s)) (\<lambda>(p, fr, s1).
        case p of Leave \<Rightarrow> Inr (None, s1)
        | Again \<Rightarrow> Inr (Some fr, s1)
        | Proceed \<Rightarrow> bindR (continue_msg i fd s1) (\<lambda>s2. Inr (Some fr, s2))))"

definition readable :: "int \<Rightarrow> 'a net \<Rightarrow> bool" where
  "readable fd s = (case socks s fd of None \<Rightarrow> False | Some k \<Rightarrow> avail k \<noteq> [] \<or> eof k)"

text \<open>Waiting in \<open>epoll_wait\<close>: an event is reported for a descriptor that is still readable.\<close>

fun wake :: "int list \<Rightarrow> 'a net \<Rightarrow> 'a net" where
  "wake [] s = s\<lparr>edges := []\<rparr>"
| "wake (fd # fds) s = (if readable fd s then s\<lparr>edges := fds, thr := Some (fd, True)\<rparr> else wake fds s)"

definition turn :: "int \<Rightarrow> 'a net \<Rightarrow> 'a net res" where
  "turn now s =
     (case thr s of None \<Rightarrow> Inr (wake (edges s) s)
      | Some (fd, fr) \<Rightarrow> bindR (data_pass now fd fr s) (\<lambda>(r, s1). Inr (s1\<lparr>thr := map_option (Pair fd) r\<rparr>)))"

text \<open>Bytes arrive at a descriptor; the peer has closed its end.\<close>

definition arrive :: "int \<Rightarrow> byte list \<Rightarrow> 'a net \<Rightarrow> 'a net" where
  "arrive fd bs s =
     (case socks s fd of None \<Rightarrow> s
      | Some k \<Rightarrow> if bs = [] then s else s\<lparr>socks := (socks s)(fd \<mapsto> k\<lparr>avail := avail k @ bs\<rparr>), edges := edges s @ [fd]\<rparr>)"

definition arrive_eof :: "int \<Rightarrow> 'a net \<Rightarrow> 'a net" where
  "arrive_eof fd s =
     (case socks s fd of None \<Rightarrow> s | Some k \<Rightarrow> s\<lparr>socks := (socks s)(fd \<mapsto> k\<lparr>eof := True\<rparr>), edges := edges s @ [fd]\<rparr>)"

datatype action = Arrive int "byte list" | Eof int | Turn int

fun act :: "action \<Rightarrow> 'a net \<Rightarrow> 'a net res" where
  "act (Arrive fd bs) s = Inr (arrive fd bs s)"
| "act (Eof fd) s = Inr (arrive_eof fd s)"
| "act (Turn now) s = turn now s"

section \<open>Consistency of the tables\<close>

definition tables_wf :: "'a net \<Rightarrow> bool" where
  "tables_wf s \<longleftrightarrow>
     (\<forall>fd i. fdToId s fd = Some i \<longleftrightarrow> (\<exists>c. connections s i = Some c \<and> conn_fd c = fd)) \<and>
     (\<forall>i c. connections s i = Some c \<longrightarrow> conn_id c = i \<and> 0 < i \<and> i \<le> gennb s)"

lemma tables_bound: "tables_wf s \<Longrightarrow> gennb s < i \<Longrightarrow> connections s i = None"
  unfolding tables_wf_def by (metis not_less option.exhaust)

lemma tables_fd: "tables_wf s \<Longrightarrow> connections s i = Some c \<Longrightarrow> fdToId s (conn_fd c) = Some i"
  unfolding tables_wf_def by blast

lemma create_tables: "tables_wf s \<Longrightarrow> fdToId s fd = None \<Longrightarrow> tables_wf (snd (createConnection fd a d s))"
proof -
  assume s: "tables_wf s" and fd: "fdToId s fd = None"
  have "connections s (Suc (gennb s)) = None" using tables_bound [OF s] by simp
  moreover have "conn_fd c \<noteq> fd" if "connections s i = Some c" for i c using tables_fd [OF s that] fd by auto
  ultimately show ?thesis using s fd unfolding tables_wf_def createConnection_def emplace_def
    by (simp add: Let_def) (metis le_SucI)
qed

lemma delete_tables: "tables_wf s \<Longrightarrow> deleteConnection i s = Inr t \<Longrightarrow> tables_wf t"
proof -
  assume s: "tables_wf s" and d: "deleteConnection i s = Inr t"
  obtain c where c: "connections s i = Some c" "t = s\<lparr>fdToId := (fdToId s)(conn_fd c := None), connections := (connections s)(i := None)\<rparr>"
    using d by (auto simp: deleteConnection_def split: option.splits)
  have only: "j = i" if "connections s j = Some c'" "conn_fd c' = conn_fd c" for j c'
    using tables_fd [OF s that(1)] tables_fd [OF s c(1)] that(2) by simp
  have iff: "fdToId s fd = Some j \<longleftrightarrow> (\<exists>c'. connections s j = Some c' \<and> conn_fd c' = fd)" for fd j
    using s unfolding tables_wf_def by blast
  have "fdToId t fd = Some j \<longleftrightarrow> (\<exists>c'. connections t j = Some c' \<and> conn_fd c' = fd)" for fd j
  proof (cases "fd = conn_fd c")
    case True
    then show ?thesis using only [of j] by (auto simp: c(2))
  next
    case False
    then show ?thesis using c(1) by (simp add: c(2) iff)
  qed
  moreover have "conn_id c' = j \<and> 0 < j \<and> j \<le> gennb t" if "connections t j = Some c'" for j c'
    using s that by (auto simp: tables_wf_def c(2) split: if_splits)
  ultimately show ?thesis unfolding tables_wf_def by blast
qed

lemma disconnect_tables: "tables_wf s \<Longrightarrow> disconnect i s = Inr t \<Longrightarrow> tables_wf t"
proof -
  assume s: "tables_wf s" and d: "disconnect i s = Inr t"
  have eq: "tables_wf (u\<lparr>bufmap := b, siglist := l, sig_count := n\<rparr>) = tables_wf u" "tables_wf (u\<lparr>socks := k\<rparr>) = tables_wf u" for u :: "'a net" and b l n k
    by (simp_all add: tables_wf_def)
  show ?thesis using s d delete_tables [of "s\<lparr>socks := k\<rparr>" i for k]
    by (auto simp: disconnect_def getConnection_def bindR_eq_Inr add_sig_def removeAllBuffersForId_def eq Let_def split: if_splits option.splits)
qed

section \<open>Messages from a stream\<close>

text \<open>Messages that can be sent: not empty and of a size that can be allocated.\<close>

definition sendable_body :: "byte list \<Rightarrow> bool" where
  "sendable_body m \<longleftrightarrow> m \<noteq> [] \<and> length m < 2 ^ 63 - 16"

abbreviation stream :: "byte list list \<Rightarrow> byte list" where
  "stream ms \<equiv> concat (map frame ms)"

abbreviation ready :: "'a net \<Rightarrow> (nat \<times> byte list) list" where
  "ready s \<equiv> map (\<lambda>(i, b). (i, bdata b)) (readybuflist s)"

lemma length_frame [simp]: "length (frame m) = 16 + length m"
  by (simp add: frame_def)

lemma drop_stream: "k < length ms \<Longrightarrow> stream (drop k ms) = frame (ms ! k) @ stream (drop (Suc k) ms)"
  by (simp flip: Cons_nth_drop_Suc)

lemma stream_long: "k \<le> length ms \<Longrightarrow> length (stream (drop k ms)) < 16 \<Longrightarrow> k = length ms"
  using drop_stream [of k ms] by (cases "k = length ms") auto

lemma net_read_some:
  assumes "socks s fd = Some \<lparr>avail = A, eof = e\<rparr>" "A \<noteq> []" "0 < n"
  shows "net_read i fd n s = Inr (Some (take n A), s\<lparr>socks := (socks s)(fd \<mapsto> \<lparr>avail = drop n A, eof = e\<rparr>)\<rparr>)"
  using assms by (simp add: net_read_def recv_def)

lemma net_read_block:
  assumes "socks s fd = Some \<lparr>avail = [], eof = False\<rparr>" "0 < n"
  shows "net_read i fd n s = Inr (None, s)"
  using assms by (simp add: net_read_def recv_def)

lemma head_of_frame:
  assumes "A @ fut = frame m @ r" "16 \<le> length A"
  shows "take 8 A = put_u64 MAGICNB" "take 8 (drop 8 A) = put_u64 (16 + length m)" "drop 16 A @ fut = m @ r"
proof -
  have t: "take 16 A = put_u64 MAGICNB @ put_u64 (16 + length m)" "drop 16 A @ fut = m @ r"
    using arg_cong [OF assms(1), of "take 16"] arg_cong [OF assms(1), of "drop 16"] assms(2) by (simp_all add: frame_def INIT_OFFSET_def)
  then show "drop 16 A @ fut = m @ r" by blast
  have "take 8 A = take 8 (take 16 A)" "take 8 (drop 8 A) = drop 8 (take 16 A)" by (simp_all add: drop_take)
  then show "take 8 A = put_u64 MAGICNB" "take 8 (drop 8 A) = put_u64 (16 + length m)" unfolding t(1) by simp_all
qed

lemma start_msg_frame:
  assumes s: "socks s fd = Some \<lparr>avail = A, eof = False\<rparr>" and A: "A @ fut = frame m @ r" "16 \<le> length A"
    and m: "sendable_body m" and b: "bufmap s i = None"
  shows "start_msg now i fd fr s = Inr (Proceed, False,
    s\<lparr>socks := (socks s)(fd \<mapsto> \<lparr>avail = drop 16 A, eof = False\<rparr>), bufmap := (bufmap s)(i \<mapsto> \<lparr>buf_id = i, blen = length m, btime = now, bdata = []\<rparr>)\<rparr>)"
proof -
  define s1 where "s1 = s\<lparr>socks := (socks s)(fd \<mapsto> \<lparr>avail = drop 8 A, eof = False\<rparr>)\<rparr>"
  define s2 where "s2 = s\<lparr>socks := (socks s)(fd \<mapsto> \<lparr>avail = drop 16 A, eof = False\<rparr>)\<rparr>"
  have "net_read i fd 8 s = Inr (Some (put_u64 MAGICNB), s1)"
    using net_read_some [OF s, of 8 i] A(2) head_of_frame(1) [OF A] by (cases "A = []") (simp_all add: s1_def)
  moreover have "net_read i fd 8 s1 = Inr (Some (put_u64 (16 + length m)), s2)"
    using net_read_some [of s1 fd "drop 8 A" False 8 i] A head_of_frame [OF A] by (simp add: s1_def s2_def)
  moreover have "get_le (put_u64 (16 + length m)) = 16 + length m" "get_le (put_u64 MAGICNB) = MAGICNB"
    using m by (simp_all add: sendable_body_def MAGICNB_def)
  moreover have "size_sub (16 + length m) 16 = length m" "length m < 2 ^ 63" using m by (auto simp: size_sub_def sendable_body_def)
  ultimately show ?thesis using s A(2) b by (simp add: start_msg_def s2_def emplace_def Let_def)
qed

text \<open>The state of a connection after \<open>k\<close> of the messages \<open>ms\<close> have been put together; \<open>fut\<close> is still to arrive, \<open>t\<close> is the state of the thread.\<close>

definition pending :: "int \<Rightarrow> byte list list \<Rightarrow> byte list \<Rightarrow> nat \<Rightarrow> (int \<times> bool) option \<Rightarrow> buf option \<Rightarrow> int list \<Rightarrow> byte list \<Rightarrow> bool" where
  "pending fd ms fut k t mb es A \<longleftrightarrow>
     (case mb of
        None \<Rightarrow> A @ fut = stream (drop k ms) \<and> (case t of None \<Rightarrow> es \<noteq> [] \<or> length A < 16 | Some (f, fr) \<Rightarrow> f = fd \<and> (fr \<longrightarrow> A \<noteq> []))
      | Some b \<Rightarrow> k < length ms \<and> blen b = length (ms ! k) \<and> length (bdata b) < blen b \<and>
          bdata b @ A @ fut = ms ! k @ stream (drop (Suc k) ms) \<and> t = Some (fd, False))"

definition at_stream :: "int \<Rightarrow> nat \<Rightarrow> byte list list \<Rightarrow> 'a net \<Rightarrow> byte list \<Rightarrow> nat \<Rightarrow> (int \<times> bool) option \<Rightarrow> 'a net \<Rightarrow> bool" where
  "at_stream fd i ms s0 fut k t s \<longleftrightarrow>
     fdToId s fd = Some i \<and> k \<le> length ms \<and> data_max s = data_max s0 \<and> data_count s = data_count s0 + k \<and>
     ready s = ready s0 @ map (Pair i) (take k ms) \<and> set (edges s) \<subseteq> {fd} \<and>
     (\<exists>A. socks s fd = Some \<lparr>avail = A, eof = False\<rparr> \<and> pending fd ms fut k t (bufmap s i) (edges s) A)"

lemma at_stream_thr [simp]: "at_stream fd i ms s0 fut k t (s\<lparr>thr := x\<rparr>) = at_stream fd i ms s0 fut k t s"
  by (simp add: at_stream_def)

lemma arrive_stream:
  assumes "at_stream fd i ms s0 (bs @ fut) k (thr s) s"
  shows "at_stream fd i ms s0 fut k (thr (arrive fd bs s)) (arrive fd bs s)"
  using assms unfolding at_stream_def arrive_def pending_def by (auto split: option.splits)

text \<open>Reading on in a message that is being put together.\<close>

lemma continue_stream:
  assumes s: "at_stream fd i ms s0 fut k (Some (fd, False)) s" and b: "bufmap s i = Some b"
    and fits: "length (readybuflist s0) + length ms \<le> data_max s0"
  shows "\<exists>s' k'. continue_msg i fd s = Inr s' \<and> at_stream fd i ms s0 fut k' (Some (fd, False)) s' \<and> (fut = [] \<longrightarrow> k' = Suc k)"
proof -
  obtain A where A: "socks s fd = Some \<lparr>avail = A, eof = False\<rparr>" "k < length ms" "blen b = length (ms ! k)" "length (bdata b) < blen b"
    "bdata b @ A @ fut = ms ! k @ stream (drop (Suc k) ms)"
    using s b by (auto simp: at_stream_def pending_def)
  define n where "n = blen b - length (bdata b)"
  have n: "0 < n" using A(4) by (simp add: n_def)
  have len: "length (readybuflist s) = length (readybuflist s0) + k"
  proof -
    have "length (ready s) = length (ready s0 @ map (Pair i) (take k ms))" using s unfolding at_stream_def by metis
    then show ?thesis using A(2) by simp
  qed
  show ?thesis
  proof (cases "A = []")
    case True
    have "fut \<noteq> []" using A(3-5) True by (auto dest: arg_cong [where f = length])
    then show ?thesis using s b A(1) net_read_block [of s fd n i] n True by (auto simp: continue_msg_def n_def)
  next
    case False
    define b' where "b' = b\<lparr>bdata := bdata b @ take n A\<rparr>"
    define s1 where "s1 = s\<lparr>socks := (socks s)(fd \<mapsto> \<lparr>avail = drop n A, eof = False\<rparr>)\<rparr>"
    have rd: "net_read i fd n s = Inr (Some (take n A), s1)" using net_read_some [OF A(1) False n] by (simp add: s1_def)
    have cut: "take n A @ drop n A @ fut = A @ fut" by (metis append_assoc append_take_drop_id)
    have all: "bdata b' @ drop n A @ fut = ms ! k @ stream (drop (Suc k) ms)" using A(5) by (simp add: b'_def cut)
    show ?thesis
    proof (cases "length (bdata b') = blen b'")
      case True
      define s2 where "s2 = s1\<lparr>readybuflist := readybuflist s1 @ [(i, b')], bufmap := (bufmap s1)(i := None), data_count := data_count s1 + 1\<rparr>"
      have msg: "bdata b' = ms ! k" "drop n A @ fut = stream (drop (Suc k) ms)" using append_eq_append_conv [THEN iffD1, OF _ all] True A(3) by (simp_all add: b'_def)
      have "length (readybuflist s) \<noteq> data_max s" using s len fits A(2) by (auto simp: at_stream_def)
      then have "continue_msg i fd s = Inr s2"
        using b rd True by (simp add: continue_msg_def n_def b'_def s2_def s1_def addBufferToReadylist_def Let_def)
      moreover have "at_stream fd i ms s0 fut (Suc k) (Some (fd, False)) s2"
        using s A(2) msg by (auto simp: at_stream_def s2_def s1_def pending_def take_Suc_conv_app_nth)
      ultimately show ?thesis by blast
    next
      case False
      define s2 where "s2 = s1\<lparr>bufmap := (bufmap s1)(i \<mapsto> b')\<rparr>"
      have short: "length A < n" using False A(4) by (auto simp: b'_def n_def min_def split: if_splits)
      then have "fut \<noteq> []" using A(3-5) by (auto simp: n_def dest: arg_cong [where f = length])
      moreover have "continue_msg i fd s = Inr s2" using b rd False by (simp add: continue_msg_def n_def b'_def s2_def Let_def)
      moreover have "at_stream fd i ms s0 fut k (Some (fd, False)) s2"
        using s A(2,3) all short by (auto simp: at_stream_def s2_def s1_def pending_def b'_def n_def)
      ultimately show ?thesis by blast
    qed
  qed
qed

lemma start_stream:
  assumes s: "at_stream fd i ms s0 fut k (Some (fd, fr)) s" and b: "bufmap s i = None" and ms: "list_all sendable_body ms"
  shows "(\<exists>s1. start_msg now i fd fr s = Inr (Proceed, False, s1) \<and> at_stream fd i ms s0 fut k (Some (fd, False)) s1 \<and> bufmap s1 i \<noteq> None) \<or>
    (start_msg now i fd fr s = Inr (Leave, fr, s) \<and> at_stream fd i ms s0 fut k None s \<and> (fut = [] \<longrightarrow> k = length ms))"
proof -
  obtain A where A: "socks s fd = Some \<lparr>avail = A, eof = False\<rparr>" "A @ fut = stream (drop k ms)" "fr \<longrightarrow> A \<noteq> []" "k \<le> length ms"
    using s b by (auto simp: at_stream_def pending_def)
  show ?thesis
  proof (cases "length A < 16")
    case True
    have "k = length ms" if "fut = []"
      using stream_long [OF A(4)] A(2) that True by simp
    moreover have "at_stream fd i ms s0 fut k None s" using s b A True by (auto simp: at_stream_def pending_def)
    ultimately show ?thesis using A True by (auto simp: start_msg_def)
  next
    case False
    have k: "k < length ms" using A(2,4) False by (cases "k = length ms") auto
    define m where "m = ms ! k"
    have m: "sendable_body m" using ms k by (simp add: m_def list_all_length)
    have A': "A @ fut = frame m @ stream (drop (Suc k) ms)" using A(2) drop_stream [OF k] by (simp add: m_def)
    note st = start_msg_frame [OF A(1) A' _ m b, of now fr] and rest = head_of_frame(3) [OF A']
    show ?thesis using s st rest False k m by (auto simp: at_stream_def pending_def m_def sendable_body_def)
  qed
qed

text \<open>One turn of the thread keeps the invariant; when everything has arrived, it comes nearer to the end.\<close>

definition turns_left :: "byte list list \<Rightarrow> nat \<Rightarrow> 'a net \<Rightarrow> nat" where
  "turns_left ms k s = (if thr s \<noteq> None then length ms - k + 1 else if k = length ms then 0 else length ms - k + 2)"

lemma turn_stream:
  assumes s: "at_stream fd i ms s0 fut k (thr s) s" and ms: "list_all sendable_body ms"
    and fits: "length (readybuflist s0) + length ms \<le> data_max s0"
  shows "\<exists>s' k'. turn now s = Inr s' \<and> at_stream fd i ms s0 fut k' (thr s') s' \<and> (fut = [] \<longrightarrow> turns_left ms k' s' \<le> turns_left ms k s - 1)"
proof (cases "thr s")
  case None
  obtain A where A: "socks s fd = Some \<lparr>avail = A, eof = False\<rparr>" "pending fd ms fut k None (bufmap s i) (edges s) A" "set (edges s) \<subseteq> {fd}" "k \<le> length ms"
    using s None by (auto simp: at_stream_def)
  have b: "bufmap s i = None" "A @ fut = stream (drop k ms)" "edges s \<noteq> [] \<or> length A < 16" using A(2) by (auto simp: pending_def split: option.splits)
  have wake: "wake es s = (if es \<noteq> [] \<and> A \<noteq> [] then s\<lparr>edges := tl es, thr := Some (fd, True)\<rparr> else s\<lparr>edges := []\<rparr>)" if "set es \<subseteq> {fd}" for es
    using that A(1) by (induction es) (auto simp: readable_def)
  have long: "16 \<le> length A" if "k \<noteq> length ms" "fut = []"
    using stream_long [OF A(4)] b(2) that by (cases "length A < 16") simp_all
  have tl: "set (tl (edges s)) \<subseteq> {fd}" using A(3) by (cases "edges s") auto
  show ?thesis
  proof (cases "edges s \<noteq> [] \<and> A \<noteq> []")
    case True
    define s' where "s' = s\<lparr>edges := tl (edges s), thr := Some (fd, True)\<rparr>"
    have "turn now s = Inr s'" using True None wake [OF A(3)] by (simp add: turn_def s'_def)
    moreover have "at_stream fd i ms s0 fut k (thr s') s'" using s A True tl b by (auto simp: at_stream_def pending_def s'_def)
    moreover have "k \<noteq> length ms" if "fut = []" using b(2) True that by auto
    ultimately show ?thesis using None by (intro exI [of _ s'] exI [of _ k]) (auto simp: turns_left_def s'_def)
  next
    case False
    define s' where "s' = s\<lparr>edges := []\<rparr>"
    have "turn now s = Inr s'" using False None wake [OF A(3)] by (auto simp: turn_def s'_def)
    moreover have A16: "length A < 16" using False b(3) by auto
    moreover have "at_stream fd i ms s0 fut k (thr s') s'" using s A b None A16 by (auto simp: at_stream_def pending_def s'_def)
    moreover have "k = length ms" if "fut = []" using long that A16 by fastforce
    ultimately show ?thesis using None by (intro exI [of _ s'] exI [of _ k]) (auto simp: turns_left_def s'_def)
  qed
next
  case (Some t)
  obtain fr where t: "thr s = Some (fd, fr)" using s Some by (auto simp: at_stream_def pending_def split: option.splits)
  have i: "getId fd s = i" using s by (simp add: at_stream_def getId_def)
  show ?thesis
  proof (cases "bufmap s i")
    case None
    from start_stream [OF s [unfolded t] None ms, of now] show ?thesis
    proof (elim disjE exE conjE)
      fix s1 assume s1: "start_msg now i fd fr s = Inr (Proceed, False, s1)" "at_stream fd i ms s0 fut k (Some (fd, False)) s1" "bufmap s1 i \<noteq> None"
      obtain s2 k' where s2: "continue_msg i fd s1 = Inr s2" "at_stream fd i ms s0 fut k' (Some (fd, False)) s2" "fut = [] \<longrightarrow> k' = Suc k"
        using continue_stream [OF s1(2) _ fits] s1(3) by blast
      have "turn now s = Inr (s2\<lparr>thr := Some (fd, False)\<rparr>)" using t i None s1(1) s2(1) by (simp add: turn_def data_pass_def Let_def)
      then show ?thesis using s2 t by (intro exI [of _ "s2\<lparr>thr := Some (fd, False)\<rparr>"] exI [of _ k']) (auto simp: turns_left_def at_stream_def)
    next
      assume s1: "start_msg now i fd fr s = Inr (Leave, fr, s)" "at_stream fd i ms s0 fut k None s" "fut = [] \<longrightarrow> k = length ms"
      have "turn now s = Inr (s\<lparr>thr := None\<rparr>)" using t i None s1(1) by (simp add: turn_def data_pass_def Let_def)
      then show ?thesis using s1 t by (intro exI [of _ "s\<lparr>thr := None\<rparr>"] exI [of _ k]) (auto simp: turns_left_def)
    qed
  next
    case (Some b)
    have fr: "fr = False" using s Some t by (auto simp: at_stream_def pending_def)
    obtain s2 k' where s2: "continue_msg i fd s = Inr s2" "at_stream fd i ms s0 fut k' (Some (fd, False)) s2" "fut = [] \<longrightarrow> k' = Suc k"
      using continue_stream [OF s [unfolded t fr] Some fits] by blast
    have "turn now s = Inr (s2\<lparr>thr := Some (fd, False)\<rparr>)" using t fr i Some s2(1) by (simp add: turn_def data_pass_def Let_def)
    then show ?thesis using s2 t by (intro exI [of _ "s2\<lparr>thr := Some (fd, False)\<rparr>"] exI [of _ k']) (auto simp: turns_left_def at_stream_def)
  qed
qed

section \<open>Every message is delivered\<close>

text \<open>What arrives in a schedule at the connection, and the schedules that only concern it.\<close>

fun arrivals :: "action list \<Rightarrow> byte list" where
  "arrivals (Arrive fd bs # as) = bs @ arrivals as"
| "arrivals (a # as) = arrivals as"
| "arrivals [] = []"

fun only_conn :: "int \<Rightarrow> action \<Rightarrow> bool" where
  "only_conn fd (Arrive f bs) = (f = fd)"
| "only_conn fd (Eof f) = False"
| "only_conn fd (Turn now) = True"

lemma schedule_stream:
  assumes "at_stream fd i ms s0 (arrivals as @ fut) k (thr s) s" "list_all (only_conn fd) as"
    and ms: "list_all sendable_body ms" and fits: "length (readybuflist s0) + length ms \<le> data_max s0"
  shows "\<exists>s' k'. foldR act as s = Inr s' \<and> at_stream fd i ms s0 fut k' (thr s') s'"
  using assms(1,2)
proof (induction as arbitrary: s k)
  case (Cons a as)
  show ?case
  proof (cases a)
    case (Arrive f bs)
    then show ?thesis using Cons.IH [of k "arrive fd bs s"] Cons.prems arrive_stream [of fd i ms s0 bs "arrivals as @ fut" k s] by simp
  next
    case (Turn now)
    then have s: "at_stream fd i ms s0 (arrivals as @ fut) k (thr s) s" using Cons.prems(1) by simp
    obtain s' k' where s': "turn now s = Inr s'" "at_stream fd i ms s0 (arrivals as @ fut) k' (thr s') s'"
      using turn_stream [OF s ms fits, of now] by blast
    then show ?thesis using Cons.IH [OF s'(2)] Cons.prems(2) Turn by simp
  qed (use Cons.prems(2) in simp)
qed auto

lemma turns_stream:
  assumes "at_stream fd i ms s0 [] k (thr s) s" "turns_left ms k s \<le> length ts"
    and ms: "list_all sendable_body ms" and fits: "length (readybuflist s0) + length ms \<le> data_max s0"
  shows "\<exists>s' k'. foldR act (map Turn ts) s = Inr s' \<and> at_stream fd i ms s0 [] k' (thr s') s' \<and> turns_left ms k' s' = 0"
  using assms(1,2)
proof (induction ts arbitrary: s k)
  case (Cons t ts)
  obtain s' k' where s': "turn t s = Inr s'" "at_stream fd i ms s0 [] k' (thr s') s'" "turns_left ms k' s' \<le> turns_left ms k s - 1"
    using turn_stream [OF Cons.prems(1) ms fits, of t] by blast
  then show ?case using Cons.IH [OF s'(2)] Cons.prems(2) by simp
qed auto

lemma stream_delivered:
  assumes "fdToId s fd = Some i" "socks s fd = Some \<lparr>avail = [], eof = False\<rparr>" "bufmap s i = None" "thr s = None" "edges s = []"
    and "list_all (only_conn fd) as" "arrivals as = stream ms" "list_all sendable_body ms"
    and "length (readybuflist s) + length ms \<le> data_max s" "length ms + 2 \<le> length ts"
  shows "\<exists>s'. foldR act (as @ map Turn ts) s = Inr s' \<and> ready s' = ready s @ map (Pair i) ms \<and> data_count s' = data_count s + length ms \<and>
    thr s' = None \<and> fdToId s' fd = Some i \<and> socks s' fd = Some \<lparr>avail = [], eof = False\<rparr>"
proof -
  have "at_stream fd i ms s (arrivals as @ []) 0 (thr s) s" using assms(1-5,7) by (simp add: at_stream_def pending_def)
  then obtain s1 k1 where s1: "foldR act as s = Inr s1" "at_stream fd i ms s [] k1 (thr s1) s1"
    using schedule_stream [OF _ assms(6,8,9)] by blast
  then have "turns_left ms k1 s1 \<le> length ts" using assms(10) unfolding turns_left_def by (simp split: if_splits) linarith
  then obtain s' k where s': "foldR act (map Turn ts) s1 = Inr s'" "at_stream fd i ms s [] k (thr s') s'" "turns_left ms k s' = 0"
    using turns_stream [OF s1(2) _ assms(8,9)] by blast
  have k: "thr s' = None" "k = length ms" using s'(3) by (cases "thr s'"; simp add: turns_left_def split: if_splits)+
  then have "bufmap s' i = None" "socks s' fd = Some \<lparr>avail = [], eof = False\<rparr>" using s'(2) by (auto simp: at_stream_def pending_def split: option.splits)
  then show ?thesis using s1(1) s'(1,2) k by (auto simp: foldR_append at_stream_def)
qed


section \<open>Examples\<close>

definition net_example :: "unit net" where
  "net_example = \<lparr>fdToId = [5 \<mapsto> 1], connections = [1 \<mapsto> \<lparr>conn_id = 1, conn_fd = 5, conn_addr = (), conn_dir = INCOMING\<rparr>], gennb = 1,
     bufmap = Map.empty, readybuflist = [], siglist = [], data_max = 100000, sig_max = 10, data_count = 0, sig_count = 0, nbInMalformed = 0,
     nbInBuffersDrop = 0, socks = [5 \<mapsto> \<lparr>avail = [], eof = False\<rparr>], written = [], edges = [], thr = None\<rparr>"


text \<open>A peer that stops in the middle of a message keeps the thread: it turns without effect, and events of other descriptors wait.\<close>

lemma stalled_peer_spins:
  assumes "thr s = Some (fd, fr)" "fdToId s fd = Some i" "bufmap s i = Some b" "length (bdata b) < blen b" "socks s fd = Some \<lparr>avail = [], eof = False\<rparr>"
  shows "turn now s = Inr s"
  using assms net_read_block [OF assms(5), of "blen b - length (bdata b)" i]
  by (cases s) (simp add: turn_def data_pass_def getId_def continue_msg_def Let_def)

text \<open>A length below 16 wraps around; no handler catches the failed allocation.\<close>

lemma short_length_ends_thread:
  "foldR act [Arrive 5 (put_u64 MAGICNB @ put_u64 3), Turn 0, Turn 0] net_example = Inl BadAlloc"
  by (simp add: net_example_def arrive_def turn_def readable_def data_pass_def getId_def start_msg_def net_read_def recv_def MAGICNB_def
      size_sub_def Let_def del: put_le.simps)

text \<open>Reading the zero bytes of an empty message is taken for the end of the stream, and the connection is closed.\<close>

lemma empty_message_disconnects:
  "\<exists>s. foldR act [Arrive 5 (frame []), Turn 0, Turn 0] net_example = Inr s \<and> socks s 5 = None \<and> siglist s = [(1, DOWN)]"
  by (simp add: net_example_def arrive_def turn_def readable_def data_pass_def getId_def start_msg_def continue_msg_def net_read_def recv_def
      disconnect_def getConnection_def deleteConnection_def add_sig_def removeAllBuffersForId_def emplace_def frame_def INIT_OFFSET_def MAGICNB_def
      size_sub_def Let_def del: put_le.simps)

text \<open>\<open>disconnect\<close> closes the descriptor before it updates the tables. When the system gives the descriptor to a new connection in between,
  the entry of the old one stays and is then removed, and messages for the new connection belong to no one.\<close>

lemma reused_descriptor_lost:
  "let s = snd (net_connect 5 () (net_example\<lparr>socks := Map.empty\<rparr>)) in
   connections s 2 \<noteq> None \<and> getId 5 s = 1 \<and> (\<exists>t. deleteConnection 1 s = Inr t \<and> connections t 2 \<noteq> None \<and> getId 5 t = 0)"
  by (simp add: net_example_def net_connect_def open_sock_def createConnection_def emplace_def getId_def deleteConnection_def Let_def)

text \<open>More than ten signals that wait: the oldest is dropped, so that a connection comes up unnoticed.\<close>

lemma signal_dropped: "(0, UP) \<notin> set (siglist (fold (\<lambda>i. add_sig i UP) [0, 1, 2, 3, 4, 5, 6, 7, 8, 9, 10] net_example))"
  by (simp add: net_example_def add_sig_def)

end
