(* ===== verification/Msg_Handler.thy ===== *)
theory Msg_Handler
  imports Context Net
begin

text \<open>
  The message handler (\<open>MsgHandler\<close> in \<open>src/src/msg_handler.hpp\<close> and \<open>src/src/msg_handler.cpp\<close>): the contexts of the peers, the dispatch of signals and messages and of
  timers. A response context is a reference to a context that lives elsewhere. Contexts share the global environment: \<open>h_share\<close> carries what one has changed over to the others.
  Reading of appended data into variables is the parameter \<open>h_append\<close>. The main result follows a request all the way: from the encoder of
  the peer over the network and the handler to the interpreter, and back to the value that the peer reads.
\<close>

section \<open>State\<close>

datatype ctx_ref = LocalCtx | RemoteCtx nat | TimerCtx int

record ('k, 'g, 'f) host =
  h_M :: "('k, 'g, 'f) interp"
  h_env :: env
  h_new :: "'g \<Rightarrow> 'g"
  h_share :: "'g \<Rightarrow> 'g \<Rightarrow> 'g"
  h_append :: "MsgType \<Rightarrow> byte list \<Rightarrow> 'g \<Rightarrow> 'g \<times> exn option"

record ('k, 'g, 'f) handler =
  reqContexts :: "nat \<rightharpoonup> ('k, 'g, 'f) ctx"
  rspContexts :: "nat \<rightharpoonup> ctx_ref"
  localContext :: "('k, 'g, 'f) ctx"
  timerContexts :: "int \<rightharpoonup> timer \<times> ('k, 'g, 'f) ctx"

definition mk_ctx :: "'g \<Rightarrow> ('k, 'g, 'f) ctx" where
  "mk_ctx g = \<lparr>requests = Map.empty, states = Map.empty, current = None, genv = g, out = [], closed = [], console = [], polling = False\<rparr>"

definition get_ctx :: "ctx_ref \<Rightarrow> ('k, 'g, 'f) handler \<Rightarrow> ('k, 'g, 'f) ctx option" where
  "get_ctx r h = (case r of LocalCtx \<Rightarrow> Some (localContext h) | RemoteCtx i \<Rightarrow> reqContexts h i | TimerCtx fd \<Rightarrow> map_option snd (timerContexts h fd))"

definition put_ctx :: "('k, 'g, 'f) host \<Rightarrow> ctx_ref \<Rightarrow> ('k, 'g, 'f) ctx \<Rightarrow> ('k, 'g, 'f) handler \<Rightarrow> ('k, 'g, 'f) handler" where
  "put_ctx H r c h =
     (let sh = (\<lambda>d. d\<lparr>genv := h_share H (genv c) (genv d)\<rparr>) in
      h\<lparr>reqContexts := (\<lambda>i. if r = RemoteCtx i then Some c else map_option sh (reqContexts h i)),
        localContext := (if r = LocalCtx then c else sh (localContext h)),
        timerContexts := (\<lambda>fd. map_option (\<lambda>(t, d). (t, if r = TimerCtx fd then c else sh d)) (timerContexts h fd))\<rparr>)"

section \<open>Signals\<close>

definition handle_sig :: "('k, 'g, 'f) host \<Rightarrow> nat \<times> Status \<Rightarrow> ('k, 'g, 'f) handler \<Rightarrow> ('k, 'g, 'f) handler" where
  "handle_sig H s h =
     (case s of (i, UP) \<Rightarrow> h\<lparr>reqContexts := emplace i (mk_ctx (h_new H (genv (localContext h)))) (reqContexts h)\<rparr>
      | (i, DOWN) \<Rightarrow> h\<lparr>rspContexts := (rspContexts h)(i := None), reqContexts := (reqContexts h)(i := None)\<rparr>)"

fun sig_loop :: "('k, 'g, 'f) host \<Rightarrow> nat \<Rightarrow> (nat \<times> Status) list \<Rightarrow> ('k, 'g, 'f) handler \<Rightarrow> (nat \<times> Status) list \<times> ('k, 'g, 'f) handler" where
  "sig_loop H (Suc v) (s # ss) h = sig_loop H v ss (handle_sig H s h)"
| "sig_loop H v ss h = (ss, h)"

definition handler_connect :: "nat \<Rightarrow> ctx_ref \<Rightarrow> ('k, 'g, 'f) handler \<Rightarrow> ('k, 'g, 'f) handler" where
  "handler_connect i r h = (if i > 0 then h\<lparr>rspContexts := emplace i r (rspContexts h)\<rparr> else h)"

section \<open>Messages\<close>

datatype after_msg = Goon | Break | Stop int

fun msg_type :: "nat \<Rightarrow> MsgType option" where
  "msg_type n = (if n = 0 then Some REQ else if n = 1 then Some RSP else if n = 2 then Some APPEND else if n = 3 then Some APPEND_VECTOR else None)"

text \<open>\<open>interpret\<close> of the context that is referred to.\<close>

definition interpret_in :: "('k, 'g, 'f) host \<Rightarrow> (nat \<Rightarrow> bool) \<Rightarrow> ctx_ref \<Rightarrow> ('k, 'g, 'f) interpreter" where
  "interpret_in H sig r =
     (case r of LocalCtx \<Rightarrow> local_interpret (h_M H) sig | RemoteCtx i \<Rightarrow> (\<lambda>rv. remote_interpret (h_M H) sig) | TimerCtx fd \<Rightarrow> (\<lambda>rv. timer_interpret (h_M H) sig))"

definition handle_append :: "('k, 'g, 'f) host \<Rightarrow> MsgType \<Rightarrow> nat \<Rightarrow> byte list \<Rightarrow> ('k, 'g, 'f) handler \<Rightarrow> (('k, 'g, 'f) handler \<times> after_msg) res option" where
  "handle_append H mt i body h =
     (case reqContexts h i of None \<Rightarrow> Some (Inr (h, Break))
      | Some c \<Rightarrow>
          (case h_append H mt body (genv c) of (g, Some UB) \<Rightarrow> Some (Inl UB)
           | (g, _) \<Rightarrow> Some (Inr (put_ctx H (RemoteCtx i) (c\<lparr>genv := g\<rparr>) h, Goon))))"

text \<open>An exception is logged; what has no meaning stays so.\<close>

definition handle_req :: "('k, 'g, 'f) host \<Rightarrow> (nat \<Rightarrow> bool) \<Rightarrow> int \<Rightarrow> nat \<Rightarrow> nat \<Rightarrow> nat \<Rightarrow> byte list \<Rightarrow> ('k, 'g, 'f) handler \<Rightarrow> (('k, 'g, 'f) handler \<times> after_msg) res option" where
  "handle_req H sig now i reqid sourceid body h =
     (case reqContexts h i of None \<Rightarrow> Some (Inr (h, Break))
      | Some c \<Rightarrow>
          (case readReqData (h_M H) (interpret_in H sig (RemoteCtx i)) (h_env H) now i reqid sourceid body c of None \<Rightarrow> None
           | Some (c1, Inl UB) \<Rightarrow> Some (Inl UB)
           | Some (c1, _) \<Rightarrow> Some (Inr (put_ctx H (RemoteCtx i) c1 h, Goon))))"

definition handle_rsp :: "('k, 'g, 'f) host \<Rightarrow> (nat \<Rightarrow> bool) \<Rightarrow> bool \<Rightarrow> nat \<Rightarrow> nat \<Rightarrow> nat \<Rightarrow> byte list \<Rightarrow> ('k, 'g, 'f) handler \<Rightarrow> (('k, 'g, 'f) handler \<times> after_msg) res option" where
  "handle_rsp H sig once i reqid sourceid body h =
     (case rspContexts h i of None \<Rightarrow> Some (Inr (h, Break))
      | Some r \<Rightarrow>
          (case get_ctx r h of None \<Rightarrow> Some (Inl UB)
           | Some c \<Rightarrow>
               (case readRspData (h_M H) (interpret_in H sig r) (h_env H) reqid sourceid body c of None \<Rightarrow> None
                | Some (c1, Inl UB) \<Rightarrow> Some (Inl UB)
                | Some (c1, Inl e) \<Rightarrow> Some (Inr (put_ctx H r c1 h, if once then Stop (- 1) else Goon))
                | Some (c1, Inr waiting) \<Rightarrow> Some (Inr (put_ctx H r c1 h, if waiting = 0 \<and> once then Stop 0 else Goon)))))"

definition handle_msg :: "('k, 'g, 'f) host \<Rightarrow> (nat \<Rightarrow> bool) \<Rightarrow> int \<Rightarrow> bool \<Rightarrow> nat \<Rightarrow> byte list \<Rightarrow> ('k, 'g, 'f) handler \<Rightarrow> (('k, 'g, 'f) handler \<times> after_msg) res option" where
  "handle_msg H sig now once i buf h =
     liftR (read_u64 buf) (\<lambda>(mt, body).
       case msg_type mt of
         Some APPEND \<Rightarrow> handle_append H APPEND i body h
       | Some APPEND_VECTOR \<Rightarrow> handle_append H APPEND_VECTOR i body h
       | _ \<Rightarrow> liftR (read_u64 body) (\<lambda>(reqid, b1). liftR (read_u64 b1) (\<lambda>(sourceid, b2).
           if msg_type mt = Some REQ then handle_req H sig now i reqid sourceid b2 h
           else if msg_type mt = Some RSP then handle_rsp H sig once i reqid sourceid b2 h
           else Some (Inr (h, Goon)))))"

text \<open>The loop over the messages that the event announces: what is left in the list of the network layer, and the value with which the handler returns.\<close>

fun data_loop :: "('k, 'g, 'f) host \<Rightarrow> (nat \<Rightarrow> bool) \<Rightarrow> int \<Rightarrow> bool \<Rightarrow> nat \<Rightarrow> (nat \<times> byte list) list \<Rightarrow> ('k, 'g, 'f) handler \<Rightarrow>
    ((nat \<times> byte list) list \<times> ('k, 'g, 'f) handler \<times> int option) res option" where
  "data_loop H sig now once (Suc v) ((i, buf) # ms) h =
     (case handle_msg H sig now once i buf h of None \<Rightarrow> None
      | Some r \<Rightarrow> liftR r (\<lambda>(h', a).
          case a of Goon \<Rightarrow> data_loop H sig now once v ms h' | Break \<Rightarrow> Some (Inr (ms, h', None)) | Stop k \<Rightarrow> Some (Inr (ms, h', Some k))))"
| "data_loop H sig now once v ms h = Some (Inr (ms, h, None))"

section \<open>Timers\<close>

text \<open>A timer has expired; \<open>reqid\<close> is the next number.\<close>

definition handle_timer :: "('k, 'g, 'f) host \<Rightarrow> (nat \<Rightarrow> bool) \<Rightarrow> nat \<Rightarrow> int \<Rightarrow> ('k, 'g, 'f) handler \<Rightarrow> (('k, 'g, 'f) handler \<times> after_msg) res option" where
  "handle_timer H sig reqid fd h =
     (case timerContexts h fd of None \<Rightarrow> Some (Inr (h, Break))
      | Some (t, c) \<Rightarrow>
          (case interpretTimer (h_M H) sig reqid (nat fd) t c of (t', None) \<Rightarrow> None
           | (t', Some (c1, Inl UB)) \<Rightarrow> Some (Inl UB)
           | (t', Some (c1, _)) \<Rightarrow> Some (Inr (put_ctx H (TimerCtx fd) c1 (h\<lparr>timerContexts := (timerContexts h)(fd \<mapsto> (t', c1))\<rparr>), Goon))))"

section \<open>The head of every chunk\<close>

definition headed :: "encoder \<Rightarrow> bool" where
  "headed e \<longleftrightarrow> enc_wf e \<and> (\<forall>c\<in>set (sent e). take 24 c = ehead e)"

lemma headed_append: "headed e \<Longrightarrow> headed (e\<lparr>ebuf := ebuf e @ zs\<rparr>)"
  using append_ok(1) [of e zs] by (simp add: headed_def)

lemma headed_flush: "headed e \<Longrightarrow> headed (enc_flush e)"
  using flush_ok(1) [of e] by (auto simp: headed_def enc_flush_def enc_wf_def)

lemma headed_fits: "fits is e \<Longrightarrow> headed e \<Longrightarrow> put_items is e = Some e' \<Longrightarrow> headed e' \<and> ehead e' = ehead e"
proof (induction "is" e rule: fits.induct)
  case (2 zs "is" e)
  have "headed (put_fixed zs e)" "ehead (put_fixed zs e) = ehead e"
    using headed_append [of e zs] headed_append [of "enc_flush e" zs] headed_flush [of e] 2(3) by (auto simp: put_fixed_def enc_flush_def Let_def)
  then show ?case using 2 by simp
next
  case (3 s "is" e)
  then show ?case using headed_append [of e "flat_item (Chars s)"] chars_loop_fits [of s e] by simp
next
  case (4 "is" e)
  then show ?case using headed_flush [of e] by (auto simp: enc_room_def enc_flush_def split: if_splits)
qed simp

lemma headed_kept: "kept p e e' \<Longrightarrow> headed e \<Longrightarrow> headed e' \<and> ehead e' = ehead e"
  using kept_wf [of p e e'] by (auto simp: kept_def headed_def enc_wf_def)

lemma headed_whole: "whole ps e \<Longrightarrow> headed e \<Longrightarrow> put_items (concat ps) e = Some e' \<Longrightarrow> headed e' \<and> ehead e' = ehead e"
  by (induction ps arbitrary: e) (auto simp: put_items_append dest!: headed_kept split: option.splits)

lemma request_heads:
  assumes "cut_between reqid sourceid e l" "sendReq peerid reqid sourceid e l = Inr (Some chunks)" "c \<in> set chunks"
  shows "take 24 c = head_bytes (msg_number REQ) reqid sourceid"
proof -
  define e0 where "e0 = mk_encoder (msg_number REQ) reqid sourceid"
  have e0: "headed e0" "ehead e0 = head_bytes (msg_number REQ) reqid sourceid"
    using mk_encoder_wf(1) by (simp_all add: headed_def e0_def, simp_all add: mk_encoder_def Let_def)
  obtain "is" e1 ps where c: "code_items e = Inr is" "fits is e0" "put_items is e0 = Some e1" "writeValue (VList l) = Inr ps" "whole ps e1"
    using assms(1) by (cases "writeValue (VList l)") (auto simp: cut_between_def e0_def split: sum.splits option.splits simp del: writeValue.simps)
  obtain e2 where e2: "put_items (concat ps) e1 = Some e2" "chunks = sent (enc_flush e2)"
    using assms(2) c by (auto simp: sendReq_def req_encoder_def put_items_append e0_def split: if_splits simp del: any_of.simps writeValue.simps)
  have h1: "headed e1" "ehead e1 = ehead e0" using headed_fits [OF c(2) e0(1) c(3)] by simp_all
  have "headed e2" "ehead e2 = ehead e0" using headed_whole [OF c(5) h1(1) e2(1)] h1(2) by simp_all
  then show ?thesis using headed_flush [of e2] e2(2) e0(2) assms(3) by (simp add: headed_def) (simp add: enc_flush_def)
qed

section \<open>Dispatch of the chunks of a request\<close>

lemma read_head:
  assumes "take 24 u = head_bytes m r q" "m < 2 ^ 64" "r < 2 ^ 64" "q < 2 ^ 64"
  shows "read_u64 u = Inr (m, drop 8 u)" "read_u64 (drop 8 u) = Inr (r, drop 16 u)" "read_u64 (drop 16 u) = Inr (q, drop 24 u)"
proof -
  have "u = head_bytes m r q @ drop 24 u" using assms(1) by (metis append_take_drop_id)
  then obtain x where x: "u = put_u64 m @ put_u64 r @ put_u64 q @ x" "x = drop 24 u" by (metis append_assoc head_bytes_def)
  show "read_u64 u = Inr (m, drop 8 u)" "read_u64 (drop 8 u) = Inr (r, drop 16 u)" "read_u64 (drop 16 u) = Inr (q, drop 24 u)"
    using assms(2-4) by (simp_all add: x(1) read_u64_put del: put_le.simps)
qed

lemma msg_dispatched:
  assumes "reqContexts h i = Some c" "take 24 u = head_bytes (msg_number REQ) reqid sourceid" "reqid < 2 ^ 64" "sourceid < 2 ^ 64"
    and "readReqData (h_M H) (interpret_in H sig (RemoteCtx i)) (h_env H) now i reqid sourceid (drop 24 u) c = Some (c1, Inr x)"
  shows "handle_msg H sig now once i u h = Some (Inr (put_ctx H (RemoteCtx i) c1 h, Goon))"
  using read_head [OF assms(2) _ assms(3,4)] assms(1,5) by (simp add: handle_msg_def handle_req_def)

lemma put_ctx_same: "reqContexts (put_ctx H (RemoteCtx i) c h) i = Some c"
  by (simp add: put_ctx_def Let_def)

lemma data_loop_reads:
  assumes "reqContexts h i = Some c" "\<forall>u\<in>set chunks. take 24 u = head_bytes (msg_number REQ) reqid sourceid" "reqid < 2 ^ 64" "sourceid < 2 ^ 64"
    and "ctx_reads (h_M H) (interpret_in H sig (RemoteCtx i)) (h_env H) now i reqid sourceid (map (drop 24) chunks) c = Some (c2, Inr (Some ()))"
  shows "\<exists>h'. data_loop H sig now once (length chunks) (map (Pair i) chunks) h = Some (Inr ([], h', None)) \<and> reqContexts h' i = Some c2"
  using assms
proof (induction chunks arbitrary: h c)
  case (Cons u us)
  obtain c1 where c1: "readReqData (h_M H) (interpret_in H sig (RemoteCtx i)) (h_env H) now i reqid sourceid (drop 24 u) c = Some (c1, Inr (Some ()))"
    "ctx_reads (h_M H) (interpret_in H sig (RemoteCtx i)) (h_env H) now i reqid sourceid (map (drop 24) us) c1 = Some (c2, Inr (Some ()))"
    using Cons.prems(5) by (auto split: option.splits sum.splits prod.splits)
  have "handle_msg H sig now once i u h = Some (Inr (put_ctx H (RemoteCtx i) c1 h, Goon))"
    using Cons.prems(1-4) c1(1) by (intro msg_dispatched) auto
  then show ?case using Cons.IH [OF put_ctx_same _ Cons.prems(3,4) c1(2)] Cons.prems(2) by (simp add: liftR_def)
qed simp

section \<open>A request from one end to the other\<close>

text \<open>The context of the peer after a request has been received and interpreted.\<close>

lemma request_interpreted:
  assumes "reqContexts h i = Some c" "requests c reqid = None" "states c reqid = None"
    and "us \<noteq> []" "req_buffers (h_env H) us (mk_req reqid sourceid now) = Some (Inr q)" "rq_state q = CTX_REQ_DONE" "rq_code q = Some e" "vval (valstack q ! 0) = VList l"
    and "run (h_M H) n reqid ((new_state (h_M H) reqid sourceid i e l c)\<lparr>current := Some reqid\<rparr>) = Some c1" "states c1 reqid = Some st1"
    and "\<not> i_next (h_M H) (st_k st1)" "\<not> i_silent (h_M H) (st_k st1)"
    and "v = i_last (h_M H) (genv c1)" "which v \<noteq> 15" "\<not> untransmissible v" "sendRsp reqid sourceid v = Inr (Some ps)" "\<And>j. \<not> sig j"
  shows "\<exists>c2. ctx_reads (h_M H) (interpret_in H sig (RemoteCtx i)) (h_env H) now i reqid sourceid us c = Some (c2, Inr (Some ())) \<and>
    out c2 = out c @ [(i, reqid, sourceid, v)] \<and> states c2 reqid = None"
proof -
  define c0 where "c0 = new_state (h_M H) reqid sourceid i e l c"
  have c0': "new_state (h_M H) reqid sourceid i e l (c\<lparr>requests := (requests c)(reqid := None)\<rparr>) = c0"
    using assms(2) by (simp add: c0_def fun_upd_idem)
  obtain st where st: "states c0 reqid = Some st" "st_reqid st = reqid" "st_sourceid st = sourceid" "st_peerid st = i" and o: "out c0 = out c"
    using assms(3) by (cases "i_init (h_M H) e l (genv c)") (simp add: c0_def new_state_def)
  obtain c2 where c2: "remote_interpret (h_M H) sig reqid c0 = Some (c2, Inr 0)" "out c2 = out c @ [(i, reqid, sourceid, v)]" "states c2 reqid = None"
    using run_answered [OF assms(9) [folded c0_def] st(1) assms(10-15), of ps sig] assms(16,17) st o by auto
  have "ctx_reads (h_M H) (interpret_in H sig (RemoteCtx i)) (h_env H) now i reqid sourceid us c = Some (c2, Inr (Some ()))"
    using assms(2) c2(1) by (intro ctx_reads_request [OF assms(4-8)]) (simp_all only: c0' interpret_in_def ctx_ref.case option.case)
  then show ?thesis using c2 by blast
qed


text \<open>A server that counts, and the peer \<open>1\<close>.\<close>

definition count_host :: "(nat, nat, unit) host" where
  "count_host = \<lparr>h_M = count_interp, h_env = example_env, h_new = (\<lambda>g. g), h_share = (\<lambda>g d. g), h_append = (\<lambda>m u g. (g, None))\<rparr>"

definition count_server :: "(nat, nat, unit) handler" where
  "count_server = \<lparr>reqContexts = [1 \<mapsto> mk_ctx 0], rspContexts = Map.empty, localContext = mk_ctx 0, timerContexts = Map.empty\<rparr>"

lemma example_request:
  "\<exists>is chunks. writeCode code_example = Inr is \<and> length (flat_items is) < 2 ^ 32 \<and> sendable code_example \<and> cut_between 7 1 code_example [(''n'', StdInt [5])] \<and>
     sendReq 3 7 1 code_example [(''n'', StdInt [5])] = Inr (Some chunks) \<and> list_all sendable_body chunks \<and> length chunks = 1"
proof -
  define l where "l = [(''n'', StdInt [5])]"
  obtain "is" where i: "writeCode code_example = Inr is" "length (flat_items is) < 1000"
    by (simp add: code_example_def items_def symbol_items_def put_string_def getAlignedLength_def STRALIGN_def flat_put)
  have e: "sendable code_example" by (simp add: code_example_def short_string_def dtime_range_def)
  obtain ps where ps: "writeValue (VList l) = Inr ps" "length (flat_items (concat ps)) < 2000"
    by (simp add: l_def list_pieces_def named_pieces_def str_pieces_def int_pieces_def put_string_def getAlignedLength_def STRALIGN_def flat_put del: put_le.simps)
  define is1 where "is1 = u64_item (length (flat_items is)) # is"
  have c: "code_items code_example = Inr is1" using code_received(1) [OF e i(1)] i(2) by (simp add: is1_def del: put_le.simps)
  have cut: "cut_between 7 1 code_example l" using small_cut_between [OF c _ _ ps(1)] i(2) ps(2) by (simp add: is1_def CHUNKSZ_def del: put_le.simps)
  define e0 where "e0 = mk_encoder (msg_number REQ) 7 1"
  have e0: "enc_offset e0 = 40" "length (ebuf e0) = 24" "sent e0 = []" by (simp_all add: e0_def mk_encoder_def head_bytes_def enc_offset_def INIT_OFFSET_def Let_def)
  have "put_items (is1 @ concat ps) e0 = Some (e0\<lparr>ebuf := ebuf e0 @ flat_items (is1 @ concat ps)\<rparr>)"
    using i(2) ps(2) e0(1) by (intro put_small) (simp add: is1_def CHUNKSZ_def del: put_le.simps)
  then have s: "sendReq 3 7 1 code_example l = Inr (Some [ebuf e0 @ flat_items (is1 @ concat ps)])"
    using c ps(1) e0(3) by (simp add: sendReq_def req_encoder_def e0_def enc_flush_def l_def isTransmissible_def del: writeValue.simps)
  have "sendable_body (ebuf e0 @ flat_items (is1 @ concat ps))" using e0(2) i(2) ps(2) by (auto simp: sendable_body_def is1_def simp del: put_le.simps)
  then show ?thesis using i e cut s unfolding l_def by (intro exI [of _ "is"] exI [of _ "[ebuf e0 @ flat_items (is1 @ concat ps)]"]) simp
qed


section \<open>What goes wrong\<close>

text \<open>A message from a peer whose context is gone ends the loop: the messages behind it stay in the list, although the event that announced them has
  been consumed.\<close>

lemma break_leaves_messages:
  assumes "reqContexts h i = None" "take 24 u = head_bytes (msg_number REQ) reqid sourceid" "reqid < 2 ^ 64" "sourceid < 2 ^ 64"
  shows "data_loop H sig now once (Suc (length ms)) ((i, u) # ms) h = Some (Inr (ms, h, None))"
  using read_head [OF assms(2) _ assms(3,4)] assms(1) by (simp add: handle_msg_def handle_req_def liftR_def)

text \<open>A context that has sent a request goes down with its peer; the reference to it stays, and is followed when the response arrives.\<close>

lemma dangling_context:
  assumes "rspContexts h j = Some (RemoteCtx i)" "i \<noteq> j" "take 24 u = head_bytes (msg_number RSP) reqid sourceid" "reqid < 2 ^ 64" "sourceid < 2 ^ 64"
  shows "handle_msg H sig now once j u (handle_sig H (i, DOWN) h) = Some (Inl UB)"
  using read_head [OF assms(3) _ assms(4,5)] assms(1,2) by (simp add: handle_msg_def handle_rsp_def handle_sig_def get_ctx_def liftR_def)

end
