(* ===== verification/Spec2Isabelle.thy ===== *)
theory Spec2Isabelle
  imports Interval_Set Align_Zts Rolling_Shift Ztime Anf Msg_Handler
begin

text \<open>
  Verification of the core of ztsdb, a database of multivariate time series with an R-like language. The data core is the part
  that every query, every built-in function and every append message goes through: vectors that remember whether they are ordered,
  sets and intervals of times, dimension names, indices, arrays of columns, and time series that pair an array with an ordered index.
  Around it is the path of a request from one database to another: an expression in normal form and the variables it needs are encoded in
  chunks, framed and sent; the reading thread of the other side puts the messages together and hands them to the message handler, which
  dispatches them to the context of the peer; the context puts the request together, has it interpreted and answers it with a value, which
  travels back the same way. File names below are relative to \<open>src/src/\<close>.

  \<^bold>\<open>Parts and theories.\<close>

  \<^item> \<open>Prelude\<close>: exceptions as values (\<open>exn\<close>, \<open>res\<close>, \<open>bindR\<close>, \<open>foldR\<close> for loops whose body may throw), 64-bit sizes, lists.
  \<^item> \<open>Vectors\<close>: \<open>Vector\<close> of \<open>vector_base.hpp\<close>. The record \<open>vec\<close> holds the elements, the ordered flag, the capacity in bytes, the
    allocator and the type number; each member function is a definition (\<open>push_back\<close>, \<open>resize\<close>, \<open>vec_insert\<close>, \<open>erase\<close>,
    \<open>vec_sort\<close>, \<open>setv\<close>). Shown: the flag is never set on an unordered vector, whatever operations are performed; insertion, erasure,
    element-wise functions and the growth of the capacity do what they promise, in 64 bits.
  \<^item> \<open>Vector_Set\<close>, \<open>Intervals\<close>, \<open>Interval_Set\<close>: \<open>vector_set.hpp\<close>, \<open>timezone/interval.hpp\<close>, \<open>timezone/vector_set_time.hpp\<close>. The
    simultaneous scans compute intersection, union and difference of values, of times with intervals, and of intervals with open or
    closed ends. The locale \<open>scan_order\<close> is the contract of a pair of comparisons, interpreted for elements and for times against
    intervals; interval ends are compared as cuts of the time line (\<open>cut_simps\<close>).
  \<^item> \<open>Dname\<close>: \<open>dname.cpp\<close>. A list of names with a map from a name to its positions; the operations refine list operations on labels.
  \<^item> \<open>Index\<close>, \<open>Index_Enum\<close>, \<open>Index_Ops\<close>: the seven kinds of index of \<open>index.hpp\<close>, their enumeration (locale \<open>enumeration\<close>, interpreted
    on \<open>getfirst\<close>/\<open>getnext\<close>), selection, assignment and selection of names.
  \<^item> \<open>Array\<close>, \<open>Array_Append\<close>, \<open>Array_Ops\<close>: \<open>array.hpp\<close>, \<open>array.cpp\<close>. One vector per column, extents and names; construction, addressing,
    selection, assignment; serialisation, append with its rollback, resizing; element-wise functions, transposition, binding.
  \<^item> \<open>Vector_Buffer\<close>: the byte representation of vectors, with the locale \<open>flat_type\<close> for element types and its interpretations for indices,
    doubles and times.
  \<^item> \<open>Zts\<close>, \<open>Zts_Bind\<close>: \<open>zts.cpp\<close>, \<open>zts.hpp\<close> and the binding functions of \<open>base_funcs_array.cpp\<close>. A series is an array of doubles and an
    index of times. \<open>zts_step\<close> is the step relation of a series under append messages; every reachable series has one ascending time per
    row, and a message that is refused leaves it as it was.
  \<^item> \<open>Align\<close>, \<open>Align_Zts\<close>: \<open>timezone/ztime_vector.hpp\<close>, \<open>align_funcs.hpp\<close>, \<open>pseudovector.hpp\<close> and the built-in functions \<open>align\<close>,
    \<open>align_idx\<close> and \<open>op_zts\<close>. The forward pass of \<open>align_closest\<close> equals the search for the nearest time (\<open>nearest\<close>); the two-heap median
    equals the middle of the sorted window.
  \<^item> \<open>Rolling\<close>, \<open>Rolling_Shift\<close>: \<open>array_ops.hpp\<close>, \<open>base_funcs_roll.cpp\<close>. The queue of candidates of \<open>rollmin\<close> and \<open>rollmax\<close> (locale
    \<open>candidate_order\<close>, interpreted for both), rotation and the carrying forward of observations, aggregates.
  \<^item> \<open>Calendar\<close>, \<open>Zone\<close>, \<open>Durations\<close>, \<open>Period\<close>, \<open>Ztime\<close>: the functions of \<open>hinnant_date/date.h\<close> that the program calls,
    \<open>timezone/zone.cpp\<close>, \<open>period.cpp\<close>, \<open>timezone/ztime.cpp\<close> and \<open>timezone/ztime_vector.cpp\<close>. Day numbers are the Gregorian calendar; the
    three searches for an offset and the reverse table agree with the offset of the last transition (\<open>offset_at\<close>); durations, periods, times
    and intervals are read back from their text; a period is added on the local clock. The tables of a zone are given (\<open>tzstate\<close>), as the
    reader of zone files leaves them, and \<open>zone_wf\<close> is what the searches rely on.
  \<^item> \<open>Ast\<close>, \<open>Anf\<close>: \<open>ast.hpp\<close>, \<open>ast.cpp\<close>, \<open>anf.cpp\<close>. Expressions, their equality and the transformation to normal form, which
    succeeds on every program of the parser and leaves operands, conditions and called functions atomic.
  \<^item> \<open>Zstring\<close>: \<open>string.hpp\<close>. Strings of fixed size as cells that may be uninitialised; they refine strings as long as these fit.
  \<^item> \<open>Encode_Code\<close>, \<open>Encode\<close>, \<open>Encode_Value\<close>, \<open>Decode_Value\<close>: \<open>encode.cpp\<close>, \<open>encode.hpp\<close>. Writing and reading of expressions and of values; the encoder
    that fills chunks; the reader of values with its stack of unfinished values. Expressions and values are read back, wherever the
    buffers are cut between pieces, and the encoder stays within its buffer.
  \<^item> \<open>Net\<close>: \<open>net_handler.cpp\<close>. The tables of connections, the lists of buffers and signals, and the reading thread as a state machine over
    what the sockets hold. Every message is delivered, once and in order, whatever pieces and turns it arrives in.
  \<^item> \<open>Requests\<close>: \<open>ReqState\<close> and \<open>RspState\<close> of \<open>interp_ctx.cpp\<close>, \<open>sendReq\<close> and \<open>sendRsp\<close> of \<open>msg_handler.cpp\<close>. Requests and responses are put together from their
    chunks.
  \<^item> \<open>Context\<close>: \<open>InterpCtx\<close> and its subclasses in \<open>interp_ctx.cpp\<close>. The locale \<open>interpreting\<close> is the contract of the virtual function \<open>interpret\<close>, interpreted for
    the remote, the local and the timer context. A request is answered exactly once, when it has been interpreted to its end; requests that
    are interleaved do not interfere.
  \<^item> \<open>Msg_Handler\<close>: \<open>msg_handler.cpp\<close>. Dispatch of signals, messages and timers, and the composition of all parts: a request is served from one end to
    the other.

  \<^bold>\<open>How the code is rendered.\<close> A function that may throw returns \<open>exn + 'a\<close>. Where the state after an exception matters (append), the
  definition returns the state and the result; the binding and selection functions return the exception only. \<open>UB\<close> marks an access outside
  the live part of a buffer. Sizes and positions are natural numbers, with the 64-bit wrap-around written out where the source subtracts,
  adds or multiplies (\<open>size_sub\<close>, \<open>size_mul\<close>, \<open>size_plus\<close>); times and durations are unbounded integers (nanoseconds). Doubles
  are 64-bit patterns or a type parameter, and their comparison, arithmetic and NaN test are parameters of the definitions. Memory
  that the code reads before it is written is given by a function \<open>junk\<close>. A \<open>shared_ptr\<close> is held by value; the extent of the first dimension
  and the lengths of the columns are separate, as in the code. Loops that do not follow the structure of their data are functions with
  a measure, the distance of the counters to the ends of the operands. \<open>readCode\<close> uses the length of the buffer as its fuel, which is enough because
  every node takes some bytes; \<open>data_loop\<close> and \<open>sig_loop\<close> count down what the event has announced, as the code does. Loops that may not end
  (\<open>chars_loop\<close>, \<open>fast_loop\<close>, \<open>readValue\<close>, \<open>remote_loop\<close>, \<open>local_loop\<close>, \<open>timer_loop\<close>) are partial functions whose value is \<open>None\<close> then; the theorems state
  that they return. Threads are interleaved as explicit sequences of actions (\<open>act\<close>).

  \<^bold>\<open>Parameters.\<close> A step of the interpreter (\<open>interp\<close>), with its continuations, frames and environments, is a parameter of the contexts; the
  theorems hold for every interpreter, and the examples run one that counts. The arrival of a signal, the order in which arguments of a constructor are evaluated, the content of fresh
  memory and the sharing of the global environment between contexts are parameters as well.

  \<^bold>\<open>Not modelled.\<close> Memory mapping and file names of persistent vectors, moved-from objects and failure of allocation; logging, display and CSV
  (text formatting and I/O); configuration; creation of sockets, failing system calls and locks; the keyboard; the parser, which is generated;
  the step of the interpreter with closures, environments and copy-on-write pointers; the tables that dispatch built-in functions and operators over
  the types of their arguments; the client library; the reading of zone files. Third-party code (the rest of \<open>hinnant_date\<close>, \<open>juice\<close>, \<open>cutest\<close>, the zic
  reader \<open>timezone/localtime.cpp\<close>) is left aside.
\<close>

end
